(* ===== verification/Prelude.thy ===== *)
theory Prelude
  imports Main "HOL-Library.Word" "HOL-Library.Monad_Syntax" "HOL-Library.Char_ord"
begin

text \<open>
  What every theory of the development shares: C pointers and memory blocks, the allocator,
  the conversions between C integer types, and decimal numerals.

  Conventions. A C function that the model evaluates returns an \<^theory_text>\<open>option\<close>: \<^theory_text>\<open>None\<close> stands for
  undefined behaviour (an access outside a block, a use of a freed or null pointer), a failed
  \<^verbatim>\<open>assert\<close>, or a loop that never ends; \<^theory_text>\<open>Some\<close> is a normal return.
  A theorem that says a function returns \<^theory_text>\<open>Some\<close> is thus a memory-safety and termination
  statement. Bytes are values of type \<^theory_text>\<open>char\<close>, which has exactly 256 elements.
\<close>

section \<open>Collections of facts\<close>

named_theorems mem_simps \<open>reads and writes of memory blocks\<close>
named_theorems cint_simps \<open>conversions between C integer types\<close>

section \<open>Pointers\<close>

text \<open>A pointer is null, points to an object that was freed, or points to a live object.\<close>

datatype 'a ptr = Null | Dangling | Ptr 'a

text \<open>Dereference; undefined for a null or dangling pointer.\<close>

fun deref :: "'a ptr \<Rightarrow> 'a option" where
  "deref (Ptr x) = Some x"
| "deref Null = None"
| "deref Dangling = None"

text \<open>\<^verbatim>\<open>free(p)\<close>: nothing for null, a double free is undefined.\<close>

fun free_ptr :: "'a ptr \<Rightarrow> 'a ptr option" where
  "free_ptr Null = Some Null"
| "free_ptr (Ptr x) = Some Dangling"
| "free_ptr Dangling = None"

lemma deref_Some_iff [simp]: "deref p = Some x \<longleftrightarrow> p = Ptr x"
  by (cases p) auto

text \<open>
  A function that may move its argument either returns the new object, or returns null and
  leaves the caller's pointer as it is (\<^theory_text>\<open>Failed (Ptr s)\<close>) or freed (\<^theory_text>\<open>Failed Dangling\<close>).
\<close>

datatype 's ret = Moved 's | Failed "'s ptr"

text \<open>The returned pointer, used without a check by the caller: null is undefined there.\<close>

fun must :: "'s ret \<Rightarrow> 's option" where
  "must (Moved s) = Some s"
| "must (Failed p) = None"

text \<open>The returned pointer itself.\<close>

fun ret_ptr :: "'s ret \<Rightarrow> 's ptr" where
  "ret_ptr (Moved s) = Ptr s"
| "ret_ptr (Failed p) = Null"

section \<open>Memory blocks\<close>

type_synonym bytes = "char list"

abbreviation NUL :: char where "NUL \<equiv> CHR 0x00"
abbreviation CR :: char where "CR \<equiv> CHR 0x0D"
abbreviation LF :: char where "LF \<equiv> CHR 0x0A"
abbreviation CRLF :: bytes where "CRLF \<equiv> [CR, LF]"

abbreviation byte :: "char \<Rightarrow> nat" where "byte c \<equiv> of_char c"

text \<open>Reading \<^verbatim>\<open>n\<close> bytes and writing a run of bytes at an offset of a block.\<close>

definition mem_read :: "bytes \<Rightarrow> nat \<Rightarrow> nat \<Rightarrow> bytes option" where
  "mem_read b off n = (if off + n \<le> length b then Some (take n (drop off b)) else None)"

definition mem_write :: "bytes \<Rightarrow> nat \<Rightarrow> bytes \<Rightarrow> bytes option" where
  "mem_write b off src =
     (if off + length src \<le> length b
      then Some (take off b @ src @ drop (off + length src) b) else None)"

text \<open>\<^verbatim>\<open>strlen\<close> of the C string that starts a block; undefined when no NUL ends it.\<close>

fun c_strlen :: "bytes \<Rightarrow> nat option" where
  "c_strlen [] = None"
| "c_strlen (c # cs) = (if c = NUL then Some 0 else map_option Suc (c_strlen cs))"

lemma mem_read_in [mem_simps]:
  "off + n \<le> length b \<Longrightarrow> mem_read b off n = Some (take n (drop off b))"
  by (simp add: mem_read_def)

lemma mem_read_Some:
  "mem_read b off n = Some x \<longleftrightarrow> off + n \<le> length b \<and> x = take n (drop off b)"
  by (auto simp: mem_read_def)

lemma mem_write_in [mem_simps]:
  "off + length src \<le> length b \<Longrightarrow>
   mem_write b off src = Some (take off b @ src @ drop (off + length src) b)"
  by (simp add: mem_write_def)

lemma mem_write_Some:
  "mem_write b off src = Some b' \<longleftrightarrow>
   off + length src \<le> length b \<and> b' = take off b @ src @ drop (off + length src) b"
  by (auto simp: mem_write_def)

lemma mem_write_length: "mem_write b off src = Some b' \<Longrightarrow> length b' = length b"
  by (auto simp: mem_write_Some)

lemma c_strlen_append: "NUL \<notin> set cs \<Longrightarrow> c_strlen (cs @ NUL # rest) = Some (length cs)"
  by (induction cs) auto

lemma c_strlen_Some:
  "c_strlen b = Some n \<Longrightarrow> n < length b \<and> b ! n = NUL \<and> NUL \<notin> set (take n b)"
  by (induction b arbitrary: n) (auto split: if_splits)

section \<open>The allocator\<close>

text \<open>
  \<^verbatim>\<open>malloc\<close> as a parameter of the model: which request sizes it grants, and the
  indeterminate contents of a fresh block. Every theorem holds for every allocator.
\<close>

record allocator =
  grants :: "nat \<Rightarrow> bool"
  fresh :: "nat \<Rightarrow> char"

text \<open>An allocator that grants every request, for the closed examples.\<close>

definition roomy :: allocator where
  "roomy = \<lparr>grants = (\<lambda>_. True), fresh = (\<lambda>_. CHR 0xAA)\<rparr>"

lemma roomy_simps [simp]: "grants roomy n" "fresh roomy i = CHR 0xAA"
  by (simp_all add: roomy_def)

section \<open>C integer types\<close>

text \<open>
  \<^verbatim>\<open>size_t\<close> and \<^verbatim>\<open>unsigned long\<close> have 64 bits and are natural numbers reduced modulo
  \<^theory_text>\<open>2 ^ 64\<close> where an operation can wrap; \<^verbatim>\<open>int\<close> has 32 bits; the conversion of a value
  that does not fit keeps its low bits.
\<close>

definition size_t :: "nat \<Rightarrow> nat" where
  "size_t n = n mod 2 ^ 64"

definition to_int :: "int \<Rightarrow> int" where
  "to_int x = signed_take_bit 31 x"

lemma size_t_small [cint_simps]: "n < 2 ^ 64 \<Longrightarrow> size_t n = n"
  by (simp add: size_t_def)

lemma size_t_le: "size_t n \<le> n"
  by (simp add: size_t_def)

lemma to_int_small [cint_simps]: "- (2 ^ 31) \<le> x \<Longrightarrow> x < 2 ^ 31 \<Longrightarrow> to_int x = x"
  by (simp add: to_int_def signed_take_bit_int_eq_self)

lemma to_int_nat [cint_simps]: "n < 2 ^ 31 \<Longrightarrow> to_int (int n) = int n"
  by (rule to_int_small) auto

lemma unat_of_nat_8 [cint_simps]: "n < 256 \<Longrightarrow> unat (of_nat n :: 8 word) = n"
  by (simp add: unat_of_nat)

lemma unat_of_nat_16 [cint_simps]: "n < 65536 \<Longrightarrow> unat (of_nat n :: 16 word) = n"
  by (simp add: unat_of_nat)

lemma unat_of_nat_32 [cint_simps]: "n < 4294967296 \<Longrightarrow> unat (of_nat n :: 32 word) = n"
  by (simp add: unat_of_nat)

lemma unat_of_nat_64 [cint_simps]: "n < 2 ^ 64 \<Longrightarrow> unat (of_nat n :: 64 word) = n"
  by (simp add: unat_of_nat)

lemma unat_less_8: "unat (x :: 8 word) < 256"
  using unsigned_less [of x, where 'a = nat] by simp

lemma unat_less_16: "unat (x :: 16 word) < 65536"
  using unsigned_less [of x, where 'a = nat] by simp

lemma unat_less_32: "unat (x :: 32 word) < 4294967296"
  using unsigned_less [of x, where 'a = nat] by simp

lemma unat_less_64: "unat (x :: 64 word) < 18446744073709551616"
  using unsigned_less [of x, where 'a = nat] by simp

lemmas unat_less = unat_less_8 unat_less_16 unat_less_32 unat_less_64

lemma unat_ucast_8_64 [cint_simps]: "unat (ucast (x :: 8 word) :: 64 word) = unat x"
  using unat_less_8 [of x] by (simp add: unsigned_ucast_eq take_bit_nat_eq_self)

lemma unat_ucast_16_64 [cint_simps]: "unat (ucast (x :: 16 word) :: 64 word) = unat x"
  using unat_less_16 [of x] by (simp add: unsigned_ucast_eq take_bit_nat_eq_self)

text \<open>The two readings of a 64-bit word.\<close>

lemma sint_range_64: "- (2 ^ 63) \<le> sint (v :: 64 word)" "sint (v :: 64 word) < 2 ^ 63"
  using sint_greater_eq [of v] sint_less [of v] by simp_all

lemma uint_64_sint:
  "uint (v :: 64 word) = (if sint v < 0 then sint v + 2 ^ 64 else sint v)"
proof -
  have m: "uint v = sint v mod 2 ^ 64" by (simp add: uint_sint take_bit_eq_mod)
  have a: "sint v mod 2 ^ 64 = sint v" if "\<not> sint v < 0"
    using that sint_range_64 [of v] by (intro mod_pos_pos_trivial) auto
  have b: "sint v mod 2 ^ 64 = sint v + 2 ^ 64" if "sint v < 0"
    using that sint_range_64 [of v] mod_pos_pos_trivial [of "sint v + 2 ^ 64" "2 ^ 64"] by simp
  show ?thesis using m a b by simp
qed

lemma nat_uint_64: "nat (uint (v :: 64 word)) = unat v"
  by (simp add: nat_uint_eq)

lemma unat_64_sint: "unat (v :: 64 word) = nat (if sint v < 0 then sint v + 2 ^ 64 else sint v)"
  unfolding uint_64_sint [symmetric] nat_uint_64 ..

lemma sint_of_uint_64:
  "sint (v :: 64 word) = (if uint v < 2 ^ 63 then uint v else uint v - 2 ^ 64)"
  using uint_64_sint [of v] sint_range_64 [of v] by (auto split: if_splits)

lemma unat_minus_64_sint:
  assumes "sint (v :: 64 word) < 0"
  shows "unat (- v) = nat (- sint v)"
proof -
  have u: "uint v = sint v + 2 ^ 64" using assms by (simp add: uint_64_sint)
  have "uint (- v) = (- uint v) mod 2 ^ 64" by (simp add: uint_word_ariths)
  also have "\<dots> = (- sint v) mod 2 ^ 64"
    unfolding u by simp
  also have "\<dots> = - sint v" using assms sint_range_64 [of v] by (intro mod_pos_pos_trivial) auto
  finally show ?thesis by (simp flip: nat_uint_64)
qed
section \<open>Lists\<close>

lemma take_append_take: "n \<le> m \<Longrightarrow> take n (take m xs @ ys) = take n xs" if "m \<le> length xs" for xs
  using that by (simp add: min_def)

lemma map_upt_length [simp]: "length (map f [a..<b]) = b - a"
  by simp

section \<open>Decimal numerals and character classes\<close>

text \<open>The digit characters and the decimal numeral of a number, most significant digit first.\<close>

definition digit :: "nat \<Rightarrow> char" where
  "digit d = char_of (48 + d)"

fun dec :: "nat \<Rightarrow> bytes" where
  "dec n = (if n < 10 then [digit n] else dec (n div 10) @ [digit (n mod 10)])"

declare dec.simps [simp del]

definition sdec :: "int \<Rightarrow> bytes" where
  "sdec x = (if x < 0 then CHR ''-'' # dec (nat (- x)) else dec (nat x))"

text \<open>The value of a run of digits, read after a number \<^theory_text>\<open>acc\<close>.\<close>

fun dec_val :: "nat \<Rightarrow> bytes \<Rightarrow> nat" where
  "dec_val acc [] = acc"
| "dec_val acc (c # cs) = dec_val (acc * 10 + (byte c - 48)) cs"

definition is_digit :: "char \<Rightarrow> bool" where
  "is_digit c \<longleftrightarrow> 48 \<le> byte c \<and> byte c \<le> 57"

text \<open>\<^verbatim>\<open>isspace\<close>, \<^verbatim>\<open>isprint\<close>, \<^verbatim>\<open>tolower\<close> and \<^verbatim>\<open>toupper\<close> of the C locale.\<close>

definition c_isspace :: "char \<Rightarrow> bool" where
  "c_isspace c \<longleftrightarrow> c = CHR 0x20 \<or> (9 \<le> byte c \<and> byte c \<le> 13)"

definition c_isprint :: "char \<Rightarrow> bool" where
  "c_isprint c \<longleftrightarrow> 0x20 \<le> byte c \<and> byte c \<le> 0x7E"

definition c_tolower :: "char \<Rightarrow> char" where
  "c_tolower c = (if 65 \<le> byte c \<and> byte c \<le> 90 then char_of (byte c + 32) else c)"

definition c_toupper :: "char \<Rightarrow> char" where
  "c_toupper c = (if 97 \<le> byte c \<and> byte c \<le> 122 then char_of (byte c - 32) else c)"

lemma byte_digit [simp]: "d < 10 \<Longrightarrow> byte (digit d) = 48 + d"
  by (simp add: digit_def)

lemma digit_byte: "is_digit c \<Longrightarrow> digit (byte c - 48) = c"
  by (simp add: digit_def is_digit_def)

lemma is_digit_digit [simp]: "d < 10 \<Longrightarrow> is_digit (digit d)"
  by (simp add: is_digit_def)

lemma dec_digits: "\<forall>c \<in> set (dec n). is_digit c"
proof (induction n rule: dec.induct)
  case (1 n)
  then show ?case by (cases "n < 10") (auto simp: dec.simps [of n])
qed

lemma dec_nonempty [simp]: "dec n \<noteq> []"
  by (subst dec.simps) simp

lemma dec_val_append: "dec_val acc (xs @ ys) = dec_val (dec_val acc xs) ys"
  by (induction xs arbitrary: acc) auto

lemma dec_val_dec: "dec_val 0 (dec n) = n"
proof (induction n rule: dec.induct)
  case (1 n)
  then show ?case by (cases "n < 10") (auto simp: dec.simps [of n] dec_val_append)
qed

lemma dec_inj: "dec m = dec n \<longleftrightarrow> m = n"
  using dec_val_dec by metis

text \<open>A numeral of at most \<^theory_text>\<open>k\<close> digits is a number below \<^theory_text>\<open>10 ^ k\<close>.\<close>

lemma length_dec_le: "n < 10 ^ k \<Longrightarrow> 0 < k \<Longrightarrow> length (dec n) \<le> k"
proof (induction n arbitrary: k rule: dec.induct)
  case (1 n)
  show ?case
  proof (cases "n < 10")
    case True
    with 1 show ?thesis by (simp add: dec.simps [of n])
  next
    case False
    obtain j where k: "k = Suc j" using 1(3) by (cases k) auto
    moreover have "0 < j" using 1(2) False k by (cases j) auto
    ultimately have j: "k = Suc j" "0 < j" .
    then have "n div 10 < 10 ^ j" using 1(2) by (simp add: less_mult_imp_div_less mult.commute)
    with 1(1) False j have "length (dec (n div 10)) \<le> j" by simp
    with False j show ?thesis by (simp add: dec.simps [of n])
  qed
qed

text \<open>The first digit is a zero for the number zero only.\<close>

lemma hd_dec: "0 < n \<Longrightarrow> 49 \<le> byte (hd (dec n))"
proof (induction n rule: dec.induct)
  case (1 n)
  then show ?case by (cases "n < 10") (auto simp: dec.simps [of n])
qed

text \<open>A run of digits without a leading zero is the numeral of its value.\<close>

lemma dec_snoc: "0 < n \<Longrightarrow> d < 10 \<Longrightarrow> dec (n * 10 + d) = dec n @ [digit d]"
  by (subst dec.simps) auto

lemma dec_dec_val:
  "0 < acc \<Longrightarrow> \<forall>c \<in> set cs. is_digit c \<Longrightarrow> dec (dec_val acc cs) = dec acc @ cs"
proof (induction cs arbitrary: acc)
  case (Cons c cs)
  then have "dec (acc * 10 + (byte c - 48)) = dec acc @ [c]"
    by (subst dec_snoc) (auto simp: is_digit_def digit_byte)
  with Cons show ?case by simp
qed simp

end
