(* ===== verification/Sds.thy ===== *)
theory Sds
  imports Prelude
begin

text \<open>
  The dynamic string library, \<^verbatim>\<open>lib/hiredis/sds.h\<close> and the core of \<^verbatim>\<open>lib/hiredis/sds.c\<close>:
  the five header layouts with their field widths, the accessors, creation, growth and the
  operations on one string. An SDS value is its header and the block of characters that follows
  the header, up to the end of the allocation; a pointer to it is an \<^theory_text>\<open>sds ptr\<close>.
  \<^theory_text>\<open>sds_ok\<close> is the invariant of the library and \<^theory_text>\<open>sds_str\<close> the string it denotes.
\<close>

section \<open>Headers and accessors (sds.h)\<close>

definition SDS_TYPE_5 :: nat where "SDS_TYPE_5 = 0"
definition SDS_TYPE_8 :: nat where "SDS_TYPE_8 = 1"
definition SDS_TYPE_16 :: nat where "SDS_TYPE_16 = 2"
definition SDS_TYPE_32 :: nat where "SDS_TYPE_32 = 3"
definition SDS_TYPE_64 :: nat where "SDS_TYPE_64 = 4"
definition SDS_MAX_PREALLOC :: nat where "SDS_MAX_PREALLOC = 1024 * 1024"

lemmas sds_type_defs =
  SDS_TYPE_5_def SDS_TYPE_8_def SDS_TYPE_16_def SDS_TYPE_32_def SDS_TYPE_64_def

text \<open>
  The packed headers, the length before the allocated size. A type 5 header is its flags byte,
  whose five high bits are the length; the flags byte of the other types holds the type alone.
\<close>

datatype sdshdr =
    sdshdr5 "8 word"
  | sdshdr8 "8 word" "8 word"
  | sdshdr16 "16 word" "16 word"
  | sdshdr32 "32 word" "32 word"
  | sdshdr64 "64 word" "64 word"

record sds =
  hdr :: sdshdr
  buf :: bytes

text \<open>The type in the low bits of the flags byte \<^verbatim>\<open>s[-1]\<close>.\<close>

fun hdr_type :: "sdshdr \<Rightarrow> nat" where
  "hdr_type (sdshdr5 f) = SDS_TYPE_5"
| "hdr_type (sdshdr8 l a) = SDS_TYPE_8"
| "hdr_type (sdshdr16 l a) = SDS_TYPE_16"
| "hdr_type (sdshdr32 l a) = SDS_TYPE_32"
| "hdr_type (sdshdr64 l a) = SDS_TYPE_64"

definition sdslen :: "sds \<Rightarrow> nat" where
  "sdslen s = (case hdr s of
     sdshdr5 f \<Rightarrow> unat (drop_bit 3 f)
   | sdshdr8 l a \<Rightarrow> unat l
   | sdshdr16 l a \<Rightarrow> unat l
   | sdshdr32 l a \<Rightarrow> unat l
   | sdshdr64 l a \<Rightarrow> unat l)"

text \<open>
  \<^verbatim>\<open>sh->alloc - sh->len\<close>: the narrow fields are promoted to \<^verbatim>\<open>int\<close> and the difference
  converted to \<^verbatim>\<open>size_t\<close>; the 32-bit fields subtract modulo \<^theory_text>\<open>2 ^ 32\<close>.
\<close>

definition sdsavail :: "sds \<Rightarrow> nat" where
  "sdsavail s = (case hdr s of
     sdshdr5 f \<Rightarrow> 0
   | sdshdr8 l a \<Rightarrow> unat (ucast a - ucast l :: 64 word)
   | sdshdr16 l a \<Rightarrow> unat (ucast a - ucast l :: 64 word)
   | sdshdr32 l a \<Rightarrow> unat (a - l)
   | sdshdr64 l a \<Rightarrow> unat (a - l))"

definition hdr_setlen :: "sdshdr \<Rightarrow> nat \<Rightarrow> sdshdr" where
  "hdr_setlen h newlen = (case h of
     sdshdr5 f \<Rightarrow> sdshdr5 (of_nat (push_bit 3 newlen))
   | sdshdr8 l a \<Rightarrow> sdshdr8 (of_nat newlen) a
   | sdshdr16 l a \<Rightarrow> sdshdr16 (of_nat newlen) a
   | sdshdr32 l a \<Rightarrow> sdshdr32 (of_nat newlen) a
   | sdshdr64 l a \<Rightarrow> sdshdr64 (of_nat newlen) a)"

definition sdssetlen :: "sds \<Rightarrow> nat \<Rightarrow> sds" where
  "sdssetlen s newlen = s\<lparr>hdr := hdr_setlen (hdr s) newlen\<rparr>"

definition sdsinclen :: "sds \<Rightarrow> nat \<Rightarrow> sds" where
  "sdsinclen s inc = s\<lparr>hdr := (case hdr s of
     sdshdr5 f \<Rightarrow>
       (let newlen = drop_bit 3 f + of_nat inc in sdshdr5 (push_bit 3 newlen))
   | sdshdr8 l a \<Rightarrow> sdshdr8 (l + of_nat inc) a
   | sdshdr16 l a \<Rightarrow> sdshdr16 (l + of_nat inc) a
   | sdshdr32 l a \<Rightarrow> sdshdr32 (l + of_nat inc) a
   | sdshdr64 l a \<Rightarrow> sdshdr64 (l + of_nat inc) a)\<rparr>"

definition sdsalloc :: "sds \<Rightarrow> nat" where
  "sdsalloc s = (case hdr s of
     sdshdr5 f \<Rightarrow> unat (drop_bit 3 f)
   | sdshdr8 l a \<Rightarrow> unat a
   | sdshdr16 l a \<Rightarrow> unat a
   | sdshdr32 l a \<Rightarrow> unat a
   | sdshdr64 l a \<Rightarrow> unat a)"

definition hdr_setalloc :: "sdshdr \<Rightarrow> nat \<Rightarrow> sdshdr" where
  "hdr_setalloc h newlen = (case h of
     sdshdr5 f \<Rightarrow> sdshdr5 f
   | sdshdr8 l a \<Rightarrow> sdshdr8 l (of_nat newlen)
   | sdshdr16 l a \<Rightarrow> sdshdr16 l (of_nat newlen)
   | sdshdr32 l a \<Rightarrow> sdshdr32 l (of_nat newlen)
   | sdshdr64 l a \<Rightarrow> sdshdr64 l (of_nat newlen))"

definition sdssetalloc :: "sds \<Rightarrow> nat \<Rightarrow> sds" where
  "sdssetalloc s newlen = s\<lparr>hdr := hdr_setalloc (hdr s) newlen\<rparr>"

section \<open>Creation and growth (sds.c)\<close>

definition sdsHdrSize :: "nat \<Rightarrow> nat" where
  "sdsHdrSize type =
     (if type = SDS_TYPE_5 then 1
      else if type = SDS_TYPE_8 then 3
      else if type = SDS_TYPE_16 then 5
      else if type = SDS_TYPE_32 then 9
      else if type = SDS_TYPE_64 then 17
      else 0)"

definition sdsReqType :: "nat \<Rightarrow> nat" where
  "sdsReqType string_size =
     (if string_size < 32 then SDS_TYPE_5
      else if string_size < 0xff then SDS_TYPE_8
      else if string_size < 0xffff then SDS_TYPE_16
      else if string_size < 0xffffffff then SDS_TYPE_32
      else SDS_TYPE_64)"

text \<open>
  The header that the switches over the type write: length and allocated size. The type 5
  header holds the length alone.
\<close>

definition mk_hdr :: "nat \<Rightarrow> nat \<Rightarrow> nat \<Rightarrow> sdshdr" where
  "mk_hdr type len alloc =
     (if type = SDS_TYPE_5 then sdshdr5 (of_nat (push_bit 3 len))
      else if type = SDS_TYPE_8 then sdshdr8 (of_nat len) (of_nat alloc)
      else if type = SDS_TYPE_16 then sdshdr16 (of_nat len) (of_nat alloc)
      else if type = SDS_TYPE_32 then sdshdr32 (of_nat len) (of_nat alloc)
      else sdshdr64 (of_nat len) (of_nat alloc))"

text \<open>
  \<^verbatim>\<open>s_malloc(hdrlen+n+1)\<close> and \<^verbatim>\<open>s_realloc\<close>, seen from behind the header: the part of the
  block that holds characters. The request is computed in \<^verbatim>\<open>size_t\<close>.
\<close>

definition sds_malloc_body :: "allocator \<Rightarrow> nat \<Rightarrow> nat \<Rightarrow> bytes option" where
  "sds_malloc_body A hdrlen n =
     (let req = size_t (hdrlen + n + 1)
      in if grants A req then Some (map (fresh A) [hdrlen..<req]) else None)"

definition sds_realloc_body :: "allocator \<Rightarrow> nat \<Rightarrow> bytes \<Rightarrow> nat \<Rightarrow> bytes option" where
  "sds_realloc_body A hdrlen b n =
     (let req = size_t (hdrlen + n + 1)
      in if grants A req
         then Some (take (req - hdrlen) b @ map (fresh A) [hdrlen + length b..<req])
         else None)"

text \<open>Stores into the characters of a string.\<close>

definition sds_write :: "sds \<Rightarrow> nat \<Rightarrow> bytes \<Rightarrow> sds option" where
  "sds_write s off src = map_option (\<lambda>b. s\<lparr>buf := b\<rparr>) (mem_write (buf s) off src)"

text \<open>
  \<^verbatim>\<open>sdsnewlen(init, initlen)\<close>: \<^theory_text>\<open>init\<close> is null or the block that starts at the pointer.
\<close>

definition sdsnewlen :: "allocator \<Rightarrow> bytes ptr \<Rightarrow> nat \<Rightarrow> sds ptr option" where
  "sdsnewlen A init initlen =
     (let type = (if sdsReqType initlen = SDS_TYPE_5 \<and> initlen = 0 then SDS_TYPE_8
                  else sdsReqType initlen)
      in case sds_malloc_body A (sdsHdrSize type) initlen of
           None \<Rightarrow> Some Null
         | Some b \<Rightarrow>
             (let s = \<lparr>hdr = mk_hdr type initlen initlen,
                       buf = (if init = Null then map (\<lambda>_. NUL) b else b)\<rparr>
              in do {
                   s \<leftarrow> (if initlen \<noteq> 0 \<and> init \<noteq> Null
                        then do { p \<leftarrow> deref init; src \<leftarrow> mem_read p 0 initlen; sds_write s 0 src }
                        else Some s);
                   s \<leftarrow> sds_write s initlen [NUL];
                   Some (Ptr s)
                 }))"

definition sdsempty :: "allocator \<Rightarrow> sds ptr option" where
  "sdsempty A = sdsnewlen A (Ptr [NUL]) 0"

definition sdsnew :: "allocator \<Rightarrow> bytes ptr \<Rightarrow> sds ptr option" where
  "sdsnew A init = do {
     initlen \<leftarrow> (if init = Null then Some 0 else do { p \<leftarrow> deref init; c_strlen p });
     sdsnewlen A init initlen
   }"

definition sdsdup :: "allocator \<Rightarrow> sds \<Rightarrow> sds ptr option" where
  "sdsdup A s = sdsnewlen A (Ptr (buf s)) (sdslen s)"

definition sdsfree :: "sds ptr \<Rightarrow> sds ptr option" where
  "sdsfree s = free_ptr s"

definition sdsupdatelen :: "sds \<Rightarrow> sds option" where
  "sdsupdatelen s = do {
     reallen \<leftarrow> c_strlen (buf s);
     Some (sdssetlen s (nat (to_int (int reallen) mod 2 ^ 64)))
   }"

definition sdsclear :: "sds \<Rightarrow> sds option" where
  "sdsclear s = sds_write (sdssetlen s 0) 0 [NUL]"

type_synonym sds_ret = "sds ret"

text \<open>The size and the type that \<^verbatim>\<open>sdsMakeRoomFor\<close> chooses.\<close>

definition sds_room_len :: "nat \<Rightarrow> nat \<Rightarrow> nat" where
  "sds_room_len len addlen =
     (let newlen = size_t (len + addlen)
      in if newlen < SDS_MAX_PREALLOC then newlen * 2 else size_t (newlen + SDS_MAX_PREALLOC))"

definition sds_room_type :: "nat \<Rightarrow> nat" where
  "sds_room_type newlen =
     (if sdsReqType newlen = SDS_TYPE_5 then SDS_TYPE_8 else sdsReqType newlen)"

definition sdsMakeRoomFor :: "allocator \<Rightarrow> sds \<Rightarrow> nat \<Rightarrow> sds_ret option" where
  "sdsMakeRoomFor A s addlen =
     (if sdsavail s \<ge> addlen then Some (Moved s)
      else
        (let oldtype = hdr_type (hdr s);
             len = sdslen s;
             newlen = sds_room_len len addlen;
             type = sds_room_type newlen;
             hdrlen = sdsHdrSize type
         in if oldtype = type then
              (case sds_realloc_body A hdrlen (buf s) newlen of
                 None \<Rightarrow> Some (Failed Dangling)
               | Some b \<Rightarrow> Some (Moved (sdssetalloc (s\<lparr>buf := b\<rparr>) newlen)))
            else
              (case sds_malloc_body A hdrlen newlen of
                 None \<Rightarrow> Some (Failed (Ptr s))
               | Some b \<Rightarrow> do {
                   src \<leftarrow> mem_read (buf s) 0 (len + 1);
                   b \<leftarrow> mem_write b 0 src;
                   Some (Moved (sdssetalloc
                     (sdssetlen \<lparr>hdr = mk_hdr type 0 0, buf = b\<rparr> len) newlen))
                 })))"

definition sdsRemoveFreeSpace :: "allocator \<Rightarrow> sds \<Rightarrow> sds_ret option" where
  "sdsRemoveFreeSpace A s =
     (let oldtype = hdr_type (hdr s);
          len = sdslen s;
          type = sdsReqType len;
          hdrlen = sdsHdrSize type
      in if oldtype = type then
           (case sds_realloc_body A hdrlen (buf s) len of
              None \<Rightarrow> Some (Failed (Ptr s))
            | Some b \<Rightarrow> Some (Moved (sdssetalloc (s\<lparr>buf := b\<rparr>) len)))
         else
           (case sds_malloc_body A hdrlen len of
              None \<Rightarrow> Some (Failed (Ptr s))
            | Some b \<Rightarrow> do {
                src \<leftarrow> mem_read (buf s) 0 (len + 1);
                b \<leftarrow> mem_write b 0 src;
                Some (Moved (sdssetalloc (sdssetlen \<lparr>hdr = mk_hdr type 0 0, buf = b\<rparr> len) len))
              }))"

definition sdsAllocSize :: "sds \<Rightarrow> nat" where
  "sdsAllocSize s = sdsHdrSize (hdr_type (hdr s)) + sdsalloc s + 1"

text \<open>
  \<^verbatim>\<open>sdsIncrLen(s, incr)\<close> with its assertions: the narrow fields compare as \<^verbatim>\<open>int\<close>, the
  wide ones as unsigned numbers, and so does \<^verbatim>\<open>-incr\<close>.
\<close>

definition sdsIncrLen :: "sds \<Rightarrow> int \<Rightarrow> sds option" where
  "sdsIncrLen s incr =
     (let oldlen = int (sdslen s);
          shrinks = (incr < 0 \<and> oldlen \<ge> - incr);
          ok = (case hdr s of
                  sdshdr5 f \<Rightarrow> (incr > 0 \<and> oldlen + incr < 32) \<or> shrinks
                | sdshdr8 l a \<Rightarrow> (incr \<ge> 0 \<and> uint a - uint l \<ge> incr) \<or> shrinks
                | sdshdr16 l a \<Rightarrow> (incr \<ge> 0 \<and> uint a - uint l \<ge> incr) \<or> shrinks
                | sdshdr32 l a \<Rightarrow> (incr \<ge> 0 \<and> uint (a - l) \<ge> incr) \<or> shrinks
                | sdshdr64 l a \<Rightarrow> (incr \<ge> 0 \<and> uint (a - l) \<ge> incr) \<or> shrinks);
          len = nat (oldlen + incr)
      in if ok then sds_write (sdssetlen s len) len [NUL] else None)"

section \<open>Operations on one string (sds.c)\<close>

definition sdsgrowzero :: "allocator \<Rightarrow> sds \<Rightarrow> nat \<Rightarrow> sds_ret option" where
  "sdsgrowzero A s len =
     (let curlen = sdslen s
      in if len \<le> curlen then Some (Moved s)
         else do {
           r \<leftarrow> sdsMakeRoomFor A s (len - curlen);
           (case r of
              Failed old \<Rightarrow> Some (Failed old)
            | Moved s \<Rightarrow> do {
                s \<leftarrow> sds_write s curlen (replicate (len - curlen + 1) NUL);
                Some (Moved (sdssetlen s len))
              })
         })"

text \<open>\<^theory_text>\<open>t\<close> is the block that starts at the pointer \<^verbatim>\<open>t\<close>.\<close>

definition sdscatlen :: "allocator \<Rightarrow> sds \<Rightarrow> bytes \<Rightarrow> nat \<Rightarrow> sds_ret option" where
  "sdscatlen A s t len =
     (let curlen = sdslen s
      in do {
           r \<leftarrow> sdsMakeRoomFor A s len;
           (case r of
              Failed old \<Rightarrow> Some (Failed old)
            | Moved s \<Rightarrow> do {
                src \<leftarrow> mem_read t 0 len;
                s \<leftarrow> sds_write s curlen src;
                s \<leftarrow> sds_write (sdssetlen s (size_t (curlen + len))) (size_t (curlen + len)) [NUL];
                Some (Moved s)
              })
         })"

definition sdscat :: "allocator \<Rightarrow> sds \<Rightarrow> bytes \<Rightarrow> sds_ret option" where
  "sdscat A s t = do { n \<leftarrow> c_strlen t; sdscatlen A s t n }"

definition sdscatsds :: "allocator \<Rightarrow> sds \<Rightarrow> sds \<Rightarrow> sds_ret option" where
  "sdscatsds A s t = sdscatlen A s (buf t) (sdslen t)"

definition sdscpylen :: "allocator \<Rightarrow> sds \<Rightarrow> bytes \<Rightarrow> nat \<Rightarrow> sds_ret option" where
  "sdscpylen A s t len = do {
     r \<leftarrow> (if sdsalloc s < len then sdsMakeRoomFor A s (len - sdslen s) else Some (Moved s));
     (case r of
        Failed old \<Rightarrow> Some (Failed old)
      | Moved s \<Rightarrow> do {
          src \<leftarrow> mem_read t 0 len;
          s \<leftarrow> sds_write s 0 src;
          s \<leftarrow> sds_write s len [NUL];
          Some (Moved (sdssetlen s len))
        })
   }"

definition sdscpy :: "allocator \<Rightarrow> sds \<Rightarrow> bytes \<Rightarrow> sds_ret option" where
  "sdscpy A s t = do { n \<leftarrow> c_strlen t; sdscpylen A s t n }"

section \<open>Laws of the headers\<close>

text \<open>The lengths that the length field of a header type can hold.\<close>

definition hdr_max :: "nat \<Rightarrow> nat" where
  "hdr_max type =
     (if type = SDS_TYPE_5 then 31
      else if type = SDS_TYPE_8 then 2 ^ 8 - 1
      else if type = SDS_TYPE_16 then 2 ^ 16 - 1
      else if type = SDS_TYPE_32 then 2 ^ 32 - 1
      else 2 ^ 64 - 1)"

lemma unat_type5_len: "n \<le> 31 \<Longrightarrow> unat (drop_bit 3 (of_nat (push_bit 3 n) :: 8 word)) = n"
proof -
  assume "n \<le> 31"
  then have "unat (of_nat (push_bit 3 n) :: 8 word) = n * 8"
    by (simp add: push_bit_eq_mult unat_of_nat del: of_nat_mult)
  then show ?thesis unfolding unat_drop_bit_eq by (simp add: drop_bit_eq_div)
qed

lemma type5_len_max: "unat (drop_bit 3 (f :: 8 word)) \<le> 31"
  using unat_less_8 [of f] unfolding unat_drop_bit_eq by (simp add: drop_bit_eq_div)

lemma sdslen_le_max: "sdslen s \<le> hdr_max (hdr_type (hdr s))"
proof (cases "hdr s")
  case (sdshdr5 f)
  then show ?thesis using type5_len_max [of f]
    by (simp add: sdslen_def hdr_max_def sds_type_defs)
next
  case (sdshdr8 l a)
  then show ?thesis using unat_less_8 [of l]
    by (simp add: sdslen_def hdr_max_def sds_type_defs)
next
  case (sdshdr16 l a)
  then show ?thesis using unat_less_16 [of l]
    by (simp add: sdslen_def hdr_max_def sds_type_defs)
next
  case (sdshdr32 l a)
  then show ?thesis using unat_less_32 [of l]
    by (simp add: sdslen_def hdr_max_def sds_type_defs)
next
  case (sdshdr64 l a)
  then show ?thesis using unat_less_64 [of l]
    by (simp add: sdslen_def hdr_max_def sds_type_defs)
qed

lemma sdsalloc_le_max: "sdsalloc s \<le> hdr_max (hdr_type (hdr s))"
proof (cases "hdr s")
  case (sdshdr5 f)
  then show ?thesis using type5_len_max [of f]
    by (simp add: sdsalloc_def hdr_max_def sds_type_defs)
next
  case (sdshdr8 l a)
  then show ?thesis using unat_less_8 [of a]
    by (simp add: sdsalloc_def hdr_max_def sds_type_defs)
next
  case (sdshdr16 l a)
  then show ?thesis using unat_less_16 [of a]
    by (simp add: sdsalloc_def hdr_max_def sds_type_defs)
next
  case (sdshdr32 l a)
  then show ?thesis using unat_less_32 [of a]
    by (simp add: sdsalloc_def hdr_max_def sds_type_defs)
next
  case (sdshdr64 l a)
  then show ?thesis using unat_less_64 [of a]
    by (simp add: sdsalloc_def hdr_max_def sds_type_defs)
qed

named_theorems sds_simps \<open>how the accessors see the updates of a header\<close>

lemma sdslen_setlen [sds_simps]:
  "n \<le> hdr_max (hdr_type (hdr s)) \<Longrightarrow> sdslen (sdssetlen s n) = n"
  by (cases "hdr s")
    (auto simp: sdslen_def sdssetlen_def hdr_setlen_def hdr_max_def sds_type_defs
      unat_type5_len cint_simps)

lemma sdsalloc_setlen [sds_simps]:
  "n \<le> hdr_max (hdr_type (hdr s)) \<Longrightarrow>
   sdsalloc (sdssetlen s n) = (if hdr_type (hdr s) = SDS_TYPE_5 then n else sdsalloc s)"
  by (cases "hdr s")
    (auto simp: sdsalloc_def sdssetlen_def hdr_setlen_def hdr_max_def sds_type_defs
      unat_type5_len cint_simps)

lemma sdslen_setalloc [sds_simps]: "sdslen (sdssetalloc s n) = sdslen s"
  by (cases "hdr s") (auto simp: sdslen_def sdssetalloc_def hdr_setalloc_def)

lemma sdsalloc_setalloc [sds_simps]:
  "n \<le> hdr_max (hdr_type (hdr s)) \<Longrightarrow> hdr_type (hdr s) \<noteq> SDS_TYPE_5 \<Longrightarrow>
   sdsalloc (sdssetalloc s n) = n"
  by (cases "hdr s")
    (auto simp: sdsalloc_def sdssetalloc_def hdr_setalloc_def hdr_max_def sds_type_defs
      cint_simps)

lemma buf_set [sds_simps]: "buf (sdssetlen s n) = buf s" "buf (sdssetalloc s n) = buf s"
  by (simp_all add: sdssetlen_def sdssetalloc_def)

lemma hdr_type_set [sds_simps]:
  "hdr_type (hdr (sdssetlen s n)) = hdr_type (hdr s)"
  "hdr_type (hdr (sdssetalloc s n)) = hdr_type (hdr s)"
  by (cases "hdr s"; simp add: sdssetlen_def hdr_setlen_def sdssetalloc_def hdr_setalloc_def)+

lemma buf_update_acc [sds_simps]:
  "sdslen (s\<lparr>buf := b\<rparr>) = sdslen s" "sdsalloc (s\<lparr>buf := b\<rparr>) = sdsalloc s"
  "sdsavail (s\<lparr>buf := b\<rparr>) = sdsavail s"
  by (simp_all add: sdslen_def sdsalloc_def sdsavail_def)

lemma sdsinclen_setlen:
  assumes "sdslen s + n \<le> hdr_max (hdr_type (hdr s))"
  shows "sdsinclen s n = sdssetlen s (sdslen s + n)"
proof (cases "hdr s")
  case (sdshdr5 f)
  have "push_bit 3 (drop_bit 3 f + of_nat n) = of_nat (push_bit 3 (unat (drop_bit 3 f) + n))"
    by (simp add: push_bit_eq_mult of_nat_mult)
  with sdshdr5 show ?thesis
    by (simp add: sdsinclen_def sdssetlen_def hdr_setlen_def sdslen_def Let_def)
qed (simp_all add: sdsinclen_def sdssetlen_def hdr_setlen_def sdslen_def)

lemma sdsavail_eq:
  assumes "sdslen s \<le> sdsalloc s"
  shows "sdsavail s = (if hdr_type (hdr s) = SDS_TYPE_5 then 0 else sdsalloc s - sdslen s)"
proof (cases "hdr s")
  case (sdshdr8 l a)
  with assms have "ucast l \<le> (ucast a :: 64 word)"
    by (simp add: sdslen_def sdsalloc_def word_le_nat_alt cint_simps)
  with sdshdr8 show ?thesis
    by (simp add: sdslen_def sdsalloc_def sdsavail_def unat_sub cint_simps sds_type_defs)
next
  case (sdshdr16 l a)
  with assms have "ucast l \<le> (ucast a :: 64 word)"
    by (simp add: sdslen_def sdsalloc_def word_le_nat_alt cint_simps)
  with sdshdr16 show ?thesis
    by (simp add: sdslen_def sdsalloc_def sdsavail_def unat_sub cint_simps sds_type_defs)
qed (use assms in \<open>auto simp: sdslen_def sdsalloc_def sdsavail_def unat_sub word_le_nat_alt
  sds_type_defs\<close>)

lemma hdr_type_le: "hdr_type h \<le> SDS_TYPE_64"
  by (cases h) (auto simp: sds_type_defs)

lemma hdr_type_mk [sds_simps]: "type \<le> SDS_TYPE_64 \<Longrightarrow> hdr_type (mk_hdr type l a) = type"
  by (auto simp: mk_hdr_def sds_type_defs)

lemma sdslen_mk [sds_simps]:
  "l \<le> hdr_max type \<Longrightarrow> sdslen \<lparr>hdr = mk_hdr type l a, buf = b\<rparr> = l"
  by (auto simp: mk_hdr_def sdslen_def hdr_max_def sds_type_defs unat_type5_len cint_simps)

lemma sdsalloc_mk [sds_simps]:
  "l \<le> hdr_max type \<Longrightarrow> sdsalloc \<lparr>hdr = mk_hdr type l l, buf = b\<rparr> = l"
  by (auto simp: mk_hdr_def sdsalloc_def hdr_max_def sds_type_defs unat_type5_len cint_simps)

lemma sdsReqType_le: "sdsReqType n \<le> SDS_TYPE_64"
  by (auto simp: sdsReqType_def sds_type_defs)

lemma sdsReqType_max: "n < 2 ^ 64 \<Longrightarrow> n \<le> hdr_max (sdsReqType n)"
  by (auto simp: sdsReqType_def hdr_max_def sds_type_defs)

lemma hdr_max_mono: "t \<le> t' \<Longrightarrow> hdr_max t \<le> hdr_max t'"
  by (auto simp: hdr_max_def sds_type_defs)

lemma sdsHdrSize_bound: "sdsHdrSize t \<le> 17"
  by (simp add: sdsHdrSize_def)

section \<open>The invariant and the string\<close>

text \<open>
  \<^theory_text>\<open>sds_wf\<close>: the header fits the block. \<^theory_text>\<open>sds_ok\<close> adds the NUL behind the string, which
  \<^verbatim>\<open>sdscatfmt\<close> restores only when it returns.
\<close>

definition sds_wf :: "sds \<Rightarrow> bool" where
  "sds_wf s \<longleftrightarrow> sdslen s \<le> sdsalloc s \<and> sdsalloc s < length (buf s)"

definition sds_ok :: "sds \<Rightarrow> bool" where
  "sds_ok s \<longleftrightarrow> sdslen s \<le> sdsalloc s \<and> sdsalloc s < length (buf s) \<and> buf s ! sdslen s = NUL"

definition sds_str :: "sds \<Rightarrow> bytes" where
  "sds_str s = take (sdslen s) (buf s)"

lemma sds_okD:
  assumes "sds_ok s"
  shows "sdslen s \<le> sdsalloc s" "sdsalloc s < length (buf s)" "sdslen s < length (buf s)"
    "buf s ! sdslen s = NUL"
  using assms by (auto simp: sds_ok_def)

lemma sds_ok_wf: "sds_ok s \<longleftrightarrow> sds_wf s \<and> buf s ! sdslen s = NUL"
  by (auto simp: sds_ok_def sds_wf_def)

lemma sds_wfD:
  assumes "sds_wf s"
  shows "sdslen s \<le> sdsalloc s" "sdsalloc s < length (buf s)" "sdslen s < length (buf s)"
  using assms by (auto simp: sds_wf_def)

lemma length_sds_str: "sds_ok s \<Longrightarrow> length (sds_str s) = sdslen s"
  by (simp add: sds_str_def sds_ok_def)

lemma sds_buf_prefix: "sds_ok s \<Longrightarrow> take (Suc (sdslen s)) (buf s) = sds_str s @ [NUL]"
  by (simp add: sds_str_def sds_ok_def take_Suc_conv_app_nth)

lemma sds_write_in [mem_simps]:
  "off + length src \<le> length (buf s) \<Longrightarrow>
   sds_write s off src =
     Some (s\<lparr>buf := take off (buf s) @ src @ drop (off + length src) (buf s)\<rparr>)"
  by (simp add: sds_write_def mem_simps)

text \<open>Room in the block behind the string, whatever the header says.\<close>

lemma sds_okI:
  "sdslen s = n \<Longrightarrow> n \<le> sdsalloc s \<Longrightarrow> sdsalloc s < length (buf s) \<Longrightarrow> buf s ! n = NUL \<Longrightarrow> sds_ok s"
  by (simp add: sds_ok_def)

text \<open>Writing \<^theory_text>\<open>src\<close> and a NUL at offset \<^theory_text>\<open>k\<close>, with the length set behind it.\<close>

lemma sds_set_content:
  assumes s: "sds_ok s" and k: "k \<le> sdslen s"
    and fits: "k + length src \<le> sdsalloc s"
    and b: "b = take k (buf s) @ src @ NUL # rest" and len: "length b = length (buf s)"
  shows "sds_ok (sdssetlen (s\<lparr>buf := b\<rparr>) (k + length src))"
    and "sds_str (sdssetlen (s\<lparr>buf := b\<rparr>) (k + length src)) = take k (sds_str s) @ src"
proof -
  let ?n = "k + length src"
  have max: "?n \<le> hdr_max (hdr_type (hdr s))"
    using fits sdsalloc_le_max [of s] by linarith
  note acc = sdslen_setlen [of ?n "s\<lparr>buf := b\<rparr>"] sdsalloc_setlen [of ?n "s\<lparr>buf := b\<rparr>"]
  have kl: "k \<le> length (buf s)" using sds_okD [OF s] k by linarith
  then have nul: "b ! ?n = NUL" by (simp add: b nth_append)
  show "sds_ok (sdssetlen (s\<lparr>buf := b\<rparr>) ?n)"
    using acc max nul fits len sds_okD [OF s] by (auto intro!: sds_okI [where n = ?n] simp: sds_simps)
  show "sds_str (sdssetlen (s\<lparr>buf := b\<rparr>) ?n) = take k (sds_str s) @ src"
    using acc max kl k by (simp add: sds_str_def sds_simps b)
qed

section \<open>Creation and growth\<close>

lemma sds_malloc_body_Some:
  assumes "sds_malloc_body A hdrlen n = Some b" and "hdrlen + n + 1 < 2 ^ 64"
  shows "length b = n + 1"
  using assms by (auto simp: sds_malloc_body_def cint_simps Let_def split: if_splits)

lemma sds_realloc_body_Some:
  assumes "sds_realloc_body A hdrlen b0 n = Some b" and "hdrlen + n + 1 < 2 ^ 64"
  shows "length b = n + 1 \<and> take (min (length b0) (n + 1)) b = take (n + 1) b0"
  using assms
  by (auto simp: sds_realloc_body_def cint_simps Let_def min_def split: if_splits)

lemma sdsnewlen_spec:
  assumes n: "n < 2 ^ 63" and init: "init = Null \<or> (init = Ptr p \<and> n \<le> length p)"
  shows "sdsnewlen A init n = Some Null \<or>
    (\<exists>s. sdsnewlen A init n = Some (Ptr s) \<and> sds_ok s \<and>
      sds_str s = (if init = Null then replicate n NUL else take n p))"
proof -
  define type where
    "type = (if sdsReqType n = SDS_TYPE_5 \<and> n = 0 then SDS_TYPE_8 else sdsReqType n)"
  have max: "n \<le> hdr_max type" "type \<le> SDS_TYPE_64"
    using sdsReqType_max [of n] sdsReqType_le [of n] n
    by (auto simp: type_def hdr_max_def sds_type_defs)
  have sz: "sdsHdrSize type + n + 1 < 2 ^ 64"
    using sdsHdrSize_bound [of type] n by simp
  show ?thesis
  proof (cases "sds_malloc_body A (sdsHdrSize type) n")
    case None
    then show ?thesis by (simp add: sdsnewlen_def type_def Let_def)
  next
    case (Some b)
    note len = sds_malloc_body_Some [OF Some sz]
    define src where "src = (if init = Null then replicate n NUL else take n p)"
    have lsrc: "length src = n" using init by (auto simp: src_def)
    define s' where "s' = \<lparr>hdr = mk_hdr type n n, buf = src @ [NUL]\<rparr>"
    have "sdsnewlen A init n = Some (Ptr s')"
      using init len Some lsrc
      by (auto simp: sdsnewlen_def type_def [symmetric] Let_def mem_simps s'_def src_def
          map_replicate_const replicate_append_same [symmetric])
    moreover have "sds_ok s' \<and> sds_str s' = src"
      using max lsrc by (simp add: sds_ok_def sds_str_def s'_def sds_simps nth_append)
    ultimately show ?thesis by (auto simp: src_def)
  qed
qed

text \<open>The two outcomes of \<^theory_text>\<open>sdsMakeRoomFor\<close>.\<close>

lemma sdsMakeRoomFor_wf:
  assumes ok: "sds_wf s" and small: "sdslen s + n < 2 ^ 63"
  obtains (room) s' where "sdsMakeRoomFor A s n = Some (Moved s')" "sds_wf s'"
      "sds_str s' = sds_str s" "sdslen s' = sdslen s" "sdslen s + n \<le> sdsalloc s'"
      "take (Suc (sdslen s)) (buf s') = take (Suc (sdslen s)) (buf s)"
  | (oom) p where "sdsMakeRoomFor A s n = Some (Failed p)" "p = Ptr s \<or> p = Dangling"
      "sdsavail s < n"
proof (cases "sdsavail s \<ge> n")
  case True
  with sdsavail_eq [OF sds_wfD(1) [OF ok]] sds_wfD(1) [OF ok]
  have "sdslen s + n \<le> sdsalloc s" by (auto split: if_splits)
  with True ok show ?thesis by (intro room [of s]) (auto simp: sdsMakeRoomFor_def)
next
  case False
  define newlen where "newlen = sds_room_len (sdslen s) n"
  define type where "type = sds_room_type newlen"
  have newlen: "sdslen s + n \<le> newlen" "newlen < 2 ^ 63 + 2 ^ 21"
    using small by (auto simp: newlen_def sds_room_len_def Let_def cint_simps SDS_MAX_PREALLOC_def)
  have max: "newlen \<le> hdr_max type" "type \<le> SDS_TYPE_64" "type \<noteq> SDS_TYPE_5"
    using sdsReqType_max [of newlen] sdsReqType_le [of newlen] newlen(2)
    by (auto simp: type_def sds_room_type_def sdsReqType_def hdr_max_def sds_type_defs)
  have sz: "sdsHdrSize type + newlen + 1 < 2 ^ 64"
    using sdsHdrSize_bound [of type] newlen(2) by simp
  note unf = sdsMakeRoomFor_def Let_def newlen_def [symmetric] type_def [symmetric]
  have len: "sdslen s \<le> newlen" using newlen(1) by simp
  note okD = sds_wfD [OF ok]
  show ?thesis
  proof (cases "hdr_type (hdr s) = type")
    case same: True
    show ?thesis
    proof (cases "sds_realloc_body A (sdsHdrSize type) (buf s) newlen")
      case None
      with False same show ?thesis by (intro oom [of Dangling]) (simp_all add: unf)
    next
      case (Some b)
      note b = sds_realloc_body_Some [OF Some sz]
      let ?s' = "sdssetalloc (s\<lparr>buf := b\<rparr>) newlen"
      have pre: "take (Suc (sdslen s)) b = take (Suc (sdslen s)) (buf s)"
      proof -
        have "take (Suc (sdslen s)) (take (min (length (buf s)) (newlen + 1)) b) =
              take (Suc (sdslen s)) (take (newlen + 1) (buf s))"
          using b by simp
        with okD(3) len show ?thesis by (simp add: min_def split: if_splits)
      qed
      have al: "sdsalloc ?s' = newlen" "sdslen ?s' = sdslen s"
        using max same by (simp_all add: sds_simps)
      have str: "sds_str ?s' = sds_str s"
        using arg_cong [OF pre, of "take (sdslen s)"] al(2)
        by (simp add: sds_str_def sds_simps)
      show ?thesis
      proof (rule room [of ?s'])
        show "sdsMakeRoomFor A s n = Some (Moved ?s')"
          using False same Some by (simp add: unf)
        show "sds_wf ?s'"
          using al b len by (simp add: sds_wf_def sds_simps)
      qed (use al str pre newlen(1) in \<open>simp_all add: sds_simps\<close>)
    qed
  next
    case other: False
    show ?thesis
    proof (cases "sds_malloc_body A (sdsHdrSize type) newlen")
      case None
      with False other show ?thesis by (intro oom [of "Ptr s"]) (simp_all add: unf)
    next
      case (Some b)
      note lb = sds_malloc_body_Some [OF Some sz]
      define b' where "b' = take (Suc (sdslen s)) (buf s) @ drop (Suc (sdslen s)) b"
      define h where "h = sdssetlen \<lparr>hdr = mk_hdr type 0 0, buf = b'\<rparr> (sdslen s)"
      let ?s' = "sdssetalloc h newlen"
      have lb': "length b' = newlen + 1" using lb len okD(3) by (simp add: b'_def)
      have ht: "hdr_type (hdr h) = type" using max by (simp add: h_def sds_simps)
      have al: "sdsalloc ?s' = newlen" "sdslen ?s' = sdslen s"
        using max ht len by (simp_all add: sds_simps h_def)
      have bufs: "buf ?s' = b'" by (simp add: sds_simps h_def)
      have pre: "take (Suc (sdslen s)) b' = take (Suc (sdslen s)) (buf s)"
        using okD(3) by (simp add: b'_def)
      have str: "sds_str ?s' = sds_str s"
        using arg_cong [OF pre, of "take (sdslen s)"] al(2) bufs by (simp add: sds_str_def)
      show ?thesis
      proof (rule room [of ?s'])
        have "mem_read (buf s) 0 (sdslen s + 1) = Some (take (Suc (sdslen s)) (buf s))"
          using okD(3) by (simp add: mem_simps)
        moreover have "mem_write b 0 (take (Suc (sdslen s)) (buf s)) = Some b'"
          using okD(3) lb len by (simp add: mem_simps b'_def min_absorb2)
        ultimately show "sdsMakeRoomFor A s n = Some (Moved ?s')"
          using False other Some by (simp add: unf h_def)
        show "sds_wf ?s'"
          using al lb' len bufs by (simp add: sds_wf_def)
      qed (use al str pre newlen(1) bufs in simp_all)
    qed
  qed
qed


lemma sdsMakeRoomFor_cases:
  assumes ok: "sds_ok s" and small: "sdslen s + n < 2 ^ 63"
  obtains (room) s' where "sdsMakeRoomFor A s n = Some (Moved s')" "sds_ok s'"
      "sds_str s' = sds_str s" "sdslen s' = sdslen s" "sdslen s + n \<le> sdsalloc s'"
      "take (Suc (sdslen s)) (buf s') = take (Suc (sdslen s)) (buf s)"
  | (oom) p where "sdsMakeRoomFor A s n = Some (Failed p)" "p = Ptr s \<or> p = Dangling"
      "sdsavail s < n"
proof -
  have wf: "sds_wf s" using ok by (simp add: sds_ok_wf)
  show thesis
  proof (cases rule: sdsMakeRoomFor_wf [OF wf small, of A, case_names room oom])
    case (room s')
    have "buf s' ! sdslen s = buf s ! sdslen s"
      using arg_cong [OF room(6), of "\<lambda>xs. xs ! sdslen s"] by simp
    with room ok show thesis by (intro that(1) [of s']) (auto simp: sds_ok_wf)
  next
    case (oom p)
    then show thesis by (rule that(2))
  qed
qed

text \<open>The write that every appending operation ends with.\<close>

lemma sds_append_write:
  assumes s: "sds_ok s" and n: "sdslen s + length src \<le> sdsalloc s"
  obtains s' where
    "do { x \<leftarrow> sds_write s (sdslen s) src;
          sds_write (sdssetlen x (sdslen s + length src)) (sdslen s + length src) [NUL] } = Some s'"
    "sds_ok s'" "sds_str s' = sds_str s @ src" "sdslen s' = sdslen s + length src"
    "sdsalloc s' = (if hdr_type (hdr s) = SDS_TYPE_5 then sdslen s + length src else sdsalloc s)"
proof -
  let ?k = "sdslen s"
  note okD = sds_okD [OF s]
  define b where "b = take ?k (buf s) @ src @ NUL # drop (?k + length src + 1) (buf s)"
  define s' where "s' = sdssetlen (s\<lparr>buf := b\<rparr>) (?k + length src)"
  have len: "length b = length (buf s)" using okD n by (simp add: b_def)
  note c = sds_set_content [OF s order_refl n b_def len, folded s'_def]
  have max: "?k + length src \<le> hdr_max (hdr_type (hdr s))"
    using n sdsalloc_le_max [of s] by linarith
  show thesis
  proof (rule that [of s'])
    show "do { x \<leftarrow> sds_write s ?k src;
            sds_write (sdssetlen x (?k + length src)) (?k + length src) [NUL] } = Some s'"
      using okD n by (simp add: mem_simps sds_simps s'_def b_def sdssetlen_def)
    show "sds_ok s'" "sds_str s' = sds_str s @ src"
      using c okD by (simp_all add: sds_str_def)
    show "sdslen s' = ?k + length src"
      using max by (simp add: s'_def sds_simps)
    show "sdsalloc s' = (if hdr_type (hdr s) = SDS_TYPE_5 then ?k + length src else sdsalloc s)"
      using max by (simp add: s'_def sds_simps)
  qed
qed

text \<open>Appending never leaves the block, and either appends or reports that memory ran out.\<close>

lemma sdscatlen_cases:
  assumes ok: "sds_ok s" and t: "n \<le> length t" and small: "sdslen s + n < 2 ^ 63"
  obtains (app) s' where "sdscatlen A s t n = Some (Moved s')" "sds_ok s'"
      "sds_str s' = sds_str s @ take n t" "sdslen s' = sdslen s + n"
  | (oom) p where "sdscatlen A s t n = Some (Failed p)" "p = Ptr s \<or> p = Dangling"
      "sdsavail s < n"
proof (cases rule: sdsMakeRoomFor_cases [OF ok small, of A, case_names room oom])
  case (room s1)
  have l: "length (take n t) = n" using t by simp
  have n1: "sdslen s1 + length (take n t) \<le> sdsalloc s1" using room l by simp
  obtain s' where s':
    "do { x \<leftarrow> sds_write s1 (sdslen s1) (take n t);
          sds_write (sdssetlen x (sdslen s1 + length (take n t)))
            (sdslen s1 + length (take n t)) [NUL] } = Some s'"
    "sds_ok s'" "sds_str s' = sds_str s1 @ take n t" "sdslen s' = sdslen s1 + length (take n t)"
    by (rule sds_append_write [OF room(2) n1])
  have "size_t (sdslen s + n) = sdslen s + n" using small by (simp add: cint_simps)
  with s' room l have "sdscatlen A s t n = Some (Moved s')"
    using t by (auto simp: sdscatlen_def Let_def mem_read_in bind_eq_Some_conv)
  with s' room l show thesis by (intro app) simp_all
next
  case (oom p)
  then show thesis by (intro that(2)) (auto simp: sdscatlen_def Let_def)
qed

text \<open>Overwriting a string in place, for the functions that shorten or rewrite it.\<close>

lemma sds_rewrite:
  assumes s: "sds_ok s" and n: "length src \<le> sdslen s"
  defines "b \<equiv> src @ NUL # drop (length src + 1) (buf s)"
  shows "sds_ok (sdssetlen (s\<lparr>buf := b\<rparr>) (length src))"
    and "sds_str (sdssetlen (s\<lparr>buf := b\<rparr>) (length src)) = src"
    and "sdslen (sdssetlen (s\<lparr>buf := b\<rparr>) (length src)) = length src"
proof -
  note okD = sds_okD [OF s]
  have len: "length b = length (buf s)" using okD n by (simp add: b_def)
  have b: "b = take 0 (buf s) @ src @ NUL # drop (length src + 1) (buf s)" by (simp add: b_def)
  have f: "0 + length src \<le> sdsalloc s" using okD n by simp
  note c = sds_set_content [OF s le0 f b len]
  show "sds_ok (sdssetlen (s\<lparr>buf := b\<rparr>) (length src))"
    "sds_str (sdssetlen (s\<lparr>buf := b\<rparr>) (length src)) = src"
    using c by simp_all
  then show "sdslen (sdssetlen (s\<lparr>buf := b\<rparr>) (length src)) = length src"
    using length_sds_str by metis
qed

lemma sdsclear_spec:
  assumes "sds_ok s"
  shows "\<exists>s'. sdsclear s = Some s' \<and> sds_ok s' \<and> sds_str s' = []"
proof -
  have "sdsclear s = Some (sdssetlen (s\<lparr>buf := [] @ NUL # drop (length ([]::bytes) + 1) (buf s)\<rparr>) (length ([]::bytes)))"
    using sds_okD(3) [OF assms] by (simp add: sdsclear_def mem_simps sds_simps) (simp add: sdssetlen_def)
  with sds_rewrite [OF assms, of "[]"] show ?thesis by simp
qed

lemma sdsgrowzero_spec:
  assumes ok: "sds_ok s" and small: "n < 2 ^ 63"
  shows "\<exists>r. sdsgrowzero A s n = Some r \<and>
    (\<forall>s'. r = Moved s' \<longrightarrow> sds_ok s' \<and> sds_str s' = sds_str s @ replicate (n - sdslen s) NUL)"
proof (cases "n \<le> sdslen s")
  case True
  with ok show ?thesis by (simp add: sdsgrowzero_def)
next
  case False
  then have sm: "sdslen s + (n - sdslen s) < 2 ^ 63" using small by simp
  show ?thesis
  proof (cases rule: sdsMakeRoomFor_cases [OF ok sm, of A, case_names room oom])
    case (room s1)
    define src where "src = replicate (n - sdslen s) NUL"
    define b where "b = take (sdslen s1) (buf s1) @ src @ NUL # drop (n + 1) (buf s1)"
    have l: "sdslen s1 + length src = n" using False room by (simp add: src_def)
    have n: "sdslen s1 + length src \<le> sdsalloc s1" using room False l by simp
    note okD = sds_okD [OF room(2)]
    have len: "length b = length (buf s1)" using okD n l by (simp add: b_def)
    note c = sds_set_content [OF room(2) order_refl n b_def len, unfolded l]
    have "sdsgrowzero A s n = Some (Moved (sdssetlen (s1\<lparr>buf := b\<rparr>) n))"
      using False room okD n l
      by (simp add: sdsgrowzero_def Let_def mem_simps b_def src_def replicate_append_same [symmetric])
    with c room show ?thesis by (simp add: src_def sds_str_def)
  next
    case (oom p)
    with False show ?thesis by (simp add: sdsgrowzero_def)
  qed
qed

lemma sdscpylen_spec:
  assumes ok: "sds_ok s" and t: "n \<le> length t" and small: "n < 2 ^ 63"
  shows "\<exists>r. sdscpylen A s t n = Some r \<and>
    (\<forall>s'. r = Moved s' \<longrightarrow> sds_ok s' \<and> sds_str s' = take n t)"
proof -
  define r where "r = (if sdsalloc s < n then sdsMakeRoomFor A s (n - sdslen s) else Some (Moved s))"
  have fin: "\<exists>r. sdscpylen A s t n = Some r \<and>
      (\<forall>s'. r = Moved s' \<longrightarrow> sds_ok s' \<and> sds_str s' = take n t)"
    if rs: "r = Some (Moved s1)" and s1: "sds_ok s1" "n \<le> sdsalloc s1" for s1
  proof -
    define b where "b = take 0 (buf s1) @ take n t @ NUL # drop (n + 1) (buf s1)"
    have l: "0 + length (take n t) = n" using t by simp
    note okD = sds_okD [OF s1(1)]
    have len: "length b = length (buf s1)" using okD t s1 by (simp add: b_def)
    have f: "0 + length (take n t) \<le> sdsalloc s1" using l s1 by simp
    note c = sds_set_content [OF s1(1) le0 f b_def len, unfolded l]
    have "sdscpylen A s t n = Some (Moved (sdssetlen (s1\<lparr>buf := b\<rparr>) n))"
      using rs okD t s1(2)
      by (simp add: sdscpylen_def r_def mem_simps b_def min_absorb2)
    with c show ?thesis by simp
  qed
  show ?thesis
  proof (cases "sdsalloc s < n")
    case True
    then have sm: "sdslen s + (n - sdslen s) < 2 ^ 63" using small sds_okD(1) [OF ok] by simp
    show ?thesis
    proof (cases rule: sdsMakeRoomFor_cases [OF ok sm, of A, case_names room oom])
      case (room s1)
      with True have "n \<le> sdsalloc s1" using sds_okD(1) [OF ok] by simp
      with room True show ?thesis by (intro fin [of s1]) (simp_all add: r_def)
    next
      case (oom p)
      with True show ?thesis by (simp add: sdscpylen_def)
    qed
  next
    case False
    with ok show ?thesis by (intro fin [of s]) (simp_all add: r_def)
  qed
qed

section \<open>The interface of an appending buffer\<close>

text \<open>
  What the callers of \<^verbatim>\<open>sdscatlen\<close> rely on: it returns on every allocator, and when it
  returns a string that string is the old one with the bytes appended.
\<close>

locale append_buffer =
  fixes ok :: "'s \<Rightarrow> bool"
    and str :: "'s \<Rightarrow> bytes"
    and cat :: "'s \<Rightarrow> bytes \<Rightarrow> nat \<Rightarrow> 's ret option"
  assumes cat_returns:
      "ok s \<Longrightarrow> n \<le> length t \<Longrightarrow> length (str s) + n < 2 ^ 63 \<Longrightarrow> \<exists>r. cat s t n = Some r"
    and cat_moved:
      "ok s \<Longrightarrow> n \<le> length t \<Longrightarrow> length (str s) + n < 2 ^ 63 \<Longrightarrow> cat s t n = Some (Moved s') \<Longrightarrow>
       ok s' \<and> str s' = str s @ take n t"

text \<open>A buffer whose allocator never runs out.\<close>

locale append_buffer_total = append_buffer +
  assumes cat_total:
    "ok s \<Longrightarrow> n \<le> length t \<Longrightarrow> length (str s) + n < 2 ^ 63 \<Longrightarrow> \<exists>s'. cat s t n = Some (Moved s')"

text \<open>Appending pieces one after the other, each result used without a check.\<close>

primrec cat_all :: "('s \<Rightarrow> bytes \<Rightarrow> nat \<Rightarrow> 's ret option) \<Rightarrow> 's \<Rightarrow> bytes list \<Rightarrow> 's option" where
  "cat_all cat s [] = Some s"
| "cat_all cat s (t # ts) = do { r \<leftarrow> cat s t (length t); s \<leftarrow> must r; cat_all cat s ts }"

lemma must_Some: "must r = Some s \<longleftrightarrow> r = Moved s"
  by (cases r) auto

context append_buffer begin

lemma cat_all_str:
  "ok s \<Longrightarrow> length (str s) + sum_list (map length ts) < 2 ^ 63 \<Longrightarrow> cat_all cat s ts = Some s' \<Longrightarrow>
   ok s' \<and> str s' = str s @ concat ts"
proof (induction ts arbitrary: s)
  case Nil
  then show ?case by simp
next
  case (Cons t ts)
  then obtain s1 where s1: "cat s t (length t) = Some (Moved s1)" "cat_all cat s1 ts = Some s'"
    by (auto simp: bind_eq_Some_conv must_Some)
  with Cons.prems have "ok s1 \<and> str s1 = str s @ t"
    using cat_moved [of s "length t" t s1] by simp
  with Cons.IH [of s1] Cons.prems s1(2) show ?case by simp
qed

end

context append_buffer_total begin

lemma cat_all_total:
  "ok s \<Longrightarrow> length (str s) + sum_list (map length ts) < 2 ^ 63 \<Longrightarrow> \<exists>s'. cat_all cat s ts = Some s'"
proof (induction ts arbitrary: s)
  case Nil
  then show ?case by simp
next
  case (Cons t ts)
  then obtain s1 where s1: "cat s t (length t) = Some (Moved s1)"
    using cat_total [of s "length t" t] by auto
  with Cons.prems have "ok s1 \<and> str s1 = str s @ t"
    using cat_moved [of s "length t" t s1] by simp
  with Cons.IH [of s1] Cons.prems s1 show ?case by simp
qed

end

interpretation sds_append: append_buffer sds_ok sds_str "sdscatlen A" for A
proof unfold_locales
  fix s n and t :: bytes
  assume a: "sds_ok s" "n \<le> length t" "length (sds_str s) + n < 2 ^ 63"
  then have sm: "sdslen s + n < 2 ^ 63" by (simp add: length_sds_str)
  show "\<exists>r. sdscatlen A s t n = Some r"
    by (cases rule: sdscatlen_cases [OF a(1,2) sm, of A]) auto
  show "sds_ok s' \<and> sds_str s' = sds_str s @ take n t"
    if "sdscatlen A s t n = Some (Moved s')" for s'
    using that by (cases rule: sdscatlen_cases [OF a(1,2) sm, of A]) auto
qed

lemma sdsMakeRoomFor_granted:
  assumes "sds_ok s" "sdslen s + n < 2 ^ 63" "\<And>k. grants A k"
  shows "\<exists>s'. sdsMakeRoomFor A s n = Some (Moved s')"
proof (cases rule: sdsMakeRoomFor_cases [OF assms(1,2), of A, case_names room oom])
  case (oom p)
  then show ?thesis using assms(3)
    by (auto simp: sdsMakeRoomFor_def Let_def sds_realloc_body_def sds_malloc_body_def
        bind_eq_Some_conv split: if_splits)
qed auto

lemma sdscatlen_granted:
  assumes "sds_ok s" "n \<le> length t" "sdslen s + n < 2 ^ 63" "\<And>k. grants A k"
  shows "\<exists>s'. sdscatlen A s t n = Some (Moved s')"
proof (cases rule: sdscatlen_cases [OF assms(1,2,3), of A, case_names app oom])
  case (oom p)
  obtain s' where "sdsMakeRoomFor A s n = Some (Moved s')"
    using sdsMakeRoomFor_granted [OF assms(1,3,4)] by blast
  with oom(1) show ?thesis by (auto simp: sdscatlen_def Let_def bind_eq_Some_conv)
qed auto

interpretation sds_append_total:
  append_buffer_total sds_ok sds_str "sdscatlen (A\<lparr>grants := \<lambda>_. True\<rparr>)" for A
  by unfold_locales (auto intro!: sdscatlen_granted simp: length_sds_str)

section \<open>Trimming and adjusting the allocation\<close>

lemma sdsRemoveFreeSpace_spec:
  assumes ok: "sds_ok s" and small: "sdslen s < 2 ^ 63"
  shows "sdsRemoveFreeSpace A s = Some (Failed (Ptr s)) \<or>
    (\<exists>s'. sdsRemoveFreeSpace A s = Some (Moved s') \<and> sds_ok s' \<and> sds_str s' = sds_str s \<and>
      sdsavail s' = 0)"
proof -
  define n where "n = sdslen s"
  define type where "type = sdsReqType n"
  note okD = sds_okD [OF ok, folded n_def]
  have max: "n \<le> hdr_max type" "type \<le> SDS_TYPE_64"
    using small sdsReqType_max [of n] sdsReqType_le [of n] by (auto simp: type_def n_def)
  have sz: "sdsHdrSize type + n + 1 < 2 ^ 64"
    using sdsHdrSize_bound [of type] small by (simp add: n_def)
  note unf = sdsRemoveFreeSpace_def Let_def n_def [symmetric] type_def [symmetric]
  show ?thesis
  proof (cases "hdr_type (hdr s) = type")
    case same: True
    show ?thesis
    proof (cases "sds_realloc_body A (sdsHdrSize type) (buf s) n")
      case None
      with same show ?thesis by (simp add: unf)
    next
      case (Some b)
      have b: "b = take (n + 1) (buf s)" "length b = n + 1"
        using sds_realloc_body_Some [OF Some sz] okD by (auto simp: min_def)
      let ?s' = "sdssetalloc (s\<lparr>buf := b\<rparr>) n"
      have al: "sdsalloc ?s' = n" "sdslen ?s' = n"
      proof -
        show "sdslen ?s' = n" by (simp add: sds_simps n_def)
        show "sdsalloc ?s' = n"
        proof (cases "type = SDS_TYPE_5")
          case True
          with same obtain f where "hdr s = sdshdr5 f"
            by (cases "hdr s") (auto simp: sds_type_defs)
          then show ?thesis
            by (simp add: sdssetalloc_def hdr_setalloc_def sdsalloc_def n_def sdslen_def)
        next
          case False
          with max same show ?thesis by (simp add: sds_simps)
        qed
      qed
      have "sds_ok ?s'" using al b okD by (intro sds_okI [where n = n]) (auto simp: sds_simps)
      moreover have "sds_str ?s' = sds_str s" using al b by (simp add: sds_str_def sds_simps n_def)
      moreover have "sdsavail ?s' = 0" using al sdsavail_eq [of ?s'] by simp
      ultimately show ?thesis using same Some by (simp add: unf)
    qed
  next
    case other: False
    show ?thesis
    proof (cases "sds_malloc_body A (sdsHdrSize type) n")
      case None
      with other show ?thesis by (simp add: unf)
    next
      case (Some b)
      define b' where "b' = take (n + 1) (buf s)"
      define h where "h = sdssetlen \<lparr>hdr = mk_hdr type 0 0, buf = b'\<rparr> n"
      let ?s' = "sdssetalloc h n"
      have ht: "hdr_type (hdr h) = type" using max by (simp add: h_def sds_simps)
      have al: "sdsalloc ?s' = n" "sdslen ?s' = n"
      proof -
        show "sdslen ?s' = n" using max by (simp add: sds_simps h_def)
        show "sdsalloc ?s' = n"
        proof (cases "type = SDS_TYPE_5")
          case True
          with max show ?thesis
            by (simp add: h_def mk_hdr_def sdssetlen_def hdr_setlen_def sdssetalloc_def
                hdr_setalloc_def sdsalloc_def unat_type5_len hdr_max_def)
        next
          case False
          with max ht show ?thesis by (simp add: sds_simps)
        qed
      qed
      have bufs: "buf ?s' = b'" by (simp add: sds_simps h_def)
      have "sds_ok ?s'"
        using al okD bufs by (intro sds_okI [where n = n]) (auto simp: b'_def)
      moreover have "sds_str ?s' = sds_str s" using al bufs by (simp add: sds_str_def b'_def n_def)
      moreover have "sdsavail ?s' = 0" using al sdsavail_eq [of ?s'] by simp
      moreover have "sdsRemoveFreeSpace A s = Some (Moved ?s')"
        using other Some okD sds_malloc_body_Some [OF Some sz]
        by (simp add: unf mem_simps h_def b'_def)
      ultimately show ?thesis by blast
    qed
  qed
qed

text \<open>
  The documented use of \<^verbatim>\<open>sdsIncrLen\<close>: the caller made room, wrote \<^theory_text>\<open>k\<close> bytes behind the
  string, and the call accounts for them.
\<close>

lemma sdsIncrLen_grow:
  assumes ok: "sds_ok s" and t: "hdr_type (hdr s) \<noteq> SDS_TYPE_5" and k: "k \<le> sdsavail s"
  shows "\<exists>s'. sdsIncrLen s (int k) = Some s' \<and> sds_ok s' \<and>
    sds_str s' = sds_str s @ take k (drop (sdslen s) (buf s))"
proof -
  note okD = sds_okD [OF ok]
  have al: "sdslen s + k \<le> sdsalloc s" using sdsavail_eq [OF okD(1)] t k okD(1) by simp
  define src where "src = take k (drop (sdslen s) (buf s))"
  have l: "sdslen s + length src = sdslen s + k" using okD al by (simp add: src_def)
  define b where "b = take (sdslen s) (buf s) @ src @ NUL # drop (sdslen s + k + 1) (buf s)"
  have len: "length b = length (buf s)" using okD al by (simp add: b_def src_def)
  note c = sds_set_content [OF ok order_refl al [folded l] b_def len, unfolded l]
  have fields: "uint a - uint l \<ge> int k" if "hdr s = sdshdr8 l a" for l a
    unfolding uint_nat using that al by (simp add: sdslen_def sdsalloc_def del: of_nat_unat)
  have fields16: "uint a - uint l \<ge> int k" if "hdr s = sdshdr16 l a" for l a
    unfolding uint_nat using that al by (simp add: sdslen_def sdsalloc_def del: of_nat_unat)
  have wide32: "uint (a - l) \<ge> int k" if "hdr s = sdshdr32 l a" for l a
    unfolding uint_nat using that k by (simp add: sdsavail_def del: of_nat_unat)
  have wide64: "uint (a - l) \<ge> int k" if "hdr s = sdshdr64 l a" for l a
    unfolding uint_nat using that k by (simp add: sdsavail_def del: of_nat_unat)
  have take_b: "take (sdslen s + k) (buf s) = take (sdslen s) (buf s) @ src"
    by (simp add: src_def take_add)
  have "sdsIncrLen s (int k) = sds_write (sdssetlen s (sdslen s + k)) (sdslen s + k) [NUL]"
    using t fields fields16 wide32 wide64
    by (cases "hdr s") (auto simp: sdsIncrLen_def Let_def nat_int_add sds_type_defs)
  also have "\<dots> = Some (sdssetlen (s\<lparr>buf := b\<rparr>) (sdslen s + k))"
    using al okD take_b by (simp add: mem_simps sds_simps b_def) (simp add: sdssetlen_def)
  finally show ?thesis using c by (simp add: src_def sds_str_def)
qed

text \<open>A fresh string: what \<^verbatim>\<open>sdsempty\<close>, \<^verbatim>\<open>sdsnew\<close> and \<^verbatim>\<open>sdsdup\<close> return.\<close>

lemma sdsempty_spec:
  "sdsempty A = Some Null \<or> (\<exists>s. sdsempty A = Some (Ptr s) \<and> sds_ok s \<and> sds_str s = [])"
  using sdsnewlen_spec [of 0 "Ptr [NUL]" "[NUL]" A] by (simp add: sdsempty_def)

lemma sdsdup_spec:
  assumes "sds_ok s" "sdslen s < 2 ^ 63"
  shows "sdsdup A s = Some Null \<or>
    (\<exists>s'. sdsdup A s = Some (Ptr s') \<and> sds_ok s' \<and> sds_str s' = sds_str s)"
  using sdsnewlen_spec [of "sdslen s" "Ptr (buf s)" "buf s" A] assms sds_okD [OF assms(1)]
  by (simp add: sdsdup_def sds_str_def)

lemma sdsnew_spec:
  assumes "NUL \<notin> set cs" "length cs < 2 ^ 63"
  shows "sdsnew A (Ptr (cs @ NUL # rest)) = Some Null \<or>
    (\<exists>s. sdsnew A (Ptr (cs @ NUL # rest)) = Some (Ptr s) \<and> sds_ok s \<and> sds_str s = cs)"
  using sdsnewlen_spec [of "length cs" "Ptr (cs @ NUL # rest)" "cs @ NUL # rest" A] assms
  by (simp add: sdsnew_def c_strlen_append)

end
