(* ===== verification/Sds_Text.thy ===== *)
theory Sds_Text
  imports Sds "HOL-Library.List_Lexorder"
begin

text \<open>
  The text operations of \<^verbatim>\<open>lib/hiredis/sds.c\<close>: number conversion, the two printf-alikes,
  trimming and slicing, comparison, splitting and joining, quoting and the parser of quoted
  arguments. The lemmas show what each computes on every string that satisfies
  \<^theory_text>\<open>sds_ok\<close>, the round trips between them, and that none leaves its block.
\<close>

section \<open>Numbers\<close>

text \<open>The digit loop, least significant digit first; \<^verbatim>\<open>do { ... } while(v)\<close>.\<close>

fun digit_loop :: "nat \<Rightarrow> bytes" where
  "digit_loop v = digit (v mod 10) # (if v div 10 = 0 then [] else digit_loop (v div 10))"

declare digit_loop.simps [simp del]

text \<open>The loop that reverses the characters between \<^theory_text>\<open>s\<close> and \<^theory_text>\<open>p\<close> in place.\<close>

function swap_loop :: "bytes \<Rightarrow> nat \<Rightarrow> nat \<Rightarrow> bytes" where
  "swap_loop b s p =
     (if s < p then swap_loop (b[s := b ! p, p := b ! s]) (Suc s) (p - 1) else b)"
  by pat_completeness auto
termination by (relation "measure (\<lambda>(b, s, p). p - s)") auto

declare swap_loop.simps [simp del]

definition SDS_LLSTR_SIZE :: nat where "SDS_LLSTR_SIZE = 21"

text \<open>
  Both functions write into the block at \<^theory_text>\<open>s\<close> and return the length and the block. The
  negation wraps, as it does on the two's complement machines the code is built for.
\<close>

definition sdsull2str :: "bytes \<Rightarrow> nat \<Rightarrow> (nat \<times> bytes) option" where
  "sdsull2str s v =
     (let p = digit_loop v; l = length p
      in do { s \<leftarrow> mem_write s 0 (p @ [NUL]); Some (l, swap_loop s 0 (l - 1)) })"

definition sdsll2str :: "bytes \<Rightarrow> 64 word \<Rightarrow> (nat \<times> bytes) option" where
  "sdsll2str s value =
     (let v = unat (if sint value < 0 then - value else value);
          p = digit_loop v @ (if sint value < 0 then [CHR ''-''] else []);
          l = length p
      in do { s \<leftarrow> mem_write s 0 (p @ [NUL]); Some (l, swap_loop s 0 (l - 1)) })"

text \<open>The automatic array \<^verbatim>\<open>char buf[SDS_LLSTR_SIZE]\<close> of the callers.\<close>

definition llstr_buf :: "allocator \<Rightarrow> bytes" where
  "llstr_buf A = map (fresh A) [0..<SDS_LLSTR_SIZE]"

definition sdsfromlonglong :: "allocator \<Rightarrow> 64 word \<Rightarrow> sds ptr option" where
  "sdsfromlonglong A value = do {
     (len, b) \<leftarrow> sdsll2str (llstr_buf A) value;
     sdsnewlen A (Ptr b) len
   }"

section \<open>Formatted output\<close>

text \<open>
  \<^verbatim>\<open>sdscatvprintf\<close>: \<^theory_text>\<open>out\<close> is the text that \<^verbatim>\<open>vsnprintf\<close> produces for the format and
  the arguments when nothing limits it. The loop doubles the buffer until the character two
  before its end stays the NUL that was put there.
\<close>

function vprintf_loop :: "allocator \<Rightarrow> bytes \<Rightarrow> nat \<Rightarrow> bytes ptr" where
  "vprintf_loop A out buflen =
     (let b = take (buflen - 1) out @ [NUL];
          guard = (if buflen - 2 < length b then b ! (buflen - 2) else NUL)
      in if guard \<noteq> NUL
         then (if grants A (buflen * 2) then vprintf_loop A out (buflen * 2) else Null)
         else Ptr b)"
  by pat_completeness auto
termination
proof (relation "measure (\<lambda>(A, out, buflen). length out + 2 - buflen)", goal_cases)
  case (2 A out buflen b guard)
  then have "buflen - 2 < length b" "b ! (buflen - 2) \<noteq> NUL" by (auto split: if_splits)
  then have "buflen - 2 < length (take (buflen - 1) out)"
    using 2 by (auto simp: nth_append less_Suc_eq split: if_splits)
  moreover have "buflen \<ge> 2"
    using \<open>b ! (buflen - 2) \<noteq> NUL\<close> 2 by (cases "buflen \<le> 1") (auto simp: le_Suc_eq)
  ultimately show ?case by auto
qed simp

declare vprintf_loop.simps [simp del]

definition sdscatvprintf :: "allocator \<Rightarrow> sds \<Rightarrow> nat \<Rightarrow> bytes \<Rightarrow> sds_ret option" where
  "sdscatvprintf A s fmtlen out =
     (let buflen = fmtlen * 2;
          b = (if buflen > 1024
               then (if grants A buflen then vprintf_loop A out buflen else Null)
               else vprintf_loop A out 1024)
      in case b of
           Ptr b \<Rightarrow> sdscat A s b
         | _ \<Rightarrow> Some (Failed (Ptr s)))"

text \<open>
  The arguments of a variadic call: numbers in 64-bit slots, from which \<^verbatim>\<open>va_arg\<close> takes the
  low bits that its type asks for; C strings; SDS strings.
\<close>

datatype va = VaNum "64 word" | VaStr bytes | VaSds sds

definition sds_write_at :: "sds \<Rightarrow> int \<Rightarrow> bytes \<Rightarrow> sds option" where
  "sds_write_at s i src = (if i < 0 then None else sds_write s (nat i) src)"

text \<open>Appending \<^theory_text>\<open>l\<close> bytes at position \<^theory_text>\<open>i\<close>, after growing when they do not fit.\<close>

definition fmt_put :: "allocator \<Rightarrow> sds \<Rightarrow> int \<Rightarrow> bytes \<Rightarrow> (sds \<times> int) ptr option" where
  "fmt_put A s i str =
     (let l = length str
      in do {
           r \<leftarrow> (if sdsavail s < l then sdsMakeRoomFor A s l else Some (Moved s));
           (case r of
              Failed p \<Rightarrow> Some Null
            | Moved s \<Rightarrow> do {
                s \<leftarrow> sds_write_at s i str;
                Some (Ptr (sdsinclen s l, to_int (i + int l)))
              })
         })"

text \<open>
  The text of the conversions that take an argument; \<^theory_text>\<open>None\<close> when the argument is missing
  or of another kind.
\<close>

definition is_conv :: "char \<Rightarrow> bool" where
  "is_conv next \<longleftrightarrow> next \<in> set ''sSiIuU''"

definition fmt_text :: "allocator \<Rightarrow> char \<Rightarrow> va list \<Rightarrow> (bytes \<times> va list) option" where
  "fmt_text A next ap =
     (if next = CHR ''s'' then
        (case ap of VaStr b # ap \<Rightarrow> do { l \<leftarrow> c_strlen b; Some (take l b, ap) } | _ \<Rightarrow> None)
      else if next = CHR ''S'' then
        (case ap of VaSds t # ap \<Rightarrow> do { src \<leftarrow> mem_read (buf t) 0 (sdslen t); Some (src, ap) }
         | _ \<Rightarrow> None)
      else if next = CHR ''i'' \<or> next = CHR ''I'' then
        (case ap of VaNum w # ap \<Rightarrow> do {
             (l, b) \<leftarrow> sdsll2str (llstr_buf A)
               (if next = CHR ''i'' then word_of_int (signed_take_bit 31 (uint w)) else w);
             Some (take l b, ap) }
         | _ \<Rightarrow> None)
      else
        (case ap of VaNum w # ap \<Rightarrow> do {
             (l, b) \<leftarrow> sdsull2str (llstr_buf A)
               (if next = CHR ''u'' then unat w mod 2 ^ 32 else unat w);
             Some (take l b, ap) }
         | _ \<Rightarrow> None))"

text \<open>\<^verbatim>\<open>s[i++] = c; sdsinclen(s,1)\<close>\<close>

definition fmt_char :: "sds \<Rightarrow> int \<Rightarrow> char \<Rightarrow> (sds \<times> int) option" where
  "fmt_char s i c = do { s \<leftarrow> sds_write_at s i [c]; Some (sdsinclen s 1, to_int (i + 1)) }"

text \<open>
  The loop of \<^verbatim>\<open>sdscatfmt\<close> over the format, whose block ends with its NUL: reading past the
  block is undefined.
\<close>

fun catfmt_loop :: "allocator \<Rightarrow> sds \<Rightarrow> int \<Rightarrow> bytes \<Rightarrow> va list \<Rightarrow> sds ptr option" where
  "catfmt_loop A s i [] ap = None"
| "catfmt_loop A s i (c # f) ap =
     (if c = NUL then map_option Ptr (sds_write_at s i [NUL])
      else do {
        r \<leftarrow> (if sdsavail s = 0 then sdsMakeRoomFor A s 1 else Some (Moved s));
        (case r of
           Failed p \<Rightarrow> Some Null
         | Moved s \<Rightarrow>
             if c = CHR ''%'' then
               (case f of
                  [] \<Rightarrow> None
                | next # f' \<Rightarrow>
                    if is_conv next then do {
                      (str, ap) \<leftarrow> fmt_text A next ap;
                      q \<leftarrow> fmt_put A s i str;
                      (case q of Ptr (s, i) \<Rightarrow> catfmt_loop A s i f' ap | _ \<Rightarrow> Some Null)
                    }
                    else do {
                      (s, i) \<leftarrow> fmt_char s i next;
                      catfmt_loop A s i f' ap
                    })
             else do {
               (s, i) \<leftarrow> fmt_char s i c;
               catfmt_loop A s i f ap
             })
      })"

definition sdscatfmt :: "allocator \<Rightarrow> sds \<Rightarrow> bytes \<Rightarrow> va list \<Rightarrow> sds ptr option" where
  "sdscatfmt A s fmt ap = catfmt_loop A s (to_int (int (sdslen s))) fmt ap"

section \<open>Trimming and slicing\<close>

text \<open>
  \<^verbatim>\<open>strchr(cset, c) != NULL\<close>, where \<^theory_text>\<open>cset\<close> lists the characters of a C string: the
  terminating NUL is one of the characters that \<^verbatim>\<open>strchr\<close> finds.
\<close>

definition in_cset :: "bytes \<Rightarrow> char \<Rightarrow> bool" where
  "in_cset cset c \<longleftrightarrow> c = NUL \<or> c \<in> set cset"

text \<open>The two scans; \<^theory_text>\<open>sp\<close>, \<^theory_text>\<open>ep\<close> and \<^theory_text>\<open>end\<close> are offsets from \<^verbatim>\<open>s\<close>.\<close>

function trim_left :: "bytes \<Rightarrow> bytes \<Rightarrow> int \<Rightarrow> int \<Rightarrow> int" where
  "trim_left b cset sp e =
     (if sp \<le> e \<and> in_cset cset (b ! nat sp) then trim_left b cset (sp + 1) e else sp)"
  by pat_completeness auto
termination by (relation "measure (\<lambda>(b, cset, sp, e). nat (e + 1 - sp))") auto

function trim_right :: "bytes \<Rightarrow> bytes \<Rightarrow> int \<Rightarrow> int \<Rightarrow> int" where
  "trim_right b cset sp ep =
     (if ep > sp \<and> in_cset cset (b ! nat ep) then trim_right b cset sp (ep - 1) else ep)"
  by pat_completeness auto
termination by (relation "measure (\<lambda>(b, cset, sp, ep). nat (ep - sp))") auto

declare trim_left.simps [simp del] trim_right.simps [simp del]

definition sdstrim :: "sds \<Rightarrow> bytes \<Rightarrow> sds option" where
  "sdstrim s cset =
     (let e = int (sdslen s) - 1;
          sp = trim_left (buf s) cset 0 e;
          ep = trim_right (buf s) cset sp e;
          len = (if sp > ep then 0 else nat (ep - sp + 1))
      in do {
           s \<leftarrow> (if sp \<noteq> 0 then do { src \<leftarrow> mem_read (buf s) (nat sp) len; sds_write s 0 src }
                else Some s);
           s \<leftarrow> sds_write s len [NUL];
           Some (sdssetlen s len)
         })"

text \<open>
  \<^verbatim>\<open>sdsrange(s, start, end)\<close>: the indexes are \<^verbatim>\<open>int\<close>, the length a \<^verbatim>\<open>size_t\<close> that is
  converted to \<^verbatim>\<open>int\<close> where the two meet.
\<close>

definition range_index :: "nat \<Rightarrow> int \<Rightarrow> int" where
  "range_index len i =
     (if i < 0 then (let j = to_int (int len + i) in if j < 0 then 0 else j) else i)"

definition range_len :: "int \<Rightarrow> int \<Rightarrow> nat" where
  "range_len start end' = (if start > end' then 0 else nat (to_int (end' - start + 1) mod 2 ^ 64))"

definition sdsrange :: "sds \<Rightarrow> int \<Rightarrow> int \<Rightarrow> sds option" where
  "sdsrange s start end' =
     (let len = sdslen s
      in if len = 0 then Some s
         else
           (let start = range_index len start;
                end' = range_index len end';
                newlen = range_len start end';
                (start, newlen) =
                  (if newlen \<noteq> 0 then
                     (if start \<ge> to_int (int len) then (start, 0)
                      else if end' \<ge> to_int (int len)
                      then (start, range_len start (to_int (int len - 1)))
                      else (start, newlen))
                   else (0, newlen))
            in do {
                 s \<leftarrow> (if start \<noteq> 0 \<and> newlen \<noteq> 0
                      then do { src \<leftarrow> mem_read (buf s) (nat start) newlen; sds_write s 0 src }
                      else Some s);
                 s \<leftarrow> sds_write s newlen [NUL];
                 Some (sdssetlen s newlen)
               }))"

section \<open>Characters and comparison\<close>

definition map_first :: "(char \<Rightarrow> char) \<Rightarrow> sds \<Rightarrow> sds option" where
  "map_first f s =
     (let len = nat (to_int (int (sdslen s)))
      in do { src \<leftarrow> mem_read (buf s) 0 len; sds_write s 0 (map f src) })"

definition sdstolower :: "sds \<Rightarrow> sds option" where
  "sdstolower s = map_first c_tolower s"

definition sdstoupper :: "sds \<Rightarrow> sds option" where
  "sdstoupper s = map_first c_toupper s"

text \<open>\<^verbatim>\<open>memcmp\<close>: the difference of the first two bytes that differ.\<close>

fun c_memcmp :: "bytes \<Rightarrow> bytes \<Rightarrow> int" where
  "c_memcmp (x # xs) (y # ys) =
     (if x = y then c_memcmp xs ys else int (byte x) - int (byte y))"
| "c_memcmp _ _ = 0"

definition sdscmp :: "sds \<Rightarrow> sds \<Rightarrow> int option" where
  "sdscmp s1 s2 =
     (let l1 = sdslen s1; l2 = sdslen s2; minlen = (if l1 < l2 then l1 else l2)
      in do {
           x \<leftarrow> mem_read (buf s1) 0 minlen;
           y \<leftarrow> mem_read (buf s2) 0 minlen;
           (let cmp = c_memcmp x y
            in Some (if cmp = 0 then to_int (int l1 - int l2) else cmp))
         })"

text \<open>The inner loop of \<^verbatim>\<open>sdsmapchars\<close>.\<close>

fun map_char :: "bytes \<Rightarrow> bytes \<Rightarrow> char \<Rightarrow> char" where
  "map_char (f # fs) (t # ts) c = (if c = f then t else map_char fs ts c)"
| "map_char _ _ c = c"

definition sdsmapchars :: "sds \<Rightarrow> bytes \<Rightarrow> bytes \<Rightarrow> nat \<Rightarrow> sds option" where
  "sdsmapchars s from to' setlen = do {
     fs \<leftarrow> mem_read from 0 setlen;
     ts \<leftarrow> mem_read to' 0 setlen;
     src \<leftarrow> mem_read (buf s) 0 (sdslen s);
     sds_write s 0 (map (map_char fs ts) src)
   }"

section \<open>Splitting and joining\<close>

text \<open>
  \<^verbatim>\<open>sdssplitlen\<close>: \<^theory_text>\<open>Null\<close> is the null result; a token array of \<^theory_text>\<open>slots\<close> entries is
  grown before it is full, and storing past it is undefined.
\<close>

definition put_token :: "allocator \<Rightarrow> nat \<Rightarrow> sds list \<Rightarrow> bytes \<Rightarrow> nat \<Rightarrow> nat \<Rightarrow> sds list ptr option" where
  "put_token A slots tokens s start n = do {
     src \<leftarrow> mem_read s start n;
     t \<leftarrow> sdsnewlen A (Ptr src) n;
     (case t of
        Ptr t \<Rightarrow> if length tokens < slots then Some (Ptr (tokens @ [t])) else None
      | _ \<Rightarrow> Some Null)
   }"

function split_loop ::
  "allocator \<Rightarrow> bytes \<Rightarrow> nat \<Rightarrow> bytes \<Rightarrow> nat \<Rightarrow> nat \<Rightarrow> sds list \<Rightarrow> nat \<Rightarrow> nat \<Rightarrow> sds list ptr option" where
  "split_loop A s len sep seplen slots tokens start j =
     (if j + (seplen - 1) < len then
        (let grow = slots < length tokens + 2;
             slots = (if grow then slots * 2 else slots)
         in if grow \<and> \<not> grants A (8 * slots) then Some Null
            else do {
              sj \<leftarrow> mem_read s j seplen;
              sp \<leftarrow> mem_read sep 0 seplen;
              if sj = sp then do {
                r \<leftarrow> put_token A slots tokens s start (j - start);
                (case r of
                   Ptr tokens \<Rightarrow>
                     split_loop A s len sep seplen slots tokens (j + seplen) (j + max seplen 1)
                 | _ \<Rightarrow> Some Null)
              }
              else split_loop A s len sep seplen slots tokens start (Suc j)
            })
      else put_token A slots tokens s start (len - start))"
  by pat_completeness auto
termination
  by (relation "measure (\<lambda>(A, s, len, sep, seplen, slots, tokens, start, j). len - j)") auto

declare split_loop.simps [simp del]

definition sdssplitlen :: "allocator \<Rightarrow> bytes \<Rightarrow> int \<Rightarrow> bytes \<Rightarrow> int \<Rightarrow> sds list ptr option" where
  "sdssplitlen A s len sep seplen =
     (if seplen < 1 \<or> len < 0 then Some Null
      else if \<not> grants A (8 * 5) then Some Null
      else if len = 0 then Some (Ptr [])
      else split_loop A s (nat len) sep (nat seplen) 5 [] 0 0)"

text \<open>\<^verbatim>\<open>sdsfreesplitres\<close>: every token is freed, from the last to the first.\<close>

fun free_all :: "sds ptr list \<Rightarrow> unit option" where
  "free_all [] = Some ()"
| "free_all (t # ts) = do { _ \<leftarrow> sdsfree t; free_all ts }"

definition sdsfreesplitres :: "sds list ptr \<Rightarrow> unit option" where
  "sdsfreesplitres tokens = (case tokens of
     Null \<Rightarrow> Some ()
   | Dangling \<Rightarrow> None
   | Ptr ts \<Rightarrow> free_all (rev (map Ptr ts)))"

text \<open>
  \<^verbatim>\<open>sdsjoin\<close> and \<^verbatim>\<open>sdsjoinsds\<close>: the result of each append is used without a check by the
  next one; the last one is returned.
\<close>

definition append_ptr :: "sds ptr \<Rightarrow> (sds \<Rightarrow> sds_ret option) \<Rightarrow> sds ptr option" where
  "append_ptr p f = do { s \<leftarrow> deref p; r \<leftarrow> f s; Some (ret_ptr r) }"

fun join_loop :: "allocator \<Rightarrow> sds ptr \<Rightarrow> bytes list \<Rightarrow> bytes \<Rightarrow> sds ptr option" where
  "join_loop A join [] sep = Some join"
| "join_loop A join (a # argv) sep = do {
     join \<leftarrow> append_ptr join (\<lambda>s. sdscat A s a);
     join \<leftarrow> (if argv \<noteq> [] then append_ptr join (\<lambda>s. sdscat A s sep) else Some join);
     join_loop A join argv sep
   }"

definition sdsjoin :: "allocator \<Rightarrow> bytes list \<Rightarrow> bytes \<Rightarrow> sds ptr option" where
  "sdsjoin A argv sep = do { join \<leftarrow> sdsempty A; join_loop A join argv sep }"

fun joinsds_loop :: "allocator \<Rightarrow> sds ptr \<Rightarrow> sds list \<Rightarrow> bytes \<Rightarrow> nat \<Rightarrow> sds ptr option" where
  "joinsds_loop A join [] sep seplen = Some join"
| "joinsds_loop A join (a # argv) sep seplen = do {
     join \<leftarrow> append_ptr join (\<lambda>s. sdscatsds A s a);
     join \<leftarrow> (if argv \<noteq> [] then append_ptr join (\<lambda>s. sdscatlen A s sep seplen) else Some join);
     joinsds_loop A join argv sep seplen
   }"

definition sdsjoinsds :: "allocator \<Rightarrow> sds list \<Rightarrow> bytes \<Rightarrow> nat \<Rightarrow> sds ptr option" where
  "sdsjoinsds A argv sep seplen = do { join \<leftarrow> sdsempty A; joinsds_loop A join argv sep seplen }"

section \<open>Quoting and the parser of quoted arguments\<close>

definition hex_digit :: "nat \<Rightarrow> char" where
  "hex_digit d = char_of (if d < 10 then 48 + d else 87 + d)"

text \<open>The characters that \<^verbatim>\<open>sdscatrepr\<close> appends for one character.\<close>

definition repr_char :: "char \<Rightarrow> bytes" where
  "repr_char c =
     (if c = CHR 0x5C \<or> c = CHR 0x22 then [CHR 0x5C, c]
      else if c = CHR 0x0A then [CHR 0x5C, CHR ''n'']
      else if c = CHR 0x0D then [CHR 0x5C, CHR ''r'']
      else if c = CHR 0x09 then [CHR 0x5C, CHR ''t'']
      else if c = CHR 0x07 then [CHR 0x5C, CHR ''a'']
      else if c = CHR 0x08 then [CHR 0x5C, CHR ''b'']
      else if c_isprint c then [c]
      else [CHR 0x5C, CHR ''x'', hex_digit (byte c div 16), hex_digit (byte c mod 16)])"

text \<open>Whether it does so through \<^verbatim>\<open>sdscatprintf\<close>, and with a format of which length.\<close>

definition repr_printf :: "char \<Rightarrow> nat option" where
  "repr_printf c =
     (if c = CHR 0x5C \<or> c = CHR 0x22 then Some 3
      else if c \<in> {CHR 0x0A, CHR 0x0D, CHR 0x09, CHR 0x07, CHR 0x08} then None
      else if c_isprint c then Some 2
      else Some 6)"

fun repr_loop :: "allocator \<Rightarrow> sds ptr \<Rightarrow> bytes \<Rightarrow> sds ptr option" where
  "repr_loop A s [] = Some s"
| "repr_loop A s (c # p) = do {
     s \<leftarrow> append_ptr s (\<lambda>s. case repr_printf c of
            Some fmtlen \<Rightarrow> sdscatvprintf A s fmtlen (repr_char c)
          | None \<Rightarrow> sdscatlen A s (repr_char c) 2);
     repr_loop A s p
   }"

definition sdscatrepr :: "allocator \<Rightarrow> sds \<Rightarrow> bytes \<Rightarrow> nat \<Rightarrow> sds ptr option" where
  "sdscatrepr A s p len = do {
     s \<leftarrow> append_ptr (Ptr s) (\<lambda>s. sdscatlen A s [CHR 0x22] 1);
     p \<leftarrow> mem_read p 0 len;
     s \<leftarrow> repr_loop A s p;
     append_ptr s (\<lambda>s. sdscatlen A s [CHR 0x22] 1)
   }"

definition is_hex_digit :: "char \<Rightarrow> bool" where
  "is_hex_digit c \<longleftrightarrow>
     (48 \<le> byte c \<and> byte c \<le> 57) \<or> (97 \<le> byte c \<and> byte c \<le> 102) \<or> (65 \<le> byte c \<and> byte c \<le> 70)"

definition hex_digit_to_int :: "char \<Rightarrow> nat" where
  "hex_digit_to_int c =
     (if 48 \<le> byte c \<and> byte c \<le> 57 then byte c - 48
      else if 97 \<le> byte c \<and> byte c \<le> 102 then byte c - 87
      else if 65 \<le> byte c \<and> byte c \<le> 70 then byte c - 55
      else 0)"

text \<open>The character behind a backslash inside double quotes.\<close>

definition unescape :: "char \<Rightarrow> char" where
  "unescape c =
     (if c = CHR ''n'' then CHR 0x0A
      else if c = CHR ''r'' then CHR 0x0D
      else if c = CHR ''t'' then CHR 0x09
      else if c = CHR ''b'' then CHR 0x08
      else if c = CHR ''a'' then CHR 0x07
      else c)"

definition cat_char :: "allocator \<Rightarrow> sds ptr \<Rightarrow> char \<Rightarrow> sds ptr option" where
  "cat_char A current c = append_ptr current (\<lambda>s. sdscatlen A s [c] 1)"

text \<open>
  The inner loop of \<^verbatim>\<open>sdssplitargs\<close>, which reads one token: \<^theory_text>\<open>Null\<close> is the jump to
  \<^verbatim>\<open>err\<close>; otherwise the token and the rest of the line. \<^theory_text>\<open>p\<close> is the line from the pointer
  on, its NUL included.
\<close>

definition closes :: "bytes \<Rightarrow> bool option" where
  "closes p = (case p of [] \<Rightarrow> None | c # _ \<Rightarrow> Some (c = NUL \<or> c_isspace c))"

text \<open>A \<^verbatim>\<open>\xHH\<close> escape at the front of the line.\<close>

fun hex_escape :: "bytes \<Rightarrow> (char \<times> bytes) option" where
  "hex_escape (c # x # h1 # h2 # p) =
     (if c = CHR 0x5C \<and> x = CHR ''x'' \<and> is_hex_digit h1 \<and> is_hex_digit h2
      then Some (char_of (hex_digit_to_int h1 * 16 + hex_digit_to_int h2), p) else None)"
| "hex_escape _ = None"

lemma hex_escape_length: "hex_escape p = Some (c, p') \<Longrightarrow> length p' < length p"
  by (induction p rule: hex_escape.induct) (auto split: if_splits)

function token_inq :: "allocator \<Rightarrow> sds ptr \<Rightarrow> bytes \<Rightarrow> (sds ptr \<times> bytes) ptr option" where
  "token_inq A current [] = None"
| "token_inq A current (c # p) =
     (case hex_escape (c # p) of
        Some (b, p') \<Rightarrow> do { current \<leftarrow> cat_char A current b; token_inq A current p' }
      | None \<Rightarrow>
          if c = CHR 0x5C \<and> p = [] then None
          else if c = CHR 0x5C \<and> hd p \<noteq> NUL then do {
            current \<leftarrow> cat_char A current (unescape (hd p));
            token_inq A current (tl p)
          }
          else if c = CHR 0x22 then do {
            b \<leftarrow> closes p;
            if b then Some (Ptr (current, p)) else Some Null
          }
          else if c = NUL then Some Null
          else do { current \<leftarrow> cat_char A current c; token_inq A current p })"
  by pat_completeness auto
termination
  by (relation "measure (\<lambda>(A, current, p). length p)")
    (auto simp del: hex_escape.simps dest: hex_escape_length)

fun token_insq :: "allocator \<Rightarrow> sds ptr \<Rightarrow> bytes \<Rightarrow> (sds ptr \<times> bytes) ptr option" where
  "token_insq A current [] = None"
| "token_insq A current (c # p) =
     (if c = CHR 0x5C \<and> p = [] then None
      else if c = CHR 0x5C \<and> hd p = CHR 0x27 then do {
        current \<leftarrow> cat_char A current (CHR 0x27);
        token_insq A current (tl p)
      }
      else if c = CHR 0x27 then do {
        b \<leftarrow> closes p;
        if b then Some (Ptr (current, p)) else Some Null
      }
      else if c = NUL then Some Null
      else do { current \<leftarrow> cat_char A current c; token_insq A current p })"

fun token_plain :: "allocator \<Rightarrow> sds ptr \<Rightarrow> bytes \<Rightarrow> (sds ptr \<times> bytes) ptr option" where
  "token_plain A current [] = None"
| "token_plain A current (c # p) =
     (if c \<in> {CHR 0x20, CHR 0x0A, CHR 0x0D, CHR 0x09} then Some (Ptr (current, p))
      else if c = NUL then Some (Ptr (current, c # p))
      else if c = CHR 0x22 then token_inq A current p
      else if c = CHR 0x27 then token_insq A current p
      else do { current \<leftarrow> cat_char A current c; token_plain A current p })"

fun skip_blanks :: "bytes \<Rightarrow> bytes" where
  "skip_blanks [] = []"
| "skip_blanks (c # p) = (if c \<noteq> NUL \<and> c_isspace c then skip_blanks p else c # p)"

lemma token_inq_length:
  "token_inq A cur p = Some (Ptr (cur', p')) \<Longrightarrow> length p' < length p"
proof (induction A cur p rule: token_inq.induct)
  case (2 A cur c p)
  show ?case
  proof (cases "hex_escape (c # p)")
    case None
    with 2 show ?thesis
      by (cases p) (fastforce simp: bind_eq_Some_conv split: if_splits)+
  next
    case (Some e)
    with 2 show ?thesis
      by (cases e) (fastforce simp: bind_eq_Some_conv dest: hex_escape_length)
  qed
qed simp

lemma token_insq_length:
  "token_insq A cur p = Some (Ptr (cur', p')) \<Longrightarrow> length p' < length p"
proof (induction A cur p rule: token_insq.induct)
  case (2 A cur c p)
  then show ?case
    by (cases p) (fastforce simp: bind_eq_Some_conv split: if_splits)+
qed simp

lemma token_plain_length:
  "token_plain A cur p = Some (Ptr (cur', p')) \<Longrightarrow>
   length p' \<le> length p \<and> (p \<noteq> [] \<and> hd p \<noteq> NUL \<longrightarrow> length p' < length p)"
proof (induction A cur p rule: token_plain.induct)
  case (2 A cur c p)
  then show ?case
    by (fastforce simp: bind_eq_Some_conv split: if_splits
        dest: token_inq_length token_insq_length)
qed simp

lemma skip_blanks_length: "length (skip_blanks p) \<le> length p"
  by (induction p) auto

text \<open>The outer loop; \<^theory_text>\<open>Null\<close> is the null result.\<close>

function splitargs_loop ::
  "allocator \<Rightarrow> sds ptr list \<Rightarrow> bytes \<Rightarrow> sds ptr list ptr option" where
  "splitargs_loop A vector p =
     (let q = skip_blanks p
      in case q of
           [] \<Rightarrow> None
         | c # _ \<Rightarrow>
             if c \<noteq> NUL then do {
               current \<leftarrow> sdsempty A;
               r \<leftarrow> token_plain A current q;
               (case r of
                  Ptr (current, p') \<Rightarrow>
                    if grants A (8 * (length vector + 1))
                    then splitargs_loop A (vector @ [current]) p' else Some Null
                | _ \<Rightarrow> Some Null)
             }
             else if vector = [] \<and> \<not> grants A 8 then Some Null
             else Some (Ptr vector))"
  by pat_completeness auto
termination
proof (relation "measure (\<lambda>(A, vector, p). length p)", goal_cases)
  case (2 A vector p q c q' current r cp cur' p')
  then have "skip_blanks p = c # q'" by simp
  with 2 show ?case
    using token_plain_length [of A current q cur' p'] skip_blanks_length [of p] by auto
qed simp

declare splitargs_loop.simps [simp del]

definition sdssplitargs :: "allocator \<Rightarrow> bytes \<Rightarrow> sds ptr list ptr option" where
  "sdssplitargs A line = splitargs_loop A [] line"

section \<open>Numbers: the digits are those of the decimal numeral\<close>

lemma digit_loop_dec: "digit_loop v = rev (dec v)"
proof (induction v rule: digit_loop.induct)
  case (1 v)
  then show ?case
    by (cases "v < 10") (auto simp: digit_loop.simps [of v] dec.simps [of v])
qed

text \<open>The two-pointer loop reverses the part of the block between the pointers.\<close>

lemma swap_loop_rev:
  "swap_loop (xs @ ys @ zs) (length xs) (length xs + length ys - 1) = xs @ rev ys @ zs"
proof (induction ys arbitrary: xs zs rule: length_induct)
  case (1 ys)
  show ?case
  proof (cases "length ys \<le> 1")
    case True
    then have "rev ys = ys" by (cases ys) auto
    with True show ?thesis by (subst swap_loop.simps) (cases ys, auto)
  next
    case False
    then obtain a m b where ys: "ys = a # m @ [b]"
      by (metis (no_types, opaque_lifting) One_nat_def length_0_conv length_Cons
          le_numeral_extra(3) le_simps(1) list.size(3) neq_Nil_conv not_less_eq_eq rev_exhaust zero_le)
    let ?b = "xs @ ys @ zs" and ?i = "length xs" and ?j = "Suc (length xs + length m)"
    have upd: "?b[?i := ?b ! ?j, ?j := ?b ! ?i] = (xs @ [b]) @ m @ (a # zs)"
      by (simp add: ys nth_append list_update_append)
    have lt: "?i < ?j" by simp
    have "swap_loop ?b ?i ?j = swap_loop ((xs @ [b]) @ m @ (a # zs)) (Suc ?i) (?j - 1)"
      by (subst swap_loop.simps) (simp only: lt if_True upd)
    also have "\<dots> = (xs @ [b]) @ rev m @ (a # zs)"
      using 1 [rule_format, of m "xs @ [b]" "a # zs"] by (simp add: ys)
    finally show ?thesis by (simp add: ys)
  qed
qed

lemma swap_loop_prefix: "swap_loop (ys @ zs) 0 (length ys - 1) = rev ys @ zs"
  using swap_loop_rev [of "[]" ys zs] by simp

lemma mem_write_start: "length src \<le> length b \<Longrightarrow> mem_write b 0 src = Some (src @ drop (length src) b)"
  by (simp add: mem_simps)

lemma sdsull2str_spec:
  assumes "length (dec v) < length b"
  shows "sdsull2str b v = Some (length (dec v), dec v @ NUL # drop (length (dec v) + 1) b)"
  using assms swap_loop_prefix [of "rev (dec v)" "NUL # drop (length (dec v) + 1) b"]
  by (simp add: sdsull2str_def Let_def digit_loop_dec mem_write_start)

lemma sdsll2str_spec:
  assumes "length (sdec (sint v)) < length b"
  shows "sdsll2str b v =
    Some (length (sdec (sint v)), sdec (sint v) @ NUL # drop (length (sdec (sint v)) + 1) b)"
proof -
  define v' where "v' = (if sint v < 0 then - v else v)"
  define p where "p = digit_loop (unat v') @ (if sint v < 0 then [CHR ''-''] else [])"
  have p: "p = rev (sdec (sint v))"
    using unat_minus_64_sint [of v] unat_64_sint [of v]
    by (auto simp: p_def v'_def digit_loop_dec sdec_def)
  have l: "length (p @ [NUL]) \<le> length b" using assms by (simp add: p)
  have "sdsll2str b v = Some (length p, swap_loop ((p @ [NUL]) @ drop (length (p @ [NUL])) b) 0 (length p - 1))"
    unfolding sdsll2str_def Let_def v'_def [symmetric] p_def [symmetric]
    by (simp only: mem_write_start [OF l] Option.bind.bind_lunit)
  then show ?thesis
    using swap_loop_prefix [of p "NUL # drop (length p + 1) b"] by (simp add: p)
qed

lemma length_sdec_64: "length (sdec (sint (v :: 64 word))) \<le> 20"
proof -
  have "length (dec (nat \<bar>sint v\<bar>)) \<le> 19"
    using sint_range_64 [of v] by (intro length_dec_le) auto
  then show ?thesis by (auto simp: sdec_def)
qed

lemma length_dec_64: "v < 2 ^ 64 \<Longrightarrow> length (dec v) \<le> 20"
  by (rule length_dec_le) auto

lemma length_llstr_buf [simp]: "length (llstr_buf A) = 21"
  by (simp add: llstr_buf_def SDS_LLSTR_SIZE_def)

lemma sdsfromlonglong_spec:
  "sdsfromlonglong A v = Some Null \<or>
    (\<exists>s. sdsfromlonglong A v = Some (Ptr s) \<and> sds_ok s \<and> sds_str s = sdec (sint v))"
proof -
  have l: "length (sdec (sint v)) \<le> 20" by (rule length_sdec_64)
  then have "sdsll2str (llstr_buf A) v = Some (length (sdec (sint v)),
      sdec (sint v) @ NUL # drop (length (sdec (sint v)) + 1) (llstr_buf A))"
    by (intro sdsll2str_spec) simp
  moreover define b where "b = sdec (sint v) @ NUL # drop (length (sdec (sint v)) + 1) (llstr_buf A)"
  ultimately show ?thesis
    using sdsnewlen_spec [of "length (sdec (sint v))" "Ptr b" b A] l
    by (simp add: sdsfromlonglong_def b_def)
qed

section \<open>The formatted append\<close>

text \<open>The text of an argument, and of a whole format.\<close>

definition va_text :: "char \<Rightarrow> va \<Rightarrow> bytes option" where
  "va_text c v = (case v of
     VaStr b \<Rightarrow> if c = CHR ''s'' then map_option (\<lambda>n. take n b) (c_strlen b) else None
   | VaSds t \<Rightarrow> if c = CHR ''S'' then Some (sds_str t) else None
   | VaNum w \<Rightarrow>
       if c = CHR ''i'' then Some (sdec (to_int (uint w)))
       else if c = CHR ''I'' then Some (sdec (sint w))
       else if c = CHR ''u'' then Some (dec (unat w mod 2 ^ 32))
       else if c = CHR ''U'' then Some (dec (unat w))
       else None)"

fun expand_fmt :: "bytes \<Rightarrow> va list \<Rightarrow> bytes option" where
  "expand_fmt [] ap = None"
| "expand_fmt (c # f) ap =
     (if c = NUL then Some []
      else if c = CHR ''%'' then
        (case f of
           [] \<Rightarrow> None
         | next # f' \<Rightarrow>
             if is_conv next then
               (case ap of [] \<Rightarrow> None
                | v # ap \<Rightarrow> do { t \<leftarrow> va_text next v; u \<leftarrow> expand_fmt f' ap; Some (t @ u) })
             else map_option ((#) next) (expand_fmt f' ap))
      else map_option ((#) c) (expand_fmt f ap))"

definition va_ok :: "va \<Rightarrow> bool" where
  "va_ok v \<longleftrightarrow> (case v of VaSds t \<Rightarrow> sds_ok t | _ \<Rightarrow> True)"

lemma fmt_text_spec:
  assumes "is_conv c" "va_ok v" "va_text c v = Some t"
  shows "fmt_text A c (v # ap) = Some (t, ap)"
proof (cases v)
  case (VaNum w)
  let ?w = "if c = CHR ''i'' then word_of_int (signed_take_bit 31 (uint w)) else w :: 64 word"
  have w: "sint (word_of_int (signed_take_bit 31 (uint w)) :: 64 word) = to_int (uint w)"
    by (simp add: to_int_def signed_of_int signed_take_bit_signed_take_bit)
  have b: "length (sdec (sint x)) < length (llstr_buf A)" for x :: "64 word"
    using length_sdec_64 [of x] by simp
  have u: "length (dec x) < length (llstr_buf A)" if "x < 2 ^ 64" for x
    using length_dec_64 [OF that] by simp
  have l: "unat w mod 2 ^ 32 < 2 ^ 64" "unat w < 2 ^ 64"
    using unat_less_64 [of w] by (auto intro: le_less_trans [OF mod_less_eq_dividend])
  consider "c = CHR ''i''" | "c = CHR ''I''" | "c = CHR ''u''" | "c = CHR ''U''"
    using assms VaNum by (auto simp: va_text_def split: if_splits)
  then show ?thesis
    using assms VaNum
    by cases (simp_all add: va_text_def fmt_text_def sdsll2str_spec [OF b]
        sdsull2str_spec [OF u [OF l(1)], simplified] sdsull2str_spec [OF u [OF l(2)]] w)
next
  case (VaStr b)
  then show ?thesis using assms
    by (auto simp: va_text_def fmt_text_def split: if_splits)
next
  case (VaSds s)
  then show ?thesis using assms sds_okD [of s]
    by (auto simp: va_text_def va_ok_def fmt_text_def sds_str_def mem_simps split: if_splits)
qed

lemma room_if: "(if sdsavail s < l then sdsMakeRoomFor A s l else Some (Moved s)) = sdsMakeRoomFor A s l"
  by (simp add: sdsMakeRoomFor_def)

lemma room_if_0: "(if sdsavail s = 0 then sdsMakeRoomFor A s 1 else Some (Moved s)) = sdsMakeRoomFor A s 1"
  using room_if [of s 1 A] by (simp add: less_Suc_eq)

lemma fmt_append:
  assumes wf: "sds_wf s" and room: "sdslen s + length t \<le> sdsalloc s"
  obtains s1 where "sds_write_at s (int (sdslen s)) t = Some s1"
    "sds_wf (sdsinclen s1 (length t))" "sdslen (sdsinclen s1 (length t)) = sdslen s + length t"
    "sds_str (sdsinclen s1 (length t)) = sds_str s @ t"
proof -
  note wfD = sds_wfD [OF wf]
  let ?b = "take (sdslen s) (buf s) @ t @ drop (sdslen s + length t) (buf s)"
  let ?s1 = "s\<lparr>buf := ?b\<rparr>"
  have w: "sds_write_at s (int (sdslen s)) t = Some ?s1"
    using wfD room by (simp add: sds_write_at_def mem_simps)
  have max: "sdslen s + length t \<le> hdr_max (hdr_type (hdr s))"
    using room sdsalloc_le_max [of s] by linarith
  then have inc: "sdsinclen ?s1 (length t) = sdssetlen ?s1 (sdslen s + length t)"
    by (subst sdsinclen_setlen) (simp_all add: sds_simps)
  have len: "sdslen (sdssetlen ?s1 (sdslen s + length t)) = sdslen s + length t"
    using max by (simp add: sds_simps)
  have lb: "length ?b = length (buf s)" using wfD room by simp
  show ?thesis
  proof (rule that [OF w])
    show "sds_wf (sdsinclen ?s1 (length t))"
      using len lb wfD room max unfolding sds_wf_def inc by (auto simp: sds_simps)
    show "sdslen (sdsinclen ?s1 (length t)) = sdslen s + length t" unfolding inc by (rule len)
    show "sds_str (sdsinclen ?s1 (length t)) = sds_str s @ t"
      using len wfD unfolding sds_str_def inc by (simp add: sds_simps)
  qed
qed

lemma fmt_put_spec:
  assumes wf: "sds_wf s" and small: "sdslen s + length t < 2 ^ 31"
  shows "fmt_put A s (int (sdslen s)) t = Some Null \<or>
    (\<exists>s'. fmt_put A s (int (sdslen s)) t = Some (Ptr (s', int (sdslen s'))) \<and> sds_wf s' \<and>
      sdslen s' = sdslen s + length t \<and> sds_str s' = sds_str s @ t)"
proof -
  have sm: "sdslen s + length t < 2 ^ 63" using small by simp
  show ?thesis
  proof (cases rule: sdsMakeRoomFor_wf [OF wf sm, of A, case_names room oom])
    case (room s1)
    then have "sdslen s1 + length t \<le> sdsalloc s1" by simp
    then obtain s2 where "sds_write_at s1 (int (sdslen s1)) t = Some s2"
      "sds_wf (sdsinclen s2 (length t))" "sdslen (sdsinclen s2 (length t)) = sdslen s1 + length t"
      "sds_str (sdsinclen s2 (length t)) = sds_str s1 @ t"
      using fmt_append [OF room(2)] by blast
    with room small show ?thesis
      by (simp add: fmt_put_def room_if Let_def) (simp add: to_int_small)
  next
    case (oom p)
    then show ?thesis by (simp add: fmt_put_def room_if)
  qed
qed

lemma fmt_char_spec:
  assumes wf: "sds_wf s" and room: "sdslen s + 1 \<le> sdsalloc s" and small: "sdslen s + 1 < 2 ^ 31"
  obtains s' where "fmt_char s (int (sdslen s)) c = Some (s', int (sdslen s'))" "sds_wf s'"
    "sdslen s' = sdslen s + 1" "sds_str s' = sds_str s @ [c]"
proof -
  obtain s1 where s1: "sds_write_at s (int (sdslen s)) [c] = Some s1"
    "sds_wf (sdsinclen s1 1)" "sdslen (sdsinclen s1 1) = sdslen s + 1"
    "sds_str (sdsinclen s1 1) = sds_str s @ [c]"
    using fmt_append [OF wf, of "[c]"] room by auto
  moreover have "to_int (int (sdslen s) + 1) = int (sdslen s + 1)"
    using small by (simp add: to_int_small)
  ultimately show ?thesis by (intro that [of "sdsinclen s1 1"]) (simp_all add: fmt_char_def)
qed

lemma catfmt_loop_spec:
  assumes "sds_wf s" "list_all va_ok ap" "expand_fmt f ap = Some t" "sdslen s + length t < 2 ^ 31"
  shows "catfmt_loop A s (int (sdslen s)) f ap = Some Null \<or>
    (\<exists>s'. catfmt_loop A s (int (sdslen s)) f ap = Some (Ptr s') \<and> sds_ok s' \<and>
      sds_str s' = sds_str s @ t)"
  using assms
proof (induction f ap arbitrary: s t rule: expand_fmt.induct)
  case (1 ap)
  then show ?case by simp
next
  case (2 c f ap)
  have sm: "sdslen s + 1 < 2 ^ 63" using 2(7) by simp
  note defs = catfmt_loop.simps room_if_0
  show ?case
  proof (cases "c = NUL")
    case True
    let ?s' = "s\<lparr>buf := take (sdslen s) (buf s) @ [NUL] @ drop (sdslen s + 1) (buf s)\<rparr>"
    note wfD = sds_wfD [OF 2(4)]
    have "sds_ok ?s'" using wfD by (intro sds_okI [of _ "sdslen s"]) (auto simp: sds_simps nth_append)
    moreover have "sds_str ?s' = sds_str s" using wfD by (simp add: sds_str_def sds_simps)
    ultimately show ?thesis using True 2(6) wfD by (simp add: sds_write_at_def mem_simps)
  next
    case c: False
    then have pos: "t \<noteq> [] \<Longrightarrow> 0 < length t" by simp
    show ?thesis
    proof (cases rule: sdsMakeRoomFor_wf [OF 2(4) sm, of A, case_names room oom])
      case (oom p)
      with c show ?thesis by (simp add: defs)
    next
      case (room s1)
      have char: ?thesis
        if u: "expand_fmt f' ap = Some u" "t = d # u"
          and loop: "catfmt_loop A s (int (sdslen s)) (c # f) ap =
            do { (s, i) \<leftarrow> fmt_char s1 (int (sdslen s)) d; catfmt_loop A s i f' ap }"
          and ih: "\<And>s. sds_wf s \<Longrightarrow> sdslen s + length u < 2 ^ 31 \<Longrightarrow>
            catfmt_loop A s (int (sdslen s)) f' ap = Some Null \<or>
            (\<exists>s'. catfmt_loop A s (int (sdslen s)) f' ap = Some (Ptr s') \<and> sds_ok s' \<and>
              sds_str s' = sds_str s @ u)" for d f' u
      proof -
        have "sdslen s1 + 1 < 2 ^ 31" "sdslen s1 + 1 \<le> sdsalloc s1" using u 2(7) room by auto
        then obtain s2 where s2: "fmt_char s1 (int (sdslen s1)) d = Some (s2, int (sdslen s2))"
          "sds_wf s2" "sdslen s2 = sdslen s1 + 1" "sds_str s2 = sds_str s1 @ [d]"
          using fmt_char_spec [OF room(2)] by blast
        have "sdslen s2 + length u < 2 ^ 31" using s2 u 2(7) room by simp
        with ih [OF s2(2)] s2 u room loop show ?thesis by auto
      qed
      show ?thesis
      proof (cases "c = CHR ''%''")
        case False
        from 2(6) c False obtain u where u: "expand_fmt f ap = Some u" "t = c # u" by auto
        show ?thesis
        proof (rule char [OF u])
          show "catfmt_loop A s (int (sdslen s)) (c # f) ap =
            do { (s, i) \<leftarrow> fmt_char s1 (int (sdslen s)) c; catfmt_loop A s i f ap }"
            using c False room(1) by (simp add: defs)
        qed (use 2(3) [OF c False] 2(5) u in auto)
      next
        case pc: True
        from 2(6) c pc obtain n f' where f: "f = n # f'" by (cases f) auto
        show ?thesis
        proof (cases "is_conv n")
          case False
          from 2(6) c pc f False obtain u where u: "expand_fmt f' ap = Some u" "t = n # u" by auto
          show ?thesis
          proof (rule char [OF u])
            show "catfmt_loop A s (int (sdslen s)) (c # f) ap =
              do { (s, i) \<leftarrow> fmt_char s1 (int (sdslen s)) n; catfmt_loop A s i f' ap }"
              using c pc f False room(1) by (simp add: defs)
          qed (use 2(2) [OF c pc f False] 2(5) u in auto)
        next
          case True
          from 2(6) c pc f True obtain v ap' x u where
            v: "ap = v # ap'" "va_text n v = Some x" "expand_fmt f' ap' = Some u" "t = x @ u"
            by (cases ap) (auto simp: bind_eq_Some_conv)
          have text_n: "fmt_text A n ap = Some (x, ap')"
            using fmt_text_spec [OF True, of v x] v 2(5) by simp
          have "sdslen s1 + length x < 2 ^ 31" using 2(7) v room by simp
          from fmt_put_spec [OF room(2) this, of A] show ?thesis
          proof
            assume "fmt_put A s1 (int (sdslen s1)) x = Some Null"
            then show ?thesis using c pc f True room text_n by (simp add: defs)
          next
            assume "\<exists>s'. fmt_put A s1 (int (sdslen s1)) x = Some (Ptr (s', int (sdslen s'))) \<and>
              sds_wf s' \<and> sdslen s' = sdslen s1 + length x \<and> sds_str s' = sds_str s1 @ x"
            then obtain s2 where s2: "fmt_put A s1 (int (sdslen s1)) x = Some (Ptr (s2, int (sdslen s2)))"
              "sds_wf s2" "sdslen s2 = sdslen s1 + length x" "sds_str s2 = sds_str s1 @ x" by blast
            have "sdslen s2 + length u < 2 ^ 31" using s2 v room 2(7) by simp
            with 2(1) [OF c pc f True v(1), where s = s2 and t = u] s2 v 2(5)
            have "catfmt_loop A s2 (int (sdslen s2)) f' ap' = Some Null \<or>
              (\<exists>s'. catfmt_loop A s2 (int (sdslen s2)) f' ap' = Some (Ptr s') \<and> sds_ok s' \<and>
                sds_str s' = sds_str s2 @ u)" by auto
            with s2 v room c pc f True text_n show ?thesis by (auto simp add: defs)
          qed
        qed
      qed
    qed
  qed
qed

lemma sdscatfmt_spec:
  assumes "sds_ok s" "list_all va_ok ap" "expand_fmt fmt ap = Some t"
    "length (sds_str s) + length t < 2 ^ 31"
  shows "sdscatfmt A s fmt ap = Some Null \<or>
    (\<exists>s'. sdscatfmt A s fmt ap = Some (Ptr s') \<and> sds_ok s' \<and> sds_str s' = sds_str s @ t)"
proof -
  have "sds_wf s" "sdslen s + length t < 2 ^ 31" using assms by (auto simp: sds_ok_wf length_sds_str)
  moreover from this have "to_int (int (sdslen s)) = int (sdslen s)" by (simp add: to_int_nat)
  ultimately show ?thesis using catfmt_loop_spec [of s ap fmt t A] assms by (simp add: sdscatfmt_def)
qed

section \<open>Trimming and slicing\<close>

lemma trim_left_spec:
  assumes "0 \<le> sp" "sp \<le> e + 1"
  shows "trim_left b cset sp e =
    sp + int (length (takeWhile (in_cset cset) (map (\<lambda>i. b ! i) [nat sp..<nat (e + 1)])))"
  using assms
proof (induction b cset sp e rule: trim_left.induct)
  case (1 b cset sp e)
  show ?case
  proof (cases "sp \<le> e")
    case True
    then have "[nat sp..<nat (e + 1)] = nat sp # [nat (sp + 1)..<nat (e + 1)]"
      using 1(2) by (subst upt_conv_Cons) (auto simp: nat_add_distrib)
    with True 1 show ?thesis by (subst trim_left.simps) auto
  next
    case False
    with 1 show ?thesis by (subst trim_left.simps) auto
  qed
qed

lemma trim_right_spec:
  assumes "0 \<le> sp" "sp \<le> ep"
  shows "trim_right b cset sp ep =
    ep - int (length (takeWhile (in_cset cset) (rev (map (\<lambda>i. b ! i) [Suc (nat sp)..<Suc (nat ep)]))))"
  using assms
proof (induction b cset sp ep rule: trim_right.induct)
  case (1 b cset sp ep)
  show ?case
  proof (cases "sp < ep")
    case True
    then have "[Suc (nat sp)..<Suc (nat ep)] = [Suc (nat sp)..<Suc (nat (ep - 1))] @ [nat ep]"
      using 1(2) by (simp add: nat_diff_distrib' Suc_diff_le)
    with True 1 show ?thesis by (subst trim_right.simps) (auto simp del: upt_Suc)
  next
    case False
    with 1 show ?thesis by (subst trim_right.simps) auto
  qed
qed

definition strip :: "('a \<Rightarrow> bool) \<Rightarrow> 'a list \<Rightarrow> 'a list" where
  "strip P xs = rev (dropWhile P (rev (dropWhile P xs)))"

text \<open>The shift to the front that both functions end with.\<close>

lemma sds_slice:
  assumes ok: "sds_ok s" and n: "k + n \<le> sdslen s" and shift: "k \<noteq> 0 \<and> n \<noteq> 0 \<Longrightarrow> P" "P \<Longrightarrow> k \<noteq> 0"
  shows "\<exists>s'. do {
      s1 \<leftarrow> (if P then do { src \<leftarrow> mem_read (buf s) k n; sds_write s 0 src } else Some s);
      s2 \<leftarrow> sds_write s1 n [NUL];
      Some (sdssetlen s2 n) } = Some s' \<and> sds_ok s' \<and> sds_str s' = take n (drop k (sds_str s))"
proof -
  note okD = sds_okD [OF ok]
  define src where "src = take n (drop k (buf s))"
  have le: "n \<le> sdslen s - k" using n by simp
  have src: "src = take n (drop k (sds_str s))" "length src = n"
    using le n okD by (simp_all add: src_def sds_str_def drop_take min_absorb1)
  have same: "take n (buf s) = src" if "\<not> P" using that shift n by (cases "n = 0"; cases "k = 0") (auto simp: src_def)
  let ?s' = "sdssetlen (s\<lparr>buf := src @ NUL # drop (n + 1) (buf s)\<rparr>) n"
  have "do { s1 \<leftarrow> (if P then do { src \<leftarrow> mem_read (buf s) k n; sds_write s 0 src } else Some s);
      s2 \<leftarrow> sds_write s1 n [NUL];
      Some (sdssetlen s2 n) } = Some ?s'"
    using n okD same src(2) by (cases P) (simp_all add: mem_simps src_def [symmetric])
  moreover have "sds_ok ?s' \<and> sds_str ?s' = src"
    using sds_rewrite [OF ok, of src] src n by simp
  ultimately show ?thesis using src(1) by blast
qed

lemma strip_take:
  "strip P xs = take (length d - length (takeWhile P (rev d))) d" if "d = dropWhile P xs"
  unfolding strip_def that [symmetric] by (simp add: dropWhile_eq_drop rev_drop)

lemma takeWhile_rev_Cons: "\<not> P x \<Longrightarrow> takeWhile P (rev (x # xs)) = takeWhile P (rev xs)"
  using takeWhile_tail [of P x "rev xs" "[]"] by simp

lemma sdstrim_spec:
  assumes ok: "sds_ok s"
  shows "\<exists>s'. sdstrim s cset = Some s' \<and> sds_ok s' \<and> sds_str s' = strip (in_cset cset) (sds_str s)"
proof -
  let ?P = "in_cset cset" and ?n = "sdslen s" and ?x = "sds_str s"
  note okD = sds_okD [OF ok]
  have lx: "length ?x = ?n" using ok by (rule length_sds_str)
  have nth: "buf s ! i = ?x ! i" if "i < ?n" for i using that by (simp add: sds_str_def)
  have seg: "map (\<lambda>i. buf s ! i) [a..<?n] = drop a ?x" for a
    using lx by (intro nth_equalityI) (auto simp: nth)
  define k where "k = length (takeWhile ?P ?x)"
  define e where "e = int ?n - 1"
  have k: "k \<le> ?n" using length_takeWhile_le [of ?P ?x] lx by (simp add: k_def)
  have ne: "nat (e + 1) = ?n" by (simp add: e_def)
  have sp: "trim_left (buf s) cset 0 e = int k"
    using trim_left_spec [of 0 e "buf s" cset] seg [of 0] by (simp add: k_def ne) (simp add: e_def)
  have dk: "drop k ?x = dropWhile ?P ?x" by (simp add: k_def dropWhile_eq_drop)
  define ep where "ep = trim_right (buf s) cset (int k) e"
  define len where "len = (if int k > ep then 0 else nat (ep - int k + 1))"
  have len: "k + len \<le> ?n \<and> take len (drop k ?x) = strip ?P ?x"
  proof (cases "k = ?n")
    case True
    then have "ep = e" unfolding ep_def by (subst trim_right.simps) (simp add: e_def)
    then have "len = 0" by (simp add: len_def e_def True)
    with True dk lx show ?thesis by (simp add: strip_def)
  next
    case False
    then have kn: "k < ?n" using k by simp
    define m where "m = length (takeWhile ?P (rev (drop k ?x)))"
    have d: "drop k ?x = ?x ! k # drop (Suc k) ?x" using kn lx by (simp add: Cons_nth_drop_Suc)
    have nP: "\<not> ?P (?x ! k)" using kn lx nth_length_takeWhile [of ?P ?x] by (simp add: k_def)
    have m: "m = length (takeWhile ?P (rev (drop (Suc k) ?x)))"
      using takeWhile_rev_Cons [of ?P "?x ! k" "drop (Suc k) ?x"] nP d by (simp add: m_def)
    then have ml: "m \<le> ?n - Suc k"
      using length_takeWhile_le [of ?P "rev (drop (Suc k) ?x)"] lx by simp
    have "ep = e - int m"
      using trim_right_spec [of "int k" e "buf s" cset] kn seg [of "Suc k"] m
      by (simp add: ep_def e_def Suc_nat_eq_nat_zadd1 del: upt_Suc)
    then have "len = ?n - k - m" using ml kn by (auto simp: len_def e_def)
    then show ?thesis using kn ml lx strip_take [OF dk] by (simp add: m_def)
  qed
  have "sdstrim s cset = do {
      s1 \<leftarrow> (if k \<noteq> 0 then do { src \<leftarrow> mem_read (buf s) k len; sds_write s 0 src } else Some s);
      s2 \<leftarrow> sds_write s1 len [NUL];
      Some (sdssetlen s2 len) }"
    unfolding sdstrim_def Let_def e_def [symmetric] sp ep_def [symmetric] len_def [symmetric] by simp
  with sds_slice [OF ok, of k len "k \<noteq> 0"] len show ?thesis by simp
qed


text \<open>
  The reference slice: negative indexes count from the end, both ends are clipped, the end is
  part of the slice.
\<close>

definition slice :: "'a list \<Rightarrow> int \<Rightarrow> int \<Rightarrow> 'a list" where
  "slice xs a b =
     (let n = int (length xs);
          a = (if a < 0 then max 0 (n + a) else a);
          b = (if b < 0 then max 0 (n + b) else b)
      in take (nat (b - a + 1)) (drop (nat a) xs))"

lemma sdsrange_spec:
  assumes ok: "sds_ok s" and small: "sdslen s < 2 ^ 31"
    and ints: "- (2 ^ 31) \<le> a" "a < 2 ^ 31" "- (2 ^ 31) \<le> b" "b < 2 ^ 31"
  shows "\<exists>s'. sdsrange s a b = Some s' \<and> sds_ok s' \<and> sds_str s' = slice (sds_str s) a b"
proof (cases "sdslen s = 0")
  case True
  with ok have "sds_str s = []" by (simp add: sds_str_def)
  with ok True show ?thesis by (simp add: sdsrange_def slice_def Let_def)
next
  case False
  let ?n = "sdslen s" and ?x = "sds_str s"
  have lx: "length ?x = ?n" using ok by (rule length_sds_str)
  define a' where "a' = (if a < 0 then max 0 (int ?n + a) else a)"
  define b' where "b' = (if b < 0 then max 0 (int ?n + b) else b)"
  have ix: "range_index ?n a = a'" "range_index ?n b = b'"
    using small ints by (auto simp: range_index_def a'_def b'_def to_int_small Let_def)
  have nonneg: "0 \<le> a'" "0 \<le> b'" "a' < 2 ^ 31" "b' < 2 ^ 31"
    using ints small by (auto simp: a'_def b'_def)
  have rl: "range_len x y = nat (y - x + 1)"
    if "0 \<le> x" "0 \<le> y" "y < 2 ^ 31" "y - x + 1 < 2 ^ 31" for x y
  proof (cases "x \<le> y")
    case True
    then have "to_int (y - x + 1) = y - x + 1" using that by (intro to_int_small) auto
    with True that show ?thesis by (simp add: range_len_def)
  qed (simp add: range_len_def)
  have full: "range_len 0 2147483647 \<noteq> 0"
    by (simp add: range_len_def to_int_def)
  have pos: "range_len a' b' = 0 \<longleftrightarrow> a' > b'"
  proof (cases "b' - a' + 1 < 2 ^ 31")
    case True
    with rl [of a' b'] nonneg show ?thesis by auto
  next
    case False
    with nonneg have "a' = 0" "b' = 2147483647" by auto
    with full show ?thesis by simp
  qed
  have n1: "to_int (int ?n) = int ?n" "to_int (int ?n - 1) = int ?n - 1"
    using small False by (auto intro!: to_int_small)
  define k where "k = (if a' > b' then 0 else a')"
  define m where "m = (if a' > b' \<or> a' \<ge> int ?n then 0
      else if b' \<ge> int ?n then nat (int ?n - a') else nat (b' - a' + 1))"
  have m: "m \<noteq> 0 \<Longrightarrow> nat k + m \<le> ?n"
    using nonneg by (auto simp: k_def m_def split: if_splits)
  have sl: "slice ?x a b = take m (drop (nat k) ?x)"
    using nonneg by (simp add: slice_def a'_def [symmetric] b'_def [symmetric] lx k_def m_def Let_def nat_le_iff le_nat_iff)
  have r1: "range_len a' b' = nat (b' - a' + 1)" if "\<not> int ?n \<le> b'"
    using that nonneg small by (intro rl) auto
  have r2: "range_len a' (int ?n - 1) = nat (int ?n - a')" if "\<not> int ?n \<le> a'"
    using that nonneg small False by (subst rl) auto
  have code: "sdsrange s a b = do {
      s1 \<leftarrow> (if k \<noteq> 0 \<and> m \<noteq> 0 then do { src \<leftarrow> mem_read (buf s) (nat k) m; sds_write s 0 src } else Some s);
      s2 \<leftarrow> sds_write s1 m [NUL];
      Some (sdssetlen s2 m) }"
    unfolding sdsrange_def Let_def ix n1 using False
    using r1 r2 pos nonneg by (cases "b' < a'"; cases "a' = 0") (simp_all add: k_def m_def)
  define k' where "k' = (if m = 0 then 0 else nat k)"
  have k': "k' + m \<le> ?n" using m by (simp add: k'_def)
  have P: "k' \<noteq> 0 \<and> m \<noteq> 0 \<Longrightarrow> k \<noteq> 0 \<and> m \<noteq> 0" "k \<noteq> 0 \<and> m \<noteq> 0 \<Longrightarrow> k' \<noteq> 0"
    using nonneg by (auto simp: k'_def k_def split: if_splits)
  have eq: "(if k \<noteq> 0 \<and> m \<noteq> 0 then do { src \<leftarrow> mem_read (buf s) (nat k) m; sds_write s 0 src } else Some s)
    = (if k \<noteq> 0 \<and> m \<noteq> 0 then do { src \<leftarrow> mem_read (buf s) k' m; sds_write s 0 src } else Some s)"
    by (simp add: k'_def)
  have "take m (drop (nat k) ?x) = take m (drop k' ?x)" by (simp add: k'_def)
  with sds_slice [OF ok k' P] show ?thesis unfolding code eq sl by simp
qed

section \<open>Characters and comparison\<close>

lemma map_first_spec:
  assumes ok: "sds_ok s" and small: "sdslen s < 2 ^ 31"
  shows "\<exists>s'. map_first f s = Some s' \<and> sds_ok s' \<and> sds_str s' = map f (sds_str s)"
proof -
  note okD = sds_okD [OF ok]
  let ?s' = "s\<lparr>buf := map f (sds_str s) @ drop (sdslen s) (buf s)\<rparr>"
  have "map_first f s = Some ?s'"
    using okD small by (simp add: map_first_def to_int_small mem_simps sds_str_def)
  moreover have "sds_ok ?s'"
    using okD by (intro sds_okI [of _ "sdslen s"]) (auto simp: sds_simps sds_str_def nth_append)
  moreover have "sds_str ?s' = map f (sds_str s)" using okD by (simp add: sds_str_def sds_simps)
  ultimately show ?thesis by blast
qed

lemma map_char_lookup:
  "map_char fs ts c = (case map_of (zip fs ts) c of None \<Rightarrow> c | Some d \<Rightarrow> d)"
  by (induction fs ts c rule: map_char.induct) auto

lemma sdsmapchars_spec:
  assumes ok: "sds_ok s" and set: "n \<le> length from" "n \<le> length to'"
  shows "\<exists>s'. sdsmapchars s from to' n = Some s' \<and> sds_ok s' \<and>
    sds_str s' = map (map_char (take n from) (take n to')) (sds_str s)"
proof -
  note okD = sds_okD [OF ok]
  let ?f = "map_char (take n from) (take n to')"
  let ?s' = "s\<lparr>buf := map ?f (sds_str s) @ drop (sdslen s) (buf s)\<rparr>"
  have "sdsmapchars s from to' n = Some ?s'"
    using okD set by (simp add: sdsmapchars_def mem_simps sds_str_def)
  moreover have "sds_ok ?s'"
    using okD by (intro sds_okI [of _ "sdslen s"]) (auto simp: sds_simps sds_str_def nth_append)
  moreover have "sds_str ?s' = map ?f (sds_str s)" using okD by (simp add: sds_str_def sds_simps)
  ultimately show ?thesis by blast
qed

lemma byte_inj: "byte x = byte y \<longleftrightarrow> x = y"
  by simp

lemma char_less_byte: "x < y \<longleftrightarrow> byte x < byte (y :: char)"
  by (simp add: less_char_def)

lemma c_memcmp_take:
  "let n = min (length x) (length y); d = c_memcmp (take n x) (take n y) in
   (x < y \<longleftrightarrow> d < 0 \<or> (d = 0 \<and> length x < length y)) \<and> (d = 0 \<and> length x = length y \<longleftrightarrow> x = y)"
proof (induction x y rule: list_induct2')
  case (4 a x b y)
  then show ?case by (auto simp: Let_def char_less_byte)
qed (auto simp: Let_def)

lemma sdscmp_spec:
  assumes "sds_ok s1" "sds_ok s2" "sdslen s1 < 2 ^ 31" "sdslen s2 < 2 ^ 31"
  shows "\<exists>d. sdscmp s1 s2 = Some d \<and> (d < 0 \<longleftrightarrow> sds_str s1 < sds_str s2) \<and>
    (d = 0 \<longleftrightarrow> sds_str s1 = sds_str s2)"
proof -
  let ?x = "sds_str s1" and ?y = "sds_str s2" and ?n = "min (sdslen s1) (sdslen s2)"
  note ok1 = sds_okD [OF assms(1)] and ok2 = sds_okD [OF assms(2)]
  have l: "length ?x = sdslen s1" "length ?y = sdslen s2" using assms by (simp_all add: length_sds_str)
  have t: "take ?n (buf s1) = take ?n ?x" "take ?n (buf s2) = take ?n ?y"
    by (simp_all add: sds_str_def min.commute)
  define d where "d = c_memcmp (take ?n ?x) (take ?n ?y)"
  have i: "to_int (int (sdslen s1) - int (sdslen s2)) = int (sdslen s1) - int (sdslen s2)"
    using assms by (intro to_int_small) auto
  have n: "(if sdslen s1 < sdslen s2 then sdslen s1 else sdslen s2) = ?n" by simp
  have "sdscmp s1 s2 = Some (if d = 0 then int (sdslen s1) - int (sdslen s2) else d)"
    using ok1 ok2 unfolding sdscmp_def Let_def n by (simp add: mem_simps t d_def i)
  with c_memcmp_take [of ?x ?y] l show ?thesis by (auto simp: Let_def d_def)
qed

section \<open>Splitting and joining\<close>

lemma put_token_spec:
  assumes "start + n \<le> length s" "n < 2 ^ 63" "length tokens < slots"
  shows "put_token A slots tokens s start n = Some Null \<or>
    (\<exists>t. put_token A slots tokens s start n = Some (Ptr (tokens @ [t])) \<and> sds_ok t \<and>
      sds_str t = take n (drop start s))"
  using sdsnewlen_spec [of n "Ptr (take n (drop start s))" "take n (drop start s)" A] assms
  by (auto simp: put_token_def mem_simps)

text \<open>The reference: the leftmost, non-overlapping occurrences of the separator.\<close>

function split_ref :: "'a list \<Rightarrow> 'a list \<Rightarrow> 'a list \<Rightarrow> 'a list list" where
  "split_ref sep acc s =
     (if sep \<noteq> [] \<and> length sep \<le> length s then
        if take (length sep) s = sep then acc # split_ref sep [] (drop (length sep) s)
        else split_ref sep (acc @ [hd s]) (tl s)
      else [acc @ s])"
  by pat_completeness auto
termination by (relation "measure (\<lambda>(sep, acc, s). length s)") (auto simp: neq_Nil_conv)

declare split_ref.simps [simp del]

fun join_with :: "'a list \<Rightarrow> 'a list list \<Rightarrow> 'a list" where
  "join_with sep [] = []"
| "join_with sep [x] = x"
| "join_with sep (x # y # ys) = x @ sep @ join_with sep (y # ys)"

lemma split_ref_nonempty: "split_ref sep acc s \<noteq> []"
  by (induction sep acc s rule: split_ref.induct) (subst split_ref.simps, auto)

lemma join_with_Cons: "ys \<noteq> [] \<Longrightarrow> join_with sep (x # ys) = x @ sep @ join_with sep ys"
  by (cases ys) auto

lemma join_split_ref: "join_with sep (split_ref sep acc s) = acc @ s"
proof (induction sep acc s rule: split_ref.induct)
  case (1 sep acc s)
  have hd: "hd s # tl s = s" if "sep \<noteq> [] \<and> length sep \<le> length s" using that by (cases s) auto
  show ?case
  proof (cases "sep \<noteq> [] \<and> length sep \<le> length s")
    case True
    then show ?thesis
    proof (cases "take (length sep) s = sep")
      case match: True
      then have "s = sep @ drop (length sep) s" by (metis append_take_drop_id)
      with True match 1 show ?thesis
        by (subst split_ref.simps) (simp add: join_with_Cons split_ref_nonempty)
    next
      case False
      with True 1 hd show ?thesis by (subst split_ref.simps) simp
    qed
  qed (subst split_ref.simps, auto)
qed

lemma split_loop_spec:
  assumes "list_all sds_ok tokens" "length tokens < slots" "start \<le> j" "j \<le> len"
    "len \<le> length s" "len < 2 ^ 63" "0 < seplen" "seplen \<le> length sep"
  shows "split_loop A s len sep seplen slots tokens start j = Some Null \<or>
    (\<exists>ts. split_loop A s len sep seplen slots tokens start j = Some (Ptr ts) \<and> list_all sds_ok ts \<and>
      map sds_str ts = map sds_str tokens @
        split_ref (take seplen sep) (take (j - start) (drop start s)) (take (len - j) (drop j s)))"
  using assms
proof (induction "len - j" arbitrary: slots tokens start j rule: less_induct)
  case less
  note ih = less(1)
  note prems = less(2-9)
  let ?sep = "take seplen sep" and ?rest = "take (len - j) (drop j s)"
    and ?acc = "take (j - start) (drop start s)"
  have sep: "?sep \<noteq> []" "length ?sep = seplen" using prems(7,8) by auto
  have lrest: "length ?rest = len - j" using prems(4,5) by simp
  define grow where "grow = (slots < length tokens + 2)"
  define slots' where "slots' = (if grow then slots * 2 else slots)"
  have slots': "length tokens + 1 < slots'" using prems(2) by (auto simp: slots'_def grow_def)
  note unf = split_loop.simps [of A s len sep seplen slots tokens start j, unfolded Let_def,
      folded grow_def, folded slots'_def]
  show ?case
  proof (cases "j + (seplen - 1) < len")
    case False
    have "?acc @ ?rest = take (len - start) (drop start s)"
      using prems(3,4) using take_add [of "j - start" "len - j" "drop start s"] by simp
    with False lrest sep prems(7) have "split_ref ?sep ?acc ?rest = [take (len - start) (drop start s)]"
      by (subst split_ref.simps) auto
    moreover have "put_token A slots tokens s start (len - start) = Some Null \<or>
      (\<exists>t. put_token A slots tokens s start (len - start) = Some (Ptr (tokens @ [t])) \<and> sds_ok t \<and>
      sds_str t = take (len - start) (drop start s))"
      using prems by (intro put_token_spec) auto
    ultimately show ?thesis using False prems(1) by (auto simp: unf)
  next
    case in_range: True
    show ?thesis
    proof (cases "grow \<and> \<not> grants A (8 * slots')")
      case True
      with in_range show ?thesis by (simp add: unf)
    next
      case granted: False
      let ?sj = "take seplen (drop j s)"
      have rd: "mem_read s j seplen = Some ?sj" "mem_read sep 0 seplen = Some ?sep"
        using in_range prems(5,7,8) by (simp_all add: mem_simps)
      have sj: "?sj = take seplen ?rest" using in_range by (simp add: min_def)
      have le: "seplen \<le> length ?rest" using in_range prems(7) lrest by simp
      show ?thesis
      proof (cases "?sj = ?sep")
        case match: True
        have "put_token A slots' tokens s start (j - start) = Some Null \<or>
          (\<exists>t. put_token A slots' tokens s start (j - start) = Some (Ptr (tokens @ [t])) \<and> sds_ok t \<and>
            sds_str t = ?acc)"
          using prems(2-6) slots' by (intro put_token_spec) auto
        then show ?thesis
        proof
          assume "put_token A slots' tokens s start (j - start) = Some Null"
          with match rd show ?thesis
            unfolding unf if_P [OF in_range] if_not_P [OF granted] by simp
        next
          assume "\<exists>t. put_token A slots' tokens s start (j - start) = Some (Ptr (tokens @ [t])) \<and>
            sds_ok t \<and> sds_str t = ?acc"
          then obtain t where t: "put_token A slots' tokens s start (j - start) = Some (Ptr (tokens @ [t]))"
            "sds_ok t" "sds_str t = ?acc" by blast
          have ref: "split_ref ?sep ?acc ?rest =
              ?acc # split_ref ?sep [] (take (len - (j + seplen)) (drop (j + seplen) s))"
          proof -
            have c: "?sep \<noteq> [] \<and> length ?sep \<le> length ?rest" using sep le by simp
            have m: "take (length ?sep) ?rest = ?sep" using match sj unfolding sep(2) by simp
            have d: "drop (length ?sep) ?rest = take (len - (j + seplen)) (drop (j + seplen) s)"
              unfolding sep(2) by (simp add: drop_take add.commute)
            show ?thesis
              unfolding split_ref.simps [of ?sep ?acc ?rest] if_P [OF c] if_P [OF m] d ..
          qed
          have code: "split_loop A s len sep seplen slots tokens start j =
              split_loop A s len sep seplen slots' (tokens @ [t]) (j + seplen) (j + seplen)"
            using match rd t prems(7) unfolding unf if_P [OF in_range] if_not_P [OF granted]
            by (simp add: max_absorb1)
          have "split_loop A s len sep seplen slots' (tokens @ [t]) (j + seplen) (j + seplen) = Some Null \<or>
            (\<exists>ts. split_loop A s len sep seplen slots' (tokens @ [t]) (j + seplen) (j + seplen) = Some (Ptr ts) \<and>
              list_all sds_ok ts \<and> map sds_str ts = map sds_str (tokens @ [t]) @
                split_ref ?sep [] (take (len - (j + seplen)) (drop (j + seplen) s)))"
            using ih [of "j + seplen" "tokens @ [t]" slots' "j + seplen"] prems in_range slots' t(2)
            by simp
          with ref t show ?thesis unfolding code by auto
        qed
      next
        case False
        have ne: "?rest \<noteq> []" using le prems(7) by (cases ?rest) auto
        have "hd ?rest = s ! j" using ne by (simp add: hd_take hd_drop_conv_nth)
        then have acc: "?acc @ [hd ?rest] = take (Suc j - start) (drop start s)"
          using prems(3) in_range prems(5) by (simp add: Suc_diff_le take_Suc_conv_app_nth)
        have tl: "tl ?rest = take (len - Suc j) (drop (Suc j) s)"
          by (simp add: tl_take tl_drop drop_Suc)
        have ref: "split_ref ?sep ?acc ?rest =
          split_ref ?sep (take (Suc j - start) (drop start s)) (take (len - Suc j) (drop (Suc j) s))"
        proof -
          have c: "?sep \<noteq> [] \<and> length ?sep \<le> length ?rest" using sep le by simp
          have m: "take (length ?sep) ?rest \<noteq> ?sep" using False sj unfolding sep(2) by simp
          show ?thesis
            unfolding split_ref.simps [of ?sep ?acc ?rest] if_P [OF c] if_not_P [OF m] acc tl ..
        qed
        have code: "split_loop A s len sep seplen slots tokens start j =
            split_loop A s len sep seplen slots' tokens start (Suc j)"
          using False rd unfolding unf if_P [OF in_range] if_not_P [OF granted] by simp
        have "length tokens < slots'" using slots' by simp
        then show ?thesis
          unfolding code ref using ih [of "Suc j" tokens slots' start] prems in_range by simp
      qed
    qed
  qed
qed

lemma sdssplitlen_spec:
  assumes "nat len \<le> length s" "len < 2 ^ 31" "0 < len" "0 < seplen" "nat seplen \<le> length sep"
  shows "sdssplitlen A s len sep seplen = Some Null \<or>
    (\<exists>ts. sdssplitlen A s len sep seplen = Some (Ptr ts) \<and> list_all sds_ok ts \<and>
      map sds_str ts = split_ref (take (nat seplen) sep) [] (take (nat len) s))"
proof (cases "grants A (8 * 5)")
  case True
  have l: "nat len < 2 ^ 63" "0 < nat seplen" using assms by auto
  have code: "sdssplitlen A s len sep seplen = split_loop A s (nat len) sep (nat seplen) 5 [] 0 0"
    using True assms(3,4) by (simp add: sdssplitlen_def)
  show ?thesis
    unfolding code using split_loop_spec [OF _ _ _ _ assms(1) l assms(5), of "[]" 5 0 0 A] by simp
next
  case False
  with assms show ?thesis by (simp add: sdssplitlen_def)
qed

text \<open>Appending through a pointer that is not null, when memory never runs out.\<close>

lemma append_cat:
  assumes "sds_ok s" "n \<le> length t" "length (sds_str s) + n < 2 ^ 63" "\<And>k. grants A k"
  obtains s' where "append_ptr (Ptr s) (\<lambda>s. sdscatlen A s t n) = Some (Ptr s')" "sds_ok s'"
    "sds_str s' = sds_str s @ take n t"
proof -
  have sm: "sdslen s + n < 2 ^ 63" using assms(1,3) by (simp add: length_sds_str)
  obtain s' where s': "sdscatlen A s t n = Some (Moved s')"
    using sdscatlen_granted [OF assms(1,2) sm assms(4)] by blast
  with assms sm show ?thesis
    by (cases rule: sdscatlen_cases [OF assms(1,2) sm, of A])
      (auto intro: that simp: append_ptr_def)
qed

lemma sdsnewlen_granted:
  assumes "n < 2 ^ 63" "n \<le> length p" "\<And>k. grants A k"
  obtains s where "sdsnewlen A (Ptr p) n = Some (Ptr s)" "sds_ok s" "sds_str s = take n p"
proof -
  have "sdsnewlen A (Ptr p) n \<noteq> Some Null"
    using assms by (auto simp: sdsnewlen_def Let_def sds_malloc_body_def bind_eq_Some_conv)
  with sdsnewlen_spec [of n "Ptr p" p A] assms that show ?thesis by auto
qed

lemma sdsempty_granted:
  assumes "\<And>k. grants A k"
  obtains s where "sdsempty A = Some (Ptr s)" "sds_ok s" "sds_str s = []"
  using sdsnewlen_granted [of 0 "[NUL]" A] assms that by (auto simp: sdsempty_def)

lemma joinsds_loop_spec:
  assumes "\<And>k. grants A k" "list_all sds_ok ts" "sds_ok s" "seplen \<le> length sep"
    "length (sds_str s) + length (join_with (take seplen sep) (map sds_str ts)) < 2 ^ 63"
  shows "\<exists>s'. joinsds_loop A (Ptr s) ts sep seplen = Some (Ptr s') \<and> sds_ok s' \<and>
    sds_str s' = sds_str s @ join_with (take seplen sep) (map sds_str ts)"
  using assms(2,3,5)
proof (induction ts arbitrary: s)
  case (Cons t ts)
  then have t: "sds_ok t" by simp
  have "join_with (take seplen sep) (map sds_str (t # ts)) = sds_str t @
      (if ts = [] then [] else take seplen sep @ join_with (take seplen sep) (map sds_str ts))"
    by (cases ts) auto
  note j = this
  have len: "length (sds_str s) + sdslen t < 2 ^ 63"
    using Cons(4) length_sds_str [OF t] unfolding j by simp
  have bt: "sdslen t \<le> length (buf t)" using sds_okD [OF t] by simp
  obtain s1 where s1: "append_ptr (Ptr s) (\<lambda>s. sdscatlen A s (buf t) (sdslen t)) = Some (Ptr s1)"
    "sds_ok s1" "sds_str s1 = sds_str s @ sds_str t"
    using append_cat [OF Cons(3) bt len assms(1)] unfolding sds_str_def [symmetric] by blast
  show ?case
  proof (cases "ts = []")
    case True
    with s1 show ?thesis by (simp add: sdscatsds_def)
  next
    case False
    have len: "length (sds_str s1) + seplen < 2 ^ 63"
      using Cons(4) assms(4) False unfolding j by (simp add: s1)
    obtain s2 where s2: "append_ptr (Ptr s1) (\<lambda>s. sdscatlen A s sep seplen) = Some (Ptr s2)"
      "sds_ok s2" "sds_str s2 = sds_str s1 @ take seplen sep"
      using append_cat [OF s1(2) assms(4) len assms(1)] by blast
    have "length (sds_str s2) + length (join_with (take seplen sep) (map sds_str ts)) < 2 ^ 63"
      using Cons(4) False unfolding j by (simp add: s1 s2)
    with Cons(1) [of s2] Cons(2) s2 obtain s3 where
      "joinsds_loop A (Ptr s2) ts sep seplen = Some (Ptr s3)" "sds_ok s3"
      "sds_str s3 = sds_str s2 @ join_with (take seplen sep) (map sds_str ts)" by auto
    with s1 s2 False show ?thesis unfolding j by (simp add: sdscatsds_def)
  qed
qed simp

lemma sdsjoinsds_spec:
  assumes "\<And>k. grants A k" "list_all sds_ok ts" "seplen \<le> length sep"
    "length (join_with (take seplen sep) (map sds_str ts)) < 2 ^ 63"
  shows "\<exists>s'. sdsjoinsds A ts sep seplen = Some (Ptr s') \<and> sds_ok s' \<and>
    sds_str s' = join_with (take seplen sep) (map sds_str ts)"
proof -
  obtain s where "sdsempty A = Some (Ptr s)" "sds_ok s" "sds_str s = []"
    using sdsempty_granted [OF assms(1)] by blast
  with joinsds_loop_spec [of A ts s seplen sep] assms show ?thesis by (simp add: sdsjoinsds_def)
qed

lemma list_all_splitres: "free_all (map Ptr ts) = Some ()"
  by (induction ts) (auto simp: sdsfree_def)

lemma sdsfreesplitres_ok: "sdsfreesplitres (Ptr ts) = Some ()"
  using list_all_splitres [of "rev ts"] by (simp add: sdsfreesplitres_def rev_map)

section \<open>Quoting\<close>

lemma vprintf_loop_cases:
  assumes "NUL \<notin> set out" "2 \<le> n"
  shows "vprintf_loop A out n = Null \<or> vprintf_loop A out n = Ptr (out @ [NUL])"
  using assms
proof (induction A out n rule: vprintf_loop.induct)
  case (1 A out n)
  note unf = vprintf_loop.simps [of A out n, unfolded Let_def]
  have guard: "(if n - 2 < length (take (n - 1) out @ [NUL]) then (take (n - 1) out @ [NUL]) ! (n - 2) else NUL) = NUL
    \<longleftrightarrow> length out \<le> n - 2"
    using 1(2,3) by (auto simp: nth_append not_le) (metis nth_mem)
  show ?case
  proof (cases "length out \<le> n - 2")
    case True
    then show ?thesis using guard unf by simp
  next
    case False
    then show ?thesis using guard 1 by (simp add: unf)
  qed
qed

lemma vprintf_loop_granted:
  assumes "\<And>k. grants A k" "NUL \<notin> set out" "2 \<le> n"
  shows "vprintf_loop A out n = Ptr (out @ [NUL])"
proof -
  have "vprintf_loop A out n \<noteq> Null" using assms(1)
  proof (induction A out n rule: vprintf_loop.induct)
    case (1 A out n)
    then show ?case by (subst vprintf_loop.simps) (simp add: Let_def)
  qed
  with vprintf_loop_cases [OF assms(2,3)] show ?thesis by blast
qed

lemma append_vprintf:
  assumes "sds_ok s" "NUL \<notin> set out" "length (sds_str s) + length out < 2 ^ 63" "\<And>k. grants A k"
  obtains s' where "append_ptr (Ptr s) (\<lambda>s. sdscatvprintf A s fmtlen out) = Some (Ptr s')" "sds_ok s'"
    "sds_str s' = sds_str s @ out"
proof -
  have code: "sdscatvprintf A s fmtlen out = sdscatlen A s (out @ [NUL]) (length out)" for s
    using assms(2,4) vprintf_loop_granted [OF assms(4,2)]
    by (simp add: sdscatvprintf_def Let_def sdscat_def c_strlen_append)
  have "length out \<le> length (out @ [NUL])" by simp
  from append_cat [OF assms(1) this assms(3,4)] that show ?thesis
    unfolding code by auto
qed

definition quote :: "bytes \<Rightarrow> bytes" where
  "quote x = [CHR 0x22] @ concat (map repr_char x) @ [CHR 0x22]"

lemma byte_div_16: "byte c div 16 < 16"
  by (intro less_mult_imp_div_less) simp

lemma hex_digit_inverse:
  assumes "d < 16"
  shows "is_hex_digit (hex_digit d)" "hex_digit_to_int (hex_digit d) = d" "hex_digit d \<noteq> NUL"
proof -
  have b: "byte (hex_digit d) = (if d < 10 then 48 + d else 87 + d)"
    using assms by (auto simp: hex_digit_def)
  show "is_hex_digit (hex_digit d)" "hex_digit_to_int (hex_digit d) = d"
    using b assms by (auto simp: is_hex_digit_def hex_digit_to_int_def)
  have "byte (hex_digit d) \<noteq> byte NUL" using b by simp
  then show "hex_digit d \<noteq> NUL" by metis
qed

lemma repr_char_no_NUL: "NUL \<notin> set (repr_char c)"
proof -
  show ?thesis using byte_div_16 [of c] hex_digit_inverse(3) [of "byte c div 16"] hex_digit_inverse(3) [of "byte c mod 16"]
    by (auto simp: repr_char_def c_isprint_def)
qed

lemma length_repr_char: "length (repr_char c) \<le> 4"
  by (simp add: repr_char_def)

lemma repr_loop_spec:
  assumes "\<And>k. grants A k" "sds_ok s" "length (sds_str s) + length (concat (map repr_char p)) < 2 ^ 63"
  shows "\<exists>s'. repr_loop A (Ptr s) p = Some (Ptr s') \<and> sds_ok s' \<and>
    sds_str s' = sds_str s @ concat (map repr_char p)"
  using assms(2,3)
proof (induction p arbitrary: s)
  case (Cons c p)
  let ?step = "append_ptr (Ptr s) (\<lambda>s. case repr_printf c of
      Some fmtlen \<Rightarrow> sdscatvprintf A s fmtlen (repr_char c)
    | None \<Rightarrow> sdscatlen A s (repr_char c) 2)"
  have len: "length (sds_str s) + length (repr_char c) < 2 ^ 63" using Cons(3) by simp
  obtain s1 where s1: "?step = Some (Ptr s1)" "sds_ok s1" "sds_str s1 = sds_str s @ repr_char c"
  proof (cases "repr_printf c")
    case None
    then have two: "length (repr_char c) = 2"
      by (auto simp: repr_printf_def repr_char_def split: if_splits)
    from append_cat [OF Cons(2) order_refl len assms(1)] that show ?thesis
      unfolding None two by (auto simp: two)
  next
    case (Some n)
    from append_vprintf [OF Cons(2) repr_char_no_NUL len assms(1)] that show ?thesis
      unfolding Some by auto
  qed
  with Cons(1) [of s1] Cons(3) show ?case by simp
qed simp

lemma sdscatrepr_spec:
  assumes "\<And>k. grants A k" "sds_ok s" "n \<le> length p"
    "length (sds_str s) + length (quote (take n p)) < 2 ^ 63"
  shows "\<exists>s'. sdscatrepr A s p n = Some (Ptr s') \<and> sds_ok s' \<and>
    sds_str s' = sds_str s @ quote (take n p)"
proof -
  have l: "length (sds_str s) + 1 < 2 ^ 63" using assms(4) by (simp add: quote_def)
  have q: "1 \<le> length [CHR 0x22]" by simp
  obtain s1 where s1: "append_ptr (Ptr s) (\<lambda>s. sdscatlen A s [CHR 0x22] 1) = Some (Ptr s1)"
    "sds_ok s1" "sds_str s1 = sds_str s @ take 1 [CHR 0x22]"
    using append_cat [OF assms(2) q l assms(1)] by blast
  have "length (sds_str s1) + length (concat (map repr_char (take n p))) < 2 ^ 63"
    using assms(4) s1 by (simp add: quote_def)
  then obtain s2 where s2: "repr_loop A (Ptr s1) (take n p) = Some (Ptr s2)" "sds_ok s2"
    "sds_str s2 = sds_str s1 @ concat (map repr_char (take n p))"
    using repr_loop_spec [OF assms(1) s1(2)] by blast
  have l: "length (sds_str s2) + 1 < 2 ^ 63" using assms(4) s1 s2 by (simp add: quote_def)
  obtain s3 where "append_ptr (Ptr s2) (\<lambda>s. sdscatlen A s [CHR 0x22] 1) = Some (Ptr s3)"
    "sds_ok s3" "sds_str s3 = sds_str s2 @ take 1 [CHR 0x22]"
    using append_cat [OF s2(2) q l assms(1)] by blast
  with s1 s2 assms(3) show ?thesis by (simp add: sdscatrepr_def mem_simps quote_def)
qed

text \<open>Reading back one quoted character, then all of them.\<close>

lemma hex_escape_None: "c \<noteq> CHR 0x5C \<or> p = [] \<or> hd p \<noteq> CHR ''x'' \<Longrightarrow> hex_escape (c # p) = None"
  by (cases "c # p" rule: hex_escape.cases) auto

lemma token_inq_repr_char:
  "token_inq A cur (repr_char c @ p) = do { cur \<leftarrow> cat_char A cur c; token_inq A cur p }"
proof -
  note unf = token_inq.simps(2)
  have esc: "token_inq A cur (CHR 0x5C # e # p) = do { cur \<leftarrow> cat_char A cur (unescape e); token_inq A cur p }"
    if "e \<noteq> CHR ''x''" "e \<noteq> NUL" for e
    using that hex_escape_None [of "CHR 0x5C" "e # p"] by (subst unf) simp
  consider (bs) "c = CHR 0x5C \<or> c = CHR 0x22"
    | (ctl) "c \<in> {CHR 0x0A, CHR 0x0D, CHR 0x09, CHR 0x07, CHR 0x08}"
    | (plain) "c_isprint c" "c \<noteq> CHR 0x5C" "c \<noteq> CHR 0x22"
    | (hex) "\<not> c_isprint c" "c \<notin> {CHR 0x0A, CHR 0x0D, CHR 0x09, CHR 0x07, CHR 0x08, CHR 0x5C, CHR 0x22}"
    by blast
  then show ?thesis
  proof cases
    case bs
    then show ?thesis using esc [of c] by (auto simp: repr_char_def unescape_def simp del: token_inq.simps)
  next
    case ctl
    then show ?thesis
      using esc [of "CHR ''n''"] esc [of "CHR ''r''"] esc [of "CHR ''t''"] esc [of "CHR ''a''"]
        esc [of "CHR ''b''"]
      by (auto simp: repr_char_def unescape_def simp del: token_inq.simps)
  next
    case plain
    then have "repr_char c = [c]" "c \<noteq> NUL" by (auto simp: repr_char_def c_isprint_def)
    with plain hex_escape_None [of c p] show ?thesis by (simp add: unf)
  next
    case hex
    then have r: "repr_char c = [CHR 0x5C, CHR ''x'', hex_digit (byte c div 16), hex_digit (byte c mod 16)]"
      by (auto simp: repr_char_def)
    have "hex_escape (repr_char c @ p) = Some (c, p)"
      unfolding r using byte_div_16 [of c] by (simp add: hex_digit_inverse)
    then show ?thesis unfolding r by (simp add: unf)
  qed
qed

lemma cat_char_granted:
  assumes "\<And>k. grants A k" "sds_ok s" "length (sds_str s) + 1 < 2 ^ 63"
  obtains s' where "cat_char A (Ptr s) c = Some (Ptr s')" "sds_ok s'" "sds_str s' = sds_str s @ [c]"
  using append_cat [OF assms(2) _ assms(3,1), of "[c]"] by (auto simp: cat_char_def)

lemma token_inq_repr:
  assumes "\<And>k. grants A k" "sds_ok s" "length (sds_str s) + length x < 2 ^ 63"
    "closes rest = Some True"
  shows "\<exists>s'. token_inq A (Ptr s) (concat (map repr_char x) @ CHR 0x22 # rest) = Some (Ptr (Ptr s', rest)) \<and>
    sds_ok s' \<and> sds_str s' = sds_str s @ x"
  using assms(2,3)
proof (induction x arbitrary: s)
  case Nil
  have "hex_escape (CHR 0x22 # rest) = None"
    by (cases "CHR 0x22 # rest" rule: hex_escape.cases) auto
  with Nil assms(4) show ?case by simp
next
  case (Cons c x)
  then have "length (sds_str s) + 1 < 2 ^ 63" by simp
  then obtain s1 where s1: "cat_char A (Ptr s) c = Some (Ptr s1)" "sds_ok s1"
    "sds_str s1 = sds_str s @ [c]"
    using cat_char_granted [OF assms(1) Cons(2)] by blast
  with Cons(1) [of s1] Cons(3) show ?case by (simp add: token_inq_repr_char)
qed

lemma splitargs_loop_quoted:
  assumes "\<And>k. grants A k" "\<forall>x \<in> set xs. length x < 2 ^ 63" "list_all sds_ok ts"
  shows "\<exists>us. splitargs_loop A (map Ptr ts) (concat (map (\<lambda>x. CHR 0x20 # quote x) xs) @ NUL # rest) =
      Some (Ptr (map Ptr us)) \<and> list_all sds_ok us \<and> map sds_str us = map sds_str ts @ xs"
  using assms(2,3)
proof (induction xs arbitrary: ts)
  case Nil
  with assms(1) show ?case by (subst splitargs_loop.simps) auto
next
  case (Cons x xs)
  let ?rest = "concat (map (\<lambda>x. CHR 0x20 # quote x) xs) @ NUL # rest"
  let ?q = "CHR 0x22 # concat (map repr_char x) @ CHR 0x22 # ?rest"
  have cl: "closes ?rest = Some True" by (cases xs) (auto simp: closes_def c_isspace_def)
  obtain s0 where s0: "sdsempty A = Some (Ptr s0)" "sds_ok s0" "sds_str s0 = []"
    using sdsempty_granted [OF assms(1)] by blast
  then obtain s1 where s1: "token_inq A (Ptr s0) (concat (map repr_char x) @ CHR 0x22 # ?rest) =
      Some (Ptr (Ptr s1, ?rest))" "sds_ok s1" "sds_str s1 = x"
    using token_inq_repr [OF assms(1) s0(2) _ cl, of x] Cons(2) by auto
  have skip: "skip_blanks (CHR 0x20 # ?q) = ?q" by (simp add: c_isspace_def)
  have "splitargs_loop A (map Ptr ts) (CHR 0x20 # ?q) = splitargs_loop A (map Ptr (ts @ [s1])) ?rest"
    using s0 s1 assms(1) by (subst splitargs_loop.simps) (simp only: skip, simp)
  with Cons(1) [of "ts @ [s1]"] Cons(2,3) s1 show ?case by (simp add: quote_def)
qed

lemma splitargs_blank: "splitargs_loop A v (CHR 0x20 # p) = splitargs_loop A v p"
  by (subst (1 2) splitargs_loop.simps) (simp add: c_isspace_def)

lemma sdssplitargs_quoted:
  assumes "\<And>k. grants A k" "\<forall>x \<in> set xs. length x < 2 ^ 63"
  shows "\<exists>us. sdssplitargs A (join_with '' '' (map quote xs) @ NUL # rest) = Some (Ptr (map Ptr us)) \<and>
    list_all sds_ok us \<and> map sds_str us = xs"
proof -
  have j: "concat (map (\<lambda>x. CHR 0x20 # quote x) xs) = CHR 0x20 # join_with '' '' (map quote xs)"
    if "xs \<noteq> []"
    using that by (induction xs rule: induct_list012) auto
  have "splitargs_loop A [] (join_with '' '' (map quote xs) @ NUL # rest) =
    splitargs_loop A [] (concat (map (\<lambda>x. CHR 0x20 # quote x) xs) @ NUL # rest)"
    using j by (cases "xs = []") (simp_all add: splitargs_blank)
  with splitargs_loop_quoted [OF assms, of "[]"] show ?thesis by (simp add: sdssplitargs_def)
qed

end
