(* ===== verification/Reader.thy ===== *)
theory Reader
  imports Sds_Text
begin

text \<open>
  The protocol parser of \<^verbatim>\<open>lib/hiredis/read.h\<close> and \<^verbatim>\<open>lib/hiredis/read.c\<close>: a stack of
  read tasks, a cursor into an SDS buffer, and callbacks that build the reply objects. The
  callbacks work on a heap that is a parameter; an object is its address, 0 the null pointer.
  The lemmas show, for every builder that keeps its contract, that no input makes the reader
  fault, that it parses what the protocol encodes, and that it does not matter in which pieces
  the input arrives.
\<close>

section \<open>Data (read.h)\<close>

definition REDIS_OK :: int where "REDIS_OK = 0"
definition REDIS_ERR :: int where "REDIS_ERR = - 1"

definition REDIS_ERR_IO :: int where "REDIS_ERR_IO = 1"
definition REDIS_ERR_EOF :: int where "REDIS_ERR_EOF = 3"
definition REDIS_ERR_PROTOCOL :: int where "REDIS_ERR_PROTOCOL = 4"
definition REDIS_ERR_OOM :: int where "REDIS_ERR_OOM = 5"
definition REDIS_ERR_TIMEOUT :: int where "REDIS_ERR_TIMEOUT = 6"
definition REDIS_ERR_OTHER :: int where "REDIS_ERR_OTHER = 2"

definition REDIS_REPLY_STRING :: int where "REDIS_REPLY_STRING = 1"
definition REDIS_REPLY_ARRAY :: int where "REDIS_REPLY_ARRAY = 2"
definition REDIS_REPLY_INTEGER :: int where "REDIS_REPLY_INTEGER = 3"
definition REDIS_REPLY_NIL :: int where "REDIS_REPLY_NIL = 4"
definition REDIS_REPLY_STATUS :: int where "REDIS_REPLY_STATUS = 5"
definition REDIS_REPLY_ERROR :: int where "REDIS_REPLY_ERROR = 6"

definition REDIS_READER_MAX_BUF :: nat where "REDIS_READER_MAX_BUF = 1024 * 16"

lemmas redis_err_defs =
  REDIS_OK_def REDIS_ERR_def REDIS_ERR_IO_def REDIS_ERR_EOF_def REDIS_ERR_PROTOCOL_def
  REDIS_ERR_OOM_def REDIS_ERR_TIMEOUT_def REDIS_ERR_OTHER_def

lemmas reply_type_defs =
  REDIS_REPLY_STRING_def REDIS_REPLY_ARRAY_def REDIS_REPLY_INTEGER_def REDIS_REPLY_NIL_def
  REDIS_REPLY_STATUS_def REDIS_REPLY_ERROR_def

type_synonym addr = nat

text \<open>The parent of a task is the index of the stack entry that the pointer points to.\<close>

record redisReadTask =
  t_type :: int
  t_elements :: int
  t_idx :: int
  t_obj :: addr
  t_parent :: "nat option"
  t_privdata :: addr

text \<open>
  The callbacks; \<^theory_text>\<open>None\<close> is a null function pointer. Each takes the task and the task its
  parent pointer points to, and the heap.
\<close>

record 'h redisReplyObjectFunctions =
  createString :: "(redisReadTask \<Rightarrow> redisReadTask option \<Rightarrow> bytes \<Rightarrow> nat \<Rightarrow> 'h \<Rightarrow> (addr \<times> 'h) option) option"
  createArray :: "(redisReadTask \<Rightarrow> redisReadTask option \<Rightarrow> int \<Rightarrow> 'h \<Rightarrow> (addr \<times> 'h) option) option"
  createInteger :: "(redisReadTask \<Rightarrow> redisReadTask option \<Rightarrow> int \<Rightarrow> 'h \<Rightarrow> (addr \<times> 'h) option) option"
  createNil :: "(redisReadTask \<Rightarrow> redisReadTask option \<Rightarrow> 'h \<Rightarrow> (addr \<times> 'h) option) option"
  freeObject :: "(addr \<Rightarrow> 'h \<Rightarrow> 'h option) option"

record 'h redisReader =
  r_err :: int
  r_errstr :: bytes
  r_buf :: "sds ptr"
  r_pos :: nat
  r_len :: nat
  r_maxbuf :: nat
  r_rstack :: "redisReadTask list"
  r_ridx :: int
  r_reply :: addr
  r_fn :: "'h redisReplyObjectFunctions option"
  r_privdata :: addr

text \<open>What a step of the reader returns: a status, the reader and the heap.\<close>

type_synonym 'h step = "(int \<times> 'h redisReader \<times> 'h) option"

definition stack_at :: "'h redisReader \<Rightarrow> int \<Rightarrow> redisReadTask option" where
  "stack_at r i =
     (if 0 \<le> i \<and> nat i < length (r_rstack r) then Some (r_rstack r ! nat i) else None)"

definition set_task :: "'h redisReader \<Rightarrow> int \<Rightarrow> redisReadTask \<Rightarrow> 'h redisReader" where
  "set_task r i t = r\<lparr>r_rstack := (r_rstack r)[nat i := t]\<rparr>"

text \<open>The parent that a callback sees.\<close>

definition parent_of :: "'h redisReader \<Rightarrow> redisReadTask \<Rightarrow> redisReadTask option" where
  "parent_of r t = (case t_parent t of None \<Rightarrow> None | Some i \<Rightarrow> Some (r_rstack r ! i))"

section \<open>Errors (read.c)\<close>

text \<open>\<^theory_text>\<open>errstr\<close> is the C string in the array of 128 characters.\<close>

definition redisReaderSetError :: "'h redisReader \<Rightarrow> 'h \<Rightarrow> int \<Rightarrow> bytes \<Rightarrow> ('h redisReader \<times> 'h) option" where
  "redisReaderSetError r h type str = do {
     (r, h) \<leftarrow>
       (case r_fn r of
          Some fn \<Rightarrow>
            (case freeObject fn of
               Some free \<Rightarrow>
                 if r_reply r \<noteq> 0 then do { h \<leftarrow> free (r_reply r) h; Some (r\<lparr>r_reply := 0\<rparr>, h) }
                 else Some (r, h)
             | None \<Rightarrow> Some (r, h))
        | None \<Rightarrow> Some (r, h));
     _ \<leftarrow> sdsfree (r_buf r);
     Some (r\<lparr>r_buf := Null, r_pos := 0, r_len := 0, r_ridx := - 1, r_err := type,
       r_errstr := take 127 str\<rparr>, h)
   }"

definition chrtos :: "char \<Rightarrow> bytes" where
  "chrtos c =
     (if c = CHR 0x5C \<or> c = CHR 0x22 then [CHR 0x22, CHR 0x5C, c, CHR 0x22]
      else if c = CHR 0x0A then [CHR 0x22, CHR 0x5C, CHR ''n'', CHR 0x22]
      else if c = CHR 0x0D then [CHR 0x22, CHR 0x5C, CHR ''r'', CHR 0x22]
      else if c = CHR 0x09 then [CHR 0x22, CHR 0x5C, CHR ''t'', CHR 0x22]
      else if c = CHR 0x07 then [CHR 0x22, CHR 0x5C, CHR ''a'', CHR 0x22]
      else if c = CHR 0x08 then [CHR 0x22, CHR 0x5C, CHR ''b'', CHR 0x22]
      else if c_isprint c then [CHR 0x22, c, CHR 0x22]
      else [CHR 0x22, CHR 0x5C, CHR ''x'', hex_digit (byte c div 16), hex_digit (byte c mod 16),
            CHR 0x22])"

definition redisReaderSetErrorProtocolByte ::
  "'h redisReader \<Rightarrow> 'h \<Rightarrow> char \<Rightarrow> ('h redisReader \<times> 'h) option" where
  "redisReaderSetErrorProtocolByte r h c =
     redisReaderSetError r h REDIS_ERR_PROTOCOL
       (''Protocol error, got '' @ chrtos c @ '' as reply type byte'')"

definition redisReaderSetErrorOOM :: "'h redisReader \<Rightarrow> 'h \<Rightarrow> ('h redisReader \<times> 'h) option" where
  "redisReaderSetErrorOOM r h = redisReaderSetError r h REDIS_ERR_OOM ''Out of memory''"

text \<open>Setting an error and returning \<^verbatim>\<open>REDIS_ERR\<close>.\<close>

definition fail_with :: "('h redisReader \<times> 'h) option \<Rightarrow> 'h step" where
  "fail_with x = map_option (\<lambda>(r, h). (REDIS_ERR, r, h)) x"

section \<open>Reading from the buffer\<close>

text \<open>\<^verbatim>\<open>r->buf + r->pos\<close>: the block from the cursor on.\<close>

definition at_cursor :: "'h redisReader \<Rightarrow> bytes option" where
  "at_cursor r = do {
     s \<leftarrow> deref (r_buf r);
     if r_pos r \<le> length (buf s) then Some (drop (r_pos r) (buf s)) else None
   }"

text \<open>\<^verbatim>\<open>r->len - r->pos\<close>, in \<^verbatim>\<open>size_t\<close>.\<close>

definition unread :: "'h redisReader \<Rightarrow> nat" where
  "unread r = (if r_pos r \<le> r_len r then r_len r - r_pos r else r_len r + 2 ^ 64 - r_pos r)"

text \<open>A null pointer is \<^theory_text>\<open>Some None\<close>.\<close>

definition readBytes :: "'h redisReader \<Rightarrow> nat \<Rightarrow> (bytes \<times> 'h redisReader) option option" where
  "readBytes r n =
     (if unread r \<ge> n
      then do { p \<leftarrow> at_cursor r; Some (Some (p, r\<lparr>r_pos := r_pos r + n\<rparr>)) }
      else Some None)"

text \<open>The two nested loops of \<^verbatim>\<open>seekNewline\<close>, the position as the loop variable.\<close>

function seek_loop :: "bytes \<Rightarrow> int \<Rightarrow> nat \<Rightarrow> nat option option" where
  "seek_loop s n pos =
     (if int pos < n then
        if pos \<ge> length s then None
        else if s ! pos \<noteq> CR then seek_loop s n (Suc pos)
        else if Suc pos \<ge> length s then None
        else if s ! Suc pos = LF then Some (Some pos)
        else seek_loop s n (Suc pos)
      else Some None)"
  by pat_completeness auto
termination by (relation "measure (\<lambda>(s, n, pos). nat n - pos)") auto

declare seek_loop.simps [simp del]

definition seekNewline :: "bytes \<Rightarrow> nat \<Rightarrow> nat option option" where
  "seekNewline s len = seek_loop s (to_int (int len - 1)) 0"

definition ULLONG_MAX :: nat where "ULLONG_MAX = 2 ^ 64 - 1"
definition LLONG_MAX :: nat where "LLONG_MAX = 2 ^ 63 - 1"

text \<open>
  \<^verbatim>\<open>string2ll\<close> on the characters of the string: \<^theory_text>\<open>None\<close> is \<^verbatim>\<open>REDIS_ERR\<close>. The loop
  returns the value and the characters that are left.
\<close>

fun ll_loop :: "nat \<Rightarrow> bytes \<Rightarrow> (nat \<times> bytes) option" where
  "ll_loop v [] = Some (v, [])"
| "ll_loop v (c # p) =
     (if is_digit c then
        if v > ULLONG_MAX div 10 then None
        else
          (let v = size_t (v * 10)
           in if v > ULLONG_MAX - (byte c - 48) then None
              else ll_loop (size_t (v + (byte c - 48))) p)
      else Some (v, c # p))"

definition ll_digits :: "bool \<Rightarrow> bytes \<Rightarrow> int option" where
  "ll_digits negative p = (case p of
     [] \<Rightarrow> None
   | c # p \<Rightarrow>
       if is_digit c \<and> c \<noteq> CHR ''0'' then do {
         (v, p) \<leftarrow> ll_loop (byte c - 48) p;
         if p \<noteq> [] then None
         else if negative then (if v > LLONG_MAX + 1 then None else Some (- int v))
         else (if v > LLONG_MAX then None else Some (int v))
       }
       else None)"

definition string2ll :: "bytes \<Rightarrow> int option" where
  "string2ll s =
     (if s = [] then None
      else if s = ''0'' then Some 0
      else if hd s = CHR ''-'' then ll_digits True (tl s)
      else ll_digits False s)"

text \<open>The line, without its end, and the reader behind it.\<close>

definition readLine :: "'h redisReader \<Rightarrow> (bytes \<times> nat \<times> 'h redisReader) option option" where
  "readLine r = do {
     p \<leftarrow> at_cursor r;
     s \<leftarrow> seekNewline p (unread r);
     (case s of
        Some len \<Rightarrow> Some (Some (p, len, r\<lparr>r_pos := r_pos r + len + 2\<rparr>))
      | None \<Rightarrow> Some None)
   }"

section \<open>The task stack\<close>

function moveToNextTask :: "'h redisReader \<Rightarrow> 'h redisReader option" where
  "moveToNextTask r =
     (if r_ridx r \<ge> 0 then
        if r_ridx r = 0 then Some (r\<lparr>r_ridx := - 1\<rparr>)
        else do {
          cur \<leftarrow> stack_at r (r_ridx r);
          prv \<leftarrow> stack_at r (r_ridx r - 1);
          if t_type prv \<noteq> REDIS_REPLY_ARRAY then None
          else if t_idx cur = t_elements prv - 1
          then moveToNextTask (r\<lparr>r_ridx := r_ridx r - 1\<rparr>)
          else if \<not> t_idx cur < t_elements prv then None
          else Some (set_task r (r_ridx r)
            (cur\<lparr>t_type := - 1, t_elements := - 1, t_idx := t_idx cur + 1\<rparr>))
        }
      else Some r)"
  by pat_completeness auto
termination by (relation "measure (\<lambda>r. nat (r_ridx r))") auto

declare moveToNextTask.simps [simp del]

text \<open>Storing the object when it is the root, and moving on.\<close>

definition set_root :: "'h redisReader \<Rightarrow> addr \<Rightarrow> 'h redisReader" where
  "set_root r obj = (if r_ridx r = 0 then r\<lparr>r_reply := obj\<rparr> else r)"

definition finish :: "'h redisReader \<Rightarrow> 'h \<Rightarrow> addr \<Rightarrow> 'h step" where
  "finish r h obj = do { r \<leftarrow> moveToNextTask (set_root r obj); Some (REDIS_OK, r, h) }"

section \<open>The items\<close>

text \<open>\<^verbatim>\<open>r->fn && r->fn->create...\<close>\<close>

definition callback :: "('h redisReplyObjectFunctions \<Rightarrow> 'f option) \<Rightarrow> 'h redisReader \<Rightarrow> 'f option" where
  "callback sel r = (case r_fn r of Some fn \<Rightarrow> sel fn | None \<Rightarrow> None)"

definition processLineItem :: "'h redisReader \<Rightarrow> 'h \<Rightarrow> 'h step" where
  "processLineItem r h = do {
     cur \<leftarrow> stack_at r (r_ridx r);
     l \<leftarrow> readLine r;
     (case l of
        None \<Rightarrow> Some (REDIS_ERR, r, h)
      | Some (p, len, r) \<Rightarrow>
          if t_type cur = REDIS_REPLY_INTEGER \<and> callback createInteger r \<noteq> None
             \<and> string2ll (take len p) = None
          then fail_with (redisReaderSetError r h REDIS_ERR_PROTOCOL ''Bad integer value'')
          else do {
            (obj, h) \<leftarrow>
              (if t_type cur = REDIS_REPLY_INTEGER then
                 (case callback createInteger r of
                    Some f \<Rightarrow> do { v \<leftarrow> string2ll (take len p); f cur (parent_of r cur) v h }
                  | None \<Rightarrow> Some (nat REDIS_REPLY_INTEGER, h))
               else
                 (case callback createString r of
                    Some f \<Rightarrow> f cur (parent_of r cur) p len h
                  | None \<Rightarrow> Some (nat (t_type cur), h)));
            if obj = 0 then fail_with (redisReaderSetErrorOOM r h)
            else finish r h obj
          })
   }"

definition processBulkItem :: "'h redisReader \<Rightarrow> 'h \<Rightarrow> 'h step" where
  "processBulkItem r h = do {
     cur \<leftarrow> stack_at r (r_ridx r);
     p \<leftarrow> at_cursor r;
     s \<leftarrow> seekNewline p (unread r);
     (case s of
        None \<Rightarrow> Some (REDIS_ERR, r, h)
      | Some off \<Rightarrow>
          (case string2ll (take off p) of
             None \<Rightarrow> fail_with (redisReaderSetError r h REDIS_ERR_PROTOCOL ''Bad bulk string length'')
           | Some len \<Rightarrow>
               if len < - 1
               then fail_with (redisReaderSetError r h REDIS_ERR_PROTOCOL
                 ''Bulk string length out of range'')
               else if len = - 1 then do {
                 (obj, h) \<leftarrow> (case callback createNil r of
                     Some f \<Rightarrow> f cur (parent_of r cur) h
                   | None \<Rightarrow> Some (nat REDIS_REPLY_NIL, h));
                 if obj = 0 then fail_with (redisReaderSetErrorOOM r h)
                 else finish (r\<lparr>r_pos := r_pos r + (off + 2)\<rparr>) h obj
               }
               else
                 (let bytelen = size_t (off + 2 + nat len + 2)
                  in if size_t (r_pos r + bytelen) \<le> r_len r then do {
                       (obj, h) \<leftarrow> (case callback createString r of
                           Some f \<Rightarrow> f cur (parent_of r cur) (drop (off + 2) p) (nat len) h
                         | None \<Rightarrow> Some (nat REDIS_REPLY_STRING, h));
                       if obj = 0 then fail_with (redisReaderSetErrorOOM r h)
                       else finish (r\<lparr>r_pos := r_pos r + bytelen\<rparr>) h obj
                     }
                     else Some (REDIS_ERR, r, h))))
   }"

definition INT_MAX :: int where "INT_MAX = 2 ^ 31 - 1"

text \<open>Pushing the first element of an array on the stack.\<close>

definition push_task :: "'h redisReader \<Rightarrow> redisReadTask \<Rightarrow> int \<Rightarrow> addr \<Rightarrow> 'h redisReader option" where
  "push_task r cur elements obj =
     (let r = set_task r (r_ridx r) (cur\<lparr>t_elements := elements, t_obj := obj\<rparr>);
          i = r_ridx r
      in do {
           _ \<leftarrow> stack_at r (i + 1);
           Some ((set_task r (i + 1)
             \<lparr>t_type = - 1, t_elements = - 1, t_idx = 0, t_obj = 0, t_parent = Some (nat i),
              t_privdata = r_privdata r\<rparr>)\<lparr>r_ridx := i + 1\<rparr>)
         })"

definition processMultiBulkItem :: "'h redisReader \<Rightarrow> 'h \<Rightarrow> 'h step" where
  "processMultiBulkItem r h = do {
     cur \<leftarrow> stack_at r (r_ridx r);
     if r_ridx r = 8
     then fail_with (redisReaderSetError r h REDIS_ERR_PROTOCOL
       ''No support for nested multi bulk replies with depth > 7'')
     else do {
       l \<leftarrow> readLine r;
       (case l of
          None \<Rightarrow> Some (REDIS_ERR, r, h)
        | Some (p, len, r) \<Rightarrow>
            (case string2ll (take len p) of
               None \<Rightarrow> fail_with (redisReaderSetError r h REDIS_ERR_PROTOCOL ''Bad multi-bulk length'')
             | Some elements \<Rightarrow>
                 (let root = (r_ridx r = 0)
                  in if elements < - 1 \<or> elements > INT_MAX
                     then fail_with (redisReaderSetError r h REDIS_ERR_PROTOCOL
                       ''Multi-bulk length out of range'')
                     else if elements = - 1 then do {
                       (obj, h) \<leftarrow> (case callback createNil r of
                           Some f \<Rightarrow> f cur (parent_of r cur) h
                         | None \<Rightarrow> Some (nat REDIS_REPLY_NIL, h));
                       if obj = 0 then fail_with (redisReaderSetErrorOOM r h)
                       else do {
                         r \<leftarrow> moveToNextTask r;
                         Some (REDIS_OK, if root then r\<lparr>r_reply := obj\<rparr> else r, h)
                       }
                     }
                     else do {
                       (obj, h) \<leftarrow> (case callback createArray r of
                           Some f \<Rightarrow> f cur (parent_of r cur) elements h
                         | None \<Rightarrow> Some (nat REDIS_REPLY_ARRAY, h));
                       if obj = 0 then fail_with (redisReaderSetErrorOOM r h)
                       else do {
                         r \<leftarrow> (if elements > 0 then push_task r cur elements obj
                              else moveToNextTask r);
                         Some (REDIS_OK, if root then r\<lparr>r_reply := obj\<rparr> else r, h)
                       }
                     })))
     }
   }"

definition type_byte :: "char \<Rightarrow> int option" where
  "type_byte c =
     (if c = CHR ''-'' then Some REDIS_REPLY_ERROR
      else if c = CHR ''+'' then Some REDIS_REPLY_STATUS
      else if c = CHR '':'' then Some REDIS_REPLY_INTEGER
      else if c = CHR ''$'' then Some REDIS_REPLY_STRING
      else if c = CHR ''*'' then Some REDIS_REPLY_ARRAY
      else None)"

definition processTyped :: "'h redisReader \<Rightarrow> 'h \<Rightarrow> int \<Rightarrow> 'h step" where
  "processTyped r h type =
     (if type = REDIS_REPLY_ERROR \<or> type = REDIS_REPLY_STATUS \<or> type = REDIS_REPLY_INTEGER
      then processLineItem r h
      else if type = REDIS_REPLY_STRING then processBulkItem r h
      else if type = REDIS_REPLY_ARRAY then processMultiBulkItem r h
      else None)"

definition processItem :: "'h redisReader \<Rightarrow> 'h \<Rightarrow> 'h step" where
  "processItem r h = do {
     cur \<leftarrow> stack_at r (r_ridx r);
     if t_type cur < 0 then do {
       b \<leftarrow> readBytes r 1;
       (case b of
          None \<Rightarrow> Some (REDIS_ERR, r, h)
        | Some ([], r) \<Rightarrow> None
        | Some (c # _, r) \<Rightarrow>
            (case type_byte c of
               None \<Rightarrow> fail_with (redisReaderSetErrorProtocolByte r h c)
             | Some type \<Rightarrow>
                 processTyped (set_task r (r_ridx r) (cur\<lparr>t_type := type\<rparr>)) h type))
     }
     else processTyped r h (t_type cur)
   }"

section \<open>The reader\<close>

definition blank_task :: "redisReadTask" where
  "blank_task = \<lparr>t_type = 0, t_elements = 0, t_idx = 0, t_obj = 0, t_parent = None, t_privdata = 0\<rparr>"

definition redisReaderCreateWithFunctions ::
  "allocator \<Rightarrow> 'h redisReplyObjectFunctions option \<Rightarrow> 'h redisReader ptr option" where
  "redisReaderCreateWithFunctions A fn =
     (if \<not> grants A 560 then Some Null
      else do {
        b \<leftarrow> sdsempty A;
        if b = Null then Some Null
        else Some (Ptr \<lparr>r_err = 0, r_errstr = [], r_buf = b, r_pos = 0, r_len = 0,
          r_maxbuf = REDIS_READER_MAX_BUF, r_rstack = replicate 9 blank_task, r_ridx = - 1,
          r_reply = 0, r_fn = fn, r_privdata = 0\<rparr>)
      })"

definition redisReaderFree :: "'h redisReader ptr \<Rightarrow> 'h \<Rightarrow> 'h option" where
  "redisReaderFree p h =
     (if p = Null then Some h
      else do {
        r \<leftarrow> deref p;
        h \<leftarrow> (case callback freeObject r of
              Some free \<Rightarrow> if r_reply r \<noteq> 0 then free (r_reply r) h else Some h
            | None \<Rightarrow> Some h);
        _ \<leftarrow> sdsfree (r_buf r);
        Some h
      })"

definition redisReaderFeed :: "allocator \<Rightarrow> 'h redisReader \<Rightarrow> 'h \<Rightarrow> bytes ptr \<Rightarrow> nat \<Rightarrow> 'h step" where
  "redisReaderFeed A r h data len =
     (if r_err r \<noteq> 0 then Some (REDIS_ERR, r, h)
      else if data \<noteq> Null \<and> len \<ge> 1 then do {
        s \<leftarrow> deref (r_buf r);
        r \<leftarrow> (if r_len r = 0 \<and> r_maxbuf r \<noteq> 0 \<and> sdsavail s > r_maxbuf r
             then do {
               _ \<leftarrow> sdsfree (r_buf r);
               b \<leftarrow> sdsempty A;
               if b = Null then None else Some (r\<lparr>r_buf := b, r_pos := 0\<rparr>)
             }
             else Some r);
        s \<leftarrow> deref (r_buf r);
        p \<leftarrow> deref data;
        newbuf \<leftarrow> sdscatlen A s p len;
        (case newbuf of
           Failed old \<Rightarrow> fail_with (redisReaderSetErrorOOM (r\<lparr>r_buf := old\<rparr>) h)
         | Moved s \<Rightarrow> Some (REDIS_OK, r\<lparr>r_buf := Ptr s, r_len := sdslen s\<rparr>, h))
      }
      else Some (REDIS_OK, r, h))"

partial_function (option) process_loop :: "'h redisReader \<Rightarrow> 'h \<Rightarrow> ('h redisReader \<times> 'h) option" where
  "process_loop r h =
     (if r_ridx r \<ge> 0 then do {
        (rc, r, h) \<leftarrow> processItem r h;
        if rc \<noteq> REDIS_OK then Some (r, h) else process_loop r h
      }
      else Some (r, h))"

definition start_task :: "'h redisReader \<Rightarrow> 'h redisReader" where
  "start_task r =
     (if r_ridx r = - 1
      then (set_task r 0 \<lparr>t_type = - 1, t_elements = - 1, t_idx = - 1, t_obj = 0, t_parent = None,
        t_privdata = r_privdata r\<rparr>)\<lparr>r_ridx := 0\<rparr>
      else r)"

text \<open>The fourth component is what is stored at the pointer \<^verbatim>\<open>reply\<close>, which is not null.\<close>

definition redisReaderGetReply ::
  "'h redisReader \<Rightarrow> 'h \<Rightarrow> (int \<times> 'h redisReader \<times> 'h \<times> addr) option" where
  "redisReaderGetReply r h =
     (if r_err r \<noteq> 0 then Some (REDIS_ERR, r, h, 0)
      else if r_len r = 0 then Some (REDIS_OK, r, h, 0)
      else do {
        (r, h) \<leftarrow> process_loop (start_task r) h;
        if r_err r \<noteq> 0 then Some (REDIS_ERR, r, h, 0)
        else do {
          r \<leftarrow> (if r_pos r \<ge> 1024 then do {
                 s \<leftarrow> deref (r_buf r);
                 s \<leftarrow> sdsrange s (to_int (int (r_pos r))) (- 1);
                 Some (r\<lparr>r_buf := Ptr s, r_pos := 0, r_len := sdslen s\<rparr>)
               }
               else Some r);
          Some (if r_ridx r = - 1 then (REDIS_OK, r\<lparr>r_reply := 0\<rparr>, h, r_reply r)
                else (REDIS_OK, r, h, 0))
        }
      })"

section \<open>Numbers\<close>

lemma digit_val: "is_digit c \<Longrightarrow> byte c - 48 < 10 \<and> 48 \<le> byte c"
  unfolding is_digit_def by linarith

lemma dec_val_ge: "acc \<le> dec_val acc cs"
proof (induction cs arbitrary: acc)
  case (Cons c cs)
  have "acc \<le> acc * 10 + (byte c - 48)" by simp
  then show ?case using Cons [of "acc * 10 + (byte c - 48)"] by simp
qed simp

lemma ll_loop_spec:
  "v < 2 ^ 64 \<Longrightarrow> ll_loop v cs = Some (w, []) \<longleftrightarrow>
    list_all is_digit cs \<and> w = dec_val v cs \<and> dec_val v cs < 2 ^ 64"
proof (induction cs arbitrary: v)
  case Nil
  then show ?case by auto
next
  case (Cons c cs)
  show ?case
  proof (cases "is_digit c")
    case True
    let ?d = "byte c - 48" and ?n = "v * 10 + (byte c - 48)"
    have d: "?d < 10" using digit_val [OF True] by simp
    show ?thesis
    proof (cases "?n < 2 ^ 64")
      case lt: True
      then have "v \<le> ULLONG_MAX div 10" "size_t (v * 10) = v * 10" "v * 10 \<le> ULLONG_MAX - ?d"
        "size_t ?n = ?n"
        by (auto simp: ULLONG_MAX_def size_t_def)
      then have "ll_loop v (c # cs) = ll_loop ?n cs" using True by (simp add: Let_def)
      with Cons(1) [OF lt] True show ?thesis by simp
    next
      case False
      have "ll_loop v (c # cs) = None"
      proof (cases "v > ULLONG_MAX div 10")
        case le: False
        then have "v * 10 \<le> ULLONG_MAX" by (simp add: ULLONG_MAX_def)
        then have "size_t (v * 10) = v * 10" by (simp add: size_t_def ULLONG_MAX_def)
        moreover have "v * 10 > ULLONG_MAX - ?d" using False d by (auto simp: ULLONG_MAX_def)
        ultimately show ?thesis using True le by (simp add: Let_def del: diff_diff_right)
      qed (use True in simp)
      moreover have "\<not> dec_val ?n cs < 2 ^ 64" using False dec_val_ge [of ?n cs] by linarith
      ultimately show ?thesis by simp
    qed
  qed simp
qed

lemma ll_digits_spec:
  "ll_digits neg p = Some v \<longleftrightarrow>
    (\<exists>n > 0. p = dec n \<and> v = (if neg then - int n else int n) \<and>
      n \<le> (if neg then 2 ^ 63 else 2 ^ 63 - 1))"
  (is "_ \<longleftrightarrow> ?R")
proof
  assume "ll_digits neg p = Some v"
  then obtain c cs w where p: "p = c # cs" "is_digit c" "c \<noteq> CHR ''0''"
    "ll_loop (byte c - 48) cs = Some (w, [])"
    "w \<le> (if neg then 2 ^ 63 else 2 ^ 63 - 1)" "v = (if neg then - int w else int w)"
    by (auto simp: ll_digits_def bind_eq_Some_conv LLONG_MAX_def split: list.splits if_splits)
  have b: "byte c - 48 < 2 ^ 64" "byte c - 48 < 10"
    using digit_val [OF p(2)] by simp_all
  have w: "list_all is_digit cs" "w = dec_val (byte c - 48) cs"
    using p(4) ll_loop_spec [OF b(1)] by auto
  have "byte c \<noteq> byte (CHR ''0'')" using p(3) by (metis of_char_eq_iff)
  then have pos: "0 < byte c - 48" using p(2) by (auto simp: is_digit_def)
  have "dec w = dec (byte c - 48) @ cs"
    unfolding w(2) using w(1) by (intro dec_dec_val pos) (simp add: list_all_iff)
  also have "\<dots> = p" using b(2) p(1,2) by (subst dec.simps) (simp add: digit_byte)
  finally have "p = dec w" by simp
  moreover have "0 < w" using dec_val_ge [of "byte c - 48" cs] pos w by linarith
  ultimately show ?R using p by blast
next
  assume ?R
  then obtain n where n: "0 < n" "p = dec n" "v = (if neg then - int n else int n)"
    "n \<le> (if neg then 2 ^ 63 else 2 ^ 63 - 1)" by blast
  obtain c cs where "dec n = c # cs" by (cases "dec n") auto
  with n(2) have p: "p = c # cs" by simp
  have c: "is_digit c" using dec_digits [of n] unfolding n(2) [symmetric] p by simp
  have hd: "49 \<le> byte c" using hd_dec [OF n(1)] unfolding n(2) [symmetric] p by simp
  have ne: "c \<noteq> CHR ''0''" using hd by auto
  have "dec_val (byte c - 48) cs = n"
    using dec_val_dec [of n] unfolding n(2) [symmetric] p by simp
  moreover have "list_all is_digit cs"
    using dec_digits [of n] unfolding n(2) [symmetric] p by (simp add: list_all_iff)
  moreover have "n < 2 ^ 64" "byte c - 48 < 2 ^ 64" using n(4) c by (auto simp: is_digit_def split: if_splits)
  ultimately have "ll_loop (byte c - 48) cs = Some (n, [])" by (simp add: ll_loop_spec)
  with p c ne n show "ll_digits neg p = Some v"
    by (auto simp: ll_digits_def LLONG_MAX_def split: if_splits)
qed

lemma dec_0: "dec 0 = ''0''"
  by code_simp

lemma sdec_cases:
  "s = sdec v \<longleftrightarrow> (v = 0 \<and> s = ''0'') \<or> (\<exists>n > 0. v = - int n \<and> s = CHR ''-'' # dec n) \<or>
    (\<exists>n > 0. v = int n \<and> s = dec n)"
  using dec_0 by (cases v rule: int_cases3) (auto simp: sdec_def)

lemma sdec_0_iff: "sdec v = ''0'' \<longleftrightarrow> v = 0"
  using dec_inj [of "nat v" 0] unfolding dec_0 by (auto simp: sdec_def)

text \<open>The parser accepts the canonical numerals of the 64-bit integers, and nothing else.\<close>

lemma string2ll_iff:
  "string2ll s = Some v \<longleftrightarrow> s = sdec v \<and> - (2 ^ 63) \<le> v \<and> v < 2 ^ 63"
proof -
  have minus: "hd (dec n) \<noteq> CHR ''-''" for n
  proof -
    have "is_digit (hd (dec n))" using dec_digits [of n] hd_in_set [OF dec_nonempty] by blast
    then show ?thesis by (auto simp: is_digit_def)
  qed
  consider (empty) "s = []" | (zero) "s = ''0''" | (neg) s' where "s = CHR ''-'' # s'"
    | (other) "s \<noteq> []" "s \<noteq> ''0''" "hd s \<noteq> CHR ''-''"
    by (metis list.collapse)
  then show ?thesis
  proof cases
    case empty
    then show ?thesis unfolding sdec_cases by (simp add: string2ll_def not_sym [OF dec_nonempty])
  next
    case zero
    have "string2ll s = Some 0" unfolding zero by (simp add: string2ll_def)
    moreover have "s = sdec v \<longleftrightarrow> v = 0" unfolding zero by (metis sdec_0_iff)
    ultimately show ?thesis by auto
  next
    case (neg s')
    then have code: "string2ll s = ll_digits True s'" by (simp add: string2ll_def)
    have "s \<noteq> dec n" for n using minus [of n] neg by (metis list.sel(1))
    then show ?thesis unfolding code sdec_cases ll_digits_spec using neg by auto
  next
    case other
    then have code: "string2ll s = ll_digits False s" by (simp add: string2ll_def)
    show ?thesis unfolding code sdec_cases ll_digits_spec using other by auto
  qed
qed

section \<open>Lines\<close>

text \<open>The first position of \<^theory_text>\<open>CRLF\<close>.\<close>

definition crlf_at :: "bytes \<Rightarrow> nat \<Rightarrow> bool" where
  "crlf_at s i \<longleftrightarrow> Suc i < length s \<and> s ! i = CR \<and> s ! Suc i = LF"

lemma seek_loop_spec:
  assumes "n < length s"
  shows "\<exists>x. seek_loop s (int n) pos = Some x \<and>
    (case x of
       None \<Rightarrow> \<forall>i. pos \<le> i \<and> i < n \<longrightarrow> \<not> crlf_at s i
     | Some k \<Rightarrow> pos \<le> k \<and> k < n \<and> crlf_at s k \<and> (\<forall>i. pos \<le> i \<and> i < k \<longrightarrow> \<not> crlf_at s i))"
  using assms
proof (induction s "int n" pos rule: seek_loop.induct)
  case (1 s pos)
  show ?case
  proof (cases "pos < n")
    case True
    show ?thesis
    proof (cases "crlf_at s pos")
      case c: True
      with True 1(3) show ?thesis by (subst seek_loop.simps) (auto simp: crlf_at_def)
    next
      case False
      have step: "seek_loop s (int n) pos = seek_loop s (int n) (Suc pos)"
        using True 1(3) False by (subst seek_loop.simps) (auto simp: crlf_at_def)
      have "\<exists>x. seek_loop s (int n) (Suc pos) = Some x \<and>
        (case x of
           None \<Rightarrow> \<forall>i. Suc pos \<le> i \<and> i < n \<longrightarrow> \<not> crlf_at s i
         | Some k \<Rightarrow> Suc pos \<le> k \<and> k < n \<and> crlf_at s k \<and> (\<forall>i. Suc pos \<le> i \<and> i < k \<longrightarrow> \<not> crlf_at s i))"
      proof (cases "s ! pos = CR")
        case True
        with 1(2) [OF _ _ _ _ _ 1(3)] \<open>pos < n\<close> False 1(3) show ?thesis by (simp add: crlf_at_def)
      next
        case nc: False
        with 1(1) [OF _ _ nc 1(3)] \<open>pos < n\<close> 1(3) show ?thesis by simp
      qed
      then obtain x where x: "seek_loop s (int n) (Suc pos) = Some x"
        "case x of
           None \<Rightarrow> \<forall>i. Suc pos \<le> i \<and> i < n \<longrightarrow> \<not> crlf_at s i
         | Some k \<Rightarrow> Suc pos \<le> k \<and> k < n \<and> crlf_at s k \<and> (\<forall>i. Suc pos \<le> i \<and> i < k \<longrightarrow> \<not> crlf_at s i)"
        by blast
      have ext: "\<not> crlf_at s i" if "pos \<le> i" "Suc pos \<le> i \<Longrightarrow> \<not> crlf_at s i" for i
        using that False by (cases "i = pos") auto
      show ?thesis unfolding step using x ext
        by (cases x) (auto simp: Suc_le_eq)
    qed
  next
    case False
    then show ?thesis by (subst seek_loop.simps) auto
  qed
qed

text \<open>The line that starts a text, when the text has one.\<close>

fun line_end :: "bytes \<Rightarrow> nat option" where
  "line_end (a # b # s) = (if a = CR \<and> b = LF then Some 0 else map_option Suc (line_end (b # s)))"
| "line_end _ = None"

lemma line_end_spec:
  "line_end s = (case x of None \<Rightarrow> None | Some k \<Rightarrow> Some k)"
  if "case x of None \<Rightarrow> \<forall>i. \<not> crlf_at s i | Some k \<Rightarrow> crlf_at s k \<and> (\<forall>i < k. \<not> crlf_at s i)"
  using that
proof (induction s arbitrary: x rule: line_end.induct)
  case (1 a b s)
  have shift: "crlf_at (a # b # s) (Suc i) \<longleftrightarrow> crlf_at (b # s) i" for i by (simp add: crlf_at_def)
  have zero: "crlf_at (a # b # s) 0 \<longleftrightarrow> a = CR \<and> b = LF" by (simp add: crlf_at_def)
  show ?case
  proof (cases x)
    case None
    with 1(2) shift zero 1(1) [of None] show ?thesis by auto
  next
    case (Some k)
    show ?thesis
    proof (cases k)
      case 0
      with Some 1(2) zero show ?thesis by simp
    next
      case (Suc j)
      with Some 1(2) zero have nz: "\<not> (a = CR \<and> b = LF)" by auto
      have "crlf_at (b # s) j \<and> (\<forall>i < j. \<not> crlf_at (b # s) i)"
        using Some Suc 1(2) shift by auto
      with 1(1) [OF nz, of "Some j"] nz Some Suc show ?thesis by simp
    qed
  qed
qed (auto simp: crlf_at_def split: option.splits)

lemma seekNewline_spec:
  assumes "len < 2 ^ 31" "len \<le> length s"
  shows "seekNewline s len = Some (line_end (take len s))"
proof (cases len)
  case 0
  then have "to_int (int len - 1) = - 1" by (simp add: to_int_small)
  with 0 show ?thesis by (simp add: seekNewline_def) (subst seek_loop.simps, simp)
next
  case (Suc n)
  have i: "to_int (int len - 1) = int n" using Suc assms(1) by (simp add: to_int_small)
  have at: "crlf_at (take len s) i \<longleftrightarrow> i < n \<and> crlf_at s i" for i
    using assms(2) Suc by (auto simp: crlf_at_def)
  have "n < length s" using assms(2) Suc by simp
  from seek_loop_spec [OF this, of 0] obtain x where x: "seek_loop s (int n) 0 = Some x"
    "case x of None \<Rightarrow> \<forall>i. 0 \<le> i \<and> i < n \<longrightarrow> \<not> crlf_at s i
     | Some k \<Rightarrow> 0 \<le> k \<and> k < n \<and> crlf_at s k \<and> (\<forall>i. 0 \<le> i \<and> i < k \<longrightarrow> \<not> crlf_at s i)" by blast
  have "case x of None \<Rightarrow> \<forall>i. \<not> crlf_at (take len s) i
    | Some k \<Rightarrow> crlf_at (take len s) k \<and> (\<forall>i < k. \<not> crlf_at (take len s) i)"
    using x(2) at by (auto split: option.splits)
  from line_end_spec [OF this] x(1) show ?thesis
    by (simp add: seekNewline_def i split: option.splits)
qed

lemma line_end_iff:
  "case line_end s of None \<Rightarrow> \<forall>i. \<not> crlf_at s i | Some k \<Rightarrow> crlf_at s k \<and> (\<forall>i < k. \<not> crlf_at s i)"
proof (induction s rule: line_end.induct)
  case (1 a b s)
  have sh: "crlf_at (a # b # s) i \<longleftrightarrow> (case i of 0 \<Rightarrow> a = CR \<and> b = LF | Suc j \<Rightarrow> crlf_at (b # s) j)" for i
    by (auto simp: crlf_at_def split: nat.split)
  show ?case
  proof (cases "a = CR \<and> b = LF")
    case True
    then show ?thesis by (simp add: crlf_at_def)
  next
    case False
    with 1 have "case line_end (b # s) of None \<Rightarrow> \<forall>i. \<not> crlf_at (b # s) i
      | Some k \<Rightarrow> crlf_at (b # s) k \<and> (\<forall>i < k. \<not> crlf_at (b # s) i)" by blast
    with False show ?thesis
      by (auto simp: sh split: option.splits nat.splits)
  qed
qed (simp_all add: crlf_at_def)

end
