(* ===== verification/Protocol.thy ===== *)
theory Protocol
  imports Reader
begin

text \<open>
  The abstract specification of the parser: the replies of the Redis protocol, their encoding,
  and a parser of the bytes that are pending, with no buffer, no task records and no heap. The
  lemmas show that it inverts the encoding and that it can be stopped at any byte and resumed.
  \<^verbatim>\<open>Reader_Correct\<close> shows that the code implements it.
\<close>

section \<open>Replies and their encoding\<close>

datatype resp =
    RStatus bytes
  | RError bytes
  | RInt int
  | RBulk bytes
  | RNil
  | RArr "resp list"

fun encode :: "resp \<Rightarrow> bytes" where
  "encode (RStatus s) = ''+'' @ s @ CRLF"
| "encode (RError s) = ''-'' @ s @ CRLF"
| "encode (RInt i) = '':'' @ sdec i @ CRLF"
| "encode (RBulk b) = ''$'' @ dec (length b) @ CRLF @ b @ CRLF"
| "encode RNil = ''$-1'' @ CRLF"
| "encode (RArr xs) = ''*'' @ dec (length xs) @ CRLF @ concat (map encode xs)"

text \<open>The replies that the protocol can carry, at nesting depth \<^theory_text>\<open>d\<close>.\<close>

fun resp_ok :: "nat \<Rightarrow> resp \<Rightarrow> bool" where
  "resp_ok d (RStatus s) = (line_end (s @ CRLF) = Some (length s))"
| "resp_ok d (RError s) = (line_end (s @ CRLF) = Some (length s))"
| "resp_ok d (RInt i) = (- (2 ^ 63) \<le> i \<and> i < 2 ^ 63)"
| "resp_ok d (RBulk b) = (length b < 2 ^ 31)"
| "resp_ok d RNil = True"
| "resp_ok d (RArr xs) = (d < 8 \<and> int (length xs) \<le> INT_MAX \<and> (\<forall>x \<in> set xs. resp_ok (Suc d) x))"

section \<open>Open arrays\<close>

text \<open>
  A reply that is being read: the arrays that are open, innermost first, each with a label, its
  number of elements and the elements that are complete; or a complete reply.
\<close>

type_synonym 'a opens = "('a \<times> nat \<times> resp list) list"

datatype 'a progress = Building "'a opens" | Complete resp

fun plug :: "resp \<Rightarrow> 'a opens \<Rightarrow> 'a progress" where
  "plug v [] = Complete v"
| "plug v ((a, n, vs) # os) =
     (if Suc (length vs) = n then plug (RArr (vs @ [v])) os else Building ((a, n, vs @ [v]) # os))"

definition erase :: "'a opens \<Rightarrow> unit opens" where
  "erase os = map (\<lambda>(a, n, vs). ((), n, vs)) os"

fun erase_progress :: "'a progress \<Rightarrow> unit progress" where
  "erase_progress (Building os) = Building (erase os)"
| "erase_progress (Complete v) = Complete v"

lemma erase_simps [simp]:
  "erase [] = []" "erase ((a, n, vs) # os) = ((), n, vs) # erase os" "length (erase os) = length os"
  by (simp_all add: erase_def)

lemma plug_erase: "plug v (erase os) = erase_progress (plug v os)"
  by (induction v os rule: plug.induct) auto

lemma plug_Building_length: "plug v os = Building os' \<Longrightarrow> length os' \<le> length os \<and> os' \<noteq> []"
  by (induction v os rule: plug.induct) (auto split: if_splits)

section \<open>One item\<close>

datatype outcome =
    Need int bytes
  | Fault bytes
  | Item resp bytes
  | Push nat bytes

definition line_item :: "int \<Rightarrow> bytes \<Rightarrow> resp option" where
  "line_item ty s =
     (if ty = REDIS_REPLY_INTEGER then map_option RInt (string2ll s)
      else if ty = REDIS_REPLY_STATUS then Some (RStatus s)
      else Some (RError s))"

definition typed_item :: "int \<Rightarrow> nat \<Rightarrow> bytes \<Rightarrow> outcome" where
  "typed_item ty d p =
     (if ty = REDIS_REPLY_ARRAY \<and> d = 8
      then Fault ''No support for nested multi bulk replies with depth > 7''
      else case line_end p of
        None \<Rightarrow> Need ty p
      | Some k \<Rightarrow>
          if ty = REDIS_REPLY_ARRAY then
            (case string2ll (take k p) of
               None \<Rightarrow> Fault ''Bad multi-bulk length''
             | Some n \<Rightarrow>
                 if n < - 1 \<or> n > INT_MAX then Fault ''Multi-bulk length out of range''
                 else if n = - 1 then Item RNil (drop (k + 2) p)
                 else if n = 0 then Item (RArr []) (drop (k + 2) p)
                 else Push (nat n) (drop (k + 2) p))
          else if ty = REDIS_REPLY_STRING then
            (case string2ll (take k p) of
               None \<Rightarrow> Fault ''Bad bulk string length''
             | Some n \<Rightarrow>
                 if n < - 1 then Fault ''Bulk string length out of range''
                 else if n = - 1 then Item RNil (drop (k + 2) p)
                 else if k + 2 + nat n + 2 \<le> length p
                 then Item (RBulk (take (nat n) (drop (k + 2) p))) (drop (k + 2 + nat n + 2) p)
                 else Need ty p)
          else
            (case line_item ty (take k p) of
               None \<Rightarrow> Fault ''Bad integer value''
             | Some v \<Rightarrow> Item v (drop (k + 2) p)))"

text \<open>The type of the item is negative as long as its first byte was not read.\<close>

definition item :: "int \<Rightarrow> nat \<Rightarrow> bytes \<Rightarrow> outcome" where
  "item ty d p =
     (if ty < 0 then
        (case p of
           [] \<Rightarrow> Need ty []
         | c # p \<Rightarrow>
             (case type_byte c of
                None \<Rightarrow> Fault (''Protocol error, got '' @ chrtos c @ '' as reply type byte'')
              | Some ty \<Rightarrow> typed_item ty d p))
      else typed_item ty d p)"

section \<open>The parser\<close>

datatype presult =
    Waiting int bytes "unit opens"
  | Failure bytes
  | Parsed resp bytes

lemma line_end_bound: "line_end p = Some k \<Longrightarrow> k + 2 \<le> length p"
  by (induction p arbitrary: k rule: line_end.induct) (auto split: if_splits)

lemma typed_item_length:
  "typed_item ty d p = Item v q \<Longrightarrow> length q < length p"
  "typed_item ty d p = Push n q \<Longrightarrow> length q < length p"
  using line_end_bound [of p]
  by (auto simp: typed_item_def split: option.splits if_splits dest!: line_end_bound)

lemma item_length:
  "item ty d p = Item v q \<Longrightarrow> length q < length p"
  "item ty d p = Push n q \<Longrightarrow> length q < length p"
  by (auto simp: item_def split: if_splits list.splits option.splits dest: typed_item_length)

function parse :: "int \<Rightarrow> bytes \<Rightarrow> unit opens \<Rightarrow> presult" where
  "parse ty p os =
     (case item ty (length os) p of
        Need ty q \<Rightarrow> Waiting ty q os
      | Fault e \<Rightarrow> Failure e
      | Item v q \<Rightarrow>
          (case plug v os of
             Complete w \<Rightarrow> Parsed w q
           | Building os \<Rightarrow> parse (- 1) q os)
      | Push n q \<Rightarrow> parse (- 1) q (((), n, []) # os))"
  by pat_completeness auto
termination by (relation "measure (\<lambda>(ty, p, os). length p)") (auto dest: item_length)

declare parse.simps [simp del]

section \<open>Stopping and resuming\<close>

lemma line_end_append: "line_end p = Some k \<Longrightarrow> line_end (p @ y) = Some k"
  by (induction p arbitrary: k rule: line_end.induct) (auto split: if_splits)

lemma typed_item_append:
  "case typed_item ty d p of
     Item v q \<Rightarrow> typed_item ty d (p @ y) = Item v (q @ y)
   | Push n q \<Rightarrow> typed_item ty d (p @ y) = Push n (q @ y)
   | Fault e \<Rightarrow> typed_item ty d (p @ y) = Fault e
   | Need ty' q \<Rightarrow> ty' = ty \<and> q = p"
proof (cases "ty = REDIS_REPLY_ARRAY \<and> d = 8")
  case True
  then show ?thesis by (simp add: typed_item_def)
next
  case deep: False
  show ?thesis
  proof (cases "line_end p")
    case None
    with deep show ?thesis by (simp add: typed_item_def)
  next
    case (Some k)
    have k: "k + 2 \<le> length p" by (rule line_end_bound [OF Some])
    have le: "line_end (p @ y) = Some k" by (rule line_end_append [OF Some])
    have tk: "take k (p @ y) = take k p" and dk: "drop (k + 2) (p @ y) = drop (k + 2) p @ y"
      using k by simp_all
    note defs = typed_item_def if_not_P [OF deep] Some le option.case tk dk
    consider (array) "ty = REDIS_REPLY_ARRAY" | (bulk) "ty = REDIS_REPLY_STRING" "ty \<noteq> REDIS_REPLY_ARRAY"
      | (line) "ty \<noteq> REDIS_REPLY_ARRAY" "ty \<noteq> REDIS_REPLY_STRING" by blast
    then show ?thesis
    proof cases
      case array
      then show ?thesis unfolding defs by (cases "string2ll (take k p)") auto
    next
      case line
      then show ?thesis unfolding defs by (cases "line_item ty (take k p)") auto
    next
      case bulk
      show ?thesis
      proof (cases "string2ll (take k p)")
        case None
        with bulk show ?thesis unfolding defs by simp
      next
        case len: (Some n)
        consider "n < - 1" | "n = - 1" | (data) "0 \<le> n" "k + 2 + nat n + 2 \<le> length p"
          | (more) "0 \<le> n" "\<not> k + 2 + nat n + 2 \<le> length p" by linarith
        then show ?thesis
        proof cases
          case data
          then have "nat n \<le> length (drop (k + 2) p)" by simp
          then have "take (nat n) (drop (k + 2) p @ y) = take (nat n) (drop (k + 2) p)" by simp
          moreover have "drop (k + 2 + nat n + 2) (p @ y) = drop (k + 2 + nat n + 2) p @ y"
            using data by simp
          moreover have "k + 2 + nat n + 2 \<le> length (p @ y)" using data by simp
          ultimately show ?thesis using bulk len data unfolding defs by simp
        qed (use bulk len in \<open>unfold defs, simp_all\<close>)
      qed
    qed
  qed
qed

lemma typed_item_appendI:
  "typed_item ty d p = Item v q \<Longrightarrow> typed_item ty d (p @ y) = Item v (q @ y)"
  "typed_item ty d p = Push n q \<Longrightarrow> typed_item ty d (p @ y) = Push n (q @ y)"
  "typed_item ty d p = Fault e \<Longrightarrow> typed_item ty d (p @ y) = Fault e"
  "typed_item ty d p = Need ty' q \<Longrightarrow> ty' = ty \<and> q = p"
  using typed_item_append [where ty = ty and d = d and p = p and y = y] by simp_all

lemma type_byte_pos: "type_byte c = Some ty \<Longrightarrow> 0 \<le> ty"
  by (auto simp: type_byte_def reply_type_defs split: if_splits)

lemma item_append:
  "item ty d p = Item v q \<Longrightarrow> item ty d (p @ y) = Item v (q @ y)"
  "item ty d p = Push n q \<Longrightarrow> item ty d (p @ y) = Push n (q @ y)"
  "item ty d p = Fault e \<Longrightarrow> item ty d (p @ y) = Fault e"
  by (auto simp: item_def typed_item_appendI(1-3) split: if_splits list.splits option.splits)

lemma item_resume:
  assumes "item ty d p = Need ty' q"
  shows "item ty' d (q @ y) = item ty d (p @ y)"
proof (cases "ty < 0")
  case False
  with assms have "ty' = ty \<and> q = p" using typed_item_appendI(4) by (simp add: item_def)
  then show ?thesis by simp
next
  case True
  show ?thesis
  proof (cases p)
    case Nil
    with True assms show ?thesis by (auto simp: item_def)
  next
    case (Cons c s)
    with True assms obtain t where t: "type_byte c = Some t" "typed_item t d s = Need ty' q"
      by (auto simp: item_def split: option.splits)
    then have "ty' = t \<and> q = s" using typed_item_appendI(4) by blast
    with t True Cons show ?thesis using type_byte_pos [OF t(1)] by (simp add: item_def)
  qed
qed

text \<open>Feeding the rest later is the same as having it all at once.\<close>

lemma parse_append:
  "case parse ty p os of
     Parsed w q \<Rightarrow> parse ty (p @ y) os = Parsed w (q @ y)
   | Failure e \<Rightarrow> parse ty (p @ y) os = Failure e
   | Waiting ty' q os' \<Rightarrow> parse ty (p @ y) os = parse ty' (q @ y) os'"
proof (induction ty p os rule: parse.induct)
  case (1 ty p os)
  note unf = parse.simps [of ty p] parse.simps [of ty "p @ y"]
  show ?case
  proof (cases "item ty (length os) p")
    case (Need t s)
    with item_resume [OF Need, of y] show ?thesis by (simp add: unf parse.simps [of t "s @ y"])
  next
    case (Fault e)
    with item_append(3) [OF Fault, of y] show ?thesis by (simp add: unf)
  next
    case (Item v s)
    show ?thesis
    proof (cases "plug v os")
      case (Building os1)
      have e: "parse ty p os = parse (- 1) s os1" "parse ty (p @ y) os = parse (- 1) (s @ y) os1"
        using Item Building item_append(1) [OF Item, of y] by (simp_all add: unf)
      show ?thesis unfolding e by (rule 1(1) [OF Item Building])
    next
      case (Complete w)
      with Item item_append(1) [OF Item, of y] show ?thesis by (simp add: unf)
    qed
  next
    case (Push n s)
    have e: "parse ty p os = parse (- 1) s (((), n, []) # os)"
      "parse ty (p @ y) os = parse (- 1) (s @ y) (((), n, []) # os)"
      using Push item_append(2) [OF Push, of y] by (simp_all add: unf)
    show ?thesis unfolding e by (rule 1(2) [OF Push])
  qed
qed

section \<open>Parsing an encoding\<close>

lemma line_end_numeral:
  "CR \<notin> set s \<Longrightarrow> line_end (s @ CR # LF # y) = Some (length s)"
proof (induction s)
  case (Cons a s)
  then show ?case by (cases s) auto
qed simp

lemma sdec_no_CR: "CR \<notin> set (sdec i)"
proof -
  have "CR \<notin> set (dec n)" for n using dec_digits [of n] by (auto simp: is_digit_def)
  then show ?thesis by (auto simp: sdec_def)
qed

lemma sdec_nat: "sdec (int n) = dec n"
  by (simp add: sdec_def)

lemma string2ll_sdec: "- (2 ^ 63) \<le> i \<Longrightarrow> i < 2 ^ 63 \<Longrightarrow> string2ll (sdec i) = Some i"
  by (simp add: string2ll_iff)

lemma item_header:
  assumes "type_byte c = Some ty" "ty = REDIS_REPLY_ARRAY \<Longrightarrow> d < 8" "line_end (s @ CRLF) = Some (length s)"
  shows "item (- 1) d (c # s @ CR # LF # y) = typed_item ty d (s @ CR # LF # y)"
    "line_end (s @ CR # LF # y) = Some (length s)"
    "take (length s) (s @ CR # LF # y) = s" "drop (length s + 2) (s @ CR # LF # y) = y"
    "\<not> (ty = REDIS_REPLY_ARRAY \<and> d = 8)"
  using assms line_end_append [of "s @ CRLF" "length s" y] by (auto simp: item_def)

lemma item_line:
  assumes c: "type_byte c = Some ty" and s: "line_end (s @ CRLF) = Some (length s)"
    and v: "line_item ty s = Some v"
    and ty: "ty \<noteq> REDIS_REPLY_ARRAY" "ty \<noteq> REDIS_REPLY_STRING"
  shows "item (- 1) d (c # s @ CR # LF # y) = Item v y"
proof -
  have d: "ty = REDIS_REPLY_ARRAY \<Longrightarrow> d < 8" using ty by simp
  note hd = item_header [OF c d s]
  show ?thesis using ty v by (subst hd(1)) (simp_all add: typed_item_def hd)
qed

lemma item_string:
  assumes s: "line_end (s @ CRLF) = Some (length s)" and n: "string2ll s = Some n" "- 1 \<le> n"
    and y: "nat n + 2 \<le> length y \<or> n = - 1"
  shows "item (- 1) d (CHR ''$'' # s @ CR # LF # y) =
    (if n = - 1 then Item RNil y else Item (RBulk (take (nat n) y)) (drop (nat n + 2) y))"
proof -
  have c: "type_byte CHR ''$'' = Some REDIS_REPLY_STRING" by (simp add: type_byte_def)
  have d: "REDIS_REPLY_STRING = REDIS_REPLY_ARRAY \<Longrightarrow> d < 8" by (simp add: reply_type_defs)
  have ty: "(REDIS_REPLY_STRING = REDIS_REPLY_ARRAY) = False" by (simp add: reply_type_defs)
  let ?p = "s @ CR # LF # y"
  note hd = item_header [OF c d s]
  have split: "drop (length s + 2 + nat n + 2) ?p = drop (nat n + 2) (drop (length s + 2) ?p)"
    unfolding drop_drop by (simp only: add_ac)
  have len: "length s + 2 + nat n + 2 \<le> length ?p" if "n \<noteq> - 1" using y that by simp
  have e: "item (- 1) d (CHR ''$'' # ?p) =
      (if n < - 1 then Fault ''Bulk string length out of range''
       else if n = - 1 then Item RNil (drop (length s + 2) ?p)
       else if length s + 2 + nat n + 2 \<le> length ?p
       then Item (RBulk (take (nat n) (drop (length s + 2) ?p))) (drop (length s + 2 + nat n + 2) ?p)
       else Need REDIS_REPLY_STRING ?p)"
    by (simp only: hd(1) typed_item_def ty hd(2,3) option.case n(1) if_False simp_thms if_True)
  show ?thesis
    unfolding e split hd(4) using n(2) len by simp
qed

lemma item_bulk:
  assumes b: "length b < 2 ^ 31"
  shows "item (- 1) d (encode (RBulk b) @ y) = Item (RBulk b) y"
proof -
  let ?s = "dec (length b)"
  have s: "line_end (?s @ CRLF) = Some (length ?s)"
    using line_end_numeral [of ?s "[]"] sdec_no_CR [of "int (length b)"] by (simp add: sdec_nat)
  have n: "string2ll ?s = Some (int (length b))"
    using string2ll_sdec [of "int (length b)"] b by (simp add: sdec_nat)
  show ?thesis using item_string [OF s n, of "b @ CR # LF # y" d] by simp
qed

lemma item_nil: "item (- 1) d (encode RNil @ y) = Item RNil y"
proof -
  have s: "line_end (''-1'' @ CRLF) = Some (length ''-1'')" by simp
  have "sdec (- 1) = ''-1''" by code_simp
  then have n: "string2ll ''-1'' = Some (- 1)" using string2ll_sdec [of "- 1"] by simp
  show ?thesis using item_string [OF s n, of y d] by simp
qed

lemma item_array:
  assumes n: "int n \<le> INT_MAX" and d: "d < 8"
  shows "item (- 1) d (CHR ''*'' # dec n @ CR # LF # y) = (if n = 0 then Item (RArr []) y else Push n y)"
proof -
  have s: "line_end (dec n @ CRLF) = Some (length (dec n))"
    using line_end_numeral [of "dec n" "[]"] sdec_no_CR [of "int n"] by (simp add: sdec_nat)
  have c: "type_byte CHR ''*'' = Some REDIS_REPLY_ARRAY" by (simp add: type_byte_def)
  have d8: "(d = 8) = False" using d by simp
  note hd = item_header [OF c d s]
  have v: "string2ll (dec n) = Some (int n)"
    using string2ll_sdec [of "int n"] n by (simp add: sdec_nat INT_MAX_def)
  have "item (- 1) d (CHR ''*'' # dec n @ CR # LF # y) =
    (if int n < - 1 \<or> int n > INT_MAX then Fault ''Multi-bulk length out of range''
     else if int n = - 1 then Item RNil y else if int n = 0 then Item (RArr []) y
     else Push (nat (int n)) y)"
    by (simp only: hd(1) typed_item_def d8 hd(2,3,4) option.case v if_False simp_thms if_True)
  with n show ?thesis by simp
qed

definition continue :: "bytes \<Rightarrow> unit progress \<Rightarrow> presult" where
  "continue y st = (case st of Complete w \<Rightarrow> Parsed w y | Building os \<Rightarrow> parse (- 1) y os)"

lemma parse_item: "item (- 1) (length os) p = Item v y \<Longrightarrow> parse (- 1) p os = continue y (plug v os)"
  by (simp add: parse.simps [of "- 1" p] continue_def)

lemma parse_elements:
  assumes ih: "\<And>x os y. x \<in> set ws \<Longrightarrow> resp_ok (length os) x \<Longrightarrow>
      parse (- 1) (encode x @ y) os = continue y (plug x os)"
    and ok: "\<forall>x \<in> set ws. resp_ok (Suc (length os)) x" and ne: "ws \<noteq> []"
    and n: "n = length vs + length ws"
  shows "parse (- 1) (concat (map encode ws) @ y) (((), n, vs) # os) =
    continue y (plug (RArr (vs @ ws)) os)"
  using assms
proof (induction ws arbitrary: vs)
  case (Cons w ws)
  let ?os = "((), n, vs) # os"
  have head: "parse (- 1) (encode w @ concat (map encode ws) @ y) ?os =
      continue (concat (map encode ws) @ y) (plug w ?os)"
    using Cons(2) [of w ?os "concat (map encode ws) @ y"] Cons(3) by simp
  show ?case
  proof (cases "ws = []")
    case True
    with head Cons(5) show ?thesis by simp
  next
    case False
    then have "Suc (length vs) \<noteq> n" using Cons(5) by simp
    with head have "parse (- 1) (concat (map encode (w # ws)) @ y) ?os =
      parse (- 1) (concat (map encode ws) @ y) (((), n, vs @ [w]) # os)"
      by (simp add: continue_def)
    also have "\<dots> = continue y (plug (RArr ((vs @ [w]) @ ws)) os)"
      using Cons(2,3,5) False by (intro Cons(1)) auto
    finally show ?thesis by simp
  qed
qed simp

lemma parse_encode:
  "resp_ok (length os) v \<Longrightarrow> parse (- 1) (encode v @ y) os = continue y (plug v os)"
proof (induction v arbitrary: os y)
  case (RStatus s)
  then show ?case
    using item_line [of "CHR ''+''" REDIS_REPLY_STATUS s "RStatus s" "length os" y]
    by (intro parse_item) (simp add: type_byte_def line_item_def reply_type_defs)
next
  case (RError s)
  then show ?case
    using item_line [of "CHR ''-''" REDIS_REPLY_ERROR s "RError s" "length os" y]
    by (intro parse_item) (simp add: type_byte_def line_item_def reply_type_defs)
next
  case (RInt i)
  have "line_end (sdec i @ CRLF) = Some (length (sdec i))"
    using line_end_numeral [OF sdec_no_CR, of i "[]"] by simp
  then show ?case
    using RInt item_line [of "CHR '':''" REDIS_REPLY_INTEGER "sdec i" "RInt i" "length os" y]
    by (intro parse_item) (simp add: type_byte_def line_item_def reply_type_defs string2ll_sdec)
next
  case (RBulk b)
  then show ?case by (intro parse_item item_bulk) simp
next
  case RNil
  show ?case by (intro parse_item item_nil)
next
  case (RArr xs)
  then have h: "item (- 1) (length os) (encode (RArr xs) @ y) =
      (if length xs = 0 then Item (RArr []) (concat (map encode xs) @ y)
       else Push (length xs) (concat (map encode xs) @ y))"
    using item_array [of "length xs" "length os" "concat (map encode xs) @ y"] by simp
  show ?case
  proof (cases "xs = []")
    case True
    with h show ?thesis by (intro parse_item) simp
  next
    case False
    then have "parse (- 1) (encode (RArr xs) @ y) os =
      parse (- 1) (concat (map encode xs) @ y) (((), length xs, []) # os)"
      using h by (subst parse.simps) (simp only:, simp)
    also have "\<dots> = continue y (plug (RArr ([] @ xs)) os)"
      using RArr False by (intro parse_elements) auto
    finally show ?thesis by simp
  qed
qed

lemma item_Need_length: "item ty d p = Need ty' q \<Longrightarrow> length q \<le> length p"
  by (auto simp: item_def dest: typed_item_appendI(4) split: if_splits list.splits option.splits)

lemma parse_Waiting_length: "parse ty p os = Waiting ty' q os' \<Longrightarrow> length q \<le> length p"
proof (induction ty p os rule: parse.induct)
  case (1 ty p os)
  show ?case
  proof (cases "item ty (length os) p")
    case (Need t s)
    with 1(3) item_Need_length [OF Need] show ?thesis by (simp add: parse.simps [of ty p])
  next
    case (Item v s)
    with 1(3) 1(1) [OF Item] item_length(1) [OF Item] show ?thesis
      by (cases "plug v os") (auto simp: parse.simps [of ty p] dest: le_less_trans)
  next
    case (Push n s)
    with 1(3) 1(2) [OF Push] item_length(2) [OF Push] show ?thesis
      by (auto simp: parse.simps [of ty p] dest: le_less_trans)
  qed (use 1 in \<open>simp add: parse.simps [of ty p]\<close>)
qed

end
