(* ===== verification/Reader_Correct.thy ===== *)
theory Reader_Correct
  imports Protocol
begin

text \<open>
  The reader of \<^verbatim>\<open>lib/hiredis/read.c\<close> implements the parser of \<^verbatim>\<open>Protocol\<close>: for every
  set of callbacks that keeps the contract \<^theory_text>\<open>reply_builder\<close>, each item, the loop over items
  and \<^verbatim>\<open>redisReaderGetReply\<close> do what the abstract parser does with the pending bytes, and
  none of them faults, whatever the bytes are.
\<close>

section \<open>The state of the reader\<close>

definition pending :: "'h redisReader \<Rightarrow> bytes" where
  "pending r = (case r_buf r of Ptr s \<Rightarrow> drop (r_pos r) (sds_str s) | _ \<Rightarrow> [])"

definition buf_ok :: "'h redisReader \<Rightarrow> bool" where
  "buf_ok r \<longleftrightarrow> (\<exists>s. r_buf r = Ptr s \<and> sds_ok s \<and> r_len r = sdslen s \<and> r_pos r \<le> r_len r \<and>
     r_len r < 2 ^ 31)"

text \<open>The records of the open arrays, and what they say of the task above them.\<close>

fun open_tasks :: "redisReadTask list \<Rightarrow> addr opens \<Rightarrow> bool" where
  "open_tasks rs [] \<longleftrightarrow> t_parent (rs ! 0) = None"
| "open_tasks rs ((a, n, vs) # os) \<longleftrightarrow>
     t_type (rs ! length os) = REDIS_REPLY_ARRAY \<and> t_obj (rs ! length os) = a \<and>
     t_elements (rs ! length os) = int n \<and> t_idx (rs ! Suc (length os)) = int (length vs) \<and>
     t_parent (rs ! Suc (length os)) = Some (length os) \<and> length vs < n \<and> open_tasks rs os"

definition reading :: "'h redisReader \<Rightarrow> addr opens \<Rightarrow> int \<Rightarrow> bool" where
  "reading r os ty \<longleftrightarrow> r_err r = 0 \<and> buf_ok r \<and> length (r_rstack r) = 9 \<and>
     r_ridx r = int (length os) \<and> length os \<le> 8 \<and> open_tasks (r_rstack r) os \<and>
     t_type (r_rstack r ! length os) = ty \<and>
     ty \<in> {- 1, REDIS_REPLY_STRING, REDIS_REPLY_ARRAY, REDIS_REPLY_INTEGER, REDIS_REPLY_STATUS,
       REDIS_REPLY_ERROR}"

definition idle :: "'h redisReader \<Rightarrow> bool" where
  "idle r \<longleftrightarrow> r_err r = 0 \<and> buf_ok r \<and> length (r_rstack r) = 9 \<and> r_ridx r = - 1"

definition failed :: "'h redisReader \<Rightarrow> int \<Rightarrow> bytes \<Rightarrow> bool" where
  "failed r type str \<longleftrightarrow> r_err r = type \<and> r_errstr r = take 127 str \<and> r_buf r = Null \<and>
     r_reply r = 0 \<and> r_ridx r = - 1 \<and> r_pos r = 0 \<and> r_len r = 0"

text \<open>The task and its parent, as the callbacks see them.\<close>

definition task_at :: "redisReadTask \<Rightarrow> redisReadTask option \<Rightarrow> addr opens \<Rightarrow> bool" where
  "task_at t p os \<longleftrightarrow> (case os of
     [] \<Rightarrow> t_parent t = None \<and> p = None
   | (a, n, vs) # _ \<Rightarrow>
       \<exists>q. p = Some q \<and> t_parent t \<noteq> None \<and> t_type q = REDIS_REPLY_ARRAY \<and> t_obj q = a \<and>
         t_elements q = int n \<and> t_idx t = int (length vs) \<and> length vs < n)"

text \<open>The reply that a string object stands for.\<close>

definition string_reply :: "int \<Rightarrow> bytes \<Rightarrow> resp" where
  "string_reply ty s =
     (if ty = REDIS_REPLY_STATUS then RStatus s
      else if ty = REDIS_REPLY_ERROR then RError s
      else RBulk s)"

lemma open_tasks_update:
  "open_tasks rs os \<Longrightarrow> length os < length rs \<Longrightarrow> t_idx t = t_idx (rs ! length os) \<Longrightarrow>
   t_parent t = t_parent (rs ! length os) \<Longrightarrow> open_tasks (rs[length os := t]) os"
proof (induction rs os rule: open_tasks.induct)
  case (2 rs a n vs os)
  have above: "open_tasks (rs[i := t]) os'" if "open_tasks rs os'" "length os' < i" for i os'
    using that by (induction rs os' rule: open_tasks.induct) auto
  from 2 show ?case using above [of os "Suc (length os)"] by auto
qed simp

lemma open_tasks_above: "open_tasks rs os \<Longrightarrow> length os < i \<Longrightarrow> open_tasks (rs[i := t]) os"
  by (induction rs os rule: open_tasks.induct) auto

lemma open_tasks_next:
  assumes "open_tasks rs ((a, n, vs) # os)" "Suc (length os) < length rs" "Suc (length vs) < n"
    "t_idx t = int (Suc (length vs))" "t_parent t = Some (length os)"
  shows "open_tasks (rs[Suc (length os) := t]) ((a, n, vs @ [v]) # os)"
  using assms open_tasks_above [of rs os "Suc (length os)" t] by simp

lemma task_at_open:
  assumes "open_tasks (r_rstack r) os" "t_idx t = t_idx (r_rstack r ! length os)"
    "t_parent t = t_parent (r_rstack r ! length os)"
  shows "task_at t (parent_of r t) os"
  using assms by (cases os) (auto simp: task_at_def parent_of_def split: list.splits)

section \<open>Moving to the next task\<close>

lemma moveToNextTask_spec:
  assumes "open_tasks (r_rstack r) os" "r_ridx r = int (length os)" "length (r_rstack r) = 9"
    "length os \<le> 8"
  shows "\<exists>rs k. moveToNextTask r = Some (r\<lparr>r_rstack := rs, r_ridx := k\<rparr>) \<and> length rs = 9 \<and>
    (case plug v os of
       Complete w \<Rightarrow> k = - 1
     | Building os' \<Rightarrow> k = int (length os') \<and> length os' \<le> 8 \<and> open_tasks rs os' \<and>
         t_type (rs ! length os') = - 1)"
  using assms
proof (induction v os arbitrary: r rule: plug.induct)
  case (1 v)
  have "moveToNextTask r = Some (r\<lparr>r_rstack := r_rstack r, r_ridx := - 1\<rparr>)"
    using 1 by (subst moveToNextTask.simps) simp
  with 1 show ?case by fastforce
next
  case (2 v a n vs os)
  let ?i = "Suc (length os)" and ?rs = "r_rstack r"
  have i: "r_ridx r = int ?i" and lt: "?i < length ?rs" using 2 by auto
  have at: "stack_at r (r_ridx r) = Some (?rs ! ?i)" "stack_at r (r_ridx r - 1) = Some (?rs ! length os)"
    using i lt by (auto simp: stack_at_def nat_add_distrib)
  have prv: "t_type (?rs ! length os) = REDIS_REPLY_ARRAY" "t_elements (?rs ! length os) = int n"
    "t_idx (?rs ! ?i) = int (length vs)" "t_parent (?rs ! ?i) = Some (length os)" "length vs < n"
    "open_tasks ?rs os"
    using 2(2) by auto
  show ?case
  proof (cases "Suc (length vs) = n")
    case True
    define r1 where "r1 = r\<lparr>r_ridx := int (length os)\<rparr>"
    have "moveToNextTask r = moveToNextTask r1"
      using i at prv True by (subst moveToNextTask.simps) (simp add: r1_def)
    moreover obtain rs k where "moveToNextTask r1 = Some (r1\<lparr>r_rstack := rs, r_ridx := k\<rparr>)"
      "length rs = 9" "case plug (RArr (vs @ [v])) os of
         Complete w \<Rightarrow> k = - 1
       | Building os' \<Rightarrow> k = int (length os') \<and> length os' \<le> 8 \<and> open_tasks rs os' \<and>
           t_type (rs ! length os') = - 1"
      using 2(1) [OF True, of r1] 2(3-5) prv(6) by (auto simp: r1_def)
    ultimately show ?thesis using True by (auto simp: r1_def)
  next
    case False
    let ?t = "(?rs ! ?i)\<lparr>t_type := - 1, t_elements := - 1, t_idx := t_idx (?rs ! ?i) + 1\<rparr>"
    have "moveToNextTask r = Some (set_task r (r_ridx r) ?t)"
      using i at prv False by (subst moveToNextTask.simps) simp
    also have "\<dots> = Some (r\<lparr>r_rstack := ?rs[?i := ?t], r_ridx := int ?i\<rparr>)"
      using i by (simp add: set_task_def nat_add_distrib)
    finally have "moveToNextTask r = Some (r\<lparr>r_rstack := ?rs[?i := ?t], r_ridx := int ?i\<rparr>)" .
    moreover have "open_tasks (?rs[?i := ?t]) ((a, n, vs @ [v]) # os)"
      using 2(2) lt prv False by (intro open_tasks_next) auto
    ultimately show ?thesis using False 2(4,5) lt prv(3)
      by (intro exI [of _ "?rs[?i := ?t]"] exI [of _ "int ?i"]) simp
  qed
qed

section \<open>Reading\<close>

lemma buf_okD:
  assumes "buf_ok r"
  obtains b where "at_cursor r = Some b" "pending r = take (unread r) b" "unread r \<le> length b"
    "unread r < 2 ^ 31" "length (pending r) = unread r" "r_pos r + unread r = r_len r"
proof -
  obtain s where s: "r_buf r = Ptr s" "sds_ok s" "r_len r = sdslen s" "r_pos r \<le> r_len r" "r_len r < 2 ^ 31"
    using assms by (auto simp: buf_ok_def)
  note okD = sds_okD [OF s(2)]
  have u: "unread r = sdslen s - r_pos r" using s by (simp add: unread_def)
  show ?thesis
  proof (rule that [of "drop (r_pos r) (buf s)"])
    show "at_cursor r = Some (drop (r_pos r) (buf s))" using s okD by (simp add: at_cursor_def)
    show "pending r = take (unread r) (drop (r_pos r) (buf s))"
      using s by (simp add: pending_def sds_str_def u drop_take)
    show "unread r \<le> length (drop (r_pos r) (buf s))" "unread r < 2 ^ 31" "r_pos r + unread r = r_len r"
      using s okD by (simp_all add: u)
    show "length (pending r) = unread r" using s by (simp add: pending_def u length_sds_str)
  qed
qed

text \<open>Consuming bytes.\<close>

lemma advance:
  assumes "buf_ok r" "n \<le> length (pending r)"
  shows "buf_ok (r\<lparr>r_pos := r_pos r + n\<rparr>)" "pending (r\<lparr>r_pos := r_pos r + n\<rparr>) = drop n (pending r)"
proof -
  obtain s where s: "r_buf r = Ptr s" "sds_ok s" "r_len r = sdslen s" "r_pos r \<le> r_len r" "r_len r < 2 ^ 31"
    using assms by (auto simp: buf_ok_def)
  have "length (pending r) = sdslen s - r_pos r" using s by (simp add: pending_def length_sds_str)
  with s assms(2) show "buf_ok (r\<lparr>r_pos := r_pos r + n\<rparr>)" by (auto simp: buf_ok_def)
  show "pending (r\<lparr>r_pos := r_pos r + n\<rparr>) = drop n (pending r)"
    using s by (simp add: pending_def add.commute)
qed

lemma readLine_spec:
  assumes "buf_ok r"
  shows "case line_end (pending r) of
      None \<Rightarrow> readLine r = Some None
    | Some k \<Rightarrow> \<exists>b. readLine r = Some (Some (b, k, r\<lparr>r_pos := r_pos r + (k + 2)\<rparr>)) \<and>
        take k b = take k (pending r) \<and> k < 2 ^ 31 \<and> k \<le> length b"
proof -
  obtain b where b: "at_cursor r = Some b" "pending r = take (unread r) b" "unread r \<le> length b"
    "unread r < 2 ^ 31" "length (pending r) = unread r"
    by (rule buf_okD [OF assms]) blast
  have seek: "seekNewline b (unread r) = Some (line_end (pending r))"
    using seekNewline_spec [OF b(4,3)] b(2) by simp
  show ?thesis
  proof (cases "line_end (pending r)")
    case None
    with seek b show ?thesis by (simp add: readLine_def)
  next
    case (Some k)
    with line_end_bound [OF Some] b seek show ?thesis by (simp add: readLine_def add.assoc)
  qed
qed

lemma buf_ok_update [simp]:
  "buf_ok (r\<lparr>r_rstack := rs\<rparr>) = buf_ok r" "buf_ok (r\<lparr>r_ridx := i\<rparr>) = buf_ok r"
  "buf_ok (r\<lparr>r_reply := a\<rparr>) = buf_ok r"
  "pending (r\<lparr>r_rstack := rs\<rparr>) = pending r" "pending (r\<lparr>r_ridx := i\<rparr>) = pending r"
  "pending (r\<lparr>r_reply := a\<rparr>) = pending r"
  by (simp_all add: buf_ok_def pending_def split: ptr.split)

lemma reading_advance:
  assumes "reading r os ty" "n \<le> length (pending r)"
  shows "reading (r\<lparr>r_pos := r_pos r + n\<rparr>) os ty"
  using assms advance(1) [of r n] by (simp add: reading_def)

section \<open>The contract of the callbacks\<close>

text \<open>
  \<^theory_text>\<open>J h root st\<close>: the heap holds what was built so far, a reply in progress whose outermost
  object is \<^theory_text>\<open>root\<close>, or a complete one. A callback either builds its object and puts it into
  its parent, or, if \<^theory_text>\<open>mf\<close>, it may fail: then it returns null and leaves a heap from which what was
  built can be freed.
\<close>

definition releasable :: "('h \<Rightarrow> addr \<Rightarrow> addr progress \<Rightarrow> bool) \<Rightarrow> (addr \<Rightarrow> 'h \<Rightarrow> 'h option) \<Rightarrow>
    addr \<Rightarrow> 'h \<Rightarrow> bool" where
  "releasable J fo root h \<longleftrightarrow>
     (if root = 0 then J h 0 (Building []) else (\<exists>h'. fo root h = Some h' \<and> J h' 0 (Building [])))"

definition built :: "bool \<Rightarrow> ('h \<Rightarrow> addr \<Rightarrow> addr progress \<Rightarrow> bool) \<Rightarrow> (addr \<Rightarrow> 'h \<Rightarrow> 'h option) \<Rightarrow>
    addr \<Rightarrow> addr opens \<Rightarrow> addr progress \<Rightarrow> addr \<Rightarrow> 'h \<Rightarrow> bool" where
  "built mf J fo root os st a h \<longleftrightarrow>
     (if a = 0 then mf \<and> releasable J fo root h else J h (if os = [] then a else root) st)"

locale reply_builder =
  fixes cs :: "redisReadTask \<Rightarrow> redisReadTask option \<Rightarrow> bytes \<Rightarrow> nat \<Rightarrow> 'h \<Rightarrow> (addr \<times> 'h) option"
    and ca :: "redisReadTask \<Rightarrow> redisReadTask option \<Rightarrow> int \<Rightarrow> 'h \<Rightarrow> (addr \<times> 'h) option"
    and ci :: "redisReadTask \<Rightarrow> redisReadTask option \<Rightarrow> int \<Rightarrow> 'h \<Rightarrow> (addr \<times> 'h) option"
    and cn :: "redisReadTask \<Rightarrow> redisReadTask option \<Rightarrow> 'h \<Rightarrow> (addr \<times> 'h) option"
    and fo :: "addr \<Rightarrow> 'h \<Rightarrow> 'h option"
    and J :: "'h \<Rightarrow> addr \<Rightarrow> addr progress \<Rightarrow> bool"
    and mf :: bool
  assumes null_root: "J h 0 st \<Longrightarrow> st = Building []"
    and free: "J h root st \<Longrightarrow> root \<noteq> 0 \<Longrightarrow> \<exists>h'. fo root h = Some h' \<and> J h' 0 (Building [])"
    and string: "J h root (Building os) \<Longrightarrow> task_at t p os \<Longrightarrow>
      t_type t \<in> {REDIS_REPLY_STRING, REDIS_REPLY_STATUS, REDIS_REPLY_ERROR} \<Longrightarrow>
      n \<le> length b \<Longrightarrow> n < 2 ^ 31 \<Longrightarrow>
      \<exists>a h'. cs t p b n h = Some (a, h') \<and>
        built mf J fo root os (plug (string_reply (t_type t) (take n b)) os) a h'"
    and array: "J h root (Building os) \<Longrightarrow> task_at t p os \<Longrightarrow> int n \<le> INT_MAX \<Longrightarrow>
      \<exists>a h'. ca t p (int n) h = Some (a, h') \<and>
        built mf J fo root os (if n = 0 then plug (RArr []) os else Building ((a, n, []) # os)) a h'"
    and integer: "J h root (Building os) \<Longrightarrow> task_at t p os \<Longrightarrow>
      - (2 ^ 63) \<le> i \<Longrightarrow> i < 2 ^ 63 \<Longrightarrow>
      \<exists>a h'. ci t p i h = Some (a, h') \<and> built mf J fo root os (plug (RInt i) os) a h'"
    and nil: "J h root (Building os) \<Longrightarrow> task_at t p os \<Longrightarrow>
      \<exists>a h'. cn t p h = Some (a, h') \<and> built mf J fo root os (plug RNil os) a h'"

text \<open>The record of the callbacks.\<close>

definition functions_of ::
  "(redisReadTask \<Rightarrow> redisReadTask option \<Rightarrow> bytes \<Rightarrow> nat \<Rightarrow> 'h \<Rightarrow> (addr \<times> 'h) option) \<Rightarrow>
   (redisReadTask \<Rightarrow> redisReadTask option \<Rightarrow> int \<Rightarrow> 'h \<Rightarrow> (addr \<times> 'h) option) \<Rightarrow>
   (redisReadTask \<Rightarrow> redisReadTask option \<Rightarrow> int \<Rightarrow> 'h \<Rightarrow> (addr \<times> 'h) option) \<Rightarrow>
   (redisReadTask \<Rightarrow> redisReadTask option \<Rightarrow> 'h \<Rightarrow> (addr \<times> 'h) option) \<Rightarrow>
   (addr \<Rightarrow> 'h \<Rightarrow> 'h option) \<Rightarrow> 'h redisReplyObjectFunctions" where
  "functions_of cs ca ci cn fo = \<lparr>createString = Some cs, createArray = Some ca,
     createInteger = Some ci, createNil = Some cn, freeObject = Some fo\<rparr>"

text \<open>What a step of the reader has to do for the outcome of the abstract parser.\<close>

definition settled :: "('h \<Rightarrow> addr \<Rightarrow> addr progress \<Rightarrow> bool) \<Rightarrow> 'h redisReader \<Rightarrow> 'h \<Rightarrow>
    addr progress \<Rightarrow> bytes \<Rightarrow> bool" where
  "settled J r h st q \<longleftrightarrow> pending r = q \<and> J h (r_reply r) st \<and>
     (case st of Complete w \<Rightarrow> idle r | Building os \<Rightarrow> reading r os (- 1))"

definition oom :: "bool \<Rightarrow> ('h \<Rightarrow> addr \<Rightarrow> addr progress \<Rightarrow> bool) \<Rightarrow> int \<Rightarrow> 'h redisReader \<Rightarrow> 'h \<Rightarrow> bool" where
  "oom mf J rc r h \<longleftrightarrow> mf \<and> rc = REDIS_ERR \<and> failed r REDIS_ERR_OOM ''Out of memory'' \<and> J h 0 (Building [])"

definition outcome_ok :: "bool \<Rightarrow> ('h \<Rightarrow> addr \<Rightarrow> addr progress \<Rightarrow> bool) \<Rightarrow> addr opens \<Rightarrow> 'h redisReader \<Rightarrow> 'h \<Rightarrow>
    outcome \<Rightarrow> int \<Rightarrow> 'h redisReader \<Rightarrow> 'h \<Rightarrow> bool" where
  "outcome_ok mf J os r h out rc r' h' \<longleftrightarrow> r_fn r' = r_fn r \<and>
     (case out of
        Need ty q \<Rightarrow> rc = REDIS_ERR \<and> reading r' os ty \<and> pending r' = q \<and> r_reply r' = r_reply r \<and> h' = h
      | Fault e \<Rightarrow> rc = REDIS_ERR \<and> failed r' REDIS_ERR_PROTOCOL e \<and> J h' 0 (Building [])
      | Item v q \<Rightarrow> oom mf J rc r' h' \<or> (rc = REDIS_OK \<and> settled J r' h' (plug v os) q)
      | Push n q \<Rightarrow> oom mf J rc r' h' \<or>
          (rc = REDIS_OK \<and> (\<exists>a. settled J r' h' (Building ((a, n, []) # os)) q)))"

context reply_builder begin

lemma callback_fns:
  assumes "r_fn r = Some (functions_of cs ca ci cn fo)"
  shows "callback createString r = Some cs" "callback createArray r = Some ca"
    "callback createInteger r = Some ci" "callback createNil r = Some cn"
    "callback freeObject r = Some fo"
  using assms by (simp_all add: callback_def functions_of_def)

lemma J_releasable: "J h root st \<Longrightarrow> releasable J fo root h"
  using free [of h root st] null_root [of h st] unfolding releasable_def by metis

lemma set_error:
  assumes "r_fn r = Some (functions_of cs ca ci cn fo)" "buf_ok r" "releasable J fo (r_reply r) h"
  shows "\<exists>r' h'. redisReaderSetError r h ty msg = Some (r', h') \<and> failed r' ty msg \<and>
    r_fn r' = r_fn r \<and> J h' 0 (Building [])"
proof -
  obtain s where s: "r_buf r = Ptr s" using assms(2) by (auto simp: buf_ok_def)
  show ?thesis
    using s assms(1,3)
    by (cases "r_reply r = 0")
      (auto simp: redisReaderSetError_def functions_of_def failed_def sdsfree_def releasable_def)
qed

lemma fail_oom:
  assumes "r_fn r = Some (functions_of cs ca ci cn fo)" "buf_ok r" "releasable J fo (r_reply r) h" mf
  shows "\<exists>rc r' h'. fail_with (redisReaderSetErrorOOM r h) = Some (rc, r', h') \<and> oom mf J rc r' h' \<and>
    r_fn r' = r_fn r"
  using assms(4) set_error [OF assms(1-3), of REDIS_ERR_OOM "''Out of memory''"]
  by (auto simp: fail_with_def redisReaderSetErrorOOM_def oom_def)

lemma fail_protocol:
  assumes "r_fn r = Some (functions_of cs ca ci cn fo)" "buf_ok r" "J h (r_reply r) st"
    "r_fn r0 = r_fn r"
  shows "\<exists>rc r' h'. fail_with (redisReaderSetError r h REDIS_ERR_PROTOCOL msg) = Some (rc, r', h') \<and>
    outcome_ok mf J os r0 h0 (Fault msg) rc r' h'"
  using set_error [OF assms(1,2) J_releasable [OF assms(3)], of REDIS_ERR_PROTOCOL msg] assms(4)
  by (auto simp: fail_with_def outcome_ok_def)

lemma finish_ok:
  assumes rd: "reading r os ty" and a: "a \<noteq> 0" and J: "J h (if os = [] then a else r_reply r) (plug v os)"
  shows "\<exists>r'. finish r h a = Some (REDIS_OK, r', h) \<and> r_fn r' = r_fn r \<and>
    settled J r' h (plug v os) (pending r)"
proof -
  define r1 where "r1 = set_root r a"
  have r1: "r_rstack r1 = r_rstack r" "r_ridx r1 = r_ridx r" "buf_ok r1" "pending r1 = pending r"
    "r_err r1 = 0" "r_fn r1 = r_fn r" "r_reply r1 = (if os = [] then a else r_reply r)"
    using rd by (auto simp: r1_def set_root_def reading_def)
  obtain rs k where m: "moveToNextTask r1 = Some (r1\<lparr>r_rstack := rs, r_ridx := k\<rparr>)" "length rs = 9"
    "case plug v os of
       Complete w \<Rightarrow> k = - 1
     | Building os' \<Rightarrow> k = int (length os') \<and> length os' \<le> 8 \<and> open_tasks rs os' \<and>
         t_type (rs ! length os') = - 1"
    using moveToNextTask_spec [of r1 os v] rd r1 by (auto simp: reading_def)
  let ?r' = "r1\<lparr>r_rstack := rs, r_ridx := k\<rparr>"
  have "settled J ?r' h (plug v os) (pending r)"
    using m r1 J unfolding settled_def by (cases "plug v os") (auto simp: idle_def reading_def)
  with m(1) r1 show ?thesis by (simp add: finish_def r1_def [symmetric])
qed

lemma cur_task:
  assumes "reading r os ty"
  shows "stack_at r (r_ridx r) = Some (r_rstack r ! length os)"
    "t_type (r_rstack r ! length os) = ty"
    "task_at (r_rstack r ! length os) (parent_of r (r_rstack r ! length os)) os"
  using assms task_at_open [of r os] by (auto simp: reading_def stack_at_def)

text \<open>What follows the call of a callback that completes an item.\<close>

lemma complete_item:
  assumes fn: "r_fn r = Some (functions_of cs ca ci cn fo)" and rd: "reading r os ty"
    and b: "built mf J fo (r_reply r) os (plug v os) a h'" and q: "pending r = q"
    and same: "r_fn r0 = r_fn r"
  shows "\<exists>rc r' h''. (if a = 0 then fail_with (redisReaderSetErrorOOM r h') else finish r h' a) =
      Some (rc, r', h'') \<and> outcome_ok mf J os r0 h0 (Item v q) rc r' h''"
proof (cases "a = 0")
  case True
  have "buf_ok r" using rd by (simp add: reading_def)
  with True fail_oom [OF fn this, of h'] b same show ?thesis
    by (auto simp: built_def outcome_ok_def)
next
  case False
  with finish_ok [OF rd False, of h' v] b q same show ?thesis
    by (auto simp: built_def outcome_ok_def)
qed

end

section \<open>One item\<close>

lemma line_types:
  assumes "ty \<in> {REDIS_REPLY_INTEGER, REDIS_REPLY_STATUS, REDIS_REPLY_ERROR}"
  shows "ty \<noteq> REDIS_REPLY_ARRAY" "ty \<noteq> REDIS_REPLY_STRING"
  using assms by (auto simp: reply_type_defs)

context reply_builder begin

lemma after_line:
  assumes rd: "reading r os ty" and k: "line_end (pending r) = Some k"
  defines "r1 \<equiv> r\<lparr>r_pos := r_pos r + (k + 2)\<rparr>"
  shows "reading r1 os ty" "pending r1 = drop (k + 2) (pending r)" "r_reply r1 = r_reply r"
    "r_fn r1 = r_fn r" "r_rstack r1 = r_rstack r" "r_ridx r1 = r_ridx r"
    "parent_of r1 t = parent_of r t" "buf_ok r1"
  using reading_advance [OF rd line_end_bound [OF k]] rd
    advance [OF _ line_end_bound [OF k]]
  by (auto simp: r1_def reading_def parent_of_def split: option.splits)

lemma processLineItem_ok:
  assumes fn: "r_fn r = Some (functions_of cs ca ci cn fo)" and rd: "reading r os ty"
    and J: "J h (r_reply r) (Building os)"
    and ty: "ty \<in> {REDIS_REPLY_INTEGER, REDIS_REPLY_STATUS, REDIS_REPLY_ERROR}"
  shows "\<exists>rc r' h'. processLineItem r h = Some (rc, r', h') \<and>
    outcome_ok mf J os r h (typed_item ty (length os) (pending r)) rc r' h'"
proof -
  have buf: "buf_ok r" using rd by (simp add: reading_def)
  note ty' = line_types [OF ty]
  note cur = cur_task [OF rd]
  let ?t = "r_rstack r ! length os"
  show ?thesis
  proof (cases "line_end (pending r)")
    case None
    then have "processLineItem r h = Some (REDIS_ERR, r, h)"
      using readLine_spec [OF buf] cur(1) by (simp add: processLineItem_def)
    moreover have "typed_item ty (length os) (pending r) = Need ty (pending r)"
      using None ty' by (simp add: typed_item_def)
    ultimately show ?thesis using rd by (simp add: outcome_ok_def)
  next
    case (Some k)
    then obtain b where b: "readLine r = Some (Some (b, k, r\<lparr>r_pos := r_pos r + (k + 2)\<rparr>))"
      "take k b = take k (pending r)" "k < 2 ^ 31" "k \<le> length b"
      using readLine_spec [OF buf] by auto
    define r1 where "r1 = r\<lparr>r_pos := r_pos r + (k + 2)\<rparr>"
    note r1 = after_line [OF rd Some, folded r1_def]
    have b1: "readLine r = Some (Some (b, k, r1))" using b(1) unfolding r1_def .
    have fn1: "r_fn r1 = Some (functions_of cs ca ci cn fo)" using fn r1(4) by simp
    note cb = callback_fns [OF fn1]
    have J1: "J h (r_reply r1) (Building os)" using J r1(3) by simp
    show ?thesis
    proof (cases "ty = REDIS_REPLY_INTEGER")
      case int: True
      show ?thesis
      proof (cases "string2ll (take k (pending r))")
        case None
        then have "processLineItem r h =
            fail_with (redisReaderSetError r1 h REDIS_ERR_PROTOCOL ''Bad integer value'')"
          using b1 b(2) int cur(1,2) cb by (simp add: processLineItem_def)
        moreover have "typed_item ty (length os) (pending r) = Fault ''Bad integer value''"
          using None Some ty' int by (simp add: typed_item_def line_item_def)
        ultimately show ?thesis using fail_protocol [OF fn1 r1(8) J1, of r] r1(4) by simp
      next
        case v: (Some v)
        then have "- (2 ^ 63) \<le> v" "v < 2 ^ 63" by (simp_all add: string2ll_iff)
        from integer [OF J cur(3) this] obtain a h' where
          a: "ci ?t (parent_of r ?t) v h = Some (a, h')" "built mf J fo (r_reply r) os (plug (RInt v) os) a h'"
          by blast
        have "processLineItem r h =
            (if a = 0 then fail_with (redisReaderSetErrorOOM r1 h') else finish r1 h' a)"
          using b1 b(2) int cur(1,2) cb v a(1) r1(7) by (simp add: processLineItem_def)
        moreover have "typed_item ty (length os) (pending r) = Item (RInt v) (drop (k + 2) (pending r))"
          using v Some ty' int by (simp add: typed_item_def line_item_def)
        ultimately show ?thesis
          using complete_item [OF fn1 r1(1) _ r1(2), of "RInt v" a h' r h] a(2) r1(3,4) by simp
      qed
    next
      case str: False
      let ?v = "string_reply ty (take k (pending r))"
      have tys: "t_type ?t \<in> {REDIS_REPLY_STRING, REDIS_REPLY_STATUS, REDIS_REPLY_ERROR}"
        using ty str cur(2) by auto
      from string [OF J cur(3) tys b(4,3)] obtain a h' where
        a: "cs ?t (parent_of r ?t) b k h = Some (a, h')" "built mf J fo (r_reply r) os (plug ?v os) a h'"
        unfolding cur(2) b(2) by blast
      have "processLineItem r h =
          (if a = 0 then fail_with (redisReaderSetErrorOOM r1 h') else finish r1 h' a)"
        using b1 str cur(1,2) cb a(1) r1(7) by (simp add: processLineItem_def)
      moreover have "typed_item ty (length os) (pending r) = Item ?v (drop (k + 2) (pending r))"
        using Some ty ty' str by (auto simp: typed_item_def line_item_def string_reply_def)
      ultimately show ?thesis
        using complete_item [OF fn1 r1(1) _ r1(2), of ?v a h' r h] a(2) r1(3,4) by simp
    qed
  qed
qed

lemma processBulkItem_ok:
  assumes fn: "r_fn r = Some (functions_of cs ca ci cn fo)" and rd: "reading r os REDIS_REPLY_STRING"
    and J: "J h (r_reply r) (Building os)"
  shows "\<exists>rc r' h'. processBulkItem r h = Some (rc, r', h') \<and>
    outcome_ok mf J os r h (typed_item REDIS_REPLY_STRING (length os) (pending r)) rc r' h'"
proof -
  have buf: "buf_ok r" using rd by (simp add: reading_def)
  have ty: "(REDIS_REPLY_STRING = REDIS_REPLY_ARRAY) = False" by (simp add: reply_type_defs)
  note cur = cur_task [OF rd]
  let ?t = "r_rstack r ! length os" and ?p = "pending r"
  obtain b where b: "at_cursor r = Some b" "?p = take (unread r) b" "unread r \<le> length b"
    "unread r < 2 ^ 31" "length ?p = unread r" "r_pos r + unread r = r_len r"
    by (rule buf_okD [OF buf]) blast
  have seek: "seekNewline b (unread r) = Some (line_end ?p)"
    using seekNewline_spec [OF b(4,3)] b(2) by simp
  note spec = typed_item_def [of REDIS_REPLY_STRING] ty simp_thms if_False if_True option.case
  note code = processBulkItem_def
  note cb = callback_fns [OF fn]
  show ?thesis
  proof (cases "line_end ?p")
    case None
    then have "processBulkItem r h = Some (REDIS_ERR, r, h)"
      using seek b cur(1) by (simp add: code)
    moreover have "typed_item REDIS_REPLY_STRING (length os) ?p = Need REDIS_REPLY_STRING ?p"
      unfolding spec None ..
    ultimately show ?thesis using rd by (simp add: outcome_ok_def)
  next
    case (Some k)
    have k: "k + 2 \<le> unread r" using line_end_bound [OF Some] b(5) by simp
    have tk: "take k b = take k ?p" using k by (simp add: b(2))
    show ?thesis
    proof (cases "string2ll (take k ?p)")
      case None
      then have "processBulkItem r h =
          fail_with (redisReaderSetError r h REDIS_ERR_PROTOCOL ''Bad bulk string length'')"
        using seek b(1) cur(1) Some tk by (simp add: code)
      moreover have "typed_item REDIS_REPLY_STRING (length os) ?p = Fault ''Bad bulk string length''"
        unfolding spec Some None ..
      ultimately show ?thesis using fail_protocol [OF fn buf J refl] by simp
    next
      case n: (Some n)
      have item: "typed_item REDIS_REPLY_STRING (length os) ?p =
        (if n < - 1 then Fault ''Bulk string length out of range''
         else if n = - 1 then Item RNil (drop (k + 2) ?p)
         else if k + 2 + nat n + 2 \<le> length ?p
         then Item (RBulk (take (nat n) (drop (k + 2) ?p))) (drop (k + 2 + nat n + 2) ?p)
         else Need REDIS_REPLY_STRING ?p)"
        unfolding spec Some n ..
      have range: "n < 2 ^ 63" using n by (simp add: string2ll_iff)
      consider (low) "n < - 1" | (minus) "n = - 1" | (data) "0 \<le> n" by linarith
      then show ?thesis
      proof cases
        case low
        then have "processBulkItem r h =
            fail_with (redisReaderSetError r h REDIS_ERR_PROTOCOL ''Bulk string length out of range'')"
          using seek b(1) cur(1) Some tk n by (simp add: code)
        with low show ?thesis using fail_protocol [OF fn buf J refl] by (simp add: item)
      next
        case minus
        define r1 where "r1 = r\<lparr>r_pos := r_pos r + (k + 2)\<rparr>"
        note r1 = after_line [OF rd Some, folded r1_def]
        have fn1: "r_fn r1 = Some (functions_of cs ca ci cn fo)" using fn r1(4) by simp
        from nil [OF J cur(3)] obtain a h' where
          a: "cn ?t (parent_of r ?t) h = Some (a, h')" "built mf J fo (r_reply r) os (plug RNil os) a h'"
          by blast
        have code1: "processBulkItem r h =
            (if a = 0 then fail_with (redisReaderSetErrorOOM r h') else finish r1 h' a)"
          using seek b(1) cur(1) Some tk n minus cb a(1) by (simp add: code r1_def)
        have "\<exists>rc r' h''. processBulkItem r h = Some (rc, r', h'') \<and>
          outcome_ok mf J os r h (Item RNil (drop (k + 2) ?p)) rc r' h''"
        proof (cases "a = 0")
          case True
          with fail_oom [OF fn buf, of h'] a(2) show ?thesis
            unfolding code1 by (auto simp: built_def outcome_ok_def)
        next
          case False
          with complete_item [OF fn1 r1(1) _ r1(2), of RNil a h' r h] a(2) r1(3,4) show ?thesis
            unfolding code1 by simp
        qed
        with minus show ?thesis by (simp add: item)
      next
        case data
        have sz: "size_t (k + 2 + nat n + 2) = k + 2 + nat n + 2"
          using k b(4) range by (simp add: size_t_def nat_less_iff)
        have rl: "r_len r < 2 ^ 31" using buf by (auto simp: buf_ok_def)
        have sz2: "size_t (r_pos r + (k + 2 + nat n + 2)) = r_pos r + (k + 2 + nat n + 2)"
          using k b(4,6) rl range by (simp add: size_t_def nat_less_iff)
        have fit: "r_pos r + (k + 2 + nat n + 2) \<le> r_len r \<longleftrightarrow> k + 2 + nat n + 2 \<le> length ?p"
          using b(5,6) by linarith
        show ?thesis
        proof (cases "k + 2 + nat n + 2 \<le> length ?p")
          case True
          let ?m = "k + 2 + nat n + 2"
          define r1 where "r1 = r\<lparr>r_pos := r_pos r + ?m\<rparr>"
          have r1: "reading r1 os REDIS_REPLY_STRING" "pending r1 = drop ?m ?p" "r_reply r1 = r_reply r"
            "r_fn r1 = Some (functions_of cs ca ci cn fo)"
            using reading_advance [OF rd True] advance(2) [OF buf True] fn by (simp_all add: r1_def)
          have tys: "t_type ?t \<in> {REDIS_REPLY_STRING, REDIS_REPLY_STATUS, REDIS_REPLY_ERROR}"
            using cur(2) by simp
          have nb: "nat n \<le> length (drop (k + 2) b)" "nat n < 2 ^ 31"
            using True b(3,4,5) by simp_all
          have bytes: "take (nat n) (drop (k + 2) b) = take (nat n) (drop (k + 2) ?p)"
          proof -
            have "nat n \<le> unread r - (k + 2)" using True b(5) by linarith
            then show ?thesis by (simp only: b(2) drop_take take_take min_absorb1)
          qed
          have sr: "string_reply REDIS_REPLY_STRING x = RBulk x" for x
            by (simp add: string_reply_def reply_type_defs)
          from string [OF J cur(3) tys nb] obtain a h' where
            a: "cs ?t (parent_of r ?t) (drop (k + 2) b) (nat n) h = Some (a, h')"
              "built mf J fo (r_reply r) os (plug (RBulk (take (nat n) (drop (k + 2) ?p))) os) a h'"
            unfolding cur(2) bytes sr by blast
          have code1: "processBulkItem r h =
              (if a = 0 then fail_with (redisReaderSetErrorOOM r h') else finish r1 h' a)"
            using seek b(1) cur(1) Some tk n data cb a(1) sz sz2 fit True
            by (simp add: code r1_def Let_def)
          have "\<exists>rc r' h''. processBulkItem r h = Some (rc, r', h'') \<and>
            outcome_ok mf J os r h (Item (RBulk (take (nat n) (drop (k + 2) ?p))) (drop ?m ?p)) rc r' h''"
          proof (cases "a = 0")
            case True
            with fail_oom [OF fn buf, of h'] a(2) show ?thesis
              unfolding code1 by (auto simp: built_def outcome_ok_def)
          next
            case False
            with complete_item [OF r1(4,1) _ r1(2),
                of "RBulk (take (nat n) (drop (k + 2) ?p))" a h' r h] a(2) r1(3,4) fn show ?thesis
              unfolding code1 by simp
          qed
          with data True show ?thesis by (simp add: item)
        next
          case False
          then have "processBulkItem r h = Some (REDIS_ERR, r, h)"
            using seek b(1) cur(1) Some tk n data sz sz2 fit by (simp add: code Let_def)
          with data False rd show ?thesis by (simp add: item outcome_ok_def)
        qed
      qed
    qed
  qed
qed

end

lemma push_task_spec:
  assumes rd: "reading r os REDIS_REPLY_ARRAY" and d: "length os < 8" and n: "0 < n"
  shows "\<exists>r'. push_task r (r_rstack r ! length os) (int n) a = Some r' \<and>
    reading r' ((a, n, []) # os) (- 1) \<and> pending r' = pending r \<and> r_reply r' = r_reply r \<and>
    r_fn r' = r_fn r"
proof -
  let ?i = "length os" and ?rs = "r_rstack r"
  let ?cur = "(?rs ! ?i)\<lparr>t_elements := int n, t_obj := a\<rparr>"
  let ?new = "\<lparr>t_type = - 1, t_elements = - 1, t_idx = 0, t_obj = 0, t_parent = Some ?i,
    t_privdata = r_privdata r\<rparr>"
  let ?rs1 = "?rs[?i := ?cur]"
  let ?rs2 = "?rs1[Suc ?i := ?new]"
  have i: "r_ridx r = int ?i" "length ?rs = 9" "open_tasks ?rs os" "t_type (?rs ! ?i) = REDIS_REPLY_ARRAY"
    "r_err r = 0" "buf_ok r"
    using rd by (auto simp: reading_def)
  have code: "push_task r (?rs ! ?i) (int n) a = Some (r\<lparr>r_rstack := ?rs2, r_ridx := int (Suc ?i)\<rparr>)"
    using i d by (simp add: push_task_def set_task_def stack_at_def nat_add_distrib Let_def)
  have "open_tasks ?rs1 os" using i d by (intro open_tasks_update) auto
  then have "open_tasks ?rs2 os" by (rule open_tasks_above) simp
  then have "open_tasks ?rs2 ((a, n, []) # os)" using i d n by simp
  then have "reading (r\<lparr>r_rstack := ?rs2, r_ridx := int (Suc ?i)\<rparr>) ((a, n, []) # os) (- 1)"
    using i d by (simp add: reading_def)
  then show ?thesis unfolding code by simp
qed

lemma open_root:
  "reading r os ty \<Longrightarrow> (r_ridx r = 0) = (os = [])"
  by (auto simp: reading_def)

lemma outcome_ok_from:
  "r_fn r2 = r_fn r \<Longrightarrow> r_reply r2 = r_reply r \<Longrightarrow> outcome_ok mf J os r2 h out rc r' h' = outcome_ok mf J os r h out rc r' h'"
  unfolding outcome_ok_def by (cases out) simp_all

context reply_builder begin

text \<open>As \<^theory_text>\<open>finish_ok\<close>, with the root stored after the move.\<close>

lemma move_then_root:
  assumes rd: "reading r os ty" and J: "J h (if os = [] then a else r_reply r) (plug v os)"
  shows "\<exists>r'. moveToNextTask r = Some r' \<and> r_fn r' = r_fn r \<and>
    settled J (if os = [] then r'\<lparr>r_reply := a\<rparr> else r') h (plug v os) (pending r)"
proof -
  obtain rs k where m: "moveToNextTask r = Some (r\<lparr>r_rstack := rs, r_ridx := k\<rparr>)" "length rs = 9"
    "case plug v os of
       Complete w \<Rightarrow> k = - 1
     | Building os' \<Rightarrow> k = int (length os') \<and> length os' \<le> 8 \<and> open_tasks rs os' \<and>
         t_type (rs ! length os') = - 1"
    using moveToNextTask_spec [of r os v] rd by (auto simp: reading_def)
  let ?r' = "r\<lparr>r_rstack := rs, r_ridx := k\<rparr>"
  have "settled J (if os = [] then ?r'\<lparr>r_reply := a\<rparr> else ?r') h (plug v os) (pending r)"
    using m rd J unfolding settled_def
    by (cases "plug v os"; cases "os = []") (auto simp: idle_def reading_def)
  with m(1) show ?thesis by simp
qed

lemma processMultiBulkItem_ok:
  assumes fn: "r_fn r = Some (functions_of cs ca ci cn fo)" and rd: "reading r os REDIS_REPLY_ARRAY"
    and J: "J h (r_reply r) (Building os)"
  shows "\<exists>rc r' h'. processMultiBulkItem r h = Some (rc, r', h') \<and>
    outcome_ok mf J os r h (typed_item REDIS_REPLY_ARRAY (length os) (pending r)) rc r' h'"
proof -
  have buf: "buf_ok r" using rd by (simp add: reading_def)
  note cur = cur_task [OF rd]
  let ?t = "r_rstack r ! length os" and ?p = "pending r"
  note code = processMultiBulkItem_def
  have eight: "(r_ridx r = 8) = (length os = 8)" using rd by (auto simp: reading_def)
  show ?thesis
  proof (cases "length os = 8")
    case True
    then have "processMultiBulkItem r h = fail_with (redisReaderSetError r h REDIS_ERR_PROTOCOL
        ''No support for nested multi bulk replies with depth > 7'')"
      using cur(1) eight by (simp add: code)
    moreover have "typed_item REDIS_REPLY_ARRAY (length os) ?p =
        Fault ''No support for nested multi bulk replies with depth > 7''"
      using True by (simp add: typed_item_def)
    ultimately show ?thesis using fail_protocol [OF fn buf J refl] by simp
  next
    case deep: False
    then have d: "length os < 8" and ne8: "(length os = 8) = False" using rd by (auto simp: reading_def)
    note spec = typed_item_def [of REDIS_REPLY_ARRAY] ne8 simp_thms if_False if_True option.case
    show ?thesis
    proof (cases "line_end ?p")
      case None
      then have "processMultiBulkItem r h = Some (REDIS_ERR, r, h)"
        using readLine_spec [OF buf] cur(1) eight deep by (simp add: code)
      moreover have "typed_item REDIS_REPLY_ARRAY (length os) ?p = Need REDIS_REPLY_ARRAY ?p"
        unfolding spec None ..
      ultimately show ?thesis using rd by (simp add: outcome_ok_def)
    next
      case (Some k)
      then obtain b where b: "readLine r = Some (Some (b, k, r\<lparr>r_pos := r_pos r + (k + 2)\<rparr>))"
        "take k b = take k ?p"
        using readLine_spec [OF buf] by auto
      define r1 where "r1 = r\<lparr>r_pos := r_pos r + (k + 2)\<rparr>"
      note r1 = after_line [OF rd Some, folded r1_def]
      have b1: "readLine r = Some (Some (b, k, r1))" using b(1) unfolding r1_def .
      have fn1: "r_fn r1 = Some (functions_of cs ca ci cn fo)" using fn r1(4) by simp
      have root: "(r_ridx r1 = 0) = (os = [])" by (rule open_root [OF r1(1)])
      note cb = callback_fns [OF fn1]
      have J1: "J h (r_reply r1) (Building os)" using J r1(3) by simp
      show ?thesis
      proof (cases "string2ll (take k ?p)")
        case None
        then have "processMultiBulkItem r h =
            fail_with (redisReaderSetError r1 h REDIS_ERR_PROTOCOL ''Bad multi-bulk length'')"
          using b1 b(2) cur(1) eight deep by (simp add: code)
        moreover have "typed_item REDIS_REPLY_ARRAY (length os) ?p = Fault ''Bad multi-bulk length''"
          unfolding spec Some None ..
        ultimately show ?thesis using fail_protocol [OF fn1 r1(8) J1, of r] r1(4) by simp
      next
        case n: (Some n)
        have item: "typed_item REDIS_REPLY_ARRAY (length os) ?p =
          (if n < - 1 \<or> n > INT_MAX then Fault ''Multi-bulk length out of range''
           else if n = - 1 then Item RNil (drop (k + 2) ?p)
           else if n = 0 then Item (RArr []) (drop (k + 2) ?p)
           else Push (nat n) (drop (k + 2) ?p))"
          unfolding spec Some n ..
        consider (range) "n < - 1 \<or> n > INT_MAX" | (minus) "n = - 1" | (elements) "0 \<le> n" "n \<le> INT_MAX"
          by linarith
        then show ?thesis
        proof cases
          case range
          then have "processMultiBulkItem r h =
              fail_with (redisReaderSetError r1 h REDIS_ERR_PROTOCOL ''Multi-bulk length out of range'')"
            using b1 b(2) cur(1) eight deep n by (simp add: code)
          with range show ?thesis using fail_protocol [OF fn1 r1(8) J1, of r] r1(4) by (simp add: item)
        next
          case minus
          from nil [OF J cur(3)] obtain a h' where
            a: "cn ?t (parent_of r ?t) h = Some (a, h')" "built mf J fo (r_reply r) os (plug RNil os) a h'"
            by blast
          have code1: "processMultiBulkItem r h =
              (if a = 0 then fail_with (redisReaderSetErrorOOM r1 h')
               else do { r \<leftarrow> moveToNextTask r1;
                 Some (REDIS_OK, if os = [] then r\<lparr>r_reply := a\<rparr> else r, h') })"
            using b1 b(2) cur(1) eight deep n minus cb a(1) r1(7) root INT_MAX_def by (simp add: code)
          show ?thesis
          proof (cases "a = 0")
            case True
            with fail_oom [OF fn1 r1(8), of h'] a(2) r1(3,4) minus show ?thesis
              unfolding code1 by (auto simp: built_def outcome_ok_def item INT_MAX_def)
          next
            case False
            with a(2) r1(3) have "J h' (if os = [] then a else r_reply r1) (plug RNil os)"
              by (auto simp: built_def split: if_splits)
            from move_then_root [OF r1(1) this] obtain r' where
              "moveToNextTask r1 = Some r'" "r_fn r' = r_fn r1"
              "settled J (if os = [] then r'\<lparr>r_reply := a\<rparr> else r') h' (plug RNil os) (pending r1)" by blast
            with False minus r1(2,4) show ?thesis
              unfolding code1 by (auto simp: outcome_ok_def item INT_MAX_def)
          qed
        next
          case elements
          then have nn: "int (nat n) \<le> INT_MAX" "int (nat n) = n" by auto
          from array [OF J cur(3) nn(1)] obtain a h' where
            a: "ca ?t (parent_of r ?t) n h = Some (a, h')"
              "built mf J fo (r_reply r) os (if nat n = 0 then plug (RArr []) os
                else Building ((a, nat n, []) # os)) a h'"
            unfolding nn(2) by blast
          have code1: "processMultiBulkItem r h =
              (if a = 0 then fail_with (redisReaderSetErrorOOM r1 h')
               else do { r \<leftarrow> (if n > 0 then push_task r1 ?t n a else moveToNextTask r1);
                 Some (REDIS_OK, if os = [] then r\<lparr>r_reply := a\<rparr> else r, h') })"
            using b1 b(2) cur(1) eight deep n elements cb a(1) r1(7) root by (simp add: code)
          show ?thesis
          proof (cases "a = 0")
            case True
            with fail_oom [OF fn1 r1(8), of h'] a(2) r1(3,4) elements show ?thesis
              unfolding code1 by (auto simp: built_def outcome_ok_def item)
          next
            case a0: False
            show ?thesis
            proof (cases "n = 0")
              case True
              with a0 a(2) r1(3) have "J h' (if os = [] then a else r_reply r1) (plug (RArr []) os)"
                by (auto simp: built_def split: if_splits)
              from move_then_root [OF r1(1) this] obtain r' where
                "moveToNextTask r1 = Some r'" "r_fn r' = r_fn r1"
                "settled J (if os = [] then r'\<lparr>r_reply := a\<rparr> else r') h' (plug (RArr []) os) (pending r1)"
                by blast
              with a0 True r1(2,4) show ?thesis
                unfolding code1 by (auto simp: outcome_ok_def item INT_MAX_def)
            next
              case False
              then have pos: "0 < nat n" using elements by simp
              have t: "r_rstack r1 ! length os = ?t" using r1(5) by simp
              from push_task_spec [OF r1(1) d pos, of a] obtain r' where
                r': "push_task r1 ?t n a = Some r'" "reading r' ((a, nat n, []) # os) (- 1)"
                "pending r' = pending r1" "r_reply r' = r_reply r1" "r_fn r' = r_fn r1"
                unfolding nn(2) t by blast
              let ?r2 = "if os = [] then r'\<lparr>r_reply := a\<rparr> else r'"
              have "settled J ?r2 h' (Building ((a, nat n, []) # os)) (drop (k + 2) ?p)"
                using r' r1(2,3) a0 a(2) pos
                by (cases "os = []") (simp_all add: settled_def built_def reading_def)
              then show ?thesis
                unfolding code1 using a0 r' False elements r1(4)
                by (auto simp: outcome_ok_def item)
            qed
          qed
        qed
      qed
    qed
  qed
qed

lemma reading_set_type:
  assumes "reading r os ty" "ty' \<in> {- 1, REDIS_REPLY_STRING, REDIS_REPLY_ARRAY, REDIS_REPLY_INTEGER,
    REDIS_REPLY_STATUS, REDIS_REPLY_ERROR}"
  shows "reading (set_task r (r_ridx r) ((r_rstack r ! length os)\<lparr>t_type := ty'\<rparr>)) os ty'"
  using assms by (auto simp: reading_def set_task_def intro!: open_tasks_update)

lemma processTyped_ok:
  assumes fn: "r_fn r = Some (functions_of cs ca ci cn fo)" and rd: "reading r os ty"
    and J: "J h (r_reply r) (Building os)" and ty: "0 \<le> ty"
  shows "\<exists>rc r' h'. processTyped r h ty = Some (rc, r', h') \<and>
    outcome_ok mf J os r h (typed_item ty (length os) (pending r)) rc r' h'"
proof -
  consider (line) "ty \<in> {REDIS_REPLY_INTEGER, REDIS_REPLY_STATUS, REDIS_REPLY_ERROR}"
    | (bulk) "ty = REDIS_REPLY_STRING" | (array) "ty = REDIS_REPLY_ARRAY"
    using rd ty by (auto simp: reading_def)
  then show ?thesis
  proof cases
    case line
    with processLineItem_ok [OF fn rd J] show ?thesis by (auto simp: processTyped_def)
  next
    case bulk
    with processBulkItem_ok [OF fn _ J] rd show ?thesis
      by (simp add: processTyped_def reply_type_defs)
  next
    case array
    with processMultiBulkItem_ok [OF fn _ J] rd show ?thesis
      by (simp add: processTyped_def reply_type_defs)
  qed
qed

text \<open>Every item is processed as the abstract parser says; no input makes the reader fault.\<close>

lemma processItem_ok:
  assumes fn: "r_fn r = Some (functions_of cs ca ci cn fo)" and rd: "reading r os ty"
    and J: "J h (r_reply r) (Building os)"
  shows "\<exists>rc r' h'. processItem r h = Some (rc, r', h') \<and>
    outcome_ok mf J os r h (item ty (length os) (pending r)) rc r' h'"
proof (cases "ty < 0")
  case False
  with processTyped_ok [OF fn rd J] cur_task(1,2) [OF rd] show ?thesis
    by (simp add: processItem_def item_def)
next
  case True
  have buf: "buf_ok r" using rd by (simp add: reading_def)
  note cur = cur_task [OF rd]
  obtain b where b: "at_cursor r = Some b" "pending r = take (unread r) b" "unread r \<le> length b"
    "length (pending r) = unread r"
    by (rule buf_okD [OF buf]) blast
  show ?thesis
  proof (cases "pending r")
    case Nil
    then have "unread r = 0" using b(4) by simp
    then have "processItem r h = Some (REDIS_ERR, r, h)"
      using cur(1,2) True by (simp add: processItem_def readBytes_def)
    moreover have "item ty (length os) (pending r) = Need ty []" using Nil True by (simp add: item_def)
    ultimately show ?thesis using rd Nil by (simp add: outcome_ok_def)
  next
    case (Cons c p)
    then have u: "1 \<le> unread r" using b(4) by simp
    obtain b' where b': "b = c # b'" using Cons b(2) by (cases b; cases "unread r") auto
    define r1 where "r1 = r\<lparr>r_pos := r_pos r + 1\<rparr>"
    have one: "1 \<le> length (pending r)" using Cons by simp
    have r1: "reading r1 os ty" "pending r1 = p" "r_fn r1 = r_fn r" "r_reply r1 = r_reply r"
      "r_rstack r1 = r_rstack r" "r_ridx r1 = r_ridx r"
      using reading_advance [OF rd one] advance(2) [OF buf one] Cons by (simp_all add: r1_def)
    have fn1: "r_fn r1 = Some (functions_of cs ca ci cn fo)" using fn r1(3) by simp
    have J1: "J h (r_reply r1) (Building os)" using J r1(4) by simp
    have rb: "readBytes r 1 = Some (Some (c # b', r1))"
      using u b(1) b' by (simp add: readBytes_def r1_def)
    show ?thesis
    proof (cases "type_byte c")
      case None
      then have "processItem r h = fail_with (redisReaderSetError r1 h REDIS_ERR_PROTOCOL
          (''Protocol error, got '' @ chrtos c @ '' as reply type byte''))"
        using cur(1,2) True rb by (simp add: processItem_def redisReaderSetErrorProtocolByte_def)
      moreover have "item ty (length os) (pending r) =
          Fault (''Protocol error, got '' @ chrtos c @ '' as reply type byte'')"
        using None True Cons by (simp add: item_def)
      moreover have "buf_ok r1" using r1(1) by (simp add: reading_def)
      ultimately show ?thesis using fail_protocol [OF fn1 _ J1] r1(3) by simp
    next
      case (Some t)
      have ts: "t \<in> {- 1, REDIS_REPLY_STRING, REDIS_REPLY_ARRAY, REDIS_REPLY_INTEGER,
          REDIS_REPLY_STATUS, REDIS_REPLY_ERROR}" "0 \<le> t"
        using Some type_byte_pos [OF Some] by (auto simp: type_byte_def split: if_splits)
      define r2 where "r2 = set_task r1 (r_ridx r1) ((r_rstack r1 ! length os)\<lparr>t_type := t\<rparr>)"
      have r2: "reading r2 os t" using reading_set_type [OF r1(1) ts(1)] by (simp add: r2_def)
      have r2': "pending r2 = p" "r_fn r2 = r_fn r" "r_reply r2 = r_reply r"
        using r1 by (simp_all add: r2_def set_task_def)
      have code: "processItem r h = processTyped r2 h t"
        using cur(1,2) True rb Some r1(5,6) by (simp add: processItem_def r2_def)
      have "item ty (length os) (pending r) = typed_item t (length os) p"
        using Some True Cons by (simp add: item_def)
      with processTyped_ok [OF _ r2 _ ts(2), of h] fn J r2' code show ?thesis
        unfolding outcome_ok_from [OF r2'(2,3)] by simp
    qed
  qed
qed

end

section \<open>The loop over items\<close>

text \<open>How the reader stands when the abstract parser has stopped.\<close>

definition stopped :: "('h \<Rightarrow> addr \<Rightarrow> addr progress \<Rightarrow> bool) \<Rightarrow> presult \<Rightarrow> 'h redisReader \<Rightarrow> 'h \<Rightarrow> bool" where
  "stopped J res r h \<longleftrightarrow> (case res of
     Waiting ty q os \<Rightarrow>
       \<exists>os'. erase os' = os \<and> reading r os' ty \<and> pending r = q \<and> J h (r_reply r) (Building os')
   | Failure e \<Rightarrow> failed r REDIS_ERR_PROTOCOL e \<and> J h 0 (Building [])
   | Parsed w q \<Rightarrow> idle r \<and> pending r = q \<and> J h (r_reply r) (Complete w))"

definition out_of_memory :: "bool \<Rightarrow> ('h \<Rightarrow> addr \<Rightarrow> addr progress \<Rightarrow> bool) \<Rightarrow> 'h redisReader \<Rightarrow> 'h \<Rightarrow> bool" where
  "out_of_memory mf J r h \<longleftrightarrow> mf \<and> failed r REDIS_ERR_OOM ''Out of memory'' \<and> J h 0 (Building [])"

lemma rc_ne [simp]: "REDIS_ERR \<noteq> REDIS_OK" "REDIS_OK \<noteq> REDIS_ERR"
  by (simp_all add: redis_err_defs)

context reply_builder begin

lemma process_loop_ok:
  assumes fn: "r_fn r = Some (functions_of cs ca ci cn fo)" and rd: "reading r os ty"
    and J: "J h (r_reply r) (Building os)"
  shows "\<exists>r' h'. process_loop r h = Some (r', h') \<and> r_fn r' = r_fn r \<and>
    (out_of_memory mf J r' h' \<or> stopped J (parse ty (pending r) (erase os)) r' h')"
  using assms
proof (induction "length (pending r)" arbitrary: r os ty h rule: less_induct)
  case less
  let ?p = "pending r"
  obtain rc r1 h1 where i: "processItem r h = Some (rc, r1, h1)"
    "outcome_ok mf J os r h (item ty (length os) ?p) rc r1 h1"
    using processItem_ok [OF less(2-4)] by blast
  have fn1: "r_fn r1 = Some (functions_of cs ca ci cn fo)" using i(2) less(2) by (simp add: outcome_ok_def)
  have pos: "0 \<le> r_ridx r" using less(3) by (simp add: reading_def)
  have loop: "process_loop r h = (if rc \<noteq> REDIS_OK then Some (r1, h1) else process_loop r1 h1)"
    using pos i(1) by (subst process_loop.simps) simp
  have next_state: ?case
    if st: "settled J r1 h1 st q" "rc = REDIS_OK" and q: "length q < length ?p"
      and p: "parse ty ?p (erase os) = (case erase_progress st of Complete w \<Rightarrow> Parsed w q
        | Building os \<Rightarrow> parse (- 1) q os)" for st q
  proof (cases st)
    case (Building os1)
    with st have s: "reading r1 os1 (- 1)" "pending r1 = q" "J h1 (r_reply r1) (Building os1)"
      by (auto simp: settled_def)
    have "length (pending r1) < length ?p" using s(2) q by simp
    from less(1) [OF this fn1 s(1,3)] obtain r2 h2 where "process_loop r1 h1 = Some (r2, h2)"
      "r_fn r2 = r_fn r1" "out_of_memory mf J r2 h2 \<or> stopped J (parse (- 1) q (erase os1)) r2 h2"
      unfolding s(2) by blast
    with loop st(2) p Building fn1 less(2) show ?thesis by simp
  next
    case (Complete w)
    with st have s: "idle r1" "pending r1 = q" "J h1 (r_reply r1) (Complete w)"
      by (auto simp: settled_def)
    have "process_loop r1 h1 = Some (r1, h1)"
      using s(1) by (subst process_loop.simps) (simp add: idle_def)
    with loop st(2) p Complete s fn1 less(2) show ?thesis by (simp add: stopped_def)
  qed
  note unf = parse.simps [of ty ?p "erase os"]
  show ?case
  proof (cases "item ty (length os) ?p")
    case (Need ty' q)
    with i(2) loop fn1 less(2,4) show ?thesis
      by (auto simp: outcome_ok_def unf stopped_def)
  next
    case (Fault e)
    with i(2) loop fn1 less(2) show ?thesis by (simp add: outcome_ok_def unf stopped_def)
  next
    case (Item v q)
    show ?thesis
    proof (cases "oom mf J rc r1 h1")
      case True
      then show ?thesis using loop fn1 less(2) by (simp add: oom_def out_of_memory_def)
    next
      case False
      then have "settled J r1 h1 (plug v os) q" "rc = REDIS_OK"
        using i(2) Item by (auto simp: outcome_ok_def)
      moreover have "parse ty ?p (erase os) = (case erase_progress (plug v os) of
          Complete w \<Rightarrow> Parsed w q | Building os \<Rightarrow> parse (- 1) q os)"
        by (simp add: unf Item plug_erase)
      ultimately show ?thesis by (rule next_state [OF _ _ item_length(1) [OF Item]])
    qed
  next
    case (Push n q)
    show ?thesis
    proof (cases "oom mf J rc r1 h1")
      case True
      then show ?thesis using loop fn1 less(2) by (simp add: oom_def out_of_memory_def)
    next
      case False
      then obtain a where "settled J r1 h1 (Building ((a, n, []) # os)) q" "rc = REDIS_OK"
        using i(2) Push by (auto simp: outcome_ok_def)
      moreover have "parse ty ?p (erase os) = (case erase_progress (Building ((a, n, []) # os)) of
          Complete w \<Rightarrow> Parsed w q | Building os \<Rightarrow> parse (- 1) q os)"
        by (simp add: unf Push)
      ultimately show ?thesis by (rule next_state [OF _ _ item_length(2) [OF Push]])
    qed
  qed
qed

end

section \<open>Getting a reply\<close>

text \<open>The reader between two calls.\<close>

definition resting :: "('h \<Rightarrow> addr \<Rightarrow> addr progress \<Rightarrow> bool) \<Rightarrow> 'h redisReader \<Rightarrow> 'h \<Rightarrow> int \<Rightarrow>
    addr opens \<Rightarrow> bool" where
  "resting J r h ty os \<longleftrightarrow>
     (idle r \<and> r_reply r = 0 \<and> J h 0 (Building []) \<and> ty = - 1 \<and> os = []) \<or>
     (reading r os ty \<and> J h (r_reply r) (Building os) \<and>
       \<not> (ty = REDIS_REPLY_ARRAY \<and> length os = 8))"

lemma typed_item_Need:
  "typed_item ty d p = Need ty' q \<Longrightarrow> \<not> (ty' = REDIS_REPLY_ARRAY \<and> d = 8)"
  using typed_item_appendI(4) [of ty d p ty' q] by (auto simp: typed_item_def)

lemma item_Need: "item ty d p = Need ty' q \<Longrightarrow> \<not> (ty' = REDIS_REPLY_ARRAY \<and> d = 8)"
proof (cases "ty < 0")
  case True
  assume n: "item ty d p = Need ty' q"
  show ?thesis
  proof (cases p)
    case Nil
    with True n show ?thesis by (auto simp: item_def reply_type_defs)
  next
    case (Cons c s)
    with True n typed_item_Need show ?thesis by (auto simp: item_def split: option.splits)
  qed
qed (use typed_item_Need in \<open>auto simp: item_def\<close>)

lemma parse_Waiting: "parse ty p os = Waiting ty' q os' \<Longrightarrow> \<not> (ty' = REDIS_REPLY_ARRAY \<and> length os' = 8)"
proof (induction ty p os rule: parse.induct)
  case (1 ty p os)
  show ?case
  proof (cases "item ty (length os) p")
    case (Need t s)
    with 1(3) item_Need [OF Need] show ?thesis by (simp add: parse.simps [of ty p])
  next
    case (Item v s)
    with 1(3) 1(1) [OF Item] show ?thesis
      by (cases "plug v os") (simp_all add: parse.simps [of ty p])
  qed (use 1 in \<open>simp_all add: parse.simps [of ty p]\<close>)
qed

lemma parse_nothing:
  assumes "\<not> (ty = REDIS_REPLY_ARRAY \<and> length os = 8)"
  shows "parse ty [] os = Waiting ty [] os"
  using assms by (subst parse.simps) (auto simp: item_def typed_item_def)

lemma start_task_reading:
  assumes "idle r"
  shows "reading (start_task r) [] (- 1)" "pending (start_task r) = pending r"
    "r_reply (start_task r) = r_reply r" "r_fn (start_task r) = r_fn r" "r_err (start_task r) = 0"
  using assms by (auto simp: idle_def start_task_def reading_def set_task_def)

lemma start_task_same: "reading r os ty \<Longrightarrow> start_task r = r"
  by (auto simp: reading_def start_task_def)

text \<open>Discarding the consumed part of the buffer.\<close>

definition discard :: "'h redisReader \<Rightarrow> 'h redisReader option" where
  "discard r = (if r_pos r \<ge> 1024 then do {
       s \<leftarrow> deref (r_buf r);
       s \<leftarrow> sdsrange s (to_int (int (r_pos r))) (- 1);
       Some (r\<lparr>r_buf := Ptr s, r_pos := 0, r_len := sdslen s\<rparr>)
     }
     else Some r)"

lemma discard_spec:
  assumes "buf_ok r"
  shows "\<exists>s p n. discard r = Some (r\<lparr>r_buf := s, r_pos := p, r_len := n\<rparr>) \<and>
    buf_ok (r\<lparr>r_buf := s, r_pos := p, r_len := n\<rparr>) \<and>
    pending (r\<lparr>r_buf := s, r_pos := p, r_len := n\<rparr>) = pending r"
proof (cases "r_pos r \<ge> 1024")
  case False
  then have "discard r = Some (r\<lparr>r_buf := r_buf r, r_pos := r_pos r, r_len := r_len r\<rparr>)"
    by (simp add: discard_def)
  then show ?thesis using assms by fastforce
next
  case True
  obtain s where s: "r_buf r = Ptr s" "sds_ok s" "r_len r = sdslen s" "r_pos r \<le> r_len r" "r_len r < 2 ^ 31"
    using assms by (auto simp: buf_ok_def)
  have ti: "to_int (int (r_pos r)) = int (r_pos r)" using s by (intro to_int_nat) simp
  have "sdslen s < 2 ^ 31" "- (2 ^ 31) \<le> int (r_pos r)" "int (r_pos r) < 2 ^ 31" using s by auto
  then obtain s' where s': "sdsrange s (int (r_pos r)) (- 1) = Some s'" "sds_ok s'"
    "sds_str s' = slice (sds_str s) (int (r_pos r)) (- 1)"
    using sdsrange_spec [OF s(2), of "int (r_pos r)" "- 1"] by auto
  have "slice (sds_str s) (int (r_pos r)) (- 1) = drop (r_pos r) (sds_str s)"
    using True s length_sds_str [OF s(2)] by (simp add: slice_def Let_def max_def)
  then have str: "sds_str s' = drop (r_pos r) (sds_str s)" using s' by simp
  have len: "sdslen s' = sdslen s - r_pos r"
    using arg_cong [OF str, of length] length_sds_str [OF s(2)] length_sds_str [OF s'(2)] by simp
  let ?r = "r\<lparr>r_buf := Ptr s', r_pos := 0, r_len := sdslen s'\<rparr>"
  have "discard r = Some ?r" using True s s'(1) by (simp add: discard_def ti)
  moreover have "buf_ok ?r" using s s' len by (auto simp: buf_ok_def)
  moreover have "pending ?r = pending r" using s str by (simp add: pending_def)
  ultimately show ?thesis by blast
qed

lemma reading_rebuf:
  "reading r os ty \<Longrightarrow> buf_ok (r\<lparr>r_buf := s, r_pos := p, r_len := n\<rparr>) \<Longrightarrow>
   reading (r\<lparr>r_buf := s, r_pos := p, r_len := n\<rparr>) os ty"
  "idle r \<Longrightarrow> buf_ok (r\<lparr>r_buf := s, r_pos := p, r_len := n\<rparr>) \<Longrightarrow>
   idle (r\<lparr>r_buf := s, r_pos := p, r_len := n\<rparr>)"
  by (simp_all add: reading_def idle_def)

lemma GetReply_discard:
  "redisReaderGetReply r h =
     (if r_err r \<noteq> 0 then Some (REDIS_ERR, r, h, 0)
      else if r_len r = 0 then Some (REDIS_OK, r, h, 0)
      else do {
        (r, h) \<leftarrow> process_loop (start_task r) h;
        if r_err r \<noteq> 0 then Some (REDIS_ERR, r, h, 0)
        else do {
          r \<leftarrow> discard r;
          Some (if r_ridx r = - 1 then (REDIS_OK, r\<lparr>r_reply := 0\<rparr>, h, r_reply r)
                else (REDIS_OK, r, h, 0))
        }
      })"
  unfolding redisReaderGetReply_def discard_def ..

text \<open>What \<^theory_text>\<open>redisReaderGetReply\<close> has to deliver for the result of the abstract parser.\<close>

definition delivers :: "('h \<Rightarrow> addr \<Rightarrow> addr progress \<Rightarrow> bool) \<Rightarrow> presult \<Rightarrow> int \<Rightarrow> 'h redisReader \<Rightarrow>
    'h \<Rightarrow> addr \<Rightarrow> bool" where
  "delivers J res rc r h a \<longleftrightarrow> (case res of
     Waiting ty q os \<Rightarrow>
       rc = REDIS_OK \<and> a = 0 \<and> (\<exists>os'. erase os' = os \<and> resting J r h ty os') \<and> pending r = q
   | Failure e \<Rightarrow> rc = REDIS_ERR \<and> a = 0 \<and> failed r REDIS_ERR_PROTOCOL e \<and> J h 0 (Building [])
   | Parsed w q \<Rightarrow> rc = REDIS_OK \<and> idle r \<and> r_reply r = 0 \<and> pending r = q \<and> J h a (Complete w))"

context reply_builder begin

lemma GetReply_ok:
  assumes fn: "r_fn r = Some (functions_of cs ca ci cn fo)" and rest: "resting J r h ty os"
  shows "\<exists>rc r' h' a. redisReaderGetReply r h = Some (rc, r', h', a) \<and> r_fn r' = r_fn r \<and>
    ((rc = REDIS_ERR \<and> a = 0 \<and> out_of_memory mf J r' h') \<or>
     delivers J (parse ty (pending r) (erase os)) rc r' h' a)"
proof -
  have err: "r_err r = 0" and buf: "buf_ok r" and deep: "\<not> (ty = REDIS_REPLY_ARRAY \<and> length os = 8)"
    using rest by (auto simp: resting_def idle_def reading_def reply_type_defs)
  show ?thesis
  proof (cases "r_len r = 0")
    case True
    then have "pending r = []" using buf by (auto simp: buf_ok_def pending_def sds_str_def)
    then have "parse ty (pending r) (erase os) = Waiting ty [] (erase os)"
      using parse_nothing [of ty "erase os"] deep by simp
    with True err rest \<open>pending r = []\<close> show ?thesis
      by (auto simp: redisReaderGetReply_def delivers_def)
  next
    case False
    define r0 where "r0 = start_task r"
    have r0: "reading r0 os ty" "pending r0 = pending r" "J h (r_reply r0) (Building os)" "r_fn r0 = r_fn r"
      using rest start_task_reading [of r] start_task_same [of r os ty]
      by (auto simp: resting_def r0_def)
    have fn0: "r_fn r0 = Some (functions_of cs ca ci cn fo)" using r0(4) fn by simp
    obtain r1 h1 where loop: "process_loop r0 h = Some (r1, h1)" "r_fn r1 = r_fn r0"
      "out_of_memory mf J r1 h1 \<or> stopped J (parse ty (pending r) (erase os)) r1 h1"
      using process_loop_ok [OF fn0 r0(1,3)] unfolding r0(2) by blast
    note code = GetReply_discard [of r h, folded r0_def]
    have failing: ?thesis if "failed r1 t e" "t \<noteq> 0"
      "(out_of_memory mf J r1 h1 \<or> delivers J (parse ty (pending r) (erase os)) REDIS_ERR r1 h1 0)" for t e
    proof -
      have "r_err r1 \<noteq> 0" using that by (simp add: failed_def)
      then have "redisReaderGetReply r h = Some (REDIS_ERR, r1, h1, 0)"
        using err False loop(1) by (simp add: code)
      with that(3) loop(2) r0(4) show ?thesis by auto
    qed
    show ?thesis
    proof (cases "out_of_memory mf J r1 h1")
      case True
      then show ?thesis
        by (intro failing [of REDIS_ERR_OOM "''Out of memory''"])
          (auto simp: out_of_memory_def redis_err_defs)
    next
      case no_oom: False
      with loop(3) have st: "stopped J (parse ty (pending r) (erase os)) r1 h1" by blast
      show ?thesis
      proof (cases "parse ty (pending r) (erase os)")
        case (Failure e)
        with st show ?thesis
          by (intro failing [of REDIS_ERR_PROTOCOL e])
            (auto simp: stopped_def delivers_def redis_err_defs)
      next
        case (Waiting ty' q os')
        with st obtain os1 where w: "erase os1 = os'" "reading r1 os1 ty'" "pending r1 = q"
          "J h1 (r_reply r1) (Building os1)"
          by (auto simp: stopped_def)
        then have "buf_ok r1" by (simp add: reading_def)
        from discard_spec [OF this] obtain s p n where d:
          "discard r1 = Some (r1\<lparr>r_buf := s, r_pos := p, r_len := n\<rparr>)"
          "buf_ok (r1\<lparr>r_buf := s, r_pos := p, r_len := n\<rparr>)"
          "pending (r1\<lparr>r_buf := s, r_pos := p, r_len := n\<rparr>) = pending r1" by blast
        let ?r = "r1\<lparr>r_buf := s, r_pos := p, r_len := n\<rparr>"
        have "r_err r1 = 0" "r_ridx r1 \<noteq> - 1" using w(2) by (auto simp: reading_def)
        then have g: "redisReaderGetReply r h = Some (REDIS_OK, ?r, h1, 0)"
          using err False loop(1) d(1) by (simp add: code)
        have "\<not> (ty' = REDIS_REPLY_ARRAY \<and> length os1 = 8)"
          using parse_Waiting [OF Waiting] w(1) by auto
        then have "resting J ?r h1 ty' os1"
          using reading_rebuf(1) [OF w(2) d(2)] w(4) by (simp add: resting_def)
        then have "delivers J (parse ty (pending r) (erase os)) REDIS_OK ?r h1 0"
          unfolding delivers_def Waiting using w(1,3) d(3) by auto
        with g loop(2) r0(4) show ?thesis by auto
      next
        case (Parsed w q)
        with st have w: "idle r1" "pending r1 = q" "J h1 (r_reply r1) (Complete w)"
          by (auto simp: stopped_def)
        then have "buf_ok r1" by (simp add: idle_def)
        from discard_spec [OF this] obtain s p n where d:
          "discard r1 = Some (r1\<lparr>r_buf := s, r_pos := p, r_len := n\<rparr>)"
          "buf_ok (r1\<lparr>r_buf := s, r_pos := p, r_len := n\<rparr>)"
          "pending (r1\<lparr>r_buf := s, r_pos := p, r_len := n\<rparr>) = pending r1" by blast
        let ?r = "r1\<lparr>r_buf := s, r_pos := p, r_len := n\<rparr>"
        have "r_err r1 = 0" "r_ridx r1 = - 1" using w(1) by (auto simp: idle_def)
        then have g: "redisReaderGetReply r h = Some (REDIS_OK, ?r\<lparr>r_reply := 0\<rparr>, h1, r_reply r1)"
          using err False loop(1) d(1) by (simp add: code)
        have "idle (?r\<lparr>r_reply := 0\<rparr>)" using reading_rebuf(2) [OF w(1) d(2)] d(2) by (simp add: idle_def)
        then have "delivers J (parse ty (pending r) (erase os)) REDIS_OK (?r\<lparr>r_reply := 0\<rparr>) h1 (r_reply r1)"
          unfolding delivers_def Parsed using w(2,3) d(3) by simp
        with g loop(2) r0(4) show ?thesis by auto
      qed
    qed
  qed
qed

end

section \<open>Feeding\<close>

lemma resting_buf: "resting J r h ty os \<Longrightarrow> buf_ok r \<and> r_err r = 0"
  by (auto simp: resting_def idle_def reading_def)

lemma resting_rebuf:
  assumes "resting J r h ty os" "buf_ok (r\<lparr>r_buf := s, r_pos := p, r_len := n\<rparr>)"
  shows "resting J (r\<lparr>r_buf := s, r_pos := p, r_len := n\<rparr>) h ty os"
  using assms reading_rebuf(1) [where r = r and s = s and p = p and n = n]
    reading_rebuf(2) [where r = r and s = s and p = p and n = n]
  unfolding resting_def by auto

lemma Feed_ok:
  assumes rest: "resting J r h ty os" and n: "n \<le> length p" "r_len r + n < 2 ^ 31"
    and A: "\<And>k. grants A k"
  shows "\<exists>s q l. redisReaderFeed A r h (Ptr p) n = Some (REDIS_OK, r\<lparr>r_buf := s, r_pos := q, r_len := l\<rparr>, h) \<and>
    resting J (r\<lparr>r_buf := s, r_pos := q, r_len := l\<rparr>) h ty os \<and>
    pending (r\<lparr>r_buf := s, r_pos := q, r_len := l\<rparr>) = pending r @ take n p"
proof -
  obtain s where s: "r_buf r = Ptr s" "sds_ok s" "r_len r = sdslen s" "r_pos r \<le> r_len r" "r_len r < 2 ^ 31"
    using resting_buf [OF rest] by (auto simp: buf_ok_def)
  have err: "r_err r = 0" using resting_buf [OF rest] by simp
  show ?thesis
  proof (cases "n = 0")
    case True
    then have "redisReaderFeed A r h (Ptr p) n =
        Some (REDIS_OK, r\<lparr>r_buf := r_buf r, r_pos := r_pos r, r_len := r_len r\<rparr>, h)"
      using err by (simp add: redisReaderFeed_def)
    moreover have "r\<lparr>r_buf := r_buf r, r_pos := r_pos r, r_len := r_len r\<rparr> = r" by simp
    ultimately show ?thesis using rest True by (metis append_Nil2 take0)
  next
    case False
    have go: ?thesis
      if s1: "sds_ok s1" "sdslen s1 + n < 2 ^ 31" "q \<le> sdslen s1"
        and pe: "drop q (sds_str s1) = pending r"
        and code: "redisReaderFeed A r h (Ptr p) n = do {
          newbuf \<leftarrow> sdscatlen A s1 p n;
          (case newbuf of
             Failed old \<Rightarrow> fail_with (redisReaderSetErrorOOM (r\<lparr>r_pos := q, r_buf := old\<rparr>) h)
           | Moved s \<Rightarrow> Some (REDIS_OK, r\<lparr>r_pos := q, r_buf := Ptr s, r_len := sdslen s\<rparr>, h)) }"
      for s1 q
    proof -
      have sm: "sdslen s1 + n < 2 ^ 63" using s1(2) by simp
      obtain s2 where s2: "sdscatlen A s1 p n = Some (Moved s2)"
        using sdscatlen_granted [OF s1(1) n(1) sm A] by blast
      then have ok2: "sds_ok s2" "sds_str s2 = sds_str s1 @ take n p" "sdslen s2 = sdslen s1 + n"
        by (cases rule: sdscatlen_cases [OF s1(1) n(1) sm, of A]; simp)+
      let ?r = "r\<lparr>r_buf := Ptr s2, r_pos := q, r_len := sdslen s2\<rparr>"
      have "buf_ok ?r" using ok2 s1 by (auto simp: buf_ok_def)
      then have "resting J ?r h ty os" by (rule resting_rebuf [OF rest])
      moreover have "pending ?r = pending r @ take n p"
        using ok2 s1(1,3) pe by (simp add: pending_def length_sds_str)
      moreover have "redisReaderFeed A r h (Ptr p) n = Some (REDIS_OK, ?r, h)"
        unfolding code s2 by simp
      ultimately show ?thesis by blast
    qed
    show ?thesis
    proof (cases "r_len r = 0 \<and> r_maxbuf r \<noteq> 0 \<and> sdsavail s > r_maxbuf r")
      case True
      obtain e where e: "sdsempty A = Some (Ptr e)" "sds_ok e" "sds_str e = []"
        using sdsempty_granted [OF A] by blast
      have "sdslen e = 0" using length_sds_str [OF e(2)] e(3) by simp
      moreover have "pending r = []" using True s by (simp add: pending_def sds_str_def)
      ultimately show ?thesis
        using e s n False True err
        by (intro go [of e 0]) (simp_all add: redisReaderFeed_def sdsfree_def)
    next
      case keep: False
      show ?thesis
        using s n False keep err
        by (intro go [of s "r_pos r"]) (auto simp: redisReaderFeed_def pending_def)
    qed
  qed
qed

text \<open>After a call that succeeds, less than 1024 bytes of the buffer are consumed.\<close>

lemma discard_pos: "discard r = Some r' \<Longrightarrow> r_pos r' < 1024"
  by (auto simp: discard_def bind_eq_Some_conv split: if_splits)

lemma GetReply_pos:
  fixes r :: "'h redisReader"
  assumes "redisReaderGetReply r h = Some (rc, r', h', a)" "rc = REDIS_OK" "buf_ok r"
  shows "r_pos r' < 1024"
proof (cases "r_len r = 0")
  case True
  with assms show ?thesis
    by (auto simp: redisReaderGetReply_def buf_ok_def redis_err_defs split: if_splits)
next
  case False
  then obtain r1 r2 :: "'h redisReader" where "discard r1 = Some r2" "r_pos r' = r_pos r2"
    using assms
    by (auto simp: GetReply_discard redis_err_defs bind_eq_Some_conv split: if_splits prod.splits)
  then show ?thesis using discard_pos by simp
qed

end
