(* ===== verification/Reply.thy ===== *)
theory Reply
  imports Reader_Correct
begin

text \<open>
  The reply objects of \<^verbatim>\<open>lib/hiredis/hiredis.c\<close>: the default callbacks of the reader, which
  build a tree of \<^verbatim>\<open>redisReply\<close> structures on the heap, and \<^verbatim>\<open>freeReplyObject\<close>, which
  frees one. They keep the contract of the reader, so its theorems hold for them.
\<close>

section \<open>Data (hiredis.h) and the heap\<close>

record redisReply =
  rep_type :: int
  rep_integer :: int
  rep_len :: nat
  rep_str :: "bytes ptr"
  rep_elements :: nat
  rep_element :: "addr list ptr"

text \<open>
  The live replies, and the address that the allocator returns next; the blocks for the
  characters and the elements belong to their reply.
\<close>

record heap =
  cells :: "addr \<Rightarrow> redisReply option"
  next_addr :: addr

definition empty_heap :: heap where
  "empty_heap = \<lparr>cells = Map.empty, next_addr = 1\<rparr>"

definition cell :: "heap \<Rightarrow> addr \<Rightarrow> redisReply option" where
  "cell h a = cells h a"

definition set_cell :: "heap \<Rightarrow> addr \<Rightarrow> redisReply \<Rightarrow> heap" where
  "set_cell h a c = h\<lparr>cells := (cells h)(a \<mapsto> c)\<rparr>"

definition free_cell :: "heap \<Rightarrow> addr \<Rightarrow> heap" where
  "free_cell h a = h\<lparr>cells := (cells h)(a := None)\<rparr>"

section \<open>Creating and freeing replies (hiredis.c)\<close>

definition createReplyObject :: "allocator \<Rightarrow> int \<Rightarrow> heap \<Rightarrow> (addr \<times> heap) option" where
  "createReplyObject A type h =
     (if grants A 48
      then Some (next_addr h,
        (set_cell h (next_addr h) \<lparr>rep_type = type, rep_integer = 0, rep_len = 0, rep_str = Null,
           rep_elements = 0, rep_element = Null\<rparr>)\<lparr>next_addr := next_addr h + 1\<rparr>)
      else Some (0, h))"

text \<open>The loop over the elements, with the recursive call as an argument.\<close>

primrec free_each :: "(addr \<Rightarrow> heap \<Rightarrow> heap option) \<Rightarrow> addr list \<Rightarrow> heap \<Rightarrow> heap option" where
  "free_each f [] h = Some h"
| "free_each f (a # as) h = do { h \<leftarrow> f a h; free_each f as h }"

lemma free_each_mono [partial_function_mono]:
  assumes "\<And>a h. mono_option (\<lambda>f. F f a h)"
  shows "mono_option (\<lambda>f. free_each (F f) as h)"
proof (induction as arbitrary: h)
  case Nil
  show ?case by (simp add: option.const_mono)
next
  case (Cons a as)
  show ?case unfolding free_each.simps
    by (intro bind_mono assms Cons)
qed

text \<open>
  \<^verbatim>\<open>freeReplyObject\<close>: freeing an address where no reply lives is undefined, and so is a
  walk that never ends.
\<close>

partial_function (option) freeReplyObject :: "addr \<Rightarrow> heap \<Rightarrow> heap option" where
  "freeReplyObject a h =
     (if a = 0 then Some h
      else do {
        r \<leftarrow> cell h a;
        h \<leftarrow>
          (if rep_type r = REDIS_REPLY_ARRAY then
             (case rep_element r of
                Null \<Rightarrow> Some h
              | Dangling \<Rightarrow> None
              | Ptr es \<Rightarrow>
                  if rep_elements r \<le> length es
                  then free_each (\<lambda>a h. freeReplyObject a h) (take (rep_elements r) es) h
                  else None)
           else if rep_type r = REDIS_REPLY_ERROR \<or> rep_type r = REDIS_REPLY_STATUS
             \<or> rep_type r = REDIS_REPLY_STRING
           then do { _ \<leftarrow> free_ptr (rep_str r); Some h }
           else Some h);
        _ \<leftarrow> cell h a;
        Some (free_cell h a)
      })"

text \<open>\<^verbatim>\<open>parent->element[task->idx] = r\<close>, with the assertion on the parent.\<close>

definition attach :: "redisReadTask \<Rightarrow> redisReadTask option \<Rightarrow> addr \<Rightarrow> heap \<Rightarrow> heap option" where
  "attach task parent r h =
     (if t_parent task = None then Some h
      else do {
        p \<leftarrow> parent;
        c \<leftarrow> cell h (t_obj p);
        if rep_type c \<noteq> REDIS_REPLY_ARRAY then None
        else do {
          es \<leftarrow> deref (rep_element c);
          if 0 \<le> t_idx task \<and> nat (t_idx task) < length es
          then Some (set_cell h (t_obj p) (c\<lparr>rep_element := Ptr (es[nat (t_idx task) := r])\<rparr>))
          else None
        }
      })"

definition createStringObject ::
  "allocator \<Rightarrow> redisReadTask \<Rightarrow> redisReadTask option \<Rightarrow> bytes \<Rightarrow> nat \<Rightarrow> heap \<Rightarrow> (addr \<times> heap) option" where
  "createStringObject A task parent str len h = do {
     (r, h) \<leftarrow> createReplyObject A (t_type task) h;
     if r = 0 then Some (0, h)
     else if \<not> grants A (size_t (len + 1))
     then do { h \<leftarrow> freeReplyObject r h; Some (0, h) }
     else if t_type task \<noteq> REDIS_REPLY_ERROR \<and> t_type task \<noteq> REDIS_REPLY_STATUS
       \<and> t_type task \<noteq> REDIS_REPLY_STRING
     then None
     else do {
       src \<leftarrow> mem_read str 0 len;
       c \<leftarrow> cell h r;
       h \<leftarrow> attach task parent r (set_cell h r (c\<lparr>rep_str := Ptr (src @ [NUL]), rep_len := len\<rparr>));
       Some (r, h)
     }
   }"

definition createArrayObject ::
  "allocator \<Rightarrow> redisReadTask \<Rightarrow> redisReadTask option \<Rightarrow> int \<Rightarrow> heap \<Rightarrow> (addr \<times> heap) option" where
  "createArrayObject A task parent elements h = do {
     (r, h) \<leftarrow> createReplyObject A REDIS_REPLY_ARRAY h;
     if r = 0 then Some (0, h)
     else if elements > 0 \<and> \<not> grants A (nat elements * 8)
     then do { h \<leftarrow> freeReplyObject r h; Some (0, h) }
     else do {
       c \<leftarrow> cell h r;
       let c = (if elements > 0 then c\<lparr>rep_element := Ptr (replicate (nat elements) 0)\<rparr> else c);
       h \<leftarrow> attach task parent r (set_cell h r (c\<lparr>rep_elements := nat elements\<rparr>));
       Some (r, h)
     }
   }"

definition createIntegerObject ::
  "allocator \<Rightarrow> redisReadTask \<Rightarrow> redisReadTask option \<Rightarrow> int \<Rightarrow> heap \<Rightarrow> (addr \<times> heap) option" where
  "createIntegerObject A task parent value h = do {
     (r, h) \<leftarrow> createReplyObject A REDIS_REPLY_INTEGER h;
     if r = 0 then Some (0, h)
     else do {
       c \<leftarrow> cell h r;
       h \<leftarrow> attach task parent r (set_cell h r (c\<lparr>rep_integer := value\<rparr>));
       Some (r, h)
     }
   }"

definition createNilObject ::
  "allocator \<Rightarrow> redisReadTask \<Rightarrow> redisReadTask option \<Rightarrow> heap \<Rightarrow> (addr \<times> heap) option" where
  "createNilObject A task parent h = do {
     (r, h) \<leftarrow> createReplyObject A REDIS_REPLY_NIL h;
     if r = 0 then Some (0, h)
     else do {
       h \<leftarrow> attach task parent r h;
       Some (r, h)
     }
   }"

definition defaultFunctions :: "allocator \<Rightarrow> heap redisReplyObjectFunctions" where
  "defaultFunctions A = functions_of (createStringObject A) (createArrayObject A)
     (createIntegerObject A) (createNilObject A) freeReplyObject"

definition redisReaderCreate :: "allocator \<Rightarrow> heap redisReader ptr option" where
  "redisReaderCreate A = redisReaderCreateWithFunctions A (Some (defaultFunctions A))"

end
