(* ===== verification/Net.thy ===== *)
theory Net
  imports Reply "HOL-Library.Signed_Division"
begin

unbundle bit_operations_syntax

text \<open>
  The socket layer, \<^verbatim>\<open>lib/hiredis/net.c\<close>, and the type \<^verbatim>\<open>redisContext\<close> it works on: opening a
  connection over TCP or a Unix socket, socket options, timeouts, and reading, writing and
  closing. The platform is Linux with glibc, and the build the default one, without SSL.
\<close>

section \<open>The operating system\<close>

text \<open>
  What the operating system answers is a script. For \<^verbatim>\<open>recv\<close> and \<^verbatim>\<open>send\<close>: the pieces of the
  incoming stream, an empty piece for its end, and errors; how much of the data is accepted, and
  errors. For all other calls: their results in the order of the calls. A call that has no answer
  never returns. \<^theory_text>\<open>n_sent\<close> is what was accepted so far, \<^theory_text>\<open>n_calls\<close> the calls made, the last one
  first, \<^theory_text>\<open>n_open\<close> the open descriptors, and \<^theory_text>\<open>n_infos\<close> the number of address lists of
  \<^verbatim>\<open>getaddrinfo\<close> that are not freed yet.
\<close>

datatype recv_outcome = Received bytes | RecvError nat
datatype send_outcome = Accepted nat | SendError nat

record timeval =
  tv_sec :: int
  tv_usec :: int

record addrinfo =
  ai_family :: int
  ai_addr :: bytes

datatype sockopt = SO_REUSEADDR | SO_KEEPALIVE | SO_RCVTIMEO | SO_SNDTIMEO
  | TCP_KEEPIDLE | TCP_KEEPINTVL | TCP_KEEPCNT | TCP_NODELAY
datatype optval = Int_value int | Time_value timeval

datatype syscall =
    Socket int
  | Close int
  | Get_flags int
  | Set_flags int int
  | Set_option int sockopt optval
  | Get_error int
  | Get_addresses "bytes ptr" "bytes option" int
  | Bind int bytes
  | Connect int "bytes ptr"
  | Poll int int

datatype answer = Result nat | Failure nat | Addresses "addrinfo list" | No_addresses int

record net =
  n_in :: "recv_outcome list"
  n_out :: "send_outcome list"
  n_sent :: bytes
  n_sys :: "answer list"
  n_calls :: "syscall list"
  n_open :: "int list"
  n_infos :: nat
  n_errno :: nat

definition EINTR :: nat where "EINTR = 4"
definition EWOULDBLOCK :: nat where "EWOULDBLOCK = 11"
definition EADDRNOTAVAIL :: nat where "EADDRNOTAVAIL = 99"
definition EISCONN :: nat where "EISCONN = 106"
definition ETIMEDOUT :: nat where "ETIMEDOUT = 110"
definition EHOSTUNREACH :: nat where "EHOSTUNREACH = 113"
definition EALREADY :: nat where "EALREADY = 114"
definition EINPROGRESS :: nat where "EINPROGRESS = 115"

lemmas errno_defs = EINTR_def EWOULDBLOCK_def EADDRNOTAVAIL_def EISCONN_def ETIMEDOUT_def
  EHOSTUNREACH_def EALREADY_def EINPROGRESS_def

definition AF_UNIX :: int where "AF_UNIX = 1"
definition AF_INET :: int where "AF_INET = 2"
definition AF_INET6 :: int where "AF_INET6 = 10"

definition os_recv :: "nat \<Rightarrow> net \<Rightarrow> (recv_outcome \<times> net) option" where
  "os_recv cap n = (case n_in n of
     [] \<Rightarrow> None
   | Received bs # rest \<Rightarrow>
       Some (Received (take cap bs),
         n\<lparr>n_in := (if length bs \<le> cap then rest else Received (drop cap bs) # rest)\<rparr>)
   | RecvError e # rest \<Rightarrow> Some (RecvError e, n\<lparr>n_in := rest, n_errno := e\<rparr>))"

text \<open>One \<^verbatim>\<open>send\<close> accepts at most \<^theory_text>\<open>0x7ffff000\<close> bytes.\<close>

definition os_send :: "bytes \<Rightarrow> net \<Rightarrow> (send_outcome \<times> net) option" where
  "os_send src n = (case n_out n of
     [] \<Rightarrow> None
   | Accepted k # rest \<Rightarrow>
       let m = min k (min (length src) 0x7ffff000)
       in Some (Accepted m, n\<lparr>n_out := rest, n_sent := n_sent n @ take m src\<rparr>)
   | SendError e # rest \<Rightarrow> Some (SendError e, n\<lparr>n_out := rest, n_errno := e\<rparr>))"

text \<open>
  The other calls. A failed call sets \<^verbatim>\<open>errno\<close> to a positive number; one that returns a number
  returns -1 then.
\<close>

definition os_call :: "syscall \<Rightarrow> net \<Rightarrow> (answer \<times> net) option" where
  "os_call s n = (case n_sys n of
     [] \<Rightarrow> None
   | a # rest \<Rightarrow>
       let n = n\<lparr>n_sys := rest, n_calls := s # n_calls n\<rparr>
       in Some (a, case a of Failure e \<Rightarrow> n\<lparr>n_errno := e\<rparr> | _ \<Rightarrow> n))"

definition os_int :: "syscall \<Rightarrow> net \<Rightarrow> (int \<times> net) option" where
  "os_int s n = do {
     (a, n) \<leftarrow> os_call s n;
     (case a of
        Result r \<Rightarrow> Some (int r, n)
      | Failure e \<Rightarrow> if e = 0 then None else Some (- 1, n)
      | _ \<Rightarrow> None)
   }"

definition os_socket :: "int \<Rightarrow> net \<Rightarrow> (int \<times> net) option" where
  "os_socket family n = do {
     (s, n) \<leftarrow> os_int (Socket family) n;
     Some (s, if s = - 1 then n else n\<lparr>n_open := s # n_open n\<rparr>)
   }"

definition os_close :: "int \<Rightarrow> net \<Rightarrow> net" where
  "os_close fd n = n\<lparr>n_open := remove1 fd (n_open n), n_calls := Close fd # n_calls n\<rparr>"

text \<open>\<^verbatim>\<open>getaddrinfo\<close> gives an error code or at least one address.\<close>

definition os_getaddrinfo :: "bytes ptr \<Rightarrow> bytes option \<Rightarrow> int \<Rightarrow> net \<Rightarrow>
    ((int + addrinfo list) \<times> net) option" where
  "os_getaddrinfo host port family n = do {
     (a, n) \<leftarrow> os_call (Get_addresses host port family) n;
     (case a of
        Addresses as \<Rightarrow>
          if as = [] then None else Some (Inr as, n\<lparr>n_infos := Suc (n_infos n)\<rparr>)
      | No_addresses rv \<Rightarrow> Some (Inl rv, n)
      | _ \<Rightarrow> None)
   }"

definition os_freeaddrinfo :: "net \<Rightarrow> net option" where
  "os_freeaddrinfo n =
     (if n_infos n = 0 then None else Some (n\<lparr>n_infos := n_infos n - 1\<rparr>))"

section \<open>The context (hiredis.h)\<close>

text \<open>Without SSL the member \<^verbatim>\<open>ssl\<close> is always null; it is left out.\<close>

record redisContext =
  c_err :: int
  c_errstr :: bytes
  c_fd :: int
  c_flags :: "32 word"
  c_obuf :: "sds ptr"
  c_reader :: "heap redisReader ptr"
  c_connection_type :: int
  c_timeout :: "timeval ptr"
  c_host :: "bytes ptr"
  c_source_addr :: "bytes ptr"
  c_port :: int
  c_path :: "bytes ptr"
  c_saddr :: "bytes ptr"
  c_addrlen :: nat

definition REDIS_BLOCK :: "32 word" where "REDIS_BLOCK = 0x1"
definition REDIS_CONNECTED :: "32 word" where "REDIS_CONNECTED = 0x2"
definition REDIS_REUSEADDR :: "32 word" where "REDIS_REUSEADDR = 0x80"
definition REDIS_SSL :: "32 word" where "REDIS_SSL = 0x100"
definition REDIS_NO_AUTO_FREE :: "32 word" where "REDIS_NO_AUTO_FREE = 0x200"
definition REDIS_INVALID_FD :: int where "REDIS_INVALID_FD = - 1"
definition REDIS_CONNECT_RETRIES :: nat where "REDIS_CONNECT_RETRIES = 10"

definition REDIS_CONN_TCP :: int where "REDIS_CONN_TCP = 0"
definition REDIS_CONN_UNIX :: int where "REDIS_CONN_UNIX = 1"
definition REDIS_CONN_USERFD :: int where "REDIS_CONN_USERFD = 2"

definition flag :: "redisContext \<Rightarrow> 32 word \<Rightarrow> bool" where
  "flag c f \<longleftrightarrow> c_flags c AND f \<noteq> 0"

text \<open>The context with the heap of replies and the operating system.\<close>

record conn =
  k_ctx :: redisContext
  k_heap :: heap
  k_net :: net

text \<open>The texts of \<^verbatim>\<open>strerror\<close> and \<^verbatim>\<open>gai_strerror\<close> are parameters.\<close>

record libc =
  strerror :: "nat \<Rightarrow> bytes"
  gai_strerror :: "int \<Rightarrow> bytes"

section \<open>Errors and closing\<close>

text \<open>\<^verbatim>\<open>__redisSetError\<close>: \<^theory_text>\<open>None\<close> is a null description, for which there is a system text.\<close>

definition redisSetError :: "libc \<Rightarrow> nat \<Rightarrow> redisContext \<Rightarrow> int \<Rightarrow> bytes option \<Rightarrow> redisContext option" where
  "redisSetError lc errno c type str = (case str of
     Some s \<Rightarrow> Some (c\<lparr>c_err := type, c_errstr := take 127 s\<rparr>)
   | None \<Rightarrow>
       if type = REDIS_ERR_IO then Some (c\<lparr>c_err := type, c_errstr := take 127 (strerror lc errno)\<rparr>)
       else None)"

definition set_error :: "libc \<Rightarrow> conn \<Rightarrow> int \<Rightarrow> bytes option \<Rightarrow> conn option" where
  "set_error lc k type str = do {
     c \<leftarrow> redisSetError lc (n_errno (k_net k)) (k_ctx k) type str;
     Some (k\<lparr>k_ctx := c\<rparr>)
   }"

text \<open>\<^verbatim>\<open>__redisSetErrorFromErrno\<close> with its buffer of 128 bytes.\<close>

definition redisSetErrorFromErrno :: "libc \<Rightarrow> conn \<Rightarrow> int \<Rightarrow> bytes option \<Rightarrow> conn option" where
  "redisSetErrorFromErrno lc k type prefix =
     (let b = (case prefix of Some p \<Rightarrow> p @ '': '' | None \<Rightarrow> [])
      in set_error lc k type (Some (take 127 (b @ strerror lc (n_errno (k_net k))))))"

definition redisNetClose :: "conn \<Rightarrow> conn" where
  "redisNetClose k =
     (if c_fd (k_ctx k) \<noteq> REDIS_INVALID_FD
      then k\<lparr>k_ctx := (k_ctx k)\<lparr>c_fd := REDIS_INVALID_FD\<rparr>, k_net := os_close (c_fd (k_ctx k)) (k_net k)\<rparr>
      else k)"

text \<open>A failure with a text for \<^verbatim>\<open>errno\<close>, where the socket stays open or is closed.\<close>

definition io_error :: "libc \<Rightarrow> conn \<Rightarrow> bytes option \<Rightarrow> (int \<times> conn) option" where
  "io_error lc k prefix = do {
     k \<leftarrow> redisSetErrorFromErrno lc k REDIS_ERR_IO prefix;
     Some (REDIS_ERR, k)
   }"

definition io_error_close :: "libc \<Rightarrow> conn \<Rightarrow> bytes option \<Rightarrow> (int \<times> conn) option" where
  "io_error_close lc k prefix = do {
     k \<leftarrow> redisSetErrorFromErrno lc k REDIS_ERR_IO prefix;
     Some (REDIS_ERR, redisNetClose k)
   }"

text \<open>A call on the descriptor of the context.\<close>

definition call :: "conn \<Rightarrow> (int \<Rightarrow> syscall) \<Rightarrow> (int \<times> conn) option" where
  "call k f = do {
     (r, n) \<leftarrow> os_int (f (c_fd (k_ctx k))) (k_net k);
     Some (r, k\<lparr>k_net := n\<rparr>)
   }"

text \<open>\<^verbatim>\<open>connect\<close> returns 0 or -1.\<close>

definition os_connect :: "conn \<Rightarrow> bytes ptr \<Rightarrow> (int \<times> conn) option" where
  "os_connect k addr = do {
     (r, k) \<leftarrow> call k (\<lambda>fd. Connect fd addr);
     if r > 0 then None else Some (r, k)
   }"

section \<open>Reading and writing\<close>

text \<open>\<^verbatim>\<open>redisNetRead\<close>: the return value and the bytes in the buffer.\<close>

definition redisNetRead :: "libc \<Rightarrow> conn \<Rightarrow> nat \<Rightarrow> (int \<times> bytes \<times> conn) option" where
  "redisNetRead lc k bufcap = do {
     (res, n) \<leftarrow> os_recv bufcap (k_net k);
     let k = k\<lparr>k_net := n\<rparr>;
     (case res of
        RecvError e \<Rightarrow>
          if (e = EWOULDBLOCK \<and> \<not> flag (k_ctx k) REDIS_BLOCK) \<or> e = EINTR then Some (0, [], k)
          else do {
            k \<leftarrow> set_error lc k REDIS_ERR_IO None;
            Some (- 1, [], k)
          }
      | Received bs \<Rightarrow>
          if bs = [] then do {
            k \<leftarrow> set_error lc k REDIS_ERR_EOF (Some ''Server closed the connection'');
            Some (- 1, [], k)
          }
          else Some (int (length bs), bs, k))
   }"

definition redisNetWrite :: "libc \<Rightarrow> conn \<Rightarrow> (int \<times> conn) option" where
  "redisNetWrite lc k = do {
     s \<leftarrow> deref (c_obuf (k_ctx k));
     src \<leftarrow> mem_read (buf s) 0 (sdslen s);
     (res, n) \<leftarrow> os_send src (k_net k);
     let k = k\<lparr>k_net := n\<rparr>;
     (case res of
        SendError e \<Rightarrow>
          if (e = EWOULDBLOCK \<and> \<not> flag (k_ctx k) REDIS_BLOCK) \<or> e = EINTR then Some (- 1, k)
          else do {
            k \<leftarrow> set_error lc k REDIS_ERR_IO None;
            Some (- 1, k)
          }
      | Accepted m \<Rightarrow> Some (int m, k))
   }"

section \<open>Socket options\<close>

definition redisSetReuseAddr :: "libc \<Rightarrow> conn \<Rightarrow> (int \<times> conn) option" where
  "redisSetReuseAddr lc k = do {
     (r, k) \<leftarrow> call k (\<lambda>fd. Set_option fd SO_REUSEADDR (Int_value 1));
     if r = - 1 then io_error_close lc k None else Some (REDIS_OK, k)
   }"

definition redisCreateSocket :: "libc \<Rightarrow> conn \<Rightarrow> int \<Rightarrow> (int \<times> conn) option" where
  "redisCreateSocket lc k type = do {
     (s, n) \<leftarrow> os_socket type (k_net k);
     let k = k\<lparr>k_net := n\<rparr>;
     if s = REDIS_INVALID_FD then io_error lc k None
     else do {
       let k = k\<lparr>k_ctx := (k_ctx k)\<lparr>c_fd := s\<rparr>\<rparr>;
       if type = AF_INET then redisSetReuseAddr lc k else Some (REDIS_OK, k)
     }
   }"

definition O_NONBLOCK :: int where "O_NONBLOCK = 0x800"

definition redisSetBlocking :: "libc \<Rightarrow> conn \<Rightarrow> bool \<Rightarrow> (int \<times> conn) option" where
  "redisSetBlocking lc k blocking = do {
     (flags, k) \<leftarrow> call k Get_flags;
     if flags = - 1 then io_error_close lc k (Some ''fcntl(F_GETFL)'')
     else do {
       let flags = (if blocking then flags AND NOT O_NONBLOCK else flags OR O_NONBLOCK);
       (r, k) \<leftarrow> call k (\<lambda>fd. Set_flags fd flags);
       if r = - 1 then io_error_close lc k (Some ''fcntl(F_SETFL)'') else Some (REDIS_OK, k)
     }
   }"

text \<open>One call of \<^verbatim>\<open>redisKeepAlive\<close>; on failure the error has no prefix.\<close>

definition keep_option :: "libc \<Rightarrow> conn \<Rightarrow> sockopt \<Rightarrow> int \<Rightarrow> (int \<times> conn) option" where
  "keep_option lc k opt val = do {
     (r, k) \<leftarrow> call k (\<lambda>fd. Set_option fd opt (Int_value val));
     if r < 0 then do {
       k \<leftarrow> set_error lc k REDIS_ERR_OTHER (Some (strerror lc (n_errno (k_net k))));
       Some (REDIS_ERR, k)
     }
     else Some (REDIS_OK, k)
   }"

definition redisKeepAlive :: "libc \<Rightarrow> conn \<Rightarrow> int \<Rightarrow> (int \<times> conn) option" where
  "redisKeepAlive lc k interval = do {
     (rc, k) \<leftarrow> keep_option lc k SO_KEEPALIVE 1;
     if rc \<noteq> REDIS_OK then Some (REDIS_ERR, k)
     else do {
       (rc, k) \<leftarrow> keep_option lc k TCP_KEEPIDLE interval;
       if rc \<noteq> REDIS_OK then Some (REDIS_ERR, k)
       else do {
         let val = interval sdiv 3;
         let val = (if val = 0 then 1 else val);
         (rc, k) \<leftarrow> keep_option lc k TCP_KEEPINTVL val;
         if rc \<noteq> REDIS_OK then Some (REDIS_ERR, k)
         else keep_option lc k TCP_KEEPCNT 3
       }
     }
   }"

definition redisSetTcpNoDelay :: "libc \<Rightarrow> conn \<Rightarrow> (int \<times> conn) option" where
  "redisSetTcpNoDelay lc k = do {
     (r, k) \<leftarrow> call k (\<lambda>fd. Set_option fd TCP_NODELAY (Int_value 1));
     if r = - 1 then io_error_close lc k (Some ''setsockopt(TCP_NODELAY)'') else Some (REDIS_OK, k)
   }"

definition redisContextSetTimeout :: "libc \<Rightarrow> conn \<Rightarrow> timeval \<Rightarrow> (int \<times> conn) option" where
  "redisContextSetTimeout lc k tv = do {
     (r, k) \<leftarrow> call k (\<lambda>fd. Set_option fd SO_RCVTIMEO (Time_value tv));
     if r = - 1 then io_error lc k (Some ''setsockopt(SO_RCVTIMEO)'')
     else do {
       (r, k) \<leftarrow> call k (\<lambda>fd. Set_option fd SO_SNDTIMEO (Time_value tv));
       if r = - 1 then io_error lc k (Some ''setsockopt(SO_SNDTIMEO)'') else Some (REDIS_OK, k)
     }
   }"

section \<open>Waiting for a connection\<close>

definition MAX_MSEC :: int where "MAX_MSEC = (2 ^ 63 - 1 - 999) sdiv 1000"

text \<open>
  \<^verbatim>\<open>redisContextTimeoutMsec\<close>: the return value and what is stored at \<^verbatim>\<open>result\<close>; undefined when
  the arithmetic on \<^verbatim>\<open>long\<close> overflows.
\<close>

definition redisContextTimeoutMsec :: "redisContext \<Rightarrow> (int \<times> int) option" where
  "redisContextTimeoutMsec c = (case c_timeout c of
     Null \<Rightarrow> Some (REDIS_OK, - 1)
   | Dangling \<Rightarrow> None
   | Ptr tv \<Rightarrow>
       if tv_usec tv > 1000000 \<or> tv_sec tv > MAX_MSEC then Some (REDIS_ERR, - 1)
       else
         let msec = tv_sec tv * 1000 + (tv_usec tv + 999) sdiv 1000
         in if tv_sec tv * 1000 < - (2 ^ 63) \<or> msec < - (2 ^ 63) \<or> msec \<ge> 2 ^ 63 then None
            else Some (REDIS_OK, if msec < 0 \<or> msec > 2 ^ 31 - 1 then 2 ^ 31 - 1 else msec))"

text \<open>\<^verbatim>\<open>redisCheckConnectDone\<close>: the return value and what is stored at \<^verbatim>\<open>completed\<close>, if anything.\<close>

definition redisCheckConnectDone :: "conn \<Rightarrow> (int \<times> int option \<times> conn) option" where
  "redisCheckConnectDone k = do {
     _ \<leftarrow> (if c_saddr (k_ctx k) = Dangling then None else Some ());
     (rc, k) \<leftarrow> os_connect k (c_saddr (k_ctx k));
     let e = n_errno (k_net k);
     Some (if rc = 0 then (REDIS_OK, Some 1, k)
           else if e = EISCONN then (REDIS_OK, Some 1, k)
           else if e = EALREADY \<or> e = EINPROGRESS \<or> e = EWOULDBLOCK then (REDIS_OK, Some 0, k)
           else (REDIS_ERR, None, k))
   }"

definition redisCheckSocketError :: "libc \<Rightarrow> conn \<Rightarrow> (int \<times> conn) option" where
  "redisCheckSocketError lc k = do {
     let errno_saved = n_errno (k_net k);
     (r, k) \<leftarrow> call k Get_error;
     if r = - 1 then io_error lc k (Some ''getsockopt(SO_ERROR)'')
     else do {
       let err = (if r = 0 then errno_saved else nat r);
       if err \<noteq> 0 then io_error lc (k\<lparr>k_net := (k_net k)\<lparr>n_errno := err\<rparr>\<rparr>) None
       else Some (REDIS_OK, k)
     }
   }"

definition redisContextWaitReady :: "libc \<Rightarrow> conn \<Rightarrow> int \<Rightarrow> (int \<times> conn) option" where
  "redisContextWaitReady lc k msec =
     (if n_errno (k_net k) = EINPROGRESS then do {
        (res, k) \<leftarrow> call k (\<lambda>fd. Poll fd msec);
        if res = - 1 then io_error_close lc k (Some ''poll(2)'')
        else if res = 0
        then io_error_close lc (k\<lparr>k_net := (k_net k)\<lparr>n_errno := ETIMEDOUT\<rparr>\<rparr>) None
        else do {
          (rc, completed, k) \<leftarrow> redisCheckConnectDone k;
          if rc \<noteq> REDIS_OK \<or> completed = Some 0 then do {
            (_, k) \<leftarrow> redisCheckSocketError lc k;
            Some (REDIS_ERR, k)
          }
          else Some (REDIS_OK, k)
        }
      }
      else io_error_close lc k None)"

section \<open>Connecting over TCP\<close>

text \<open>
  The arguments that the context keeps for a reconnection. \<^theory_text>\<open>Saved\<close> is the very pointer that
  the context holds, which \<^verbatim>\<open>redisReconnect\<close> passes.
\<close>

datatype 'a arg = NullArg | Saved | Given 'a

definition strdup :: "allocator \<Rightarrow> bytes \<Rightarrow> bytes ptr" where
  "strdup A s = (if grants A (length s + 1) then Ptr s else Null)"

definition save_host :: "allocator \<Rightarrow> redisContext \<Rightarrow> bytes arg \<Rightarrow> redisContext option" where
  "save_host A c addr = (case addr of
     Saved \<Rightarrow> Some c
   | NullArg \<Rightarrow> if c_host c = Null then Some c else None
   | Given s \<Rightarrow> do { _ \<leftarrow> free_ptr (c_host c); Some (c\<lparr>c_host := strdup A s\<rparr>) })"

text \<open>The result of \<^verbatim>\<open>malloc\<close> is not checked: without memory the copy is undefined.\<close>

definition save_timeout :: "allocator \<Rightarrow> redisContext \<Rightarrow> timeval arg \<Rightarrow> redisContext option" where
  "save_timeout A c timeout = (case timeout of
     NullArg \<Rightarrow> do { _ \<leftarrow> free_ptr (c_timeout c); Some (c\<lparr>c_timeout := Null\<rparr>) }
   | Saved \<Rightarrow> Some c
   | Given tv \<Rightarrow>
       if c_timeout c = Dangling \<or> (c_timeout c = Null \<and> \<not> grants A 16) then None
       else Some (c\<lparr>c_timeout := Ptr tv\<rparr>))"

definition save_source :: "allocator \<Rightarrow> redisContext \<Rightarrow> bytes arg \<Rightarrow> redisContext option" where
  "save_source A c source_addr = (case source_addr of
     NullArg \<Rightarrow> do { _ \<leftarrow> free_ptr (c_source_addr c); Some (c\<lparr>c_source_addr := Null\<rparr>) }
   | Saved \<Rightarrow> Some c
   | Given s \<Rightarrow> do { _ \<leftarrow> free_ptr (c_source_addr c); Some (c\<lparr>c_source_addr := strdup A s\<rparr>) })"

text \<open>The pointer that an argument is.\<close>

fun arg_ptr :: "'a ptr \<Rightarrow> 'a arg \<Rightarrow> 'a ptr" where
  "arg_ptr p NullArg = Null"
| "arg_ptr p Saved = p"
| "arg_ptr p (Given x) = Ptr x"

text \<open>The IPv4 addresses of the host, or else its IPv6 addresses; with the family asked for last.\<close>

definition resolve :: "conn \<Rightarrow> bytes arg \<Rightarrow> bytes \<Rightarrow> ((int + addrinfo list) \<times> int \<times> conn) option" where
  "resolve k addr port = do {
     _ \<leftarrow> (if c_host (k_ctx k) = Dangling then None else Some ());
     (r, n) \<leftarrow> os_getaddrinfo (c_host (k_ctx k)) (Some port) AF_INET (k_net k);
     let k = k\<lparr>k_net := n\<rparr>;
     (case r of
        Inr as \<Rightarrow> Some (Inr as, AF_INET, k)
      | Inl _ \<Rightarrow> do {
          (r, n) \<leftarrow> os_getaddrinfo (arg_ptr (c_host (k_ctx k)) addr) (Some port) AF_INET6 (k_net k);
          Some (r, AF_INET6, k\<lparr>k_net := n\<rparr>)
        })
   }"

text \<open>The first address of a list that the socket can be bound to.\<close>

fun bind_any :: "conn \<Rightarrow> addrinfo list \<Rightarrow> (bool \<times> conn) option" where
  "bind_any k [] = Some (False, k)"
| "bind_any k (b # bs) = do {
     (r, k) \<leftarrow> call k (\<lambda>fd. Bind fd (ai_addr b));
     if r \<noteq> - 1 then Some (True, k) else bind_any k bs
   }"

text \<open>Binding to the source address, if one is given: false for the jump to \<^verbatim>\<open>error\<close>.\<close>

definition bind_source :: "libc \<Rightarrow> conn \<Rightarrow> int \<Rightarrow> bool \<Rightarrow> (bool \<times> conn) option" where
  "bind_source lc k family reuseaddr = (case c_source_addr (k_ctx k) of
     Null \<Rightarrow> Some (True, k)
   | Dangling \<Rightarrow> None
   | Ptr src \<Rightarrow> do {
       (r, n) \<leftarrow> os_getaddrinfo (Ptr src) None family (k_net k);
       let k = k\<lparr>k_net := n\<rparr>;
       (case r of
          Inl rv \<Rightarrow> do {
            k \<leftarrow> set_error lc k REDIS_ERR_OTHER (Some (take 127 (''Can'' @ CHR 0x27 # ''t get addr: '' @ gai_strerror lc rv)));
            Some (False, k)
          }
        | Inr bs \<Rightarrow> do {
            (n, k) \<leftarrow> (if reuseaddr then call k (\<lambda>fd. Set_option fd SO_REUSEADDR (Int_value 1))
                       else Some (0, k));
            if n < 0 then do {
              n \<leftarrow> os_freeaddrinfo (k_net k);
              Some (False, k\<lparr>k_net := n\<rparr>)
            }
            else do {
              (bound, k) \<leftarrow> bind_any k bs;
              n \<leftarrow> os_freeaddrinfo (k_net k);
              let k = k\<lparr>k_net := n\<rparr>;
              if \<not> bound then do {
                k \<leftarrow> set_error lc k REDIS_ERR_OTHER
                  (Some (take 127 (''Can'' @ CHR 0x27 # ''t bind socket: '' @ strerror lc (n_errno (k_net k)))));
                Some (False, k)
              }
              else Some (True, k)
            }
          })
     })"

text \<open>How one round of the loop over the addresses ends.\<close>

datatype attempt = Next_address | Same_address | Give_up | Connected

text \<open>The end of a round, once \<^verbatim>\<open>connect\<close> has succeeded or is in progress.\<close>

definition connected :: "libc \<Rightarrow> conn \<Rightarrow> bool \<Rightarrow> (attempt \<times> conn) option" where
  "connected lc k blocking = do {
     (rc, k) \<leftarrow> (if blocking then redisSetBlocking lc k True else Some (REDIS_OK, k));
     if rc \<noteq> REDIS_OK then Some (Give_up, k)
     else do {
       (rc, k) \<leftarrow> redisSetTcpNoDelay lc k;
       if rc \<noteq> REDIS_OK then Some (Give_up, k)
       else Some (Connected, k\<lparr>k_ctx := (k_ctx k)\<lparr>c_flags := c_flags (k_ctx k) OR REDIS_CONNECTED\<rparr>\<rparr>)
     }
   }"

text \<open>The address is kept for \<^verbatim>\<open>redisCheckConnectDone\<close>.\<close>

definition save_addr :: "allocator \<Rightarrow> conn \<Rightarrow> bytes \<Rightarrow> conn option" where
  "save_addr A k addr = do {
     _ \<leftarrow> free_ptr (c_saddr (k_ctx k));
     if grants A (length addr)
     then Some (k\<lparr>k_ctx := (k_ctx k)\<lparr>c_saddr := Ptr addr, c_addrlen := length addr\<rparr>\<rparr>)
     else None
   }"

definition try_address :: "allocator \<Rightarrow> libc \<Rightarrow> int \<Rightarrow> bool \<Rightarrow> bool \<Rightarrow> int \<Rightarrow> conn \<Rightarrow> addrinfo \<Rightarrow> nat \<Rightarrow>
    (attempt \<times> conn) option" where
  "try_address A lc family blocking reuseaddr msec k p reuses = do {
     (s, n) \<leftarrow> os_socket (ai_family p) (k_net k);
     let k = k\<lparr>k_net := n\<rparr>;
     if s = REDIS_INVALID_FD then Some (Next_address, k)
     else do {
       let k = k\<lparr>k_ctx := (k_ctx k)\<lparr>c_fd := s\<rparr>\<rparr>;
       (rc, k) \<leftarrow> redisSetBlocking lc k False;
       if rc \<noteq> REDIS_OK then Some (Give_up, k)
       else do {
         (ok, k) \<leftarrow> bind_source lc k family reuseaddr;
         if \<not> ok then Some (Give_up, k)
         else do {
           k \<leftarrow> save_addr A k (ai_addr p);
           (r, k) \<leftarrow> os_connect k (Ptr (ai_addr p));
           let e = n_errno (k_net k);
           if r = - 1 then
             if e = EHOSTUNREACH then Some (Next_address, redisNetClose k)
             else if e = EINPROGRESS \<and> \<not> blocking then connected lc k blocking
             else if e = EADDRNOTAVAIL \<and> reuseaddr then
               if Suc reuses \<ge> REDIS_CONNECT_RETRIES then Some (Give_up, k)
               else Some (Same_address, redisNetClose k)
             else do {
               (rc, k) \<leftarrow> redisContextWaitReady lc k msec;
               if rc \<noteq> REDIS_OK then Some (Give_up, k) else connected lc k blocking
             }
           else connected lc k blocking
         }
       }
     }
   }"

text \<open>
  The loop over the addresses; \<^theory_text>\<open>reuses\<close> counts the repetitions, of which a loop makes fewer
  than \<^verbatim>\<open>REDIS_CONNECT_RETRIES\<close>. The result is the value of \<^verbatim>\<open>rv\<close>.
\<close>

function connect_loop :: "allocator \<Rightarrow> libc \<Rightarrow> int \<Rightarrow> bool \<Rightarrow> bool \<Rightarrow> int \<Rightarrow> conn \<Rightarrow> addrinfo list \<Rightarrow> nat \<Rightarrow>
    (int \<times> conn) option" where
  "connect_loop A lc family blocking reuseaddr msec k [] reuses = do {
     k \<leftarrow> set_error lc k REDIS_ERR_OTHER
       (Some (take 127 (''Can'' @ CHR 0x27 # ''t create socket: '' @ strerror lc (n_errno (k_net k)))));
     Some (REDIS_ERR, k)
   }"
| "connect_loop A lc family blocking reuseaddr msec k (p # ps) reuses =
     (case try_address A lc family blocking reuseaddr msec k p reuses of
        None \<Rightarrow> None
      | Some (Next_address, k) \<Rightarrow> connect_loop A lc family blocking reuseaddr msec k ps reuses
      | Some (Same_address, k) \<Rightarrow>
          if reuses < REDIS_CONNECT_RETRIES
          then connect_loop A lc family blocking reuseaddr msec k (p # ps) (Suc reuses) else None
      | Some (Give_up, k) \<Rightarrow> Some (REDIS_ERR, k)
      | Some (Connected, k) \<Rightarrow> Some (REDIS_OK, k))"
  by pat_completeness auto
termination
  by (relation "(\<lambda>(A, lc, family, blocking, reuseaddr, msec, k, ps, reuses). length ps)
      <*mlex*> measure (\<lambda>(A, lc, family, blocking, reuseaddr, msec, k, ps, reuses). REDIS_CONNECT_RETRIES - reuses)")
    (auto simp: mlex_prod_def)

definition redisContextConnectBindTcp :: "allocator \<Rightarrow> libc \<Rightarrow> conn \<Rightarrow> bytes arg \<Rightarrow> int \<Rightarrow> timeval arg \<Rightarrow>
    bytes arg \<Rightarrow> (int \<times> conn) option" where
  "redisContextConnectBindTcp A lc k addr port timeout source_addr = do {
     let blocking = flag (k_ctx k) REDIS_BLOCK;
     let reuseaddr = flag (k_ctx k) REDIS_REUSEADDR;
     let c = (k_ctx k)\<lparr>c_connection_type := REDIS_CONN_TCP, c_port := port\<rparr>;
     c \<leftarrow> save_host A c addr;
     c \<leftarrow> save_timeout A c timeout;
     (rc, msec) \<leftarrow> redisContextTimeoutMsec c;
     if rc \<noteq> REDIS_OK then do {
       k \<leftarrow> set_error lc (k\<lparr>k_ctx := c\<rparr>) REDIS_ERR_IO (Some ''Invalid timeout specified'');
       Some (REDIS_ERR, k)
     }
     else do {
       c \<leftarrow> save_source A c source_addr;
       (r, family, k) \<leftarrow> resolve (k\<lparr>k_ctx := c\<rparr>) addr (take 5 (sdec port));
       (case r of
          Inl rv \<Rightarrow> do {
            k \<leftarrow> set_error lc k REDIS_ERR_OTHER (Some (gai_strerror lc rv));
            Some (REDIS_ERR, k)
          }
        | Inr servinfo \<Rightarrow> do {
            (rv, k) \<leftarrow> connect_loop A lc family blocking reuseaddr msec k servinfo 0;
            n \<leftarrow> os_freeaddrinfo (k_net k);
            Some (rv, k\<lparr>k_net := n\<rparr>)
          })
     }
   }"

definition redisContextConnectTcp :: "allocator \<Rightarrow> libc \<Rightarrow> conn \<Rightarrow> bytes arg \<Rightarrow> int \<Rightarrow> timeval arg \<Rightarrow>
    (int \<times> conn) option" where
  "redisContextConnectTcp A lc k addr port timeout =
     redisContextConnectBindTcp A lc k addr port timeout NullArg"

section \<open>Connecting over a Unix socket\<close>

text \<open>
  The address is the path, cut to the 107 characters that \<^verbatim>\<open>strncpy\<close> copies. The previous values
  of \<^verbatim>\<open>path\<close> and \<^verbatim>\<open>saddr\<close> are overwritten, not freed.
\<close>

definition redisContextConnectUnix :: "allocator \<Rightarrow> libc \<Rightarrow> conn \<Rightarrow> bytes arg \<Rightarrow> timeval arg \<Rightarrow>
    (int \<times> conn) option" where
  "redisContextConnectUnix A lc k path timeout = do {
     let blocking = flag (k_ctx k) REDIS_BLOCK;
     (rc, k) \<leftarrow> redisCreateSocket lc k AF_UNIX;
     if rc < 0 then Some (REDIS_ERR, k)
     else do {
       (rc, k) \<leftarrow> redisSetBlocking lc k False;
       if rc \<noteq> REDIS_OK then Some (REDIS_ERR, k)
       else do {
         let c = (k_ctx k)\<lparr>c_connection_type := REDIS_CONN_UNIX\<rparr>;
         let old = c_path c;
         c \<leftarrow> (case path of
             Saved \<Rightarrow> Some c
           | NullArg \<Rightarrow> if c_path c = Null then Some c else None
           | Given s \<Rightarrow> Some (c\<lparr>c_path := strdup A s\<rparr>));
         c \<leftarrow> save_timeout A c timeout;
         (rc, msec) \<leftarrow> redisContextTimeoutMsec c;
         let k = k\<lparr>k_ctx := c\<rparr>;
         if rc \<noteq> REDIS_OK then Some (REDIS_ERR, k)
         else do {
           _ \<leftarrow> (if grants A 110 then Some () else None);
           p \<leftarrow> deref (arg_ptr old path);
           let sa = take 107 p;
           let k = k\<lparr>k_ctx := (k_ctx k)\<lparr>c_saddr := Ptr sa, c_addrlen := 110\<rparr>\<rparr>;
           (r, k) \<leftarrow> os_connect k (Ptr sa);
           (rc, k) \<leftarrow> (if r = - 1 \<and> \<not> (n_errno (k_net k) = EINPROGRESS \<and> \<not> blocking)
                      then redisContextWaitReady lc k msec else Some (REDIS_OK, k));
           if rc \<noteq> REDIS_OK then Some (REDIS_ERR, k)
           else do {
             (rc, k) \<leftarrow> (if blocking then redisSetBlocking lc k True else Some (REDIS_OK, k));
             if rc \<noteq> REDIS_OK then Some (REDIS_ERR, k)
             else Some (REDIS_OK, k\<lparr>k_ctx := (k_ctx k)\<lparr>c_flags := c_flags (k_ctx k) OR REDIS_CONNECTED\<rparr>\<rparr>)
           }
         }
       }
     }
   }"

end
