(* ===== verification/Reply_Correct.thy ===== *)
theory Reply_Correct
  imports Reply
begin

text \<open>
  The default callbacks of \<^verbatim>\<open>hiredis.c\<close> keep the contract \<^theory_text>\<open>reply_builder\<close> of the reader on
  the heap of \<^verbatim>\<open>Reply\<close>: where the objects lie, that \<^verbatim>\<open>freeReplyObject\<close> frees exactly them, and
  what the reader therefore does with its default functions.
\<close>

section \<open>How a reply lies on the heap\<close>

text \<open>
  Objects are allocated in the order in which the parser meets them, so a reply occupies
  consecutive addresses: an object, then its elements one after the other.
\<close>

definition string_cell :: "int \<Rightarrow> bytes \<Rightarrow> redisReply" where
  "string_cell ty s = \<lparr>rep_type = ty, rep_integer = 0, rep_len = length s, rep_str = Ptr (s @ [NUL]),
     rep_elements = 0, rep_element = Null\<rparr>"

definition array_cell :: "nat \<Rightarrow> addr list \<Rightarrow> redisReply" where
  "array_cell n kids = \<lparr>rep_type = REDIS_REPLY_ARRAY, rep_integer = 0, rep_len = 0, rep_str = Null,
     rep_elements = n,
     rep_element = (if n = 0 then Null else Ptr (kids @ replicate (n - length kids) 0))\<rparr>"

definition plain_cell :: "int \<Rightarrow> int \<Rightarrow> redisReply" where
  "plain_cell ty i = \<lparr>rep_type = ty, rep_integer = i, rep_len = 0, rep_str = Null,
     rep_elements = 0, rep_element = Null\<rparr>"

fun rsize :: "resp \<Rightarrow> nat" where
  "rsize (RArr vs) = Suc (sum_list (map rsize vs))"
| "rsize v = 1"

fun kid_addrs :: "addr \<Rightarrow> resp list \<Rightarrow> addr list" where
  "kid_addrs b [] = []"
| "kid_addrs b (v # vs) = b # kid_addrs (b + rsize v) vs"

fun layout :: "addr \<Rightarrow> resp \<Rightarrow> redisReply list" and layouts :: "addr \<Rightarrow> resp list \<Rightarrow> redisReply list" where
  "layout b (RStatus s) = [string_cell REDIS_REPLY_STATUS s]"
| "layout b (RError s) = [string_cell REDIS_REPLY_ERROR s]"
| "layout b (RBulk s) = [string_cell REDIS_REPLY_STRING s]"
| "layout b (RInt i) = [plain_cell REDIS_REPLY_INTEGER i]"
| "layout b RNil = [plain_cell REDIS_REPLY_NIL 0]"
| "layout b (RArr vs) = array_cell (length vs) (kid_addrs (Suc b) vs) # layouts (Suc b) vs"
| "layouts b [] = []"
| "layouts b (v # vs) = layout b v @ layouts (b + rsize v) vs"

abbreviation rsizes :: "resp list \<Rightarrow> nat" where "rsizes vs \<equiv> sum_list (map rsize vs)"

lemma length_layout: "length (layout b v) = rsize v" "length (layouts b vs) = rsizes vs"
  by (induction b v and b vs rule: layout_layouts.induct) auto

lemma kid_addrs_append: "kid_addrs b (vs @ ws) = kid_addrs b vs @ kid_addrs (b + rsizes vs) ws"
  by (induction b vs rule: kid_addrs.induct) (auto simp: add.assoc)

lemma layouts_append: "layouts b (vs @ ws) = layouts b vs @ layouts (b + rsizes vs) ws"
  by (induction vs arbitrary: b) (auto simp: add.assoc)

lemma length_kid_addrs [simp]: "length (kid_addrs b vs) = length vs"
  by (induction b vs rule: kid_addrs.induct) auto

text \<open>The open arrays; \<^theory_text>\<open>kid\<close> is the address of the next element of the innermost one, once
  it is there.\<close>

fun next_of :: "addr \<Rightarrow> addr opens \<Rightarrow> addr" where
  "next_of b [] = b"
| "next_of b ((a, n, vs) # os) = Suc a + rsizes vs"

fun opens_at :: "addr \<Rightarrow> addr opens \<Rightarrow> bool" where
  "opens_at b [] = True"
| "opens_at b ((a, n, vs) # os) = (a = next_of b os \<and> length vs < n \<and> opens_at b os)"

fun olay :: "addr opens \<Rightarrow> addr list \<Rightarrow> redisReply list" where
  "olay [] kid = []"
| "olay ((a, n, vs) # os) kid =
     olay os [a] @ array_cell n (kid_addrs (Suc a) vs @ kid) # layouts (Suc a) vs"

definition lay :: "addr \<Rightarrow> addr progress \<Rightarrow> redisReply list" where
  "lay b st = (case st of Building os \<Rightarrow> olay os [] | Complete v \<Rightarrow> layout b v)"

definition well_placed :: "addr \<Rightarrow> addr progress \<Rightarrow> bool" where
  "well_placed b st = (case st of Building os \<Rightarrow> opens_at b os | Complete v \<Rightarrow> True)"

lemma length_olay: "opens_at b os \<Longrightarrow> b + length (olay os kid) = next_of b os"
proof (induction os arbitrary: kid)
  case (Cons x os)
  then show ?case by (cases x) (auto simp: length_layout)
qed simp

lemma lay_plug:
  "opens_at b os \<Longrightarrow>
   lay b (plug v os) = olay os [next_of b os] @ layout (next_of b os) v \<and> well_placed b (plug v os)"
proof (induction v os rule: plug.induct)
  case (1 v)
  then show ?case by (simp add: lay_def well_placed_def)
next
  case (2 v a n vs os)
  show ?case
  proof (cases "Suc (length vs) = n")
    case True
    with 2(1) [OF True] 2(2) show ?thesis by (simp add: kid_addrs_append layouts_append)
  next
    case False
    with 2(2) show ?thesis by (simp add: lay_def well_placed_def kid_addrs_append layouts_append)
  qed
qed

section \<open>Cells at consecutive addresses\<close>

definition hcat :: "(addr \<Rightarrow> redisReply option) \<Rightarrow> addr \<Rightarrow> redisReply list \<Rightarrow> addr \<Rightarrow> redisReply option" where
  "hcat F b L = (\<lambda>a. if b \<le> a \<and> a < b + length L then Some (L ! (a - b)) else F a)"

lemma hcat_Nil [simp]: "hcat F b [] = F"
  by (rule ext) (auto simp: hcat_def)

lemma hcat_snoc: "(hcat F b L)(b + length L \<mapsto> c) = hcat F b (L @ [c])"
  by (rule ext) (auto simp: hcat_def nth_append)

lemma hcat_update: "i < length L \<Longrightarrow> (hcat F b L)(b + i \<mapsto> c) = hcat F b (L[i := c])"
  by (rule ext) (auto simp: hcat_def)

lemma hcat_at: "i < length L \<Longrightarrow> hcat F b L (b + i) = Some (L ! i)"
  by (simp add: hcat_def)

lemma hcat_mid: "hcat F b (L @ c # M) (b + length L) = Some c"
  by (simp add: hcat_def)

lemma hcat_update_mid: "(hcat F b (L @ c # M))(b + length L \<mapsto> c') = hcat F b (L @ c' # M)"
  by (subst hcat_update) auto

section \<open>Freeing\<close>

text \<open>Trees of cells whose addresses are those from \<^theory_text>\<open>a\<close> up to \<^theory_text>\<open>e\<close>.\<close>

inductive owned :: "(addr \<Rightarrow> redisReply option) \<Rightarrow> addr \<Rightarrow> addr \<Rightarrow> bool"
  and forest :: "(addr \<Rightarrow> redisReply option) \<Rightarrow> addr list \<Rightarrow> addr \<Rightarrow> addr \<Rightarrow> bool"
  for m where
  owned_leaf: "a \<noteq> 0 \<Longrightarrow> m a = Some c \<Longrightarrow> rep_type c \<noteq> REDIS_REPLY_ARRAY \<Longrightarrow> rep_str c \<noteq> Dangling \<Longrightarrow>
    owned m a (Suc a)"
| owned_empty: "a \<noteq> 0 \<Longrightarrow> m a = Some c \<Longrightarrow> rep_type c = REDIS_REPLY_ARRAY \<Longrightarrow> rep_element c = Null \<Longrightarrow>
    owned m a (Suc a)"
| owned_array: "a \<noteq> 0 \<Longrightarrow> m a = Some c \<Longrightarrow> rep_type c = REDIS_REPLY_ARRAY \<Longrightarrow> rep_element c = Ptr es \<Longrightarrow>
    rep_elements c \<le> length es \<Longrightarrow> forest m (take (rep_elements c) es) (Suc a) e \<Longrightarrow> owned m a e"
| forest_Nil: "forest m [] s s"
| forest_null: "forest m es s e \<Longrightarrow> forest m (0 # es) s e"
| forest_Cons: "owned m s k \<Longrightarrow> forest m es k e \<Longrightarrow> forest m (s # es) s e"

text \<open>The heap without the cells from \<^theory_text>\<open>a\<close> up to \<^theory_text>\<open>e\<close>.\<close>

definition without :: "heap \<Rightarrow> addr \<Rightarrow> addr \<Rightarrow> heap" where
  "without h a e = h\<lparr>cells := (\<lambda>x. if a \<le> x \<and> x < e then None else cells h x)\<rparr>"

lemma cells_without [simp]: "cells (without h a e) x = (if a \<le> x \<and> x < e then None else cells h x)"
  "next_addr (without h a e) = next_addr h"
  by (simp_all add: without_def)

lemma heap_eqI: "(\<And>x. cells h x = cells h' x) \<Longrightarrow> next_addr h = next_addr h' \<Longrightarrow> h = h'" for h h' :: heap
  by (intro heap.equality ext) simp_all

lemma without_simps:
  "without h a a = h"
  "a \<le> k \<Longrightarrow> k \<le> e \<Longrightarrow> without (without h a k) k e = without h a e"
  "a < e \<Longrightarrow> free_cell (without h (Suc a) e) a = without h a e"
  "free_cell h a = without h a (Suc a)"
  by (rule heap_eqI; auto simp: free_cell_def)+

lemma free_owned:
  "owned m a e \<Longrightarrow> (a < e \<and> (\<forall>h. (\<forall>x. a \<le> x \<and> x < e \<longrightarrow> cells h x = m x) \<longrightarrow>
      freeReplyObject a h = Some (without h a e)))"
  "forest m es s e \<Longrightarrow> (s \<le> e \<and> (\<forall>h. (\<forall>x. s \<le> x \<and> x < e \<longrightarrow> cells h x = m x) \<longrightarrow>
      free_each (\<lambda>a h. freeReplyObject a h) es h = Some (without h s e)))"
proof (induction rule: owned_forest.inducts)
  case (owned_leaf a c)
  have "freeReplyObject a h = Some (without h a (Suc a))" if "\<forall>x. a \<le> x \<and> x < Suc a \<longrightarrow> cells h x = m x" for h
  proof -
    have c: "cell h a = Some c" using that owned_leaf by (simp add: cell_def)
    have "\<exists>p. free_ptr (rep_str c) = Some p" using owned_leaf by (cases "rep_str c") auto
    with c owned_leaf show ?thesis
      using without_simps(4) [of h a]
      by (subst freeReplyObject.simps) auto
  qed
  then show ?case by simp
next
  case (owned_empty a c)
  have "freeReplyObject a h = Some (without h a (Suc a))" if "\<forall>x. a \<le> x \<and> x < Suc a \<longrightarrow> cells h x = m x" for h
  proof -
    have c: "cell h a = Some c" using that owned_empty by (simp add: cell_def)
    with owned_empty show ?thesis
      using without_simps(4) [of h a]
      by (subst freeReplyObject.simps) auto
  qed
  then show ?case by simp
next
  case (owned_array a c es e)
  have lt: "a < e" using owned_array by simp
  have "freeReplyObject a h = Some (without h a e)" if h: "\<forall>x. a \<le> x \<and> x < e \<longrightarrow> cells h x = m x" for h
  proof -
    have c: "cell h a = Some c" using h owned_array lt by (simp add: cell_def)
    have "free_each (\<lambda>a h. freeReplyObject a h) (take (rep_elements c) es) h = Some (without h (Suc a) e)"
      using owned_array(7) h by simp
    moreover have "cell (without h (Suc a) e) a = Some c" using c by (simp add: cell_def)
    ultimately show ?thesis
      using c owned_array(1-5) lt by (subst freeReplyObject.simps) (simp add: without_simps(3))
  qed
  with lt show ?case by simp
next
  case (forest_Nil s)
  show ?case by (simp add: without_simps)
next
  case (forest_null es s e)
  have "freeReplyObject 0 h = Some h" for h by (subst freeReplyObject.simps) simp
  with forest_null show ?case by simp
next
  case (forest_Cons s k es e)
  have "free_each (\<lambda>a h. freeReplyObject a h) (s # es) h = Some (without h s e)"
    if h: "\<forall>x. s \<le> x \<and> x < e \<longrightarrow> cells h x = m x" for h
  proof -
    have sk: "s < k" "k \<le> e" using forest_Cons by auto
    have "\<forall>x. s \<le> x \<and> x < k \<longrightarrow> cells h x = m x" using h sk by auto
    then have one: "freeReplyObject s h = Some (without h s k)" using forest_Cons by blast
    have "\<forall>x. k \<le> x \<and> x < e \<longrightarrow> cells (without h s k) x = m x" using h sk by auto
    then have "free_each (\<lambda>a h. freeReplyObject a h) es (without h s k) = Some (without (without h s k) k e)"
      using forest_Cons by blast
    with one sk show ?thesis by (simp add: without_simps)
  qed
  moreover have "s \<le> e" using forest_Cons by auto
  ultimately show ?case by blast
qed

section \<open>What is built can be freed\<close>

definition placed :: "(addr \<Rightarrow> redisReply option) \<Rightarrow> addr \<Rightarrow> redisReply list \<Rightarrow> bool" where
  "placed m b L \<longleftrightarrow> (\<forall>i < length L. m (b + i) = Some (L ! i))"

lemma placed_simps [simp]:
  "placed m b []"
  "placed m b (c # L) \<longleftrightarrow> m b = Some c \<and> placed m (Suc b) L"
  "placed m b (L @ M) \<longleftrightarrow> placed m b L \<and> placed m (b + length L) M"
proof -
  show "placed m b []" by (simp add: placed_def)
  show cons: "placed m b (c # L) \<longleftrightarrow> m b = Some c \<and> placed m (Suc b) L" for b c L
    unfolding placed_def length_Cons All_less_Suc2 by simp
  show "placed m b (L @ M) \<longleftrightarrow> placed m b L \<and> placed m (b + length L) M"
    by (induction L arbitrary: b) (simp add: placed_def, simp add: cons)
qed

lemma placed_hcat: "placed (hcat F b L) b L"
  by (simp add: placed_def hcat_at)

inductive_cases forest_NilE: "forest m [] s e"
inductive_cases forest_ConsE: "forest m (a # es) s e"

lemma forest_append: "forest m es s k \<Longrightarrow> forest m fs k e \<Longrightarrow> forest m (es @ fs) s e"
  by (induction es arbitrary: s) (auto elim!: forest_NilE forest_ConsE intro: owned_forest.intros)

lemma forest_nulls: "forest m (replicate k 0) s s"
  by (induction k) (auto intro: owned_forest.intros)

lemma owned_array_cell:
  assumes "a \<noteq> 0" "m a = Some (array_cell n kids)" "length kids \<le> n" "forest m kids (Suc a) e"
  shows "owned m a e"
proof (cases "n = 0")
  case True
  then have "e = Suc a" using assms by (auto elim: forest_NilE)
  with True assms show ?thesis using owned_empty [of a m "array_cell n kids"] by (simp add: array_cell_def)
next
  case False
  have "forest m (kids @ replicate (n - length kids) 0) (Suc a) e"
    by (rule forest_append [OF assms(4) forest_nulls])
  with False assms show ?thesis
    using owned_array [of a m "array_cell n kids" "kids @ replicate (n - length kids) 0" e]
    by (simp add: array_cell_def)
qed

lemma owned_layout:
  "placed m b (layout b v) \<Longrightarrow> b \<noteq> 0 \<Longrightarrow> owned m b (b + rsize v)"
  "placed m b (layouts b vs) \<Longrightarrow> b \<noteq> 0 \<Longrightarrow> forest m (kid_addrs b vs) b (b + rsizes vs)"
proof (induction b v and b vs rule: layout_layouts.induct)
  case (6 b vs)
  then show ?case using owned_array_cell [of b m "length vs" "kid_addrs (Suc b) vs"] by simp
next
  case (8 b v vs)
  then show ?case
    by (auto simp: length_layout add.assoc intro: forest_Cons)
qed (auto intro!: owned_leaf forest_Nil simp: string_cell_def plain_cell_def reply_type_defs)

lemma owned_olay:
  "placed m b (olay os kid) \<Longrightarrow> opens_at b os \<Longrightarrow> forest m kid (next_of b os) e \<Longrightarrow> length kid \<le> 1 \<Longrightarrow>
   b \<noteq> 0 \<Longrightarrow> os \<noteq> [] \<Longrightarrow> owned m b e"
proof (induction os arbitrary: kid)
  case (Cons x os)
  obtain a n vs where x: "x = (a, n, vs)" by (cases x)
  have at: "b + length (olay os [a]) = a" "a = next_of b os" "opens_at b os" "length vs < n"
    using Cons(3) length_olay [of b os "[a]"] by (auto simp: x)
  have "a \<noteq> 0" using at(1) Cons(6) by simp
  have pl: "placed m b (olay os [a])" "m a = Some (array_cell n (kid_addrs (Suc a) vs @ kid))"
    "placed m (Suc a) (layouts (Suc a) vs)"
    using Cons(2) at(1) by (auto simp: x)
  have "forest m (kid_addrs (Suc a) vs @ kid) (Suc a) e"
    using owned_layout(2) [OF pl(3)] Cons(4) by (intro forest_append) (auto simp: x)
  then have a: "owned m a e"
    using owned_array_cell [of a m n _ e] pl(2) at(4) Cons(5) \<open>a \<noteq> 0\<close> by simp
  show ?case
  proof (cases "os = []")
    case True
    with a at(2) show ?thesis by simp
  next
    case False
    have "forest m [a] (next_of b os) e"
      using a at(2) by (auto intro: owned_forest.intros)
    then show ?thesis using Cons(1) [OF pl(1) at(3)] Cons(6) False by simp
  qed
qed simp

lemma owned_lay:
  assumes "placed m b (lay b st)" "well_placed b st" "b \<noteq> 0" "st \<noteq> Building []"
  shows "owned m b (b + length (lay b st))"
proof (cases st)
  case (Building os)
  then show ?thesis
    using assms owned_olay [of m b os "[]"] length_olay [of b os "[]"]
    by (auto simp: lay_def well_placed_def intro: forest_Nil)
next
  case (Complete v)
  then show ?thesis using assms owned_layout(1) by (simp add: lay_def length_layout)
qed

section \<open>The callbacks keep the contract\<close>

text \<open>
  \<^theory_text>\<open>on_heap F h root st\<close>: the replies in progress lie in \<^theory_text>\<open>h\<close> from \<^theory_text>\<open>root\<close> on, above a
  frame \<^theory_text>\<open>F\<close> of other replies; with no reply in progress the heap is that frame.
\<close>

definition on_heap :: "(addr \<Rightarrow> redisReply option) \<Rightarrow> heap \<Rightarrow> addr \<Rightarrow> addr progress \<Rightarrow> bool" where
  "on_heap F h root st \<longleftrightarrow> (\<forall>a. root \<le> a \<and> next_addr h \<le> a \<longrightarrow> F a = None) \<and>
     (if st = Building [] then root = 0 \<and> cells h = F \<and> next_addr h \<noteq> 0
      else root \<noteq> 0 \<and> (\<forall>a\<ge>root. F a = None) \<and> well_placed root st \<and>
        cells h = hcat F root (lay root st) \<and> next_addr h = root + length (lay root st))"

text \<open>The address from which the reply in progress is laid out.\<close>

definition open_at :: "(addr \<Rightarrow> redisReply option) \<Rightarrow> heap \<Rightarrow> addr \<Rightarrow> addr opens \<Rightarrow> bool" where
  "open_at F h b os \<longleftrightarrow> b \<noteq> 0 \<and> (\<forall>a\<ge>b. F a = None) \<and> opens_at b os \<and>
     cells h = hcat F b (olay os []) \<and> next_addr h = next_of b os"

lemma on_heap_open:
  assumes "on_heap F h root (Building os)"
  obtains b where "open_at F h b os" "root = (if os = [] then 0 else b)"
proof (rule that)
  let ?b = "if os = [] then next_addr h else root"
  show "open_at F h ?b os"
    using assms length_olay [of root os "[]"]
    by (auto simp: on_heap_def open_at_def lay_def well_placed_def split: if_splits)
  show "root = (if os = [] then 0 else ?b)" using assms by (auto simp: on_heap_def)
qed

lemma plug_not_empty: "plug v os \<noteq> Building []"
  by (induction v os rule: plug.induct) auto

lemma free_on_heap:
  assumes "cells h = hcat F b (lay b st)" "well_placed b st" "b \<noteq> 0" "st \<noteq> Building []"
    "\<forall>a\<ge>b. F a = None" "b + length (lay b st) \<le> next_addr h"
  shows "\<exists>h'. freeReplyObject b h = Some h' \<and> on_heap F h' 0 (Building [])"
proof (intro exI conjI)
  let ?e = "b + length (lay b st)"
  have "owned (cells h) b ?e"
    using owned_lay [of "cells h" b st] assms placed_hcat by simp
  then show "freeReplyObject b h = Some (without h b ?e)" using free_owned(1) by blast
  have "cells (without h b ?e) = F"
    using assms by (intro ext) (auto simp: hcat_def)
  then show "on_heap F (without h b ?e) 0 (Building [])"
    using assms by (auto simp: on_heap_def)
qed

text \<open>A callback that returns null leaves the cells as they were.\<close>

lemma releasable_same:
  assumes "on_heap F h root (Building os)" "cells h' = cells h" "next_addr h \<le> next_addr h'"
  shows "releasable (on_heap F) freeReplyObject root h'"
proof (cases "os = []")
  case True
  then show ?thesis using assms by (auto simp: on_heap_def releasable_def)
next
  case False
  then have "\<exists>h''. freeReplyObject root h' = Some h'' \<and> on_heap F h'' 0 (Building [])"
    using assms by (intro free_on_heap [where st = "Building os"]) (auto simp: on_heap_def)
  then show ?thesis using assms False by (auto simp: on_heap_def releasable_def)
qed

text \<open>The address of the new object and its place in the parent.\<close>

lemma attach_spec:
  assumes "open_at F h b os" "task_at t p os" "cells h' = hcat F b (olay os [] @ [c])"
    "next_addr h' = Suc (next_of b os)"
  shows "\<exists>h''. attach t p (next_of b os) h' = Some h'' \<and>
    cells h'' = hcat F b (olay os [next_of b os] @ [c]) \<and> next_addr h'' = Suc (next_of b os)"
proof (cases os)
  case Nil
  with assms show ?thesis by (auto simp: attach_def task_at_def)
next
  case (Cons x os')
  obtain a n vs where x: "x = (a, n, vs)" by (cases x)
  obtain q where q: "p = Some q" "t_parent t \<noteq> None" "t_obj q = a" "t_idx t = int (length vs)" "length vs < n"
    using assms(2) by (auto simp: task_at_def Cons x)
  have at: "b + length (olay os' [a]) = a" using assms(1) length_olay [of b os' "[a]"]
    by (auto simp: open_at_def Cons x)
  let ?A = "\<lambda>kid. array_cell n (kid_addrs (Suc a) vs @ kid)" and ?z = "next_of b os"
  have c: "cell h' a = Some (?A [])"
    using assms(3) at hcat_mid [of F b "olay os' [a]" "?A []" "layouts (Suc a) vs @ [c]"]
    by (simp add: cell_def Cons x)
  have elt: "rep_element (?A []) = Ptr (kid_addrs (Suc a) vs @ replicate (n - length vs) 0)"
    using q(5) by (simp add: array_cell_def)
  have put: "(kid_addrs (Suc a) vs @ replicate (n - length vs) 0)[length vs := ?z] =
      (kid_addrs (Suc a) vs @ [?z]) @ replicate (n - Suc (length vs)) 0"
    using q(5) by (simp add: list_update_append Suc_diff_Suc [symmetric] del: next_of.simps)
  have new: "(?A [])\<lparr>rep_element := Ptr ((kid_addrs (Suc a) vs @ replicate (n - length vs) 0)[length vs := ?z])\<rparr>
      = ?A [?z]"
    using q(5) unfolding put by (simp add: array_cell_def del: next_of.simps)
  have "attach t p ?z h' = Some (set_cell h' a (?A [?z]))"
    using q c elt new by (auto simp: attach_def array_cell_def simp del: next_of.simps)
  moreover have "cells (set_cell h' a (?A [?z])) = hcat F b (olay os [?z] @ [c])"
    using assms(3) at hcat_update_mid [of F b "olay os' [a]" "?A []" "layouts (Suc a) vs @ [c]" "?A [?z]"]
    by (simp add: set_cell_def Cons x del: next_of.simps)
  ultimately show ?thesis using assms(4) by (simp add: set_cell_def)
qed

lemma complete_object:
  assumes "open_at F h b os" "cells h' = hcat F b (olay os [next_of b os] @ [c])"
    "next_addr h' = Suc (next_of b os)" "layout (next_of b os) v = [c]"
  shows "built mf (on_heap F) freeReplyObject (if os = [] then 0 else b) os (plug v os) (next_of b os) h'"
proof -
  have b: "b \<noteq> 0" "opens_at b os" "\<forall>a\<ge>b. F a = None" using assms(1) by (auto simp: open_at_def)
  then have "next_of b os \<noteq> 0" using length_olay [of b os "[]"] by linarith
  moreover have "(if os = [] then next_of b os else (if os = [] then 0 else b)) = b" by simp
  moreover have "on_heap F h' b (plug v os)"
    using b assms(2-4) lay_plug [OF b(2), of v] length_olay [OF b(2), of "[next_of b os]"] plug_not_empty
    by (auto simp: on_heap_def)
  ultimately show ?thesis by (simp add: built_def)
qed

lemma push_object:
  assumes "open_at F h b os" "cells h' = hcat F b (olay os [next_of b os] @ [array_cell n []])"
    "next_addr h' = Suc (next_of b os)" "0 < n"
  shows "built mf (on_heap F) freeReplyObject (if os = [] then 0 else b) os
    (Building ((next_of b os, n, []) # os)) (next_of b os) h'"
proof -
  have b: "b \<noteq> 0" "opens_at b os" "\<forall>a\<ge>b. F a = None" using assms(1) by (auto simp: open_at_def)
  then have "next_of b os \<noteq> 0" using length_olay [of b os "[]"] by linarith
  moreover have "(if os = [] then next_of b os else (if os = [] then 0 else b)) = b" by simp
  moreover have "on_heap F h' b (Building ((next_of b os, n, []) # os))"
    using b assms(2-4) length_olay [OF b(2), of "[next_of b os]"]
    by (auto simp: on_heap_def lay_def well_placed_def)
  ultimately show ?thesis by (simp add: built_def)
qed

definition new_reply :: "int \<Rightarrow> redisReply" where
  "new_reply ty = \<lparr>rep_type = ty, rep_integer = 0, rep_len = 0, rep_str = Null, rep_elements = 0,
     rep_element = Null\<rparr>"

lemma createReplyObject_spec:
  assumes "open_at F h b os" "grants A 48"
  obtains h1 where "createReplyObject A ty h = Some (next_of b os, h1)" "next_of b os \<noteq> 0"
    "cell h1 (next_of b os) = Some (new_reply ty)" "next_addr h1 = Suc (next_of b os)"
    "\<And>c. cells (set_cell h1 (next_of b os) c) = hcat F b (olay os [] @ [c])"
    "\<And>c. next_addr (set_cell h1 (next_of b os) c) = Suc (next_of b os)"
    "cells h1 = hcat F b (olay os [] @ [new_reply ty])"
    "cells (free_cell h1 (next_of b os)) = cells h"
proof -
  let ?x = "next_of b os"
  have o: "b \<noteq> 0" "opens_at b os" "cells h = hcat F b (olay os [])" "next_addr h = ?x" "\<forall>a\<ge>b. F a = None"
    using assms(1) by (auto simp: open_at_def)
  have x: "b + length (olay os []) = ?x" using length_olay [OF o(2)] .
  let ?h = "(set_cell h ?x (new_reply ty))\<lparr>next_addr := Suc ?x\<rparr>"
  have put: "(hcat F b (olay os []))(?x \<mapsto> c) = hcat F b (olay os [] @ [c])" for c
    using hcat_snoc [of F b "olay os []" c] x by simp
  have "cells h ?x = None" using o x by (auto simp: hcat_def)
  then have undone: "(cells h)(?x := None) = cells h" by (simp add: fun_upd_idem)
  show ?thesis
  proof (rule that [of ?h])
    show "createReplyObject A ty h = Some (?x, ?h)"
      using assms(2) o(4) by (simp add: createReplyObject_def new_reply_def)
    show "?x \<noteq> 0" using o(1) x by linarith
    show "cells (free_cell ?h ?x) = cells h" using undone by (simp add: free_cell_def set_cell_def)
  qed (use o(3) in \<open>simp_all add: cell_def set_cell_def put [symmetric]\<close>)
qed

lemma free_new_reply:
  assumes "cell h a = Some (new_reply ty)" "a \<noteq> 0"
  shows "freeReplyObject a h = Some (free_cell h a)"
  using assms by (subst freeReplyObject.simps) (simp add: new_reply_def)

lemma not_granted:
  assumes "open_at F h b os" "on_heap F h root (Building os)" "\<not> grants A 48"
  shows "\<exists>a h'. createReplyObject A ty h = Some (a, h') \<and> a = 0 \<and> h' = h \<and>
    releasable (on_heap F) freeReplyObject root h"
  using assms releasable_same [OF assms(2), of h] by (simp add: createReplyObject_def)

text \<open>Can an allocation fail?\<close>

definition may_fail :: "allocator \<Rightarrow> bool" where
  "may_fail A \<longleftrightarrow> (\<exists>k. \<not> grants A k)"

lemma createIntegerObject_ok:
  assumes "on_heap F h root (Building os)" "task_at t p os"
  shows "\<exists>a h'. createIntegerObject A t p i h = Some (a, h') \<and>
    built (may_fail A) (on_heap F) freeReplyObject root os (plug (RInt i) os) a h'"
proof -
  obtain b where b: "open_at F h b os" "root = (if os = [] then 0 else b)"
    by (rule on_heap_open [OF assms(1)])
  show ?thesis
  proof (cases "grants A 48")
    case False
    with not_granted [OF b(1) assms(1) False, of REDIS_REPLY_INTEGER] show ?thesis
      by (auto simp: createIntegerObject_def built_def may_fail_def)
  next
    case True
    obtain h1 where h1: "createReplyObject A REDIS_REPLY_INTEGER h = Some (next_of b os, h1)" "next_of b os \<noteq> 0"
      "cell h1 (next_of b os) = Some (new_reply REDIS_REPLY_INTEGER)"
      "\<And>c. cells (set_cell h1 (next_of b os) c) = hcat F b (olay os [] @ [c])"
      "\<And>c. next_addr (set_cell h1 (next_of b os) c) = Suc (next_of b os)"
      by (rule createReplyObject_spec [OF b(1) True, of REDIS_REPLY_INTEGER]) blast
    have c: "(new_reply REDIS_REPLY_INTEGER)\<lparr>rep_integer := i\<rparr> = plain_cell REDIS_REPLY_INTEGER i"
      by (simp add: new_reply_def plain_cell_def)
    obtain h2 where h2: "attach t p (next_of b os) (set_cell h1 (next_of b os) (plain_cell REDIS_REPLY_INTEGER i)) =
        Some h2" "cells h2 = hcat F b (olay os [next_of b os] @ [plain_cell REDIS_REPLY_INTEGER i])"
      "next_addr h2 = Suc (next_of b os)"
      using attach_spec [OF b(1) assms(2) h1(4,5)] by blast
    have "built (may_fail A) (on_heap F) freeReplyObject root os (plug (RInt i) os) (next_of b os) h2"
      unfolding b(2) using h2(2,3) by (intro complete_object [OF b(1)]) simp_all
    with h1 h2 c show ?thesis by (simp add: createIntegerObject_def)
  qed
qed

lemma createNilObject_ok:
  assumes "on_heap F h root (Building os)" "task_at t p os"
  shows "\<exists>a h'. createNilObject A t p h = Some (a, h') \<and>
    built (may_fail A) (on_heap F) freeReplyObject root os (plug RNil os) a h'"
proof -
  obtain b where b: "open_at F h b os" "root = (if os = [] then 0 else b)"
    by (rule on_heap_open [OF assms(1)])
  show ?thesis
  proof (cases "grants A 48")
    case False
    with not_granted [OF b(1) assms(1) False, of REDIS_REPLY_NIL] show ?thesis
      by (auto simp: createNilObject_def built_def may_fail_def)
  next
    case True
    obtain h1 where h1: "createReplyObject A REDIS_REPLY_NIL h = Some (next_of b os, h1)" "next_of b os \<noteq> 0"
      "cells h1 = hcat F b (olay os [] @ [new_reply REDIS_REPLY_NIL])"
      "next_addr h1 = Suc (next_of b os)"
      by (rule createReplyObject_spec [OF b(1) True, of REDIS_REPLY_NIL]) blast
    have c: "new_reply REDIS_REPLY_NIL = plain_cell REDIS_REPLY_NIL 0"
      by (simp add: new_reply_def plain_cell_def)
    obtain h2 where h2: "attach t p (next_of b os) h1 = Some h2"
      "cells h2 = hcat F b (olay os [next_of b os] @ [plain_cell REDIS_REPLY_NIL 0])"
      "next_addr h2 = Suc (next_of b os)"
      using attach_spec [OF b(1) assms(2) h1(3,4)] unfolding c by blast
    have "built (may_fail A) (on_heap F) freeReplyObject root os (plug RNil os) (next_of b os) h2"
      unfolding b(2) using h2(2,3) by (intro complete_object [OF b(1)]) simp_all
    with h1 h2 show ?thesis by (simp add: createNilObject_def)
  qed
qed

text \<open>A callback that allocates the object, but not what belongs to it, frees the object again.\<close>

lemma give_up:
  assumes "on_heap F h root (Building os)" "open_at F h b os" "cell h1 (next_of b os) = Some (new_reply ty)"
    "next_of b os \<noteq> 0" "cells (free_cell h1 (next_of b os)) = cells h" "next_addr h1 = Suc (next_of b os)"
  shows "\<exists>h2. freeReplyObject (next_of b os) h1 = Some h2 \<and> releasable (on_heap F) freeReplyObject root h2"
  using free_new_reply [OF assms(3,4)] releasable_same [OF assms(1), of "free_cell h1 (next_of b os)"] assms
  by (simp add: open_at_def free_cell_def)

lemma createStringObject_ok:
  assumes "on_heap F h root (Building os)" "task_at t p os"
    "t_type t \<in> {REDIS_REPLY_STRING, REDIS_REPLY_STATUS, REDIS_REPLY_ERROR}" "n \<le> length s"
  shows "\<exists>a h'. createStringObject A t p s n h = Some (a, h') \<and>
    built (may_fail A) (on_heap F) freeReplyObject root os (plug (string_reply (t_type t) (take n s)) os) a h'"
proof -
  obtain b where b: "open_at F h b os" "root = (if os = [] then 0 else b)"
    by (rule on_heap_open [OF assms(1)])
  show ?thesis
  proof (cases "grants A 48")
    case False
    with not_granted [OF b(1) assms(1) False, of "t_type t"] show ?thesis
      by (auto simp: createStringObject_def built_def may_fail_def)
  next
    case True
    obtain h1 where h1: "createReplyObject A (t_type t) h = Some (next_of b os, h1)" "next_of b os \<noteq> 0"
      "cell h1 (next_of b os) = Some (new_reply (t_type t))"
      "\<And>c. cells (set_cell h1 (next_of b os) c) = hcat F b (olay os [] @ [c])"
      "\<And>c. next_addr (set_cell h1 (next_of b os) c) = Suc (next_of b os)"
      "cells (free_cell h1 (next_of b os)) = cells h" "next_addr h1 = Suc (next_of b os)"
      by (rule createReplyObject_spec [OF b(1) True, of "t_type t"]) blast
    show ?thesis
    proof (cases "grants A (size_t (n + 1))")
      case False
      obtain h2 where h2: "freeReplyObject (next_of b os) h1 = Some h2"
        "releasable (on_heap F) freeReplyObject root h2"
        using give_up [OF assms(1) b(1) h1(3,2,6,7)] by blast
      have "createStringObject A t p s n h = Some (0, h2)"
        using h1(1,2) h2(1) False by (simp add: createStringObject_def)
      moreover have "built (may_fail A) (on_heap F) freeReplyObject root os st 0 h2" for st
        using h2(2) False by (auto simp: built_def may_fail_def)
      ultimately show ?thesis by blast
    next
      case granted: True
      let ?c = "string_cell (t_type t) (take n s)"
      have src: "mem_read s 0 n = Some (take n s)" using assms(4) by (simp add: mem_read_def)
      have c: "(new_reply (t_type t))\<lparr>rep_str := Ptr (take n s @ [NUL]), rep_len := n\<rparr> = ?c"
        using assms(4) by (simp add: new_reply_def string_cell_def)
      have lay: "layout (next_of b os) (string_reply (t_type t) (take n s)) = [?c]"
        using assms(3) by (auto simp: string_reply_def reply_type_defs)
      obtain h2 where h2: "attach t p (next_of b os) (set_cell h1 (next_of b os) ?c) = Some h2"
        "cells h2 = hcat F b (olay os [next_of b os] @ [?c])" "next_addr h2 = Suc (next_of b os)"
        using attach_spec [OF b(1) assms(2) h1(4,5)] by blast
      have "built (may_fail A) (on_heap F) freeReplyObject root os
          (plug (string_reply (t_type t) (take n s)) os) (next_of b os) h2"
        unfolding b(2) by (intro complete_object [OF b(1) h2(2,3) lay])
      moreover have "createStringObject A t p s n h = Some (next_of b os, h2)"
        using h1(1-3) granted assms(3) src c h2(1) by (auto simp: createStringObject_def)
      ultimately show ?thesis by blast
    qed
  qed
qed

lemma createArrayObject_ok:
  assumes "on_heap F h root (Building os)" "task_at t p os"
  shows "\<exists>a h'. createArrayObject A t p (int n) h = Some (a, h') \<and>
    built (may_fail A) (on_heap F) freeReplyObject root os
      (if n = 0 then plug (RArr []) os else Building ((a, n, []) # os)) a h'"
proof -
  obtain b where b: "open_at F h b os" "root = (if os = [] then 0 else b)"
    by (rule on_heap_open [OF assms(1)])
  show ?thesis
  proof (cases "grants A 48")
    case False
    with not_granted [OF b(1) assms(1) False, of REDIS_REPLY_ARRAY] show ?thesis
      by (auto simp: createArrayObject_def built_def may_fail_def)
  next
    case True
    obtain h1 where h1: "createReplyObject A REDIS_REPLY_ARRAY h = Some (next_of b os, h1)" "next_of b os \<noteq> 0"
      "cell h1 (next_of b os) = Some (new_reply REDIS_REPLY_ARRAY)"
      "\<And>c. cells (set_cell h1 (next_of b os) c) = hcat F b (olay os [] @ [c])"
      "\<And>c. next_addr (set_cell h1 (next_of b os) c) = Suc (next_of b os)"
      "cells (free_cell h1 (next_of b os)) = cells h" "next_addr h1 = Suc (next_of b os)"
      by (rule createReplyObject_spec [OF b(1) True, of REDIS_REPLY_ARRAY]) blast
    show ?thesis
    proof (cases "0 < n \<and> \<not> grants A (n * 8)")
      case True
      obtain h2 where h2: "freeReplyObject (next_of b os) h1 = Some h2"
        "releasable (on_heap F) freeReplyObject root h2"
        using give_up [OF assms(1) b(1) h1(3,2,6,7)] by blast
      have "createArrayObject A t p (int n) h = Some (0, h2)"
        using h1(1,2) h2(1) True by (simp add: createArrayObject_def)
      moreover have "built (may_fail A) (on_heap F) freeReplyObject root os st 0 h2" for st
        using h2(2) True by (auto simp: built_def may_fail_def)
      ultimately show ?thesis by blast
    next
      case granted: False
      let ?c = "array_cell n []"
      obtain h2 where h2: "attach t p (next_of b os) (set_cell h1 (next_of b os) ?c) = Some h2"
        "cells h2 = hcat F b (olay os [next_of b os] @ [?c])" "next_addr h2 = Suc (next_of b os)"
        using attach_spec [OF b(1) assms(2) h1(4,5)] by blast
      have "built (may_fail A) (on_heap F) freeReplyObject root os
          (if n = 0 then plug (RArr []) os else Building ((next_of b os, n, []) # os)) (next_of b os) h2"
        unfolding b(2) using push_object [OF b(1) h2(2,3)] complete_object [OF b(1) h2(2,3), of "RArr []"]
        by (simp del: next_of.simps)
      moreover have "createArrayObject A t p (int n) h = Some (next_of b os, h2)"
        using h1(1-3) granted h2(1)
        by (cases "n = 0") (auto simp: createArrayObject_def new_reply_def array_cell_def)
      ultimately show ?thesis by blast
    qed
  qed
qed

interpretation default_builder: reply_builder "createStringObject A" "createArrayObject A"
  "createIntegerObject A" "createNilObject A" freeReplyObject "on_heap F" "may_fail A" for A F
proof unfold_locales
  fix h root st
  show "on_heap F h 0 st \<Longrightarrow> st = Building []" by (auto simp: on_heap_def split: if_splits)
  assume "on_heap F h root st" "root \<noteq> 0"
  then show "\<exists>h'. freeReplyObject root h = Some h' \<and> on_heap F h' 0 (Building [])"
    by (intro free_on_heap [where st = st]) (auto simp: on_heap_def split: if_splits)
qed (simp_all add: createStringObject_ok createArrayObject_ok createIntegerObject_ok createNilObject_ok)

section \<open>What a tree of replies stands for\<close>

fun denotes :: "(addr \<Rightarrow> redisReply option) \<Rightarrow> addr \<Rightarrow> resp \<Rightarrow> bool" where
  "denotes m a (RStatus s) = (case m a of None \<Rightarrow> False | Some c \<Rightarrow>
     rep_type c = REDIS_REPLY_STATUS \<and> rep_len c = length s \<and> rep_str c = Ptr (s @ [NUL]))"
| "denotes m a (RError s) = (case m a of None \<Rightarrow> False | Some c \<Rightarrow>
     rep_type c = REDIS_REPLY_ERROR \<and> rep_len c = length s \<and> rep_str c = Ptr (s @ [NUL]))"
| "denotes m a (RBulk s) = (case m a of None \<Rightarrow> False | Some c \<Rightarrow>
     rep_type c = REDIS_REPLY_STRING \<and> rep_len c = length s \<and> rep_str c = Ptr (s @ [NUL]))"
| "denotes m a (RInt i) = (case m a of None \<Rightarrow> False | Some c \<Rightarrow>
     rep_type c = REDIS_REPLY_INTEGER \<and> rep_integer c = i)"
| "denotes m a RNil = (case m a of None \<Rightarrow> False | Some c \<Rightarrow> rep_type c = REDIS_REPLY_NIL)"
| "denotes m a (RArr vs) = (case m a of None \<Rightarrow> False | Some c \<Rightarrow>
     rep_type c = REDIS_REPLY_ARRAY \<and> rep_elements c = length vs \<and>
     (case rep_element c of Ptr es \<Rightarrow> list_all2 (denotes m) es vs | _ \<Rightarrow> vs = []))"

lemma denotes_layout:
  "placed m b (layout b v) \<Longrightarrow> denotes m b v"
  "placed m b (layouts b vs) \<Longrightarrow> list_all2 (denotes m) (kid_addrs b vs) vs"
proof (induction b v and b vs rule: layout_layouts.induct)
  case (6 b vs)
  then show ?case by (simp add: array_cell_def)
qed (auto simp: string_cell_def plain_cell_def length_layout)

lemma complete_denotes:
  assumes "on_heap F h a (Complete v)"
  shows "a \<noteq> 0" "denotes (cells h) a v" "x < a \<Longrightarrow> cells h x = F x"
    "\<exists>h'. freeReplyObject a h = Some h' \<and> on_heap F h' 0 (Building [])"
proof -
  have h: "a \<noteq> 0" "cells h = hcat F a (layout a v)" using assms by (auto simp: on_heap_def lay_def)
  show "a \<noteq> 0" by fact
  show "denotes (cells h) a v" using denotes_layout(1) placed_hcat h(2) by simp
  show "x < a \<Longrightarrow> cells h x = F x" using h by (simp add: hcat_def)
  show "\<exists>h'. freeReplyObject a h = Some h' \<and> on_heap F h' 0 (Building [])"
    using default_builder.free [OF assms h(1)] .
qed

section \<open>The reader with its default functions\<close>

lemma default_GetReply:
  assumes "r_fn r = Some (defaultFunctions A)" "resting (on_heap F) r h ty os"
  shows "\<exists>rc r' h' a. redisReaderGetReply r h = Some (rc, r', h', a) \<and> r_fn r' = r_fn r \<and>
    ((rc = REDIS_ERR \<and> a = 0 \<and> out_of_memory (may_fail A) (on_heap F) r' h') \<or>
     delivers (on_heap F) (parse ty (pending r) (erase os)) rc r' h' a)"
  using default_builder.GetReply_ok [of r A F h ty os] assms by (simp add: defaultFunctions_def)

definition fresh_reader :: "allocator \<Rightarrow> heap redisReader \<Rightarrow> bool" where
  "fresh_reader A r \<longleftrightarrow> idle r \<and> r_reply r = 0 \<and> pending r = [] \<and> r_len r = 0 \<and>
     r_fn r = Some (defaultFunctions A)"

lemma fresh_resting: "fresh_reader A r \<Longrightarrow> on_heap F h 0 (Building []) \<Longrightarrow> resting (on_heap F) r h (- 1) []"
  by (simp add: fresh_reader_def resting_def)

lemma create_reader:
  obtains "redisReaderCreate A = Some Null" "may_fail A"
  | r where "redisReaderCreate A = Some (Ptr r)" "fresh_reader A r"
proof (cases "grants A 560")
  case False
  then show ?thesis
    by (intro that(1)) (auto simp: redisReaderCreate_def redisReaderCreateWithFunctions_def may_fail_def)
next
  case True
  show ?thesis
  proof (cases "sdsempty A = Some Null")
    case True
    have "may_fail A"
    proof (rule ccontr)
      assume "\<not> may_fail A"
      then have "\<And>k. grants A k" by (simp add: may_fail_def)
      from sdsempty_granted [OF this] True show False by auto
    qed
    with True \<open>grants A 560\<close> show ?thesis
      by (intro that(1)) (simp_all add: redisReaderCreate_def redisReaderCreateWithFunctions_def)
  next
    case False
    then obtain e where e: "sdsempty A = Some (Ptr e)" "sds_ok e" "sds_str e = []"
      using sdsempty_spec [of A] by blast
    let ?r = "\<lparr>r_err = 0, r_errstr = [], r_buf = Ptr e, r_pos = 0, r_len = 0,
          r_maxbuf = REDIS_READER_MAX_BUF, r_rstack = replicate 9 blank_task, r_ridx = - 1,
          r_reply = 0, r_fn = Some (defaultFunctions A), r_privdata = 0\<rparr>"
    have "sdslen e = 0" using length_sds_str [OF e(2)] e(3) by simp
    then have "fresh_reader A ?r" using e by (simp add: fresh_reader_def idle_def buf_ok_def pending_def)
    moreover have "redisReaderCreate A = Some (Ptr ?r)"
      using e(1) \<open>grants A 560\<close> by (simp add: redisReaderCreate_def redisReaderCreateWithFunctions_def)
    ultimately show ?thesis by (intro that(2))
  qed
qed

lemma free_reader:
  assumes "r_fn r = Some (defaultFunctions A)" "resting (on_heap F) r h ty os"
  shows "\<exists>h'. redisReaderFree (Ptr r) h = Some h' \<and> on_heap F h' 0 (Building [])"
proof -
  have c: "callback freeObject r = Some freeReplyObject"
    using assms(1) by (simp add: callback_def defaultFunctions_def functions_of_def)
  obtain s where s: "r_buf r = Ptr s" using resting_buf [OF assms(2)] by (auto simp: buf_ok_def)
  obtain st where st: "on_heap F h (r_reply r) st"
    using assms(2) by (auto simp: resting_def)
  show ?thesis
  proof (cases "r_reply r = 0")
    case True
    with st default_builder.null_root [of F h st] s c show ?thesis
      by (auto simp: redisReaderFree_def sdsfree_def)
  next
    case False
    from default_builder.free [OF st False] False s c show ?thesis
      by (auto simp: redisReaderFree_def sdsfree_def)
  qed
qed

text \<open>One reply, delivered in one piece or in two.\<close>

lemma parse_whole: "resp_ok 0 v \<Longrightarrow> parse (- 1) (encode v) [] = Parsed v []"
  using parse_encode [of "[]" v "[]"] by (simp add: continue_def)

lemma parse_part:
  assumes "resp_ok 0 v" "encode v = x @ y" "y \<noteq> []"
  obtains ty q os where "parse (- 1) x [] = Waiting ty q os" "parse ty (q @ y) os = Parsed v []"
proof (cases "parse (- 1) x []")
  case (Waiting ty q os)
  with parse_append [of "- 1" x y "[]"] parse_whole [OF assms(1)] assms(2) that show ?thesis by simp
next
  case (Failure e)
  with parse_append [of "- 1" x y "[]"] parse_whole [OF assms(1)] assms(2) show ?thesis by simp
next
  case (Parsed w q)
  with parse_append [of "- 1" x y "[]"] parse_whole [OF assms(1)] assms(2,3) show ?thesis by simp
qed

lemma deliver_reply:
  assumes fn: "r_fn r = Some (defaultFunctions A)" and A: "\<And>k. grants A k"
    and rest: "resting (on_heap F) r h ty os" and res: "parse ty (pending r) (erase os) = Parsed v []"
  shows "\<exists>r' h' a. redisReaderGetReply r h = Some (REDIS_OK, r', h', a) \<and> on_heap F h' a (Complete v) \<and>
    idle r' \<and> r_reply r' = 0 \<and> pending r' = [] \<and> r_fn r' = r_fn r"
  using default_GetReply [OF fn rest] A unfolding res
  by (auto simp: delivers_def out_of_memory_def may_fail_def)

lemma wait_for_reply:
  assumes fn: "r_fn r = Some (defaultFunctions A)" and A: "\<And>k. grants A k"
    and rest: "resting (on_heap F) r h ty os" and res: "parse ty (pending r) (erase os) = Waiting ty' q os'"
  shows "\<exists>r' h' os1. redisReaderGetReply r h = Some (REDIS_OK, r', h', 0) \<and>
    resting (on_heap F) r' h' ty' os1 \<and> erase os1 = os' \<and> pending r' = q \<and> r_fn r' = r_fn r"
  using default_GetReply [OF fn rest] A unfolding res
  by (auto simp: delivers_def out_of_memory_def may_fail_def)

end
