(* ===== verification/Format.thy ===== *)
theory Format
  imports Sds_Text Protocol
begin

text \<open>
  Building commands, from \<^verbatim>\<open>lib/hiredis/hiredis.c\<close>: \<^verbatim>\<open>redisvFormatCommand\<close>,
  \<^verbatim>\<open>redisFormatCommandArgv\<close> and \<^verbatim>\<open>redisFormatSdsCommandArgv\<close>, and that what they
  build is the protocol's encoding of an array of bulk strings.
\<close>

section \<open>Sizes\<close>

fun countDigits_loop :: "nat \<Rightarrow> nat \<Rightarrow> nat" where
  "countDigits_loop v result =
     (if v < 10 then result
      else if v < 100 then result + 1
      else if v < 1000 then result + 2
      else if v < 10000 then result + 3
      else countDigits_loop (v div 10000) (result + 4))"

declare countDigits_loop.simps [simp del]

definition countDigits :: "nat \<Rightarrow> nat" where
  "countDigits v = countDigits_loop v 1"

definition bulklen :: "nat \<Rightarrow> nat" where
  "bulklen len = size_t (1 + countDigits len + 2 + len + 2)"

section \<open>The loops over an argument vector\<close>

text \<open>
  \<^verbatim>\<open>argvlen ? argvlen[j] : strlen(argv[j])\<close>. The arguments are memory blocks; an index
  outside of the arrays is undefined.
\<close>

definition nth_opt :: "'a list \<Rightarrow> nat \<Rightarrow> 'a option" where
  "nth_opt xs j = (if j < length xs then Some (xs ! j) else None)"

definition arg_len :: "bytes list \<Rightarrow> nat list option \<Rightarrow> nat \<Rightarrow> nat option" where
  "arg_len argv argvlen j =
     (case argvlen of
        Some ls \<Rightarrow> nth_opt ls j
      | None \<Rightarrow> do { a \<leftarrow> nth_opt argv j; c_strlen a })"

text \<open>\<^verbatim>\<open>totlen += bulklen(len)\<close> over the arguments \<^theory_text>\<open>js\<close>, in an \<^verbatim>\<open>int\<close> and in 64 bits.\<close>

fun int_total :: "bytes list \<Rightarrow> nat list option \<Rightarrow> nat list \<Rightarrow> int \<Rightarrow> int option" where
  "int_total argv argvlen [] totlen = Some totlen"
| "int_total argv argvlen (j # js) totlen = do {
     len \<leftarrow> arg_len argv argvlen j;
     int_total argv argvlen js (to_int (totlen + int (bulklen len)))
   }"

fun ull_total :: "bytes list \<Rightarrow> nat list option \<Rightarrow> nat list \<Rightarrow> nat \<Rightarrow> nat option" where
  "ull_total argv argvlen [] totlen = Some totlen"
| "ull_total argv argvlen (j # js) totlen = do {
     len \<leftarrow> arg_len argv argvlen j;
     ull_total argv argvlen js (size_t (totlen + bulklen len))
   }"

text \<open>Writing at the position \<^verbatim>\<open>pos\<close>, an \<^verbatim>\<open>int\<close>, of the command.\<close>

definition cmd_write :: "bytes \<Rightarrow> int \<Rightarrow> bytes \<Rightarrow> bytes option" where
  "cmd_write cmd pos src = (if pos < 0 then None else mem_write cmd (nat pos) src)"

text \<open>\<^verbatim>\<open>pos += sprintf(cmd+pos, ...)\<close>, which also writes a NUL.\<close>

definition cmd_sprintf :: "bytes \<Rightarrow> int \<Rightarrow> bytes \<Rightarrow> (bytes \<times> int) option" where
  "cmd_sprintf cmd pos out = do {
     cmd \<leftarrow> cmd_write cmd pos (out @ [NUL]);
     Some (cmd, to_int (pos + int (length out)))
   }"

definition cmd_arg :: "bytes \<Rightarrow> int \<Rightarrow> bytes \<Rightarrow> nat \<Rightarrow> (bytes \<times> int) option" where
  "cmd_arg cmd pos arg len = do {
     (cmd, pos) \<leftarrow> cmd_sprintf cmd pos (''$'' @ dec len @ CRLF);
     src \<leftarrow> mem_read arg 0 len;
     cmd \<leftarrow> cmd_write cmd pos src;
     let pos = to_int (pos + int len);
     cmd \<leftarrow> cmd_write cmd pos [CR];
     let pos = to_int (pos + 1);
     cmd \<leftarrow> cmd_write cmd pos [LF];
     Some (cmd, to_int (pos + 1))
   }"

fun cmd_args :: "bytes list \<Rightarrow> nat list option \<Rightarrow> nat list \<Rightarrow> bytes \<Rightarrow> int \<Rightarrow> (bytes \<times> int) option" where
  "cmd_args argv argvlen [] cmd pos = Some (cmd, pos)"
| "cmd_args argv argvlen (j # js) cmd pos = do {
     len \<leftarrow> arg_len argv argvlen j;
     a \<leftarrow> nth_opt argv j;
     (cmd, pos) \<leftarrow> cmd_arg cmd pos a len;
     cmd_args argv argvlen js cmd pos
   }"

text \<open>
  From the allocation of the command to its last byte: \<^theory_text>\<open>Null\<close> when the memory is not granted;
  undefined when \<^verbatim>\<open>totlen+1\<close> overflows, a write is outside the block, or the assertion
  \<^verbatim>\<open>pos == totlen\<close> fails.
\<close>

definition build_cmd :: "allocator \<Rightarrow> bytes list \<Rightarrow> nat list option \<Rightarrow> int \<Rightarrow> int \<Rightarrow> bytes ptr option" where
  "build_cmd A argv argvlen argc totlen =
     (if totlen + 1 > 2 ^ 31 - 1 then None
      else let req = nat ((totlen + 1) mod 2 ^ 64) in
      if \<not> grants A req then Some Null
      else do {
        (cmd, pos) \<leftarrow> cmd_sprintf (map (fresh A) [0..<req]) 0 (''*'' @ sdec argc @ CRLF);
        (cmd, pos) \<leftarrow> cmd_args argv argvlen [0..<nat argc] cmd pos;
        if pos \<noteq> totlen then None
        else do {
          cmd \<leftarrow> cmd_write cmd pos [NUL];
          Some (Ptr cmd)
        }
      })"

section \<open>Commands from an argument vector\<close>

text \<open>
  The functions return a number and, through \<^verbatim>\<open>target\<close>, the command: \<^theory_text>\<open>Null\<close> when nothing is
  stored there. \<^theory_text>\<open>target\<close> says whether the pointer is non-null.
\<close>

definition redisFormatCommandArgv ::
  "allocator \<Rightarrow> bool \<Rightarrow> int \<Rightarrow> bytes list \<Rightarrow> nat list option \<Rightarrow> (int \<times> bytes ptr) option" where
  "redisFormatCommandArgv A target argc argv argvlen =
     (if \<not> target then Some (- 1, Null)
      else do {
        totlen \<leftarrow> int_total argv argvlen [0..<nat argc] (int (1 + countDigits (nat (argc mod 2 ^ 64)) + 2));
        cmd \<leftarrow> build_cmd A argv argvlen argc totlen;
        Some (if cmd = Null then (- 1, Null) else (totlen, cmd))
      })"

definition redisFreeCommand :: "bytes ptr \<Rightarrow> bytes ptr option" where
  "redisFreeCommand cmd = free_ptr cmd"

text \<open>
  A call whose result is used without a check: null is undefined at the next use.
\<close>

fun sds_args :: "allocator \<Rightarrow> bytes list \<Rightarrow> nat list option \<Rightarrow> nat list \<Rightarrow> sds \<Rightarrow> sds option" where
  "sds_args A argv argvlen [] cmd = Some cmd"
| "sds_args A argv argvlen (j # js) cmd = do {
     len \<leftarrow> arg_len argv argvlen j;
     cmd \<leftarrow> sdscatfmt A cmd (''$%u'' @ CRLF @ [NUL]) [VaNum (of_nat len)];
     cmd \<leftarrow> deref cmd;
     a \<leftarrow> nth_opt argv j;
     cmd \<leftarrow> sdscatlen A cmd a len;
     cmd \<leftarrow> must cmd;
     cmd \<leftarrow> sdscatlen A cmd (CRLF @ [NUL]) 2;
     cmd \<leftarrow> must cmd;
     sds_args A argv argvlen js cmd
   }"

definition redisFormatSdsCommandArgv ::
  "allocator \<Rightarrow> bool \<Rightarrow> int \<Rightarrow> bytes list \<Rightarrow> nat list option \<Rightarrow> (int \<times> sds ptr) option" where
  "redisFormatSdsCommandArgv A target argc argv argvlen =
     (if \<not> target then Some (- 1, Null)
      else do {
        totlen \<leftarrow> ull_total argv argvlen [0..<nat argc] (1 + countDigits (nat (argc mod 2 ^ 64)) + 2);
        cmd \<leftarrow> sdsempty A;
        (case cmd of
           Ptr cmd \<Rightarrow> do {
             r \<leftarrow> sdsMakeRoomFor A cmd totlen;
             (case r of
                Failed p \<Rightarrow> Some (- 1, Null)
              | Moved cmd \<Rightarrow> do {
                  cmd \<leftarrow> sdscatfmt A cmd (''*%i'' @ CRLF @ [NUL]) [VaNum (word_of_int argc)];
                  cmd \<leftarrow> deref cmd;
                  cmd \<leftarrow> sds_args A argv argvlen [0..<nat argc] cmd;
                  if sdslen cmd \<noteq> totlen then None
                  else Some (to_int (int totlen), Ptr cmd)
                })
           }
         | _ \<Rightarrow> Some (- 1, Null))
      })"

definition redisFreeSdsCommand :: "sds ptr \<Rightarrow> sds ptr option" where
  "redisFreeSdsCommand cmd = sdsfree cmd"

section \<open>Commands from a format\<close>

text \<open>The variables of \<^verbatim>\<open>redisvFormatCommand\<close> that its loop changes.\<close>

record vstate =
  v_curarg :: sds
  v_touched :: bool
  v_argv :: "sds list"
  v_totlen :: int

text \<open>
  Leaving the loop: at the end of the format, or through \<^verbatim>\<open>goto\<close> with an error type and
  the pointer that \<^verbatim>\<open>curarg\<close> then is.
\<close>

datatype vresult = VDone vstate | VError int "sds ptr" "sds list"

definition is_intfmt :: "char \<Rightarrow> bool" where "is_intfmt c \<longleftrightarrow> c \<in> set ''diouxX''"
definition is_floatfmt :: "char \<Rightarrow> bool" where "is_floatfmt c \<longleftrightarrow> c \<in> set ''eEfFgGaA''"
definition is_flag :: "char \<Rightarrow> bool" where "is_flag c \<longleftrightarrow> c \<in> set ''#0-+ ''"

text \<open>
  The detection of a printf conversion, from the character after the percent sign: the part of
  the format from its last character on, or \<^theory_text>\<open>Null\<close> for a format error. \<^verbatim>\<open>strchr\<close> also finds
  the NUL that ends its string, so a NUL is taken for an integer conversion when no size is
  before it. Reading past the block is undefined.
\<close>

definition skip_precision :: "bytes \<Rightarrow> bytes" where
  "skip_precision p = (case p of
     [] \<Rightarrow> []
   | c # q \<Rightarrow> if c = CHR ''.'' then dropWhile is_digit q else p)"

definition sized :: "bytes \<Rightarrow> bytes ptr option" where
  "sized p = (case p of
     [] \<Rightarrow> None
   | c # q \<Rightarrow> Some (if is_intfmt c then Ptr p else Null))"

definition detect_printf :: "bytes \<Rightarrow> bytes ptr option" where
  "detect_printf p0 =
     (let p = skip_precision (dropWhile is_digit (dropWhile is_flag p0))
      in case p of
           [] \<Rightarrow> None
         | c # q \<Rightarrow>
             if is_intfmt c \<or> c = NUL then Some (Ptr p)
             else if is_floatfmt c then Some (Ptr p)
             else if c = CHR ''h'' then
               (if q = [] then None else if hd q = CHR ''h'' then sized (tl q) else sized q)
             else if c = CHR ''l'' then
               (if q = [] then None else if hd q = CHR ''l'' then sized (tl q) else sized q)
             else Some Null)"

text \<open>\<^verbatim>\<open>goto memory_err\<close> after a failed append, or the loop variables after it.\<close>

definition appended :: "vstate \<Rightarrow> sds_ret \<Rightarrow> vstate + vresult" where
  "appended st r = (case r of
     Moved s \<Rightarrow> Inl (st\<lparr>v_curarg := s, v_touched := True\<rparr>)
   | Failed p \<Rightarrow> Inr (VError (- 1) p (v_argv st)))"

text \<open>
  A printf conversion \<^theory_text>\<open>f\<close>, from the character after the percent sign: what is left of the
  format and of the arguments, and the new loop variables. \<^theory_text>\<open>pf\<close> is the text that
  \<^verbatim>\<open>vsnprintf\<close> renders for a format with one conversion and its argument; an incomplete
  conversion is undefined there. A conversion too long for \<^verbatim>\<open>_format\<close> takes its argument and
  appends nothing.
\<close>

definition v_printf :: "allocator \<Rightarrow> (bytes \<Rightarrow> 64 word \<Rightarrow> bytes) \<Rightarrow> bytes \<Rightarrow> va list \<Rightarrow> vstate \<Rightarrow>
    (bytes \<times> va list \<times> (vstate + vresult)) option" where
  "v_printf A pf f ap st = do {
     q \<leftarrow> detect_printf f;
     (case q of
        Ptr p \<Rightarrow>
          (case ap of
             VaNum w # ap \<Rightarrow>
               let l = Suc (Suc (length f) - length p)
               in if l < 16 - 2
                  then if hd p = NUL then None
                  else do {
                    let fmt = take l (CHR ''%'' # f);
                    r \<leftarrow> sdscatvprintf A (v_curarg st) (length fmt) (pf fmt w);
                    Some (tl p, ap, appended st r)
                  }
                  else Some (tl f, ap, appended st (Moved (v_curarg st)))
           | _ \<Rightarrow> None)
      | _ \<Rightarrow> Some (tl f, ap, Inr (VError (- 2) (Ptr (v_curarg st)) (v_argv st))))
   }"

text \<open>One conversion.\<close>

definition v_conversion :: "allocator \<Rightarrow> (bytes \<Rightarrow> 64 word \<Rightarrow> bytes) \<Rightarrow> bytes \<Rightarrow> va list \<Rightarrow> vstate \<Rightarrow>
    (bytes \<times> va list \<times> (vstate + vresult)) option" where
  "v_conversion A pf f ap st =
     (case f of
        [] \<Rightarrow> None
      | c1 # f' \<Rightarrow>
          if c1 = CHR ''s'' then
            (case ap of
               VaStr arg # ap \<Rightarrow> do {
                 size \<leftarrow> c_strlen arg;
                 r \<leftarrow> (if size > 0 then sdscatlen A (v_curarg st) arg size else Some (Moved (v_curarg st)));
                 Some (f', ap, appended st r)
               }
             | _ \<Rightarrow> None)
          else if c1 = CHR ''b'' then
            (case ap of
               VaStr arg # VaNum w # ap \<Rightarrow> do {
                 let size = unat w;
                 r \<leftarrow> (if size > 0 then sdscatlen A (v_curarg st) arg size else Some (Moved (v_curarg st)));
                 Some (f', ap, appended st r)
               }
             | _ \<Rightarrow> None)
          else if c1 = CHR ''%'' then do {
            r \<leftarrow> sdscat A (v_curarg st) (''%'' @ [NUL]);
            Some (f', ap, appended st r)
          }
          else v_printf A pf f ap st)"

text \<open>A space ends the current argument.\<close>

definition v_space :: "allocator \<Rightarrow> vstate \<Rightarrow> (vstate + vresult) option" where
  "v_space A st =
     (if \<not> v_touched st then Some (Inl st)
      else if \<not> grants A (8 * (length (v_argv st) + 1))
      then Some (Inr (VError (- 1) (Ptr (v_curarg st)) (v_argv st)))
      else do {
        let argv = v_argv st @ [v_curarg st];
        e \<leftarrow> sdsempty A;
        (case e of
           Ptr s \<Rightarrow> Some (Inl (st\<lparr>v_curarg := s, v_touched := False, v_argv := argv,
             v_totlen := to_int (v_totlen st + int (bulklen (sdslen (v_curarg st))))\<rparr>))
         | p \<Rightarrow> Some (Inr (VError (- 1) p argv)))
      })"

lemma skip_precision_length: "length (skip_precision p) \<le> length p"
  by (auto simp: skip_precision_def length_dropWhile_le le_SucI split: list.split)

lemma detect_printf_length:
  assumes "detect_printf f = Some (Ptr p)"
  shows "p \<noteq> [] \<and> length p \<le> length f"
proof -
  let ?p = "skip_precision (dropWhile is_digit (dropWhile is_flag f))"
  have "length ?p \<le> length f"
    by (meson skip_precision_length length_dropWhile_le le_trans)
  moreover have "p \<noteq> [] \<and> length p \<le> length ?p"
  proof -
    define P where "P = ?p"
    show ?thesis using assms unfolding detect_printf_def P_def [symmetric]
      by (cases P) (auto simp: sized_def Let_def split: list.splits if_splits)
  qed
  ultimately show ?thesis by linarith
qed

lemma v_printf_length:
  assumes "v_printf A pf f ap st = Some (f', ap', x)" "f \<noteq> []"
  shows "length f' < length f"
proof -
  obtain q where q: "detect_printf f = Some q" using assms by (auto simp: v_printf_def bind_eq_Some_conv)
  have "f' = tl f \<or> (\<exists>p. q = Ptr p \<and> f' = tl p)"
    using assms(1) q by (auto simp: v_printf_def Let_def bind_eq_Some_conv
      split: ptr.splits list.splits va.splits if_splits)
  then show ?thesis
  proof
    assume "\<exists>p. q = Ptr p \<and> f' = tl p"
    then obtain p where p: "q = Ptr p" "f' = tl p" by blast
    then have "p \<noteq> [] \<and> length p \<le> length f" using detect_printf_length [of f p] q by simp
    with p show ?thesis by (cases p) auto
  qed (use assms(2) in simp)
qed

lemma v_conversion_length:
  assumes "v_conversion A pf f ap st = Some (f', ap', x)"
  shows "length f' < length f"
proof (cases f)
  case (Cons c g)
  show ?thesis
  proof (cases "c \<in> set ''sb%''")
    case True
    with assms Cons show ?thesis
      by (auto simp: v_conversion_def Let_def bind_eq_Some_conv split: list.splits va.splits)
  next
    case False
    with assms Cons v_printf_length [of A pf f ap st f' ap' x] show ?thesis
      by (auto simp: v_conversion_def)
  qed
qed (use assms in \<open>simp add: v_conversion_def\<close>)

text \<open>The loop over the format, a block from \<^verbatim>\<open>c\<close> on.\<close>

function v_loop :: "allocator \<Rightarrow> (bytes \<Rightarrow> 64 word \<Rightarrow> bytes) \<Rightarrow> bytes \<Rightarrow> va list \<Rightarrow> vstate \<Rightarrow>
    vresult option" where
  "v_loop A pf [] ap st = None"
| "v_loop A pf (c # f) ap st =
     (if c = NUL then Some (VDone st)
      else if c = CHR ''%'' \<and> f = [] then None
      else if c \<noteq> CHR ''%'' \<or> hd f = NUL then
        if c = CHR '' '' then
          (case v_space A st of
             None \<Rightarrow> None
           | Some (Inr e) \<Rightarrow> Some e
           | Some (Inl st) \<Rightarrow> v_loop A pf f ap st)
        else
          (case sdscatlen A (v_curarg st) (c # f) 1 of
             None \<Rightarrow> None
           | Some r \<Rightarrow>
               (case appended st r of
                  Inr e \<Rightarrow> Some e
                | Inl st \<Rightarrow> v_loop A pf f ap st))
      else
        (case v_conversion A pf f ap st of
           None \<Rightarrow> None
         | Some (f, ap, Inr e) \<Rightarrow> Some e
         | Some (f, ap, Inl st) \<Rightarrow> v_loop A pf f ap st))"
  by pat_completeness auto
termination
  by (relation "measure (\<lambda>(A, pf, f, ap, st). length f)") (auto dest: v_conversion_length)

text \<open>\<^verbatim>\<open>cleanup\<close>\<close>

definition v_cleanup :: "int \<Rightarrow> sds ptr \<Rightarrow> sds list \<Rightarrow> (int \<times> bytes ptr) option" where
  "v_cleanup error_type curarg argv = do {
     _ \<leftarrow> sdsfree curarg;
     Some (error_type, Null)
   }"

definition redisvFormatCommand ::
  "allocator \<Rightarrow> (bytes \<Rightarrow> 64 word \<Rightarrow> bytes) \<Rightarrow> bool \<Rightarrow> bytes \<Rightarrow> va list \<Rightarrow> (int \<times> bytes ptr) option" where
  "redisvFormatCommand A pf target format ap =
     (if \<not> target then Some (- 1, Null)
      else do {
        e \<leftarrow> sdsempty A;
        (case e of
           Ptr s \<Rightarrow> do {
             res \<leftarrow> v_loop A pf format ap \<lparr>v_curarg = s, v_touched = False, v_argv = [], v_totlen = 0\<rparr>;
             (case res of
                VError error_type p argv \<Rightarrow> v_cleanup error_type p argv
              | VDone st \<Rightarrow>
                  if v_touched st \<and> \<not> grants A (8 * (length (v_argv st) + 1))
                  then v_cleanup (- 1) (Ptr (v_curarg st)) (v_argv st)
                  else do {
                    let argv = (if v_touched st then v_argv st @ [v_curarg st] else v_argv st);
                    let total = (if v_touched st
                       then to_int (v_totlen st + int (bulklen (sdslen (v_curarg st)))) else v_totlen st);
                    let argc = int (length argv);
                    let total = to_int (total + int (1 + countDigits (length argv) + 2));
                    cmd \<leftarrow> build_cmd A (map buf argv) (Some (map sdslen argv)) argc total;
                    if cmd = Null then v_cleanup (- 1) Null argv
                    else Some (total, cmd)
                  })
           }
         | _ \<Rightarrow> Some (- 1, Null))
      })"

definition redisFormatCommand ::
  "allocator \<Rightarrow> (bytes \<Rightarrow> 64 word \<Rightarrow> bytes) \<Rightarrow> bool \<Rightarrow> bytes \<Rightarrow> va list \<Rightarrow> (int \<times> bytes ptr) option" where
  "redisFormatCommand A pf target format ap = do {
     (len, cmd) \<leftarrow> redisvFormatCommand A pf target format ap;
     Some (if len < 0 then - 1 else len, cmd)
   }"

section \<open>The encoding of a command\<close>

definition bulk :: "bytes \<Rightarrow> bytes" where
  "bulk a = ''$'' @ dec (length a) @ CRLF @ a @ CRLF"

definition command :: "bytes list \<Rightarrow> bytes" where
  "command args = ''*'' @ dec (length args) @ CRLF @ concat (map bulk args)"

lemma command_encode: "command args = encode (RArr (map RBulk args))"
proof -
  have "concat (map bulk args) = concat (map encode (map RBulk args))"
    by (induction args) (simp_all add: bulk_def)
  then show ?thesis by (simp add: command_def)
qed

lemma countDigits_loop_dec: "countDigits_loop v (Suc r) = r + length (dec v)"
proof (induction v arbitrary: r rule: less_induct)
  case (less v)
  have q: "v div 10 div 10 = v div 100" "v div 100 div 10 = v div 1000" "v div 1000 div 10 = v div 10000"
    by (simp_all add: div_mult2_eq [symmetric])
  have lt: "v div 10 < 10 \<longleftrightarrow> v < 100" "v div 100 < 10 \<longleftrightarrow> v < 1000" "v div 1000 < 10 \<longleftrightarrow> v < 10000"
    by (simp_all add: div_less_iff_less_mult)
  have step: "length (dec n) = (if n < 10 then 1 else Suc (length (dec (n div 10))))" for n
    by (subst dec.simps) simp
  have d: "length (dec v) = (if v < 10 then 1 else if v < 100 then 2 else if v < 1000 then 3
      else if v < 10000 then 4 else 4 + length (dec (v div 10000)))"
    using step [of v] step [of "v div 10"] step [of "v div 100"] step [of "v div 1000"]
    unfolding q lt by (auto split: if_splits)
  show ?case
  proof (cases "v < 10000")
    case True
    then show ?thesis
      by (subst countDigits_loop.simps) (simp add: d)
  next
    case False
    then have "countDigits_loop v (Suc r) = countDigits_loop (v div 10000) (Suc (r + 4))"
      by (subst countDigits_loop.simps) simp
    also have "\<dots> = r + 4 + length (dec (v div 10000))" using False by (intro less) simp
    also have "\<dots> = r + length (dec v)" using False by (simp add: d)
    finally show ?thesis .
  qed
qed

lemma countDigits_dec: "countDigits v = length (dec v)"
  using countDigits_loop_dec [of v 0] by (simp add: countDigits_def)

lemma length_bulk: "length (bulk a) = 5 + length (dec (length a)) + length a"
  by (simp add: bulk_def)

lemma length_dec_self: "length (dec n) \<le> Suc n"
proof (induction n rule: dec.induct)
  case (1 n)
  then show ?case by (cases "n < 10") (auto simp: dec.simps [of n])
qed

lemma bulklen_bulk: "length a < 2 ^ 62 \<Longrightarrow> bulklen (length a) = length (bulk a)"
  using length_dec_self [of "length a"]
  by (simp add: bulklen_def countDigits_dec length_bulk size_t_small)

section \<open>The argument vector\<close>

text \<open>The strings that an argument vector stands for.\<close>

definition vector :: "bytes list \<Rightarrow> nat list option \<Rightarrow> bytes list \<Rightarrow> bool" where
  "vector argv argvlen args \<longleftrightarrow> length argv = length args \<and>
     (\<forall>j < length args. arg_len argv argvlen j = Some (length (args ! j)) \<and>
        mem_read (argv ! j) 0 (length (args ! j)) = Some (args ! j))"

lemma vector_lengths: "vector args (Some (map length args)) args"
  by (simp add: vector_def arg_len_def nth_opt_def mem_read_def)

lemma vector_strings:
  assumes "\<forall>a \<in> set args. NUL \<notin> set a"
  shows "vector (map (\<lambda>a. a @ [NUL]) args) None args"
  using assms by (simp add: vector_def arg_len_def nth_opt_def mem_read_def c_strlen_append)

lemma vector_nth:
  "vector argv argvlen args \<Longrightarrow> j < length args \<Longrightarrow>
   arg_len argv argvlen j = Some (length (args ! j)) \<and> nth_opt argv j = Some (argv ! j) \<and>
   mem_read (argv ! j) 0 (length (args ! j)) = Some (args ! j)"
  by (simp add: vector_def nth_opt_def)

abbreviation bulks :: "bytes list \<Rightarrow> nat list \<Rightarrow> bytes" where
  "bulks args js \<equiv> concat (map (\<lambda>j. bulk (args ! j)) js)"

lemma int_total_spec:
  assumes "vector argv argvlen args" "set js \<subseteq> {..<length args}" "t + length (bulks args js) < 2 ^ 31"
  shows "int_total argv argvlen js (int t) = Some (int (t + length (bulks args js)))"
  using assms
proof (induction js arbitrary: t)
  case (Cons j js)
  let ?a = "args ! j"
  note v = vector_nth [OF Cons(2), of j]
  have "length ?a < 2 ^ 62" using Cons(4) by (simp add: length_bulk)
  then have b: "bulklen (length ?a) = length (bulk ?a)" by (rule bulklen_bulk)
  have ti: "to_int (int t + int (length (bulk ?a))) = int (t + length (bulk ?a))"
    using Cons(4) by (subst to_int_nat [symmetric]) simp_all
  show ?case using Cons(1) [of "t + length (bulk ?a)"] Cons(2-4) v b ti by (simp add: add.assoc)
qed simp

lemma ull_total_spec:
  assumes "vector argv argvlen args" "set js \<subseteq> {..<length args}" "t + length (bulks args js) < 2 ^ 62"
  shows "ull_total argv argvlen js t = Some (t + length (bulks args js))"
  using assms
proof (induction js arbitrary: t)
  case (Cons j js)
  let ?a = "args ! j"
  note v = vector_nth [OF Cons(2), of j]
  have "length ?a < 2 ^ 62" using Cons(4) by (simp add: length_bulk)
  then have b: "bulklen (length ?a) = length (bulk ?a)" by (rule bulklen_bulk)
  have ti: "size_t (t + length (bulk ?a)) = t + length (bulk ?a)"
    using Cons(4) by (intro size_t_small) simp
  show ?case using Cons(1) [of "t + length (bulk ?a)"] Cons(2-4) v b ti by (simp add: add.assoc)
qed simp

section \<open>Filling the block of the command\<close>

text \<open>The block after \<^theory_text>\<open>pre\<close> was written and before the rest is.\<close>

definition filled :: "bytes \<Rightarrow> bytes \<Rightarrow> int \<Rightarrow> nat \<Rightarrow> bool" where
  "filled pre cmd pos n \<longleftrightarrow> length cmd = n \<and> n < 2 ^ 31 \<and> pos = int (length pre) \<and>
     length pre \<le> n \<and> take (length pre) cmd = pre"

lemma cmd_write_prefix:
  assumes "filled pre cmd pos n" "src = x @ y" "length pre + length src \<le> n"
  shows "\<exists>cmd'. cmd_write cmd pos src = Some cmd' \<and> filled (pre @ x) cmd' (to_int (pos + int (length x))) n"
proof -
  let ?c = "pre @ src @ drop (length pre + length src) cmd"
  have "cmd_write cmd pos src = Some ?c"
    using assms by (simp add: filled_def cmd_write_def mem_write_def)
  moreover have "to_int (pos + int (length x)) = int (length pre + length x)"
    using assms by (subst to_int_nat [symmetric]) (simp_all add: filled_def)
  ultimately show ?thesis using assms by (simp add: filled_def)
qed

lemma cmd_write_filled:
  assumes "filled pre cmd pos n" "length pre + length src \<le> n"
  shows "\<exists>cmd'. cmd_write cmd pos src = Some cmd' \<and> filled (pre @ src) cmd' (to_int (pos + int (length src))) n"
  using cmd_write_prefix [OF assms(1) _ assms(2), of src "[]"] by simp

lemma cmd_sprintf_filled:
  assumes "filled pre cmd pos n" "length pre + length out < n"
  shows "\<exists>cmd' pos'. cmd_sprintf cmd pos out = Some (cmd', pos') \<and> filled (pre @ out) cmd' pos' n"
  using cmd_write_prefix [OF assms(1), of "out @ [NUL]" out "[NUL]"] assms(2) by (auto simp: cmd_sprintf_def)

lemma cmd_arg_filled:
  assumes f: "filled pre cmd pos n" and a: "mem_read arg 0 (length a) = Some a"
    and room: "length pre + length (bulk a) < n"
  shows "\<exists>cmd' pos'. cmd_arg cmd pos arg (length a) = Some (cmd', pos') \<and> filled (pre @ bulk a) cmd' pos' n"
proof -
  let ?h = "''$'' @ dec (length a) @ CRLF"
  have l: "length pre + length ?h + length a + 2 < n" using room by (simp add: bulk_def)
  have "length pre + length ?h < n" using l by simp
  from cmd_sprintf_filled [OF f this] obtain c1 p1 where 1: "cmd_sprintf cmd pos ?h = Some (c1, p1)"
    "filled (pre @ ?h) c1 p1 n" by blast
  let ?p2 = "to_int (p1 + int (length a))"
  have "length (pre @ ?h) + length a \<le> n" using l by simp
  from cmd_write_filled [OF 1(2) this] obtain c2 where 2: "cmd_write c1 p1 a = Some c2"
    "filled ((pre @ ?h) @ a) c2 ?p2 n" by blast
  let ?p3 = "to_int (?p2 + int (length [CR]))"
  have "length ((pre @ ?h) @ a) + length [CR] \<le> n" using l by simp
  from cmd_write_filled [OF 2(2) this] obtain c3 where 3: "cmd_write c2 ?p2 [CR] = Some c3"
    "filled (((pre @ ?h) @ a) @ [CR]) c3 ?p3 n" by blast
  let ?p4 = "to_int (?p3 + int (length [LF]))"
  have "length (((pre @ ?h) @ a) @ [CR]) + length [LF] \<le> n" using l by simp
  from cmd_write_filled [OF 3(2) this] obtain c4 where 4: "cmd_write c3 ?p3 [LF] = Some c4"
    "filled ((((pre @ ?h) @ a) @ [CR]) @ [LF]) c4 ?p4 n" by blast
  have "cmd_arg cmd pos arg (length a) = Some (c4, ?p4)"
    using 1(1) 2(1) 3(1) 4(1) a by (simp add: cmd_arg_def)
  moreover have "(((pre @ ?h) @ a) @ [CR]) @ [LF] = pre @ bulk a" by (simp add: bulk_def)
  ultimately show ?thesis using 4(2) by metis
qed

lemma cmd_args_filled:
  assumes "vector argv argvlen args" "set js \<subseteq> {..<length args}" "filled pre cmd pos n"
    "length pre + length (bulks args js) < n"
  shows "\<exists>cmd' pos'. cmd_args argv argvlen js cmd pos = Some (cmd', pos') \<and>
    filled (pre @ bulks args js) cmd' pos' n"
  using assms
proof (induction js arbitrary: pre cmd pos)
  case (Cons j js)
  note v = vector_nth [OF Cons(2), of j]
  have "mem_read (argv ! j) 0 (length (args ! j)) = Some (args ! j)" "length pre + length (bulk (args ! j)) < n"
    using v Cons(3,5) by simp_all
  from cmd_arg_filled [OF Cons(4) this] obtain c p where
    1: "cmd_arg cmd pos (argv ! j) (length (args ! j)) = Some (c, p)"
    "filled (pre @ bulk (args ! j)) c p n" by blast
  have "length (pre @ bulk (args ! j)) + length (bulks args js) < n" "set js \<subseteq> {..<length args}"
    using Cons(3,5) by auto
  from Cons(1) [OF Cons(2) this(2) 1(2) this(1)] 1(1) v Cons(3) show ?case by auto
qed simp

lemma bulks_all: "bulks args [0..<length args] = concat (map bulk args)"
  using arg_cong [OF map_nth [of args], of "map bulk"] by (simp add: comp_def)

lemma all_indices: "set [0..<n] \<subseteq> {..<n}"
  by auto

lemma build_cmd_spec:
  assumes v: "vector argv argvlen args" and len: "length (command args) < 2 ^ 31 - 1"
  shows "build_cmd A argv argvlen (int (length args)) (int (length (command args))) =
    Some (if grants A (length (command args) + 1) then Ptr (command args @ [NUL]) else Null)"
proof -
  let ?t = "length (command args)" and ?h = "''*'' @ dec (length args) @ CRLF"
  have cmd: "command args = ?h @ bulks args [0..<length args]"
    by (simp add: command_def bulks_all)
  have req: "nat ((int ?t + 1) mod 2 ^ 64) = ?t + 1" using len by simp
  have le: "\<not> int ?t + 1 > 2 ^ 31 - 1" using len by simp
  show ?thesis
  proof (cases "grants A (?t + 1)")
    case False
    then show ?thesis using le unfolding build_cmd_def req by simp
  next
    case True
    let ?b = "map (fresh A) [0..<?t + 1]"
    have "filled [] ?b 0 (?t + 1)" using len by (simp add: filled_def)
    moreover have "length [] + length ?h < ?t + 1" by (simp add: command_def)
    ultimately obtain c1 p1 where 1: "cmd_sprintf ?b 0 ?h = Some (c1, p1)" "filled ([] @ ?h) c1 p1 (?t + 1)"
      using cmd_sprintf_filled by blast
    have "length ([] @ ?h) + length (bulks args [0..<length args]) < ?t + 1"
      using arg_cong [OF cmd, of length] by simp
    from cmd_args_filled [OF v all_indices 1(2) this] obtain c2 p2 where
      2: "cmd_args argv argvlen [0..<length args] c1 p1 = Some (c2, p2)"
      "filled (([] @ ?h) @ bulks args [0..<length args]) c2 p2 (?t + 1)" by blast
    have f: "filled (command args) c2 p2 (?t + 1)" using 2(2) unfolding cmd by simp
    have "?t + length [NUL] \<le> ?t + 1" by simp
    from cmd_write_filled [OF f this] obtain c3 where 3: "cmd_write c2 p2 [NUL] = Some c3"
      "filled (command args @ [NUL]) c3 (to_int (p2 + int (length [NUL]))) (?t + 1)" by blast
    have "take (length c3) c3 = command args @ [NUL]" using 3(2) unfolding filled_def by simp
    then have c3: "c3 = command args @ [NUL]" by simp
    have p2: "p2 = int ?t" using f by (simp add: filled_def)
    have h: "''*'' @ sdec (int (length args)) @ CRLF = ?h" by (simp add: sdec_def)
    show ?thesis using True le 1(1) 2(1) 3(1) c3 p2 unfolding build_cmd_def req h Let_def by simp
  qed
qed

lemma header_length: "int (1 + countDigits (nat (int n mod 2 ^ 64)) + 2) = int (3 + length (dec n))"
  if "n < 2 ^ 64"
  using that by (simp add: countDigits_dec)

lemma length_le_bulks: "length args \<le> length (concat (map bulk args))"
  by (induction args) (simp_all add: length_bulk)

lemma redisFormatCommandArgv_spec:
  assumes v: "vector argv argvlen args" and len: "length (command args) < 2 ^ 31 - 1"
  shows "redisFormatCommandArgv A True (int (length args)) argv argvlen =
    Some (if grants A (length (command args) + 1)
      then (int (length (command args)), Ptr (command args @ [NUL])) else (- 1, Null))"
proof -
  let ?t = "3 + length (dec (length args))"
  have t: "?t + length (bulks args [0..<length args]) = length (command args)"
    by (simp add: command_def bulks_all)
  have small: "length args < 2 ^ 64" using length_le_bulks [of args] len by (simp add: command_def)
  have "int_total argv argvlen [0..<length args] (int ?t) = Some (int (length (command args)))"
    using int_total_spec [OF v all_indices, of ?t] len unfolding t by simp
  then show ?thesis
    using build_cmd_spec [OF v len, of A]
    unfolding redisFormatCommandArgv_def header_length [OF small] by simp
qed

section \<open>The command as an SDS string\<close>

lemma sdsMakeRoomFor_granted_any:
  assumes "\<And>k. grants A k"
  shows "sdsMakeRoomFor A s n \<noteq> Some (Failed p)"
  using assms
  by (auto simp: sdsMakeRoomFor_def Let_def sds_realloc_body_def sds_malloc_body_def bind_eq_Some_conv
      split: if_splits)

lemma room_granted:
  assumes "\<And>k. grants A k"
  shows "(if P then sdsMakeRoomFor A s n else Some (Moved s)) = None \<or>
    (\<exists>t. (if P then sdsMakeRoomFor A s n else Some (Moved s)) = Some (Moved t))"
proof (cases "sdsMakeRoomFor A s n")
  case (Some r)
  then show ?thesis using sdsMakeRoomFor_granted_any [OF assms, of s n] by (cases r) auto
qed simp

lemma fmt_put_granted:
  assumes "\<And>k. grants A k"
  shows "fmt_put A s i str = None \<or> (\<exists>t j. fmt_put A s i str = Some (Ptr (t, j)))"
  using room_granted [OF assms, of "sdsavail s < length str" s "length str"]
  unfolding fmt_put_def Let_def
  by (auto simp: bind_eq_None_conv bind_eq_Some_conv simp del: not_None_eq)

lemma catfmt_loop_granted:
  assumes "\<And>k. grants A k"
  shows "catfmt_loop A s i f ap \<noteq> Some Null"
proof (induction "length f" arbitrary: s i f ap rule: less_induct)
  case less
  show ?case
  proof (cases f)
    case (Cons c g)
    have ih: "length g' < length f \<Longrightarrow> catfmt_loop A s i g' ap \<noteq> Some Null" for s i g' ap
      using less by blast
    show ?thesis
    proof (cases "c = NUL")
      case False
      show ?thesis
        using room_granted [OF assms, of "sdsavail s = 0" s 1]
      proof
        assume "\<exists>t. (if sdsavail s = 0 then sdsMakeRoomFor A s 1 else Some (Moved s)) = Some (Moved t)"
        then obtain t where t: "(if sdsavail s = 0 then sdsMakeRoomFor A s 1 else Some (Moved s)) = Some (Moved t)"
          by blast
        show ?thesis
        proof (cases "c = CHR ''%''")
          case plain: False
          show ?thesis unfolding Cons catfmt_loop.simps t using False plain ih Cons
            by (cases "fmt_char t i c") auto
        next
          case True
          show ?thesis
          proof (cases g)
            case Nil
            then show ?thesis unfolding Cons catfmt_loop.simps t using False True by simp
          next
            case g: (Cons d h)
            show ?thesis
            proof (cases "is_conv d")
              case False
              show ?thesis unfolding Cons catfmt_loop.simps t using \<open>c \<noteq> NUL\<close> True False ih Cons g
                by (cases "fmt_char t i d") auto
            next
              case conv: True
              show ?thesis
              proof (cases "fmt_text A d ap")
                case (Some x)
                then show ?thesis using fmt_put_granted [OF assms, of t i "fst x"]
                  unfolding Cons catfmt_loop.simps t using \<open>c \<noteq> NUL\<close> True conv ih Cons g
                  by (cases x) auto
              qed (use t \<open>c \<noteq> NUL\<close> True conv g Cons in simp)
            qed
          qed
        qed
      qed (use False Cons in simp)
    qed (use Cons in simp)
  qed simp
qed

lemma sdscatfmt_granted:
  assumes "sds_ok s" "list_all va_ok ap" "expand_fmt fmt ap = Some t"
    "length (sds_str s) + length t < 2 ^ 31" "\<And>k. grants A k"
  shows "\<exists>s'. sdscatfmt A s fmt ap = Some (Ptr s') \<and> sds_ok s' \<and> sds_str s' = sds_str s @ t"
  using sdscatfmt_spec [OF assms(1-4), of A] catfmt_loop_granted [OF assms(5)]
  by (auto simp: sdscatfmt_def)

lemma sds_args_spec:
  assumes "vector argv argvlen args" "set js \<subseteq> {..<length args}" "sds_ok cmd" "\<And>k. grants A k"
    "length (sds_str cmd) + length (bulks args js) < 2 ^ 31"
  shows "\<exists>cmd'. sds_args A argv argvlen js cmd = Some cmd' \<and> sds_ok cmd' \<and>
    sds_str cmd' = sds_str cmd @ bulks args js"
  using assms(1-3,5)
proof (induction js arbitrary: cmd)
  case (Cons j js)
  let ?a = "args ! j"
  note v = vector_nth [OF Cons(2), of j]
  have l: "length (sds_str cmd) + length (bulk ?a) + length (bulks args js) < 2 ^ 31"
    using Cons(5) by simp
  let ?h = "''$'' @ dec (length ?a) @ CRLF"
  have "unat (of_nat (length ?a) :: 64 word) mod 2 ^ 32 = length ?a"
    using l by (simp add: unat_of_nat length_bulk)
  then have "expand_fmt (''$%u'' @ CRLF @ [NUL]) [VaNum (of_nat (length ?a))] = Some ?h"
    by (simp add: is_conv_def va_text_def)
  moreover have "length (sds_str cmd) + length ?h < 2 ^ 31" using l by (simp add: bulk_def)
  moreover have "list_all va_ok [VaNum (of_nat (length ?a))]" by (simp add: va_ok_def)
  ultimately have "\<exists>c. sdscatfmt A cmd (''$%u'' @ CRLF @ [NUL]) [VaNum (of_nat (length ?a))] = Some (Ptr c) \<and>
      sds_ok c \<and> sds_str c = sds_str cmd @ ?h"
    using sdscatfmt_granted [OF Cons(4) _ _ _ assms(4)] by blast
  then obtain c1 where 1: "sdscatfmt A cmd (''$%u'' @ CRLF @ [NUL]) [VaNum (of_nat (length ?a))] = Some (Ptr c1)"
    "sds_ok c1" "sds_str c1 = sds_str cmd @ ?h" by blast
  have a: "length ?a \<le> length (argv ! j)" "take (length ?a) (argv ! j) = ?a"
    using v Cons(3) by (simp_all add: mem_read_Some)
  have s1: "sdslen c1 + length ?a < 2 ^ 63" using l length_sds_str [OF 1(2)] 1(3) by (simp add: bulk_def)
  obtain c2 where 2: "sdscatlen A c1 (argv ! j) (length ?a) = Some (Moved c2)"
    using sdscatlen_granted [OF 1(2) a(1) s1 assms(4)] by blast
  then have 2: "sdscatlen A c1 (argv ! j) (length ?a) = Some (Moved c2)" "sds_ok c2"
    "sds_str c2 = sds_str c1 @ ?a" "sdslen c2 = sdslen c1 + length ?a"
    by (cases rule: sdscatlen_cases [OF 1(2) a(1) s1, of A]; simp add: a)+
  have s2: "sdslen c2 + 2 < 2 ^ 63" "2 \<le> length (CRLF @ [NUL])"
    using l length_sds_str [OF 1(2)] 1(3) 2(4) by (simp_all add: bulk_def)
  obtain c3 where 3: "sdscatlen A c2 (CRLF @ [NUL]) 2 = Some (Moved c3)"
    using sdscatlen_granted [OF 2(2) s2(2,1) assms(4)] by blast
  then have 3: "sdscatlen A c2 (CRLF @ [NUL]) 2 = Some (Moved c3)" "sds_ok c3"
    "sds_str c3 = sds_str c2 @ take 2 (CRLF @ [NUL])"
    by (cases rule: sdscatlen_cases [OF 2(2) s2(2,1), of A]; simp)+
  have str: "sds_str c3 = sds_str cmd @ bulk ?a" using 3(3) 2(3) 1(3) by (simp add: bulk_def)
  have "length (sds_str c3) + length (bulks args js) < 2 ^ 31" using l str by simp
  with Cons(1) [OF Cons(2) _ 3(2)] Cons(3) obtain c4 where
    4: "sds_args A argv argvlen js c3 = Some c4" "sds_ok c4" "sds_str c4 = sds_str c3 @ bulks args js"
    by auto
  have "sds_args A argv argvlen (j # js) cmd = Some c4"
    using 1(1) 2(1) 3(1) 4(1) v Cons(3) by simp
  with 4 str show ?case by simp
qed simp

lemma redisFormatSdsCommandArgv_spec:
  assumes v: "vector argv argvlen args" and len: "length (command args) < 2 ^ 31" and A: "\<And>k. grants A k"
  shows "\<exists>s. redisFormatSdsCommandArgv A True (int (length args)) argv argvlen =
    Some (int (length (command args)), Ptr s) \<and> sds_ok s \<and> sds_str s = command args"
proof -
  let ?t = "3 + length (dec (length args))" and ?h = "''*'' @ dec (length args) @ CRLF"
  have t: "?t + length (bulks args [0..<length args]) = length (command args)"
    by (simp add: command_def bulks_all)
  have small: "length args < 2 ^ 31" using length_le_bulks [of args] len by (simp add: command_def)
  have total: "ull_total argv argvlen [0..<length args] ?t = Some (length (command args))"
    using ull_total_spec [OF v all_indices, of ?t] len unfolding t by simp
  have hd: "1 + countDigits (nat (int (length args) mod 2 ^ 64)) + 2 = ?t"
    using small by (simp add: countDigits_dec)
  obtain s0 where s0: "sdsempty A = Some (Ptr s0)" "sds_ok s0" "sds_str s0 = []"
    using sdsempty_granted [OF A] by blast
  have l0: "sdslen s0 = 0" using length_sds_str [OF s0(2)] s0(3) by simp
  have room: "sdslen s0 + length (command args) < 2 ^ 63" using l0 len by simp
  obtain s1 where s1: "sdsMakeRoomFor A s0 (length (command args)) = Some (Moved s1)"
    using sdsMakeRoomFor_granted [OF s0(2) room A] by blast
  then have s1: "sdsMakeRoomFor A s0 (length (command args)) = Some (Moved s1)" "sds_ok s1" "sds_str s1 = []"
    by (cases rule: sdsMakeRoomFor_cases [OF s0(2) room, of A]; simp add: s0)+
  have "to_int (uint (word_of_int (int (length args)) :: 64 word)) = int (length args)"
    using small to_int_nat [of "length args"] by (simp add: unsigned_of_nat take_bit_nat_eq_self)
  then have "expand_fmt (''*%i'' @ CRLF @ [NUL]) [VaNum (word_of_int (int (length args)))] = Some ?h"
    by (simp add: is_conv_def va_text_def sdec_def)
  moreover have "length (sds_str s1) + length ?h < 2 ^ 31" using len s1(3) by (simp add: command_def)
  moreover have "list_all va_ok [VaNum (word_of_int (int (length args)))]" by (simp add: va_ok_def)
  ultimately have "\<exists>c. sdscatfmt A s1 (''*%i'' @ CRLF @ [NUL]) [VaNum (word_of_int (int (length args)))] =
      Some (Ptr c) \<and> sds_ok c \<and> sds_str c = sds_str s1 @ ?h"
    using sdscatfmt_granted [OF s1(2) _ _ _ A] by blast
  then obtain s2 where s2: "sdscatfmt A s1 (''*%i'' @ CRLF @ [NUL])
      [VaNum (word_of_int (int (length args)))] = Some (Ptr s2)" "sds_ok s2" "sds_str s2 = ?h"
    using s1(3) by auto
  have "length (sds_str s2) + length (bulks args [0..<length args]) < 2 ^ 31"
    using len t s2(3) by simp
  from sds_args_spec [OF v all_indices s2(2) A this] obtain s3 where
    s3: "sds_args A argv argvlen [0..<length args] s2 = Some s3" "sds_ok s3"
    "sds_str s3 = sds_str s2 @ bulks args [0..<length args]" by blast
  have str: "sds_str s3 = command args" using s3(3) s2(3) by (simp add: command_def bulks_all)
  then have "sdslen s3 = length (command args)" using length_sds_str [OF s3(2)] by simp
  moreover have "to_int (int (length (command args))) = int (length (command args))"
    using len by (rule to_int_nat)
  ultimately show ?thesis
    using s0(1) s1(1) s2(1) s3 str total unfolding redisFormatSdsCommandArgv_def hd by simp
qed

section \<open>The words of a format\<close>

text \<open>
  A format with its arguments as a list of pieces: \<^theory_text>\<open>None\<close> for a space, \<^theory_text>\<open>Some t\<close> for a text
  that extends the current word. Its words are the runs of texts between spaces; a run of
  empty texts is an empty word. No result: a format error, or a use that is undefined.
\<close>

fun v_text :: "(bytes \<Rightarrow> 64 word \<Rightarrow> bytes) \<Rightarrow> bytes \<Rightarrow> va list \<Rightarrow> (bytes \<times> bytes \<times> va list) option" where
  "v_text pf [] ap = None"
| "v_text pf (c # f) ap =
     (if c = CHR ''s'' then
        (case ap of VaStr b # ap \<Rightarrow> map_option (\<lambda>n. (take n b, f, ap)) (c_strlen b) | _ \<Rightarrow> None)
      else if c = CHR ''b'' then
        (case ap of VaStr b # VaNum w # ap \<Rightarrow>
           (if unat w \<le> length b then Some (take (unat w) b, f, ap) else None)
         | _ \<Rightarrow> None)
      else if c = CHR ''%'' then Some (''%'', f, ap)
      else
        (case (detect_printf (c # f), ap) of
           (Some (Ptr p), VaNum w # ap) \<Rightarrow>
             let l = Suc (Suc (length (c # f)) - length p); t = pf (take l (''%'' @ c # f)) w
             in if l < 14 \<and> hd p \<noteq> NUL \<and> NUL \<notin> set t then Some (t, tl p, ap) else None
         | _ \<Rightarrow> None))"

lemma v_text_length: "v_text pf f ap = Some (t, f', ap') \<Longrightarrow> length f' < length f"
proof (induction pf f ap rule: v_text.induct)
  case (2 pf c f ap)
  show ?case
  proof (cases "c \<in> set ''sb%''")
    case True
    with 2 show ?thesis by (auto split: list.splits va.splits if_splits)
  next
    case False
    with 2 obtain p where p: "detect_printf (c # f) = Some (Ptr p)" "f' = tl p"
      by (auto simp: Let_def split: list.splits va.splits if_splits option.splits ptr.splits)
    with detect_printf_length [OF p(1)] show ?thesis by (cases p) auto
  qed
qed simp

function pieces :: "(bytes \<Rightarrow> 64 word \<Rightarrow> bytes) \<Rightarrow> bytes \<Rightarrow> va list \<Rightarrow> bytes option list option" where
  "pieces pf [] ap = None"
| "pieces pf (c # f) ap =
     (if c = NUL then Some []
      else if c = CHR ''%'' \<and> f = [] then None
      else if c = CHR '' '' then map_option ((#) None) (pieces pf f ap)
      else if c \<noteq> CHR ''%'' \<or> hd f = NUL then map_option ((#) (Some [c])) (pieces pf f ap)
      else
        (case v_text pf f ap of
           None \<Rightarrow> None
         | Some (t, f, ap) \<Rightarrow> map_option ((#) (Some t)) (pieces pf f ap)))"
  by pat_completeness auto
termination
  by (relation "measure (\<lambda>(pf, f, ap). length f)") (auto dest: v_text_length)

fun format_words :: "bytes option \<Rightarrow> bytes option list \<Rightarrow> bytes list" where
  "format_words cur [] = (case cur of None \<Rightarrow> [] | Some w \<Rightarrow> [w])"
| "format_words cur (None # ps) = (case cur of None \<Rightarrow> [] | Some w \<Rightarrow> [w]) @ format_words None ps"
| "format_words cur (Some t # ps) = format_words (Some (case cur of None \<Rightarrow> t | Some w \<Rightarrow> w @ t)) ps"

lemma format_words_extend: "\<exists>u ws. format_words (Some w) ps = (w @ u) # ws"
proof (induction ps arbitrary: w)
  case (Cons p ps)
  show ?case
  proof (cases p)
    case (Some t)
    then show ?thesis using Cons [of "w @ t"] by auto
  qed simp
qed simp

section \<open>The loop over the format\<close>

definition v_words :: "vstate \<Rightarrow> bytes option list \<Rightarrow> bytes list" where
  "v_words st ps = map sds_str (v_argv st) @
     format_words (if v_touched st then Some (sds_str (v_curarg st)) else None) ps"

definition v_inv :: "vstate \<Rightarrow> bool" where
  "v_inv st \<longleftrightarrow> sds_ok (v_curarg st) \<and> (\<not> v_touched st \<longrightarrow> sds_str (v_curarg st) = []) \<and>
     list_all sds_ok (v_argv st) \<and>
     v_totlen st = int (length (concat (map bulk (map sds_str (v_argv st)))))"

lemma length_bulk_le: "a \<in> set args \<Longrightarrow> length (bulk a) \<le> length (concat (map bulk args))"
  by (induction args) auto

lemma length_command_bulks: "length (concat (map bulk args)) + 3 < length (command args)"
  using dec_nonempty [of "length args"] by (cases "dec (length args)") (simp_all add: command_def)

lemma v_append:
  assumes "v_inv st" "length (sds_str (v_curarg st)) + n < 2 ^ 63" "n \<le> length t" "\<And>k. grants A k"
  shows "\<exists>s. sdscatlen A (v_curarg st) t n = Some (Moved s) \<and>
    v_inv (st\<lparr>v_curarg := s, v_touched := True\<rparr>) \<and> sds_str s = sds_str (v_curarg st) @ take n t"
proof -
  have ok: "sds_ok (v_curarg st)" using assms(1) by (simp add: v_inv_def)
  have small: "sdslen (v_curarg st) + n < 2 ^ 63" using assms(2) by (simp add: length_sds_str [OF ok])
  obtain s where s: "sdscatlen A (v_curarg st) t n = Some (Moved s)"
    using sdscatlen_granted [OF ok assms(3) small assms(4)] by blast
  then have "sds_ok s" "sds_str s = sds_str (v_curarg st) @ take n t"
    by (cases rule: sdscatlen_cases [OF ok assms(3) small, of A]; simp)+
  with s assms(1) show ?thesis by (simp add: v_inv_def)
qed

lemma v_words_touch:
  assumes "v_inv st" "sds_str s = sds_str (v_curarg st) @ t"
  shows "v_words (st\<lparr>v_curarg := s, v_touched := True\<rparr>) ps = v_words st (Some t # ps)"
  using assms by (cases "v_touched st") (simp_all add: v_words_def v_inv_def)

text \<open>The word that a text extends is short when the command is.\<close>

lemma v_words_short:
  assumes "v_inv st" "length (command (v_words st (Some t # ps))) < n"
  shows "length (sds_str (v_curarg st)) + length t < n"
proof -
  obtain u ws where w: "v_words st (Some t # ps) = map sds_str (v_argv st) @ (sds_str (v_curarg st) @ t @ u) # ws"
    using format_words_extend [of "sds_str (v_curarg st) @ t" ps] assms(1)
    by (cases "v_touched st") (auto simp: v_words_def v_inv_def)
  then have "length (bulk (sds_str (v_curarg st) @ t @ u)) \<le> length (concat (map bulk (v_words st (Some t # ps))))"
    by (intro length_bulk_le) simp
  then show ?thesis using length_command_bulks [of "v_words st (Some t # ps)"] assms(2)
    by (simp add: length_bulk)
qed

lemma v_space_spec:
  assumes "v_inv st" "length (command (v_words st (None # ps))) < 2 ^ 31" "\<And>k. grants A k"
  shows "\<exists>st'. v_space A st = Some (Inl st') \<and> v_inv st' \<and> v_words st' ps = v_words st (None # ps)"
proof (cases "v_touched st")
  case False
  then show ?thesis using assms(1) by (auto simp: v_space_def v_words_def)
next
  case True
  let ?a = "sds_str (v_curarg st)" and ?ws = "map sds_str (v_argv st)"
  have ok: "sds_ok (v_curarg st)" using assms(1) by (simp add: v_inv_def)
  obtain e where e: "sdsempty A = Some (Ptr e)" "sds_ok e" "sds_str e = []"
    using sdsempty_granted [OF assms(3)] by blast
  have w: "v_words st (None # ps) = ?ws @ ?a # format_words None ps"
    using True by (simp add: v_words_def)
  have l: "length (concat (map bulk ?ws)) + length (bulk ?a) < 2 ^ 31"
    using length_command_bulks [of "v_words st (None # ps)"] assms(2) unfolding w by simp
  then have "bulklen (sdslen (v_curarg st)) = length (bulk ?a)"
    using bulklen_bulk [of ?a] length_sds_str [OF ok] by (simp add: length_bulk)
  then have "to_int (v_totlen st + int (bulklen (sdslen (v_curarg st)))) =
      int (length (concat (map bulk ?ws)) + length (bulk ?a))"
    using l assms(1) by (subst to_int_nat [symmetric]) (simp_all add: v_inv_def)
  with e True assms(1,3) ok w show ?thesis
    by (simp add: v_space_def v_inv_def v_words_def)
qed

lemma v_conversion_spec:
  assumes "v_inv st" "v_text pf f ap = Some (t, f', ap')" "f \<noteq> []"
    "length (sds_str (v_curarg st)) + length t < 2 ^ 31" "\<And>k. grants A k"
  shows "\<exists>s. v_conversion A pf f ap st = Some (f', ap', Inl (st\<lparr>v_curarg := s, v_touched := True\<rparr>)) \<and>
    v_inv (st\<lparr>v_curarg := s, v_touched := True\<rparr>) \<and> sds_str s = sds_str (v_curarg st) @ t"
proof -
  have ok: "sds_ok (v_curarg st)" using assms(1) by (simp add: v_inv_def)
  obtain c g where f: "f = c # g" using assms(3) by (cases f) auto
  have small: "length (sds_str (v_curarg st)) + length t < 2 ^ 63" using assms(4) by simp
  have append: ?thesis
    if "n \<le> length b" "take n b = t"
      "v_conversion A pf f ap st = do {
        r \<leftarrow> (if n > 0 then sdscatlen A (v_curarg st) b n else Some (Moved (v_curarg st)));
        Some (f', ap', appended st r) }" for n b
  proof (cases "n > 0")
    case True
    have n: "length t = n" using that by auto
    with v_append [OF assms(1) _ that(1) assms(5)] small that True show ?thesis
      by (auto simp: appended_def)
  next
    case False
    with that assms(1) ok show ?thesis
      by (auto simp: appended_def v_inv_def intro!: exI [of _ "v_curarg st"])
  qed
  consider "c = CHR ''s''" | "c = CHR ''b''" | "c = CHR ''%''" | "c \<notin> set ''sb%''" by auto
  then show ?thesis
  proof cases
    case 1
    then obtain b rest n where b: "ap = VaStr b # rest" "c_strlen b = Some n" "t = take n b" "f' = g" "ap' = rest"
      using assms(2) f by (auto split: list.splits va.splits)
    then have "n \<le> length b" using c_strlen_Some by (meson less_imp_le)
    then show ?thesis using append [of n b] b 1 f by (simp add: v_conversion_def)
  next
    case 2
    then obtain b w rest where b: "ap = VaStr b # VaNum w # rest" "unat w \<le> length b" "t = take (unat w) b"
      "f' = g" "ap' = rest"
      using assms(2) f by (auto split: list.splits va.splits if_splits)
    then show ?thesis using append [of "unat w" b] 2 f by (simp add: v_conversion_def Let_def)
  next
    case 3
    with assms(2) f have "t = ''%''" "f' = g" "ap' = ap" by auto
    then show ?thesis using append [of 1 "''%'' @ [NUL]"] 3 f by (simp add: v_conversion_def sdscat_def)
  next
    case 4
    then obtain p w rest where p: "detect_printf f = Some (Ptr p)" "ap = VaNum w # rest"
      "t = pf (take (Suc (Suc (length f) - length p)) (''%'' @ f)) w"
      "Suc (Suc (length f) - length p) < 14" "hd p \<noteq> NUL" "NUL \<notin> set t" "f' = tl p" "ap' = rest"
      using assms(2) f by (auto simp: Let_def split: list.splits va.splits if_splits option.splits ptr.splits)
    let ?l = "Suc (Suc (length f) - length p)"
    have vp: "sdscatvprintf A (v_curarg st) n t = sdscatlen A (v_curarg st) (t @ [NUL]) (length t)" for n
      using vprintf_loop_granted [OF assms(5) p(6)] assms(5) p(6)
      by (simp add: sdscatvprintf_def Let_def sdscat_def c_strlen_append)
    obtain s where s: "sdscatlen A (v_curarg st) (t @ [NUL]) (length t) = Some (Moved s)"
      "v_inv (st\<lparr>v_curarg := s, v_touched := True\<rparr>)" "sds_str s = sds_str (v_curarg st) @ t"
      using v_append [OF assms(1) small _ assms(5), of "t @ [NUL]"] by auto
    have "v_conversion A pf f ap st = v_printf A pf f ap st" using 4 f by (simp add: v_conversion_def)
    also have "\<dots> = Some (f', ap', Inl (st\<lparr>v_curarg := s, v_touched := True\<rparr>))"
      using p s(1) vp by (simp add: v_printf_def Let_def appended_def)
    finally show ?thesis using s by blast
  qed
qed

lemma v_loop_spec:
  assumes "v_inv st" "pieces pf f ap = Some ps" "length (command (v_words st ps)) < 2 ^ 31"
    "\<And>k. grants A k"
  shows "\<exists>st'. v_loop A pf f ap st = Some (VDone st') \<and> v_inv st' \<and> v_words st' [] = v_words st ps"
  using assms(1-3)
proof (induction "length f" arbitrary: f ap st ps rule: less_induct)
  case less
  show ?case
  proof (cases f)
    case Nil
    with less(3) show ?thesis by simp
  next
    case (Cons c g)
    consider "c = NUL" | "c = CHR '' ''" | "c \<noteq> NUL" "c = CHR ''%''" "g \<noteq> []" "hd g \<noteq> NUL"
      | "c \<noteq> NUL" "c \<noteq> CHR '' ''" "\<not> (c = CHR ''%'' \<and> g = [])" "c \<noteq> CHR ''%'' \<or> hd g = NUL"
      using less(3) Cons by (auto split: if_splits)
    then show ?thesis
    proof cases
      case 1
      with less(2,3) Cons show ?thesis by auto
    next
      case 2
      then obtain ps' where ps: "pieces pf g ap = Some ps'" "ps = None # ps'" using less(3) Cons by auto
      obtain st1 where st1: "v_space A st = Some (Inl st1)" "v_inv st1" "v_words st1 ps' = v_words st ps"
        using v_space_spec [OF less(2) _ assms(4), of ps'] less(4) ps(2) by blast
      with less(1) [of g st1 ap ps'] ps less(4) Cons 2 show ?thesis by auto
    next
      case 3
      then obtain t f' ap' ps' where ps: "v_text pf g ap = Some (t, f', ap')" "pieces pf f' ap' = Some ps'"
        "ps = Some t # ps'" using less(3) Cons by (auto split: option.splits)
      have short: "length (sds_str (v_curarg st)) + length t < 2 ^ 31"
        using v_words_short [OF less(2)] less(4) ps(3) by blast
      obtain s where s: "v_conversion A pf g ap st = Some (f', ap', Inl (st\<lparr>v_curarg := s, v_touched := True\<rparr>))"
        "v_inv (st\<lparr>v_curarg := s, v_touched := True\<rparr>)" "sds_str s = sds_str (v_curarg st) @ t"
        using v_conversion_spec [OF less(2) ps(1) 3(3) short assms(4)] by blast
      have w: "v_words (st\<lparr>v_curarg := s, v_touched := True\<rparr>) ps' = v_words st ps"
        using v_words_touch [OF less(2) s(3)] ps(3) by simp
      have "length f' < length f" using v_text_length [OF ps(1)] Cons by simp
      with less(1) [of f' _ ap' ps'] s ps w less(4) obtain st' where
        "v_loop A pf f' ap' (st\<lparr>v_curarg := s, v_touched := True\<rparr>) = Some (VDone st')" "v_inv st'"
        "v_words st' [] = v_words st ps" by metis
      then show ?thesis using Cons 3 s(1) by auto
    next
      case 4
      then obtain ps' where ps: "pieces pf g ap = Some ps'" "ps = Some [c] # ps'"
        using less(3) Cons by (auto split: if_splits)
      have short: "length (sds_str (v_curarg st)) + 1 < 2 ^ 63"
        using v_words_short [OF less(2), of "[c]" ps'] less(4) ps(2) by fastforce
      obtain s where s: "sdscatlen A (v_curarg st) (c # g) 1 = Some (Moved s)"
        "v_inv (st\<lparr>v_curarg := s, v_touched := True\<rparr>)" "sds_str s = sds_str (v_curarg st) @ [c]"
        using v_append [OF less(2) short _ assms(4), of "c # g"] by auto
      have w: "v_words (st\<lparr>v_curarg := s, v_touched := True\<rparr>) ps' = v_words st ps"
        using v_words_touch [OF less(2) s(3)] ps(2) by simp
      have "length g < length f" using Cons by simp
      with less(1) [of g _ ap ps'] s ps w less(4) obtain st' where
        "v_loop A pf g ap (st\<lparr>v_curarg := s, v_touched := True\<rparr>) = Some (VDone st')" "v_inv st'"
        "v_words st' [] = v_words st ps" by metis
      then show ?thesis using Cons 4 s(1) by (auto simp: appended_def)
    qed
  qed
qed

lemma redisvFormatCommand_spec:
  assumes ps: "pieces pf fmt ap = Some ps" and len: "length (command (format_words None ps)) < 2 ^ 31 - 1"
    and A: "\<And>k. grants A k"
  shows "redisvFormatCommand A pf True fmt ap =
    Some (int (length (command (format_words None ps))), Ptr (command (format_words None ps) @ [NUL]))"
proof -
  let ?args = "format_words None ps"
  obtain s where s: "sdsempty A = Some (Ptr s)" "sds_ok s" "sds_str s = []"
    using sdsempty_granted [OF A] by blast
  let ?st = "\<lparr>v_curarg = s, v_touched = False, v_argv = [], v_totlen = 0\<rparr>"
  have "v_inv ?st" "v_words ?st ps = ?args" using s by (simp_all add: v_inv_def v_words_def)
  with v_loop_spec [of ?st pf fmt ap ps A] ps len A obtain st where
    st: "v_loop A pf fmt ap ?st = Some (VDone st)" "v_inv st" "v_words st [] = ?args" by auto
  define argv where "argv = (if v_touched st then v_argv st @ [v_curarg st] else v_argv st)"
  define total where "total = (if v_touched st
    then to_int (v_totlen st + int (bulklen (sdslen (v_curarg st)))) else v_totlen st)"
  have args: "map sds_str argv = ?args"
    using st(3) by (simp add: v_words_def argv_def split: if_splits)
  have ok: "list_all sds_ok argv" using st(2) by (simp add: v_inv_def argv_def)
  have le: "sdslen (argv ! j) \<le> length (buf (argv ! j))" if "j < length argv" for j
    using ok that sds_okD(3) [of "argv ! j"] by (simp add: list_all_length)
  have v: "vector (map buf argv) (Some (map sdslen argv)) ?args"
    using ok le unfolding args [symmetric] vector_def
    by (auto simp: arg_len_def nth_opt_def mem_read_def length_sds_str sds_str_def list_all_length)
  have l: "length (concat (map bulk ?args)) < 2 ^ 31 - 4"
    using length_command_bulks [of ?args] len by linarith
  have total: "total = int (length (concat (map bulk ?args)))"
  proof (cases "v_touched st")
    case True
    let ?a = "sds_str (v_curarg st)" and ?b = "concat (map bulk (map sds_str (v_argv st)))"
    have oka: "sds_ok (v_curarg st)" using st(2) by (simp add: v_inv_def)
    have a: "?args = map sds_str (v_argv st) @ [?a]" using args True by (simp add: argv_def)
    have la: "length ?b + length (bulk ?a) < 2 ^ 31 - 4" using l unfolding a by simp
    then have "bulklen (sdslen (v_curarg st)) = length (bulk ?a)"
      using bulklen_bulk [of ?a] length_sds_str [OF oka] by (simp add: length_bulk)
    then have "total = to_int (int (length ?b + length (bulk ?a)))"
      using True st(2) by (simp add: total_def v_inv_def)
    also have "\<dots> = int (length ?b + length (bulk ?a))" using la by (intro to_int_nat) simp
    finally show ?thesis unfolding a by simp
  next
    case False
    with st(2) show ?thesis unfolding args [symmetric] by (simp add: total_def v_inv_def argv_def)
  qed
  have n: "length argv = length ?args" using arg_cong [OF args, of length] by simp
  have eq: "total + int (1 + countDigits (length argv) + 2) = int (length (command ?args))"
    unfolding total n by (simp add: command_def countDigits_dec)
  have "length (command ?args) < 2 ^ 31" using len by simp
  then have sum: "to_int (total + int (1 + countDigits (length argv) + 2)) = int (length (command ?args))"
    unfolding eq by (rule to_int_nat)
  have build: "build_cmd A (map buf argv) (Some (map sdslen argv)) (int (length argv))
      (int (length (command ?args))) = Some (Ptr (command ?args @ [NUL]))"
    using build_cmd_spec [OF v len, of A] A n by simp
  show ?thesis
    using s(1) st(1) A sum build
    unfolding redisvFormatCommand_def by (simp add: Let_def argv_def [symmetric] total_def [symmetric])
qed

end
