(* ===== verification/Context.thy ===== *)
theory Context
  imports Net Reply_Correct Format
begin

unbundle bit_operations_syntax

text \<open>
  The connection of \<^verbatim>\<open>lib/hiredis/hiredis.c\<close>: creating, connecting, reconnecting and freeing a
  \<^verbatim>\<open>redisContext\<close>, moving bytes between the socket and its two buffers, commands and replies.
  The build is the default one, without \<^verbatim>\<open>HIREDIS_SSL\<close>.
\<close>

section \<open>Creating and freeing\<close>

definition redisFree :: "redisContext ptr \<Rightarrow> heap \<Rightarrow> net \<Rightarrow> (heap \<times> net) option" where
  "redisFree p h n =
     (if p = Null then Some (h, n)
      else do {
        c \<leftarrow> deref p;
        let k = redisNetClose \<lparr>k_ctx = c, k_heap = h, k_net = n\<rparr>;
        _ \<leftarrow> sdsfree (c_obuf c);
        h \<leftarrow> redisReaderFree (c_reader c) h;
        _ \<leftarrow> free_ptr (c_host c);
        _ \<leftarrow> free_ptr (c_source_addr c);
        _ \<leftarrow> free_ptr (c_path c);
        _ \<leftarrow> free_ptr (c_timeout c);
        _ \<leftarrow> free_ptr (c_saddr c);
        Some (h, k_net k)
      })"

definition redisFreeKeepFd :: "redisContext \<Rightarrow> heap \<Rightarrow> net \<Rightarrow> (int \<times> heap \<times> net) option" where
  "redisFreeKeepFd c h n = do {
     let fd = c_fd c;
     (h, n) \<leftarrow> redisFree (Ptr (c\<lparr>c_fd := REDIS_INVALID_FD\<rparr>)) h n;
     Some (fd, h, n)
   }"

text \<open>A context as \<^verbatim>\<open>calloc\<close> leaves it, with its two buffers and no descriptor.\<close>

definition blank_context :: "sds ptr \<Rightarrow> heap redisReader ptr \<Rightarrow> redisContext" where
  "blank_context ob r =
     \<lparr>c_err = 0, c_errstr = [], c_fd = REDIS_INVALID_FD, c_flags = 0, c_obuf = ob, c_reader = r,
      c_connection_type = 0, c_timeout = Null, c_host = Null, c_source_addr = Null, c_port = 0,
      c_path = Null, c_saddr = Null, c_addrlen = 0\<rparr>"

definition redisContextInit :: "allocator \<Rightarrow> heap \<Rightarrow> net \<Rightarrow> (redisContext ptr \<times> heap \<times> net) option" where
  "redisContextInit A h n =
     (if \<not> grants A 256 then Some (Null, h, n)
      else do {
        ob \<leftarrow> sdsempty A;
        r \<leftarrow> redisReaderCreate A;
        let c = blank_context ob r;
        if ob = Null \<or> r = Null
        then do { (h, n) \<leftarrow> redisFree (Ptr c) h n; Some (Null, h, n) }
        else Some (Ptr c, h, n)
      })"

section \<open>Connecting\<close>

definition REDIS_OPT_NONBLOCK :: "32 word" where "REDIS_OPT_NONBLOCK = 0x01"
definition REDIS_OPT_REUSEADDR :: "32 word" where "REDIS_OPT_REUSEADDR = 0x02"
definition REDIS_OPT_NOAUTOFREE :: "32 word" where "REDIS_OPT_NOAUTOFREE = 0x04"

text \<open>The member of the union \<^verbatim>\<open>endpoint\<close> that is stored: source, host and port; path; descriptor.\<close>

datatype endpoint = Tcp "bytes option" bytes int | Unix_socket bytes | User_fd int

record redisOptions =
  o_type :: int
  o_options :: "32 word"
  o_timeout :: "timeval option"
  o_endpoint :: endpoint

definition given :: "'a option \<Rightarrow> 'a arg" where
  "given x = (case x of None \<Rightarrow> NullArg | Some a \<Rightarrow> Given a)"

definition saved :: "'a ptr \<Rightarrow> 'a arg" where
  "saved p = (if p = Null then NullArg else Saved)"

definition redisReconnect :: "allocator \<Rightarrow> libc \<Rightarrow> conn \<Rightarrow> (int \<times> conn) option" where
  "redisReconnect A lc k = do {
     let k = redisNetClose (k\<lparr>k_ctx := (k_ctx k)\<lparr>c_err := 0, c_errstr := []\<rparr>\<rparr>);
     _ \<leftarrow> sdsfree (c_obuf (k_ctx k));
     h \<leftarrow> redisReaderFree (c_reader (k_ctx k)) (k_heap k);
     ob \<leftarrow> sdsempty A;
     r \<leftarrow> redisReaderCreate A;
     let c = (k_ctx k)\<lparr>c_obuf := ob, c_reader := r\<rparr>;
     let k = k\<lparr>k_ctx := c, k_heap := h\<rparr>;
     if c_connection_type c = REDIS_CONN_TCP
     then redisContextConnectBindTcp A lc k (saved (c_host c)) (c_port c) (saved (c_timeout c))
       (saved (c_source_addr c))
     else if c_connection_type c = REDIS_CONN_UNIX
     then redisContextConnectUnix A lc k (saved (c_path c)) (saved (c_timeout c))
     else do {
       k \<leftarrow> set_error lc k REDIS_ERR_OTHER (Some ''Not enough information to reconnect'');
       Some (REDIS_ERR, k)
     }
   }"

text \<open>The connection that an option asks for: null for an unknown type, which leaks the context.\<close>

definition connect_endpoint :: "allocator \<Rightarrow> libc \<Rightarrow> conn \<Rightarrow> redisOptions \<Rightarrow> conn ptr option" where
  "connect_endpoint A lc k opt =
     (if o_type opt = REDIS_CONN_TCP then
        (case o_endpoint opt of
           Tcp src ip port \<Rightarrow> do {
             (_, k) \<leftarrow> redisContextConnectBindTcp A lc k (Given ip) port (given (o_timeout opt)) (given src);
             Some (Ptr k)
           }
         | _ \<Rightarrow> None)
      else if o_type opt = REDIS_CONN_UNIX then
        (case o_endpoint opt of
           Unix_socket path \<Rightarrow> do {
             (_, k) \<leftarrow> redisContextConnectUnix A lc k (Given path) (given (o_timeout opt));
             Some (Ptr k)
           }
         | _ \<Rightarrow> None)
      else if o_type opt = REDIS_CONN_USERFD then
        (case o_endpoint opt of
           User_fd fd \<Rightarrow>
             Some (Ptr (k\<lparr>k_ctx := (k_ctx k)\<lparr>c_fd := fd, c_flags := c_flags (k_ctx k) OR REDIS_CONNECTED\<rparr>\<rparr>))
         | _ \<Rightarrow> None)
      else Some Null)"

definition option_flags :: "32 word \<Rightarrow> 32 word" where
  "option_flags opts =
     (if opts AND REDIS_OPT_NONBLOCK = 0 then REDIS_BLOCK else 0)
     OR (if opts AND REDIS_OPT_REUSEADDR \<noteq> 0 then REDIS_REUSEADDR else 0)
     OR (if opts AND REDIS_OPT_NOAUTOFREE \<noteq> 0 then REDIS_NO_AUTO_FREE else 0)"

text \<open>The result is the context with the state after the call, or null with that state.\<close>

definition redisConnectWithOptions :: "allocator \<Rightarrow> libc \<Rightarrow> heap \<Rightarrow> net \<Rightarrow> redisOptions \<Rightarrow> conn ptr option" where
  "redisConnectWithOptions A lc h n opt = do {
     (p, h, n) \<leftarrow> redisContextInit A h n;
     if p = Null then Some Null
     else do {
       c \<leftarrow> deref p;
       let c = c\<lparr>c_flags := c_flags c OR option_flags (o_options opt)\<rparr>;
       q \<leftarrow> connect_endpoint A lc \<lparr>k_ctx = c, k_heap = h, k_net = n\<rparr> opt;
       if q = Null then Some Null
       else do {
         k \<leftarrow> deref q;
         (case o_timeout opt of
            Some tv \<Rightarrow>
              if flag (k_ctx k) REDIS_BLOCK \<and> c_fd (k_ctx k) \<noteq> REDIS_INVALID_FD
              then do { (_, k) \<leftarrow> redisContextSetTimeout lc k tv; Some (Ptr k) }
              else Some (Ptr k)
          | None \<Rightarrow> Some (Ptr k))
       }
     }
   }"

text \<open>The options of the functions that connect.\<close>

definition tcp_options :: "32 word \<Rightarrow> timeval option \<Rightarrow> bytes option \<Rightarrow> bytes \<Rightarrow> int \<Rightarrow> redisOptions" where
  "tcp_options opts tv src ip port =
     \<lparr>o_type = REDIS_CONN_TCP, o_options = opts, o_timeout = tv, o_endpoint = Tcp src ip port\<rparr>"

definition unix_options :: "32 word \<Rightarrow> timeval option \<Rightarrow> bytes \<Rightarrow> redisOptions" where
  "unix_options opts tv path =
     \<lparr>o_type = REDIS_CONN_UNIX, o_options = opts, o_timeout = tv, o_endpoint = Unix_socket path\<rparr>"

definition redisConnect :: "allocator \<Rightarrow> libc \<Rightarrow> heap \<Rightarrow> net \<Rightarrow> bytes \<Rightarrow> int \<Rightarrow> conn ptr option" where
  "redisConnect A lc h n ip port = redisConnectWithOptions A lc h n (tcp_options 0 None None ip port)"

definition redisConnectWithTimeout :: "allocator \<Rightarrow> libc \<Rightarrow> heap \<Rightarrow> net \<Rightarrow> bytes \<Rightarrow> int \<Rightarrow> timeval \<Rightarrow>
    conn ptr option" where
  "redisConnectWithTimeout A lc h n ip port tv =
     redisConnectWithOptions A lc h n (tcp_options 0 (Some tv) None ip port)"

definition redisConnectNonBlock :: "allocator \<Rightarrow> libc \<Rightarrow> heap \<Rightarrow> net \<Rightarrow> bytes \<Rightarrow> int \<Rightarrow> conn ptr option" where
  "redisConnectNonBlock A lc h n ip port =
     redisConnectWithOptions A lc h n (tcp_options REDIS_OPT_NONBLOCK None None ip port)"

definition redisConnectBindNonBlock :: "allocator \<Rightarrow> libc \<Rightarrow> heap \<Rightarrow> net \<Rightarrow> bytes \<Rightarrow> int \<Rightarrow> bytes \<Rightarrow>
    conn ptr option" where
  "redisConnectBindNonBlock A lc h n ip port src =
     redisConnectWithOptions A lc h n (tcp_options REDIS_OPT_NONBLOCK None (Some src) ip port)"

definition redisConnectBindNonBlockWithReuse :: "allocator \<Rightarrow> libc \<Rightarrow> heap \<Rightarrow> net \<Rightarrow> bytes \<Rightarrow> int \<Rightarrow> bytes \<Rightarrow>
    conn ptr option" where
  "redisConnectBindNonBlockWithReuse A lc h n ip port src =
     redisConnectWithOptions A lc h n
       (tcp_options (REDIS_OPT_NONBLOCK OR REDIS_OPT_REUSEADDR) None (Some src) ip port)"

definition redisConnectUnix :: "allocator \<Rightarrow> libc \<Rightarrow> heap \<Rightarrow> net \<Rightarrow> bytes \<Rightarrow> conn ptr option" where
  "redisConnectUnix A lc h n path = redisConnectWithOptions A lc h n (unix_options 0 None path)"

definition redisConnectUnixWithTimeout :: "allocator \<Rightarrow> libc \<Rightarrow> heap \<Rightarrow> net \<Rightarrow> bytes \<Rightarrow> timeval \<Rightarrow>
    conn ptr option" where
  "redisConnectUnixWithTimeout A lc h n path tv =
     redisConnectWithOptions A lc h n (unix_options 0 (Some tv) path)"

definition redisConnectUnixNonBlock :: "allocator \<Rightarrow> libc \<Rightarrow> heap \<Rightarrow> net \<Rightarrow> bytes \<Rightarrow> conn ptr option" where
  "redisConnectUnixNonBlock A lc h n path =
     redisConnectWithOptions A lc h n (unix_options REDIS_OPT_NONBLOCK None path)"

definition redisConnectFd :: "allocator \<Rightarrow> libc \<Rightarrow> heap \<Rightarrow> net \<Rightarrow> int \<Rightarrow> conn ptr option" where
  "redisConnectFd A lc h n fd = redisConnectWithOptions A lc h n
     \<lparr>o_type = REDIS_CONN_USERFD, o_options = 0, o_timeout = None, o_endpoint = User_fd fd\<rparr>"

definition redisSetTimeout :: "libc \<Rightarrow> conn \<Rightarrow> timeval \<Rightarrow> (int \<times> conn) option" where
  "redisSetTimeout lc k tv =
     (if flag (k_ctx k) REDIS_BLOCK then redisContextSetTimeout lc k tv else Some (REDIS_ERR, k))"

definition REDIS_KEEPALIVE_INTERVAL :: int where "REDIS_KEEPALIVE_INTERVAL = 15"

definition redisEnableKeepAlive :: "libc \<Rightarrow> conn \<Rightarrow> (int \<times> conn) option" where
  "redisEnableKeepAlive lc k = do {
     (rc, k) \<leftarrow> redisKeepAlive lc k REDIS_KEEPALIVE_INTERVAL;
     Some (if rc \<noteq> REDIS_OK then REDIS_ERR else REDIS_OK, k)
   }"

section \<open>Reading and writing\<close>

text \<open>The functions of \<^verbatim>\<open>sslio.h\<close> in a build without SSL.\<close>

definition redisSslRead :: "conn \<Rightarrow> nat \<Rightarrow> (int \<times> bytes \<times> conn) option" where
  "redisSslRead k n = Some (- 1, [], k)"

definition redisSslWrite :: "conn \<Rightarrow> (int \<times> conn) option" where
  "redisSslWrite k = Some (- 1, k)"

definition redisSslCreate :: "conn \<Rightarrow> bytes \<Rightarrow> bytes \<Rightarrow> bytes \<Rightarrow> bytes \<Rightarrow> (int \<times> conn) option" where
  "redisSslCreate k ca cert key servername = Some (REDIS_ERR, k)"

definition redisSecureConnection :: "conn \<Rightarrow> bytes \<Rightarrow> bytes \<Rightarrow> bytes \<Rightarrow> bytes \<Rightarrow> (int \<times> conn) option" where
  "redisSecureConnection k caPath certPath keyPath servername =
     redisSslCreate k caPath certPath keyPath servername"

definition redisBufferRead :: "allocator \<Rightarrow> libc \<Rightarrow> conn \<Rightarrow> (int \<times> conn) option" where
  "redisBufferRead A lc k =
     (if c_err (k_ctx k) \<noteq> 0 then Some (REDIS_ERR, k)
      else do {
        (nread, bs, k) \<leftarrow> (if flag (k_ctx k) REDIS_SSL then redisSslRead k (1024 * 16)
                          else redisNetRead lc k (1024 * 16));
        if nread > 0 then do {
          r \<leftarrow> deref (c_reader (k_ctx k));
          (rc, r, h) \<leftarrow> redisReaderFeed A r (k_heap k) (Ptr bs) (nat nread);
          let k = k\<lparr>k_ctx := (k_ctx k)\<lparr>c_reader := Ptr r\<rparr>, k_heap := h\<rparr>;
          if rc \<noteq> REDIS_OK then do {
            k \<leftarrow> set_error lc k (r_err r) (Some (r_errstr r));
            Some (REDIS_ERR, k)
          }
          else Some (REDIS_OK, k)
        }
        else if nread < 0 then Some (REDIS_ERR, k)
        else Some (REDIS_OK, k)
      })"

text \<open>
  \<^verbatim>\<open>redisBufferWrite\<close>: the value stored in \<^verbatim>\<open>*done\<close> is a result, \<^theory_text>\<open>None\<close> when nothing is stored.
\<close>

definition redisBufferWrite :: "allocator \<Rightarrow> libc \<Rightarrow> conn \<Rightarrow> (int \<times> bool option \<times> conn) option" where
  "redisBufferWrite A lc k =
     (if c_err (k_ctx k) \<noteq> 0 then Some (REDIS_ERR, None, k)
      else do {
        s \<leftarrow> deref (c_obuf (k_ctx k));
        (nwritten, k) \<leftarrow> (if sdslen s > 0
           then if flag (k_ctx k) REDIS_SSL then redisSslWrite k else redisNetWrite lc k
           else Some (0, k));
        if nwritten < 0 then Some (REDIS_ERR, None, k)
        else do {
          ob \<leftarrow> (if nwritten > 0 then
                   if nwritten = to_int (int (sdslen s))
                   then do { _ \<leftarrow> sdsfree (c_obuf (k_ctx k)); sdsempty A }
                   else do { s \<leftarrow> sdsrange s nwritten (- 1); Some (Ptr s) }
                 else Some (c_obuf (k_ctx k)));
          s \<leftarrow> deref ob;
          Some (REDIS_OK, Some (sdslen s = 0), k\<lparr>k_ctx := (k_ctx k)\<lparr>c_obuf := ob\<rparr>\<rparr>)
        }
      })"

definition redisGetReplyFromReader :: "libc \<Rightarrow> conn \<Rightarrow> (int \<times> addr \<times> conn) option" where
  "redisGetReplyFromReader lc k = do {
     r \<leftarrow> deref (c_reader (k_ctx k));
     (rc, r, h, a) \<leftarrow> redisReaderGetReply r (k_heap k);
     let k = k\<lparr>k_ctx := (k_ctx k)\<lparr>c_reader := Ptr r\<rparr>, k_heap := h\<rparr>;
     if rc = REDIS_ERR then do {
       k \<leftarrow> set_error lc k (r_err r) (Some (r_errstr r));
       Some (REDIS_ERR, 0, k)
     }
     else Some (REDIS_OK, a, k)
   }"

text \<open>The two loops of \<^verbatim>\<open>redisGetReply\<close>.\<close>

partial_function (option) write_until_done ::
  "allocator \<Rightarrow> libc \<Rightarrow> conn \<Rightarrow> (int \<times> conn) option" where
  "write_until_done A lc k = do {
     (rc, wdone, k) \<leftarrow> redisBufferWrite A lc k;
     if rc = REDIS_ERR then Some (REDIS_ERR, k)
     else if wdone = Some True then Some (REDIS_OK, k)
     else write_until_done A lc k
   }"

partial_function (option) read_until_reply ::
  "allocator \<Rightarrow> libc \<Rightarrow> conn \<Rightarrow> (int \<times> addr \<times> conn) option" where
  "read_until_reply A lc k = do {
     (rc, k) \<leftarrow> redisBufferRead A lc k;
     if rc = REDIS_ERR then Some (REDIS_ERR, 0, k)
     else do {
       (rc, aux, k) \<leftarrow> redisGetReplyFromReader lc k;
       if rc = REDIS_ERR then Some (REDIS_ERR, 0, k)
       else if aux \<noteq> 0 then Some (REDIS_OK, aux, k)
       else read_until_reply A lc k
     }
   }"

definition redisGetReply :: "allocator \<Rightarrow> libc \<Rightarrow> conn \<Rightarrow> (int \<times> addr \<times> conn) option" where
  "redisGetReply A lc k = do {
     (rc, aux, k) \<leftarrow> redisGetReplyFromReader lc k;
     if rc = REDIS_ERR then Some (REDIS_ERR, 0, k)
     else if aux = 0 \<and> flag (k_ctx k) REDIS_BLOCK then do {
       (rc, k) \<leftarrow> write_until_done A lc k;
       if rc = REDIS_ERR then Some (REDIS_ERR, 0, k)
       else read_until_reply A lc k
     }
     else Some (REDIS_OK, aux, k)
   }"

section \<open>Commands\<close>

text \<open>\<^verbatim>\<open>__redisAppendCommand\<close>: after a failed append \<^verbatim>\<open>c->obuf\<close> keeps the old pointer.\<close>

definition appendCommand :: "allocator \<Rightarrow> libc \<Rightarrow> conn \<Rightarrow> bytes \<Rightarrow> nat \<Rightarrow> (int \<times> conn) option" where
  "appendCommand A lc k cmd len = do {
     s \<leftarrow> deref (c_obuf (k_ctx k));
     newbuf \<leftarrow> sdscatlen A s cmd len;
     (case newbuf of
        Failed old \<Rightarrow> do {
          k \<leftarrow> set_error lc (k\<lparr>k_ctx := (k_ctx k)\<lparr>c_obuf := old\<rparr>\<rparr>) REDIS_ERR_OOM (Some ''Out of memory'');
          Some (REDIS_ERR, k)
        }
      | Moved s \<Rightarrow> Some (REDIS_OK, k\<lparr>k_ctx := (k_ctx k)\<lparr>c_obuf := Ptr s\<rparr>\<rparr>))
   }"

definition redisAppendFormattedCommand ::
  "allocator \<Rightarrow> libc \<Rightarrow> conn \<Rightarrow> bytes \<Rightarrow> nat \<Rightarrow> (int \<times> conn) option" where
  "redisAppendFormattedCommand A lc k cmd len = do {
     (rc, k) \<leftarrow> appendCommand A lc k cmd len;
     Some (if rc \<noteq> REDIS_OK then REDIS_ERR else REDIS_OK, k)
   }"

definition redisvAppendCommand :: "allocator \<Rightarrow> libc \<Rightarrow> (bytes \<Rightarrow> 64 word \<Rightarrow> bytes) \<Rightarrow> conn \<Rightarrow>
    bytes \<Rightarrow> va list \<Rightarrow> (int \<times> conn) option" where
  "redisvAppendCommand A lc pf k format ap = do {
     (len, cmd) \<leftarrow> redisvFormatCommand A pf True format ap;
     if len = - 1 then do {
       k \<leftarrow> set_error lc k REDIS_ERR_OOM (Some ''Out of memory'');
       Some (REDIS_ERR, k)
     }
     else if len = - 2 then do {
       k \<leftarrow> set_error lc k REDIS_ERR_OTHER (Some ''Invalid format string'');
       Some (REDIS_ERR, k)
     }
     else do {
       p \<leftarrow> deref cmd;
       (rc, k) \<leftarrow> appendCommand A lc k p (nat (len mod 2 ^ 64));
       _ \<leftarrow> free_ptr cmd;
       Some (if rc \<noteq> REDIS_OK then REDIS_ERR else REDIS_OK, k)
     }
   }"

definition redisAppendCommand :: "allocator \<Rightarrow> libc \<Rightarrow> (bytes \<Rightarrow> 64 word \<Rightarrow> bytes) \<Rightarrow> conn \<Rightarrow>
    bytes \<Rightarrow> va list \<Rightarrow> (int \<times> conn) option" where
  "redisAppendCommand A lc pf k format ap = redisvAppendCommand A lc pf k format ap"

definition redisAppendCommandArgv :: "allocator \<Rightarrow> libc \<Rightarrow> conn \<Rightarrow>
    int \<Rightarrow> bytes list \<Rightarrow> nat list option \<Rightarrow> (int \<times> conn) option" where
  "redisAppendCommandArgv A lc k argc argv argvlen = do {
     (len, cmd) \<leftarrow> redisFormatSdsCommandArgv A True argc argv argvlen;
     if len = - 1 then do {
       k \<leftarrow> set_error lc k REDIS_ERR_OOM (Some ''Out of memory'');
       Some (REDIS_ERR, k)
     }
     else do {
       s \<leftarrow> deref cmd;
       (rc, k) \<leftarrow> appendCommand A lc k (buf s) (nat (len mod 2 ^ 64));
       _ \<leftarrow> sdsfree cmd;
       Some (if rc \<noteq> REDIS_OK then REDIS_ERR else REDIS_OK, k)
     }
   }"

text \<open>\<^verbatim>\<open>__redisBlockForReply\<close> and the functions on it return the reply, 0 for null.\<close>

definition redisBlockForReply :: "allocator \<Rightarrow> libc \<Rightarrow> conn \<Rightarrow> (addr \<times> conn) option" where
  "redisBlockForReply A lc k =
     (if flag (k_ctx k) REDIS_BLOCK then do {
        (rc, reply, k) \<leftarrow> redisGetReply A lc k;
        Some (if rc \<noteq> REDIS_OK then 0 else reply, k)
      }
      else Some (0, k))"

definition redisvCommand :: "allocator \<Rightarrow> libc \<Rightarrow> (bytes \<Rightarrow> 64 word \<Rightarrow> bytes) \<Rightarrow> conn \<Rightarrow>
    bytes \<Rightarrow> va list \<Rightarrow> (addr \<times> conn) option" where
  "redisvCommand A lc pf k format ap = do {
     (rc, k) \<leftarrow> redisvAppendCommand A lc pf k format ap;
     if rc \<noteq> REDIS_OK then Some (0, k) else redisBlockForReply A lc k
   }"

definition redisCommand :: "allocator \<Rightarrow> libc \<Rightarrow> (bytes \<Rightarrow> 64 word \<Rightarrow> bytes) \<Rightarrow> conn \<Rightarrow>
    bytes \<Rightarrow> va list \<Rightarrow> (addr \<times> conn) option" where
  "redisCommand A lc pf k format ap = redisvCommand A lc pf k format ap"

definition redisCommandArgv :: "allocator \<Rightarrow> libc \<Rightarrow> conn \<Rightarrow>
    int \<Rightarrow> bytes list \<Rightarrow> nat list option \<Rightarrow> (addr \<times> conn) option" where
  "redisCommandArgv A lc k argc argv argvlen = do {
     (rc, k) \<leftarrow> redisAppendCommandArgv A lc k argc argv argvlen;
     if rc \<noteq> REDIS_OK then Some (0, k) else redisBlockForReply A lc k
   }"

end
