(* ===== verification/Dict.thy ===== *)
theory Dict
  imports Prelude "HOL-Library.Multiset"
begin

unbundle bit_operations_syntax

text \<open>
  The hash table of \<^verbatim>\<open>lib/hiredis/dict.h\<close> and \<^verbatim>\<open>lib/hiredis/dict.c\<close>, which the asynchronous
  context keeps its subscriptions in. A bucket is the list of its entries, from the first one
  on; the table pointer is null until the first insertion. The callbacks of \<^verbatim>\<open>dictType\<close> are
  parameters (with \<^verbatim>\<open>privdata\<close> a part of them), and the calls of the two destructors are
  returned as a list of events. The lemmas show that the operations implement a finite map.
\<close>

section \<open>Data (dict.h)\<close>

record ('k, 'v) dictEntry =
  he_key :: 'k
  he_val :: 'v

record ('k, 'v) dictType =
  hashFunction :: "'k \<Rightarrow> 32 word option"
  keyDup :: "('k \<Rightarrow> 'k option) option"
  valDup :: "('v \<Rightarrow> 'v option) option"
  keyCompare :: "('k \<Rightarrow> 'k \<Rightarrow> bool option) option"
  keyDestructor :: bool
  valDestructor :: bool

record ('k, 'v) dict =
  ht_table :: "('k, 'v) dictEntry list list ptr"
  ht_type :: "('k, 'v) dictType"
  ht_size :: nat
  ht_sizemask :: nat
  ht_used :: nat

text \<open>
  The table of the iterator is an argument of \<^theory_text>\<open>dictNext\<close>, which sees it as it is at the
  call. The next entry is kept because the user may delete the one that is returned.
\<close>

record ('k, 'v) dictIterator =
  it_index :: int
  it_entry :: "('k, 'v) dictEntry option"
  it_nextEntry :: "('k, 'v) dictEntry list"

datatype ('k, 'v) event = KeyFreed 'k | ValFreed 'v

definition DICT_HT_INITIAL_SIZE :: nat where "DICT_HT_INITIAL_SIZE = 4"

definition DICT_OK :: int where "DICT_OK = 0"
definition DICT_ERR :: int where "DICT_ERR = 1"

definition LONG_MAX :: nat where "LONG_MAX = 2 ^ 63 - 1"

text \<open>The macros: a null callback stands for the built-in behaviour.\<close>

definition dictFreeEntryVal :: "('k, 'v) dict \<Rightarrow> ('k, 'v) dictEntry \<Rightarrow> ('k, 'v) event list" where
  "dictFreeEntryVal ht e = (if valDestructor (ht_type ht) then [ValFreed (he_val e)] else [])"

definition dictFreeEntryKey :: "('k, 'v) dict \<Rightarrow> ('k, 'v) dictEntry \<Rightarrow> ('k, 'v) event list" where
  "dictFreeEntryKey ht e = (if keyDestructor (ht_type ht) then [KeyFreed (he_key e)] else [])"

definition dictSetHashVal :: "('k, 'v) dict \<Rightarrow> 'v \<Rightarrow> 'v option" where
  "dictSetHashVal ht v = (case valDup (ht_type ht) of Some dup \<Rightarrow> dup v | None \<Rightarrow> Some v)"

definition dictSetHashKey :: "('k, 'v) dict \<Rightarrow> 'k \<Rightarrow> 'k option" where
  "dictSetHashKey ht k = (case keyDup (ht_type ht) of Some dup \<Rightarrow> dup k | None \<Rightarrow> Some k)"

definition dictCompareHashKeys :: "('k, 'v) dict \<Rightarrow> 'k \<Rightarrow> 'k \<Rightarrow> bool option" where
  "dictCompareHashKeys ht k1 k2 =
     (case keyCompare (ht_type ht) of Some cmp \<Rightarrow> cmp k1 k2 | None \<Rightarrow> Some (k1 = k2))"

text \<open>\<^verbatim>\<open>dictHashKey(ht, key) & mask\<close>, stored in an \<^verbatim>\<open>unsigned int\<close>.\<close>

definition bucket_of :: "('k, 'v) dict \<Rightarrow> 'k \<Rightarrow> nat \<Rightarrow> nat option" where
  "bucket_of ht k m = map_option (\<lambda>h. (unat h AND m) mod 2 ^ 32) (hashFunction (ht_type ht) k)"

text \<open>\<^verbatim>\<open>ht->table[i]\<close>\<close>

definition bucket :: "('k, 'v) dict \<Rightarrow> nat \<Rightarrow> ('k, 'v) dictEntry list option" where
  "bucket ht i = do {
     t \<leftarrow> deref (ht_table ht);
     if i < length t then Some (t ! i) else None
   }"

definition set_bucket :: "('k, 'v) dict \<Rightarrow> nat \<Rightarrow> ('k, 'v) dictEntry list \<Rightarrow> ('k, 'v) dict" where
  "set_bucket ht i b = (case ht_table ht of
     Ptr t \<Rightarrow> ht\<lparr>ht_table := Ptr (t[i := b])\<rparr>
   | _ \<Rightarrow> ht)"

section \<open>Operations (dict.c)\<close>

text \<open>The Bernstein hash of the bytes of a key.\<close>

fun hash_loop :: "32 word \<Rightarrow> bytes \<Rightarrow> 32 word" where
  "hash_loop hash [] = hash"
| "hash_loop hash (c # cs) = hash_loop (push_bit 5 hash + hash + of_nat (byte c)) cs"

definition dictGenHashFunction :: "bytes \<Rightarrow> int \<Rightarrow> 32 word option" where
  "dictGenHashFunction b len =
     (if len < 0 then None else map_option (hash_loop 5381) (mem_read b 0 (nat len)))"

definition dictReset :: "('k, 'v) dict \<Rightarrow> ('k, 'v) dict" where
  "dictReset ht = ht\<lparr>ht_table := Null, ht_size := 0, ht_sizemask := 0, ht_used := 0\<rparr>"

definition dictInit :: "('k, 'v) dict \<Rightarrow> ('k, 'v) dictType \<Rightarrow> ('k, 'v) dict" where
  "dictInit ht ty = (dictReset ht)\<lparr>ht_type := ty\<rparr>"

text \<open>
  The result of \<^verbatim>\<open>malloc\<close> is used without a check, here and in \<^verbatim>\<open>dictAdd\<close>; \<^theory_text>\<open>junk\<close> is
  what the fresh block holds.
\<close>

definition dictCreate :: "allocator \<Rightarrow> ('k, 'v) dict \<Rightarrow> ('k, 'v) dictType \<Rightarrow> ('k, 'v) dict option" where
  "dictCreate A junk ty = (if grants A 48 then Some (dictInit junk ty) else None)"

text \<open>The doubling loop, in \<^verbatim>\<open>unsigned long\<close>.\<close>

partial_function (option) next_power :: "nat \<Rightarrow> nat \<Rightarrow> nat option" where
  "next_power i n = (if i \<ge> n then Some i else next_power (size_t (i * 2)) n)"

definition dictNextPower :: "nat \<Rightarrow> nat option" where
  "dictNextPower n =
     (if n \<ge> LONG_MAX then Some LONG_MAX else next_power DICT_HT_INITIAL_SIZE n)"

text \<open>
  The rows that the loops over the table visit; reading a row needs the table. \<^verbatim>\<open>used--\<close> is
  a decrement of an \<^verbatim>\<open>unsigned long\<close>.
\<close>

definition rows :: "('k, 'v) dict \<Rightarrow> ('k, 'v) dictEntry list list option" where
  "rows ht =
     (if ht_size ht = 0 \<or> ht_used ht = 0 then Some []
      else do {
        t \<leftarrow> deref (ht_table ht);
        if ht_size ht \<le> length t then Some (take (ht_size ht) t) else None
      })"

definition dec_used :: "nat \<Rightarrow> nat" where
  "dec_used n = (if n = 0 then 2 ^ 64 - 1 else n - 1)"

text \<open>
  \<^verbatim>\<open>dictExpand\<close>: the entries of one row, then all rows while any element is left; each entry
  is put at the front of its new bucket.
\<close>

fun move_row :: "('k, 'v) dict \<Rightarrow> ('k, 'v) dictEntry list \<Rightarrow> ('k, 'v) dict \<Rightarrow> nat \<Rightarrow>
    (('k, 'v) dict \<times> nat) option" where
  "move_row ht [] n used = Some (n, used)"
| "move_row ht (he # es) n used = do {
     h \<leftarrow> bucket_of ht (he_key he) (ht_sizemask n);
     b \<leftarrow> bucket n h;
     move_row ht es (set_bucket n h (he # b)) (dec_used used)
   }"

fun move_rows :: "('k, 'v) dict \<Rightarrow> ('k, 'v) dictEntry list list \<Rightarrow> ('k, 'v) dict \<Rightarrow> nat \<Rightarrow>
    (('k, 'v) dict \<times> nat) option" where
  "move_rows ht [] n used = Some (n, used)"
| "move_rows ht (r # rs) n used =
     (if used > 0 then do { (n, used) \<leftarrow> move_row ht r n used; move_rows ht rs n used }
      else Some (n, used))"

definition dictExpand :: "allocator \<Rightarrow> ('k, 'v) dict \<Rightarrow> nat \<Rightarrow> (int \<times> ('k, 'v) dict) option" where
  "dictExpand A ht sz = do {
     realsize \<leftarrow> dictNextPower sz;
     if ht_used ht > sz then Some (DICT_ERR, ht)
     else do {
       let n = (dictInit ht (ht_type ht))
         \<lparr>ht_size := realsize, ht_sizemask := realsize - 1,
          ht_table := (if grants A (size_t (realsize * 8))
                       then Ptr (replicate realsize []) else Null),
          ht_used := ht_used ht\<rparr>;
       rs \<leftarrow> rows ht;
       (n, used) \<leftarrow> move_rows ht rs n (ht_used ht);
       if used = 0 then Some (DICT_OK, n) else None
     }
   }"

definition dictExpandIfNeeded :: "allocator \<Rightarrow> ('k, 'v) dict \<Rightarrow> (int \<times> ('k, 'v) dict) option" where
  "dictExpandIfNeeded A ht =
     (if ht_size ht = 0 then dictExpand A ht DICT_HT_INITIAL_SIZE
      else if ht_used ht = ht_size ht then dictExpand A ht (size_t (ht_size ht * 2))
      else Some (DICT_OK, ht))"

text \<open>The walk along a bucket: the entries before the first one whose key compares equal,
  and the rest from it on.\<close>

fun find_chain :: "('k, 'v) dict \<Rightarrow> 'k \<Rightarrow> ('k, 'v) dictEntry list \<Rightarrow>
    (('k, 'v) dictEntry list \<times> ('k, 'v) dictEntry list) option" where
  "find_chain ht k [] = Some ([], [])"
| "find_chain ht k (he # es) = do {
     eq \<leftarrow> dictCompareHashKeys ht k (he_key he);
     if eq then Some ([], he # es)
     else do { (pre, suf) \<leftarrow> find_chain ht k es; Some (he # pre, suf) }
   }"

text \<open>The index is an \<^verbatim>\<open>unsigned int\<close> that is returned as an \<^verbatim>\<open>int\<close>.\<close>

definition dictKeyIndex :: "allocator \<Rightarrow> ('k, 'v) dict \<Rightarrow> 'k \<Rightarrow> (int \<times> ('k, 'v) dict) option" where
  "dictKeyIndex A ht k = do {
     (r, ht) \<leftarrow> dictExpandIfNeeded A ht;
     if r = DICT_ERR then Some (- 1, ht)
     else do {
       h \<leftarrow> bucket_of ht k (ht_sizemask ht);
       b \<leftarrow> bucket ht h;
       (pre, suf) \<leftarrow> find_chain ht k b;
       Some (if suf \<noteq> [] then - 1 else to_int (int h), ht)
     }
   }"

definition dictAdd :: "allocator \<Rightarrow> ('k, 'v) dict \<Rightarrow> 'k \<Rightarrow> 'v \<Rightarrow> (int \<times> ('k, 'v) dict) option" where
  "dictAdd A ht k v = do {
     (index, ht) \<leftarrow> dictKeyIndex A ht k;
     if index = - 1 then Some (DICT_ERR, ht)
     else if index < 0 \<or> \<not> grants A 24 then None
     else do {
       b \<leftarrow> bucket ht (nat index);
       k \<leftarrow> dictSetHashKey ht k;
       v \<leftarrow> dictSetHashVal ht v;
       Some (DICT_OK, (set_bucket ht (nat index) (\<lparr>he_key = k, he_val = v\<rparr> # b))
         \<lparr>ht_used := size_t (ht_used ht + 1)\<rparr>)
     }
   }"

text \<open>The entry that is found, if any.\<close>

definition dictFind :: "('k, 'v) dict \<Rightarrow> 'k \<Rightarrow> ('k, 'v) dictEntry ptr option" where
  "dictFind ht k =
     (if ht_size ht = 0 then Some Null
      else do {
        h \<leftarrow> bucket_of ht k (ht_sizemask ht);
        b \<leftarrow> bucket ht h;
        (pre, suf) \<leftarrow> find_chain ht k b;
        Some (case suf of [] \<Rightarrow> Null | he # _ \<Rightarrow> Ptr he)
      })"

text \<open>Storing a new value in the entry that \<^verbatim>\<open>dictFind\<close> returned.\<close>

definition set_found :: "('k, 'v) dict \<Rightarrow> 'k \<Rightarrow> 'v \<Rightarrow> ('k, 'v) dict option" where
  "set_found ht k v = do {
     h \<leftarrow> bucket_of ht k (ht_sizemask ht);
     b \<leftarrow> bucket ht h;
     (pre, suf) \<leftarrow> find_chain ht k b;
     (case suf of [] \<Rightarrow> None | he # es \<Rightarrow> Some (set_bucket ht h (pre @ he\<lparr>he_val := v\<rparr> # es)))
   }"

definition dictReplace :: "allocator \<Rightarrow> ('k, 'v) dict \<Rightarrow> 'k \<Rightarrow> 'v \<Rightarrow>
    (int \<times> ('k, 'v) dict \<times> ('k, 'v) event list) option" where
  "dictReplace A ht k v = do {
     (r, ht) \<leftarrow> dictAdd A ht k v;
     if r = DICT_OK then Some (1, ht, [])
     else do {
       e \<leftarrow> dictFind ht k;
       auxentry \<leftarrow> deref e;
       v \<leftarrow> dictSetHashVal ht v;
       ht \<leftarrow> set_found ht k v;
       Some (0, ht, dictFreeEntryVal ht auxentry)
     }
   }"

definition dictDelete :: "('k, 'v) dict \<Rightarrow> 'k \<Rightarrow> (int \<times> ('k, 'v) dict \<times> ('k, 'v) event list) option" where
  "dictDelete ht k =
     (if ht_size ht = 0 then Some (DICT_ERR, ht, [])
      else do {
        h \<leftarrow> bucket_of ht k (ht_sizemask ht);
        b \<leftarrow> bucket ht h;
        (pre, suf) \<leftarrow> find_chain ht k b;
        Some (case suf of
            [] \<Rightarrow> (DICT_ERR, ht, [])
          | de # es \<Rightarrow>
              (DICT_OK, (set_bucket ht h (pre @ es))\<lparr>ht_used := dec_used (ht_used ht)\<rparr>,
               dictFreeEntryKey ht de @ dictFreeEntryVal ht de))
      })"

text \<open>\<^verbatim>\<open>_dictClear\<close>: the rows are freed while any element is left.\<close>

fun free_row :: "('k, 'v) dict \<Rightarrow> ('k, 'v) dictEntry list \<Rightarrow> nat \<Rightarrow> nat \<times> ('k, 'v) event list" where
  "free_row ht [] used = (used, [])"
| "free_row ht (he # es) used =
     (let (used, ev) = free_row ht es (dec_used used)
      in (used, dictFreeEntryKey ht he @ dictFreeEntryVal ht he @ ev))"

fun free_rows :: "('k, 'v) dict \<Rightarrow> ('k, 'v) dictEntry list list \<Rightarrow> nat \<Rightarrow> ('k, 'v) event list" where
  "free_rows ht [] used = []"
| "free_rows ht (r # rs) used =
     (if used > 0 then (let (used, ev) = free_row ht r used in ev @ free_rows ht rs used) else [])"

definition dictClear :: "('k, 'v) dict \<Rightarrow> (int \<times> ('k, 'v) dict \<times> ('k, 'v) event list) option" where
  "dictClear ht = do {
     rs \<leftarrow> rows ht;
     _ \<leftarrow> free_ptr (ht_table ht);
     Some (DICT_OK, dictReset ht, free_rows ht rs (ht_used ht))
   }"

definition dictRelease :: "('k, 'v) dict ptr \<Rightarrow> (('k, 'v) dict ptr \<times> ('k, 'v) event list) option" where
  "dictRelease p = do {
     ht \<leftarrow> deref p;
     (r, ht, ev) \<leftarrow> dictClear ht;
     p \<leftarrow> free_ptr p;
     Some (p, ev)
   }"

definition dictGetIterator :: "allocator \<Rightarrow> ('k, 'v) dictIterator option" where
  "dictGetIterator A =
     (if grants A 32 then Some \<lparr>it_index = - 1, it_entry = None, it_nextEntry = []\<rparr> else None)"

text \<open>\<^verbatim>\<open>dictNext\<close>: the entry that is returned, and the iterator.\<close>

function dictNext :: "('k, 'v) dict \<Rightarrow> ('k, 'v) dictIterator \<Rightarrow>
    (('k, 'v) dictEntry option \<times> ('k, 'v) dictIterator) option" where
  "dictNext ht iter =
     (if it_entry iter = None then
        (let iter = iter\<lparr>it_index := it_index iter + 1\<rparr>
         in if it_index iter \<ge> to_int (int (ht_size ht)) then Some (None, iter)
            else if it_index iter < 0 then None
            else do {
              b \<leftarrow> bucket ht (nat (it_index iter));
              (case b of
                 [] \<Rightarrow> dictNext ht (iter\<lparr>it_entry := None\<rparr>)
               | he # es \<Rightarrow> Some (Some he, iter\<lparr>it_entry := Some he, it_nextEntry := es\<rparr>))
            })
      else
        (case it_nextEntry iter of
           [] \<Rightarrow> dictNext ht (iter\<lparr>it_entry := None\<rparr>)
         | he # es \<Rightarrow> Some (Some he, iter\<lparr>it_entry := Some he, it_nextEntry := es\<rparr>)))"
  by pat_completeness auto
termination
  by (relation "measures [\<lambda>(ht, iter). nat (to_int (int (ht_size ht)) - it_index iter),
      \<lambda>(ht, iter). if it_entry iter = None then 0 else 1]") auto

declare dictNext.simps [simp del]

text \<open>The calls of \<^verbatim>\<open>dictNext\<close> until it returns null, as the users of the iterator make them.\<close>

fun dict_iterate :: "('k, 'v) dict \<Rightarrow> nat \<Rightarrow> ('k, 'v) dictIterator \<Rightarrow> ('k, 'v) dictEntry list option" where
  "dict_iterate ht 0 iter = None"
| "dict_iterate ht (Suc fuel) iter = do {
     (e, iter) \<leftarrow> dictNext ht iter;
     (case e of
        None \<Rightarrow> Some []
      | Some he \<Rightarrow> map_option ((#) he) (dict_iterate ht fuel iter))
   }"

section \<open>The contract of the callbacks\<close>

text \<open>
  \<^theory_text>\<open>kok\<close> are the keys that the callbacks accept and \<^theory_text>\<open>c\<close> the contents that they compare:
  equal contents compare equal and hash alike, and a copy has the contents of the original.
\<close>

definition dictType_ok :: "('k \<Rightarrow> bool) \<Rightarrow> ('k \<Rightarrow> 'c) \<Rightarrow> ('c \<Rightarrow> 32 word) \<Rightarrow> ('k, 'v) dictType \<Rightarrow> bool" where
  "dictType_ok kok c h ty \<longleftrightarrow>
     (\<forall>k. kok k \<longrightarrow> hashFunction ty k = Some (h (c k))) \<and>
     (\<forall>k k'. kok k \<and> kok k' \<longrightarrow>
        (case keyCompare ty of Some cmp \<Rightarrow> cmp k k' | None \<Rightarrow> Some (k = k')) = Some (c k = c k')) \<and>
     (\<forall>k. kok k \<longrightarrow>
        (\<exists>k'. (case keyDup ty of Some dup \<Rightarrow> dup k | None \<Rightarrow> Some k) = Some k' \<and> kok k' \<and> c k' = c k)) \<and>
     (\<forall>v. (case valDup ty of Some dup \<Rightarrow> dup v | None \<Rightarrow> Some v) = Some v)"

section \<open>The invariant and the map\<close>

definition tab :: "('k, 'v) dict \<Rightarrow> ('k, 'v) dictEntry list list" where
  "tab ht = (case ht_table ht of Ptr t \<Rightarrow> t | _ \<Rightarrow> [])"

definition assoc :: "('k \<Rightarrow> 'c) \<Rightarrow> ('k, 'v) dictEntry list \<Rightarrow> ('c \<times> 'v) list" where
  "assoc c es = map (\<lambda>e. (c (he_key e), he_val e)) es"

definition dict_map :: "('k \<Rightarrow> 'c) \<Rightarrow> ('k, 'v) dict \<Rightarrow> 'c \<Rightarrow> 'v option" where
  "dict_map c ht = map_of (assoc c (concat (tab ht)))"

text \<open>Every entry is in the bucket of its hash, and no two entries have the same key.\<close>

definition rows_ok :: "('k \<Rightarrow> bool) \<Rightarrow> ('k \<Rightarrow> 'c) \<Rightarrow> ('c \<Rightarrow> nat) \<Rightarrow> ('k, 'v) dictEntry list list \<Rightarrow> bool" where
  "rows_ok kok c ix t \<longleftrightarrow>
     (\<forall>i < length t. \<forall>e \<in> set (t ! i). kok (he_key e) \<and> ix (c (he_key e)) = i) \<and>
     distinct (map fst (assoc c (concat t)))"

definition slot :: "('c \<Rightarrow> 32 word) \<Rightarrow> nat \<Rightarrow> 'c \<Rightarrow> nat" where
  "slot h n x = unat (h x) mod 2 ^ n"

definition dict_ok :: "('k \<Rightarrow> bool) \<Rightarrow> ('k \<Rightarrow> 'c) \<Rightarrow> ('c \<Rightarrow> 32 word) \<Rightarrow> ('k, 'v) dict \<Rightarrow> bool" where
  "dict_ok kok c h ht \<longleftrightarrow> dictType_ok kok c h (ht_type ht) \<and>
     (if ht_size ht = 0 then ht_table ht = Null \<and> ht_used ht = 0
      else (\<exists>n. 2 \<le> n \<and> n \<le> 31 \<and> ht_size ht = 2 ^ n \<and> ht_sizemask ht = 2 ^ n - 1 \<and>
        ht_table ht = Ptr (tab ht) \<and> length (tab ht) = 2 ^ n \<and>
        ht_used ht = length (concat (tab ht)) \<and> rows_ok kok c (slot h n) (tab ht)))"

lemma dictType_okD:
  assumes "dictType_ok kok c h (ht_type ht)"
  shows "kok k \<Longrightarrow> hashFunction (ht_type ht) k = Some (h (c k))"
    "kok k \<Longrightarrow> kok k' \<Longrightarrow> dictCompareHashKeys ht k k' = Some (c k = c k')"
    "kok k \<Longrightarrow> \<exists>k'. dictSetHashKey ht k = Some k' \<and> kok k' \<and> c k' = c k"
    "dictSetHashVal ht v = Some v"
  using assms
  unfolding dictType_ok_def dictCompareHashKeys_def dictSetHashKey_def dictSetHashVal_def by blast+

lemma dict_okE:
  assumes "dict_ok kok c h ht"
  obtains (empty) "ht_size ht = 0" "ht_table ht = Null" "ht_used ht = 0" "tab ht = []"
  | (table) n where "2 \<le> n" "n \<le> 31" "ht_size ht = 2 ^ n" "ht_sizemask ht = 2 ^ n - 1"
      "ht_table ht = Ptr (tab ht)" "length (tab ht) = 2 ^ n" "ht_used ht = length (concat (tab ht))"
      "rows_ok kok c (slot h n) (tab ht)"
proof (cases "ht_size ht = 0")
  case True
  with assms have "ht_table ht = Null" "ht_used ht = 0" by (auto simp: dict_ok_def)
  moreover from this have "tab ht = []" by (simp add: tab_def)
  ultimately show ?thesis using empty True by blast
next
  case False
  with assms table show ?thesis unfolding dict_ok_def by auto
qed

lemma dict_ok_type: "dict_ok kok c h ht \<Longrightarrow> dictType_ok kok c h (ht_type ht)"
  by (simp add: dict_ok_def)

section \<open>Buckets\<close>

lemma bucket_of_spec:
  assumes "dictType_ok kok c h (ht_type ht)" "kok k" "n \<le> 32"
  shows "bucket_of ht k (2 ^ n - 1) = Some (slot h n (c k))"
proof -
  have "unat (h (c k)) AND (2 ^ n - 1) = unat (h (c k)) mod 2 ^ n"
    using take_bit_eq_mask [of n "unat (h (c k))"] by (simp add: take_bit_eq_mod mask_eq_exp_minus_1)
  moreover have "unat (h (c k)) mod 2 ^ n mod 2 ^ 32 = unat (h (c k)) mod 2 ^ n"
    using unat_less_32 [of "h (c k)"] le_less_trans [OF mod_less_eq_dividend] by (intro mod_less) simp
  ultimately show ?thesis
    using dictType_okD(1) [OF assms(1,2)] by (simp add: bucket_of_def slot_def)
qed

lemma slot_less: "slot h n x < 2 ^ n"
  by (simp add: slot_def)

lemma find_chain_spec:
  assumes "dictType_ok kok c h (ht_type ht)" "kok k" "\<forall>e \<in> set b. kok (he_key e)"
  shows "find_chain ht k b =
    Some (takeWhile (\<lambda>e. c k \<noteq> c (he_key e)) b, dropWhile (\<lambda>e. c k \<noteq> c (he_key e)) b)"
  using assms(3) by (induction b) (auto simp: dictType_okD(2) [OF assms(1,2)])

text \<open>Replacing a row, seen as a multiset of entries.\<close>

lemma mset_concat_update:
  "i < length t \<Longrightarrow> mset (concat (t[i := b])) + mset (t ! i) = mset (concat t) + mset b"
proof (induction t arbitrary: i)
  case (Cons r t)
  show ?case
  proof (cases i)
    case (Suc j)
    with Cons.IH [of j] Cons.prems show ?thesis by (simp add: add.assoc)
  qed simp
qed simp

lemma tab_set_bucket [simp]: "ht_table ht = Ptr t \<Longrightarrow> tab (set_bucket ht i b) = t[i := b]"
  by (simp add: tab_def set_bucket_def)

lemma set_bucket_simps [simp]:
  "ht_size (set_bucket ht i b) = ht_size ht" "ht_sizemask (set_bucket ht i b) = ht_sizemask ht"
  "ht_used (set_bucket ht i b) = ht_used ht" "ht_type (set_bucket ht i b) = ht_type ht"
  by (simp_all add: set_bucket_def split: ptr.splits)

lemma ht_table_set_bucket: "ht_table ht = Ptr t \<Longrightarrow> ht_table (set_bucket ht i b) = Ptr (t[i := b])"
  by (simp add: set_bucket_def)

lemma tab_used [simp]: "tab (ht\<lparr>ht_used := u\<rparr>) = tab ht"
  by (simp add: tab_def)

lemma assoc_simps [simp]:
  "assoc c [] = []" "assoc c (e # es) = (c (he_key e), he_val e) # assoc c es"
  "assoc c (xs @ ys) = assoc c xs @ assoc c ys"
  by (simp_all add: assoc_def)

lemma distinct_assoc_mset:
  "mset xs = mset ys \<Longrightarrow> distinct (map fst (assoc c xs)) \<longleftrightarrow> distinct (map fst (assoc c ys))"
  unfolding assoc_def by (intro mset_eq_imp_distinct_iff) simp

lemma map_of_assoc_mset:
  assumes "mset xs = mset ys" "distinct (map fst (assoc c xs))"
  shows "map_of (assoc c xs) = map_of (assoc c ys)"
proof -
  have "set (assoc c xs) = set (assoc c ys)" using mset_eq_setD [OF assms(1)] by (simp add: assoc_def)
  moreover have "distinct (map fst (assoc c ys))" using assms distinct_assoc_mset by blast
  ultimately show ?thesis using assms(2) map_of_inject_set by blast
qed

lemma row_keys:
  assumes "rows_ok kok c ix t" "i < length t"
  shows "\<forall>e \<in> set (t ! i). kok (he_key e)"
  using assms by (auto simp: rows_ok_def)

text \<open>A key occurs in the table when it occurs in its bucket.\<close>

lemma row_lookup:
  assumes "rows_ok kok c ix t" "ix x < length t" "e \<in> set (concat t)" "c (he_key e) = x"
  shows "e \<in> set (t ! ix x)"
proof -
  obtain r where "r \<in> set t" "e \<in> set r" using assms(3) by auto
  then obtain i where i: "i < length t" "e \<in> set (t ! i)" by (metis in_set_conv_nth)
  then have "ix x = i" using assms(1,4) by (auto simp: rows_ok_def)
  with i show ?thesis by simp
qed

lemma row_update_ok:
  assumes "rows_ok kok c ix t" "i < length t" "\<forall>e \<in> set b. kok (he_key e) \<and> ix (c (he_key e)) = i"
    "distinct (map fst (assoc c (concat (t[i := b]))))"
  shows "rows_ok kok c ix (t[i := b])"
  using assms by (auto simp: rows_ok_def nth_list_update)

section \<open>Lookup\<close>

text \<open>What the search in the bucket of a key finds, for every table that is not empty.\<close>

lemma locate:
  assumes ok: "dict_ok kok c h ht" and k: "kok k" and ne: "ht_size ht \<noteq> 0"
  obtains i pre suf n where "bucket_of ht k (ht_sizemask ht) = Some i"
    "i < length (tab ht)" "i < 2 ^ 31" "bucket ht i = Some (tab ht ! i)"
    "find_chain ht k (tab ht ! i) = Some (pre, suf)" "tab ht ! i = pre @ suf"
    "ht_table ht = Ptr (tab ht)" "ht_used ht = length (concat (tab ht))"
    "ht_size ht = 2 ^ n" "i = slot h n (c k)" "rows_ok kok c (slot h n) (tab ht)"
    "suf = [] \<Longrightarrow> c k \<notin> fst ` set (assoc c (concat (tab ht)))"
    "\<And>e es. suf = e # es \<Longrightarrow> c (he_key e) = c k \<and> dict_map c ht (c k) = Some (he_val e)"
proof (cases rule: dict_okE [OF ok, case_names empty table])
  case empty
  with ne show ?thesis by simp
next
  case (table n)
  let ?t = "tab ht" and ?i = "slot h n (c k)"
  have i: "?i < length ?t" using slot_less [of h n "c k"] table by simp
  have "?i < 2 ^ 31" using slot_less [of h n "c k"] power_increasing [of n 31 "2 :: nat"] table
    by (meson less_le_trans one_le_numeral)
  note i31 = this
  have bk: "bucket ht ?i = Some (?t ! ?i)" using table(5) i by (simp add: bucket_def)
  let ?P = "\<lambda>e. c k \<noteq> c (he_key e)"
  have fc: "find_chain ht k (?t ! ?i) = Some (takeWhile ?P (?t ! ?i), dropWhile ?P (?t ! ?i))"
    by (rule find_chain_spec [OF dict_ok_type [OF ok] k row_keys [OF table(8) i]])
  have bo: "bucket_of ht k (ht_sizemask ht) = Some ?i"
    unfolding table(4) using table(2) by (intro bucket_of_spec [OF dict_ok_type [OF ok] k]) simp
  have d: "distinct (map fst (assoc c (concat ?t)))" using table(8) by (simp add: rows_ok_def)
  show ?thesis
  proof (rule that [OF bo i i31 bk fc _ table(5,7,3) refl table(8)])
    assume "dropWhile ?P (?t ! ?i) = []"
    then have "\<forall>e \<in> set (?t ! ?i). ?P e" by (simp add: dropWhile_eq_Nil_conv)
    then show "c k \<notin> fst ` set (assoc c (concat ?t))"
      using row_lookup [OF table(8), of "c k"] i by (fastforce simp: assoc_def)
  next
    fix e es assume e: "dropWhile ?P (?t ! ?i) = e # es"
    then have "\<not> ?P e" using hd_dropWhile [of ?P "?t ! ?i"] by auto
    moreover have "e \<in> set (?t ! ?i)" using e set_dropWhileD [of e ?P] by auto
    then have "e \<in> set (concat ?t)" using i by auto
    then have "(c (he_key e), he_val e) \<in> set (assoc c (concat ?t))" by (auto simp: assoc_def)
    then have "map_of (assoc c (concat ?t)) (c (he_key e)) = Some (he_val e)"
      using d by (simp add: map_of_is_SomeI)
    ultimately show "c (he_key e) = c k \<and> dict_map c ht (c k) = Some (he_val e)"
      by (simp add: dict_map_def)
  qed simp
qed

lemma dict_map_None: "dict_map c ht x = None \<longleftrightarrow> x \<notin> fst ` set (assoc c (concat (tab ht)))"
  by (simp add: dict_map_def map_of_eq_None_iff)

lemma dictFind_spec:
  assumes ok: "dict_ok kok c h ht" and k: "kok k"
  obtains (found) e where "dictFind ht k = Some (Ptr e)" "c (he_key e) = c k"
      "dict_map c ht (c k) = Some (he_val e)" "ht_size ht \<noteq> 0"
  | (absent) "dictFind ht k = Some Null" "dict_map c ht (c k) = None"
proof (cases "ht_size ht = 0")
  case True
  with ok have "tab ht = []" by (simp add: dict_ok_def tab_def)
  with True show ?thesis by (intro absent) (simp_all add: dictFind_def dict_map_def)
next
  case False
  obtain i pre suf n where l: "bucket_of ht k (ht_sizemask ht) = Some i"
    "bucket ht i = Some (tab ht ! i)" "find_chain ht k (tab ht ! i) = Some (pre, suf)"
    "suf = [] \<Longrightarrow> c k \<notin> fst ` set (assoc c (concat (tab ht)))"
    "\<And>e es. suf = e # es \<Longrightarrow> c (he_key e) = c k \<and> dict_map c ht (c k) = Some (he_val e)"
    by (rule locate [OF ok k False]) blast
  show ?thesis
  proof (cases suf)
    case Nil
    with l False show ?thesis by (intro absent) (simp_all add: dictFind_def dict_map_None)
  next
    case (Cons e es)
    with l False show ?thesis by (intro found [of e]) (simp_all add: dictFind_def)
  qed
qed

section \<open>Expansion\<close>

lemma next_power_spec:
  assumes "2 ^ a \<le> (2 :: nat) ^ 62" "a \<le> m" "m \<le> 62"
  shows "next_power (2 ^ a) (2 ^ m) = Some (2 ^ m)"
  using assms
proof (induction "m - a" arbitrary: a)
  case 0
  then show ?case by (subst next_power.simps) simp
next
  case (Suc d)
  then have lt: "(2 :: nat) ^ a < 2 ^ m" by (intro power_strict_increasing) auto
  have "(2 :: nat) ^ Suc a \<le> 2 ^ 62" using Suc by (intro power_increasing) auto
  moreover have "size_t (2 ^ a * 2) = 2 ^ Suc a"
    using calculation by (simp add: size_t_def)
  ultimately show ?case using Suc(1) [of "Suc a"] Suc(2-) lt by (subst next_power.simps) simp
qed

lemma dictNextPower_spec: "2 \<le> m \<Longrightarrow> m \<le> 62 \<Longrightarrow> dictNextPower (2 ^ m) = Some (2 ^ m)"
proof -
  assume m: "2 \<le> m" "m \<le> 62"
  have "(2 :: nat) ^ m \<le> 2 ^ 62" using m by (intro power_increasing) auto
  then have "\<not> 2 ^ m \<ge> LONG_MAX" by (simp add: LONG_MAX_def)
  then show ?thesis using next_power_spec [of 2 m] m
    by (simp add: dictNextPower_def DICT_HT_INITIAL_SIZE_def)
qed

lemma concat_replicate_Nil [simp]: "concat (replicate n []) = []"
  by (induction n) auto

text \<open>The state of the new table while rows are moved into it.\<close>

definition moving :: "('k \<Rightarrow> bool) \<Rightarrow> ('k \<Rightarrow> 'c) \<Rightarrow> ('c \<Rightarrow> 32 word) \<Rightarrow> nat \<Rightarrow> ('k, 'v) dict \<Rightarrow>
    ('k, 'v) dict \<Rightarrow> bool" where
  "moving kok c h m n0 n \<longleftrightarrow>
     ht_size n = ht_size n0 \<and> ht_sizemask n = 2 ^ m - 1 \<and> ht_type n = ht_type n0 \<and>
     ht_used n = ht_used n0 \<and> ht_table n = Ptr (tab n) \<and> length (tab n) = 2 ^ m \<and>
     (\<forall>i < length (tab n). \<forall>e \<in> set (tab n ! i). kok (he_key e) \<and> slot h m (c (he_key e)) = i)"

lemma move_row_spec:
  assumes ty: "dictType_ok kok c h (ht_type ht)" and m: "m \<le> 32"
    and mv: "moving kok c h m n0 n" and keys: "\<forall>e \<in> set es. kok (he_key e)" and u: "length es \<le> u"
  shows "\<exists>n'. move_row ht es n u = Some (n', u - length es) \<and> moving kok c h m n0 n' \<and>
    mset (concat (tab n')) = mset (concat (tab n)) + mset es"
  using mv keys u
proof (induction es arbitrary: n u)
  case (Cons e es)
  let ?i = "slot h m (c (he_key e))"
  have mask: "ht_sizemask n = 2 ^ m - 1" and tb: "ht_table n = Ptr (tab n)"
    and i: "?i < length (tab n)"
    using Cons(2) slot_less [of h m] by (auto simp: moving_def)
  define n1 where "n1 = set_bucket n ?i (e # tab n ! ?i)"
  have t1: "tab n1 = (tab n)[?i := e # tab n ! ?i]" using tb by (simp add: n1_def)
  have mv1: "moving kok c h m n0 n1"
    using Cons(2,3) i tb unfolding moving_def t1
    by (auto simp: n1_def ht_table_set_bucket [OF tb] nth_list_update)
  have ms: "mset (concat (tab n1)) = mset (concat (tab n)) + {#e#}"
    using mset_concat_update [OF i, of "e # tab n ! ?i"] unfolding t1 by simp
  have step: "move_row ht (e # es) n u = move_row ht es n1 (u - 1)"
    using bucket_of_spec [OF ty _ m, of "he_key e"] Cons(3,4) tb i
    by (simp add: mask bucket_def n1_def dec_used_def)
  have "length es \<le> u - 1" using Cons(4) by simp
  with Cons(1) [OF mv1 _ this] Cons(3,4) obtain n' where
    "move_row ht es n1 (u - 1) = Some (n', u - 1 - length es)" "moving kok c h m n0 n'"
    "mset (concat (tab n')) = mset (concat (tab n1)) + mset es" by auto
  with step ms show ?case by auto
qed auto

lemma move_rows_spec:
  assumes ty: "dictType_ok kok c h (ht_type ht)" and m: "m \<le> 32"
    and mv: "moving kok c h m n0 n" and keys: "\<forall>e \<in> set (concat rs). kok (he_key e)"
    and u: "u = length (concat rs)"
  shows "\<exists>n'. move_rows ht rs n u = Some (n', 0) \<and> moving kok c h m n0 n' \<and>
    mset (concat (tab n')) = mset (concat (tab n)) + mset (concat rs)"
  using mv keys u
proof (induction rs arbitrary: n u)
  case (Cons r rs)
  show ?case
  proof (cases "u > 0")
    case True
    obtain n1 where n1: "move_row ht r n u = Some (n1, u - length r)" "moving kok c h m n0 n1"
      "mset (concat (tab n1)) = mset (concat (tab n)) + mset r"
      using move_row_spec [OF ty m Cons(2), of r u] Cons(3,4) by auto
    have "u - length r = length (concat rs)" using Cons(4) by simp
    with Cons(1) [OF n1(2) _ this] Cons(3) obtain n' where
      "move_rows ht rs n1 (u - length r) = Some (n', 0)" "moving kok c h m n0 n'"
      "mset (concat (tab n')) = mset (concat (tab n1)) + mset (concat rs)" by auto
    with n1 True show ?thesis by auto
  next
    case False
    then have "u = 0" "r = []" "concat rs = []" using Cons(4) by auto
    with Cons(2) show ?thesis by simp
  qed
qed auto

lemma rows_spec:
  assumes "dict_ok kok c h ht"
  shows "\<exists>rs. rows ht = Some rs \<and> concat rs = concat (tab ht)"
proof (cases rule: dict_okE [OF assms, case_names empty table])
  case (table n)
  then show ?thesis by (cases "ht_used ht = 0") (auto simp: rows_def)
qed (auto simp: rows_def)

lemma table_keys: "dict_ok kok c h ht \<Longrightarrow> \<forall>e \<in> set (concat (tab ht)). kok (he_key e)"
proof (elim dict_okE)
  fix n assume ok: "rows_ok kok c (slot h n) (tab ht)"
  show "\<forall>e \<in> set (concat (tab ht)). kok (he_key e)"
  proof
    fix e assume "e \<in> set (concat (tab ht))"
    then obtain r where "r \<in> set (tab ht)" "e \<in> set r" by auto
    then obtain i where "i < length (tab ht)" "e \<in> set (tab ht ! i)" by (metis in_set_conv_nth)
    with ok show "kok (he_key e)" by (simp add: rows_ok_def)
  qed
qed simp

lemma table_distinct: "dict_ok kok c h ht \<Longrightarrow> distinct (map fst (assoc c (concat (tab ht))))"
  by (elim dict_okE) (auto simp: rows_ok_def)

lemma used_length: "dict_ok kok c h ht \<Longrightarrow> ht_used ht = length (concat (tab ht))"
  by (elim dict_okE) auto

lemma dictExpand_spec:
  assumes ok: "dict_ok kok c h ht" and m: "2 \<le> m" "m \<le> 31" and fits: "ht_used ht \<le> 2 ^ m"
    and A: "grants A (2 ^ m * 8)"
  obtains ht' where "dictExpand A ht (2 ^ m) = Some (DICT_OK, ht')" "dict_ok kok c h ht'"
    "ht_size ht' = 2 ^ m" "ht_used ht' = ht_used ht" "dict_map c ht' = dict_map c ht"
    "ht_type ht' = ht_type ht" "mset (concat (tab ht')) = mset (concat (tab ht))"
proof -
  obtain rs where rs: "rows ht = Some rs" "concat rs = concat (tab ht)"
    using rows_spec [OF ok] by blast
  define n where "n = (dictInit ht (ht_type ht))
    \<lparr>ht_size := 2 ^ m, ht_sizemask := 2 ^ m - 1, ht_table := Ptr (replicate (2 ^ m) []),
     ht_used := ht_used ht\<rparr>"
  have tn: "tab n = replicate (2 ^ m) []" by (simp add: n_def tab_def)
  have n: "ht_size n = 2 ^ m" "ht_type n = ht_type ht" "ht_used n = ht_used ht"
    "ht_sizemask n = 2 ^ m - 1" "ht_table n = Ptr (replicate (2 ^ m) [])"
    by (simp_all add: n_def dictInit_def dictReset_def)
  have mv: "moving kok c h m n n" unfolding moving_def tn n by simp
  have keys: "\<forall>e \<in> set (concat rs). kok (he_key e)" using table_keys [OF ok] rs by simp
  have u: "ht_used ht = length (concat rs)" using used_length [OF ok] rs by simp
  obtain n' where n': "move_rows ht rs n (ht_used ht) = Some (n', 0)" "moving kok c h m n n'"
    "mset (concat (tab n')) = mset (concat (tab n)) + mset (concat rs)"
    using move_rows_spec [OF dict_ok_type [OF ok] _ mv keys u] m by auto
  then have ms: "mset (concat (tab n')) = mset (concat (tab ht))" using rs by (simp add: tn)
  have p: "(2 :: nat) ^ m \<le> 2 ^ 31" using m by (intro power_increasing) auto
  then have st: "size_t (2 ^ m * 8) = 2 ^ m * 8" by (simp add: size_t_def)
  have code: "dictExpand A ht (2 ^ m) = Some (DICT_OK, n')"
    using fits A n'(1) rs m
    by (simp add: dictExpand_def dictNextPower_spec st n_def [unfolded One_nat_def, symmetric])
  have "rows_ok kok c (slot h m) (tab n')"
    using n'(2) table_distinct [OF ok] distinct_assoc_mset [OF ms, of c]
    by (simp add: rows_ok_def moving_def)
  moreover have "ht_used n' = length (concat (tab n'))"
    using n'(2) u rs ms by (metis n(3) moving_def size_mset)
  ultimately have "dict_ok kok c h n'"
    using n'(2) n m dict_ok_type [OF ok] unfolding dict_ok_def moving_def by auto
  moreover have "dict_map c n' = dict_map c ht"
    using map_of_assoc_mset [OF ms, of c] table_distinct [OF ok] distinct_assoc_mset [OF ms, of c]
    unfolding dict_map_def by metis
  ultimately show ?thesis using that [OF code] n'(2) n ms by (simp add: moving_def)
qed

section \<open>Insertion and removal\<close>

lemma dictExpandIfNeeded_spec:
  assumes ok: "dict_ok kok c h ht" and u: "ht_used ht < 2 ^ 31" and A: "\<And>n. grants A n"
  obtains ht' where "dictExpandIfNeeded A ht = Some (DICT_OK, ht')" "dict_ok kok c h ht'"
    "ht_size ht' \<noteq> 0" "ht_used ht' = ht_used ht" "dict_map c ht' = dict_map c ht"
    "mset (concat (tab ht')) = mset (concat (tab ht))"
proof (cases rule: dict_okE [OF ok, case_names empty table])
  case empty
  have four: "DICT_HT_INITIAL_SIZE = 2 ^ 2" by (simp add: DICT_HT_INITIAL_SIZE_def)
  have "ht_used ht \<le> 2 ^ 2" using empty by simp
  then obtain ht' where "dictExpand A ht (2 ^ 2) = Some (DICT_OK, ht')" "dict_ok kok c h ht'"
    "ht_size ht' = 2 ^ 2" "ht_used ht' = ht_used ht" "dict_map c ht' = dict_map c ht"
    "mset (concat (tab ht')) = mset (concat (tab ht))"
    using dictExpand_spec [OF ok, of 2 A] A by auto
  with empty that show ?thesis by (simp add: dictExpandIfNeeded_def four)
next
  case (table n)
  show ?thesis
  proof (cases "ht_used ht = ht_size ht")
    case True
    then have "2 ^ n < (2 :: nat) ^ 31" using u table by simp
    then have n: "n < 31" by (rule power_less_imp_less_exp [rotated]) simp
    have "(2 :: nat) ^ n * 2 \<le> 2 ^ 31" using n power_increasing [of "Suc n" 31 "2 :: nat"] by simp
    then have st: "size_t (2 ^ n * 2) = 2 ^ Suc n" by (simp add: size_t_def)
    have "ht_used ht \<le> 2 ^ Suc n" using True table by simp
    then obtain ht' where "dictExpand A ht (2 ^ Suc n) = Some (DICT_OK, ht')" "dict_ok kok c h ht'"
      "ht_size ht' = 2 ^ Suc n" "ht_used ht' = ht_used ht" "dict_map c ht' = dict_map c ht"
      "mset (concat (tab ht')) = mset (concat (tab ht))"
      using dictExpand_spec [OF ok, of "Suc n" A] A n table by auto
    with True table st that show ?thesis by (simp add: dictExpandIfNeeded_def)
  next
    case False
    with table that [of ht] ok show ?thesis by (simp add: dictExpandIfNeeded_def)
  qed
qed

lemma dict_ok_update:
  assumes ok: "dict_ok kok c h ht" and ne: "ht_size ht = 2 ^ n" and i: "i < length (tab ht)"
    and b: "\<forall>e \<in> set b. kok (he_key e) \<and> slot h n (c (he_key e)) = i"
    and d: "distinct (map fst (assoc c (concat ((tab ht)[i := b]))))"
    and u: "u = length (concat ((tab ht)[i := b]))"
  shows "dict_ok kok c h ((set_bucket ht i b)\<lparr>ht_used := u\<rparr>)"
proof (cases rule: dict_okE [OF ok, case_names empty table])
  case empty
  with ne show ?thesis by simp
next
  case (table m)
  then have "m = n" using ne by (metis power_inject_exp one_less_numeral_iff semiring_norm(76))
  with table i b d u have "rows_ok kok c (slot h n) ((tab ht)[i := b])"
    by (intro row_update_ok) auto
  with table \<open>m = n\<close> dict_ok_type [OF ok] u show ?thesis
    unfolding dict_ok_def using ht_table_set_bucket [OF table(5), of i b]
    by (auto intro!: exI [of _ n])
qed

lemma to_int_index: "i < 2 ^ 31 \<Longrightarrow> to_int (int i) = int i"
  by (rule to_int_nat)

lemma dictAdd_spec:
  assumes ok: "dict_ok kok c h ht" and k: "kok k" and u: "ht_used ht < 2 ^ 31"
    and A: "\<And>n. grants A n"
  obtains (added) ht' where "dictAdd A ht k v = Some (DICT_OK, ht')" "dict_ok kok c h ht'"
      "dict_map c ht (c k) = None" "dict_map c ht' = (dict_map c ht)(c k \<mapsto> v)"
      "ht_used ht' = Suc (ht_used ht)"
  | (present) ht' w where "dictAdd A ht k v = Some (DICT_ERR, ht')" "dict_ok kok c h ht'"
      "dict_map c ht (c k) = Some w" "dict_map c ht' = dict_map c ht" "ht_used ht' = ht_used ht"
proof -
  obtain ht1 where ht1: "dictExpandIfNeeded A ht = Some (DICT_OK, ht1)" "dict_ok kok c h ht1"
    "ht_size ht1 \<noteq> 0" "ht_used ht1 = ht_used ht" "dict_map c ht1 = dict_map c ht"
    by (rule dictExpandIfNeeded_spec [OF ok u A]) blast
  obtain i pre suf n where l: "bucket_of ht1 k (ht_sizemask ht1) = Some i"
    "i < length (tab ht1)" "i < 2 ^ 31" "bucket ht1 i = Some (tab ht1 ! i)"
    "find_chain ht1 k (tab ht1 ! i) = Some (pre, suf)" "tab ht1 ! i = pre @ suf"
    "ht_table ht1 = Ptr (tab ht1)" "ht_used ht1 = length (concat (tab ht1))"
    "ht_size ht1 = 2 ^ n" "i = slot h n (c k)" "rows_ok kok c (slot h n) (tab ht1)"
    "suf = [] \<Longrightarrow> c k \<notin> fst ` set (assoc c (concat (tab ht1)))"
    "\<And>e es. suf = e # es \<Longrightarrow> c (he_key e) = c k \<and> dict_map c ht1 (c k) = Some (he_val e)"
    by (rule locate [OF ht1(2) k ht1(3)]) blast
  have index: "dictKeyIndex A ht k = Some (if suf \<noteq> [] then - 1 else int i, ht1)"
    using ht1(1) l(1,3,4,5) by (simp add: dictKeyIndex_def DICT_OK_def DICT_ERR_def to_int_nat)
  show ?thesis
  proof (cases suf)
    case (Cons e es)
    with index have "dictAdd A ht k v = Some (DICT_ERR, ht1)" by (simp add: dictAdd_def)
    with Cons l(13) ht1 show ?thesis by (intro present [of ht1 "he_val e"]) auto
  next
    case Nil
    obtain k' where k': "dictSetHashKey ht1 k = Some k'" "kok k'" "c k' = c k"
      using dictType_okD(3) [OF dict_ok_type [OF ht1(2)] k] by blast
    have v: "dictSetHashVal ht1 v = Some v" by (rule dictType_okD(4) [OF dict_ok_type [OF ht1(2)]])
    define e where "e = \<lparr>he_key = k', he_val = v\<rparr>"
    let ?b = "e # tab ht1 ! i"
    let ?ht = "(set_bucket ht1 i ?b)\<lparr>ht_used := size_t (ht_used ht1 + 1)\<rparr>"
    have code: "dictAdd A ht k v = Some (DICT_OK, ?ht)"
      using index Nil A l(4) k' v by (simp add: dictAdd_def e_def)
    have ms: "mset (concat ((tab ht1)[i := ?b])) = mset (e # concat (tab ht1))"
      using mset_concat_update [OF l(2), of ?b] by simp
    have d1: "distinct (map fst (assoc c (e # concat (tab ht1))))"
      using table_distinct [OF ht1(2)] l(12) [OF Nil] k'(3) by (simp add: e_def)
    have d: "distinct (map fst (assoc c (concat ((tab ht1)[i := ?b]))))"
      using d1 distinct_assoc_mset [OF ms, of c] by simp
    have b: "\<forall>x \<in> set ?b. kok (he_key x) \<and> slot h n (c (he_key x)) = i"
      using l(2,10,11) k' by (auto simp: rows_ok_def e_def)
    have used: "size_t (ht_used ht1 + 1) = length (concat ((tab ht1)[i := ?b]))"
      using l(8) arg_cong [OF ms, of size] u ht1(4) by (simp add: size_t_def)
    have "dict_ok kok c h ?ht" by (rule dict_ok_update [OF ht1(2) l(9,2) b d used])
    moreover have "dict_map c ?ht = (dict_map c ht)(c k \<mapsto> v)"
      using map_of_assoc_mset [OF ms d] l(7) k'(3) unfolding ht1(5) [symmetric]
      by (simp add: e_def dict_map_def)
    moreover have "dict_map c ht (c k) = None"
      using l(12) [OF Nil] unfolding ht1(5) [symmetric] by (simp add: dict_map_None)
    ultimately show ?thesis using code u ht1(4) by (intro added [of ?ht]) (auto simp: size_t_def)
  qed
qed

text \<open>Replacing a row in which the searched entry is unlinked or changed.\<close>

lemma dictDelete_spec:
  assumes ok: "dict_ok kok c h ht" and k: "kok k"
  obtains (deleted) ht' ev w where "dictDelete ht k = Some (DICT_OK, ht', ev)" "dict_ok kok c h ht'"
      "dict_map c ht (c k) = Some w" "dict_map c ht' = (dict_map c ht)(c k := None)"
      "ht_used ht' + 1 = ht_used ht" "valDestructor (ht_type ht) \<Longrightarrow> ValFreed w \<in> set ev"
      "ht_type ht' = ht_type ht"
  | (absent) "dictDelete ht k = Some (DICT_ERR, ht, [])" "dict_map c ht (c k) = None"
proof (cases "ht_size ht = 0")
  case True
  with ok have "tab ht = []" by (simp add: dict_ok_def tab_def)
  with True show ?thesis by (intro absent) (simp_all add: dictDelete_def dict_map_def)
next
  case False
  obtain i pre suf n where l: "bucket_of ht k (ht_sizemask ht) = Some i"
    "i < length (tab ht)" "i < 2 ^ 31" "bucket ht i = Some (tab ht ! i)"
    "find_chain ht k (tab ht ! i) = Some (pre, suf)" "tab ht ! i = pre @ suf"
    "ht_table ht = Ptr (tab ht)" "ht_used ht = length (concat (tab ht))"
    "ht_size ht = 2 ^ n" "i = slot h n (c k)" "rows_ok kok c (slot h n) (tab ht)"
    "suf = [] \<Longrightarrow> c k \<notin> fst ` set (assoc c (concat (tab ht)))"
    "\<And>e es. suf = e # es \<Longrightarrow> c (he_key e) = c k \<and> dict_map c ht (c k) = Some (he_val e)"
    by (rule locate [OF ok k False]) blast
  show ?thesis
  proof (cases suf)
    case Nil
    with l False show ?thesis by (intro absent) (simp_all add: dictDelete_def dict_map_None)
  next
    case (Cons e es)
    let ?b = "pre @ es"
    have ms: "mset (concat (tab ht)) = mset (e # concat ((tab ht)[i := ?b]))"
      using mset_concat_update [OF l(2), of ?b] l(6) Cons by simp
    have d: "distinct (map fst (assoc c (e # concat ((tab ht)[i := ?b]))))"
      using table_distinct [OF ok] distinct_assoc_mset [OF ms, of c] by simp
    have b: "\<forall>x \<in> set ?b. kok (he_key x) \<and> slot h n (c (he_key x)) = i"
      using l(2,6,11) Cons by (auto simp: rows_ok_def)
    have len: "ht_used ht = Suc (length (concat ((tab ht)[i := ?b])))"
      using l(8) arg_cong [OF ms, of size] by simp
    then have used: "dec_used (ht_used ht) = length (concat ((tab ht)[i := ?b]))"
      by (simp add: dec_used_def)
    let ?ht = "(set_bucket ht i ?b)\<lparr>ht_used := dec_used (ht_used ht)\<rparr>"
    have code: "dictDelete ht k =
        Some (DICT_OK, ?ht, dictFreeEntryKey ht e @ dictFreeEntryVal ht e)"
      using l(1,4,5) Cons False by (simp add: dictDelete_def)
    have d': "distinct (map fst (assoc c (concat ((tab ht)[i := ?b]))))" using d by simp
    have ok': "dict_ok kok c h ?ht" by (rule dict_ok_update [OF ok l(9,2) b d' used])
    have e: "c (he_key e) = c k" "dict_map c ht (c k) = Some (he_val e)" using l(13) [OF Cons] by auto
    have dm: "dict_map c ht = (dict_map c ?ht)(c k \<mapsto> he_val e)"
      using map_of_assoc_mset [OF ms table_distinct [OF ok]] l(7) e(1) unfolding dict_map_def by simp
    have nin: "dict_map c ?ht (c k) = None"
      using d l(7) e(1) by (simp add: dict_map_None)
    then have "(dict_map c ?ht)(c k := None) = dict_map c ?ht" by (intro ext) simp
    then have "dict_map c ?ht = (dict_map c ht)(c k := None)" unfolding dm by simp
    with code ok' e len used show ?thesis
      by (intro deleted [of ?ht _ "he_val e"]) (auto simp: dictFreeEntryVal_def)
  qed
qed

lemma set_found_spec:
  assumes ok: "dict_ok kok c h ht" and k: "kok k" and w: "dict_map c ht (c k) = Some w"
  obtains ht' where "set_found ht k v = Some ht'" "dict_ok kok c h ht'" "dict_map c ht' = (dict_map c ht)(c k \<mapsto> v)"
    "ht_used ht' = ht_used ht" "ht_type ht' = ht_type ht"
proof -
  have ne: "ht_size ht \<noteq> 0"
  proof
    assume "ht_size ht = 0"
    with ok have "tab ht = []" by (simp add: dict_ok_def tab_def)
    with w show False by (simp add: dict_map_def)
  qed
  obtain i pre suf n where l: "bucket_of ht k (ht_sizemask ht) = Some i"
    "i < length (tab ht)" "i < 2 ^ 31" "bucket ht i = Some (tab ht ! i)"
    "find_chain ht k (tab ht ! i) = Some (pre, suf)" "tab ht ! i = pre @ suf"
    "ht_table ht = Ptr (tab ht)" "ht_used ht = length (concat (tab ht))"
    "ht_size ht = 2 ^ n" "i = slot h n (c k)" "rows_ok kok c (slot h n) (tab ht)"
    "suf = [] \<Longrightarrow> c k \<notin> fst ` set (assoc c (concat (tab ht)))"
    "\<And>e es. suf = e # es \<Longrightarrow> c (he_key e) = c k \<and> dict_map c ht (c k) = Some (he_val e)"
    by (rule locate [OF ok k ne]) blast
  have "suf \<noteq> []" using l(12) w by (metis dict_map_None option.distinct(1))
  then obtain e es where suf: "suf = e # es" by (cases suf) auto
  have e: "c (he_key e) = c k" using l(13) [OF suf] by simp
  let ?e = "e\<lparr>he_val := v\<rparr>"
  let ?b = "pre @ ?e # es"
  have set: "set_found ht k v = Some (set_bucket ht i ?b)"
    using l(1,4,5) suf by (simp add: set_found_def)
  define M where "M = mset (concat ((tab ht)[i := pre @ es]))"
  have ms: "mset (concat (tab ht)) = add_mset e M"
    using mset_concat_update [OF l(2), of "pre @ es"] l(6) suf by (simp add: M_def)
  have ms': "mset (concat ((tab ht)[i := ?b])) = add_mset ?e M"
  proof -
    have "mset (concat ((tab ht)[i := ?b])) + mset (tab ht ! i) = add_mset ?e M + mset (tab ht ! i)"
      using mset_concat_update [OF l(2), of "pre @ es"] mset_concat_update [OF l(2), of ?b]
      by (simp add: M_def)
    then show ?thesis by (rule add_right_imp_eq)
  qed
  obtain xs where xs: "mset xs = M" using ex_mset by blast
  have m1: "mset (concat (tab ht)) = mset (e # xs)" and m2: "mset (concat ((tab ht)[i := ?b])) = mset (?e # xs)"
    using ms ms' xs by simp_all
  have d1: "distinct (map fst (assoc c (e # xs)))"
    using table_distinct [OF ok] distinct_assoc_mset [OF m1, of c] by simp
  have d2: "distinct (map fst (assoc c (concat ((tab ht)[i := ?b]))))"
    using d1 distinct_assoc_mset [OF m2, of c] by simp
  have b: "\<forall>x \<in> set ?b. kok (he_key x) \<and> slot h n (c (he_key x)) = i"
    using l(2,6,11) suf by (auto simp: rows_ok_def)
  have used: "ht_used ht = length (concat ((tab ht)[i := ?b]))"
    using l(8) arg_cong [OF m1, of size] arg_cong [OF m2, of size] by simp
  have same: "(set_bucket ht i ?b)\<lparr>ht_used := ht_used ht\<rparr> = set_bucket ht i ?b"
    by (simp add: set_bucket_def l(7))
  have "dict_ok kok c h (set_bucket ht i ?b)"
    using dict_ok_update [OF ok l(9,2) b d2 used] unfolding same .
  moreover have "dict_map c (set_bucket ht i ?b) = (dict_map c ht)(c k \<mapsto> v)"
    using map_of_assoc_mset [OF m2 d2] map_of_assoc_mset [OF m1 table_distinct [OF ok]] l(7) e
    unfolding dict_map_def by simp
  ultimately show ?thesis using set
    by (intro that [of "set_bucket ht i ?b"]) auto
qed

lemma dictReplace_spec:
  assumes ok: "dict_ok kok c h ht" and k: "kok k" and u: "ht_used ht < 2 ^ 31"
    and A: "\<And>n. grants A n"
  obtains ht' ev where
    "dictReplace A ht k v = Some (if dict_map c ht (c k) = None then 1 else 0, ht', ev)"
    "dict_ok kok c h ht'" "dict_map c ht' = (dict_map c ht)(c k \<mapsto> v)"
    "ht_used ht' \<le> Suc (ht_used ht)"
proof (cases rule: dictAdd_spec [OF ok k u A, of v, case_names added present])
  case (added ht1)
  then show ?thesis by (intro that [of ht1 "[]"]) (auto simp: dictReplace_def)
next
  case (present ht1 w)
  then have w: "dict_map c ht1 (c k) = Some w" by simp
  obtain ht2 where h: "set_found ht1 k v = Some ht2" "dict_ok kok c h ht2"
    "dict_map c ht2 = (dict_map c ht1)(c k \<mapsto> v)" "ht_used ht2 = ht_used ht1"
    by (rule set_found_spec [OF present(2) k w])
  obtain e where "dictFind ht1 k = Some (Ptr e)"
    using w by (cases rule: dictFind_spec [OF present(2) k, case_names found absent]) auto
  moreover have "dictSetHashVal ht1 v = Some v" by (rule dictType_okD(4) [OF dict_ok_type [OF present(2)]])
  ultimately have "dictReplace A ht k v = Some (0, ht2, dictFreeEntryVal ht2 e)"
    using present(1) h(1) by (simp add: dictReplace_def DICT_OK_def DICT_ERR_def)
  with present h show ?thesis by (intro that [of ht2]) auto
qed

section \<open>Clearing and iteration\<close>

lemma free_row_spec:
  "length es \<le> u \<Longrightarrow> free_row ht es u =
    (u - length es, concat (map (\<lambda>e. dictFreeEntryKey ht e @ dictFreeEntryVal ht e) es))"
  by (induction es arbitrary: u) (auto simp: dec_used_def)

lemma free_rows_spec:
  "u = length (concat rs) \<Longrightarrow> free_rows ht rs u =
    concat (map (\<lambda>e. dictFreeEntryKey ht e @ dictFreeEntryVal ht e) (concat rs))"
proof (induction rs arbitrary: u)
  case (Cons r rs)
  then show ?case
    by (cases "u = 0") (auto simp: free_row_spec)
qed simp

lemma dictClear_spec:
  assumes ok: "dict_ok kok c h ht"
  shows "dictClear ht = Some (DICT_OK, dictReset ht,
    concat (map (\<lambda>e. dictFreeEntryKey ht e @ dictFreeEntryVal ht e) (concat (tab ht))))"
proof -
  obtain rs where rs: "rows ht = Some rs" "concat rs = concat (tab ht)"
    using rows_spec [OF ok] by blast
  moreover have "\<exists>p. free_ptr (ht_table ht) = Some p"
    by (cases rule: dict_okE [OF ok, case_names empty table]) auto
  moreover have "ht_used ht = length (concat rs)" using used_length [OF ok] rs by simp
  ultimately show ?thesis by (auto simp: dictClear_def free_rows_spec)
qed

lemma dictReset_ok: "dict_ok kok c h ht \<Longrightarrow> dict_ok kok c h (dictReset ht) \<and> dict_map c (dictReset ht) = Map.empty"
  by (simp add: dict_ok_def dictReset_def dict_map_def tab_def)

text \<open>The entries that are left for an iterator.\<close>

definition it_rest :: "('k, 'v) dict \<Rightarrow> ('k, 'v) dictIterator \<Rightarrow> ('k, 'v) dictEntry list" where
  "it_rest ht iter = (if it_entry iter = None then [] else it_nextEntry iter) @
     concat (drop (nat (it_index iter + 1)) (tab ht))"

lemma dict_ok_size:
  assumes "dict_ok kok c h ht"
  shows "length (tab ht) = ht_size ht" "ht_size ht \<noteq> 0 \<Longrightarrow> ht_table ht = Ptr (tab ht)"
  using assms by (elim dict_okE; simp)+

lemma dictNext_spec:
  assumes "dict_ok kok c h ht" "ht_size ht < 2 ^ 31" "- 1 \<le> it_index iter"
  shows "\<exists>iter'. dictNext ht iter = Some (if it_rest ht iter = [] then None else Some (hd (it_rest ht iter)), iter') \<and>
    (it_rest ht iter \<noteq> [] \<longrightarrow> it_rest ht iter' = tl (it_rest ht iter) \<and> - 1 \<le> it_index iter')"
  using assms
proof (induction ht iter rule: dictNext.induct)
  case (1 ht iter)
  note size = dict_ok_size [OF 1(3)]
  have sz: "to_int (int (ht_size ht)) = int (ht_size ht)" using 1(4) by (simp add: to_int_nat)
  note unf = dictNext.simps [of ht iter, unfolded Let_def]
  show ?case
  proof (cases "it_entry iter = None")
    case None: True
    let ?i = "it_index iter + 1"
    show ?thesis
    proof (cases "?i \<ge> int (ht_size ht)")
      case True
      then have "it_rest ht iter = []" using None size(1) by (simp add: it_rest_def)
      with True None sz show ?thesis by (simp add: unf)
    next
      case False
      have ne: "ht_size ht \<noteq> 0" and pos: "0 \<le> ?i" using False 1(5) by auto
      have lt: "nat ?i < length (tab ht)" using False pos size(1) by simp
      have bk: "bucket ht (nat ?i) = Some (tab ht ! nat ?i)"
        using size(2) [OF ne] lt by (simp add: bucket_def)
      have dr: "drop (nat ?i) (tab ht) = tab ht ! nat ?i # drop (nat (?i + 1)) (tab ht)"
        using lt pos by (simp add: Cons_nth_drop_Suc [symmetric] Suc_nat_eq_nat_zadd1 add.commute)
      show ?thesis
      proof (cases "tab ht ! nat ?i")
        case Nil
        let ?j = "iter\<lparr>it_index := ?i, it_entry := None\<rparr>"
        have rest: "it_rest ht iter = it_rest ht ?j"
          using None dr Nil by (simp add: it_rest_def)
        have code: "dictNext ht iter = dictNext ht ?j"
          using None False pos bk Nil sz by (simp add: unf)
        show ?thesis
          unfolding code rest
          using 1(1) [of "iter\<lparr>it_index := ?i\<rparr>" "tab ht ! nat ?i"] None False pos bk Nil sz 1(3,4)
          by simp
      next
        case (Cons e es)
        then show ?thesis using None False pos bk sz dr by (simp add: unf it_rest_def)
      qed
    qed
  next
    case entry: False
    then obtain x where x: "it_entry iter = Some x" by auto
    show ?thesis
    proof (cases "it_nextEntry iter")
      case Nil
      let ?j = "iter\<lparr>it_entry := None\<rparr>"
      have rest: "it_rest ht iter = it_rest ht ?j" using x Nil by (simp add: it_rest_def)
      have code: "dictNext ht iter = dictNext ht ?j" using x Nil by (simp add: unf)
      from 1(2) [OF entry Nil 1(3,4)] 1(5) show ?thesis unfolding code rest by simp
    next
      case (Cons e es)
      then show ?thesis using x 1(5) by (simp add: unf it_rest_def)
    qed
  qed
qed

lemma dict_iterate_spec:
  assumes ok: "dict_ok kok c h ht" and small: "ht_size ht < 2 ^ 31"
  shows "- 1 \<le> it_index iter \<Longrightarrow> length (it_rest ht iter) < fuel \<Longrightarrow>
    dict_iterate ht fuel iter = Some (it_rest ht iter)"
proof (induction fuel arbitrary: iter)
  case (Suc fuel)
  obtain iter' where n: "dictNext ht iter = Some (if it_rest ht iter = [] then None else Some (hd (it_rest ht iter)), iter')"
    "it_rest ht iter \<noteq> [] \<Longrightarrow> it_rest ht iter' = tl (it_rest ht iter) \<and> - 1 \<le> it_index iter'"
    using dictNext_spec [OF ok small Suc(2)] by blast
  show ?case
  proof (cases "it_rest ht iter")
    case (Cons e es)
    with n(2) have it': "it_rest ht iter' = es" "- 1 \<le> it_index iter'" by auto
    have "length (it_rest ht iter') < fuel" using Suc(3) Cons it' by simp
    with Suc(1) [OF it'(2)] n(1) Cons it' show ?thesis by simp
  qed (use n in simp)
qed simp

section \<open>The hash function of the callbacks\<close>

lemma dictGenHashFunction_spec:
  "n \<le> length b \<Longrightarrow> dictGenHashFunction b (int n) = Some (hash_loop 5381 (take n b))"
  by (simp add: dictGenHashFunction_def mem_simps)

lemma hash_loop_append: "hash_loop h (xs @ ys) = hash_loop (hash_loop h xs) ys"
  by (induction xs arbitrary: h) auto

text \<open>The loop computes \<^theory_text>\<open>33 * hash + byte\<close> modulo \<^theory_text>\<open>2 ^ 32\<close>.\<close>

lemma hash_loop_33:
  "unat (hash_loop h cs) = foldl (\<lambda>a c. (33 * a + byte c) mod 2 ^ 32) (unat h) cs"
proof (induction cs arbitrary: h)
  case (Cons c cs)
  have "push_bit 5 h + h = 33 * h" by (simp add: push_bit_eq_mult)
  then have "push_bit 5 h + h + of_nat (byte c) = of_nat (33 * unat h + byte c)" by simp
  then have "unat (push_bit 5 h + h + of_nat (byte c)) = (33 * unat h + byte c) mod 2 ^ 32"
    by (simp only: unat_of_nat) simp
  then show ?case using Cons by simp
qed simp

section \<open>The interface of a map\<close>

text \<open>What the users of the dictionary rely on: the operations of a finite map.\<close>

locale finite_map =
  fixes ok :: "'m \<Rightarrow> bool"
    and room :: "'m \<Rightarrow> bool"
    and kok :: "'k \<Rightarrow> bool"
    and content :: "'k \<Rightarrow> 'c"
    and abs :: "'m \<Rightarrow> 'c \<Rightarrow> 'v option"
    and look :: "'m \<Rightarrow> 'k \<Rightarrow> 'v option option"
    and put :: "'m \<Rightarrow> 'k \<Rightarrow> 'v \<Rightarrow> 'm option"
    and remove :: "'m \<Rightarrow> 'k \<Rightarrow> 'm option"
  assumes look: "ok m \<Longrightarrow> kok k \<Longrightarrow> look m k = Some (abs m (content k))"
    and put: "ok m \<Longrightarrow> room m \<Longrightarrow> kok k \<Longrightarrow>
      \<exists>m'. put m k v = Some m' \<and> ok m' \<and> abs m' = (abs m)(content k \<mapsto> v)"
    and remove: "ok m \<Longrightarrow> kok k \<Longrightarrow>
      \<exists>m'. remove m k = Some m' \<and> ok m' \<and> abs m' = (abs m)(content k := None)"
begin

lemma look_put_same: "ok m \<Longrightarrow> room m \<Longrightarrow> kok k \<Longrightarrow> kok k' \<Longrightarrow> content k' = content k \<Longrightarrow>
    do { m' \<leftarrow> put m k v; look m' k' } = Some (Some v)"
  using put [of m k v] look by fastforce

lemma look_put_other: "ok m \<Longrightarrow> room m \<Longrightarrow> kok k \<Longrightarrow> kok k' \<Longrightarrow> content k' \<noteq> content k \<Longrightarrow>
    do { m' \<leftarrow> put m k v; look m' k' } = look m k'"
  using put [of m k v] look by fastforce

lemma look_remove_same: "ok m \<Longrightarrow> kok k \<Longrightarrow> do { m' \<leftarrow> remove m k; look m' k } = Some None"
  using remove [of m k] look by fastforce

lemma look_remove_other: "ok m \<Longrightarrow> kok k \<Longrightarrow> kok k' \<Longrightarrow> content k' \<noteq> content k \<Longrightarrow>
    do { m' \<leftarrow> remove m k; look m' k' } = look m k'"
  using remove [of m k] look by fastforce

end

definition dict_look :: "('k, 'v) dict \<Rightarrow> 'k \<Rightarrow> 'v option option" where
  "dict_look ht k = do {
     e \<leftarrow> dictFind ht k;
     Some (case e of Ptr he \<Rightarrow> Some (he_val he) | _ \<Rightarrow> None)
   }"

definition dict_put :: "allocator \<Rightarrow> ('k, 'v) dict \<Rightarrow> 'k \<Rightarrow> 'v \<Rightarrow> ('k, 'v) dict option" where
  "dict_put A ht k v = do { (r, ht, ev) \<leftarrow> dictReplace A ht k v; Some ht }"

definition dict_remove :: "('k, 'v) dict \<Rightarrow> 'k \<Rightarrow> ('k, 'v) dict option" where
  "dict_remove ht k = do { (r, ht, ev) \<leftarrow> dictDelete ht k; Some ht }"

interpretation dict_is_map:
  finite_map "dict_ok kok c h" "\<lambda>ht. ht_used ht < 2 ^ 31" kok c "dict_map c" dict_look
    "dict_put (A\<lparr>grants := \<lambda>_. True\<rparr>)" dict_remove
  for kok :: "'k \<Rightarrow> bool" and c :: "'k \<Rightarrow> 'c" and h and A
proof unfold_locales
  fix m :: "('k, 'v) dict" and k v
  assume ok: "dict_ok kok c h m" and k: "kok k"
  show "dict_look m k = Some (dict_map c m (c k))"
    by (cases rule: dictFind_spec [OF ok k, case_names found absent]) (auto simp: dict_look_def)
  show "\<exists>m'. dict_remove m k = Some m' \<and> dict_ok kok c h m' \<and>
      dict_map c m' = (dict_map c m)(c k := None)"
    using ok by (cases rule: dictDelete_spec [OF ok k, case_names deleted absent])
      (auto simp: dict_remove_def fun_upd_idem)
  show "\<exists>m'. dict_put (A\<lparr>grants := \<lambda>_. True\<rparr>) m k v = Some m' \<and> dict_ok kok c h m' \<and>
      dict_map c m' = (dict_map c m)(c k \<mapsto> v)" if u: "ht_used m < 2 ^ 31"
    by (rule dictReplace_spec [OF ok k u, of "A\<lparr>grants := \<lambda>_. True\<rparr>" v])
      (auto simp: dict_put_def)
qed

end
