(* ===== verification/Callbacks.thy ===== *)
theory Callbacks
  imports Reader
begin

text \<open>
  The callback lists of \<^verbatim>\<open>lib/hiredis/async.h\<close> and \<^verbatim>\<open>async.c\<close>: singly linked lists with a
  pointer to the first and to the last element. They are queues; the contract of a queue is a
  locale, of which the lists are an instance.
\<close>

section \<open>Data and operations\<close>

text \<open>A null function is 0, any other function a positive number.\<close>

record redisCallback =
  cb_next :: addr
  cb_fn :: nat
  cb_pending_subs :: int
  cb_privdata :: nat

text \<open>
  A list with the blocks that its elements live in; \<^theory_text>\<open>l_fresh\<close> is the address that \<^verbatim>\<open>malloc\<close> gives
  to the next element.
\<close>

record redisCallbackList =
  l_head :: addr
  l_tail :: addr
  l_cells :: "addr \<Rightarrow> redisCallback option"
  l_fresh :: addr

definition empty_list :: redisCallbackList where
  "empty_list = \<lparr>l_head = 0, l_tail = 0, l_cells = Map.empty, l_fresh = 1\<rparr>"

text \<open>\<^verbatim>\<open>__redisPushCallback\<close>; the callers never pass a null \<^verbatim>\<open>source\<close>.\<close>

definition redisPushCallback :: "allocator \<Rightarrow> redisCallbackList \<Rightarrow> redisCallback \<Rightarrow>
    (int \<times> redisCallbackList) option" where
  "redisPushCallback A l source =
     (if \<not> grants A 32 then Some (REDIS_ERR_OOM, l)
      else do {
        let a = l_fresh l;
        let cells = (l_cells l)(a \<mapsto> source\<lparr>cb_next := 0\<rparr>);
        let head = (if l_head l = 0 then a else l_head l);
        cells \<leftarrow> (if l_tail l \<noteq> 0 then do {
            t \<leftarrow> cells (l_tail l);
            Some (cells(l_tail l \<mapsto> t\<lparr>cb_next := a\<rparr>))
          } else Some cells);
        Some (REDIS_OK, \<lparr>l_head = head, l_tail = a, l_cells = cells, l_fresh = Suc a\<rparr>)
      })"

text \<open>\<^verbatim>\<open>__redisShiftCallback\<close>: the element that is stored at \<^verbatim>\<open>target\<close>, if any.\<close>

definition redisShiftCallback :: "redisCallbackList \<Rightarrow>
    (int \<times> redisCallback option \<times> redisCallbackList) option" where
  "redisShiftCallback l =
     (let a = l_head l in
      if a \<noteq> 0 then do {
        cb \<leftarrow> l_cells l a;
        let l = l\<lparr>l_head := cb_next cb\<rparr>;
        let l = (if a = l_tail l then l\<lparr>l_tail := 0\<rparr> else l);
        Some (REDIS_OK, Some cb, l\<lparr>l_cells := (l_cells l)(a := None)\<rparr>)
      }
      else Some (REDIS_ERR, None, l))"

section \<open>Queues\<close>

text \<open>
  The contract of a queue: \<^theory_text>\<open>rep s xs\<close> says that the state \<^theory_text>\<open>s\<close> holds the elements \<^theory_text>\<open>xs\<close>, the first one
  to leave first. A push may fail, and then changes nothing.
\<close>

locale fifo =
  fixes rep :: "'s \<Rightarrow> 'a list \<Rightarrow> bool"
    and push :: "'s \<Rightarrow> 'a \<Rightarrow> (bool \<times> 's) option"
    and shift :: "'s \<Rightarrow> ('a option \<times> 's) option"
  assumes push: "rep s xs \<Longrightarrow> \<exists>ok s'. push s x = Some (ok, s') \<and> rep s' (if ok then xs @ [x] else xs)"
    and shift_empty: "rep s [] \<Longrightarrow> shift s = Some (None, s)"
    and shift_first: "rep s (x # xs) \<Longrightarrow> \<exists>s'. shift s = Some (Some x, s') \<and> rep s' xs"

text \<open>Taking \<^theory_text>\<open>n\<close> elements, and adding several.\<close>

primrec take_n :: "('s \<Rightarrow> ('a option \<times> 's) option) \<Rightarrow> nat \<Rightarrow> 's \<Rightarrow> ('a option list \<times> 's) option" where
  "take_n shift 0 s = Some ([], s)"
| "take_n shift (Suc n) s = do {
     (x, s) \<leftarrow> shift s;
     (xs, s) \<leftarrow> take_n shift n s;
     Some (x # xs, s)
   }"

primrec add_all :: "('s \<Rightarrow> 'a \<Rightarrow> (bool \<times> 's) option) \<Rightarrow> 's \<Rightarrow> 'a list \<Rightarrow> (bool list \<times> 's) option" where
  "add_all push s [] = Some ([], s)"
| "add_all push s (x # xs) = do {
     (ok, s) \<leftarrow> push s x;
     (oks, s) \<leftarrow> add_all push s xs;
     Some (ok # oks, s)
   }"

context fifo begin

lemma take_all: "rep s xs \<Longrightarrow> \<exists>s'. take_n shift (length xs) s = Some (map Some xs, s') \<and> rep s' []"
proof (induction xs arbitrary: s)
  case (Cons x xs)
  from shift_first [OF Cons.prems] obtain s1 where "shift s = Some (Some x, s1)" "rep s1 xs" by blast
  with Cons.IH [of s1] show ?case by auto
qed simp

lemma add_rep:
  "rep s xs \<Longrightarrow> \<exists>oks s'. add_all push s ys = Some (oks, s') \<and> length oks = length ys \<and>
    rep s' (xs @ map fst (filter snd (zip ys oks)))"
proof (induction ys arbitrary: s xs)
  case (Cons y ys)
  from push [OF Cons.prems, of y] obtain ok s1 where s1: "push s y = Some (ok, s1)"
    "rep s1 (if ok then xs @ [y] else xs)" by blast
  from Cons.IH [OF s1(2)] obtain oks s2 where "add_all push s1 ys = Some (oks, s2)" "length oks = length ys"
    "rep s2 ((if ok then xs @ [y] else xs) @ map fst (filter snd (zip ys oks)))" by blast
  with s1 show ?case by (cases ok) auto
qed simp

text \<open>What is added comes out in the same order, after what was there.\<close>

lemma in_order:
  assumes "rep s xs" "add_all push s ys = Some (replicate (length ys) True, s1)"
  shows "\<exists>s2. take_n shift (length xs + length ys) s1 = Some (map Some (xs @ ys), s2) \<and> rep s2 []"
proof -
  obtain oks s' where a: "add_all push s ys = Some (oks, s')" "rep s' (xs @ map fst (filter snd (zip ys oks)))"
    using add_rep [OF assms(1)] by blast
  have "map fst (filter snd (zip ys (replicate (length ys) True))) = ys" by (induction ys) auto
  with a assms(2) take_all [of s1 "xs @ ys"] show ?thesis by simp
qed

end

section \<open>The lists are queues\<close>

text \<open>The addresses along the list from \<^theory_text>\<open>a\<close>, 0 being null.\<close>

fun linked :: "(addr \<Rightarrow> redisCallback option) \<Rightarrow> addr \<Rightarrow> addr list \<Rightarrow> bool" where
  "linked m a [] = (a = 0)"
| "linked m a (x # xs) = (a = x \<and> a \<noteq> 0 \<and> (case m a of None \<Rightarrow> False | Some c \<Rightarrow> linked m (cb_next c) xs))"

text \<open>What a callback is, without its place in a list.\<close>

type_synonym payload = "nat \<times> int \<times> nat"

definition payload :: "redisCallback \<Rightarrow> payload" where
  "payload cb = (cb_fn cb, cb_pending_subs cb, cb_privdata cb)"

lemma payload_next [simp]: "payload (cb\<lparr>cb_next := n\<rparr>) = payload cb"
  by (simp add: payload_def)

text \<open>
  The list is well-formed: its elements are all the blocks, each once, and the last pointer is
  the last element.
\<close>

definition laid_out :: "redisCallbackList \<Rightarrow> addr list \<Rightarrow> bool" where
  "laid_out l as \<longleftrightarrow> linked (l_cells l) (l_head l) as \<and> distinct as \<and> dom (l_cells l) = set as \<and>
     (\<forall>a \<in> set as. a < l_fresh l) \<and> 0 < l_fresh l \<and> l_tail l = (if as = [] then 0 else last as)"

definition holds :: "redisCallbackList \<Rightarrow> payload list \<Rightarrow> bool" where
  "holds l ps \<longleftrightarrow> (\<exists>as. laid_out l as \<and> map (\<lambda>a. payload (the (l_cells l a))) as = ps)"

lemma holds_empty [simp]: "holds empty_list []"
  by (auto simp: holds_def laid_out_def empty_list_def)

lemma linked_cong: "linked m a as \<Longrightarrow> (\<And>x. x \<in> set as \<Longrightarrow> m' x = m x) \<Longrightarrow> linked m' a as"
  by (induction as arbitrary: a) (auto split: option.splits)

lemma linked_nonzero: "linked m a as \<Longrightarrow> 0 \<notin> set as"
  by (induction as arbitrary: a) (auto split: option.splits)

lemma linked_snoc:
  assumes "linked m a as" "distinct as" "as \<noteq> []" "b \<notin> set as" "b \<noteq> 0" "m (last as) = Some t"
  shows "linked (m(b \<mapsto> c\<lparr>cb_next := 0\<rparr>, last as \<mapsto> t\<lparr>cb_next := b\<rparr>)) a (as @ [b])"
  using assms
proof (induction as arbitrary: a)
  case (Cons x xs)
  show ?case
  proof (cases "xs = []")
    case True
    with Cons.prems show ?thesis by auto
  next
    case False
    then have "x \<noteq> last xs" using Cons.prems(2) by auto
    with Cons False show ?thesis by (auto split: option.splits)
  qed
qed simp

lemma redisPushCallback_ok:
  assumes "holds l ps"
  shows "\<exists>rc l'. redisPushCallback A l cb = Some (rc, l') \<and>
    (if grants A 32 then rc = REDIS_OK \<and> holds l' (ps @ [payload cb]) else rc = REDIS_ERR_OOM \<and> l' = l)"
proof (cases "grants A 32")
  case True
  obtain as where as: "laid_out l as" "map (\<lambda>a. payload (the (l_cells l a))) as = ps"
    using assms by (auto simp: holds_def)
  then have p: "linked (l_cells l) (l_head l) as" "distinct as" "dom (l_cells l) = set as" "0 < l_fresh l"
    "\<forall>a \<in> set as. a < l_fresh l" "l_tail l = (if as = [] then 0 else last as)"
    by (auto simp: laid_out_def)
  let ?a = "l_fresh l"
  have new: "?a \<notin> set as" using p(5) by auto
  have nz: "0 \<notin> set as" using linked_nonzero [OF p(1)] .
  show ?thesis
  proof (cases "as = []")
    case True
    let ?l = "\<lparr>l_head = ?a, l_tail = ?a, l_cells = (l_cells l)(?a \<mapsto> cb\<lparr>cb_next := 0\<rparr>), l_fresh = Suc ?a\<rparr>"
    have "redisPushCallback A l cb = Some (REDIS_OK, ?l)"
      using True p \<open>grants A 32\<close> by (simp add: redisPushCallback_def Let_def)
    moreover have "laid_out ?l [?a]" using True p by (simp add: laid_out_def)
    ultimately show ?thesis using \<open>grants A 32\<close> True as(2) by (auto simp: holds_def)
  next
    case False
    then have la: "last as \<in> set as" by simp
    then obtain t where t: "l_cells l (last as) = Some t" "last as \<noteq> ?a" "last as \<noteq> 0"
      using p(3) new nz by (metis domD)
    have hd: "l_head l \<noteq> 0" using False p(1) nz by (cases as) auto
    let ?m = "(l_cells l)(?a \<mapsto> cb\<lparr>cb_next := 0\<rparr>, last as \<mapsto> t\<lparr>cb_next := ?a\<rparr>)"
    let ?l = "\<lparr>l_head = l_head l, l_tail = ?a, l_cells = ?m, l_fresh = Suc ?a\<rparr>"
    have "redisPushCallback A l cb = Some (REDIS_OK, ?l)"
      using False p(6) t hd \<open>grants A 32\<close> by (simp add: redisPushCallback_def Let_def)
    moreover have "laid_out ?l (as @ [?a])"
      using linked_snoc [OF p(1,2) False new _ t(1), of cb] p new la by (auto simp: laid_out_def)
    moreover have "map (\<lambda>a. payload (the (?m a))) (as @ [?a]) = ps @ [payload cb]"
      using as(2) t new by (auto simp: payload_def)
    ultimately show ?thesis using \<open>grants A 32\<close> by (auto simp: holds_def)
  qed
next
  case False
  with assms show ?thesis by (simp add: redisPushCallback_def)
qed

lemma redisShiftCallback_empty:
  assumes "holds l []"
  shows "redisShiftCallback l = Some (REDIS_ERR, None, l)"
  using assms by (auto simp: holds_def laid_out_def redisShiftCallback_def)

lemma holds_head: "holds l ps \<Longrightarrow> l_head l = 0 \<longleftrightarrow> ps = []"
  by (auto simp: holds_def laid_out_def) (metis neq_Nil_conv linked.simps(2))

lemma redisShiftCallback_first:
  assumes "holds l (p # ps)"
  shows "\<exists>cb l'. redisShiftCallback l = Some (REDIS_OK, Some cb, l') \<and> payload cb = p \<and> holds l' ps"
proof -
  obtain as where as: "laid_out l as" "map (\<lambda>a. payload (the (l_cells l a))) as = p # ps"
    using assms by (auto simp: holds_def)
  then obtain a bs where a: "as = a # bs" by (cases as) auto
  with as have l: "linked (l_cells l) (l_head l) (a # bs)" "distinct (a # bs)" "dom (l_cells l) = set (a # bs)"
    "\<forall>a \<in> set (a # bs). a < l_fresh l" "0 < l_fresh l" "l_tail l = last (a # bs)"
    by (auto simp: laid_out_def)
  then obtain cb where cb: "l_head l = a" "a \<noteq> 0" "l_cells l a = Some cb" "linked (l_cells l) (cb_next cb) bs"
    by (auto split: option.splits)
  let ?l = "l\<lparr>l_head := cb_next cb, l_tail := (if a = l_tail l then 0 else l_tail l), l_cells := (l_cells l)(a := None)\<rparr>"
  have "redisShiftCallback l = Some (REDIS_OK, Some cb, ?l)"
    using cb by (simp add: redisShiftCallback_def)
  moreover have "laid_out ?l bs"
  proof -
    have "linked ((l_cells l)(a := None)) (cb_next cb) bs" using l(2) by (intro linked_cong [OF cb(4)]) auto
    moreover have "(if a = l_tail l then 0 else l_tail l) = (if bs = [] then 0 else last bs)"
      using l(2,6) by (cases "bs = []") auto
    moreover have "dom ((l_cells l)(a := None)) = set bs" using l(2,3) by auto
    ultimately show ?thesis using l(2,4,5) by (simp add: laid_out_def)
  qed
  moreover have "payload cb = p" "map (\<lambda>x. payload (the (((l_cells l)(a := None)) x))) bs = ps"
    using as(2) a cb(3) l(2) by auto
  ultimately show ?thesis by (auto simp: holds_def)
qed

text \<open>The two operations as the contract states them.\<close>

definition push_payload :: "allocator \<Rightarrow> redisCallbackList \<Rightarrow> payload \<Rightarrow> (bool \<times> redisCallbackList) option" where
  "push_payload A l p = (case p of (fn, pending, pd) \<Rightarrow> do {
     (rc, l) \<leftarrow> redisPushCallback A l
       \<lparr>cb_next = 0, cb_fn = fn, cb_pending_subs = pending, cb_privdata = pd\<rparr>;
     Some (rc = REDIS_OK, l)
   })"

definition shift_payload :: "redisCallbackList \<Rightarrow> (payload option \<times> redisCallbackList) option" where
  "shift_payload l = do {
     (rc, cb, l) \<leftarrow> redisShiftCallback l;
     Some (if rc = REDIS_OK then map_option payload cb else None, l)
   }"

interpretation callbacks: fifo holds "push_payload A" shift_payload for A
proof unfold_locales
  fix l ps and p :: payload
  assume h: "holds l ps"
  obtain fn pending pd where p: "p = (fn, pending, pd)" by (cases p)
  let ?cb = "\<lparr>cb_next = 0, cb_fn = fn, cb_pending_subs = pending, cb_privdata = pd\<rparr>"
  from redisPushCallback_ok [OF h, of A ?cb] obtain rc l' where r: "redisPushCallback A l ?cb = Some (rc, l')"
    "if grants A 32 then rc = REDIS_OK \<and> holds l' (ps @ [payload ?cb]) else rc = REDIS_ERR_OOM \<and> l' = l" by blast
  then have "push_payload A l p = Some (rc = REDIS_OK, l')" by (simp add: push_payload_def p)
  moreover have "holds l' (if rc = REDIS_OK then ps @ [p] else ps)"
    using r(2) h by (auto simp: p payload_def redis_err_defs split: if_splits)
  ultimately show "\<exists>ok l'. push_payload A l p = Some (ok, l') \<and> holds l' (if ok then ps @ [p] else ps)" by blast
next
  fix l
  assume "holds l []"
  then show "shift_payload l = Some (None, l)"
    by (simp add: shift_payload_def redisShiftCallback_empty redis_err_defs)
next
  fix l p ps
  assume "holds l (p # ps)"
  from redisShiftCallback_first [OF this] show "\<exists>l'. shift_payload l = Some (Some p, l') \<and> holds l' ps"
    by (auto simp: shift_payload_def)
qed

end
