(* ===== verification/Async.thy ===== *)
theory Async
  imports Context Dict Callbacks
begin

unbundle bit_operations_syntax

text \<open>
  The asynchronous API, \<^verbatim>\<open>lib/hiredis/async.h\<close> and \<^verbatim>\<open>async.c\<close>: commands with callbacks, the
  subscriptions, the handlers for the events of the socket, and the ways to disconnect.

  The functions of the user are a parameter \<^theory_text>\<open>user fn reply privdata\<close>, which maps the context
  before the call to the context after it; what it may do is a hypothesis where it matters. The
  functions for connecting and disconnecting get the context as a \<^verbatim>\<open>const\<close> and do not change it.
  All calls of functions of the user and of the event library are recorded in \<^theory_text>\<open>a_log\<close>, in order;
  that of a callback with the heap that the reply lives in.
\<close>

section \<open>Data (async.h)\<close>

definition REDIS_DISCONNECTING :: "32 word" where "REDIS_DISCONNECTING = 0x4"
definition REDIS_FREEING :: "32 word" where "REDIS_FREEING = 0x8"
definition REDIS_IN_CALLBACK :: "32 word" where "REDIS_IN_CALLBACK = 0x10"
definition REDIS_SUBSCRIBED :: "32 word" where "REDIS_SUBSCRIBED = 0x20"
definition REDIS_MONITORING :: "32 word" where "REDIS_MONITORING = 0x40"

datatype notice =
    Add_read | Del_read | Add_write | Del_write | Cleanup | Schedule_timer timeval
  | Called nat addr nat heap
  | On_connect nat int | On_disconnect nat int

text \<open>
  The hooks of the event library are set or not. \<^verbatim>\<open>errstr\<close> points to the text in the context and
  has no value of its own.
\<close>

record redisAsyncContext =
  a_c :: conn
  a_err :: int
  a_addRead :: bool
  a_delRead :: bool
  a_addWrite :: bool
  a_delWrite :: bool
  a_cleanup :: bool
  a_scheduleTimer :: bool
  a_onDisconnect :: nat
  a_onConnect :: nat
  a_replies :: redisCallbackList
  a_invalid :: redisCallbackList
  a_channels :: "(sds, redisCallback) dict ptr"
  a_patterns :: "(sds, redisCallback) dict ptr"
  a_log :: "notice list"

type_synonym user = "nat \<Rightarrow> addr \<Rightarrow> nat \<Rightarrow> redisAsyncContext \<Rightarrow> redisAsyncContext option"

text \<open>A context that is alive, or what is left after it was freed.\<close>

datatype life = Live redisAsyncContext | Gone heap net "notice list"

definition notify :: "redisAsyncContext \<Rightarrow> notice \<Rightarrow> redisAsyncContext" where
  "notify ac e = ac\<lparr>a_log := a_log ac @ [e]\<rparr>"

definition on_flags :: "(32 word \<Rightarrow> 32 word) \<Rightarrow> redisAsyncContext \<Rightarrow> redisAsyncContext" where
  "on_flags f ac = ac\<lparr>a_c := (a_c ac)\<lparr>k_ctx := (k_ctx (a_c ac))\<lparr>c_flags := f (c_flags (k_ctx (a_c ac)))\<rparr>\<rparr>\<rparr>"

definition set_flag :: "32 word \<Rightarrow> redisAsyncContext \<Rightarrow> redisAsyncContext" where
  "set_flag x = on_flags (\<lambda>f. f OR x)"

definition clear_flag :: "32 word \<Rightarrow> redisAsyncContext \<Rightarrow> redisAsyncContext" where
  "clear_flag x = on_flags (\<lambda>f. f AND NOT x)"

abbreviation has :: "redisAsyncContext \<Rightarrow> 32 word \<Rightarrow> bool" where
  "has ac x \<equiv> flag (k_ctx (a_c ac)) x"

section \<open>The event library\<close>

definition refreshTimeout :: "redisAsyncContext \<Rightarrow> redisAsyncContext" where
  "refreshTimeout ac = (case c_timeout (k_ctx (a_c ac)) of
     Ptr tv \<Rightarrow>
       if a_scheduleTimer ac \<and> (tv_sec tv \<noteq> 0 \<or> tv_usec tv \<noteq> 0) then notify ac (Schedule_timer tv) else ac
   | _ \<Rightarrow> ac)"

definition EL_ADD_READ :: "redisAsyncContext \<Rightarrow> redisAsyncContext" where
  "EL_ADD_READ ac = (let ac = refreshTimeout ac in if a_addRead ac then notify ac Add_read else ac)"

definition EL_DEL_READ :: "redisAsyncContext \<Rightarrow> redisAsyncContext" where
  "EL_DEL_READ ac = (if a_delRead ac then notify ac Del_read else ac)"

definition EL_ADD_WRITE :: "redisAsyncContext \<Rightarrow> redisAsyncContext" where
  "EL_ADD_WRITE ac = (let ac = refreshTimeout ac in if a_addWrite ac then notify ac Add_write else ac)"

definition EL_DEL_WRITE :: "redisAsyncContext \<Rightarrow> redisAsyncContext" where
  "EL_DEL_WRITE ac = (if a_delWrite ac then notify ac Del_write else ac)"

definition EL_CLEANUP :: "redisAsyncContext \<Rightarrow> redisAsyncContext" where
  "EL_CLEANUP ac = (if a_cleanup ac then notify ac Cleanup else ac)\<lparr>a_cleanup := False\<rparr>"

section \<open>The dictionaries of callbacks\<close>

definition callbackHash :: "sds \<Rightarrow> 32 word option" where
  "callbackHash key = dictGenHashFunction (buf key) (to_int (int (sdslen key)))"

text \<open>The result of \<^verbatim>\<open>malloc\<close> is not checked.\<close>

definition callbackValDup :: "allocator \<Rightarrow> redisCallback \<Rightarrow> redisCallback option" where
  "callbackValDup A src = (if grants A 32 then Some src else None)"

definition callbackKeyCompare :: "sds \<Rightarrow> sds \<Rightarrow> bool option" where
  "callbackKeyCompare key1 key2 =
     (let l1 = to_int (int (sdslen key1)); l2 = to_int (int (sdslen key2)) in
      if l1 \<noteq> l2 then Some False
      else if l1 < 0 then None
      else do {
        b1 \<leftarrow> mem_read (buf key1) 0 (nat l1);
        b2 \<leftarrow> mem_read (buf key2) 0 (nat l1);
        Some (b1 = b2)
      })"

definition callbackDict :: "allocator \<Rightarrow> (sds, redisCallback) dictType" where
  "callbackDict A =
     \<lparr>hashFunction = callbackHash, keyDup = None, valDup = Some (callbackValDup A),
      keyCompare = Some callbackKeyCompare, keyDestructor = True, valDestructor = True\<rparr>"

section \<open>Creating a context\<close>

text \<open>\<^verbatim>\<open>__redisAsyncCopyError\<close>\<close>

definition redisAsyncCopyError :: "redisAsyncContext \<Rightarrow> redisAsyncContext" where
  "redisAsyncCopyError ac = ac\<lparr>a_err := c_err (k_ctx (a_c ac))\<rparr>"

text \<open>
  \<^theory_text>\<open>junk\<close> is what the blocks for the two dictionaries hold before they are initialised. The
  result is null when the memory for the larger context is not granted.
\<close>

definition redisAsyncInitialize :: "allocator \<Rightarrow> (sds, redisCallback) dict \<Rightarrow> conn \<Rightarrow>
    redisAsyncContext ptr option" where
  "redisAsyncInitialize A junk k =
     (if \<not> grants A 512 then Some Null
      else do {
        channels \<leftarrow> dictCreate A junk (callbackDict A);
        patterns \<leftarrow> dictCreate A junk (callbackDict A);
        Some (Ptr (clear_flag REDIS_CONNECTED
          \<lparr>a_c = k, a_err = 0, a_addRead = False, a_delRead = False, a_addWrite = False,
           a_delWrite = False, a_cleanup = False, a_scheduleTimer = False, a_onDisconnect = 0,
           a_onConnect = 0, a_replies = empty_list, a_invalid = empty_list,
           a_channels = Ptr channels, a_patterns = Ptr patterns, a_log = []\<rparr>))
      })"

text \<open>The result: the context, or null.\<close>

definition redisAsyncConnectWithOptions :: "allocator \<Rightarrow> libc \<Rightarrow> (sds, redisCallback) dict \<Rightarrow> heap \<Rightarrow> net \<Rightarrow>
    redisOptions \<Rightarrow> redisAsyncContext ptr option" where
  "redisAsyncConnectWithOptions A lc junk h n opt = do {
     let myOptions = opt\<lparr>o_options := o_options opt OR REDIS_OPT_NONBLOCK\<rparr>;
     c \<leftarrow> redisConnectWithOptions A lc h n myOptions;
     if c = Null then Some Null
     else do {
       k \<leftarrow> deref c;
       p \<leftarrow> redisAsyncInitialize A junk k;
       if p = Null then do {
         _ \<leftarrow> redisFree (Ptr (k_ctx k)) (k_heap k) (k_net k);
         Some Null
       }
       else do {
         ac \<leftarrow> deref p;
         Some (Ptr (redisAsyncCopyError ac))
       }
     }
   }"

definition redisAsyncConnect :: "allocator \<Rightarrow> libc \<Rightarrow> (sds, redisCallback) dict \<Rightarrow> heap \<Rightarrow> net \<Rightarrow>
    bytes \<Rightarrow> int \<Rightarrow> redisAsyncContext ptr option" where
  "redisAsyncConnect A lc junk h n ip port =
     redisAsyncConnectWithOptions A lc junk h n (tcp_options 0 None None ip port)"

definition redisAsyncConnectBind :: "allocator \<Rightarrow> libc \<Rightarrow> (sds, redisCallback) dict \<Rightarrow> heap \<Rightarrow> net \<Rightarrow>
    bytes \<Rightarrow> int \<Rightarrow> bytes \<Rightarrow> redisAsyncContext ptr option" where
  "redisAsyncConnectBind A lc junk h n ip port src =
     redisAsyncConnectWithOptions A lc junk h n (tcp_options 0 None (Some src) ip port)"

definition redisAsyncConnectBindWithReuse :: "allocator \<Rightarrow> libc \<Rightarrow> (sds, redisCallback) dict \<Rightarrow> heap \<Rightarrow> net \<Rightarrow>
    bytes \<Rightarrow> int \<Rightarrow> bytes \<Rightarrow> redisAsyncContext ptr option" where
  "redisAsyncConnectBindWithReuse A lc junk h n ip port src =
     redisAsyncConnectWithOptions A lc junk h n (tcp_options REDIS_OPT_REUSEADDR None (Some src) ip port)"

definition redisAsyncConnectUnix :: "allocator \<Rightarrow> libc \<Rightarrow> (sds, redisCallback) dict \<Rightarrow> heap \<Rightarrow> net \<Rightarrow>
    bytes \<Rightarrow> redisAsyncContext ptr option" where
  "redisAsyncConnectUnix A lc junk h n path =
     redisAsyncConnectWithOptions A lc junk h n (unix_options 0 None path)"

definition redisAsyncSetConnectCallback :: "redisAsyncContext \<Rightarrow> nat \<Rightarrow> int \<times> redisAsyncContext" where
  "redisAsyncSetConnectCallback ac fn =
     (if a_onConnect ac = 0 then (REDIS_OK, EL_ADD_WRITE (ac\<lparr>a_onConnect := fn\<rparr>)) else (REDIS_ERR, ac))"

definition redisAsyncSetDisconnectCallback :: "redisAsyncContext \<Rightarrow> nat \<Rightarrow> int \<times> redisAsyncContext" where
  "redisAsyncSetDisconnectCallback ac fn =
     (if a_onDisconnect ac = 0 then (REDIS_OK, ac\<lparr>a_onDisconnect := fn\<rparr>) else (REDIS_ERR, ac))"

definition redisAsyncSetTimeout :: "allocator \<Rightarrow> redisAsyncContext \<Rightarrow> timeval \<Rightarrow> redisAsyncContext option" where
  "redisAsyncSetTimeout A ac tv =
     (if c_timeout (k_ctx (a_c ac)) = Dangling \<or> (c_timeout (k_ctx (a_c ac)) = Null \<and> \<not> grants A 16) then None
      else Some (ac\<lparr>a_c := (a_c ac)\<lparr>k_ctx := (k_ctx (a_c ac))\<lparr>c_timeout := Ptr tv\<rparr>\<rparr>\<rparr>))"

section \<open>Running callbacks and freeing\<close>

text \<open>\<^verbatim>\<open>__redisRunCallback\<close>\<close>

definition redisRunCallback :: "user \<Rightarrow> redisAsyncContext \<Rightarrow> redisCallback \<Rightarrow> addr \<Rightarrow> redisAsyncContext option" where
  "redisRunCallback user ac cb reply =
     (if cb_fn cb \<noteq> 0 then do {
        let ac = notify (set_flag REDIS_IN_CALLBACK ac) (Called (cb_fn cb) reply (cb_privdata cb) (k_heap (a_c ac)));
        ac \<leftarrow> user (cb_fn cb) reply (cb_privdata cb) ac;
        Some (clear_flag REDIS_IN_CALLBACK ac)
      }
      else Some ac)"

text \<open>The loops over the two queues, which give every callback a null reply.\<close>

partial_function (option) run_replies :: "user \<Rightarrow> redisAsyncContext \<Rightarrow> redisAsyncContext option" where
  "run_replies user ac = do {
     (rc, cb, l) \<leftarrow> redisShiftCallback (a_replies ac);
     (case cb of
        Some cb \<Rightarrow> do {
          ac \<leftarrow> redisRunCallback user (ac\<lparr>a_replies := l\<rparr>) cb 0;
          run_replies user ac
        }
      | None \<Rightarrow> Some ac)
   }"

partial_function (option) run_invalid :: "user \<Rightarrow> redisAsyncContext \<Rightarrow> redisAsyncContext option" where
  "run_invalid user ac = do {
     (rc, cb, l) \<leftarrow> redisShiftCallback (a_invalid ac);
     (case cb of
        Some cb \<Rightarrow> do {
          ac \<leftarrow> redisRunCallback user (ac\<lparr>a_invalid := l\<rparr>) cb 0;
          run_invalid user ac
        }
      | None \<Rightarrow> Some ac)
   }"

text \<open>The loop over a dictionary, \<^theory_text>\<open>dicts\<close> being the one that the iterator is for.\<close>

partial_function (option) run_subs :: "user \<Rightarrow> (redisAsyncContext \<Rightarrow> (sds, redisCallback) dict ptr) \<Rightarrow>
    redisAsyncContext \<Rightarrow> (sds, redisCallback) dictIterator \<Rightarrow> redisAsyncContext option" where
  "run_subs user dicts ac it = do {
     ht \<leftarrow> deref (dicts ac);
     (de, it) \<leftarrow> dictNext ht it;
     (case de of
        None \<Rightarrow> Some ac
      | Some de \<Rightarrow> do {
          ac \<leftarrow> redisRunCallback user ac (he_val de) 0;
          run_subs user dicts ac it
        })
   }"

text \<open>\<^verbatim>\<open>__redisAsyncFree\<close>\<close>

definition asyncFree :: "allocator \<Rightarrow> user \<Rightarrow> redisAsyncContext \<Rightarrow> life option" where
  "asyncFree A user ac = do {
     ac \<leftarrow> run_replies user ac;
     ac \<leftarrow> run_invalid user ac;
     it \<leftarrow> dictGetIterator A;
     ac \<leftarrow> run_subs user a_channels ac it;
     (p, _) \<leftarrow> dictRelease (a_channels ac);
     let ac = ac\<lparr>a_channels := p\<rparr>;
     it \<leftarrow> dictGetIterator A;
     ac \<leftarrow> run_subs user a_patterns ac it;
     (p, _) \<leftarrow> dictRelease (a_patterns ac);
     let ac = ac\<lparr>a_patterns := p\<rparr>;
     let ac = EL_CLEANUP ac;
     let ac = (if a_onDisconnect ac \<noteq> 0 \<and> has ac REDIS_CONNECTED
               then notify ac (On_disconnect (a_onDisconnect ac)
                 (if has ac REDIS_FREEING then REDIS_OK else if a_err ac = 0 then REDIS_OK else REDIS_ERR))
               else ac);
     (h, n) \<leftarrow> redisFree (Ptr (k_ctx (a_c ac))) (k_heap (a_c ac)) (k_net (a_c ac));
     Some (Gone h n (a_log ac))
   }"

definition redisAsyncFree :: "allocator \<Rightarrow> user \<Rightarrow> redisAsyncContext \<Rightarrow> life option" where
  "redisAsyncFree A user ac =
     (let ac = set_flag REDIS_FREEING ac
      in if \<not> has ac REDIS_IN_CALLBACK then asyncFree A user ac else Some (Live ac))"

text \<open>\<^verbatim>\<open>__redisAsyncDisconnect\<close>, with its assertion.\<close>

definition asyncDisconnect :: "allocator \<Rightarrow> user \<Rightarrow> redisAsyncContext \<Rightarrow> life option" where
  "asyncDisconnect A user ac = do {
     let ac = redisAsyncCopyError ac;
     ac \<leftarrow> (if a_err ac = 0 then do {
              (ret, _, l) \<leftarrow> redisShiftCallback (a_replies ac);
              if ret = REDIS_ERR then Some (ac\<lparr>a_replies := l\<rparr>) else None
            }
            else Some (set_flag REDIS_DISCONNECTING ac));
     let ac = EL_CLEANUP ac;
     if \<not> has ac REDIS_NO_AUTO_FREE then asyncFree A user ac else Some (Live ac)
   }"

definition redisAsyncDisconnect :: "allocator \<Rightarrow> user \<Rightarrow> redisAsyncContext \<Rightarrow> life option" where
  "redisAsyncDisconnect A user ac =
     (let ac = clear_flag REDIS_NO_AUTO_FREE (set_flag REDIS_DISCONNECTING ac)
      in if \<not> has ac REDIS_IN_CALLBACK \<and> l_head (a_replies ac) = 0
         then asyncDisconnect A user ac else Some (Live ac))"

section \<open>Replies\<close>

text \<open>\<^verbatim>\<open>c->reader->fn->freeObject(reply)\<close>\<close>

definition free_reply :: "redisAsyncContext \<Rightarrow> addr \<Rightarrow> redisAsyncContext option" where
  "free_reply ac reply = do {
     r \<leftarrow> deref (c_reader (k_ctx (a_c ac)));
     free \<leftarrow> callback freeObject r;
     h \<leftarrow> free reply (k_heap (a_c ac));
     Some (ac\<lparr>a_c := (a_c ac)\<lparr>k_heap := h\<rparr>\<rparr>)
   }"

text \<open>
  Whether the first \<^theory_text>\<open>n\<close> characters of a C string are those of a literal, without regard to case:
  \<^verbatim>\<open>strncasecmp\<close>, and \<^verbatim>\<open>strcasecmp\<close> where the literal comes with its NUL.
\<close>

fun strncaseeq :: "bytes \<Rightarrow> bytes \<Rightarrow> nat \<Rightarrow> bool option" where
  "strncaseeq s lit 0 = Some True"
| "strncaseeq [] lit (Suc n) = None"
| "strncaseeq (c # s) [] (Suc n) = Some (c = NUL)"
| "strncaseeq (c # s) (d # lit) (Suc n) =
     (if c_tolower c \<noteq> c_tolower d then Some False
      else if c = NUL then Some True else strncaseeq s lit n)"

definition strcaseeq :: "bytes \<Rightarrow> bytes \<Rightarrow> bool option" where
  "strcaseeq s lit = strncaseeq s (lit @ [NUL]) (length lit + 1)"

text \<open>The element \<^theory_text>\<open>i\<close> of an array reply.\<close>

definition element_of :: "heap \<Rightarrow> redisReply \<Rightarrow> nat \<Rightarrow> redisReply option" where
  "element_of h r i = do {
     es \<leftarrow> deref (rep_element r);
     if i < length es then cell h (es ! i) else None
   }"

text \<open>
  The part of \<^verbatim>\<open>__redisGetSubscribeCallback\<close> for a callback that was found: the callback that is
  copied out, the dictionary, and whether this was the last message of all subscriptions.
\<close>

definition subscribe_found :: "heap \<Rightarrow> redisReply \<Rightarrow> bytes \<Rightarrow> sds \<Rightarrow> (sds, redisCallback) dict \<Rightarrow> redisCallback \<Rightarrow>
    (redisCallback \<times> (sds, redisCallback) dict \<times> bool) option" where
  "subscribe_found h reply kind sname callbacks cb = do {
     sub \<leftarrow> strcaseeq kind ''subscribe'';
     (cb, callbacks) \<leftarrow> (if sub then do {
         let cb = cb\<lparr>cb_pending_subs := cb_pending_subs cb - 1\<rparr>;
         callbacks \<leftarrow> set_found callbacks sname cb;
         Some (cb, callbacks)
       } else Some (cb, callbacks));
     unsub \<leftarrow> strcaseeq kind ''unsubscribe'';
     if unsub then do {
       callbacks \<leftarrow> (if cb_pending_subs cb = 0 then do {
           (_, callbacks, _) \<leftarrow> dictDelete callbacks sname;
           Some callbacks
         } else Some callbacks);
       e2 \<leftarrow> element_of h reply 2;
       if rep_type e2 \<noteq> REDIS_REPLY_INTEGER then None
       else Some (cb, callbacks, rep_integer e2 = 0)
     }
     else Some (cb, callbacks, False)
   }"

text \<open>\<^verbatim>\<open>dictSize\<close>\<close>

definition dictSize :: "(sds, redisCallback) dict ptr \<Rightarrow> nat option" where
  "dictSize d = map_option ht_used (deref d)"

text \<open>
  \<^verbatim>\<open>__redisGetSubscribeCallback\<close>: \<^theory_text>\<open>dstcb\<close> is what the variable of the caller holds before the
  call; it keeps this value when no callback is found.
\<close>

definition redisGetSubscribeCallback :: "allocator \<Rightarrow> redisAsyncContext \<Rightarrow> addr \<Rightarrow> redisCallback \<Rightarrow>
    (redisCallback \<times> redisAsyncContext) option" where
  "redisGetSubscribeCallback A ac reply dstcb = do {
     let h = k_heap (a_c ac);
     r \<leftarrow> cell h reply;
     if rep_type r = REDIS_REPLY_ARRAY then
       if rep_elements r < 2 then None
       else do {
         e0 \<leftarrow> element_of h r 0;
         if rep_type e0 \<noteq> REDIS_REPLY_STRING then None
         else do {
           stype \<leftarrow> deref (rep_str e0);
           c \<leftarrow> (case stype of [] \<Rightarrow> None | c # _ \<Rightarrow> Some c);
           let pvariant = (c_tolower c = CHR ''p'');
           callbacks \<leftarrow> deref (if pvariant then a_patterns ac else a_channels ac);
           e1 \<leftarrow> element_of h r 1;
           if rep_type e1 \<noteq> REDIS_REPLY_STRING then None
           else do {
             name \<leftarrow> deref (rep_str e1);
             p \<leftarrow> sdsnewlen A (Ptr name) (rep_len e1);
             sname \<leftarrow> deref p;
             de \<leftarrow> dictFind callbacks sname;
             (case de of
                Ptr de \<Rightarrow> do {
                  (cb, callbacks, last) \<leftarrow>
                    subscribe_found h r (drop (if pvariant then 1 else 0) stype) sname callbacks (he_val de);
                  let ac = (if pvariant then ac\<lparr>a_patterns := Ptr callbacks\<rparr> else ac\<lparr>a_channels := Ptr callbacks\<rparr>);
                  nc \<leftarrow> dictSize (a_channels ac);
                  np \<leftarrow> dictSize (a_patterns ac);
                  Some (cb, if last \<and> nc = 0 \<and> np = 0 then clear_flag REDIS_SUBSCRIBED ac else ac)
                }
              | _ \<Rightarrow> Some (dstcb, ac))
           }
         }
       }
     else do {
       (_, cb, l) \<leftarrow> redisShiftCallback (a_invalid ac);
       Some (case cb of Some cb \<Rightarrow> cb | None \<Rightarrow> dstcb, ac\<lparr>a_invalid := l\<rparr>)
     }
   }"

definition no_callback :: redisCallback where
  "no_callback = \<lparr>cb_next = 0, cb_fn = 0, cb_pending_subs = 0, cb_privdata = 0\<rparr>"

text \<open>The callback for a reply; \<^theory_text>\<open>None\<close> in the result means that the connection is to be closed.\<close>

definition reply_callback :: "allocator \<Rightarrow> redisAsyncContext \<Rightarrow> addr \<Rightarrow> redisCallback \<Rightarrow>
    (redisCallback option \<times> redisAsyncContext) option" where
  "reply_callback A ac reply cb = do {
     (rc, found, l) \<leftarrow> redisShiftCallback (a_replies ac);
     let ac = ac\<lparr>a_replies := l\<rparr>;
     (case found of
        Some cb \<Rightarrow> Some (Some cb, ac)
      | None \<Rightarrow> do {
          r \<leftarrow> cell (k_heap (a_c ac)) reply;
          if rep_type r = REDIS_REPLY_ERROR then do {
            str \<leftarrow> deref (rep_str r);
            n \<leftarrow> c_strlen str;
            let ac = ac\<lparr>a_c := (a_c ac)\<lparr>k_ctx := (k_ctx (a_c ac))
              \<lparr>c_err := REDIS_ERR_OTHER, c_errstr := take 127 (take n str)\<rparr>\<rparr>\<rparr>;
            ac \<leftarrow> free_reply ac reply;
            Some (None, ac)
          }
          else if \<not> has ac REDIS_SUBSCRIBED \<and> \<not> has ac REDIS_MONITORING then None
          else if has ac REDIS_SUBSCRIBED then do {
            (cb, ac) \<leftarrow> redisGetSubscribeCallback A ac reply cb;
            Some (Some cb, ac)
          }
          else Some (Some cb, ac)
        })
   }"

text \<open>\<^verbatim>\<open>redisProcessCallbacks\<close>; \<^theory_text>\<open>cb\<close> is the local variable, which the rounds of the loop share.\<close>

partial_function (option) process_loop_async :: "allocator \<Rightarrow> libc \<Rightarrow> user \<Rightarrow> redisAsyncContext \<Rightarrow> redisCallback \<Rightarrow>
    life option" where
  "process_loop_async A lc user ac cb = do {
     (status, reply, k) \<leftarrow> redisGetReply A lc (a_c ac);
     let ac = ac\<lparr>a_c := k\<rparr>;
     if status \<noteq> REDIS_OK then asyncDisconnect A user ac
     else if reply = 0 then do {
       s \<leftarrow> deref (c_obuf (k_ctx (a_c ac)));
       if has ac REDIS_DISCONNECTING \<and> sdslen s = 0 \<and> l_head (a_replies ac) = 0
       then asyncDisconnect A user ac
       else if has ac REDIS_MONITORING then do {
         (_, l) \<leftarrow> redisPushCallback A (a_replies ac) cb;
         Some (Live (ac\<lparr>a_replies := l\<rparr>))
       }
       else Some (Live ac)
     }
     else do {
       (found, ac) \<leftarrow> reply_callback A ac reply cb;
       (case found of
          None \<Rightarrow> asyncDisconnect A user ac
        | Some cb \<Rightarrow>
            if cb_fn cb \<noteq> 0 then do {
              ac \<leftarrow> redisRunCallback user ac cb reply;
              ac \<leftarrow> free_reply ac reply;
              if has ac REDIS_FREEING then asyncFree A user ac
              else process_loop_async A lc user ac cb
            }
            else do {
              ac \<leftarrow> free_reply ac reply;
              process_loop_async A lc user ac cb
            })
     }
   }"

definition redisProcessCallbacks :: "allocator \<Rightarrow> libc \<Rightarrow> user \<Rightarrow> redisAsyncContext \<Rightarrow> life option" where
  "redisProcessCallbacks A lc user ac = process_loop_async A lc user ac no_callback"

section \<open>Events\<close>

text \<open>\<^verbatim>\<open>__redisAsyncHandleConnect\<close>\<close>

definition redisAsyncHandleConnect :: "allocator \<Rightarrow> libc \<Rightarrow> user \<Rightarrow> redisAsyncContext \<Rightarrow> (int \<times> life) option" where
  "redisAsyncHandleConnect A lc user ac = do {
     (rc, completed, k) \<leftarrow> redisCheckConnectDone (a_c ac);
     if rc = REDIS_ERR then do {
       (_, k) \<leftarrow> redisCheckSocketError lc k;
       let ac = ac\<lparr>a_c := k\<rparr>;
       let ac = (if a_onConnect ac \<noteq> 0 then notify ac (On_connect (a_onConnect ac) REDIS_ERR) else ac);
       l \<leftarrow> asyncDisconnect A user ac;
       Some (REDIS_ERR, l)
     }
     else do {
       let ac = ac\<lparr>a_c := k\<rparr>;
       if completed = Some 1 then do {
         let ac = (if a_onConnect ac \<noteq> 0 then notify ac (On_connect (a_onConnect ac) REDIS_OK) else ac);
         Some (REDIS_OK, Live (set_flag REDIS_CONNECTED ac))
       }
       else Some (REDIS_OK, Live ac)
     }
   }"

text \<open>
  What both handlers do first: \<^theory_text>\<open>Inr\<close> is a connected context, with which they go on. Without SSL
  \<^verbatim>\<open>c->ssl\<close> is null, and the handlers for SSL would use it.
\<close>

definition handle_connect :: "allocator \<Rightarrow> libc \<Rightarrow> user \<Rightarrow> redisAsyncContext \<Rightarrow>
    (life + redisAsyncContext) option" where
  "handle_connect A lc user ac = do {
     r \<leftarrow> (if \<not> has ac REDIS_CONNECTED then do {
         (rc, l) \<leftarrow> redisAsyncHandleConnect A lc user ac;
         Some (case l of
             Live ac \<Rightarrow> if rc \<noteq> REDIS_OK \<or> \<not> has ac REDIS_CONNECTED then Inl l else Inr ac
           | Gone _ _ _ \<Rightarrow> Inl l)
       } else Some (Inr ac));
     (case r of
        Inl l \<Rightarrow> Some (Inl l)
      | Inr ac \<Rightarrow> if has ac REDIS_SSL then None else Some (Inr ac))
   }"

definition redisAsyncHandleRead :: "allocator \<Rightarrow> libc \<Rightarrow> user \<Rightarrow> redisAsyncContext \<Rightarrow> life option" where
  "redisAsyncHandleRead A lc user ac = do {
     r \<leftarrow> handle_connect A lc user ac;
     (case r of
        Inl l \<Rightarrow> Some l
      | Inr ac \<Rightarrow> do {
          (rc, k) \<leftarrow> redisBufferRead A lc (a_c ac);
          let ac = ac\<lparr>a_c := k\<rparr>;
          if rc = REDIS_ERR then asyncDisconnect A user ac
          else redisProcessCallbacks A lc user (EL_ADD_READ ac)
        })
   }"

definition redisAsyncHandleWrite :: "allocator \<Rightarrow> libc \<Rightarrow> user \<Rightarrow> redisAsyncContext \<Rightarrow> life option" where
  "redisAsyncHandleWrite A lc user ac = do {
     r \<leftarrow> handle_connect A lc user ac;
     (case r of
        Inl l \<Rightarrow> Some l
      | Inr ac \<Rightarrow> do {
          (rc, wdone, k) \<leftarrow> redisBufferWrite A lc (a_c ac);
          let ac = ac\<lparr>a_c := k\<rparr>;
          if rc = REDIS_ERR then asyncDisconnect A user ac
          else do {
            let ac = (if wdone \<noteq> Some True then EL_ADD_WRITE ac else EL_DEL_WRITE ac);
            Some (Live (EL_ADD_READ ac))
          }
        })
   }"

definition redisAsyncHandleTimeout :: "allocator \<Rightarrow> libc \<Rightarrow> user \<Rightarrow> redisAsyncContext \<Rightarrow> life option" where
  "redisAsyncHandleTimeout A lc user ac =
     (if has ac REDIS_CONNECTED \<and> l_head (a_replies ac) = 0 then Some (Live ac)
      else do {
        k \<leftarrow> (if c_err (k_ctx (a_c ac)) = 0 then set_error lc (a_c ac) REDIS_ERR_TIMEOUT (Some ''Timeout'')
              else Some (a_c ac));
        let ac = ac\<lparr>a_c := k\<rparr>;
        let ac = (if \<not> has ac REDIS_CONNECTED \<and> a_onConnect ac \<noteq> 0
                  then notify ac (On_connect (a_onConnect ac) REDIS_ERR) else ac);
        ac \<leftarrow> run_replies user ac;
        asyncDisconnect A user ac
      })"

section \<open>Commands\<close>

text \<open>The rest of a C string from the first \<^theory_text>\<open>c\<close> on; \<^theory_text>\<open>Some None\<close> is the null of \<^verbatim>\<open>strchr\<close>.\<close>

fun strchr :: "char \<Rightarrow> bytes \<Rightarrow> bytes option option" where
  "strchr c [] = None"
| "strchr c (x # s) = (if x = c then Some (Some (x # s)) else if x = NUL then Some None else strchr c s)"

text \<open>\<^verbatim>\<open>strtol\<close> in base 10, on a C string.\<close>

definition strtol :: "bytes \<Rightarrow> int option" where
  "strtol s = (case dropWhile c_isspace s of
     [] \<Rightarrow> None
   | c # rest \<Rightarrow>
       let body = (if c = CHR ''-'' \<or> c = CHR ''+'' then rest else c # rest);
           digits = takeWhile is_digit body;
           v = (if c = CHR ''-'' then - int (dec_val 0 digits) else int (dec_val 0 digits))
       in if length digits = length body then None
          else Some (max (- (2 ^ 63)) (min (2 ^ 63 - 1) v)))"

text \<open>
  \<^verbatim>\<open>nextArgument\<close>: null, or the argument, its length and what follows it. The length is an \<^verbatim>\<open>int\<close>
  that is stored in a \<^verbatim>\<open>size_t\<close>; a pointer behind the end of the block is undefined.
\<close>

definition nextArgument :: "bytes \<Rightarrow> (bytes \<times> nat \<times> bytes) option option" where
  "nextArgument start = do {
     c \<leftarrow> nth_opt start 0;
     p \<leftarrow> (if c \<noteq> CHR ''$'' then strchr (CHR ''$'') start else Some (Some start));
     (case p of
        None \<Rightarrow> Some None
      | Some p \<Rightarrow> do {
          n \<leftarrow> strtol (drop 1 p);
          let len = nat (to_int n mod 2 ^ 64);
          q \<leftarrow> strchr (CHR 0x0D) p;
          q \<leftarrow> q;
          if 2 + len + 2 \<le> length q then Some (Some (drop 2 q, len, drop (2 + len + 2) q)) else None
        })
   }"

text \<open>
  The loop over the channels of a \<^verbatim>\<open>SUBSCRIBE\<close>: the dictionary, and the callback, whose counter the
  rounds share.
\<close>

partial_function (option) subscribe_loop :: "allocator \<Rightarrow> (sds, redisCallback) dict \<Rightarrow> redisCallback \<Rightarrow> bytes \<Rightarrow>
    (sds, redisCallback) dict option" where
  "subscribe_loop A cbdict cb p = do {
     r \<leftarrow> nextArgument p;
     (case r of
        None \<Rightarrow> Some cbdict
      | Some (astr, alen, p) \<Rightarrow> do {
          q \<leftarrow> sdsnewlen A (Ptr astr) alen;
          sname \<leftarrow> deref q;
          de \<leftarrow> dictFind cbdict sname;
          let cb = (case de of
              Ptr de \<Rightarrow> cb\<lparr>cb_pending_subs := cb_pending_subs (he_val de) + 1\<rparr>
            | _ \<Rightarrow> cb);
          (ret, cbdict, _) \<leftarrow> dictReplace A cbdict sname cb;
          subscribe_loop A cbdict cb p
        })
   }"

text \<open>Where the callback of a command goes; \<^theory_text>\<open>None\<close> in the result is the early \<^verbatim>\<open>REDIS_ERR\<close>.\<close>

definition register_callback :: "allocator \<Rightarrow> redisAsyncContext \<Rightarrow> redisCallback \<Rightarrow> bytes \<Rightarrow>
    redisAsyncContext option option" where
  "register_callback A ac cb cmd = do {
     r \<leftarrow> nextArgument cmd;
     (cstr, clen, p) \<leftarrow> r;
     c \<leftarrow> nth_opt p 0;
     let hasnext = (c = CHR ''$'');
     c \<leftarrow> nth_opt cstr 0;
     let pvariant = (c_tolower c = CHR ''p'');
     let cstr = drop (if pvariant then 1 else 0) cstr;
     sub \<leftarrow> (if hasnext then strncaseeq cstr (''subscribe'' @ CRLF) 11 else Some False);
     if sub then do {
       let ac = set_flag REDIS_SUBSCRIBED ac;
       cbdict \<leftarrow> deref (if pvariant then a_patterns ac else a_channels ac);
       cbdict \<leftarrow> subscribe_loop A cbdict cb p;
       Some (Some (if pvariant then ac\<lparr>a_patterns := Ptr cbdict\<rparr> else ac\<lparr>a_channels := Ptr cbdict\<rparr>))
     }
     else do {
       unsub \<leftarrow> strncaseeq cstr (''unsubscribe'' @ CRLF) 13;
       if unsub then Some (if \<not> has ac REDIS_SUBSCRIBED then None else Some ac)
       else do {
         mon \<leftarrow> strncaseeq cstr (''monitor'' @ CRLF) 9;
         if mon then do {
           (_, l) \<leftarrow> redisPushCallback A (a_replies ac) cb;
           Some (Some (set_flag REDIS_MONITORING ac\<lparr>a_replies := l\<rparr>))
         }
         else if has ac REDIS_SUBSCRIBED then do {
           (_, l) \<leftarrow> redisPushCallback A (a_invalid ac) cb;
           Some (Some (ac\<lparr>a_invalid := l\<rparr>))
         }
         else do {
           (_, l) \<leftarrow> redisPushCallback A (a_replies ac) cb;
           Some (Some (ac\<lparr>a_replies := l\<rparr>))
         }
       }
     }
   }"

text \<open>\<^verbatim>\<open>__redisAsyncCommand\<close>\<close>

definition asyncCommand :: "allocator \<Rightarrow> libc \<Rightarrow> redisAsyncContext \<Rightarrow> nat \<Rightarrow> nat \<Rightarrow> bytes \<Rightarrow> nat \<Rightarrow>
    (int \<times> redisAsyncContext) option" where
  "asyncCommand A lc ac fn privdata cmd len =
     (if has ac REDIS_DISCONNECTING \<or> has ac REDIS_FREEING then Some (REDIS_ERR, ac)
      else do {
        r \<leftarrow> register_callback A ac
          \<lparr>cb_next = 0, cb_fn = fn, cb_pending_subs = 1, cb_privdata = privdata\<rparr> cmd;
        (case r of
           None \<Rightarrow> Some (REDIS_ERR, ac)
         | Some ac \<Rightarrow> do {
             (_, k) \<leftarrow> appendCommand A lc (a_c ac) cmd len;
             Some (REDIS_OK, EL_ADD_WRITE (ac\<lparr>a_c := k\<rparr>))
           })
      })"

definition redisvAsyncCommand :: "allocator \<Rightarrow> libc \<Rightarrow> (bytes \<Rightarrow> 64 word \<Rightarrow> bytes) \<Rightarrow> redisAsyncContext \<Rightarrow>
    nat \<Rightarrow> nat \<Rightarrow> bytes \<Rightarrow> va list \<Rightarrow> (int \<times> redisAsyncContext) option" where
  "redisvAsyncCommand A lc pf ac fn privdata format ap = do {
     (len, cmd) \<leftarrow> redisvFormatCommand A pf True format ap;
     if len < 0 then Some (REDIS_ERR, ac)
     else do {
       p \<leftarrow> deref cmd;
       (status, ac) \<leftarrow> asyncCommand A lc ac fn privdata p (nat len);
       _ \<leftarrow> free_ptr cmd;
       Some (status, ac)
     }
   }"

definition redisAsyncCommand :: "allocator \<Rightarrow> libc \<Rightarrow> (bytes \<Rightarrow> 64 word \<Rightarrow> bytes) \<Rightarrow> redisAsyncContext \<Rightarrow>
    nat \<Rightarrow> nat \<Rightarrow> bytes \<Rightarrow> va list \<Rightarrow> (int \<times> redisAsyncContext) option" where
  "redisAsyncCommand A lc pf ac fn privdata format ap = redisvAsyncCommand A lc pf ac fn privdata format ap"

definition redisAsyncCommandArgv :: "allocator \<Rightarrow> libc \<Rightarrow> redisAsyncContext \<Rightarrow> nat \<Rightarrow> nat \<Rightarrow>
    int \<Rightarrow> bytes list \<Rightarrow> nat list option \<Rightarrow> (int \<times> redisAsyncContext) option" where
  "redisAsyncCommandArgv A lc ac fn privdata argc argv argvlen = do {
     (len, cmd) \<leftarrow> redisFormatSdsCommandArgv A True argc argv argvlen;
     if len < 0 then Some (REDIS_ERR, ac)
     else do {
       s \<leftarrow> deref cmd;
       (status, ac) \<leftarrow> asyncCommand A lc ac fn privdata (buf s) (nat len);
       _ \<leftarrow> sdsfree cmd;
       Some (status, ac)
     }
   }"

definition redisAsyncFormattedCommand :: "allocator \<Rightarrow> libc \<Rightarrow> redisAsyncContext \<Rightarrow> nat \<Rightarrow> nat \<Rightarrow>
    bytes \<Rightarrow> nat \<Rightarrow> (int \<times> redisAsyncContext) option" where
  "redisAsyncFormattedCommand A lc ac fn privdata cmd len = asyncCommand A lc ac fn privdata cmd len"

end
