(* ===== verification/Context_Correct.thy ===== *)
theory Context_Correct
  imports Context
begin

text \<open>
  The connection is correct: a blocking context flushes its buffer and returns the reply that the
  stream holds, however the stream is cut, and the bytes to send are neither lost nor repeated.
\<close>

section \<open>Contexts between two calls\<close>

text \<open>
  \<^theory_text>\<open>listening A F k ty os q out\<close>: a context without an error, with the bytes \<^theory_text>\<open>out\<close> to send, whose
  reader has the bytes \<^theory_text>\<open>q\<close> to read at the state \<^theory_text>\<open>ty, os\<close> of the abstract parser.
  \<^theory_text>\<open>ready\<close> is the context between two calls, when the reader has dropped what it has read.
\<close>

definition listening :: "allocator \<Rightarrow> (addr \<Rightarrow> redisReply option) \<Rightarrow> conn \<Rightarrow> int \<Rightarrow> unit opens \<Rightarrow> bytes \<Rightarrow>
    bytes \<Rightarrow> bool" where
  "listening A F k ty os q out \<longleftrightarrow> c_err (k_ctx k) = 0 \<and> \<not> flag (k_ctx k) REDIS_SSL \<and>
     (\<exists>s. c_obuf (k_ctx k) = Ptr s \<and> sds_ok s \<and> sds_str s = out) \<and>
     (\<exists>r os'. c_reader (k_ctx k) = Ptr r \<and> r_fn r = Some (defaultFunctions A) \<and>
        resting (on_heap F) r (k_heap k) ty os' \<and> erase os' = os \<and> pending r = q)"

definition ready :: "allocator \<Rightarrow> (addr \<Rightarrow> redisReply option) \<Rightarrow> conn \<Rightarrow> int \<Rightarrow> unit opens \<Rightarrow> bytes \<Rightarrow>
    bytes \<Rightarrow> bool" where
  "ready A F k ty os q out \<longleftrightarrow> listening A F k ty os q out \<and>
     (\<forall>r. c_reader (k_ctx k) = Ptr r \<longrightarrow> r_pos r < 1024)"

lemmas conn_defs = listening_def ready_def flag_def redis_err_defs

text \<open>Once a reply is complete, the heap with it is the frame of the next one.\<close>

lemma complete_frame: "on_heap F h a (Complete v) \<Longrightarrow> on_heap (cells h) h 0 (Building [])"
  by (auto simp: on_heap_def lay_def hcat_def)

section \<open>Waiting and delivering\<close>

lemma reader_waits:
  assumes k: "listening A F k ty os q out" and A: "\<And>n. grants A n" and res: "parse ty q os = Waiting ty' q' os'"
  shows "\<exists>k'. redisGetReplyFromReader lc k = Some (REDIS_OK, 0, k') \<and> ready A F k' ty' os' q' out \<and>
    k_net k' = k_net k \<and> c_flags (k_ctx k') = c_flags (k_ctx k)"
proof -
  obtain r os0 where r: "c_reader (k_ctx k) = Ptr r" "r_fn r = Some (defaultFunctions A)"
    "resting (on_heap F) r (k_heap k) ty os0" "erase os0 = os" "pending r = q"
    using k by (auto simp: listening_def)
  obtain r' h' os1 where g: "redisReaderGetReply r (k_heap k) = Some (REDIS_OK, r', h', 0)"
    "resting (on_heap F) r' h' ty' os1" "erase os1 = os'" "pending r' = q'" "r_fn r' = r_fn r"
    using wait_for_reply [OF r(2) A r(3), of ty' q' os'] res r(4,5) by auto
  have "r_pos r' < 1024" using GetReply_pos [OF g(1)] resting_buf [OF r(3)] by simp
  with k r g show ?thesis
    by (auto simp: redisGetReplyFromReader_def conn_defs)
qed

lemma reader_delivers:
  assumes k: "listening A F k ty os q out" and A: "\<And>n. grants A n" and res: "parse ty q os = Parsed v q'"
  shows "\<exists>a k'. redisGetReplyFromReader lc k = Some (REDIS_OK, a, k') \<and>
    on_heap F (k_heap k') a (Complete v) \<and> ready A (cells (k_heap k')) k' (- 1) [] q' out \<and>
    k_net k' = k_net k \<and> c_flags (k_ctx k') = c_flags (k_ctx k)"
proof -
  obtain r os0 where r: "c_reader (k_ctx k) = Ptr r" "r_fn r = Some (defaultFunctions A)"
    "resting (on_heap F) r (k_heap k) ty os0" "erase os0 = os" "pending r = q"
    using k by (auto simp: listening_def)
  obtain r' h' a where g: "redisReaderGetReply r (k_heap k) = Some (REDIS_OK, r', h', a)"
    "on_heap F h' a (Complete v)" "idle r'" "r_reply r' = 0" "pending r' = q'" "r_fn r' = r_fn r"
    using default_GetReply [OF r(2,3)] A res r(4,5)
    by (auto simp: delivers_def out_of_memory_def may_fail_def)
  have "r_pos r' < 1024" using GetReply_pos [OF g(1)] resting_buf [OF r(3)] by simp
  moreover have "resting (on_heap (cells h')) r' h' (- 1) []"
    using g(3,4) complete_frame [OF g(2)] by (simp add: resting_def)
  moreover have "erase [] = []" by (simp add: erase_def)
  ultimately show ?thesis using k r g
    by (auto simp: redisGetReplyFromReader_def conn_defs)
qed

section \<open>Reading until there is a reply\<close>

text \<open>The stream that a script delivers, with interrupted calls in between.\<close>

fun incoming :: "recv_outcome list \<Rightarrow> bytes option" where
  "incoming [] = Some []"
| "incoming (Received bs # rest) = (if bs = [] then None else map_option ((@) bs) (incoming rest))"
| "incoming (RecvError e # rest) = (if e = EINTR then incoming rest else None)"

lemma os_recv_incoming:
  assumes "incoming (n_in n) = Some st" "n_in n \<noteq> []" "0 < cap"
  obtains (bytes) bs n' st' where "os_recv cap n = Some (Received bs, n')" "bs \<noteq> []" "length bs \<le> cap"
      "st = bs @ st'" "incoming (n_in n') = Some st'" "length (n_in n') \<le> length (n_in n)"
      "n_out n' = n_out n" "n_sent n' = n_sent n"
  | (again) n' where "os_recv cap n = Some (RecvError EINTR, n')" "incoming (n_in n') = Some st"
      "length (n_in n') < length (n_in n)" "n_out n' = n_out n" "n_sent n' = n_sent n"
proof (cases "n_in n")
  case (Cons x rest)
  show ?thesis
  proof (cases x)
    case (Received bs)
    with assms Cons obtain st' where st: "bs \<noteq> []" "incoming rest = Some st'" "st = bs @ st'"
      by (auto split: if_splits)
    show ?thesis
    proof (cases "length bs \<le> cap")
      case True
      with Cons Received st show ?thesis
        by (intro bytes [of bs "n\<lparr>n_in := rest\<rparr>" st']) (auto simp: os_recv_def)
    next
      case False
      with Cons Received st assms(3) show ?thesis
        by (intro bytes [of "take cap bs" "n\<lparr>n_in := Received (drop cap bs) # rest\<rparr>" "drop cap bs @ st'"])
          (auto simp: os_recv_def)
    qed
  next
    case (RecvError e)
    with assms Cons show ?thesis
      by (intro again [of "n\<lparr>n_in := rest, n_errno := EINTR\<rparr>"]) (auto simp: os_recv_def split: if_splits)
  qed
qed (use assms in simp)

lemma BufferRead_bytes:
  assumes k: "ready A F k ty os q out" and A: "\<And>n. grants A n"
    and recv: "os_recv (1024 * 16) (k_net k) = Some (Received bs, n')" "bs \<noteq> []"
    and len: "length q + length bs + 1024 < 2 ^ 31"
  shows "\<exists>k'. redisBufferRead A lc k = Some (REDIS_OK, k') \<and> listening A F k' ty os (q @ bs) out \<and>
    k_net k' = n' \<and> c_flags (k_ctx k') = c_flags (k_ctx k)"
proof -
  obtain r os0 where r: "c_reader (k_ctx k) = Ptr r" "r_fn r = Some (defaultFunctions A)"
    "resting (on_heap F) r (k_heap k) ty os0" "erase os0 = os" "pending r = q" "r_pos r < 1024"
    using k by (auto simp: conn_defs)
  have "buf_ok r" using resting_buf [OF r(3)] by simp
  then have "r_pos r + length q = r_len r" using r(5) by (auto elim: buf_okD)
  then have "r_len r + length bs < 2 ^ 31" using len r(6) by simp
  then obtain s p l where f: "redisReaderFeed A r (k_heap k) (Ptr bs) (length bs) =
      Some (REDIS_OK, r\<lparr>r_buf := s, r_pos := p, r_len := l\<rparr>, k_heap k)"
    "resting (on_heap F) (r\<lparr>r_buf := s, r_pos := p, r_len := l\<rparr>) (k_heap k) ty os0"
    "pending (r\<lparr>r_buf := s, r_pos := p, r_len := l\<rparr>) = pending r @ take (length bs) bs"
    using Feed_ok [OF r(3) order_refl _ A] by metis
  let ?r = "r\<lparr>r_buf := s, r_pos := p, r_len := l\<rparr>"
  let ?k = "k\<lparr>k_net := n', k_ctx := (k_ctx k)\<lparr>c_reader := Ptr ?r\<rparr>, k_heap := k_heap k\<rparr>"
  have e: "c_err (k_ctx k) = 0" "\<not> flag (k_ctx k) REDIS_SSL" using k by (auto simp: conn_defs)
  have "redisBufferRead A lc k = Some (REDIS_OK, ?k)"
    using recv r(1) f(1) e by (simp add: redisBufferRead_def redisNetRead_def)
  moreover have "listening A F ?k ty os (q @ bs) out"
    using k r f(2,3) by (auto simp: conn_defs)
  ultimately show ?thesis by (intro exI [of _ ?k]) simp
qed

lemma BufferRead_again:
  assumes "ready A F k ty os q out" "os_recv (1024 * 16) (k_net k) = Some (RecvError EINTR, n')"
  shows "redisBufferRead A lc k = Some (REDIS_OK, k\<lparr>k_net := n'\<rparr>)"
  using assms by (auto simp: redisBufferRead_def redisNetRead_def conn_defs)

lemma listening_net [simp]: "listening A F (k\<lparr>k_net := n\<rparr>) ty os q out = listening A F k ty os q out"
  by (simp add: listening_def)

text \<open>What a reply leaves: the reader is between two replies, with the rest of the stream to come.\<close>

definition replied :: "allocator \<Rightarrow> (addr \<Rightarrow> redisReply option) \<Rightarrow> conn \<Rightarrow> addr \<Rightarrow> resp \<Rightarrow> bytes \<Rightarrow> bytes \<Rightarrow>
    conn \<Rightarrow> bool" where
  "replied A F k0 a v rest out k \<longleftrightarrow> on_heap F (k_heap k) a (Complete v) \<and>
     (\<exists>q st. ready A (cells (k_heap k)) k (- 1) [] q out \<and> incoming (n_in (k_net k)) = Some st \<and>
       rest = q @ st) \<and>
     n_out (k_net k) = n_out (k_net k0) \<and> n_sent (k_net k) = n_sent (k_net k0) \<and>
     c_flags (k_ctx k) = c_flags (k_ctx k0)"

lemma read_until_reply_spec:
  assumes "ready A F k ty os q out" "\<And>n. grants A n" "incoming (n_in (k_net k)) = Some st"
    "parse ty q os = Waiting ty q os" "parse ty (q @ st) os = Parsed v rest"
    "length q + length st + 1024 < 2 ^ 31"
  shows "\<exists>a k'. read_until_reply A lc k = Some (REDIS_OK, a, k') \<and> replied A F k a v rest out k'"
  using assms(1,3-)
proof (induction "length st + length (n_in (k_net k))" arbitrary: k ty os q st rule: less_induct)
  case less
  note k = less(2) and inc = less(3) and wait = less(4) and res = less(5) and len = less(6)
  have ne: "n_in (k_net k) \<noteq> []"
  proof
    assume "n_in (k_net k) = []"
    with inc have "st = []" by simp
    with wait res show False by simp
  qed
  consider
    (bytes) bs n' st' where "os_recv (1024 * 16) (k_net k) = Some (Received bs, n')" "bs \<noteq> []"
      "st = bs @ st'" "incoming (n_in n') = Some st'" "length (n_in n') \<le> length (n_in (k_net k))"
      "n_out n' = n_out (k_net k)" "n_sent n' = n_sent (k_net k)"
  | (again) n' where "os_recv (1024 * 16) (k_net k) = Some (RecvError EINTR, n')"
      "incoming (n_in n') = Some st" "length (n_in n') < length (n_in (k_net k))"
      "n_out n' = n_out (k_net k)" "n_sent n' = n_sent (k_net k)"
  proof (rule os_recv_incoming [OF inc ne, of "1024 * 16"])
    show "(0::nat) < 1024 * 16" by simp
  qed (use that in blast)+
  then show ?case
  proof cases
    case again
    let ?k = "k\<lparr>k_net := n'\<rparr>"
    have "listening A F ?k ty os q out" using k by (simp add: ready_def)
    from reader_waits [OF this assms(2) wait, of lc] obtain k2 where k2:
      "redisGetReplyFromReader lc ?k = Some (REDIS_OK, 0, k2)" "ready A F k2 ty os q out"
      "k_net k2 = n'" "c_flags (k_ctx k2) = c_flags (k_ctx k)" by auto
    from less(1) [OF _ k2(2) _ wait res len] k2(3) again obtain a k' where
      "read_until_reply A lc k2 = Some (REDIS_OK, a, k')" "replied A F k2 a v rest out k'" by auto
    with k2 again BufferRead_again [OF k again(1), of lc] show ?thesis
      by (subst read_until_reply.simps) (auto simp: replied_def)
  next
    case bytes
    obtain k1 where k1: "redisBufferRead A lc k = Some (REDIS_OK, k1)"
      "listening A F k1 ty os (q @ bs) out" "k_net k1 = n'" "c_flags (k_ctx k1) = c_flags (k_ctx k)"
      using BufferRead_bytes [OF k assms(2) bytes(1,2), of lc] len bytes(3) by auto
    show ?thesis
    proof (cases "parse ty (q @ bs) os")
      case (Parsed w p)
      with res parse_append [where ty = ty and p = "q @ bs" and os = os and y = st'] bytes(3) have w: "w = v" "rest = p @ st'" by auto
      obtain a k2 where k2: "redisGetReplyFromReader lc k1 = Some (REDIS_OK, a, k2)"
        "on_heap F (k_heap k2) a (Complete v)" "ready A (cells (k_heap k2)) k2 (- 1) [] p out"
        "k_net k2 = n'" "c_flags (k_ctx k2) = c_flags (k_ctx k)"
        using reader_delivers [OF k1(2) assms(2) Parsed, of lc] k1(3,4) w by auto
      have "a \<noteq> 0" using complete_denotes(1) [OF k2(2)] .
      then have "read_until_reply A lc k = Some (REDIS_OK, a, k2)"
        using k1(1) k2(1) by (subst read_until_reply.simps) simp
      with k2 bytes w show ?thesis by (auto simp: replied_def)
    next
      case (Failure e)
      with res parse_append [where ty = ty and p = "q @ bs" and os = os and y = st'] bytes(3) show ?thesis by auto
    next
      case (Waiting ty' p os')
      with res parse_append [where ty = ty and p = "q @ bs" and os = os and y = st'] bytes(3)
      have res': "parse ty' (p @ st') os' = Parsed v rest" by auto
      obtain k2 where k2: "redisGetReplyFromReader lc k1 = Some (REDIS_OK, 0, k2)"
        "ready A F k2 ty' os' p out" "k_net k2 = n'" "c_flags (k_ctx k2) = c_flags (k_ctx k)"
        using reader_waits [OF k1(2) assms(2) Waiting, of lc] k1(3,4) by auto
      have "parse ty' p os' = Waiting ty' p os'"
        using parse_append [where ty = ty and p = "q @ bs" and os = os and y = "[]"] Waiting by simp
      moreover have "length p + length st' + 1024 < 2 ^ 31"
        using parse_Waiting_length [OF Waiting] len bytes(3) by simp
      moreover have "length st' + length (n_in (k_net k2)) < length st + length (n_in (k_net k))"
        using bytes(2,3,5) k2(3) by (cases bs) simp_all
      ultimately obtain a k' where
        "read_until_reply A lc k2 = Some (REDIS_OK, a, k')" "replied A F k2 a v rest out k'"
        using less(1) [OF _ k2(2) _ _ res'] k2(3) bytes(4) by metis
      with k1(1) k2 bytes show ?thesis
        by (subst read_until_reply.simps) (auto simp: replied_def)
    qed
  qed
qed

section \<open>Writing until done\<close>

text \<open>A script by which the kernel accepts \<^theory_text>\<open>n\<close> bytes, in pieces of any size.\<close>

fun accepts :: "send_outcome list \<Rightarrow> nat \<Rightarrow> bool" where
  "accepts [] n = (n = 0)"
| "accepts (Accepted m # rest) n = (n \<le> m \<or> accepts rest (n - m))"
| "accepts (SendError e # rest) n = (n = 0)"

text \<open>What is left of the script when \<^theory_text>\<open>n\<close> bytes were accepted.\<close>

fun unsent :: "send_outcome list \<Rightarrow> nat \<Rightarrow> send_outcome list" where
  "unsent (Accepted m # rest) n = (if n = 0 then Accepted m # rest else if n \<le> m then rest else unsent rest (n - m))"
| "unsent xs n = xs"

lemma unsent_0 [simp]: "unsent xs 0 = xs"
  by (induction xs "0::nat" rule: unsent.induct) simp_all

lemma slice_drop: "m < length xs \<Longrightarrow> slice xs (int m) (- 1) = drop m xs"
  by (simp add: slice_def Let_def)

text \<open>
  One successful write: what is sent and what is left in the buffer together are what was to be
  sent before.
\<close>

lemma BufferWrite_accepted:
  assumes k: "listening A F k ty os q out" and A: "\<And>n. grants A n"
    and out: "out \<noteq> []" "length out < 0x7ffff000" and net: "n_out (k_net k) = Accepted m # rest"
  shows "\<exists>k'. redisBufferWrite A lc k = Some (REDIS_OK, Some (length out \<le> m), k') \<and>
    listening A F k' ty os q (drop m out) \<and> n_sent (k_net k') = n_sent (k_net k) @ take m out \<and>
    n_out (k_net k') = rest \<and> n_in (k_net k') = n_in (k_net k) \<and>
    c_flags (k_ctx k') = c_flags (k_ctx k) \<and> c_reader (k_ctx k') = c_reader (k_ctx k)"
proof -
  obtain s where s: "c_obuf (k_ctx k) = Ptr s" "sds_ok s" "sds_str s = out"
    using k by (auto simp: conn_defs)
  have e: "c_err (k_ctx k) = 0" "\<not> flag (k_ctx k) REDIS_SSL" using k by (auto simp: conn_defs)
  have len: "sdslen s = length out" using length_sds_str [OF s(2)] s(3) by simp
  let ?m = "min m (length out)"
  let ?n = "(k_net k)\<lparr>n_out := rest, n_sent := n_sent (k_net k) @ take m out\<rparr>"
  have read: "mem_read (buf s) 0 (length out) = Some out"
    using sds_okD [OF s(2)] s(3) len by (auto simp: mem_read_def sds_str_def)
  have w: "redisNetWrite lc k = Some (int ?m, k\<lparr>k_net := ?n\<rparr>)"
    using s len read out net by (simp add: redisNetWrite_def os_send_def min_def)
  have n: "n_sent ?n = n_sent (k_net k) @ take m out" "n_out ?n = rest" "n_in ?n = n_in (k_net k)"
    by simp_all
  define ob where "ob = (if int ?m > 0 then
      if int ?m = to_int (int (sdslen s))
      then do { _ \<leftarrow> sdsfree (Ptr s); sdsempty A }
      else do { s \<leftarrow> sdsrange s (int ?m) (- 1); Some (Ptr s) }
    else Some (Ptr s))"
  have bw: "redisBufferWrite A lc k = do { ob \<leftarrow> ob; s \<leftarrow> deref ob; Some (REDIS_OK, Some (sdslen s = 0),
      k\<lparr>k_net := ?n, k_ctx := (k_ctx k)\<lparr>c_obuf := ob\<rparr>\<rparr>) }"
    using s(1) len e w out(1) by (simp add: redisBufferWrite_def ob_def)
  have goal: ?thesis if "ob = Some (Ptr s')" "sds_ok s'" "sds_str s' = drop m out" for s'
  proof -
    have "sdslen s' = 0 \<longleftrightarrow> length out \<le> m"
      unfolding length_sds_str [OF that(2), symmetric] that(3) by simp
    with that k n bw show ?thesis
      by (intro exI [of _ "k\<lparr>k_net := ?n, k_ctx := (k_ctx k)\<lparr>c_obuf := Ptr s'\<rparr>\<rparr>"])
        (simp add: listening_def flag_def)
  qed
  have int: "to_int (int (sdslen s)) = int (length out)" using out(2) len by (simp add: to_int_nat)
  consider "length out \<le> m" | "0 < m" "m < length out" | "m = 0" by linarith
  then show ?thesis
  proof cases
    case 1
    obtain s' where s': "sdsempty A = Some (Ptr s')" "sds_ok s'" "sds_str s' = []"
      using sdsempty_granted [OF A] by blast
    with 1 int out(1) show ?thesis by (intro goal [of s']) (auto simp: ob_def sdsfree_def)
  next
    case 2
    obtain s' where s': "sdsrange s (int m) (- 1) = Some s'" "sds_ok s'" "sds_str s' = slice out (int m) (- 1)"
      using sdsrange_spec [OF s(2), of "int m" "- 1"] len out(2) 2 s(3) by auto
    with 2 int show ?thesis by (intro goal [of s']) (simp_all add: ob_def slice_drop)
  next
    case 3
    with s show ?thesis by (intro goal [of s]) (simp_all add: ob_def)
  qed
qed

lemma write_until_done_empty:
  assumes "listening A F k ty os q []"
  shows "write_until_done A lc k = Some (REDIS_OK, k)"
proof -
  obtain s where s: "c_obuf (k_ctx k) = Ptr s" "sds_ok s" "sds_str s = []" "c_err (k_ctx k) = 0"
    using assms by (auto simp: conn_defs)
  with length_sds_str [OF s(2)] show ?thesis
    by (subst write_until_done.simps) (simp add: redisBufferWrite_def)
qed

lemma write_until_done_spec:
  assumes "listening A F k ty os q out" "\<And>n. grants A n" "length out < 0x7ffff000"
    "accepts (n_out (k_net k)) (length out)"
  shows "\<exists>k'. write_until_done A lc k = Some (REDIS_OK, k') \<and> listening A F k' ty os q [] \<and>
    n_sent (k_net k') = n_sent (k_net k) @ out \<and> n_in (k_net k') = n_in (k_net k) \<and>
    c_flags (k_ctx k') = c_flags (k_ctx k) \<and> c_reader (k_ctx k') = c_reader (k_ctx k) \<and>
    n_out (k_net k') = unsent (n_out (k_net k)) (length out)"
  using assms(1,3,4)
proof (induction "n_out (k_net k)" arbitrary: k out)
  case Nil
  then have "out = []" by (metis accepts.simps(1) length_0_conv)
  with Nil write_until_done_empty [of A F k ty os q lc] show ?case by auto
next
  case (Cons x rest)
  show ?case
  proof (cases "out = []")
    case True
    with Cons write_until_done_empty [of A F k ty os q lc] show ?thesis by auto
  next
    case False' [simp]: False
    with Cons(2,5) obtain m where x: "x = Accepted m" "length out \<le> m \<or> accepts rest (length out - m)"
      by (cases x) (auto simp flip: Cons(2))
    obtain k1 where k1: "redisBufferWrite A lc k = Some (REDIS_OK, Some (length out \<le> m), k1)"
      "listening A F k1 ty os q (drop m out)" "n_sent (k_net k1) = n_sent (k_net k) @ take m out"
      "n_out (k_net k1) = rest" "n_in (k_net k1) = n_in (k_net k)" "c_flags (k_ctx k1) = c_flags (k_ctx k)"
      "c_reader (k_ctx k1) = c_reader (k_ctx k)"
      using BufferWrite_accepted [OF Cons(3) assms(2) False' Cons(4), of m rest lc] Cons(2) x(1) by auto
    show ?thesis
    proof (cases "length out \<le> m")
      case True
      with k1 False' x(1) Cons(2) show ?thesis by (subst write_until_done.simps) (auto simp flip: Cons(2))
    next
      case False
      have "length (drop m out) < 0x7ffff000" using Cons(4) by simp
      with Cons(1) [of k1 "drop m out"] k1 x(2) False obtain k2 where
        "write_until_done A lc k1 = Some (REDIS_OK, k2)" "listening A F k2 ty os q []"
        "n_sent (k_net k2) = n_sent (k_net k1) @ drop m out" "n_in (k_net k2) = n_in (k_net k1)"
        "c_flags (k_ctx k2) = c_flags (k_ctx k1)" "c_reader (k_ctx k2) = c_reader (k_ctx k1)"
        "n_out (k_net k2) = unsent rest (length out - m)" by auto
      with k1 False x(1) show ?thesis by (subst write_until_done.simps) (auto simp flip: Cons(2))
    qed
  qed
qed

section \<open>Commands and their replies\<close>

lemma map_le_hcat: "\<forall>a\<ge>b. F a = None \<Longrightarrow> F \<subseteq>\<^sub>m hcat F b L"
  by (auto simp: map_le_def hcat_def)

text \<open>A reply on the heap stays what it is when later ones are added.\<close>

lemma complete_extends: "on_heap F h a (Complete v) \<Longrightarrow> F \<subseteq>\<^sub>m cells h"
  by (auto simp: on_heap_def intro: map_le_hcat)

lemma denotes_extends: "m \<subseteq>\<^sub>m m' \<Longrightarrow> denotes m a v \<Longrightarrow> denotes m' a v"
proof (induction v arbitrary: a)
  case (RArr vs)
  then obtain c where c: "m a = Some c" "rep_type c = REDIS_REPLY_ARRAY"
    "rep_elements c = length vs" "case rep_element c of Ptr es \<Rightarrow> list_all2 (denotes m) es vs | _ \<Rightarrow> vs = []"
    by (auto split: option.splits)
  moreover have "m' a = Some c" using RArr(2) c(1) by (metis domI map_le_def)
  ultimately show ?case using RArr(1,2)
    by (cases "rep_element c") (auto elim!: list.rel_mono_strong)
qed (auto simp: map_le_def dom_def split: option.splits)

lemma accepts_0 [simp]: "accepts s 0"
  by (induction s "0::nat" rule: accepts.induct) simp_all

lemma replied_ready:
  assumes "replied A F k a v rest out k'"
  obtains q st where "ready A (cells (k_heap k')) k' (- 1) [] q out" "incoming (n_in (k_net k')) = Some st"
    "rest = q @ st" "denotes (cells (k_heap k')) a v" "F \<subseteq>\<^sub>m cells (k_heap k')"
  using assms complete_denotes(2) complete_extends by (auto simp: replied_def)

text \<open>
  \<^verbatim>\<open>redisGetReply\<close>: \<^theory_text>\<open>q\<close> are the bytes that were read before, \<^theory_text>\<open>st\<close> the bytes to come. When the
  reply is among \<^theory_text>\<open>q\<close> nothing is sent or read.
\<close>

lemma redisGetReply_spec:
  assumes k: "ready A F k ty os q out" and blk: "flag (k_ctx k) REDIS_BLOCK"
    and A: "\<And>n. grants A n" and out: "length out < 0x7ffff000" "accepts (n_out (k_net k)) (length out)"
    and inc: "incoming (n_in (k_net k)) = Some st" and res: "parse ty (q @ st) os = Parsed v rest"
    and len: "length q + length st + 1024 < 2 ^ 31"
  shows "\<exists>a k' out'. redisGetReply A lc k = Some (REDIS_OK, a, k') \<and>
    on_heap F (k_heap k') a (Complete v) \<and>
    (\<exists>q' st'. ready A (cells (k_heap k')) k' (- 1) [] q' out' \<and> incoming (n_in (k_net k')) = Some st' \<and>
       rest = q' @ st') \<and>
    c_flags (k_ctx k') = c_flags (k_ctx k) \<and>
    n_sent (k_net k') @ out' = n_sent (k_net k) @ out \<and>
    length out' \<le> length out \<and> accepts (n_out (k_net k')) (length out') \<and>
    n_out (k_net k') = unsent (n_out (k_net k)) (length out - length out') \<and>
    ((\<forall>w y. parse ty q os \<noteq> Parsed w y) \<longrightarrow> out' = [])"
proof (cases "parse ty q os")
  case (Parsed w y)
  with res parse_append [where ty = ty and p = q and os = os and y = st] have w: "w = v" "rest = y @ st" by auto
  have "listening A F k ty os q out" using k by (simp add: ready_def)
  from reader_delivers [OF this A Parsed, of lc] w obtain a k' where k':
    "redisGetReplyFromReader lc k = Some (REDIS_OK, a, k')" "on_heap F (k_heap k') a (Complete v)"
    "ready A (cells (k_heap k')) k' (- 1) [] y out" "k_net k' = k_net k" "c_flags (k_ctx k') = c_flags (k_ctx k)"
    by auto
  with complete_denotes(1) [OF k'(2)] inc w Parsed out(2) show ?thesis
    by (intro exI [of _ a] exI [of _ k'] exI [of _ out]) (auto simp: redisGetReply_def)
next
  case (Failure e)
  with res parse_append [where ty = ty and p = q and os = os and y = st] show ?thesis by auto
next
  case (Waiting ty' p os')
  note app = parse_append [where ty = ty and p = q and os = os]
  have res': "parse ty' (p @ st) os' = Parsed v rest" using res app [of st] Waiting by simp
  have idem: "parse ty' p os' = Waiting ty' p os'" using app [of "[]"] Waiting by simp
  have "listening A F k ty os q out" using k by (simp add: ready_def)
  from reader_waits [OF this A Waiting, of lc] obtain k1 where k1:
    "redisGetReplyFromReader lc k = Some (REDIS_OK, 0, k1)" "ready A F k1 ty' os' p out"
    "k_net k1 = k_net k" "c_flags (k_ctx k1) = c_flags (k_ctx k)" by auto
  have "listening A F k1 ty' os' p out" using k1(2) by (simp add: ready_def)
  from write_until_done_spec [OF this A out(1), of lc] out(2) k1(3) obtain k2 where k2:
    "write_until_done A lc k1 = Some (REDIS_OK, k2)" "listening A F k2 ty' os' p []"
    "n_sent (k_net k2) = n_sent (k_net k) @ out" "n_in (k_net k2) = n_in (k_net k)"
    "c_flags (k_ctx k2) = c_flags (k_ctx k1)" "c_reader (k_ctx k2) = c_reader (k_ctx k1)"
    "n_out (k_net k2) = unsent (n_out (k_net k)) (length out)" by auto
  have "ready A F k2 ty' os' p []" using k1(2) k2(2,6) by (simp add: ready_def)
  moreover have "length p + length st + 1024 < 2 ^ 31" using parse_Waiting_length [OF Waiting] len by simp
  ultimately obtain a k' where k': "read_until_reply A lc k2 = Some (REDIS_OK, a, k')"
    "replied A F k2 a v rest [] k'"
    using read_until_reply_spec [OF _ A _ idem res', of F k2 "[]" lc] inc k2(4) by auto
  have "flag (k_ctx k1) REDIS_BLOCK" using blk k1(4) by (simp add: flag_def)
  then have "redisGetReply A lc k = Some (REDIS_OK, a, k')"
    using k1(1) k2(1) k'(1) by (simp add: redisGetReply_def)
  with k' k1 k2 Waiting show ?thesis
    by (intro exI [of _ a] exI [of _ k'] exI [of _ "[]"]) (auto simp: replied_def)
qed


lemma appendCommand_spec:
  assumes k: "listening A F k ty os q out" and A: "\<And>n. grants A n"
    and len: "n \<le> length cmd" "length out + n < 2 ^ 63"
  shows "\<exists>s. appendCommand A lc k cmd n = Some (REDIS_OK, k\<lparr>k_ctx := (k_ctx k)\<lparr>c_obuf := Ptr s\<rparr>\<rparr>) \<and>
    sds_ok s \<and> sds_str s = out @ take n cmd"
proof -
  obtain s where s: "c_obuf (k_ctx k) = Ptr s" "sds_ok s" "sds_str s = out" using k by (auto simp: conn_defs)
  then have "sdslen s + n < 2 ^ 63" using len(2) length_sds_str [OF s(2)] by simp
  note small = this
  show ?thesis
  proof (cases rule: sdscatlen_cases [OF s(2) len(1) small, of A, case_names app oom])
    case (app s')
    with s show ?thesis by (auto simp: appendCommand_def)
  next
    case (oom p)
    with sdscatlen_granted [OF s(2) len(1) small A] show ?thesis by auto
  qed
qed

lemma listening_obuf:
  "listening A F k ty os q out \<Longrightarrow> sds_ok s \<Longrightarrow>
   listening A F (k\<lparr>k_ctx := (k_ctx k)\<lparr>c_obuf := Ptr s\<rparr>\<rparr>) ty os q (sds_str s)"
  by (auto simp: conn_defs)

lemma ready_obuf:
  "ready A F k ty os q out \<Longrightarrow> sds_ok s \<Longrightarrow>
   ready A F (k\<lparr>k_ctx := (k_ctx k)\<lparr>c_obuf := Ptr s\<rparr>\<rparr>) ty os q (sds_str s)"
  using listening_obuf [of A F k ty os q out s] by (simp add: ready_def)

lemma redisAppendCommandArgv_spec:
  assumes k: "ready A F k ty os q out" and A: "\<And>n. grants A n" and v: "vector argv argvlen args"
    and len: "length (command args) < 2 ^ 31" "length out < 2 ^ 31"
  shows "\<exists>s. redisAppendCommandArgv A lc k (int (length args)) argv argvlen =
      Some (REDIS_OK, k\<lparr>k_ctx := (k_ctx k)\<lparr>c_obuf := Ptr s\<rparr>\<rparr>) \<and>
    sds_ok s \<and> sds_str s = out @ command args"
proof -
  obtain c where c: "redisFormatSdsCommandArgv A True (int (length args)) argv argvlen =
      Some (int (length (command args)), Ptr c)" "sds_ok c" "sds_str c = command args"
    using redisFormatSdsCommandArgv_spec [OF v len(1) A] by blast
  have n: "sdslen c = length (command args)" using length_sds_str [OF c(2)] c(3) by simp
  have buf: "length (command args) \<le> length (buf c)" "take (length (command args)) (buf c) = command args"
    using sds_okD(3) [OF c(2)] c(3) n by (auto simp: sds_str_def)
  have l: "listening A F k ty os q out" using k by (simp add: ready_def)
  have "length out + length (command args) < 2 ^ 63" using len by simp
  from appendCommand_spec [OF l A buf(1) this, of lc] buf(2) obtain s where s:
    "appendCommand A lc k (buf c) (length (command args)) =
      Some (REDIS_OK, k\<lparr>k_ctx := (k_ctx k)\<lparr>c_obuf := Ptr s\<rparr>\<rparr>)" "sds_ok s" "sds_str s = out @ command args"
    by auto
  have "nat (int (length (command args)) mod 2 ^ 64) = length (command args)" using len(1) by simp
  with c(1) s show ?thesis by (auto simp: redisAppendCommandArgv_def sdsfree_def)
qed

lemma redisvAppendCommand_spec:
  assumes k: "ready A F k ty os q out" and A: "\<And>n. grants A n" and ps: "pieces pf fmt ap = Some ps"
    and len: "length (command (format_words None ps)) < 2 ^ 31 - 1" "length out < 2 ^ 31"
  shows "\<exists>s. redisvAppendCommand A lc pf k fmt ap =
      Some (REDIS_OK, k\<lparr>k_ctx := (k_ctx k)\<lparr>c_obuf := Ptr s\<rparr>\<rparr>) \<and>
    sds_ok s \<and> sds_str s = out @ command (format_words None ps)"
proof -
  let ?c = "command (format_words None ps)"
  have l: "listening A F k ty os q out" using k by (simp add: ready_def)
  have "length out + length ?c < 2 ^ 63" "length ?c \<le> length (?c @ [NUL])" using len by simp_all
  from appendCommand_spec [OF l A this(2,1), of lc] obtain s where s:
    "appendCommand A lc k (?c @ [NUL]) (length ?c) =
      Some (REDIS_OK, k\<lparr>k_ctx := (k_ctx k)\<lparr>c_obuf := Ptr s\<rparr>\<rparr>)" "sds_ok s" "sds_str s = out @ ?c"
    by auto
  have "nat (int (length ?c) mod 2 ^ 64) = length ?c" using len(1) by simp
  with redisvFormatCommand_spec [OF ps len(1) A] s show ?thesis
    by (auto simp: redisvAppendCommand_def)
qed

text \<open>\<^verbatim>\<open>redisCommandArgv\<close>: the command goes behind what is still to be sent, and the reply is the next
  one of the stream.\<close>

lemma redisCommandArgv_spec:
  assumes k: "ready A F k (- 1) [] q out" and blk: "flag (k_ctx k) REDIS_BLOCK" and A: "\<And>n. grants A n"
    and v: "vector argv argvlen args" and len: "length (out @ command args) < 0x7ffff000"
    and acc: "accepts (n_out (k_net k)) (length (out @ command args))"
    and inc: "incoming (n_in (k_net k)) = Some st" "q @ st = encode v @ rest" and ok: "resp_ok 0 v"
    and small: "length (q @ st) + 1024 < 2 ^ 31"
  shows "\<exists>a k' out'. redisCommandArgv A lc k (int (length args)) argv argvlen = Some (a, k') \<and>
    on_heap F (k_heap k') a (Complete v) \<and>
    (\<exists>q' st'. ready A (cells (k_heap k')) k' (- 1) [] q' out' \<and> incoming (n_in (k_net k')) = Some st' \<and>
       rest = q' @ st') \<and>
    c_flags (k_ctx k') = c_flags (k_ctx k) \<and>
    n_sent (k_net k') @ out' = n_sent (k_net k) @ out @ command args \<and>
    length out' \<le> length (out @ command args) \<and>
    n_out (k_net k') = unsent (n_out (k_net k)) (length (out @ command args) - length out') \<and>
    (q = [] \<longrightarrow> out' = [])"
proof -
  obtain s where s: "redisAppendCommandArgv A lc k (int (length args)) argv argvlen =
      Some (REDIS_OK, k\<lparr>k_ctx := (k_ctx k)\<lparr>c_obuf := Ptr s\<rparr>\<rparr>)" "sds_ok s" "sds_str s = out @ command args"
    using redisAppendCommandArgv_spec [OF k A v, of lc] len by auto
  let ?k = "k\<lparr>k_ctx := (k_ctx k)\<lparr>c_obuf := Ptr s\<rparr>\<rparr>"
  have r: "ready A F ?k (- 1) [] q (out @ command args)" using ready_obuf [OF k s(2)] s(3) by simp
  have b: "flag (k_ctx ?k) REDIS_BLOCK" using blk by (simp add: flag_def)
  have p: "parse (- 1) (q @ st) [] = Parsed v rest"
    using parse_encode [of "[]" v rest] ok inc(2) by (simp add: continue_def)
  have e: "parse (- 1) [] [] \<noteq> Parsed w y" for w y by (subst parse.simps) (simp add: item_def)
  have n: "incoming (n_in (k_net ?k)) = Some st" "accepts (n_out (k_net ?k)) (length (out @ command args))"
    "length q + length st + 1024 < 2 ^ 31"
    using inc(1) acc small by simp_all
  note g = redisGetReply_spec [OF r b A len n(2,1) p n(3), of lc]
  obtain a k' out' where k': "redisGetReply A lc ?k = Some (REDIS_OK, a, k')"
    "on_heap F (k_heap k') a (Complete v)"
    "\<exists>q' st'. ready A (cells (k_heap k')) k' (- 1) [] q' out' \<and> incoming (n_in (k_net k')) = Some st' \<and> rest = q' @ st'"
    "c_flags (k_ctx k') = c_flags (k_ctx k)" "n_sent (k_net k') @ out' = n_sent (k_net k) @ out @ command args"
    "length out' \<le> length (out @ command args)"
    "n_out (k_net k') = unsent (n_out (k_net k)) (length (out @ command args) - length out')"
    "(\<forall>w y. parse (- 1) q [] \<noteq> Parsed w y) \<longrightarrow> out' = []"
    using g by (elim exE conjE) (rule that; (assumption | simp))
  have o: "q = [] \<longrightarrow> out' = []" using k'(8) e by blast
  from s(1) k'(1) b have "redisCommandArgv A lc k (int (length args)) argv argvlen = Some (a, k')"
    by (simp add: redisCommandArgv_def redisBlockForReply_def)
  with k'(2-7) o show ?thesis
    by (rule_tac x = a in exI, rule_tac x = k' in exI, rule_tac x = out' in exI, intro conjI) assumption+
qed

text \<open>A reply that arrives by itself is read to its end, and nothing of what comes behind it.\<close>

lemma read_one_reply:
  assumes "ready A F k (- 1) [] [] out" "\<And>n. grants A n" "n_in (k_net k) = Received (encode v) # ins"
    "length (encode v) \<le> 1024 * 16" "resp_ok 0 v"
  shows "\<exists>a k'. read_until_reply A lc k = Some (REDIS_OK, a, k') \<and> n_in (k_net k') = ins"
proof -
  have p: "parse (- 1) ([] @ encode v) [] = Parsed v []" and ne: "encode v \<noteq> []"
    using parse_encode [of "[]" v "[]"] assms(5) by (cases v; simp add: continue_def)+
  have recv: "os_recv (1024 * 16) (k_net k) = Some (Received (encode v), (k_net k)\<lparr>n_in := ins\<rparr>)"
    using assms(3,4) by (simp add: os_recv_def)
  obtain k1 where k1: "redisBufferRead A lc k = Some (REDIS_OK, k1)" "listening A F k1 (- 1) [] ([] @ encode v) out"
    "k_net k1 = (k_net k)\<lparr>n_in := ins\<rparr>"
    using BufferRead_bytes [OF assms(1,2) recv ne, of lc] assms(4) by auto
  obtain a k2 where k2: "redisGetReplyFromReader lc k1 = Some (REDIS_OK, a, k2)" "on_heap F (k_heap k2) a (Complete v)"
    "k_net k2 = k_net k1"
    using reader_delivers [OF k1(2) assms(2) p, of lc] by blast
  have "a \<noteq> 0" using complete_denotes(1) [OF k2(2)] .
  then have "read_until_reply A lc k = Some (REDIS_OK, a, k2)"
    using k1(1) k2(1) by (subst read_until_reply.simps) simp
  with k1(3) k2(3) show ?thesis by simp
qed

lemma redisGetReply_one:
  assumes k: "ready A F k (- 1) [] [] out" and blk: "flag (k_ctx k) REDIS_BLOCK"
    and A: "\<And>n. grants A n" and out: "length out < 0x7ffff000" "accepts (n_out (k_net k)) (length out)"
    and ins: "n_in (k_net k) = Received (encode v) # ins" "length (encode v) \<le> 1024 * 16" "resp_ok 0 v"
  shows "\<exists>a k'. redisGetReply A lc k = Some (REDIS_OK, a, k') \<and> n_in (k_net k') = ins"
proof -
  have w: "parse (- 1) [] [] = Waiting (- 1) [] []" by (subst parse.simps) (simp add: item_def)
  have "listening A F k (- 1) [] [] out" using k by (simp add: ready_def)
  from reader_waits [OF this A w, of lc] obtain k1 where k1:
    "redisGetReplyFromReader lc k = Some (REDIS_OK, 0, k1)" "ready A F k1 (- 1) [] [] out"
    "k_net k1 = k_net k" "c_flags (k_ctx k1) = c_flags (k_ctx k)" by auto
  have "listening A F k1 (- 1) [] [] out" using k1(2) by (simp add: ready_def)
  from write_until_done_spec [OF this A out(1), of lc] out(2) k1(3) obtain k2 where k2:
    "write_until_done A lc k1 = Some (REDIS_OK, k2)" "listening A F k2 (- 1) [] [] []"
    "n_in (k_net k2) = n_in (k_net k)" "c_reader (k_ctx k2) = c_reader (k_ctx k1)" by auto
  have "ready A F k2 (- 1) [] [] []" using k1(2) k2(2,4) by (simp add: ready_def)
  from read_one_reply [OF this A, of v ins lc] k2(3) ins obtain a k' where
    "read_until_reply A lc k2 = Some (REDIS_OK, a, k')" "n_in (k_net k') = ins" by auto
  moreover have "flag (k_ctx k1) REDIS_BLOCK" using blk k1(4) by (simp add: flag_def)
  ultimately show ?thesis using k1(1) k2(1) by (simp add: redisGetReply_def)
qed

lemma redisCommandArgv_one:
  assumes k: "ready A F k (- 1) [] [] out" and blk: "flag (k_ctx k) REDIS_BLOCK" and A: "\<And>n. grants A n"
    and v: "vector argv argvlen args" and len: "length (out @ command args) < 0x7ffff000"
    and acc: "accepts (n_out (k_net k)) (length (out @ command args))"
    and ins: "n_in (k_net k) = Received (encode v) # ins" "length (encode v) \<le> 1024 * 16" "resp_ok 0 v"
  shows "\<exists>a k'. redisCommandArgv A lc k (int (length args)) argv argvlen = Some (a, k') \<and> n_in (k_net k') = ins"
proof -
  obtain s where s: "redisAppendCommandArgv A lc k (int (length args)) argv argvlen =
      Some (REDIS_OK, k\<lparr>k_ctx := (k_ctx k)\<lparr>c_obuf := Ptr s\<rparr>\<rparr>)" "sds_ok s" "sds_str s = out @ command args"
    using redisAppendCommandArgv_spec [OF k A v, of lc] len by auto
  let ?k = "k\<lparr>k_ctx := (k_ctx k)\<lparr>c_obuf := Ptr s\<rparr>\<rparr>"
  have r: "ready A F ?k (- 1) [] [] (out @ command args)" using ready_obuf [OF k s(2)] s(3) by simp
  have b: "flag (k_ctx ?k) REDIS_BLOCK" using blk by (simp add: flag_def)
  from redisGetReply_one [OF r b A len _ _ ins(2,3), of ins lc] acc ins(1) s(1) b show ?thesis
    by (auto simp: redisCommandArgv_def redisBlockForReply_def)
qed

text \<open>A context whose replies are all freed is one over the frame again.\<close>

lemma listening_frame:
  assumes "listening A G k (- 1) [] q out" "on_heap F h 0 (Building [])"
  shows "listening A F (k\<lparr>k_heap := h\<rparr>) (- 1) [] q out"
proof -
  have "resting (on_heap F) r h (- 1) []" if "resting (on_heap G) r (k_heap k) (- 1) []" for r
    using that assms(2) by (auto simp: resting_def on_heap_def)
  moreover have "os = []" if "erase os = []" for os :: "addr opens"
    using that by (cases os) (auto simp: erase_def)
  ultimately show ?thesis using assms(1) by (fastforce simp: listening_def flag_def)
qed

section \<open>Many replies\<close>

text \<open>A client that asks for \<^theory_text>\<open>n\<close> replies, one after the other.\<close>

primrec get_replies :: "allocator \<Rightarrow> libc \<Rightarrow> nat \<Rightarrow> conn \<Rightarrow> (addr list \<times> conn) option" where
  "get_replies A lc 0 k = Some ([], k)"
| "get_replies A lc (Suc n) k = do {
     (rc, a, k) \<leftarrow> redisGetReply A lc k;
     if rc \<noteq> REDIS_OK then None
     else do {
       (as, k) \<leftarrow> get_replies A lc n k;
       Some (a # as, k)
     }
   }"

lemma get_replies_spec:
  assumes "ready A F k (- 1) [] q out" "flag (k_ctx k) REDIS_BLOCK" "\<And>n. grants A n"
    "length out < 0x7ffff000" "accepts (n_out (k_net k)) (length out)"
    "incoming (n_in (k_net k)) = Some st" "q @ st = concat (map encode vs) @ rest"
    "list_all (resp_ok 0) vs" "length (q @ st) + 1024 < 2 ^ 31"
  shows "\<exists>as k' out'. get_replies A lc (length vs) k = Some (as, k') \<and>
    list_all2 (denotes (cells (k_heap k'))) as vs \<and> F \<subseteq>\<^sub>m cells (k_heap k') \<and>
    (\<exists>q' st'. ready A (cells (k_heap k')) k' (- 1) [] q' out' \<and> incoming (n_in (k_net k')) = Some st' \<and>
       rest = q' @ st') \<and> n_sent (k_net k') @ out' = n_sent (k_net k) @ out"
  using assms(1,2,4-)
proof (induction vs arbitrary: F k q out st)
  case Nil
  then have "F = cells (k_heap k)"
    by (auto simp: conn_defs resting_def on_heap_def erase_def)
  with Nil show ?case by auto
next
  case (Cons v vs)
  have "parse (- 1) (q @ st) [] = Parsed v (concat (map encode vs) @ rest)"
    using parse_encode [of "[]" v "concat (map encode vs) @ rest"] Cons.prems(6,7) by (simp add: continue_def)
  moreover have "length q + length st + 1024 < 2 ^ 31" using Cons.prems(8) by simp
  ultimately
  obtain a k1 out1 q1 st1 where k1: "redisGetReply A lc k = Some (REDIS_OK, a, k1)"
    "on_heap F (k_heap k1) a (Complete v)" "ready A (cells (k_heap k1)) k1 (- 1) [] q1 out1"
    "incoming (n_in (k_net k1)) = Some st1" "concat (map encode vs) @ rest = q1 @ st1"
    "c_flags (k_ctx k1) = c_flags (k_ctx k)" "n_sent (k_net k1) @ out1 = n_sent (k_net k) @ out"
    "length out1 \<le> length out" "accepts (n_out (k_net k1)) (length out1)"
    using redisGetReply_spec [OF Cons.prems(1,2) assms(3) Cons.prems(3-5), of v "concat (map encode vs) @ rest" lc]
    by blast
  have "flag (k_ctx k1) REDIS_BLOCK" using Cons.prems(2) k1(6) by (simp add: flag_def)
  moreover have "length (q1 @ st1) + 1024 < 2 ^ 31"
    using Cons.prems(6,8) unfolding k1(5) [symmetric] by simp
  ultimately obtain as k2 out2 q2 st2 where k2: "get_replies A lc (length vs) k1 = Some (as, k2)"
    "list_all2 (denotes (cells (k_heap k2))) as vs" "cells (k_heap k1) \<subseteq>\<^sub>m cells (k_heap k2)"
    "ready A (cells (k_heap k2)) k2 (- 1) [] q2 out2" "incoming (n_in (k_net k2)) = Some st2" "rest = q2 @ st2"
    "n_sent (k_net k2) @ out2 = n_sent (k_net k1) @ out1"
    using Cons.IH [OF k1(3) _ _ k1(9,4) k1(5) [symmetric]] Cons.prems(3,7) k1(8) by auto
  have "denotes (cells (k_heap k2)) a v"
    using denotes_extends [OF k2(3) complete_denotes(2) [OF k1(2)]] .
  moreover have "F \<subseteq>\<^sub>m cells (k_heap k2)" using map_le_trans [OF complete_extends [OF k1(2)] k2(3)] .
  ultimately show ?case using k1 k2 by auto
qed

text \<open>A write that the kernel interrupts, or refuses for now on a non-blocking socket, is
  reported as a failure without an error: \<^verbatim>\<open>redisBufferWrite\<close> returns \<^verbatim>\<open>REDIS_ERR\<close>, the context
  has no error, and nothing was sent. The code means to try again.\<close>

lemma BufferWrite_again:
  assumes "listening A F k ty os q out" "out \<noteq> []" "n_out (k_net k) = SendError e # outs"
    "e = EINTR \<or> e = EWOULDBLOCK \<and> \<not> flag (k_ctx k) REDIS_BLOCK"
  shows "\<exists>k'. redisBufferWrite A lc k = Some (REDIS_ERR, None, k') \<and> c_err (k_ctx k') = 0 \<and>
    listening A F k' ty os q out \<and> n_sent (k_net k') = n_sent (k_net k)"
proof -
  obtain s where s: "c_obuf (k_ctx k) = Ptr s" "sds_ok s" "sds_str s = out" "c_err (k_ctx k) = 0"
    "\<not> flag (k_ctx k) REDIS_SSL"
    using assms(1) by (auto simp: conn_defs)
  let ?k = "k\<lparr>k_net := (k_net k)\<lparr>n_out := outs, n_errno := e\<rparr>\<rparr>"
  have len: "sdslen s = length out" using length_sds_str [OF s(2)] s(3) by simp
  have "mem_read (buf s) 0 (length out) = Some out"
    using sds_okD [OF s(2)] s(3) len by (auto simp: mem_read_def sds_str_def)
  then have "redisNetWrite lc k = Some (- 1, ?k)"
    using s len assms(3,4) by (auto simp: redisNetWrite_def os_send_def flag_def)
  with s len assms(2) have "redisBufferWrite A lc k = Some (REDIS_ERR, None, ?k)"
    by (simp add: redisBufferWrite_def)
  with assms(1) s(4) show ?thesis by (intro exI [of _ ?k]) simp
qed

section \<open>Freeing a context\<close>

text \<open>A connection whose parts can be freed; \<^theory_text>\<open>F\<close> is the heap without the partial reply.\<close>

definition disposable :: "allocator \<Rightarrow> (addr \<Rightarrow> redisReply option) \<Rightarrow> conn \<Rightarrow> bool" where
  "disposable A F k \<longleftrightarrow>
     (\<exists>r ty os. c_reader (k_ctx k) = Ptr r \<and> r_fn r = Some (defaultFunctions A) \<and> resting (on_heap F) r (k_heap k) ty os) \<and>
     c_obuf (k_ctx k) \<noteq> Dangling \<and> c_host (k_ctx k) \<noteq> Dangling \<and> c_source_addr (k_ctx k) \<noteq> Dangling \<and>
     c_path (k_ctx k) \<noteq> Dangling \<and> c_timeout (k_ctx k) \<noteq> Dangling \<and> c_saddr (k_ctx k) \<noteq> Dangling"

lemma free_ptr_some: "p \<noteq> Dangling \<Longrightarrow> \<exists>q. free_ptr p = Some q"
  by (cases p) auto

lemma net_close_parts:
  "k_net (redisNetClose \<lparr>k_ctx = k_ctx k, k_heap = h, k_net = k_net k\<rparr>) = k_net (redisNetClose k)"
  by (simp add: redisNetClose_def)

lemma redisFree_ok:
  assumes "disposable A F k"
  shows "\<exists>h. redisFree (Ptr (k_ctx k)) (k_heap k) (k_net k) = Some (h, k_net (redisNetClose k)) \<and> cells h = F"
proof -
  obtain r ty os where r: "c_reader (k_ctx k) = Ptr r" "r_fn r = Some (defaultFunctions A)" "resting (on_heap F) r (k_heap k) ty os"
    using assms by (auto simp: disposable_def)
  obtain h where h: "redisReaderFree (Ptr r) (k_heap k) = Some h" "cells h = F"
    using free_reader [OF r(2,3)] by (auto simp: on_heap_def)
  have "\<exists>x. sdsfree (c_obuf (k_ctx k)) = Some x"
    using assms by (cases "c_obuf (k_ctx k)") (auto simp: disposable_def sdsfree_def)
  moreover note assms [unfolded disposable_def] h r(1)
  moreover from assms have "\<exists>x. free_ptr (c_host (k_ctx k)) = Some x" "\<exists>x. free_ptr (c_source_addr (k_ctx k)) = Some x"
    "\<exists>x. free_ptr (c_path (k_ctx k)) = Some x" "\<exists>x. free_ptr (c_timeout (k_ctx k)) = Some x"
    "\<exists>x. free_ptr (c_saddr (k_ctx k)) = Some x"
    by (auto simp: disposable_def intro: free_ptr_some)
  ultimately show ?thesis by (auto simp: redisFree_def net_close_parts)
qed

end
