(* ===== verification/Async_Correct.thy ===== *)
theory Async_Correct
  imports Async Context_Correct
begin

unbundle bit_operations_syntax

text \<open>
  The asynchronous API is correct: the callbacks run once each, in the order of their commands,
  and a context that is freed leaves nothing behind.
\<close>

section \<open>Flags\<close>

lemma flags_simps [simp]:
  "k_heap (a_c (on_flags f ac)) = k_heap (a_c ac)" "k_net (a_c (on_flags f ac)) = k_net (a_c ac)"
  "a_replies (on_flags f ac) = a_replies ac" "a_invalid (on_flags f ac) = a_invalid ac"
  "a_channels (on_flags f ac) = a_channels ac" "a_patterns (on_flags f ac) = a_patterns ac"
  "a_log (on_flags f ac) = a_log ac" "a_err (on_flags f ac) = a_err ac"
  "c_flags (k_ctx (a_c (on_flags f ac))) = f (c_flags (k_ctx (a_c ac)))"
  "c_err (k_ctx (a_c (on_flags f ac))) = c_err (k_ctx (a_c ac))"
  "c_reader (k_ctx (a_c (on_flags f ac))) = c_reader (k_ctx (a_c ac))"
  "c_obuf (k_ctx (a_c (on_flags f ac))) = c_obuf (k_ctx (a_c ac))"
  "c_fd (k_ctx (a_c (on_flags f ac))) = c_fd (k_ctx (a_c ac))"
  "c_host (k_ctx (a_c (on_flags f ac))) = c_host (k_ctx (a_c ac))"
  "c_source_addr (k_ctx (a_c (on_flags f ac))) = c_source_addr (k_ctx (a_c ac))"
  "c_path (k_ctx (a_c (on_flags f ac))) = c_path (k_ctx (a_c ac))"
  "c_timeout (k_ctx (a_c (on_flags f ac))) = c_timeout (k_ctx (a_c ac))"
  "c_saddr (k_ctx (a_c (on_flags f ac))) = c_saddr (k_ctx (a_c ac))"
  "a_onDisconnect (on_flags f ac) = a_onDisconnect ac" "a_onConnect (on_flags f ac) = a_onConnect ac"
  "a_cleanup (on_flags f ac) = a_cleanup ac"
  by (simp_all add: on_flags_def)

lemma notify_simps [simp]:
  "a_c (notify ac e) = a_c ac" "a_replies (notify ac e) = a_replies ac" "a_invalid (notify ac e) = a_invalid ac"
  "a_channels (notify ac e) = a_channels ac" "a_patterns (notify ac e) = a_patterns ac"
  "a_log (notify ac e) = a_log ac @ [e]" "a_err (notify ac e) = a_err ac" "a_cleanup (notify ac e) = a_cleanup ac"
  "a_onDisconnect (notify ac e) = a_onDisconnect ac" "a_onConnect (notify ac e) = a_onConnect ac"
  by (simp_all add: notify_def)

lemmas flag_defs = REDIS_BLOCK_def REDIS_CONNECTED_def REDIS_DISCONNECTING_def REDIS_FREEING_def REDIS_IN_CALLBACK_def
  REDIS_SUBSCRIBED_def REDIS_MONITORING_def REDIS_REUSEADDR_def REDIS_SSL_def REDIS_NO_AUTO_FREE_def

text \<open>Each flag is a bit of its own.\<close>

lemma and_or_clear: "(x :: 32 word) AND y = 0 \<Longrightarrow> (f OR x) AND y = f AND y"
  by (auto simp: bit_eq_iff bit_simps)

lemma and_not_clear: "(x :: 32 word) AND y = 0 \<Longrightarrow> (f AND NOT x) AND y = f AND y"
  by (auto simp: bit_eq_iff bit_simps)

lemma and_not_same: "((f :: 32 word) AND NOT x) AND x = 0"
  by (auto simp: bit_eq_iff bit_simps)

lemma and_or_same: "(x :: 32 word) \<noteq> 0 \<Longrightarrow> (f OR x) AND x \<noteq> 0"
  by (auto simp: bit_eq_iff bit_simps)

lemma or_and_not: "(f :: 32 word) AND x = 0 \<Longrightarrow> (f OR x) AND NOT x = f"
  by (auto simp: bit_eq_iff bit_simps)

lemma has_set_same: "x \<noteq> 0 \<Longrightarrow> has (set_flag x ac) x"
  by (simp add: set_flag_def flag_def and_or_same)

lemma has_set_other: "x AND y = 0 \<Longrightarrow> has (set_flag x ac) y = has ac y"
  by (simp add: set_flag_def flag_def and_or_clear)

lemma has_clear_same: "\<not> has (clear_flag x ac) x"
  by (simp add: clear_flag_def flag_def and_not_same)

lemma has_clear_other: "x AND y = 0 \<Longrightarrow> has (clear_flag x ac) y = has ac y"
  by (simp add: clear_flag_def flag_def and_not_clear)

lemmas has_simps = has_set_same has_set_other has_clear_same has_clear_other

lemma clear_set_flag: "\<not> has ac x \<Longrightarrow> clear_flag x (set_flag x ac) = ac"
  by (simp add: clear_flag_def set_flag_def on_flags_def flag_def or_and_not)

lemma clear_notify: "clear_flag x (notify ac e) = notify (clear_flag x ac) e"
  by (simp add: clear_flag_def on_flags_def notify_def)

lemma has_notify [simp]: "has (notify ac e) x = has ac x"
  by simp

section \<open>Users that leave a closing context alone\<close>

text \<open>
  The functions of the user, called while the context is being closed, return and leave it as it
  is. Functions that try to send commands are of this kind, since the commands are rejected.
\<close>

definition closing :: "redisAsyncContext \<Rightarrow> bool" where
  "closing ac \<longleftrightarrow> has ac REDIS_DISCONNECTING \<or> has ac REDIS_FREEING"

definition meek :: "user \<Rightarrow> bool" where
  "meek user \<longleftrightarrow> (\<forall>fn r pd ac. closing ac \<longrightarrow> user fn r pd ac = Some ac)"

lemma closing_notify [simp]: "closing (notify ac e) = closing ac"
  by (simp add: closing_def)

lemma closing_set: "closing ac \<Longrightarrow> closing (set_flag REDIS_IN_CALLBACK ac)"
  by (simp add: closing_def has_simps flag_defs)

lemma asyncCommand_closing: "closing ac \<Longrightarrow> asyncCommand A lc ac fn pd cmd len = Some (REDIS_ERR, ac)"
  by (simp add: asyncCommand_def closing_def)

lemma meek_commands:
  "meek (\<lambda>fn r pd ac. do { (rc, ac) \<leftarrow> asyncCommand A lc ac (f fn r pd) (g fn r pd) (cmd fn r pd) (len fn r pd); Some ac })"
  by (simp add: meek_def asyncCommand_closing)

lemma RunCallback_meek:
  assumes "meek user" "closing ac" "\<not> has ac REDIS_IN_CALLBACK"
  shows "redisRunCallback user ac cb r =
    Some (if cb_fn cb \<noteq> 0 then notify ac (Called (cb_fn cb) r (cb_privdata cb) (k_heap (a_c ac))) else ac)"
proof -
  have "user (cb_fn cb) r (cb_privdata cb) (notify (set_flag REDIS_IN_CALLBACK ac) (Called (cb_fn cb) r (cb_privdata cb) (k_heap (a_c ac)))) =
      Some (notify (set_flag REDIS_IN_CALLBACK ac) (Called (cb_fn cb) r (cb_privdata cb) (k_heap (a_c ac))))"
    using assms closing_set by (simp add: meek_def)
  then show ?thesis
    using assms(3) by (simp add: redisRunCallback_def clear_notify clear_set_flag)
qed

text \<open>The calls of a list of callbacks with a null reply.\<close>

definition null_calls :: "heap \<Rightarrow> payload list \<Rightarrow> notice list" where
  "null_calls h ps = map (\<lambda>(fn, _, pd). Called fn 0 pd h) (filter (\<lambda>(fn, _, _). fn \<noteq> 0) ps)"

lemma null_calls_simps [simp]:
  "null_calls h [] = []"
  "null_calls h (p # ps) = (if fst p \<noteq> 0 then [Called (fst p) 0 (snd (snd p)) h] else []) @ null_calls h ps"
  "null_calls h (ps @ qs) = null_calls h ps @ null_calls h qs"
  by (auto simp: null_calls_def split: prod.splits)

lemma run_replies_meek:
  assumes "meek user"
  shows "closing ac \<Longrightarrow> \<not> has ac REDIS_IN_CALLBACK \<Longrightarrow> holds (a_replies ac) ps \<Longrightarrow>
    \<exists>l. run_replies user ac = Some (ac\<lparr>a_replies := l, a_log := a_log ac @ null_calls (k_heap (a_c ac)) ps\<rparr>) \<and> holds l []"
proof (induction ps arbitrary: ac)
  case Nil
  then show ?case
    by (subst run_replies.simps) (auto simp: redisShiftCallback_empty intro!: exI [of _ "a_replies ac"])
next
  case (Cons p ps)
  obtain cb l where cb: "redisShiftCallback (a_replies ac) = Some (REDIS_OK, Some cb, l)" "payload cb = p" "holds l ps"
    using redisShiftCallback_first [OF Cons.prems(3)] by blast
  let ?ac = "ac\<lparr>a_replies := l\<rparr>"
  let ?ac' = "?ac\<lparr>a_log := a_log ac @ null_calls (k_heap (a_c ac)) [p]\<rparr>"
  have "closing ?ac" "\<not> has ?ac REDIS_IN_CALLBACK" using Cons.prems by (auto simp: closing_def)
  from RunCallback_meek [OF assms this, of cb 0]
  have r: "redisRunCallback user ?ac cb 0 = Some ?ac'" using cb(2) by (auto simp: payload_def notify_def)
  have "closing ?ac'" "\<not> has ?ac' REDIS_IN_CALLBACK" "holds (a_replies ?ac') ps"
    using Cons.prems cb(3) by (auto simp: closing_def)
  from Cons.IH [OF this] obtain l' where
    "run_replies user ?ac' = Some (?ac'\<lparr>a_replies := l', a_log := a_log ?ac' @ null_calls (k_heap (a_c ac)) ps\<rparr>)" "holds l' []" by auto
  with cb(1) r show ?case
    by (subst run_replies.simps) auto
qed

lemma run_invalid_meek:
  assumes "meek user"
  shows "closing ac \<Longrightarrow> \<not> has ac REDIS_IN_CALLBACK \<Longrightarrow> holds (a_invalid ac) ps \<Longrightarrow>
    \<exists>l. run_invalid user ac = Some (ac\<lparr>a_invalid := l, a_log := a_log ac @ null_calls (k_heap (a_c ac)) ps\<rparr>) \<and> holds l []"
proof (induction ps arbitrary: ac)
  case Nil
  then show ?case
    by (subst run_invalid.simps) (auto simp: redisShiftCallback_empty intro!: exI [of _ "a_invalid ac"])
next
  case (Cons p ps)
  obtain cb l where cb: "redisShiftCallback (a_invalid ac) = Some (REDIS_OK, Some cb, l)" "payload cb = p" "holds l ps"
    using redisShiftCallback_first [OF Cons.prems(3)] by blast
  let ?ac = "ac\<lparr>a_invalid := l\<rparr>"
  let ?ac' = "?ac\<lparr>a_log := a_log ac @ null_calls (k_heap (a_c ac)) [p]\<rparr>"
  have "closing ?ac" "\<not> has ?ac REDIS_IN_CALLBACK" using Cons.prems by (auto simp: closing_def)
  from RunCallback_meek [OF assms this, of cb 0]
  have r: "redisRunCallback user ?ac cb 0 = Some ?ac'" using cb(2) by (auto simp: payload_def notify_def)
  have "closing ?ac'" "\<not> has ?ac' REDIS_IN_CALLBACK" "holds (a_invalid ?ac') ps"
    using Cons.prems cb(3) by (auto simp: closing_def)
  from Cons.IH [OF this] obtain l' where
    "run_invalid user ?ac' = Some (?ac'\<lparr>a_invalid := l', a_log := a_log ?ac' @ null_calls (k_heap (a_c ac)) ps\<rparr>)" "holds l' []" by auto
  with cb(1) r show ?case
    by (subst run_invalid.simps) auto
qed

lemma run_subs_meek:
  assumes "meek user" "dict_ok kok c h ht" "ht_size ht < 2 ^ 31"
    and dicts: "\<And>l. dicts (ac\<lparr>a_log := l\<rparr>) = Ptr ht" and "closing ac" "\<not> has ac REDIS_IN_CALLBACK"
  shows "- 1 \<le> it_index it \<Longrightarrow> run_subs user dicts (ac\<lparr>a_log := log\<rparr>) it =
    Some (ac\<lparr>a_log := log @ null_calls (k_heap (a_c ac)) (map (payload \<circ> he_val) (it_rest ht it))\<rparr>)"
proof (induction "it_rest ht it" arbitrary: log it)
  case Nil
  with dictNext_spec [OF assms(2,3) Nil.prems] show ?case
    by (subst run_subs.simps) (auto simp: dicts)
next
  case (Cons e es)
  note eq = Cons.hyps(2) [symmetric]
  obtain it' where it: "dictNext ht it = Some (Some e, it')" "it_rest ht it' = es" "- 1 \<le> it_index it'"
    using dictNext_spec [OF assms(2,3) Cons.prems] eq by auto
  let ?ac = "ac\<lparr>a_log := log\<rparr>"
  have "closing ?ac" "\<not> has ?ac REDIS_IN_CALLBACK" using assms(5,6) by (auto simp: closing_def)
  from RunCallback_meek [OF assms(1) this, of "he_val e" 0]
  have r: "redisRunCallback user ?ac (he_val e) 0 = Some (ac\<lparr>a_log := log @ null_calls (k_heap (a_c ac)) [payload (he_val e)]\<rparr>)"
    by (auto simp: payload_def notify_def)
  from Cons.hyps(1) [OF it(2) [symmetric] it(3), of "log @ null_calls (k_heap (a_c ac)) [payload (he_val e)]"] it(1,2) r eq show ?case
    by (subst run_subs.simps) (simp add: dicts)
qed

section \<open>Freeing\<close>

text \<open>The two dictionaries of a context.\<close>

definition dict_kept :: "(sds, redisCallback) dict ptr \<Rightarrow> (sds, redisCallback) dict \<Rightarrow> bool" where
  "dict_kept p ht \<longleftrightarrow> p = Ptr ht \<and> (\<exists>kok (c :: sds \<Rightarrow> bytes) h. dict_ok kok c h ht) \<and> ht_size ht < 2 ^ 31"

definition subscribers :: "(sds, redisCallback) dict \<Rightarrow> payload list" where
  "subscribers ht = map (payload \<circ> he_val) (concat (tab ht))"

lemma iterator_start:
  "dictGetIterator A = Some it \<Longrightarrow> - 1 \<le> it_index it \<and> it_rest ht it = concat (tab ht)"
  by (auto simp: dictGetIterator_def it_rest_def split: if_splits)

lemma run_subs_all:
  assumes "meek user" "dict_kept (dicts ac) ht" "\<And>l. dicts (ac\<lparr>a_log := l\<rparr>) = dicts ac" "closing ac"
    "\<not> has ac REDIS_IN_CALLBACK" "dictGetIterator A = Some it"
  shows "run_subs user dicts ac it = Some (ac\<lparr>a_log := a_log ac @ null_calls (k_heap (a_c ac)) (subscribers ht)\<rparr>)"
proof -
  obtain kok and c :: "sds \<Rightarrow> bytes" and h where "dict_ok kok c h ht" "ht_size ht < 2 ^ 31" "dicts ac = Ptr ht"
    using assms(2) by (auto simp: dict_kept_def)
  from run_subs_meek [OF assms(1) this(1,2) _ assms(4,5), of dicts it "a_log ac"] this(3) assms(3)
  show ?thesis using iterator_start [OF assms(6), of ht] by (simp add: subscribers_def)
qed

lemma release_kept: "dict_kept p ht \<Longrightarrow> \<exists>ev. dictRelease p = Some (Dangling, ev)"
  using dictClear_spec by (fastforce simp: dict_kept_def dictRelease_def)

text \<open>The last calls when a context is freed.\<close>

definition farewell :: "redisAsyncContext \<Rightarrow> notice list" where
  "farewell ac = (if a_cleanup ac then [Cleanup] else []) @
     (if a_onDisconnect ac \<noteq> 0 \<and> has ac REDIS_CONNECTED
      then [On_disconnect (a_onDisconnect ac) (if has ac REDIS_FREEING \<or> a_err ac = 0 then REDIS_OK else REDIS_ERR)]
      else [])"

lemma asyncFree_ok:
  assumes "meek user" "closing ac" "\<not> has ac REDIS_IN_CALLBACK" "holds (a_replies ac) ps" "holds (a_invalid ac) qs"
    "dict_kept (a_channels ac) ch" "dict_kept (a_patterns ac) pa" "disposable A F (a_c ac)" "\<And>n. grants B n"
  shows "\<exists>h. asyncFree B user ac = Some (Gone h (k_net (redisNetClose (a_c ac)))
      (a_log ac @ null_calls (k_heap (a_c ac)) (ps @ qs @ subscribers ch @ subscribers pa) @ farewell ac)) \<and> cells h = F"
proof -
  obtain l1 where l1: "run_replies user ac = Some (ac\<lparr>a_replies := l1, a_log := a_log ac @ null_calls (k_heap (a_c ac)) ps\<rparr>)"
    using run_replies_meek [OF assms(1-4)] by blast
  let ?a1 = "ac\<lparr>a_replies := l1, a_log := a_log ac @ null_calls (k_heap (a_c ac)) ps\<rparr>"
  have "closing ?a1" "\<not> has ?a1 REDIS_IN_CALLBACK" "holds (a_invalid ?a1) qs"
    using assms by (auto simp: closing_def)
  from run_invalid_meek [OF assms(1) this] obtain l2 where
    l2: "run_invalid user ?a1 = Some (?a1\<lparr>a_invalid := l2, a_log := a_log ?a1 @ null_calls (k_heap (a_c ac)) qs\<rparr>)" by auto
  let ?a2 = "?a1\<lparr>a_invalid := l2, a_log := a_log ?a1 @ null_calls (k_heap (a_c ac)) qs\<rparr>"
  obtain it :: "(sds, redisCallback) dictIterator" where it: "dictGetIterator B = Some it"
    using assms(9) by (simp add: dictGetIterator_def)
  have s2: "closing ?a2" "\<not> has ?a2 REDIS_IN_CALLBACK" "dict_kept (a_channels ?a2) ch"
    using assms by (auto simp: closing_def)
  have s3: "run_subs user a_channels ?a2 it = Some (?a2\<lparr>a_log := a_log ?a2 @ null_calls (k_heap (a_c ac)) (subscribers ch)\<rparr>)"
    using run_subs_all [of user a_channels ?a2 ch B it] assms(1) s2 it by simp
  let ?a3 = "?a2\<lparr>a_log := a_log ?a2 @ null_calls (k_heap (a_c ac)) (subscribers ch), a_channels := Dangling\<rparr>"
  have s4: "closing ?a3" "\<not> has ?a3 REDIS_IN_CALLBACK" "dict_kept (a_patterns ?a3) pa"
    using assms by (auto simp: closing_def)
  have s5: "run_subs user a_patterns ?a3 it = Some (?a3\<lparr>a_log := a_log ?a3 @ null_calls (k_heap (a_c ac)) (subscribers pa)\<rparr>)"
    using run_subs_all [of user a_patterns ?a3 pa B it] assms(1) s4 it by simp
  obtain e1 e2 where e: "dictRelease (a_channels ac) = Some (Dangling, e1)" "dictRelease (a_patterns ac) = Some (Dangling, e2)"
    using release_kept assms(6,7) by metis
  obtain h where h: "redisFree (Ptr (k_ctx (a_c ac))) (k_heap (a_c ac)) (k_net (a_c ac)) =
      Some (h, k_net (redisNetClose (a_c ac)))" "cells h = F"
    using redisFree_ok [OF assms(8)] by blast
  have "asyncFree B user ac = Some (Gone h (k_net (redisNetClose (a_c ac)))
      (a_log ac @ null_calls (k_heap (a_c ac)) (ps @ qs @ subscribers ch @ subscribers pa) @ farewell ac))"
    using l1 l2 s3 s5 e h it by (simp add: asyncFree_def EL_CLEANUP_def farewell_def)
  with h(2) show ?thesis by blast
qed

unbundle bit_operations_syntax

section \<open>Dispatching replies\<close>

text \<open>The replies that a stream completes, and the state of the parser after them.\<close>

inductive reads :: "int \<Rightarrow> bytes \<Rightarrow> unit opens \<Rightarrow> resp list \<Rightarrow> int \<Rightarrow> bytes \<Rightarrow> unit opens \<Rightarrow> bool" where
  wait: "parse ty q os = Waiting ty' q' os' \<Longrightarrow> reads ty q os [] ty' q' os'"
| reply: "parse ty q os = Parsed v p \<Longrightarrow> reads (- 1) p [] vs ty' q' os' \<Longrightarrow> reads ty q os (v # vs) ty' q' os'"

text \<open>What the functions of the user get: the calls among the notices.\<close>

definition calls :: "notice list \<Rightarrow> notice list" where
  "calls es = filter (\<lambda>e. case e of Called _ _ _ _ \<Rightarrow> True | _ \<Rightarrow> False) es"

lemma calls_simps [simp]: "calls [] = []" "calls (es @ es') = calls es @ calls es'"
  "calls [Called fn a pd h] = [Called fn a pd h]"
  by (simp_all add: calls_def)

text \<open>
  The calls that answer callbacks with replies, in order: each gets the object that stands for its
  reply in the heap of that moment; a callback without a function is skipped.
\<close>

fun answered :: "payload list \<Rightarrow> resp list \<Rightarrow> notice list \<Rightarrow> bool" where
  "answered [] [] es = (es = [])"
| "answered ((fn, n, pd) # ps) (v # vs) es =
     (if fn = 0 then answered ps vs es
      else (\<exists>a h es'. es = Called fn a pd h # es' \<and> denotes (cells h) a v \<and> answered ps vs es'))"
| "answered ps vs es = False"

text \<open>
  A well-behaved user: a call with a reply may send commands of at most \<^theory_text>\<open>n\<close> bytes, whose callbacks
  come after those that wait, and changes neither the flags nor the objects of replies.
\<close>

definition tame :: "allocator \<Rightarrow> nat \<Rightarrow> user \<Rightarrow> bool" where
  "tame A n user \<longleftrightarrow> (\<forall>F ac ps q out fn r pd.
     listening A F (a_c ac) (- 1) [] q out \<and> length out + n < 2 ^ 62 \<and> holds (a_replies ac) ps \<and> \<not> closing ac \<longrightarrow>
     (\<exists>ac' new out' es. user fn r pd ac = Some ac' \<and> listening A F (a_c ac') (- 1) [] q (out @ out') \<and>
       length out' \<le> n \<and> holds (a_replies ac') (ps @ new) \<and> k_heap (a_c ac') = k_heap (a_c ac) \<and>
       c_flags (k_ctx (a_c ac')) = c_flags (k_ctx (a_c ac)) \<and> a_log ac' = a_log ac @ es \<and> calls es = []))"

lemma tameD:
  assumes "tame A n user" "listening A F (a_c ac) (- 1) [] q out" "length out + n < 2 ^ 62" "holds (a_replies ac) ps"
    "\<not> closing ac"
  obtains ac' new out' es where "user fn r pd ac = Some ac'" "listening A F (a_c ac') (- 1) [] q (out @ out')"
    "length out' \<le> n" "holds (a_replies ac') (ps @ new)" "k_heap (a_c ac') = k_heap (a_c ac)"
    "c_flags (k_ctx (a_c ac')) = c_flags (k_ctx (a_c ac))" "a_log ac' = a_log ac @ es" "calls es = []"
  using assms unfolding tame_def by metis

lemma listening_flags:
  assumes "listening A F (a_c ac) ty os q out" "x AND REDIS_SSL = 0"
  shows "listening A F (a_c (set_flag x ac)) ty os q out" "listening A F (a_c (clear_flag x ac)) ty os q out"
  using assms has_set_other [OF assms(2), of ac] has_clear_other [OF assms(2), of ac]
  by (auto simp: listening_def set_flag_def clear_flag_def)

lemma free_reply_ok:
  assumes "listening A G (a_c ac) ty os q out" "freeReplyObject a (k_heap (a_c ac)) = Some h"
  shows "free_reply ac a = Some (ac\<lparr>a_c := (a_c ac)\<lparr>k_heap := h\<rparr>\<rparr>)"
  using assms by (auto simp: free_reply_def listening_def callback_def defaultFunctions_def functions_of_def)

text \<open>One callback: it is called with the reply, which is freed afterwards.\<close>

lemma answer_one:
  assumes "tame A n user" "listening A (cells (k_heap (a_c ac))) (a_c ac) (- 1) [] q out" "length out + n < 2 ^ 62"
    "holds (a_replies ac) ps" "\<not> closing ac" "\<not> has ac REDIS_IN_CALLBACK" "cb_fn cb \<noteq> 0"
    "on_heap F (k_heap (a_c ac)) a (Complete v)"
  obtains ac1 h new out' es where "redisRunCallback user ac cb a = Some ac1"
    "free_reply ac1 a = Some (ac1\<lparr>a_c := (a_c ac1)\<lparr>k_heap := h\<rparr>\<rparr>)"
    "listening A F ((a_c ac1)\<lparr>k_heap := h\<rparr>) (- 1) [] q (out @ out')" "length out' \<le> n"
    "holds (a_replies ac1) (ps @ new)" "c_flags (k_ctx (a_c ac1)) = c_flags (k_ctx (a_c ac))"
    "a_log ac1 = a_log ac @ Called (cb_fn cb) a (cb_privdata cb) (k_heap (a_c ac)) # es" "calls es = []"
proof -
  let ?ac = "notify (set_flag REDIS_IN_CALLBACK ac) (Called (cb_fn cb) a (cb_privdata cb) (k_heap (a_c ac)))"
  have "listening A (cells (k_heap (a_c ac))) (a_c ?ac) (- 1) [] q out"
    using listening_flags(1) [OF assms(2), of REDIS_IN_CALLBACK] by (simp add: flag_defs)
  moreover have "holds (a_replies ?ac) ps" using assms(4) by (simp add: set_flag_def)
  moreover have "\<not> closing ?ac" using assms(5) by (simp add: closing_def has_simps flag_defs)
  ultimately obtain ac' new out' es where u: "user (cb_fn cb) a (cb_privdata cb) ?ac = Some ac'"
    "listening A (cells (k_heap (a_c ac))) (a_c ac') (- 1) [] q (out @ out')" "length out' \<le> n"
    "holds (a_replies ac') (ps @ new)" "k_heap (a_c ac') = k_heap (a_c ?ac)"
    "c_flags (k_ctx (a_c ac')) = c_flags (k_ctx (a_c ?ac))" "a_log ac' = a_log ?ac @ es" "calls es = []"
    using assms(1,3) by (elim tameD) blast+
  let ?ac1 = "clear_flag REDIS_IN_CALLBACK ac'"
  obtain h where h: "freeReplyObject a (k_heap (a_c ac)) = Some h" "on_heap F h 0 (Building [])"
    using complete_denotes(4) [OF assms(8)] by blast
  have l: "listening A (cells (k_heap (a_c ac))) (a_c ?ac1) (- 1) [] q (out @ out')"
    using listening_flags(2) [OF u(2), of REDIS_IN_CALLBACK] by (simp add: flag_defs)
  show ?thesis
  proof (rule that)
    show "redisRunCallback user ac cb a = Some ?ac1"
      using assms(7) u(1) by (simp add: redisRunCallback_def set_flag_def)
    show "free_reply ?ac1 a = Some (?ac1\<lparr>a_c := (a_c ?ac1)\<lparr>k_heap := h\<rparr>\<rparr>)"
      using h(1) u(5) by (intro free_reply_ok [OF l]) (simp add: clear_flag_def set_flag_def)
    show "listening A F ((a_c ?ac1)\<lparr>k_heap := h\<rparr>) (- 1) [] q (out @ out')"
      using listening_frame [OF l h(2)] .
    show "c_flags (k_ctx (a_c ?ac1)) = c_flags (k_ctx (a_c ac))"
      using u(6) assms(6) by (simp add: clear_flag_def set_flag_def flag_def or_and_not)
  qed (use u in \<open>simp_all add: clear_flag_def set_flag_def\<close>)
qed

text \<open>A reply whose callback is at the head of the queue: the loop goes on after it.\<close>

lemma process_one:
  assumes "tame A n user" "\<And>n. grants A n" "parse ty q os = Parsed v p"
    "listening A F (a_c ac) ty os q out" "length out + n < 2 ^ 62" "holds (a_replies ac) (c # ps)"
    "\<not> closing ac" "\<not> has ac REDIS_IN_CALLBACK"
  obtains ac1 cb1 new out' es where
    "process_loop_async A lc user ac cb = process_loop_async A lc user ac1 cb1"
    "listening A F (a_c ac1) (- 1) [] p (out @ out')" "length out' \<le> n" "holds (a_replies ac1) (ps @ new)"
    "c_flags (k_ctx (a_c ac1)) = c_flags (k_ctx (a_c ac))" "a_log ac1 = a_log ac @ es"
    "if fst c = 0 then calls es = [] else \<exists>a h. calls es = [Called (fst c) a (snd (snd c)) h] \<and> denotes (cells h) a v"
proof -
  obtain a k where k: "redisGetReplyFromReader lc (a_c ac) = Some (REDIS_OK, a, k)" "on_heap F (k_heap k) a (Complete v)"
    "ready A (cells (k_heap k)) k (- 1) [] p out" "c_flags (k_ctx k) = c_flags (k_ctx (a_c ac))"
    using reader_delivers [OF assms(4,2,3)] by blast
  have a0: "a \<noteq> 0" "denotes (cells (k_heap k)) a v" using complete_denotes [OF k(2)] by auto
  then have get: "redisGetReply A lc (a_c ac) = Some (REDIS_OK, a, k)"
    using k(1) by (simp add: redisGetReply_def redis_err_defs)
  obtain cb1 l where sh: "redisShiftCallback (a_replies ac) = Some (REDIS_OK, Some cb1, l)" "payload cb1 = c" "holds l ps"
    using redisShiftCallback_first [OF assms(6)] by blast
  let ?ac = "ac\<lparr>a_c := k, a_replies := l\<rparr>"
  have rc: "reply_callback A (ac\<lparr>a_c := k\<rparr>) a cb = Some (Some cb1, ?ac)"
    using sh(1) by (simp add: reply_callback_def)
  have st: "listening A (cells (k_heap (a_c ?ac))) (a_c ?ac) (- 1) [] p out" "holds (a_replies ?ac) ps"
    "\<not> closing ?ac" "\<not> has ?ac REDIS_IN_CALLBACK"
    using k(3,4) sh(3) assms(7,8) by (simp_all add: ready_def closing_def flag_def)
  show ?thesis
  proof (cases "cb_fn cb1 = 0")
    case True
    obtain h where h: "freeReplyObject a (k_heap k) = Some h" "on_heap F h 0 (Building [])"
      using complete_denotes(4) [OF k(2)] by blast
    have f: "free_reply ?ac a = Some (?ac\<lparr>a_c := k\<lparr>k_heap := h\<rparr>\<rparr>)"
      using free_reply_ok [OF st(1)] h(1) by simp
    show ?thesis
    proof (rule that [of "?ac\<lparr>a_c := k\<lparr>k_heap := h\<rparr>\<rparr>" cb1 "[]" "[]" "[]"])
      show "process_loop_async A lc user ac cb = process_loop_async A lc user (?ac\<lparr>a_c := k\<lparr>k_heap := h\<rparr>\<rparr>) cb1"
        using get rc f True a0 by (subst process_loop_async.simps) simp
      show "listening A F (a_c (?ac\<lparr>a_c := k\<lparr>k_heap := h\<rparr>\<rparr>)) (- 1) [] p (out @ [])"
        using listening_frame [OF st(1) h(2)] by simp
    qed (use st(2) k(4) sh(2) True in \<open>auto simp: payload_def\<close>)
  next
    case False
    have k2: "on_heap F (k_heap (a_c ?ac)) a (Complete v)" using k(2) by simp
    obtain ac1 h new out' es where
      u: "redisRunCallback user ?ac cb1 a = Some ac1"
      "free_reply ac1 a = Some (ac1\<lparr>a_c := (a_c ac1)\<lparr>k_heap := h\<rparr>\<rparr>)"
      "listening A F ((a_c ac1)\<lparr>k_heap := h\<rparr>) (- 1) [] p (out @ out')" "length out' \<le> n"
      "holds (a_replies ac1) (ps @ new)" "c_flags (k_ctx (a_c ac1)) = c_flags (k_ctx (a_c ?ac))"
      "a_log ac1 = a_log ?ac @ Called (cb_fn cb1) a (cb_privdata cb1) (k_heap (a_c ?ac)) # es" "calls es = []"
      by (rule answer_one [OF assms(1) st(1) assms(5) st(2-4) False k2])
    then have r: "redisRunCallback user ?ac cb1 a = Some ac1"
      "free_reply ac1 a = Some (ac1\<lparr>a_c := (a_c ac1)\<lparr>k_heap := h\<rparr>\<rparr>)"
      "listening A F ((a_c ac1)\<lparr>k_heap := h\<rparr>) (- 1) [] p (out @ out')" "length out' \<le> n"
      "holds (a_replies ac1) (ps @ new)" "c_flags (k_ctx (a_c ac1)) = c_flags (k_ctx k)"
      "a_log ac1 = a_log ac @ Called (cb_fn cb1) a (cb_privdata cb1) (k_heap k) # es" "calls es = []"
      by simp_all
    let ?ac1 = "ac1\<lparr>a_c := (a_c ac1)\<lparr>k_heap := h\<rparr>\<rparr>"
    have nf: "\<not> has ?ac1 REDIS_FREEING" using r(6) k(4) assms(7) by (simp add: closing_def flag_def)
    show ?thesis
    proof (rule that [of ?ac1 cb1 out' new "Called (cb_fn cb1) a (cb_privdata cb1) (k_heap k) # es"])
      show "process_loop_async A lc user ac cb = process_loop_async A lc user ?ac1 cb1"
        using get rc r(1,2) False a0 nf by (subst process_loop_async.simps) simp
    qed (use r(3-8) k(4) a0(2) False sh(2) in \<open>auto simp: payload_def calls_def\<close>)
  qed
qed

lemma process_loop_reads:
  assumes "reads ty q os vs ty' q' os'" "tame A n user" "\<And>n. grants A n"
  shows "listening A F (a_c ac) ty os q out \<Longrightarrow> length out + length vs * n < 2 ^ 62 \<Longrightarrow>
    holds (a_replies ac) (cbs @ ps) \<Longrightarrow> length cbs = length vs \<Longrightarrow> \<not> closing ac \<Longrightarrow> \<not> has ac REDIS_IN_CALLBACK \<Longrightarrow>
    \<not> has ac REDIS_BLOCK \<Longrightarrow> \<not> has ac REDIS_MONITORING \<Longrightarrow>
    \<exists>ac' new out' es. process_loop_async A lc user ac cb = Some (Live ac') \<and>
      ready A F (a_c ac') ty' os' q' (out @ out') \<and> holds (a_replies ac') (ps @ new) \<and>
      c_flags (k_ctx (a_c ac')) = c_flags (k_ctx (a_c ac)) \<and> a_log ac' = a_log ac @ es \<and> answered cbs vs (calls es)"
  using assms(1)
proof (induction arbitrary: ac out cbs ps cb rule: reads.induct)
  case (wait ty q os ty' q' os')
  obtain k where k: "redisGetReplyFromReader lc (a_c ac) = Some (REDIS_OK, 0, k)" "ready A F k ty' os' q' out"
    "c_flags (k_ctx k) = c_flags (k_ctx (a_c ac))"
    using reader_waits [OF wait.prems(1) assms(3) wait.hyps] by blast
  then have "redisGetReply A lc (a_c ac) = Some (REDIS_OK, 0, k)"
    using wait.prems(7) by (simp add: redisGetReply_def redis_err_defs flag_def)
  moreover obtain s where "c_obuf (k_ctx k) = Ptr s" using k(2) by (auto simp: conn_defs)
  ultimately have "process_loop_async A lc user ac cb = Some (Live (ac\<lparr>a_c := k\<rparr>))"
    using wait.prems k(3) by (subst process_loop_async.simps) (simp add: flag_def closing_def)
  with k wait.prems show ?case
    by (intro exI [of _ "ac\<lparr>a_c := k\<rparr>"] exI [of _ "[]"]) auto
next
  case (reply ty q os v p vs ty' q' os')
  obtain c cs where cbs: "cbs = c # cs" using reply.prems(4) by (cases cbs) auto
  have l: "length out + n < 2 ^ 62" using reply.prems(2) by simp
  have "holds (a_replies ac) (c # cs @ ps)" using reply.prems(3) cbs by simp
  from process_one [OF assms(2,3) reply.hyps(1) reply.prems(1) l this reply.prems(5,6), of lc cb]
  obtain ac1 cb1 new out' es where one:
    "process_loop_async A lc user ac cb = process_loop_async A lc user ac1 cb1"
    "listening A F (a_c ac1) (- 1) [] p (out @ out')" "length out' \<le> n" "holds (a_replies ac1) ((cs @ ps) @ new)"
    "c_flags (k_ctx (a_c ac1)) = c_flags (k_ctx (a_c ac))" "a_log ac1 = a_log ac @ es"
    "if fst c = 0 then calls es = [] else \<exists>a h. calls es = [Called (fst c) a (snd (snd c)) h] \<and> denotes (cells h) a v"
    by metis
  have f: "\<not> closing ac1" "\<not> has ac1 REDIS_IN_CALLBACK" "\<not> has ac1 REDIS_BLOCK" "\<not> has ac1 REDIS_MONITORING"
    using one(5) reply.prems(5-8) by (simp_all add: closing_def flag_def)
  have l1: "length (out @ out') + length vs * n < 2 ^ 62" using reply.prems(2) one(3) by simp
  have h1: "holds (a_replies ac1) (cs @ (ps @ new))" "length cs = length vs" using one(4) reply.prems(4) cbs by simp_all
  from reply.IH [OF one(2) l1 h1 f, of cb1] obtain ac' new' out2 es' where
    "process_loop_async A lc user ac1 cb1 = Some (Live ac')"
    "ready A F (a_c ac') ty' os' q' ((out @ out') @ out2)" "holds (a_replies ac') ((ps @ new) @ new')"
    "c_flags (k_ctx (a_c ac')) = c_flags (k_ctx (a_c ac1))" "a_log ac' = a_log ac1 @ es'" "answered cs vs (calls es')"
    by metis
  with one cbs show ?case
    by (intro exI [of _ ac'] exI [of _ "new @ new'"] exI [of _ "out' @ out2"] exI [of _ "es @ es'"])
      (cases c; auto)
qed

unbundle bit_operations_syntax

section \<open>Events\<close>

lemma notify_c [simp]: "a_c (EL_ADD_READ ac) = a_c ac" "a_replies (EL_ADD_READ ac) = a_replies ac"
  "a_channels (EL_ADD_READ ac) = a_channels ac" "a_patterns (EL_ADD_READ ac) = a_patterns ac"
  "a_c (EL_ADD_WRITE ac) = a_c ac" "a_replies (EL_ADD_WRITE ac) = a_replies ac"
  "a_invalid (EL_ADD_WRITE ac) = a_invalid ac" "a_channels (EL_ADD_WRITE ac) = a_channels ac"
  "a_patterns (EL_ADD_WRITE ac) = a_patterns ac"
  by (auto simp: EL_ADD_READ_def EL_ADD_WRITE_def refreshTimeout_def Let_def split: ptr.splits)

lemma calls_EL:
  "\<exists>es. a_log (EL_ADD_READ ac) = a_log ac @ es \<and> calls es = []"
  "\<exists>es. a_log (EL_ADD_WRITE ac) = a_log ac @ es \<and> calls es = []"
  by (auto simp: EL_ADD_READ_def EL_ADD_WRITE_def refreshTimeout_def Let_def calls_def split: ptr.splits)

lemma HandleRead_replies:
  assumes "ready A F (a_c ac) ty os q out" "has ac REDIS_CONNECTED" "\<not> closing ac" "\<not> has ac REDIS_IN_CALLBACK"
    "\<not> has ac REDIS_BLOCK" "\<not> has ac REDIS_MONITORING" "holds (a_replies ac) (cbs @ ps)" "length cbs = length vs"
    "os_recv (1024 * 16) (k_net (a_c ac)) = Some (Received bs, n')" "bs \<noteq> []" "length q + length bs + 1024 < 2 ^ 31"
    "reads ty (q @ bs) os vs ty' q' os'" "tame A n user" "length out + length vs * n < 2 ^ 62" "\<And>n. grants A n"
  shows "\<exists>ac' new out' es. redisAsyncHandleRead A lc user ac = Some (Live ac') \<and>
    ready A F (a_c ac') ty' os' q' (out @ out') \<and> holds (a_replies ac') (ps @ new) \<and>
    c_flags (k_ctx (a_c ac')) = c_flags (k_ctx (a_c ac)) \<and> a_log ac' = a_log ac @ es \<and> answered cbs vs (calls es)"
proof -
  obtain k where k: "redisBufferRead A lc (a_c ac) = Some (REDIS_OK, k)" "listening A F k ty os (q @ bs) out"
    "k_net k = n'" "c_flags (k_ctx k) = c_flags (k_ctx (a_c ac))"
    using BufferRead_bytes [OF assms(1,15,9-11)] by blast
  have "\<not> has ac REDIS_SSL" using assms(1) by (auto simp: conn_defs)
  then have hc: "handle_connect A lc user ac = Some (Inr ac)" using assms(2) by (simp add: handle_connect_def)
  let ?ac = "EL_ADD_READ (ac\<lparr>a_c := k\<rparr>)"
  have st: "listening A F (a_c ?ac) ty os (q @ bs) out" "holds (a_replies ?ac) (cbs @ ps)" "\<not> closing ?ac"
    "\<not> has ?ac REDIS_IN_CALLBACK" "\<not> has ?ac REDIS_BLOCK" "\<not> has ?ac REDIS_MONITORING"
    using k(2,4) assms(3-7) by (simp_all add: closing_def flag_def)
  from process_loop_reads [OF assms(12,13,15) st(1) assms(14) st(2) assms(8) st(3-6), of lc no_callback]
  obtain ac' new out' es where p: "process_loop_async A lc user ?ac no_callback = Some (Live ac')"
    "ready A F (a_c ac') ty' os' q' (out @ out')" "holds (a_replies ac') (ps @ new)"
    "c_flags (k_ctx (a_c ac')) = c_flags (k_ctx (a_c ?ac))" "a_log ac' = a_log ?ac @ es" "answered cbs vs (calls es)"
    by blast
  obtain es0 where e0: "a_log ?ac = a_log ac @ es0" "calls es0 = []" using calls_EL(1) [of "ac\<lparr>a_c := k\<rparr>"] by auto
  have "redisAsyncHandleRead A lc user ac = Some (Live ac')"
    using hc k(1) p(1) by (simp add: redisAsyncHandleRead_def redisProcessCallbacks_def redis_err_defs)
  moreover have "calls (es0 @ es) = calls es" using e0(2) by simp
  ultimately show ?thesis using p e0 k(4)
    by (intro exI [of _ ac'] exI [of _ new] exI [of _ out'] exI [of _ "es0 @ es"]) simp
qed

section \<open>Reading a command back\<close>

lemma strchr_found: "c \<notin> set xs \<Longrightarrow> NUL \<notin> set xs \<Longrightarrow> strchr c (xs @ c # ys) = Some (Some (c # ys))"
  by (induction xs) auto

lemma strchr_end: "c \<notin> set xs \<Longrightarrow> c \<noteq> NUL \<Longrightarrow> NUL \<notin> set xs \<Longrightarrow> strchr c (xs @ NUL # ys) = Some None"
  by (induction xs) auto

lemma takeWhile_digits: "takeWhile is_digit (dec n @ c # s) = dec n" if "\<not> is_digit c"
  using dec_digits [of n] that by (simp add: takeWhile_append)

lemma dec_head: "\<exists>c cs. dec n = c # cs \<and> is_digit c"
  using dec_digits [of n] dec_nonempty [of n] by (cases "dec n") auto

lemma digit_chars: "is_digit c \<Longrightarrow> c \<noteq> CHR ''-'' \<and> c \<noteq> CHR ''+'' \<and> \<not> c_isspace c \<and> c \<noteq> CHR ''$'' \<and> c \<noteq> CR \<and> c \<noteq> NUL"
  by (auto simp: is_digit_def c_isspace_def)

lemma strtol_dec: "n < 2 ^ 63 \<Longrightarrow> strtol (dec n @ CR # s) = Some (int n)"
proof -
  assume n: "n < 2 ^ 63"
  obtain c cs where c: "dec n = c # cs" "is_digit c" using dec_head by blast
  have nd: "\<not> is_digit CR" by (simp add: is_digit_def)
  have "takeWhile is_digit (c # cs @ CR # s) = c # cs" using takeWhile_digits [OF nd, of n s] c(1) by simp
  moreover have "dec_val 0 (c # cs) = n" using dec_val_dec [of n] c(1) by simp
  ultimately show ?thesis using c digit_chars [OF c(2)] n by (simp add: strtol_def Let_def)
qed

lemma nextArgument_bulk:
  assumes "CHR ''$'' \<notin> set pre" "NUL \<notin> set pre" "length a < 2 ^ 31"
  shows "nextArgument (pre @ bulk a @ s) = Some (Some (a @ CRLF @ s, length a, s))"
proof -
  let ?p = "CHR ''$'' # dec (length a) @ CR # LF # a @ CRLF @ s"
  have b: "pre @ bulk a @ s = pre @ ?p" by (simp add: bulk_def)
  have "\<exists>c. nth_opt (pre @ ?p) 0 = Some c \<and>
      (if c \<noteq> CHR ''$'' then strchr (CHR ''$'') (pre @ ?p) else Some (Some (pre @ ?p))) = Some (Some ?p)"
    using assms(1,2) strchr_found [of "CHR ''$''" pre "tl ?p"] by (cases pre) (auto simp: nth_opt_def)
  moreover have "CR \<notin> set (CHR ''$'' # dec (length a))" "NUL \<notin> set (CHR ''$'' # dec (length a))"
    using dec_digits [of "length a"] digit_chars by auto
  then have "strchr CR ?p = Some (Some (CR # LF # a @ CRLF @ s))"
    using strchr_found [of CR "CHR ''$'' # dec (length a)" "LF # a @ CRLF @ s"] by simp
  moreover have "nat (to_int (int (length a)) mod 2 ^ 64) = length a" using assms(3) by (simp add: cint_simps)
  ultimately show ?thesis
    using strtol_dec [of "length a" "LF # a @ CRLF @ s"] assms(3) by (auto simp: nextArgument_def b Let_def)
qed

lemma nextArgument_end: "nextArgument (NUL # s) = Some None"
  by (simp add: nextArgument_def nth_opt_def)

lemma first_argument:
  assumes "length a < 2 ^ 31"
  shows "nextArgument (command (a # args) @ s) =
    Some (Some (a @ CRLF @ concat (map bulk args) @ s, length a, concat (map bulk args) @ s))"
proof -
  have "CHR ''$'' \<notin> set (''*'' @ dec (length (a # args)) @ CRLF)" "NUL \<notin> set (''*'' @ dec (length (a # args)) @ CRLF)"
    using dec_digits [of "length (a # args)"] digit_chars by auto
  from nextArgument_bulk [OF this assms, of "concat (map bulk args) @ s"] show ?thesis by (simp add: command_def)
qed

unbundle bit_operations_syntax

section \<open>Commands\<close>

text \<open>The word that decides what a command is: without regard to case and to one leading \<^verbatim>\<open>p\<close>.\<close>

definition keyword :: "bytes \<Rightarrow> bytes" where
  "keyword a = (case map c_tolower a of c # s \<Rightarrow> if c = CHR ''p'' then s else c # s | [] \<Rightarrow> [])"

definition is_p :: "bytes \<Rightarrow> bool" where
  "is_p a = (case a of c # s \<Rightarrow> c_tolower c = CHR ''p'' | [] \<Rightarrow> False)"

lemma lower_CR: "c_tolower c = CR \<longleftrightarrow> c = CR"
proof
  assume a: "c_tolower c = CR"
  show "c = CR"
  proof (cases "65 \<le> byte c \<and> byte c \<le> 90")
    case True
    then have "byte (c_tolower c) = byte c + 32" by (simp add: c_tolower_def)
    with a True show ?thesis by simp
  qed (use a in \<open>auto simp: c_tolower_def\<close>)
qed (simp add: c_tolower_def)

lemma lower_CRLF: "c_tolower CR = CR" "c_tolower LF = LF"
  by (simp_all add: c_tolower_def)

lemma strncaseeq_word:
  "CR \<notin> set a \<Longrightarrow> NUL \<notin> set a \<Longrightarrow> CR \<notin> set lit \<Longrightarrow> map c_tolower lit = lit \<Longrightarrow>
   strncaseeq (a @ CRLF @ s) (lit @ CRLF) (length lit + 2) = Some (map c_tolower a = lit)"
proof (induction a arbitrary: lit)
  case Nil
  then show ?case
  proof (cases lit)
    case (Cons d ds)
    then have "c_tolower d \<noteq> CR" using Nil by (auto simp: lower_CR)
    with Cons show ?thesis by (auto simp: lower_CRLF)
  qed (simp add: lower_CRLF numeral_2_eq_2)
next
  case (Cons c a)
  show ?case
  proof (cases lit)
    case Nil
    with Cons.prems show ?thesis by (auto simp: lower_CRLF lower_CR numeral_2_eq_2)
  next
    case (Cons d ds)
    with Cons.prems Cons.IH [of ds] show ?thesis by (cases "c_tolower c = d") auto
  qed
qed

lemma word_after_p:
  assumes "CR \<notin> set a" "NUL \<notin> set a" "CR \<notin> set lit" "map c_tolower lit = lit" "n = length lit + 2"
  shows "strncaseeq (drop (if is_p a then 1 else 0) (a @ CRLF @ s)) (lit @ CRLF) n = Some (keyword a = lit)"
proof (cases a)
  case Nil
  with strncaseeq_word [OF assms(1-4), of s] assms(5) show ?thesis by (auto simp: keyword_def is_p_def)
next
  case (Cons c cs)
  then have "keyword a = (if is_p a then map c_tolower cs else map c_tolower a)"
    by (simp add: keyword_def is_p_def)
  with strncaseeq_word [OF assms(1-4), of s] strncaseeq_word [of cs lit s] assms Cons show ?thesis
    by simp
qed

lemma first_byte: "\<exists>c. nth_opt (a @ CRLF @ s) 0 = Some c \<and> (c_tolower c = CHR ''p'') = is_p a"
  by (cases a) (auto simp: nth_opt_def is_p_def lower_CRLF)

lemma next_byte: "\<exists>c. nth_opt (concat (map bulk args) @ NUL # s) 0 = Some c \<and> (c = CHR ''$'') = (args \<noteq> [])"
  by (cases args) (auto simp: nth_opt_def bulk_def)

text \<open>Where the callback of a command goes.\<close>

lemma register_cases:
  assumes "CR \<notin> set a" "NUL \<notin> set a" "length a < 2 ^ 31"
  shows "register_callback A ac cb (command (a # args) @ NUL # s) =
    (if args \<noteq> [] \<and> keyword a = ''subscribe'' then do {
       cbdict \<leftarrow> deref (if is_p a then a_patterns (set_flag REDIS_SUBSCRIBED ac) else a_channels (set_flag REDIS_SUBSCRIBED ac));
       cbdict \<leftarrow> subscribe_loop A cbdict cb (concat (map bulk args) @ NUL # s);
       Some (Some (if is_p a then (set_flag REDIS_SUBSCRIBED ac)\<lparr>a_patterns := Ptr cbdict\<rparr>
         else (set_flag REDIS_SUBSCRIBED ac)\<lparr>a_channels := Ptr cbdict\<rparr>))
     }
     else if keyword a = ''unsubscribe'' then Some (if \<not> has ac REDIS_SUBSCRIBED then None else Some ac)
     else if keyword a = ''monitor'' then do {
       (_, l) \<leftarrow> redisPushCallback A (a_replies ac) cb;
       Some (Some (set_flag REDIS_MONITORING ac\<lparr>a_replies := l\<rparr>))
     }
     else if has ac REDIS_SUBSCRIBED then do {
       (_, l) \<leftarrow> redisPushCallback A (a_invalid ac) cb;
       Some (Some (ac\<lparr>a_invalid := l\<rparr>))
     }
     else do {
       (_, l) \<leftarrow> redisPushCallback A (a_replies ac) cb;
       Some (Some (ac\<lparr>a_replies := l\<rparr>))
     })"
proof -
  let ?s = "concat (map bulk args) @ NUL # s"
  have n: "nextArgument (command (a # args) @ NUL # s) = Some (Some (a @ CRLF @ ?s, length a, ?s))"
    using first_argument [OF assms(3), of args "NUL # s"] by simp
  obtain c where c: "nth_opt (a @ CRLF @ ?s) 0 = Some c" "(c_tolower c = CHR ''p'') = is_p a"
    using first_byte by blast
  obtain d where d: "nth_opt ?s 0 = Some d" "(d = CHR ''$'') = (args \<noteq> [])" using next_byte by blast
  let ?e = "drop (if is_p a then 1 else 0) (a @ CRLF @ ?s)"
  have "strncaseeq ?e (''subscribe'' @ CRLF) 11 = Some (keyword a = ''subscribe'')"
    by (rule word_after_p) (use assms in \<open>simp_all add: c_tolower_def\<close>)
  moreover have "strncaseeq ?e (''unsubscribe'' @ CRLF) 13 = Some (keyword a = ''unsubscribe'')"
    by (rule word_after_p) (use assms in \<open>simp_all add: c_tolower_def\<close>)
  moreover have "strncaseeq ?e (''monitor'' @ CRLF) 9 = Some (keyword a = ''monitor'')"
    by (rule word_after_p) (use assms in \<open>simp_all add: c_tolower_def\<close>)
  ultimately show ?thesis using n c d
    by (cases "args = []") (simp_all add: register_callback_def Let_def del: drop_append)
qed

unbundle bit_operations_syntax

text \<open>A command that is not about subscriptions: its callback waits behind the others.\<close>

lemma asyncCommand_queued:
  assumes "listening A F (a_c ac) ty os q out" "\<not> closing ac" "\<not> has ac REDIS_SUBSCRIBED" "holds (a_replies ac) ps"
    "CR \<notin> set a" "NUL \<notin> set a" "length a < 2 ^ 31" "keyword a \<noteq> ''unsubscribe''" "keyword a \<noteq> ''monitor''"
    "keyword a = ''subscribe'' \<longrightarrow> args = []" "length out + length (command (a # args)) < 2 ^ 63" "\<And>n. grants A n"
  shows "\<exists>ac' es. asyncCommand A lc ac fn pd (command (a # args) @ NUL # s) (length (command (a # args))) = Some (REDIS_OK, ac') \<and>
    listening A F (a_c ac') ty os q (out @ command (a # args)) \<and> holds (a_replies ac') (ps @ [(fn, 1, pd)]) \<and>
    k_heap (a_c ac') = k_heap (a_c ac) \<and> c_flags (k_ctx (a_c ac')) = c_flags (k_ctx (a_c ac)) \<and>
    a_log ac' = a_log ac @ es \<and> calls es = []"
proof -
  let ?cb = "\<lparr>cb_next = 0, cb_fn = fn, cb_pending_subs = 1, cb_privdata = pd\<rparr>"
  obtain l where l: "redisPushCallback A (a_replies ac) ?cb = Some (REDIS_OK, l)" "holds l (ps @ [(fn, 1, pd)])"
    using redisPushCallback_ok [OF assms(4), of A ?cb] assms(12) by (auto simp: payload_def)
  have r: "register_callback A ac ?cb (command (a # args) @ NUL # s) = Some (Some (ac\<lparr>a_replies := l\<rparr>))"
    using assms(3,8-10) l(1) by (cases "args = []") (simp_all add: register_cases [OF assms(5-7)])
  have len: "length (command (a # args)) \<le> length (command (a # args) @ NUL # s)" by simp
  obtain b where b: "appendCommand A lc (a_c ac) (command (a # args) @ NUL # s) (length (command (a # args))) =
      Some (REDIS_OK, (a_c ac)\<lparr>k_ctx := (k_ctx (a_c ac))\<lparr>c_obuf := Ptr b\<rparr>\<rparr>)" "sds_ok b" "sds_str b = out @ command (a # args)"
    using appendCommand_spec [OF assms(1,12) len assms(11), of lc] by auto
  let ?ac = "ac\<lparr>a_replies := l, a_c := (a_c ac)\<lparr>k_ctx := (k_ctx (a_c ac))\<lparr>c_obuf := Ptr b\<rparr>\<rparr>\<rparr>"
  have "asyncCommand A lc ac fn pd (command (a # args) @ NUL # s) (length (command (a # args))) =
      Some (REDIS_OK, EL_ADD_WRITE ?ac)"
    using assms(2) r b(1) by (simp add: asyncCommand_def closing_def)
  moreover have "listening A F (a_c ?ac) ty os q (out @ command (a # args))"
    using listening_obuf [OF assms(1) b(2)] b(3) by simp
  ultimately show ?thesis using l(2) calls_EL(2) [of ?ac] by auto
qed

section \<open>The dictionaries of subscriptions\<close>

definition skey :: "sds \<Rightarrow> bool" where
  "skey s \<longleftrightarrow> sds_ok s \<and> sdslen s < 2 ^ 31"

lemma callbackDict_ok: "grants A 32 \<Longrightarrow> dictType_ok skey sds_str (hash_loop 5381) (callbackDict A)"
proof -
  assume A: "grants A 32"
  have rd: "mem_read (buf s) 0 (sdslen s) = Some (sds_str s)" "sdslen s \<le> length (buf s)" if "skey s" for s
    using sds_okD [of s] that by (auto simp: skey_def mem_read_def sds_str_def)
  have len: "to_int (int (sdslen s)) = int (sdslen s)" "length (sds_str s) = sdslen s" if "skey s" for s
    using that length_sds_str by (simp_all add: skey_def cint_simps)
  have "callbackHash s = Some (hash_loop 5381 (sds_str s))" if "skey s" for s
    using len [OF that] rd [OF that] dictGenHashFunction_spec [of "sdslen s" "buf s"]
    by (simp add: callbackHash_def sds_str_def)
  moreover have "callbackKeyCompare s t = Some (sds_str s = sds_str t)" if "skey s" "skey t" for s t
    using len [OF that(1)] len [OF that(2)] rd [OF that(1)] rd [OF that(2)]
    by (auto simp: callbackKeyCompare_def Let_def)
  ultimately show ?thesis
    using A by (auto simp: dictType_ok_def callbackDict_def callbackValDup_def)
qed

text \<open>The subscriptions as a map from channels to callbacks.\<close>

abbreviation subs_ok :: "(sds, redisCallback) dict \<Rightarrow> bool" where
  "subs_ok \<equiv> dict_ok skey sds_str (hash_loop 5381)"

abbreviation subs :: "(sds, redisCallback) dict \<Rightarrow> bytes \<Rightarrow> redisCallback option" where
  "subs \<equiv> dict_map sds_str"

text \<open>What a \<^verbatim>\<open>SUBSCRIBE\<close> does to the map: the counter of a channel that is there is carried over.\<close>

fun enrol :: "(bytes \<Rightarrow> redisCallback option) \<Rightarrow> redisCallback \<Rightarrow> bytes list \<Rightarrow> bytes \<Rightarrow> redisCallback option" where
  "enrol m cb [] = m"
| "enrol m cb (c # cs) =
     (let cb = (case m c of Some x \<Rightarrow> cb\<lparr>cb_pending_subs := cb_pending_subs x + 1\<rparr> | None \<Rightarrow> cb)
      in enrol (m(c \<mapsto> cb)) cb cs)"

lemma enrol_binds:
  "c \<in> set cs \<Longrightarrow> \<exists>x. enrol m cb cs c = Some x \<and> cb_fn x = cb_fn cb \<and> cb_privdata x = cb_privdata cb"
  "c \<notin> set cs \<Longrightarrow> enrol m cb cs c = m c"
proof (induction cs arbitrary: m cb)
  case (Cons d cs)
  {
    case 1
    show ?case
    proof (cases "c \<in> set cs")
      case True
      then show ?thesis using Cons.IH(1) [OF True] by (fastforce simp: Let_def split: option.splits)
    next
      case False
      then show ?thesis using 1 Cons.IH(2) [OF False] by (auto simp: Let_def split: option.splits)
    qed
  next
    case 2
    then show ?case using Cons.IH(2) by (auto simp: Let_def split: option.splits)
  }
qed simp_all

lemma subscribe_loop_spec:
  assumes "\<And>n. grants A n"
  shows "subs_ok ht \<Longrightarrow> ht_used ht + length cs < 2 ^ 31 \<Longrightarrow> \<forall>c \<in> set cs. length c < 2 ^ 31 \<Longrightarrow>
    \<exists>ht'. subscribe_loop A ht cb (concat (map bulk cs) @ NUL # s) = Some ht' \<and> subs_ok ht' \<and>
      subs ht' = enrol (subs ht) cb cs"
proof (induction cs arbitrary: ht cb)
  case Nil
  then show ?case by (subst subscribe_loop.simps) (simp add: nextArgument_end)
next
  case (Cons c cs)
  let ?s = "concat (map bulk cs) @ NUL # s"
  have c: "length c < 2 ^ 31" "ht_used ht < 2 ^ 31" using Cons.prems(2,3) by simp_all
  have n: "nextArgument (concat (map bulk (c # cs)) @ NUL # s) = Some (Some (c @ CRLF @ ?s, length c, ?s))"
    using nextArgument_bulk [of "[]" c ?s] c(1) by simp
  have "length c < 2 ^ 63" "length c \<le> length (c @ CRLF @ ?s)" using c(1) by simp_all
  from sdsnewlen_granted [OF this assms] obtain t where t: "sdsnewlen A (Ptr (c @ CRLF @ ?s)) (length c) = Some (Ptr t)"
    "sds_ok t" "sds_str t = c" by auto
  then have k: "skey t" using c(1) length_sds_str [of t] by (simp add: skey_def)
  let ?cb = "case subs ht c of Some x \<Rightarrow> cb\<lparr>cb_pending_subs := cb_pending_subs x + 1\<rparr> | None \<Rightarrow> cb"
  obtain de where de: "dictFind ht t = Some de"
    "(case de of Ptr de \<Rightarrow> cb\<lparr>cb_pending_subs := cb_pending_subs (he_val de) + 1\<rparr> | _ \<Rightarrow> cb) = ?cb"
    by (cases rule: dictFind_spec [OF Cons.prems(1) k, case_names found absent]) (auto simp: t(3))
  obtain r ht1 ev where h: "dictReplace A ht t ?cb = Some (r, ht1, ev)" "subs_ok ht1" "subs ht1 = (subs ht)(c \<mapsto> ?cb)"
    "ht_used ht1 \<le> Suc (ht_used ht)"
    using dictReplace_spec [OF Cons.prems(1) k c(2) assms, of ?cb] t(3) by metis
  have "ht_used ht1 + length cs < 2 ^ 31" "\<forall>c \<in> set cs. length c < 2 ^ 31" using h(4) Cons.prems(2,3) by simp_all
  from Cons.IH [OF h(2) this, of ?cb] obtain ht' where
    i: "subscribe_loop A ht1 ?cb ?s = Some ht'" "subs_ok ht'" "subs ht' = enrol (subs ht1) ?cb cs" by blast
  have "subscribe_loop A ht cb (concat (map bulk (c # cs)) @ NUL # s) = Some ht'"
    using n t(1) de h(1) i(1) by (subst subscribe_loop.simps) simp
  with i h(3) show ?case by (simp add: Let_def)
qed

unbundle bit_operations_syntax

lemma asyncCommand_subscribes:
  assumes "listening A F (a_c ac) ty os q out" "\<not> closing ac" "CR \<notin> set a" "NUL \<notin> set a" "length a < 2 ^ 31"
    "keyword a = ''subscribe''" "args \<noteq> []" "\<forall>c \<in> set args. length c < 2 ^ 31"
    "(if is_p a then a_patterns ac else a_channels ac) = Ptr ht" "subs_ok ht" "ht_used ht + length args < 2 ^ 31"
    "length out + length (command (a # args)) < 2 ^ 63" "\<And>n. grants A n"
  shows "\<exists>ac' ht'. asyncCommand A lc ac fn pd (command (a # args) @ NUL # s) (length (command (a # args))) = Some (REDIS_OK, ac') \<and>
    listening A F (a_c ac') ty os q (out @ command (a # args)) \<and> has ac' REDIS_SUBSCRIBED \<and> subs_ok ht' \<and>
    (if is_p a then a_patterns ac' else a_channels ac') = Ptr ht' \<and>
    (if is_p a then a_channels ac' = a_channels ac else a_patterns ac' = a_patterns ac) \<and>
    a_replies ac' = a_replies ac \<and> a_invalid ac' = a_invalid ac \<and>
    subs ht' = enrol (subs ht) \<lparr>cb_next = 0, cb_fn = fn, cb_pending_subs = 1, cb_privdata = pd\<rparr> args"
proof -
  let ?cb = "\<lparr>cb_next = 0, cb_fn = fn, cb_pending_subs = 1, cb_privdata = pd\<rparr>"
  obtain ht' where h: "subscribe_loop A ht ?cb (concat (map bulk args) @ NUL # s) = Some ht'" "subs_ok ht'"
    "subs ht' = enrol (subs ht) ?cb args"
    using subscribe_loop_spec [OF assms(13,10,11,8)] by blast
  let ?ac1 = "(if is_p a then (set_flag REDIS_SUBSCRIBED ac)\<lparr>a_patterns := Ptr ht'\<rparr>
    else (set_flag REDIS_SUBSCRIBED ac)\<lparr>a_channels := Ptr ht'\<rparr>)"
  have d: "(if is_p a then a_patterns (set_flag REDIS_SUBSCRIBED ac) else a_channels (set_flag REDIS_SUBSCRIBED ac)) = Ptr ht"
    using assms(9) by (cases "is_p a") (simp_all add: set_flag_def)
  have r: "register_callback A ac ?cb (command (a # args) @ NUL # s) = Some (Some ?ac1)"
    using assms(6,7) d h(1)
    by (cases "is_p a") (simp_all add: register_cases [OF assms(3-5)])
  have l: "listening A F (a_c ?ac1) ty os q out"
    using listening_flags(1) [OF assms(1), of REDIS_SUBSCRIBED] by (simp add: flag_defs)
  have len: "length (command (a # args)) \<le> length (command (a # args) @ NUL # s)" by simp
  obtain b where b: "appendCommand A lc (a_c ?ac1) (command (a # args) @ NUL # s) (length (command (a # args))) =
      Some (REDIS_OK, (a_c ?ac1)\<lparr>k_ctx := (k_ctx (a_c ?ac1))\<lparr>c_obuf := Ptr b\<rparr>\<rparr>)" "sds_ok b" "sds_str b = out @ command (a # args)"
    using appendCommand_spec [OF l assms(13) len assms(12), of lc] by auto
  let ?ac = "?ac1\<lparr>a_c := (a_c ?ac1)\<lparr>k_ctx := (k_ctx (a_c ?ac1))\<lparr>c_obuf := Ptr b\<rparr>\<rparr>\<rparr>"
  have "asyncCommand A lc ac fn pd (command (a # args) @ NUL # s) (length (command (a # args))) =
      Some (REDIS_OK, EL_ADD_WRITE ?ac)"
    using assms(2) r b(1) by (simp add: asyncCommand_def closing_def)
  moreover have "listening A F (a_c ?ac) ty os q (out @ command (a # args))"
    using listening_obuf [OF l b(2)] b(3) by simp
  moreover have "has ?ac REDIS_SUBSCRIBED"
    using has_set_same [of REDIS_SUBSCRIBED ac] by (simp add: flag_def flag_defs)
  ultimately show ?thesis using h(2,3)
    by (intro exI [of _ "EL_ADD_WRITE ?ac"] exI [of _ ht']) (simp add: set_flag_def)
qed

section \<open>Messages\<close>

lemma lower_NUL: "c_tolower c = NUL \<longleftrightarrow> c = NUL"
proof
  assume a: "c_tolower c = NUL"
  show "c = NUL"
  proof (cases "65 \<le> byte c \<and> byte c \<le> 90")
    case True
    then have "byte (c_tolower c) = byte c + 32" by (simp add: c_tolower_def)
    with a True show ?thesis by simp
  qed (use a in \<open>auto simp: c_tolower_def\<close>)
qed (simp add: c_tolower_def)

lemma strcaseeq_word: "NUL \<notin> set s \<Longrightarrow> NUL \<notin> set lit \<Longrightarrow> map c_tolower lit = lit \<Longrightarrow>
    strcaseeq (s @ [NUL]) lit = Some (map c_tolower s = lit)"
  unfolding strcaseeq_def
proof (induction s arbitrary: lit)
  case Nil
  then show ?case by (cases lit) (auto simp: c_tolower_def)
next
  case (Cons c s)
  show ?case
  proof (cases lit)
    case Nil
    with Cons.prems show ?thesis using lower_NUL [of c] lower_NUL [of NUL] by auto
  next
    case (Cons d ds)
    with Cons.prems Cons.IH [of ds] show ?thesis by (cases "c_tolower c = d") auto
  qed
qed

lemma kind_word:
  assumes "NUL \<notin> set kind" "NUL \<notin> set lit" "map c_tolower lit = lit"
  shows "strcaseeq (drop (if is_p kind then 1 else 0) (kind @ [NUL])) lit = Some (keyword kind = lit)"
proof (cases kind)
  case Nil
  with strcaseeq_word [OF assms] show ?thesis by (auto simp: keyword_def is_p_def)
next
  case (Cons c cs)
  then have "keyword kind = (if is_p kind then map c_tolower cs else map c_tolower kind)"
    by (simp add: keyword_def is_p_def)
  with strcaseeq_word [OF assms] strcaseeq_word [of cs lit] assms Cons show ?thesis by simp
qed

text \<open>What a message about a channel does to the subscriptions, and the callback that it is for.\<close>

definition heard :: "bytes \<Rightarrow> (bytes \<Rightarrow> redisCallback option) \<Rightarrow> bytes \<Rightarrow> bytes \<Rightarrow> redisCallback option" where
  "heard kind m c = (case m c of
     None \<Rightarrow> m
   | Some cb \<Rightarrow>
       if keyword kind = ''subscribe'' then m(c \<mapsto> cb\<lparr>cb_pending_subs := cb_pending_subs cb - 1\<rparr>)
       else if keyword kind = ''unsubscribe'' \<and> cb_pending_subs cb = 0 then m(c := None)
       else m)"

lemma subscribe_found_spec:
  assumes "subs_ok ht" "skey t" "subs ht (sds_str t) = Some cb" "NUL \<notin> set kind"
    "keyword kind = ''unsubscribe'' \<longrightarrow> element_of h r 2 = Some e \<and> rep_type e = REDIS_REPLY_INTEGER"
  shows "\<exists>cb' ht'. subscribe_found h r (drop (if is_p kind then 1 else 0) (kind @ [NUL])) t ht cb =
      Some (cb', ht', keyword kind = ''unsubscribe'' \<and> rep_integer e = 0) \<and> subs_ok ht' \<and>
    cb_fn cb' = cb_fn cb \<and> cb_privdata cb' = cb_privdata cb \<and> subs ht' = heard kind (subs ht) (sds_str t)"
proof -
  let ?k = "drop (if is_p kind then 1 else 0) (kind @ [NUL])"
  have s: "strcaseeq ?k ''subscribe'' = Some (keyword kind = ''subscribe'')"
    "strcaseeq ?k ''unsubscribe'' = Some (keyword kind = ''unsubscribe'')"
    by (rule kind_word; use assms(4) in \<open>simp add: c_tolower_def\<close>)+
  note code = subscribe_found_def Let_def
  consider (sub) "keyword kind = ''subscribe''" | (del) "keyword kind = ''unsubscribe''" "cb_pending_subs cb = 0"
    | (keep) "keyword kind = ''unsubscribe''" "cb_pending_subs cb \<noteq> 0"
    | (other) "keyword kind \<noteq> ''subscribe''" "keyword kind \<noteq> ''unsubscribe''" by blast
  then show ?thesis
  proof cases
    case sub
    let ?cb = "cb\<lparr>cb_pending_subs := cb_pending_subs cb - 1\<rparr>"
    obtain ht' where "set_found ht t ?cb = Some ht'" "subs_ok ht'" "subs ht' = (subs ht)(sds_str t \<mapsto> ?cb)"
      by (rule set_found_spec [OF assms(1-3)])
    with s sub assms(3) show ?thesis by (simp add: code heard_def del: drop_append)
  next
    case del
    obtain ht' ev where "dictDelete ht t = Some (DICT_OK, ht', ev)" "subs_ok ht'" "subs ht' = (subs ht)(sds_str t := None)"
      using assms(3) by (cases rule: dictDelete_spec [OF assms(1,2), case_names deleted absent]) auto
    with s del assms(3,5) show ?thesis by (simp add: code heard_def del: drop_append)
  next
    case keep
    with s assms(1,3,5) show ?thesis by (simp add: code heard_def del: drop_append)
  next
    case other
    with s assms(1,3) show ?thesis by (simp add: code heard_def del: drop_append)
  qed
qed

lemma denotes_cell: "denotes m a v \<Longrightarrow> \<exists>c. m a = Some c"
  by (cases v) (auto split: option.splits)

lemma element_denotes:
  assumes "denotes (cells h) a (RArr vs)" "i < length vs"
  obtains r e b where "cell h a = Some r" "rep_type r = REDIS_REPLY_ARRAY" "rep_elements r = length vs"
    "element_of h r i = Some e" "cells h b = Some e" "denotes (cells h) b (vs ! i)"
proof -
  obtain r es where r: "cells h a = Some r" "rep_type r = REDIS_REPLY_ARRAY" "rep_elements r = length vs"
    "rep_element r = Ptr es" "list_all2 (denotes (cells h)) es vs"
    using assms by (auto split: option.splits ptr.splits)
  then have "denotes (cells h) (es ! i) (vs ! i)" "i < length es"
    using assms(2) by (auto simp: list_all2_conv_all_nth)
  moreover obtain e where "cells h (es ! i) = Some e" using denotes_cell [OF calculation(1)] by blast
  ultimately show ?thesis using r by (intro that [of r e "es ! i"]) (simp_all add: cell_def element_of_def)
qed

definition with_subs :: "bool \<Rightarrow> (sds, redisCallback) dict \<Rightarrow> redisAsyncContext \<Rightarrow> redisAsyncContext" where
  "with_subs p ht ac = (if p then ac\<lparr>a_patterns := Ptr ht\<rparr> else ac\<lparr>a_channels := Ptr ht\<rparr>)"

lemma GetSubscribe_spec:
  assumes "denotes (cells (k_heap (a_c ac))) reply (RArr (RBulk kind # RBulk ch # vs))" "NUL \<notin> set kind" "length ch < 2 ^ 31"
    "(if is_p kind then a_patterns ac else a_channels ac) = Ptr ht" "subs_ok ht" "subs ht ch = Some cb"
    "(if is_p kind then a_channels ac else a_patterns ac) = Ptr other"
    "keyword kind = ''unsubscribe'' \<longrightarrow> (\<exists>i vs'. vs = RInt i # vs')" "\<And>n. grants A n"
  shows "\<exists>cb' ht'. cb_fn cb' = cb_fn cb \<and> cb_privdata cb' = cb_privdata cb \<and> subs_ok ht' \<and>
    subs ht' = heard kind (subs ht) ch \<and>
    redisGetSubscribeCallback A ac reply dstcb = Some (cb',
      if keyword kind = ''unsubscribe'' \<and> hd vs = RInt 0 \<and> ht_used ht' = 0 \<and> ht_used other = 0
      then clear_flag REDIS_SUBSCRIBED (with_subs (is_p kind) ht' ac) else with_subs (is_p kind) ht' ac)"
proof -
  let ?h = "k_heap (a_c ac)"
  let ?vs = "RBulk kind # RBulk ch # vs"
  obtain r e0 where e0: "cell ?h reply = Some r" "rep_type r = REDIS_REPLY_ARRAY" "rep_elements r = length ?vs"
    "element_of ?h r 0 = Some e0" "rep_type e0 = REDIS_REPLY_STRING" "rep_str e0 = Ptr (kind @ [NUL])"
    by (rule element_denotes [OF assms(1), of 0]) (auto split: option.splits)
  obtain e1 where e1: "element_of ?h r 1 = Some e1" "rep_type e1 = REDIS_REPLY_STRING" "rep_str e1 = Ptr (ch @ [NUL])"
    "rep_len e1 = length ch"
    using e0(1) by (auto intro: element_denotes [OF assms(1), of 1] split: option.splits)
  obtain e2 where e2: "keyword kind = ''unsubscribe'' \<longrightarrow> element_of ?h r 2 = Some e2 \<and>
      rep_type e2 = REDIS_REPLY_INTEGER \<and> RInt (rep_integer e2) = hd vs"
  proof (cases "keyword kind = ''unsubscribe''")
    case True
    with assms(8) obtain i vs' where vs: "vs = RInt i # vs'" by blast
    show ?thesis
      by (rule element_denotes [OF assms(1), of 2]) (use vs e0(1) that in \<open>auto split: option.splits\<close>)
  qed (use that in blast)
  have "length ch < 2 ^ 63" "length ch \<le> length (ch @ [NUL])" using assms(3) by simp_all
  from sdsnewlen_granted [OF this assms(9)] obtain t where t: "sdsnewlen A (Ptr (ch @ [NUL])) (length ch) = Some (Ptr t)"
    "sds_ok t" "sds_str t = ch" by auto
  then have k: "skey t" using assms(3) length_sds_str [of t] by (simp add: skey_def)
  obtain de where de: "dictFind ht t = Some (Ptr de)" "he_val de = cb"
    using assms(6) t(3) by (cases rule: dictFind_spec [OF assms(5) k, case_names found absent]) auto
  have "subs ht (sds_str t) = Some cb" using assms(6) t(3) by simp
  from subscribe_found_spec [OF assms(5) k this assms(2), of ?h r e2] e2 obtain cb' ht' where
    f: "subscribe_found ?h r (drop (if is_p kind then 1 else 0) (kind @ [NUL])) t ht cb =
      Some (cb', ht', keyword kind = ''unsubscribe'' \<and> rep_integer e2 = 0)" "subs_ok ht'"
    "cb_fn cb' = cb_fn cb" "cb_privdata cb' = cb_privdata cb" "subs ht' = heard kind (subs ht) ch"
    using t(3) by blast
  obtain c0 where c0: "(case kind @ [NUL] of [] \<Rightarrow> None | c # _ \<Rightarrow> Some c) = Some c0" "(c_tolower c0 = CHR ''p'') = is_p kind"
    using lower_NUL [of NUL] by (cases kind) (auto simp: is_p_def)
  have l: "(keyword kind = ''unsubscribe'' \<and> rep_integer e2 = 0) = (keyword kind = ''unsubscribe'' \<and> hd vs = RInt 0)"
  proof (cases "keyword kind = ''unsubscribe''")
    case True
    then have "hd vs = RInt (rep_integer e2)" using e2 by simp
    then show ?thesis by simp
  qed simp
  have "redisGetSubscribeCallback A ac reply dstcb = Some (cb',
      if (keyword kind = ''unsubscribe'' \<and> rep_integer e2 = 0) \<and> ht_used ht' = 0 \<and> ht_used other = 0
      then clear_flag REDIS_SUBSCRIBED (with_subs (is_p kind) ht' ac) else with_subs (is_p kind) ht' ac)"
  proof (cases "is_p kind")
    case True
    with e0 e1 t(1) de f(1) c0 assms(4,7) show ?thesis
      by (simp add: redisGetSubscribeCallback_def Let_def dictSize_def with_subs_def)
  next
    case False
    with e0 e1 t(1) de f(1) c0 assms(4,7) show ?thesis
      by (simp add: redisGetSubscribeCallback_def Let_def dictSize_def with_subs_def)
  qed
  with f(2-5) show ?thesis by (intro exI [of _ cb'] exI [of _ ht']) (simp only: l conj_assoc)
qed

unbundle bit_operations_syntax

section \<open>Dispatching messages\<close>

lemma subs_flags:
  assumes "x = with_subs p ht ac \<or> x = clear_flag REDIS_SUBSCRIBED (with_subs p ht ac)"
  shows "k_heap (a_c x) = k_heap (a_c ac)" "a_replies x = a_replies ac" "a_log x = a_log ac"
    "y AND REDIS_SUBSCRIBED = 0 \<Longrightarrow> has x y = has ac y"
    "listening A F (a_c ac) ty os q out \<Longrightarrow> listening A F (a_c x) ty os q out"
proof -
  have a: "a_c (with_subs p ht ac) = a_c ac" by (simp add: with_subs_def)
  then show "k_heap (a_c x) = k_heap (a_c ac)" "a_replies x = a_replies ac" "a_log x = a_log ac"
    using assms by (auto simp: clear_flag_def with_subs_def)
  show "has x y = has ac y" if "y AND REDIS_SUBSCRIBED = 0"
    using assms that has_clear_other [of REDIS_SUBSCRIBED y "with_subs p ht ac"] a by (auto simp: and.commute)
  show "listening A F (a_c x) ty os q out" if "listening A F (a_c ac) ty os q out"
    using assms that listening_flags(2) [of A F "with_subs p ht ac" ty os q out REDIS_SUBSCRIBED] a
    by (auto simp: flag_defs)
qed

lemma process_message:
  assumes "tame A n user" "\<And>n. grants A n" "parse ty q os = Parsed (RArr (RBulk kind # RBulk ch # vs)) p"
    "listening A F (a_c ac) ty os q out" "length out + n < 2 ^ 62" "holds (a_replies ac) []"
    "\<not> closing ac" "\<not> has ac REDIS_IN_CALLBACK" "has ac REDIS_SUBSCRIBED" "NUL \<notin> set kind" "length ch < 2 ^ 31"
    "(if is_p kind then a_patterns ac else a_channels ac) = Ptr ht" "subs_ok ht" "subs ht ch = Some cb"
    "(if is_p kind then a_channels ac else a_patterns ac) = Ptr other" "cb_fn cb \<noteq> 0"
    "keyword kind = ''unsubscribe'' \<longrightarrow> (\<exists>i vs'. vs = RInt i # vs')"
  obtains ac1 cb1 new out' es a h where
    "process_loop_async A lc user ac cb0 = process_loop_async A lc user ac1 cb1"
    "listening A F (a_c ac1) (- 1) [] p (out @ out')" "holds (a_replies ac1) new" "a_log ac1 = a_log ac @ es"
    "calls es = [Called (cb_fn cb) a (cb_privdata cb) h]" "denotes (cells h) a (RArr (RBulk kind # RBulk ch # vs))"
    "\<And>y. y AND REDIS_SUBSCRIBED = 0 \<Longrightarrow> has ac1 y = has ac y" "length out' \<le> n"
proof -
  let ?v = "RArr (RBulk kind # RBulk ch # vs)"
  obtain a k where k: "redisGetReplyFromReader lc (a_c ac) = Some (REDIS_OK, a, k)" "on_heap F (k_heap k) a (Complete ?v)"
    "ready A (cells (k_heap k)) k (- 1) [] p out" "c_flags (k_ctx k) = c_flags (k_ctx (a_c ac))"
    using reader_delivers [OF assms(4,2,3)] by blast
  have a0: "a \<noteq> 0" "denotes (cells (k_heap k)) a ?v" using complete_denotes [OF k(2)] by auto
  then have get: "redisGetReply A lc (a_c ac) = Some (REDIS_OK, a, k)"
    using k(1) by (simp add: redisGetReply_def redis_err_defs)
  let ?ac = "ac\<lparr>a_c := k\<rparr>"
  have hk: "has ?ac y = has ac y" for y using k(4) by (simp add: flag_def)
  have d: "denotes (cells (k_heap (a_c ?ac))) a ?v" using a0(2) by simp
  have dicts: "(if is_p kind then a_patterns ?ac else a_channels ?ac) = Ptr ht"
    "(if is_p kind then a_channels ?ac else a_patterns ?ac) = Ptr other" using assms(12,15) by (auto split: if_splits)
  from GetSubscribe_spec [OF d assms(10,11) dicts(1) assms(13,14) dicts(2) assms(17,2), of cb0]
  obtain cb' ht' last where sub0: "cb_fn cb' = cb_fn cb" "cb_privdata cb' = cb_privdata cb"
    "redisGetSubscribeCallback A ?ac a cb0 = Some (cb', if last then clear_flag REDIS_SUBSCRIBED (with_subs (is_p kind) ht' ?ac)
      else with_subs (is_p kind) ht' ?ac)"
    by (elim exE conjE) (rule that)
  define ac2 where "ac2 = (if last then clear_flag REDIS_SUBSCRIBED (with_subs (is_p kind) ht' ?ac) else with_subs (is_p kind) ht' ?ac)"
  have sub: "cb_fn cb' = cb_fn cb" "cb_privdata cb' = cb_privdata cb" "redisGetSubscribeCallback A ?ac a cb0 = Some (cb', ac2)"
    "ac2 = with_subs (is_p kind) ht' ?ac \<or> ac2 = clear_flag REDIS_SUBSCRIBED (with_subs (is_p kind) ht' ?ac)"
    using sub0 by (simp_all add: ac2_def)
  note fl = subs_flags [OF sub(4)]
  obtain r where r: "cell (k_heap k) a = Some r" "rep_type r = REDIS_REPLY_ARRAY"
    using a0(2) by (auto simp: cell_def split: option.splits)
  have rc: "reply_callback A ?ac a cb0 = Some (Some cb', ac2)"
    using redisShiftCallback_empty [OF assms(6)] r sub(3) assms(9) hk [of REDIS_SUBSCRIBED]
    by (simp add: reply_callback_def reply_type_defs)
  have st: "listening A (cells (k_heap (a_c ac2))) (a_c ac2) (- 1) [] p out" "holds (a_replies ac2) []"
    "\<not> closing ac2" "\<not> has ac2 REDIS_IN_CALLBACK"
    using fl k(3) assms(6-8) hk by (simp_all add: ready_def closing_def flag_defs)
  have h2: "on_heap F (k_heap (a_c ac2)) a (Complete ?v)" using fl(1) k(2) by simp
  have fn: "cb_fn cb' \<noteq> 0" using sub(1) assms(16) by simp
  obtain ac1 h new out' es where u: "redisRunCallback user ac2 cb' a = Some ac1"
    "free_reply ac1 a = Some (ac1\<lparr>a_c := (a_c ac1)\<lparr>k_heap := h\<rparr>\<rparr>)"
    "listening A F ((a_c ac1)\<lparr>k_heap := h\<rparr>) (- 1) [] p (out @ out')" "length out' \<le> n"
    "holds (a_replies ac1) ([] @ new)" "c_flags (k_ctx (a_c ac1)) = c_flags (k_ctx (a_c ac2))"
    "a_log ac1 = a_log ac2 @ Called (cb_fn cb') a (cb_privdata cb') (k_heap (a_c ac2)) # es" "calls es = []"
    by (rule answer_one [OF assms(1) st(1) assms(5) st(2-4) fn h2])
  let ?ac1 = "ac1\<lparr>a_c := (a_c ac1)\<lparr>k_heap := h\<rparr>\<rparr>"
  have h1: "has ?ac1 y = has ac y" if "y AND REDIS_SUBSCRIBED = 0" for y
    using u(6) fl(4) [OF that] hk by (simp add: flag_def)
  have nf: "\<not> has ?ac1 REDIS_FREEING" using h1 [of REDIS_FREEING] assms(7) by (simp add: flag_defs closing_def)
  have "process_loop_async A lc user ac cb0 = process_loop_async A lc user ?ac1 cb'"
    using get rc u(1,2) fn a0(1) nf by (subst process_loop_async.simps) simp
  moreover have "a_log ?ac1 = a_log ac @ Called (cb_fn cb) a (cb_privdata cb) (k_heap k) # es"
    using u(7) fl(1,3) sub(1,2) by simp
  moreover have "calls (Called (cb_fn cb) a (cb_privdata cb) (k_heap k) # es) = [Called (cb_fn cb) a (cb_privdata cb) (k_heap k)]"
    using u(8) by (simp add: calls_def)
  ultimately show ?thesis using u(3-5) h1 a0(2)
    by (intro that [of ?ac1 cb' out' new "Called (cb_fn cb) a (cb_privdata cb) (k_heap k) # es" a "k_heap k"])
      (simp_all del: denotes.simps)
qed

lemma reads_encodes: "list_all (resp_ok 0) vs \<Longrightarrow> reads (- 1) (concat (map encode vs)) [] vs (- 1) [] []"
proof (induction vs)
  case Nil
  have "parse (- 1) [] [] = Waiting (- 1) [] []" by (subst parse.simps) (simp add: item_def)
  then show ?case by (auto intro: reads.wait)
next
  case (Cons v vs)
  then have "parse (- 1) (encode v @ concat (map encode vs)) [] = Parsed v (concat (map encode vs))"
    using parse_encode [of "[]" v "concat (map encode vs)"] by (simp add: continue_def)
  with Cons show ?case by (auto intro: reads.reply)
qed

section \<open>Commands that are sent again\<close>

text \<open>A user whose functions send their command again whenever they are called.\<close>

definition resubmits :: "user \<Rightarrow> bool" where
  "resubmits user \<longleftrightarrow> (\<forall>fn r pd ac ac' ps. user fn r pd ac = Some ac' \<and> \<not> closing ac \<and> \<not> has ac REDIS_SUBSCRIBED \<and>
     holds (a_replies ac) ps \<longrightarrow>
     (\<exists>n pd'. holds (a_replies ac') (ps @ [(fn, n, pd')])) \<and> \<not> closing ac' \<and> \<not> has ac' REDIS_SUBSCRIBED)"

lemma run_replies_forever:
  "run_replies user ac = Some ac' \<Longrightarrow> resubmits user \<longrightarrow> \<not> closing ac \<longrightarrow> \<not> has ac REDIS_SUBSCRIBED \<longrightarrow>
    (\<forall>ps. holds (a_replies ac) ps \<longrightarrow> ps \<noteq> [] \<longrightarrow> (\<exists>p \<in> set ps. fst p = 0))"
proof (induction rule: run_replies.raw_induct [rotated, consumes 1, case_names step])
  case (step run user ac ac')
  note IH = step(1) and body = step(2)
  show ?case
  proof (intro impI allI)
    fix ps
    assume h: "resubmits user" "\<not> closing ac" "\<not> has ac REDIS_SUBSCRIBED" "holds (a_replies ac) ps" "ps \<noteq> []"
    then obtain p qs where ps: "ps = p # qs" by (cases ps) auto
    obtain cb l where cb: "redisShiftCallback (a_replies ac) = Some (REDIS_OK, Some cb, l)" "payload cb = p" "holds l qs"
      using redisShiftCallback_first h(4) ps by blast
    let ?ac = "ac\<lparr>a_replies := l\<rparr>"
    obtain ac1 where r: "redisRunCallback user ?ac cb 0 = Some ac1" "run user ac1 = Some ac'"
      using body cb(1) by (auto simp: bind_eq_Some_conv)
    show "\<exists>p \<in> set ps. fst p = 0"
    proof (rule ccontr)
      assume "\<not> ?thesis"
      then have fn: "cb_fn cb \<noteq> 0" "\<forall>p \<in> set qs. fst p \<noteq> 0" using ps cb(2) by (auto simp: payload_def)
      let ?ac1 = "notify (set_flag REDIS_IN_CALLBACK ?ac) (Called (cb_fn cb) 0 (cb_privdata cb) (k_heap (a_c ?ac)))"
      obtain ac2 where u: "user (cb_fn cb) 0 (cb_privdata cb) ?ac1 = Some ac2" "ac1 = clear_flag REDIS_IN_CALLBACK ac2"
        using r(1) fn(1) by (auto simp: redisRunCallback_def set_flag_def bind_eq_Some_conv)
      have "\<not> closing ?ac1" "\<not> has ?ac1 REDIS_SUBSCRIBED" "holds (a_replies ?ac1) qs"
        using h(2,3) cb(3) has_set_other [of REDIS_IN_CALLBACK _ ?ac] by (simp_all add: closing_def flag_defs) (simp_all add: set_flag_def flag_def)
      then obtain n pd where q: "holds (a_replies ac2) (qs @ [(cb_fn cb, n, pd)])" "\<not> closing ac2" "\<not> has ac2 REDIS_SUBSCRIBED"
        using h(1) u(1) unfolding resubmits_def by metis
      have "\<not> closing ac1" "\<not> has ac1 REDIS_SUBSCRIBED" "holds (a_replies ac1) (qs @ [(cb_fn cb, n, pd)])"
        unfolding u(2) using q by (simp_all add: closing_def has_simps flag_defs) (simp add: clear_flag_def)
      with IH [OF r(2)] h(1) fn show False by fastforce
    qed
  qed
qed

lemma set_error_flags: "set_error lc k type str = Some k' \<Longrightarrow> c_flags (k_ctx k') = c_flags (k_ctx k)"
  by (auto simp: set_error_def redisSetError_def bind_eq_Some_conv split: option.splits if_splits)

lemma appendCommand_flags:
  assumes "appendCommand A lc k cmd n = Some (rc, k')"
  shows "c_flags (k_ctx k') = c_flags (k_ctx k)"
proof -
  obtain s r where "sdscatlen A s cmd n = Some r" "c_obuf (k_ctx k) = Ptr s"
    using assms by (auto simp: appendCommand_def bind_eq_Some_conv)
  with assms show ?thesis
    by (cases r) (auto simp: appendCommand_def bind_eq_Some_conv dest!: set_error_flags)
qed

lemma resubmits_command:
  assumes "CR \<notin> set a" "NUL \<notin> set a" "length a < 2 ^ 31" "keyword a \<notin> {''subscribe'', ''unsubscribe'', ''monitor''}"
    "\<And>n. grants A n"
  shows "resubmits (\<lambda>fn r pd ac. do { (rc, ac) \<leftarrow> asyncCommand A lc ac fn pd (command (a # args) @ NUL # s) n; Some ac })"
  unfolding resubmits_def
proof (intro allI impI, elim conjE)
  fix fn r pd ac ac' ps
  assume u: "do { (rc, ac) \<leftarrow> asyncCommand A lc ac fn pd (command (a # args) @ NUL # s) n; Some ac } = Some ac'"
    and h: "\<not> closing ac" "\<not> has ac REDIS_SUBSCRIBED" "holds (a_replies ac) ps"
  let ?cb = "\<lparr>cb_next = 0, cb_fn = fn, cb_pending_subs = 1, cb_privdata = pd\<rparr>"
  obtain l where l: "redisPushCallback A (a_replies ac) ?cb = Some (REDIS_OK, l)" "holds l (ps @ [(fn, 1, pd)])"
    using redisPushCallback_ok [OF h(3), of A ?cb] assms(5) by (auto simp: payload_def)
  have "register_callback A ac ?cb (command (a # args) @ NUL # s) = Some (Some (ac\<lparr>a_replies := l\<rparr>))"
    using assms(4) h(2) l(1) by (cases "args = []") (simp_all add: register_cases [OF assms(1-3)])
  then obtain rc k where k: "appendCommand A lc (a_c ac) (command (a # args) @ NUL # s) n = Some (rc, k)"
    "ac' = EL_ADD_WRITE (ac\<lparr>a_replies := l, a_c := k\<rparr>)"
    using u h(1) by (auto simp: asyncCommand_def closing_def bind_eq_Some_conv)
  with appendCommand_flags [OF k(1)] h l(2) show
    "(\<exists>m pd'. holds (a_replies ac') (ps @ [(fn, m, pd')])) \<and> \<not> closing ac' \<and> \<not> has ac' REDIS_SUBSCRIBED"
    by (auto simp: closing_def flag_def)
qed

end
