(* ===== verification/Sds_Properties.thy ===== *)
theory Sds_Properties
  imports Sds_Text
begin

text \<open>
  The properties of the strings of \<^verbatim>\<open>lib/hiredis/sds.c\<close>, each with a concrete instance.
\<close>

text \<open>A string with a one-byte header, for the instances.\<close>

definition sds_of :: "bytes \<Rightarrow> sds" where
  "sds_of s = \<lparr>hdr = sdshdr8 (of_nat (length s)) (of_nat (length s)), buf = s @ [NUL]\<rparr>"

lemma sds_of:
  assumes "length s < 256"
  shows "sds_ok (sds_of s)" "sds_str (sds_of s) = s" "sdslen (sds_of s) = length s"
  using assms by (simp_all add: sds_ok_def sds_str_def sds_of_def sdslen_def sdsalloc_def cint_simps)

section \<open>Creating, growing and appending\<close>

text \<open>\<^verbatim>\<open>sdscatlen\<close> either appends exactly the \<open>n\<close> bytes, leaving a well-formed string, or
  fails for lack of memory; then there was not enough room, and the old string is intact or freed.\<close>

lemma sds_cat_appends:
  assumes "sds_ok s" "n \<le> length t" "sdslen s + n < 2 ^ 63"
  shows "(\<exists>s'. sdscatlen A s t n = Some (Moved s') \<and> sds_ok s' \<and> sds_str s' = sds_str s @ take n t) \<or>
    (sdsavail s < n \<and>
      (sdscatlen A s t n = Some (Failed (Ptr s)) \<or> sdscatlen A s t n = Some (Failed Dangling)))"
  by (cases rule: sdscatlen_cases [OF assms, of A, case_names app oom]) auto

theorem sds_cat_appends_witness:
  "(\<exists>s'. sdscatlen roomy (sds_of ''ab'') ''cde'' 2 = Some (Moved s') \<and> sds_ok s' \<and> sds_str s' = ''abcd'') \<or>
    (sdsavail (sds_of ''ab'') < 2 \<and>
      (sdscatlen roomy (sds_of ''ab'') ''cde'' 2 = Some (Failed (Ptr (sds_of ''ab''))) \<or>
       sdscatlen roomy (sds_of ''ab'') ''cde'' 2 = Some (Failed Dangling)))"
  using sds_cat_appends [of "sds_of ''ab''" 2 "''cde''" roomy] by (simp add: sds_of)

text \<open>\<^verbatim>\<open>sdsnewlen\<close> returns null, or a well-formed string with the \<open>n\<close> bytes it was given
  (NULs when it was given none), for every length and so for every type of header.\<close>

lemma sds_new_content:
  assumes "n < 2 ^ 63" "init = Null \<or> (init = Ptr p \<and> n \<le> length p)"
  shows "sdsnewlen A init n = Some Null \<or>
    (\<exists>s. sdsnewlen A init n = Some (Ptr s) \<and> sds_ok s \<and>
      sds_str s = (if init = Null then replicate n NUL else take n p))"
  by (rule sdsnewlen_spec [OF assms])

theorem sds_new_content_witness:
  "sdsnewlen roomy (Ptr ''redis'') 3 = Some Null \<or>
    (\<exists>s. sdsnewlen roomy (Ptr ''redis'') 3 = Some (Ptr s) \<and> sds_ok s \<and> sds_str s = ''red'')"
  using sds_new_content [of 3 "Ptr ''redis''" "''redis''" roomy] by simp

text \<open>\<^verbatim>\<open>sdsgrowzero\<close> never faults; the grown string is the old one followed by NULs up to the
  asked length, and the same string when that is not longer.\<close>

lemma sds_growzero_pads:
  assumes "sds_ok s" "n < 2 ^ 63"
  shows "\<exists>r. sdsgrowzero A s n = Some r \<and>
    (\<forall>s'. r = Moved s' \<longrightarrow> sds_ok s' \<and> sds_str s' = sds_str s @ replicate (n - sdslen s) NUL)"
  by (rule sdsgrowzero_spec [OF assms])

lemma sds_growzero_pads_witness:
  "\<exists>r. sdsgrowzero roomy (sds_of ''ab'') 4 = Some r \<and>
    (\<forall>s'. r = Moved s' \<longrightarrow> sds_ok s' \<and> sds_str s' = ''ab'' @ replicate 2 NUL)"
  using sds_growzero_pads [of "sds_of ''ab''" 4 roomy] by (simp add: sds_of)

text \<open>\<^verbatim>\<open>sdsRemoveFreeSpace\<close> keeps the content and leaves no free space, or fails and leaves
  the string as it is; it never frees the string on failure.\<close>

lemma sds_shrink_exact:
  assumes "sds_ok s" "sdslen s < 2 ^ 63"
  shows "sdsRemoveFreeSpace A s = Some (Failed (Ptr s)) \<or>
    (\<exists>s'. sdsRemoveFreeSpace A s = Some (Moved s') \<and> sds_ok s' \<and> sds_str s' = sds_str s \<and>
      sdsavail s' = 0)"
  by (rule sdsRemoveFreeSpace_spec [OF assms])

lemma sds_shrink_exact_witness:
  "sdsRemoveFreeSpace roomy (sds_of ''ab'') = Some (Failed (Ptr (sds_of ''ab''))) \<or>
    (\<exists>s'. sdsRemoveFreeSpace roomy (sds_of ''ab'') = Some (Moved s') \<and> sds_ok s' \<and> sds_str s' = ''ab'' \<and>
      sdsavail s' = 0)"
  using sds_shrink_exact [of "sds_of ''ab''" roomy] by (simp add: sds_of)

section \<open>Numbers and formats\<close>

text \<open>\<^verbatim>\<open>sdsfromlonglong\<close> returns null or the decimal numeral of its argument, for every
  64-bit value, \<^verbatim>\<open>LLONG_MIN\<close> included.\<close>

lemma sds_number_text:
  "sdsfromlonglong A v = Some Null \<or>
    (\<exists>s. sdsfromlonglong A v = Some (Ptr s) \<and> sds_ok s \<and> sds_str s = sdec (sint v))"
  by (rule sdsfromlonglong_spec)

text \<open>With memory, \<^verbatim>\<open>sdscatfmt\<close> appends the expansion of its format, where \<^verbatim>\<open>%s\<close>,
  \<^verbatim>\<open>%S\<close>, \<^verbatim>\<open>%i\<close>, \<^verbatim>\<open>%I\<close>, \<^verbatim>\<open>%u\<close> and \<^verbatim>\<open>%U\<close> stand for their arguments and a percent sign before
  another character for that character.\<close>

lemma sds_catfmt_expands:
  assumes "sds_ok s" "list_all va_ok ap" "expand_fmt fmt ap = Some t"
    "length (sds_str s) + length t < 2 ^ 31"
  shows "sdscatfmt A s fmt ap = Some Null \<or>
    (\<exists>s'. sdscatfmt A s fmt ap = Some (Ptr s') \<and> sds_ok s' \<and> sds_str s' = sds_str s @ t)"
  by (rule sdscatfmt_spec [OF assms])

theorem sds_catfmt_expands_witness:
  "sdscatfmt roomy (sds_of ''n'') (''=%s%%'' @ [NUL]) [VaStr (''xy'' @ [NUL])] = Some Null \<or>
    (\<exists>s'. sdscatfmt roomy (sds_of ''n'') (''=%s%%'' @ [NUL]) [VaStr (''xy'' @ [NUL])] = Some (Ptr s') \<and>
      sds_ok s' \<and> sds_str s' = ''n=xy%'')"
  using sds_catfmt_expands [of "sds_of ''n''" "[VaStr (''xy'' @ [NUL])]" "''=%s%%'' @ [NUL]" "''=xy%''" roomy]
  by (simp add: sds_of va_ok_def is_conv_def va_text_def)

section \<open>Parts and comparison\<close>

text \<open>\<^verbatim>\<open>sdstrim\<close> removes exactly the longest prefix and suffix of characters of the set.\<close>

lemma sds_trim_strips:
  assumes "sds_ok s"
  shows "\<exists>s'. sdstrim s cset = Some s' \<and> sds_ok s' \<and>
    sds_str s' = rev (dropWhile (in_cset cset) (rev (dropWhile (in_cset cset) (sds_str s))))"
  using sdstrim_spec [OF assms, of cset] by (simp add: strip_def)

theorem sds_trim_strips_witness:
  "\<exists>s'. sdstrim (sds_of ''xxabx'') ''x'' = Some s' \<and> sds_ok s' \<and> sds_str s' = ''ab''"
  using sds_trim_strips [of "sds_of ''xxabx''" "''x''"] by (simp add: sds_of in_cset_def)

text \<open>\<^verbatim>\<open>sdsrange\<close> on a string shorter than \<open>2 ^ 31\<close> keeps exactly the bytes from \<open>a\<close> to
  \<open>b\<close>, both included, negative indices counting from the end and the range cut to the string.\<close>

lemma sds_range_slices:
  assumes "sds_ok s" "sdslen s < 2 ^ 31"
    "- (2 ^ 31) \<le> a" "a < 2 ^ 31" "- (2 ^ 31) \<le> b" "b < 2 ^ 31"
  shows "\<exists>s'. sdsrange s a b = Some s' \<and> sds_ok s' \<and> sds_str s' = slice (sds_str s) a b"
  by (rule sdsrange_spec [OF assms])

theorem sds_range_slices_witness:
  "\<exists>s'. sdsrange (sds_of ''hello'') 1 (- 2) = Some s' \<and> sds_ok s' \<and> sds_str s' = ''ell''"
  using sds_range_slices [of "sds_of ''hello''" 1 "- 2"] by (simp add: sds_of slice_def Let_def)

text \<open>The sign of \<^verbatim>\<open>sdscmp\<close> is the lexicographic order of the contents, bytes compared as
  unsigned, and 0 is equality.\<close>

lemma sds_cmp_orders:
  assumes "sds_ok s1" "sds_ok s2" "sdslen s1 < 2 ^ 31" "sdslen s2 < 2 ^ 31"
  shows "\<exists>d. sdscmp s1 s2 = Some d \<and> (d < 0 \<longleftrightarrow> sds_str s1 < sds_str s2) \<and>
    (d = 0 \<longleftrightarrow> sds_str s1 = sds_str s2)"
  by (rule sdscmp_spec [OF assms])

theorem sds_cmp_orders_witness:
  "\<exists>d. sdscmp (sds_of ''ab'') (sds_of ''b'') = Some d \<and> d < 0"
  using sds_cmp_orders [of "sds_of ''ab''" "sds_of ''b''"] by (auto simp: sds_of less_char_def)

section \<open>Splitting, joining and quoting\<close>

text \<open>What \<^verbatim>\<open>sdssplitlen\<close> cuts at the separators, \<^verbatim>\<open>sdsjoinsds\<close> with the same separator
  puts together again, whatever the bytes are.\<close>

lemma sds_split_then_join:
  assumes "\<And>k. grants A k" "0 < n" "n \<le> length s" "n < 2 ^ 31" "0 < m" "m \<le> length sep" "m < 2 ^ 31"
  shows "sdssplitlen A s (int n) sep (int m) = Some Null \<or>
    (\<exists>ts s'. sdssplitlen A s (int n) sep (int m) = Some (Ptr ts) \<and>
      sdsjoinsds A ts sep m = Some (Ptr s') \<and> sds_ok s' \<and> sds_str s' = take n s)"
proof -
  have "sdssplitlen A s (int n) sep (int m) = Some Null \<or>
      (\<exists>ts. sdssplitlen A s (int n) sep (int m) = Some (Ptr ts) \<and> list_all sds_ok ts \<and>
        map sds_str ts = split_ref (take m sep) [] (take n s))"
    using sdssplitlen_spec [of "int n" s "int m" sep A] assms(2-7) by simp
  moreover have "length (take n s) < 2 ^ 63" using assms(3,4) by simp
  ultimately show ?thesis
    using sdsjoinsds_spec [OF assms(1) _ assms(6)] by (metis join_split_ref append_Nil)
qed

theorem sds_split_then_join_witness:
  "sdssplitlen roomy ''a,b'' (int 3) '','' (int 1) = Some Null \<or>
    (\<exists>ts s'. sdssplitlen roomy ''a,b'' (int 3) '','' (int 1) = Some (Ptr ts) \<and>
      sdsjoinsds roomy ts '','' 1 = Some (Ptr s') \<and> sds_ok s' \<and> sds_str s' = take 3 ''a,b'')"
  by (rule sds_split_then_join) simp_all

lemma length_quote: "length (quote p) \<le> 4 * length p + 2"
proof -
  have "length (concat (map repr_char p)) \<le> 4 * length p"
    by (induction p) (auto simp: repr_char_def add.commute intro: order_trans)
  then show ?thesis by (simp add: quote_def)
qed

text \<open>C40: the quoted form that \<^verbatim>\<open>sdscatrepr\<close> appends is read back by \<^verbatim>\<open>sdssplitargs\<close> as one
  argument with the original bytes, all 256 byte values included.\<close>

theorem sds_repr_roundtrip:
  assumes "\<And>k. grants A k" "sds_ok e" "sds_str e = []" "length p < 2 ^ 60"
  shows "\<exists>s u. sdscatrepr A e p (length p) = Some (Ptr s) \<and>
    sdssplitargs A (sds_str s @ [NUL]) = Some (Ptr [Ptr u]) \<and> sds_ok u \<and> sds_str u = p"
proof -
  let ?n = "length p"
  have q: "length (quote p) < 2 ^ 63" using length_quote [of p] assms(4) by simp
  obtain s where s: "sdscatrepr A e p ?n = Some (Ptr s)" "sds_str s = quote p"
    using sdscatrepr_spec [OF assms(1,2), of ?n p] q assms(3) by auto
  have "\<forall>x \<in> set [p]. length x < 2 ^ 63" using assms(4) by simp
  note r = sdssplitargs_quoted [OF assms(1) this, of "[]", unfolded list.map join_with.simps]
  obtain us where
    us: "sdssplitargs A (quote p @ [NUL]) = Some (Ptr (map Ptr us)) \<and> list_all sds_ok us \<and> map sds_str us = [p]"
    by (rule exE [OF r])
  then obtain u where "us = [u]" by (cases us) auto
  with s us show ?thesis by auto
qed

theorem sds_repr_roundtrip_witness:
  "\<exists>s u. sdscatrepr roomy (sds_of []) [CHR 0x00, CHR 0x22] (length [CHR 0x00, CHR 0x22]) = Some (Ptr s) \<and>
    sdssplitargs roomy (sds_str s @ [NUL]) = Some (Ptr [Ptr u]) \<and> sds_ok u \<and> sds_str u = [CHR 0x00, CHR 0x22]"
  by (rule sds_repr_roundtrip) (simp_all add: sds_of)

text \<open>\<^verbatim>\<open>sdsmapchars\<close> replaces each byte by the one at the position of its first occurrence
  in \<open>from\<close>, and keeps the others.\<close>

lemma sds_mapchars_replaces:
  assumes "sds_ok s" "n \<le> length from" "n \<le> length to'"
  shows "\<exists>s'. sdsmapchars s from to' n = Some s' \<and> sds_ok s' \<and>
    sds_str s' = map (\<lambda>c. case map_of (zip (take n from) (take n to')) c of None \<Rightarrow> c | Some d \<Rightarrow> d) (sds_str s)"
proof -
  have "map_char (take n from) (take n to') =
      (\<lambda>c. case map_of (zip (take n from) (take n to')) c of None \<Rightarrow> c | Some d \<Rightarrow> d)"
    by (rule ext) (rule map_char_lookup)
  with sdsmapchars_spec [OF assms] show ?thesis by simp
qed

lemma sds_mapchars_replaces_witness:
  "\<exists>s'. sdsmapchars (sds_of ''hello'') ''ho'' ''01'' 2 = Some s' \<and> sds_ok s' \<and> sds_str s' = ''0ell1''"
  using sds_mapchars_replaces [of "sds_of ''hello''" 2 "''ho''" "''01''"] by (simp add: sds_of)

end
