(* ===== verification/Reader_Properties.thy ===== *)
theory Reader_Properties
  imports Reply_Correct Sds_Properties
begin

text \<open>
  The properties of the reader of \<^verbatim>\<open>lib/hiredis/read.c\<close> with the replies of
  \<^verbatim>\<open>hiredis.c\<close>, and of the commands that \<^verbatim>\<open>hiredis.c\<close> formats, each with a concrete instance.
\<close>

section \<open>Lines and numbers\<close>

text \<open>\<^verbatim>\<open>string2ll\<close> accepts exactly the canonical decimal numerals of the 64-bit signed
  integers, and returns their value.\<close>

lemma reader_numbers_exact:
  "string2ll s = Some v \<longleftrightarrow> s = sdec v \<and> - (2 ^ 63) \<le> v \<and> v < 2 ^ 63"
  by (rule string2ll_iff)

text \<open>\<^verbatim>\<open>seekNewline\<close> on less than \<open>2 ^ 31\<close> bytes never reads outside of them and finds the
  first CR LF.\<close>

lemma reader_seeks_first_crlf:
  assumes "len < 2 ^ 31" "len \<le> length s"
  shows "\<exists>res. seekNewline s len = Some res \<and>
    (case res of
       None \<Rightarrow> \<forall>i. i + 1 < len \<longrightarrow> \<not> (s ! i = CR \<and> s ! (i + 1) = LF)
     | Some k \<Rightarrow> k + 1 < len \<and> s ! k = CR \<and> s ! (k + 1) = LF \<and>
         (\<forall>i < k. \<not> (s ! i = CR \<and> s ! (i + 1) = LF)))"
  using seekNewline_spec [OF assms] line_end_iff [of "take len s"] assms(2)
  by (cases "line_end (take len s)") (auto simp: crlf_at_def)

theorem reader_seeks_first_crlf_witness:
  "\<exists>res. seekNewline [CR, CR, LF] 3 = Some res \<and>
    (case res of
       None \<Rightarrow> \<forall>i. i + 1 < 3 \<longrightarrow> \<not> ([CR, CR, LF] ! i = CR \<and> [CR, CR, LF] ! (i + 1) = LF)
     | Some k \<Rightarrow> k + 1 < 3 \<and> [CR, CR, LF] ! k = CR \<and> [CR, CR, LF] ! (k + 1) = LF \<and>
         (\<forall>i < k. \<not> ([CR, CR, LF] ! i = CR \<and> [CR, CR, LF] ! (i + 1) = LF)))"
  by (rule reader_seeks_first_crlf) simp_all

section \<open>The reader and its heap\<close>

definition demo_reader :: "allocator \<Rightarrow> heap redisReader" where
  "demo_reader A = \<lparr>r_err = 0, r_errstr = [], r_buf = Ptr (sds_of []), r_pos = 0, r_len = 0,
     r_maxbuf = REDIS_READER_MAX_BUF, r_rstack = replicate 9 blank_task, r_ridx = - 1,
     r_reply = 0, r_fn = Some (defaultFunctions A), r_privdata = 0\<rparr>"

lemma demo_reader: "fresh_reader A (demo_reader A)"
  by (simp add: fresh_reader_def demo_reader_def idle_def buf_ok_def pending_def sds_of)

lemma empty_on_heap: "on_heap Map.empty empty_heap 0 (Building [])"
  by (simp add: on_heap_def empty_heap_def)

lemma fresh_feed:
  assumes r: "fresh_reader B r" and h: "on_heap F h 0 (Building [])" and n: "n \<le> length p" "n < 2 ^ 31"
    and A: "\<And>k. grants A k"
  obtains r1 where "redisReaderFeed A r h (Ptr p) n = Some (REDIS_OK, r1, h)"
    "r_fn r1 = Some (defaultFunctions B)" "resting (on_heap F) r1 h (- 1) []" "pending r1 = take n p"
proof -
  have "r_len r + n < 2 ^ 31" using r n by (simp add: fresh_reader_def)
  from Feed_ok [OF fresh_resting [OF r h] n(1) this A] that r show thesis
    by (auto simp: fresh_reader_def)
qed



text \<open>C2: a reply that is encoded and fed comes back as a tree that stands for it, above the
  replies that were there, and \<^verbatim>\<open>freeReplyObject\<close> gives back exactly the heap from before.\<close>

theorem reader_roundtrip:
  assumes "fresh_reader A r" "on_heap F h 0 (Building [])" "resp_ok 0 v" "length (encode v) < 2 ^ 31"
    "\<And>k. grants A k"
  shows "\<exists>r1 r2 h' a h''. redisReaderFeed A r h (Ptr (encode v)) (length (encode v)) = Some (REDIS_OK, r1, h) \<and>
    redisReaderGetReply r1 h = Some (REDIS_OK, r2, h', a) \<and> denotes (cells h') a v \<and>
    (\<forall>x < a. cells h' x = F x) \<and> freeReplyObject a h' = Some h'' \<and> cells h'' = F"
proof -
  obtain r1 where r1: "redisReaderFeed A r h (Ptr (encode v)) (length (encode v)) = Some (REDIS_OK, r1, h)"
    "r_fn r1 = Some (defaultFunctions A)" "resting (on_heap F) r1 h (- 1) []" "pending r1 = encode v"
    using fresh_feed [OF assms(1,2) order_refl assms(4,5)] by auto
  have "parse (- 1) (pending r1) (erase []) = Parsed v []"
    using parse_whole [OF assms(3)] r1(4) by (simp add: erase_def)
  from deliver_reply [OF r1(2) assms(5) r1(3) this] obtain r2 h' a where
    g: "redisReaderGetReply r1 h = Some (REDIS_OK, r2, h', a)" "on_heap F h' a (Complete v)" by blast
  from complete_denotes(4) [OF g(2)] obtain h'' where
    "freeReplyObject a h' = Some h''" "on_heap F h'' 0 (Building [])" by blast
  with r1(1) g complete_denotes(2,3) [OF g(2)] show ?thesis
    by (auto simp: on_heap_def)
qed

theorem reader_roundtrip_witness:
  "\<exists>r1 r2 h' a h''. redisReaderFeed roomy (demo_reader roomy) empty_heap
      (Ptr (encode (RArr [RInt (- 5), RBulk ''x'', RNil]))) (length (encode (RArr [RInt (- 5), RBulk ''x'', RNil]))) =
      Some (REDIS_OK, r1, empty_heap) \<and>
    redisReaderGetReply r1 empty_heap = Some (REDIS_OK, r2, h', a) \<and>
    denotes (cells h') a (RArr [RInt (- 5), RBulk ''x'', RNil]) \<and>
    (\<forall>x < a. cells h' x = None) \<and> freeReplyObject a h' = Some h'' \<and> cells h'' = Map.empty"
  by (rule reader_roundtrip [OF demo_reader empty_on_heap])
    (simp_all add: INT_MAX_def sdec_def dec.simps)

text \<open>C3: a reply that arrives in two pieces is the same reply: after the first piece there is no
  reply and no error, after the second the tree stands for the reply.\<close>

theorem reader_split_delivery:
  assumes "fresh_reader A r" "on_heap F h 0 (Building [])" "resp_ok 0 v" "encode v = x @ y" "y \<noteq> []"
    "length (encode v) + 1024 < 2 ^ 31" "\<And>k. grants A k"
  shows "\<exists>r1 r2 h1 r3 r4 h2 a.
    redisReaderFeed A r h (Ptr x) (length x) = Some (REDIS_OK, r1, h) \<and>
    redisReaderGetReply r1 h = Some (REDIS_OK, r2, h1, 0) \<and>
    redisReaderFeed A r2 h1 (Ptr y) (length y) = Some (REDIS_OK, r3, h1) \<and>
    redisReaderGetReply r3 h1 = Some (REDIS_OK, r4, h2, a) \<and> denotes (cells h2) a v"
proof -
  have "length x + length y + 1024 < 2 ^ 31" using arg_cong [OF assms(4), of length] assms(6) by simp
  then have l: "length x < 2 ^ 31" "length x + length y + 1024 < 2 ^ 31" by simp_all
  obtain r1 where r1: "redisReaderFeed A r h (Ptr x) (length x) = Some (REDIS_OK, r1, h)"
    "r_fn r1 = Some (defaultFunctions A)" "resting (on_heap F) r1 h (- 1) []" "pending r1 = x"
    using fresh_feed [OF assms(1,2) order_refl l(1) assms(7)] by auto
  obtain ty q os where p: "parse (- 1) x [] = Waiting ty q os" "parse ty (q @ y) os = Parsed v []"
    by (rule parse_part [OF assms(3-5)])
  then obtain r2 h1 os1 where g: "redisReaderGetReply r1 h = Some (REDIS_OK, r2, h1, 0)"
    "resting (on_heap F) r2 h1 ty os1" "erase os1 = os" "pending r2 = q" "r_fn r2 = r_fn r1"
    using wait_for_reply [OF r1(2) assms(7) r1(3), of ty q os] r1(4) by (auto simp: erase_def)
  have "buf_ok r1" "buf_ok r2" using resting_buf [OF r1(3)] resting_buf [OF g(2)] by simp_all
  then have "r_pos r2 < 1024" "r_pos r2 + length q = r_len r2"
    using GetReply_pos [OF g(1)] g(4) by (auto elim: buf_okD)
  then have "r_len r2 + length y < 2 ^ 31" using parse_Waiting_length [OF p(1)] l(2) by simp
  from Feed_ok [OF g(2) order_refl this assms(7)] obtain s i n where
    f: "redisReaderFeed A r2 h1 (Ptr y) (length y) = Some (REDIS_OK, r2\<lparr>r_buf := s, r_pos := i, r_len := n\<rparr>, h1)"
    "resting (on_heap F) (r2\<lparr>r_buf := s, r_pos := i, r_len := n\<rparr>) h1 ty os1"
    "pending (r2\<lparr>r_buf := s, r_pos := i, r_len := n\<rparr>) = q @ y"
    using g(4) by auto
  have "parse ty (pending (r2\<lparr>r_buf := s, r_pos := i, r_len := n\<rparr>)) (erase os1) = Parsed v []"
    using f(3) p(2) g(3) by simp
  from deliver_reply [OF _ assms(7) f(2) this] g(5) r1(2) obtain r4 h2 a where
    d: "redisReaderGetReply (r2\<lparr>r_buf := s, r_pos := i, r_len := n\<rparr>) h1 = Some (REDIS_OK, r4, h2, a)"
    "on_heap F h2 a (Complete v)" by auto
  from r1(1) g(1) f(1) d(1) complete_denotes(2) [OF d(2)] show ?thesis by blast
qed

theorem reader_split_delivery_witness:
  "\<exists>r1 r2 h1 r3 r4 h2 a.
    redisReaderFeed roomy (demo_reader roomy) empty_heap (Ptr ''+O'') (length ''+O'') = Some (REDIS_OK, r1, empty_heap) \<and>
    redisReaderGetReply r1 empty_heap = Some (REDIS_OK, r2, h1, 0) \<and>
    redisReaderFeed roomy r2 h1 (Ptr (CHR ''K'' # CRLF)) (length (CHR ''K'' # CRLF)) = Some (REDIS_OK, r3, h1) \<and>
    redisReaderGetReply r3 h1 = Some (REDIS_OK, r4, h2, a) \<and> denotes (cells h2) a (RStatus ''OK'')"
  by (rule reader_split_delivery [OF demo_reader empty_on_heap])
    simp_all

text \<open>A reader is freed with everything it built, at any point between two calls: the heap
  of replies is what it was before.\<close>

lemma reader_free_releases:
  assumes "r_fn r = Some (defaultFunctions A)" "resting (on_heap F) r h ty os"
  shows "\<exists>h'. redisReaderFree (Ptr r) h = Some h' \<and> cells h' = F"
  using free_reader [OF assms] by (auto simp: on_heap_def)

theorem reader_free_releases_witness:
  "\<exists>h'. redisReaderFree (Ptr (demo_reader roomy)) empty_heap = Some h' \<and> cells h' = Map.empty"
  by (rule reader_free_releases [OF _ fresh_resting [OF demo_reader empty_on_heap]]) (simp add: demo_reader_def)

text \<open>C36: a defect. When the buffer of the reader cannot be grown in place, \<^verbatim>\<open>sdscatlen\<close> has already
  freed it, and \<^verbatim>\<open>redisReaderFeed\<close> then frees it a second time while it sets the error.\<close>

theorem reader_feed_double_free:
  assumes "r_err r = 0" "r_len r \<noteq> 0" "r_buf r = Ptr s" "1 \<le> n" "sdscatlen A s p n = Some (Failed Dangling)"
  shows "redisReaderFeed A r h (Ptr p) n = None"
proof -
  let ?r = "r\<lparr>r_buf := Dangling\<rparr>"
  have "redisReaderSetError ?r h' type str \<noteq> Some x" for h' type str x
    by (auto simp: redisReaderSetError_def sdsfree_def bind_eq_Some_conv split: option.splits if_splits)
  then have "redisReaderSetError ?r h' type str = None" for h' type str
    by (cases "redisReaderSetError ?r h' type str") auto
  then show ?thesis
    using assms by (simp add: redisReaderFeed_def fail_with_def redisReaderSetErrorOOM_def)
qed

definition tight :: allocator where
  "tight = roomy\<lparr>grants := (\<lambda>_. False)\<rparr>"

theorem reader_feed_double_free_witness:
  "redisReaderFeed tight ((demo_reader tight)\<lparr>r_buf := Ptr (sds_of ''+''), r_len := 1\<rparr>) empty_heap (Ptr ''OK'') 2 = None"
  by (rule reader_feed_double_free [where s = "sds_of ''+''"])
    (simp_all add: demo_reader_def tight_def sds_of_def sdscatlen_def sdsMakeRoomFor_def sdsavail_def sdslen_def
      sds_room_len_def sds_room_type_def sdsReqType_def sds_type_defs sds_realloc_body_def SDS_MAX_PREALLOC_def
      size_t_def Let_def)

end
