(* ===== verification/Context_Properties.thy ===== *)
theory Context_Properties
  imports Context_Correct Reader_Properties
begin

unbundle bit_operations_syntax

text \<open>
  The properties of a connection of \<^verbatim>\<open>lib/hiredis/hiredis.c\<close>, each with a concrete instance.
\<close>

text \<open>A blocking connection that has just been made.\<close>

definition demo_conn :: "recv_outcome list \<Rightarrow> send_outcome list \<Rightarrow> conn" where
  "demo_conn ins outs =
     \<lparr>k_ctx = (blank_context (Ptr (sds_of [])) (Ptr (demo_reader roomy)))\<lparr>c_fd := 3, c_flags := REDIS_BLOCK\<rparr>,
      k_heap = empty_heap,
      k_net = \<lparr>n_in = ins, n_out = outs, n_sent = [], n_sys = [], n_calls = [], n_open = [3],
        n_infos = 0, n_errno = 0\<rparr>\<rparr>"

definition demo_libc :: libc where
  "demo_libc = \<lparr>strerror = (\<lambda>_. ''error''), gai_strerror = (\<lambda>_. ''name'')\<rparr>"

lemma demo_ready: "ready roomy Map.empty (demo_conn ins outs) (- 1) [] [] []"
  using fresh_resting [OF demo_reader empty_on_heap, of roomy]
  by (auto simp: conn_defs demo_conn_def blank_context_def REDIS_BLOCK_def REDIS_SSL_def sds_of
      erase_def demo_reader_def pending_def)

lemma demo_net [simp]:
  "n_in (k_net (demo_conn ins outs)) = ins" "n_out (k_net (demo_conn ins outs)) = outs"
  "n_sent (k_net (demo_conn ins outs)) = []" "k_heap (demo_conn ins outs) = empty_heap"
  "flag (k_ctx (demo_conn ins outs)) REDIS_BLOCK"
  by (simp_all add: demo_conn_def flag_def REDIS_BLOCK_def)

text \<open>C16: on a blocking connection \<^verbatim>\<open>redisGetReply\<close> returns: it sends everything that is in the
  output buffer, in however many pieces the kernel takes it, unless a whole reply has been read
  before; it reads until a reply is complete, however the stream is cut into pieces and however
  often a read is interrupted; and the reply that it returns is the next one of the stream, whose
  rest is kept for the next call.\<close>

theorem get_reply_delivers:
  assumes "ready A F k ty os q out" "flag (k_ctx k) REDIS_BLOCK" "\<And>n. grants A n"
    "length out < 0x7ffff000" "accepts (n_out (k_net k)) (length out)"
    "incoming (n_in (k_net k)) = Some st" "parse ty (q @ st) os = Parsed v rest"
    "length q + length st + 1024 < 2 ^ 31"
  shows "\<exists>a k' q' st' out'. redisGetReply A lc k = Some (REDIS_OK, a, k') \<and>
    denotes (cells (k_heap k')) a v \<and> F \<subseteq>\<^sub>m cells (k_heap k') \<and>
    ready A (cells (k_heap k')) k' (- 1) [] q' out' \<and> incoming (n_in (k_net k')) = Some st' \<and>
    rest = q' @ st' \<and> n_sent (k_net k') @ out' = n_sent (k_net k) @ out \<and>
    ((\<forall>w y. parse ty q os \<noteq> Parsed w y) \<longrightarrow> out' = [])"
  using redisGetReply_spec [OF assms, of lc] complete_denotes(2) complete_extends by blast

theorem get_reply_delivers_witness:
  "\<exists>a k' q' st' out'. redisGetReply roomy demo_libc
      (demo_conn [Received ''+O'', RecvError EINTR, Received (''K'' @ CRLF)] []) = Some (REDIS_OK, a, k') \<and>
    denotes (cells (k_heap k')) a (RStatus ''OK'') \<and> incoming (n_in (k_net k')) = Some st' \<and> [] = q' @ st' \<and>
    n_sent (k_net k') @ out' = []"
proof -
  let ?k = "demo_conn [Received ''+O'', RecvError EINTR, Received (''K'' @ CRLF)] []"
  have "parse (- 1) ([] @ encode (RStatus ''OK'')) [] = Parsed (RStatus ''OK'') []"
    using parse_whole [of "RStatus ''OK''"] by simp
  from get_reply_delivers [OF demo_ready _ _ _ _ _ this, of "[Received ''+O'', RecvError EINTR, Received (''K'' @ CRLF)]" "[]" demo_libc]
  show ?thesis by auto
qed

text \<open>C15: a command on a blocking connection that is at rest returns its reply:
  \<^verbatim>\<open>redisCommandArgv\<close> sends exactly the encoding of the arguments and returns the reply that the
  server sends next.\<close>

theorem command_returns_reply:
  assumes "ready A F k (- 1) [] [] []" "flag (k_ctx k) REDIS_BLOCK" "\<And>n. grants A n"
    "vector argv argvlen args" "length (command args) < 0x7ffff000"
    "accepts (n_out (k_net k)) (length (command args))"
    "incoming (n_in (k_net k)) = Some (encode v @ rest)" "resp_ok 0 v"
    "length (encode v @ rest) + 1024 < 2 ^ 31"
  shows "\<exists>a k' q' st'. redisCommandArgv A lc k (int (length args)) argv argvlen = Some (a, k') \<and>
    denotes (cells (k_heap k')) a v \<and>
    n_sent (k_net k') = n_sent (k_net k) @ encode (RArr (map RBulk args)) \<and>
    ready A (cells (k_heap k')) k' (- 1) [] q' [] \<and> incoming (n_in (k_net k')) = Some st' \<and> rest = q' @ st'"
  using redisCommandArgv_spec [OF assms(1-4) _ _ assms(7), of v rest lc] assms(5,6,8,9) complete_denotes(2)
  unfolding command_encode [symmetric] by (simp, blast)

theorem command_returns_reply_witness:
  "\<exists>a k' q' st'. redisCommandArgv roomy demo_libc
      (demo_conn [Received (encode (RStatus ''PONG''))] [Accepted 5, Accepted 0, Accepted 100])
      (int (length [''PING''])) [''PING''] (Some (map length [''PING''])) = Some (a, k') \<and>
    denotes (cells (k_heap k')) a (RStatus ''PONG'') \<and>
    n_sent (k_net k') = [] @ encode (RArr (map RBulk [''PING''])) \<and>
    ready roomy (cells (k_heap k')) k' (- 1) [] q' [] \<and> incoming (n_in (k_net k')) = Some st' \<and> [] = q' @ st'"
  using command_returns_reply [OF demo_ready _ _ vector_lengths, of "[Received (encode (RStatus ''PONG''))]"
      "[Accepted 5, Accepted 0, Accepted 100]" "[''PING'']" "RStatus ''PONG''" "[]" demo_libc]
  by (simp add: command_def bulk_def dec.simps)

text \<open>C17: pipelining: \<^verbatim>\<open>n\<close> calls of \<^verbatim>\<open>redisGetReply\<close> return the next \<^verbatim>\<open>n\<close> replies of the stream in
  their order, and each stays what it is while the later ones are read.\<close>

theorem replies_in_order:
  assumes "ready A F k (- 1) [] q out" "flag (k_ctx k) REDIS_BLOCK" "\<And>n. grants A n"
    "length out < 0x7ffff000" "accepts (n_out (k_net k)) (length out)"
    "incoming (n_in (k_net k)) = Some st" "q @ st = concat (map encode vs) @ rest"
    "list_all (resp_ok 0) vs" "length (q @ st) + 1024 < 2 ^ 31"
  shows "\<exists>as k' q' st' out'. get_replies A lc (length vs) k = Some (as, k') \<and>
    list_all2 (denotes (cells (k_heap k'))) as vs \<and>
    ready A (cells (k_heap k')) k' (- 1) [] q' out' \<and> incoming (n_in (k_net k')) = Some st' \<and> rest = q' @ st'"
  using get_replies_spec [OF assms, of lc] by blast

theorem replies_in_order_witness:
  "\<exists>as k'. get_replies roomy demo_libc (length [RStatus ''a'', RNil])
      (demo_conn [Received (encode (RStatus ''a'')), Received (encode RNil)] []) = Some (as, k') \<and>
    list_all2 (denotes (cells (k_heap k'))) as [RStatus ''a'', RNil]"
  using replies_in_order [OF demo_ready, of "[Received (encode (RStatus ''a'')), Received (encode RNil)]" "[]"
      "encode (RStatus ''a'') @ encode RNil" "[RStatus ''a'', RNil]" "[]" demo_libc]
  by auto

end
