(* ===== verification/Async_Properties.thy ===== *)
theory Async_Properties
  imports Async_Correct Context_Properties
begin

unbundle bit_operations_syntax

text \<open>
  The properties of the asynchronous API of \<^verbatim>\<open>lib/hiredis/async.c\<close>, each with a concrete
  instance.
\<close>

text \<open>A connected context, and the empty dictionaries of subscriptions.\<close>

definition demo_subs :: "(sds, redisCallback) dict" where
  "demo_subs = \<lparr>ht_table = Null, ht_type = callbackDict roomy, ht_size = 0, ht_sizemask = 0, ht_used = 0\<rparr>"

definition demo_async :: "recv_outcome list \<Rightarrow> redisCallbackList \<Rightarrow> redisAsyncContext" where
  "demo_async ins rs =
     \<lparr>a_c = (demo_conn ins [])\<lparr>k_ctx := (k_ctx (demo_conn ins []))\<lparr>c_flags := REDIS_CONNECTED\<rparr>\<rparr>,
      a_err = 0, a_addRead = True, a_delRead = True, a_addWrite = True, a_delWrite = True, a_cleanup = True,
      a_scheduleTimer = False, a_onDisconnect = 9, a_onConnect = 0, a_replies = rs, a_invalid = empty_list,
      a_channels = Ptr demo_subs, a_patterns = Ptr demo_subs, a_log = []\<rparr>"

text \<open>A list with one callback.\<close>

definition one_callback :: "nat \<Rightarrow> nat \<Rightarrow> redisCallbackList" where
  "one_callback fn pd = \<lparr>l_head = 1, l_tail = 1,
     l_cells = [1 \<mapsto> \<lparr>cb_next = 0, cb_fn = fn, cb_pending_subs = 1, cb_privdata = pd\<rparr>], l_fresh = 2\<rparr>"

lemma one_callback: "holds (one_callback fn pd) [(fn, 1, pd)]"
  by (auto simp: holds_def laid_out_def one_callback_def payload_def intro!: exI [of _ "[1]"])

lemma demo_subs: "subs_ok demo_subs" "subs demo_subs = Map.empty" "ht_used demo_subs = 0" "subscribers demo_subs = []"
  "dict_kept (Ptr demo_subs) demo_subs"
proof -
  show ok: "subs_ok demo_subs"
    using callbackDict_ok [of roomy] by (simp add: dict_ok_def demo_subs_def)
  show "subs demo_subs = Map.empty" "ht_used demo_subs = 0" "subscribers demo_subs = []"
    by (simp_all add: demo_subs_def dict_map_def tab_def assoc_def subscribers_def)
  show "dict_kept (Ptr demo_subs) demo_subs"
    using ok by (auto simp: dict_kept_def demo_subs_def)
qed

lemma demo_async_simps [simp]:
  "a_replies (demo_async ins rs) = rs" "a_invalid (demo_async ins rs) = empty_list"
  "a_channels (demo_async ins rs) = Ptr demo_subs" "a_patterns (demo_async ins rs) = Ptr demo_subs"
  "a_log (demo_async ins rs) = []" "k_net (a_c (demo_async ins rs)) = k_net (demo_conn ins [])"
  "k_heap (a_c (demo_async ins rs)) = empty_heap" "a_cleanup (demo_async ins rs)"
  "a_onDisconnect (demo_async ins rs) = 9" "a_err (demo_async ins rs) = 0"
  by (simp_all add: demo_async_def)

lemma demo_flags [simp]: "has (demo_async ins rs) REDIS_CONNECTED" "\<not> has (demo_async ins rs) REDIS_IN_CALLBACK"
  "\<not> closing (demo_async ins rs)" "\<not> has (demo_async ins rs) REDIS_BLOCK" "\<not> has (demo_async ins rs) REDIS_MONITORING"
  "\<not> has (demo_async ins rs) REDIS_SUBSCRIBED" "\<not> has (demo_async ins rs) REDIS_FREEING"
  by (simp_all add: demo_async_def closing_def flag_def flag_defs)

lemma demo_async_ready: "ready roomy Map.empty (a_c (demo_async ins rs)) (- 1) [] [] []"
  using demo_ready [of ins "[]"]
  by (auto simp: conn_defs demo_async_def REDIS_CONNECTED_def REDIS_SSL_def)

lemma demo_disposable: "disposable roomy Map.empty (a_c (demo_async ins rs))"
  using demo_async_ready [of ins rs]
  by (auto simp: conn_defs disposable_def demo_async_def demo_conn_def blank_context_def)

text \<open>C19: \<^verbatim>\<open>redisAsyncFree\<close> outside of a callback returns: every pending callback, of a command, of a
  rejected command and of a subscription, is called exactly once with a null reply, in this order;
  then the event library is told to clean up, and the function for disconnecting is called with
  \<^verbatim>\<open>REDIS_OK\<close>; the objects of the partial reply are freed and the descriptor is closed. Commands
  that the callbacks try to send are rejected.\<close>

theorem async_free_runs_all:
  assumes "meek user" "\<not> has ac REDIS_IN_CALLBACK" "holds (a_replies ac) ps" "holds (a_invalid ac) qs"
    "dict_kept (a_channels ac) ch" "dict_kept (a_patterns ac) pa" "disposable A F (a_c ac)" "\<And>n. grants A n"
  shows "\<exists>h. redisAsyncFree A user ac = Some (Gone h (k_net (redisNetClose (a_c ac)))
      (a_log ac @ null_calls (k_heap (a_c ac)) (ps @ qs @ subscribers ch @ subscribers pa) @
       (if a_cleanup ac then [Cleanup] else []) @
       (if a_onDisconnect ac \<noteq> 0 \<and> has ac REDIS_CONNECTED then [On_disconnect (a_onDisconnect ac) REDIS_OK] else []))) \<and>
    cells h = F"
proof -
  let ?ac = "set_flag REDIS_FREEING ac"
  have f: "has ?ac REDIS_FREEING" "has ?ac REDIS_IN_CALLBACK = has ac REDIS_IN_CALLBACK"
    "has ?ac REDIS_CONNECTED = has ac REDIS_CONNECTED"
    by (simp_all add: has_simps flag_defs)
  have s: "closing ?ac" "\<not> has ?ac REDIS_IN_CALLBACK" "holds (a_replies ?ac) ps" "holds (a_invalid ?ac) qs"
    "dict_kept (a_channels ?ac) ch" "dict_kept (a_patterns ?ac) pa" "disposable A F (a_c ?ac)"
    using f(1,2) assms(2-7) by (simp_all add: closing_def set_flag_def disposable_def)
  have w: "farewell ?ac = (if a_cleanup ac then [Cleanup] else []) @
      (if a_onDisconnect ac \<noteq> 0 \<and> has ac REDIS_CONNECTED then [On_disconnect (a_onDisconnect ac) REDIS_OK] else [])"
    using f by (simp add: farewell_def) (simp add: set_flag_def)
  have k: "k_net (redisNetClose (a_c ?ac)) = k_net (redisNetClose (a_c ac))" "a_log ?ac = a_log ac"
    "k_heap (a_c ?ac) = k_heap (a_c ac)"
    by (simp_all add: redisNetClose_def set_flag_def)
  have "redisAsyncFree A user ac = asyncFree A user ?ac" using f(2) assms(2) by (simp add: redisAsyncFree_def)
  with asyncFree_ok [OF assms(1) s assms(8)] show ?thesis by (simp only: w k)
qed

theorem async_free_runs_all_witness:
  "\<exists>h. redisAsyncFree roomy (\<lambda>fn r pd ac. do {
        (rc, ac) \<leftarrow> asyncCommand roomy demo_libc ac fn pd (command [''PING''] @ [NUL]) 14; Some ac })
      (demo_async [] (one_callback 5 7)) = Some (Gone h (k_net (redisNetClose (a_c (demo_async [] (one_callback 5 7)))))
      [Called 5 0 7 empty_heap, Cleanup, On_disconnect 9 REDIS_OK]) \<and> cells h = Map.empty"
  using async_free_runs_all [OF meek_commands _ _ _ _ _ demo_disposable, of "[]" "one_callback 5 7" "[(5, 1, 7)]" "[]"
      demo_subs demo_subs roomy demo_libc "\<lambda>fn r pd. fn" "\<lambda>fn r pd. pd" "\<lambda>fn r pd. command [''PING''] @ [NUL]" "\<lambda>fn r pd. 14"]
  by (simp add: one_callback demo_subs)

text \<open>C18: when bytes arrive on a connected context, \<^verbatim>\<open>redisAsyncHandleRead\<close> returns, and every reply
  that they complete, however it was cut, goes to the callback whose turn it is: the first
  callbacks of the queue are called in order, each once, with an object that stands for its reply;
  the objects are freed afterwards, and the callbacks that wait, followed by those of commands that
  were sent meanwhile, stay in the queue.\<close>

theorem async_replies_in_order:
  assumes "ready A F (a_c ac) ty os q out" "has ac REDIS_CONNECTED" "\<not> closing ac" "\<not> has ac REDIS_IN_CALLBACK"
    "\<not> has ac REDIS_BLOCK" "\<not> has ac REDIS_MONITORING" "holds (a_replies ac) (cbs @ ps)" "length cbs = length vs"
    "os_recv (1024 * 16) (k_net (a_c ac)) = Some (Received bs, n')" "bs \<noteq> []" "length q + length bs + 1024 < 2 ^ 31"
    "reads ty (q @ bs) os vs ty' q' os'" "tame A n user" "length out + length vs * n < 2 ^ 62" "\<And>n. grants A n"
  shows "\<exists>ac' new out' es. redisAsyncHandleRead A lc user ac = Some (Live ac') \<and>
    a_log ac' = a_log ac @ es \<and> answered cbs vs (calls es) \<and> holds (a_replies ac') (ps @ new) \<and>
    ready A F (a_c ac') ty' os' q' (out @ out')"
  using HandleRead_replies [OF assms, of lc] by blast

theorem async_replies_in_order_witness:
  "\<exists>ac' new out' es. redisAsyncHandleRead roomy demo_libc (\<lambda>fn r pd ac. Some ac)
      (demo_async [Received (encode (RBulk ''x''))] (one_callback 5 7)) = Some (Live ac') \<and>
    a_log ac' = [] @ es \<and> answered [(5, 1, 7)] [RBulk ''x''] (calls es) \<and> holds (a_replies ac') ([] @ new) \<and>
    ready roomy Map.empty (a_c ac') (- 1) [] [] ([] @ out')"
proof -
  have t: "tame roomy 0 (\<lambda>fn r pd ac. Some ac)"
    unfolding tame_def by (auto intro!: exI [of _ "[]"])
  have r: "reads (- 1) ([] @ encode (RBulk ''x'')) [] [RBulk ''x''] (- 1) [] []"
    using reads_encodes [of "[RBulk ''x'']"] by (simp add: INT_MAX_def)
  let ?ac = "demo_async [Received (encode (RBulk ''x''))] (one_callback 5 7)"
  have o: "os_recv (1024 * 16) (k_net (a_c ?ac)) =
      Some (Received (encode (RBulk ''x'')), (k_net (a_c ?ac))\<lparr>n_in := []\<rparr>)"
    by (simp add: os_recv_def demo_conn_def dec.simps)
  show ?thesis
    using async_replies_in_order [OF demo_async_ready _ _ _ _ _ _ _ o _ _ r t, of "[(5, 1, 7)]" "[]" demo_libc] one_callback
    by (simp add: dec.simps)
qed

text \<open>\<^verbatim>\<open>redisAsyncCommandArgv\<close> of a command that is not about subscriptions puts exactly the
  encoding of its arguments at the end of the output buffer and its callback at the end of the
  queue.\<close>

lemma async_command_waits:
  assumes "listening A F (a_c ac) ty os q out" "\<not> closing ac" "\<not> has ac REDIS_SUBSCRIBED" "holds (a_replies ac) ps"
    "vector argv argvlen (a # args)" "CR \<notin> set a" "NUL \<notin> set a" "keyword a \<notin> {''subscribe'', ''unsubscribe'', ''monitor''}"
    "length a < 2 ^ 31" "length (command (a # args)) < 2 ^ 31" "length out < 2 ^ 62" "\<And>n. grants A n"
  shows "\<exists>ac' es. redisAsyncCommandArgv A lc ac fn pd (int (length (a # args))) argv argvlen = Some (REDIS_OK, ac') \<and>
    listening A F (a_c ac') ty os q (out @ encode (RArr (map RBulk (a # args)))) \<and>
    holds (a_replies ac') (ps @ [(fn, 1, pd)]) \<and> a_log ac' = a_log ac @ es \<and> calls es = []"
proof -
  obtain c where c: "redisFormatSdsCommandArgv A True (int (length (a # args))) argv argvlen =
      Some (int (length (command (a # args))), Ptr c)" "sds_ok c" "sds_str c = command (a # args)"
    using redisFormatSdsCommandArgv_spec [OF assms(5,10,12)] by blast
  define s where "s = drop (Suc (sdslen c)) (buf c)"
  have b: "buf c = command (a # args) @ NUL # s"
    using append_take_drop_id [of "Suc (sdslen c)" "buf c"] sds_buf_prefix [OF c(2)] c(3) by (simp add: s_def)
  have k: "keyword a \<noteq> ''unsubscribe''" "keyword a \<noteq> ''monitor''" "keyword a = ''subscribe'' \<longrightarrow> args = []"
    "length out + length (command (a # args)) < 2 ^ 63" using assms(8,10,11) by auto
  obtain ac' es where "asyncCommand A lc ac fn pd (buf c) (length (command (a # args))) = Some (REDIS_OK, ac')"
    "listening A F (a_c ac') ty os q (out @ command (a # args))" "holds (a_replies ac') (ps @ [(fn, 1, pd)])"
    "a_log ac' = a_log ac @ es" "calls es = []"
    using asyncCommand_queued [OF assms(1-4,6,7,9) k assms(12), of lc fn pd s] b by auto
  then show ?thesis using c(1) unfolding command_encode [symmetric]
    by (auto simp: redisAsyncCommandArgv_def sdsfree_def)
qed

theorem async_command_waits_witness:
  "\<exists>ac' es. redisAsyncCommandArgv roomy demo_libc (demo_async [] (one_callback 5 7)) 6 8 (int (length [''GET'', ''k''])) [''GET'', ''k'']
      (Some (map length [''GET'', ''k''])) = Some (REDIS_OK, ac') \<and>
    listening roomy Map.empty (a_c ac') (- 1) [] [] ([] @ encode (RArr (map RBulk [''GET'', ''k'']))) \<and>
    holds (a_replies ac') ([(5, 1, 7)] @ [(6, 1, 8)]) \<and> a_log ac' = [] @ es \<and> calls es = []"
  using async_command_waits [of roomy Map.empty "demo_async [] (one_callback 5 7)" "- 1" "[]" "[]" "[]" "[(5, 1, 7)]" "[''GET'', ''k'']"
      "Some (map length [''GET'', ''k''])" "''GET''" "[''k'']" demo_libc 6 8]
    demo_async_ready [of "[]" "one_callback 5 7"] vector_lengths [of "[''GET'', ''k'']"] one_callback
  by (simp add: ready_def keyword_def c_tolower_def command_def bulk_def dec.simps)

text \<open>C20: \<^verbatim>\<open>SUBSCRIBE\<close> (or, for patterns, \<^verbatim>\<open>PSUBSCRIBE\<close>) binds its callback to every channel that it
  names, in the dictionary of its kind, and changes no other binding; the counter of pending
  subscriptions is that of the abstract map \<^theory_text>\<open>enrol\<close>, where the counter of one channel is carried
  over to the channels after it.\<close>

theorem async_subscribe_enrols:
  assumes "listening A F (a_c ac) ty os q out" "\<not> closing ac" "vector argv argvlen (a # args)" "CR \<notin> set a" "NUL \<notin> set a"
    "length a < 2 ^ 31" "keyword a = ''subscribe''" "args \<noteq> []" "\<forall>c \<in> set args. length c < 2 ^ 31"
    "(if is_p a then a_patterns ac else a_channels ac) = Ptr ht" "subs_ok ht" "ht_used ht + length args < 2 ^ 31"
    "length (command (a # args)) < 2 ^ 31" "length out < 2 ^ 62" "\<And>n. grants A n"
  shows "\<exists>ac' ht'. redisAsyncCommandArgv A lc ac fn pd (int (length (a # args))) argv argvlen = Some (REDIS_OK, ac') \<and>
    listening A F (a_c ac') ty os q (out @ encode (RArr (map RBulk (a # args)))) \<and> has ac' REDIS_SUBSCRIBED \<and>
    (if is_p a then a_patterns ac' else a_channels ac') = Ptr ht' \<and> subs_ok ht' \<and>
    subs ht' = enrol (subs ht) \<lparr>cb_next = 0, cb_fn = fn, cb_pending_subs = 1, cb_privdata = pd\<rparr> args \<and>
    (\<forall>c. if c \<in> set args then \<exists>cb. subs ht' c = Some cb \<and> cb_fn cb = fn \<and> cb_privdata cb = pd else subs ht' c = subs ht c)"
proof -
  obtain c where c: "redisFormatSdsCommandArgv A True (int (length (a # args))) argv argvlen =
      Some (int (length (command (a # args))), Ptr c)" "sds_ok c" "sds_str c = command (a # args)"
    using redisFormatSdsCommandArgv_spec [OF assms(3,13,15)] by blast
  define s where "s = drop (Suc (sdslen c)) (buf c)"
  have b: "buf c = command (a # args) @ NUL # s"
    using append_take_drop_id [of "Suc (sdslen c)" "buf c"] sds_buf_prefix [OF c(2)] c(3) by (simp add: s_def)
  have k: "length out + length (command (a # args)) < 2 ^ 63" using assms(13,14) by simp
  let ?cb = "\<lparr>cb_next = 0, cb_fn = fn, cb_pending_subs = 1, cb_privdata = pd\<rparr>"
  obtain ac' ht' where h: "asyncCommand A lc ac fn pd (buf c) (length (command (a # args))) = Some (REDIS_OK, ac')"
    "listening A F (a_c ac') ty os q (out @ command (a # args))" "has ac' REDIS_SUBSCRIBED" "subs_ok ht'"
    "(if is_p a then a_patterns ac' else a_channels ac') = Ptr ht'" "subs ht' = enrol (subs ht) ?cb args"
    using asyncCommand_subscribes [OF assms(1,2,4-12) k assms(15), of lc fn pd s] b by auto
  have "redisAsyncCommandArgv A lc ac fn pd (int (length (a # args))) argv argvlen = Some (REDIS_OK, ac')"
    using c(1) h(1) by (simp add: redisAsyncCommandArgv_def sdsfree_def)
  moreover have "if x \<in> set args then \<exists>cb. subs ht' x = Some cb \<and> cb_fn cb = fn \<and> cb_privdata cb = pd
      else subs ht' x = subs ht x" for x
    using enrol_binds [of x args "subs ht" ?cb] h(6) by auto
  ultimately show ?thesis using h unfolding command_encode [symmetric] by blast
qed

theorem async_subscribe_enrols_witness:
  "\<exists>ac' ht'. redisAsyncCommandArgv roomy demo_libc (demo_async [] empty_list) 6 8 (int (length [''subscribe'', ''a'', ''b'']))
      [''subscribe'', ''a'', ''b''] (Some (map length [''subscribe'', ''a'', ''b''])) = Some (REDIS_OK, ac') \<and>
    has ac' REDIS_SUBSCRIBED \<and> a_channels ac' = Ptr ht' \<and>
    subs ht' = enrol Map.empty \<lparr>cb_next = 0, cb_fn = 6, cb_pending_subs = 1, cb_privdata = 8\<rparr> [''a'', ''b'']"
proof -
  have l: "listening roomy Map.empty (a_c (demo_async [] empty_list)) (- 1) [] [] []"
    using demo_async_ready by (simp add: ready_def)
  have k: "keyword ''subscribe'' = ''subscribe''" "\<not> is_p ''subscribe''" by (simp_all add: keyword_def is_p_def c_tolower_def)
  from async_subscribe_enrols [OF l _ vector_lengths [of "[''subscribe'', ''a'', ''b'']"], of demo_subs demo_libc 6 8]
  show ?thesis using demo_subs(1-3) k by (auto simp: command_def bulk_def dec.simps)
qed

text \<open>C21: a message of the server for a channel with a subscription goes to the callback of this
  channel: when no command waits for a reply, \<^verbatim>\<open>redisAsyncHandleRead\<close> calls the function that was
  bound to the channel, with the whole message.\<close>

theorem async_message_reaches:
  assumes "ready A F (a_c ac) ty os q out" "has ac REDIS_CONNECTED" "\<not> closing ac" "\<not> has ac REDIS_IN_CALLBACK"
    "\<not> has ac REDIS_BLOCK" "\<not> has ac REDIS_MONITORING" "has ac REDIS_SUBSCRIBED" "holds (a_replies ac) []"
    "os_recv (1024 * 16) (k_net (a_c ac)) = Some (Received bs, n')" "bs \<noteq> []" "length q + length bs + 1024 < 2 ^ 31"
    "parse ty (q @ bs) os = Parsed (RArr (RBulk kind # RBulk ch # vs)) p" "parse (- 1) p [] = Waiting ty' q' os'"
    "(if is_p kind then a_patterns ac else a_channels ac) = Ptr ht" "subs_ok ht" "subs ht ch = Some cb" "cb_fn cb \<noteq> 0"
    "(if is_p kind then a_channels ac else a_patterns ac) = Ptr other" "NUL \<notin> set kind" "length ch < 2 ^ 31"
    "keyword kind = ''unsubscribe'' \<longrightarrow> (\<exists>i vs'. vs = RInt i # vs')"
    "tame A n user" "length out + n < 2 ^ 62" "\<And>n. grants A n"
  shows "\<exists>ac' es a h out'. redisAsyncHandleRead A lc user ac = Some (Live ac') \<and> a_log ac' = a_log ac @ es \<and>
    calls es = [Called (cb_fn cb) a (cb_privdata cb) h] \<and> denotes (cells h) a (RArr (RBulk kind # RBulk ch # vs)) \<and>
    ready A F (a_c ac') ty' os' q' (out @ out')"
proof -
  obtain k where k: "redisBufferRead A lc (a_c ac) = Some (REDIS_OK, k)" "listening A F k ty os (q @ bs) out"
    "k_net k = n'" "c_flags (k_ctx k) = c_flags (k_ctx (a_c ac))"
    using BufferRead_bytes [OF assms(1,24,9-11)] by blast
  have hc: "handle_connect A lc user ac = Some (Inr ac)"
    using assms(1,2) by (auto simp: handle_connect_def conn_defs)
  let ?ac = "EL_ADD_READ (ac\<lparr>a_c := k\<rparr>)"
  have st: "listening A F (a_c ?ac) ty os (q @ bs) out" "holds (a_replies ?ac) []" "\<not> closing ?ac"
    "\<not> has ?ac REDIS_IN_CALLBACK" "has ?ac REDIS_SUBSCRIBED"
    "(if is_p kind then a_patterns ?ac else a_channels ?ac) = Ptr ht"
    "(if is_p kind then a_channels ?ac else a_patterns ?ac) = Ptr other"
    using k(2,4) assms(3,4,7,8,14,18) by (simp_all add: closing_def flag_def split: if_splits)
  obtain ac1 cb1 new out' es a h where m:
    "process_loop_async A lc user ?ac no_callback = process_loop_async A lc user ac1 cb1"
    "listening A F (a_c ac1) (- 1) [] p (out @ out')" "holds (a_replies ac1) new" "a_log ac1 = a_log ?ac @ es"
    "calls es = [Called (cb_fn cb) a (cb_privdata cb) h]" "denotes (cells h) a (RArr (RBulk kind # RBulk ch # vs))"
    "\<And>y. y AND REDIS_SUBSCRIBED = 0 \<Longrightarrow> has ac1 y = has ?ac y" "length out' \<le> n"
    by (rule process_message [OF assms(22,24,12) st(1) assms(23) st(2-5) assms(19,20) st(6) assms(15,16) st(7) assms(17,21)]) (rule that)
  have hk: "has ac1 y = has ac y" if "y AND REDIS_SUBSCRIBED = 0" for y
    using m(7) [OF that] k(4) by (simp add: flag_def)
  have f: "\<not> closing ac1" "\<not> has ac1 REDIS_IN_CALLBACK" "\<not> has ac1 REDIS_BLOCK" "\<not> has ac1 REDIS_MONITORING"
    using assms(3-6) hk by (simp_all add: closing_def flag_defs)
  have z: "reads (- 1) p [] [] ty' q' os'" "length (out @ out') + length ([] :: resp list) * n < 2 ^ 62"
    "holds (a_replies ac1) ([] @ new)" "length ([] :: payload list) = length ([] :: resp list)"
    using assms(13,23) m(3,8) by (auto intro: reads.wait)
  from process_loop_reads [OF z(1) assms(22,24) m(2) z(2-4) f, of lc cb1] obtain ac' out2 es' where
    w: "process_loop_async A lc user ac1 cb1 = Some (Live ac')" "ready A F (a_c ac') ty' os' q' ((out @ out') @ out2)"
    "a_log ac' = a_log ac1 @ es'" "calls es' = []" by auto
  obtain es0 where e0: "a_log ?ac = a_log ac @ es0" "calls es0 = []" using calls_EL(1) [of "ac\<lparr>a_c := k\<rparr>"] by auto
  have "redisAsyncHandleRead A lc user ac = Some (Live ac')"
    using hc k(1) m(1) w(1) by (simp add: redisAsyncHandleRead_def redisProcessCallbacks_def redis_err_defs)
  moreover have "a_log ac' = a_log ac @ (es0 @ es @ es')" "calls (es0 @ es @ es') = [Called (cb_fn cb) a (cb_privdata cb) h]"
    using e0 m(4,5) w(3,4) by simp_all
  ultimately show ?thesis using m(6) w(2) by (metis append_assoc)
qed

theorem async_message_reaches_witness:
  "\<exists>ht ac' es a h. (\<exists>cb. subs ht ''news'' = Some cb \<and> cb_fn cb = 6 \<and> cb_privdata cb = 8) \<and>
    redisAsyncHandleRead roomy demo_libc (\<lambda>fn r pd ac. Some ac)
      (set_flag REDIS_SUBSCRIBED ((demo_async [Received (encode (RArr [RBulk ''message'', RBulk ''news'', RBulk ''x'']))] empty_list)
        \<lparr>a_channels := Ptr ht\<rparr>)) = Some (Live ac') \<and>
    a_log ac' = [] @ es \<and> calls es = [Called 6 a 8 h] \<and>
    denotes (cells h) a (RArr [RBulk ''message'', RBulk ''news'', RBulk ''x''])"
proof -
  let ?v = "RArr [RBulk ''message'', RBulk ''news'', RBulk ''x'']"
  let ?cb = "\<lparr>cb_next = 0, cb_fn = 6, cb_pending_subs = 1, cb_privdata = 8\<rparr>"
  obtain ht where ht: "subs_ok ht" "subs ht = [''news'' \<mapsto> ?cb]"
    using subscribe_loop_spec [of roomy demo_subs "[''news'']" ?cb "[]"] demo_subs by auto
  let ?ac = "set_flag REDIS_SUBSCRIBED ((demo_async [Received (encode ?v)] empty_list)\<lparr>a_channels := Ptr ht\<rparr>)"
  have t: "tame roomy 0 (\<lambda>fn r pd ac. Some ac)"
    unfolding tame_def by (auto intro!: exI [of _ "[]"])
  have p: "parse (- 1) ([] @ encode ?v) [] = Parsed ?v []" "parse (- 1) [] [] = Waiting (- 1) [] []"
    using parse_whole [of ?v] by (simp add: INT_MAX_def) (subst parse.simps, simp add: item_def)
  have f: "has ?ac REDIS_CONNECTED" "\<not> closing ?ac" "\<not> has ?ac REDIS_IN_CALLBACK" "\<not> has ?ac REDIS_BLOCK"
    "\<not> has ?ac REDIS_MONITORING" "has ?ac REDIS_SUBSCRIBED"
    by (simp_all add: set_flag_def demo_async_def closing_def flag_def flag_defs)
  have r: "ready roomy Map.empty (a_c ?ac) (- 1) [] [] []"
    using demo_async_ready [of "[Received (encode ?v)]" empty_list] listening_flags(1) [of roomy Map.empty
      "(demo_async [Received (encode ?v)] empty_list)\<lparr>a_channels := Ptr ht\<rparr>" "- 1" "[]" "[]" "[]" REDIS_SUBSCRIBED]
    by (simp add: ready_def flag_defs set_flag_def)
  have o: "os_recv (1024 * 16) (k_net (a_c ?ac)) = Some (Received (encode ?v), (k_net (a_c ?ac))\<lparr>n_in := []\<rparr>)"
    by (simp add: os_recv_def demo_conn_def demo_async_def set_flag_def dec.simps)
  have d: "(if is_p ''message'' then a_patterns ?ac else a_channels ?ac) = Ptr ht"
    "(if is_p ''message'' then a_channels ?ac else a_patterns ?ac) = Ptr demo_subs"
    by (simp_all add: is_p_def c_tolower_def set_flag_def)
  have "\<exists>ac' es a h out'. redisAsyncHandleRead roomy demo_libc (\<lambda>fn r pd ac. Some ac) ?ac = Some (Live ac') \<and>
      a_log ac' = a_log ?ac @ es \<and> calls es = [Called (cb_fn ?cb) a (cb_privdata ?cb) h] \<and> denotes (cells h) a ?v \<and>
      ready roomy Map.empty (a_c ac') (- 1) [] [] ([] @ out')"
    by (rule async_message_reaches [OF r f(1-6) _ o _ _ p d(1) ht(1) _ _ d(2) _ _ _ t])
      (use ht(2) in \<open>simp_all add: set_flag_def keyword_def c_tolower_def dec.simps\<close>)
  then show ?thesis using ht(2) by (intro exI [of _ ht]) (auto simp: set_flag_def simp del: denotes.simps)
qed

section \<open>Errors\<close>

text \<open>C35: a defect. \<^verbatim>\<open>redisAsyncHandleTimeout\<close> calls the pending callbacks while the context still
  accepts commands: when a callback sends its command again, as is usual after a failure, the queue
  never gets empty and the function never returns.\<close>

theorem async_timeout_forever:
  assumes "resubmits user" "\<not> closing ac" "\<not> has ac REDIS_SUBSCRIBED" "holds (a_replies ac) ps" "ps \<noteq> []"
    "\<forall>p \<in> set ps. fst p \<noteq> 0"
  shows "redisAsyncHandleTimeout A lc user ac = None"
proof -
  have never: "run_replies user x = None" if "\<not> closing x" "\<not> has x REDIS_SUBSCRIBED" "holds (a_replies x) ps" for x
  proof (rule ccontr)
    assume "run_replies user x \<noteq> None"
    then obtain y where "run_replies user x = Some y" by auto
    from run_replies_forever [OF this] assms that show False by blast
  qed
  have "l_head (a_replies ac) \<noteq> 0" using holds_head [OF assms(4)] assms(5) by simp
  moreover have "\<not> closing (ac\<lparr>a_c := k\<rparr>) \<and> \<not> has (ac\<lparr>a_c := k\<rparr>) REDIS_SUBSCRIBED"
    if "(if c_err (k_ctx (a_c ac)) = 0 then set_error lc (a_c ac) REDIS_ERR_TIMEOUT (Some ''Timeout'') else Some (a_c ac)) = Some k" for k
    using that assms(2,3) set_error_flags [of lc "a_c ac"] by (auto simp: closing_def flag_def split: if_splits)
  ultimately show ?thesis
    using never assms(4)
    by (cases "if c_err (k_ctx (a_c ac)) = 0 then set_error lc (a_c ac) REDIS_ERR_TIMEOUT (Some ''Timeout'') else Some (a_c ac)")
      (auto simp: redisAsyncHandleTimeout_def Let_def)
qed

theorem async_timeout_forever_witness:
  "redisAsyncHandleTimeout roomy demo_libc (\<lambda>fn r pd ac. do {
      (rc, ac) \<leftarrow> asyncCommand roomy demo_libc ac fn pd (command [''PING''] @ [NUL]) 14; Some ac })
    (demo_async [] (one_callback 5 7)) = None"
  by (rule async_timeout_forever [OF resubmits_command [where args = "[]" and s = "[]" and a = "''PING''"], where ps = "[(5, 1, 7)]"])
    (simp_all add: one_callback keyword_def c_tolower_def)

text \<open>C32: a defect. When \<^verbatim>\<open>send\<close> is interrupted, or would block, while a callback waits for its
  reply, \<^verbatim>\<open>redisAsyncHandleWrite\<close> takes this for a disconnect without an error and runs into the
  assertion that no callback is pending.\<close>

theorem async_write_again_asserts:
  assumes "listening A F (a_c ac) ty os q out" "out \<noteq> []" "n_out (k_net (a_c ac)) = SendError e # outs"
    "e = EINTR \<or> e = EWOULDBLOCK \<and> \<not> has ac REDIS_BLOCK" "has ac REDIS_CONNECTED" "holds (a_replies ac) (p # ps)"
  shows "redisAsyncHandleWrite A lc user ac = None"
proof -
  have hc: "handle_connect A lc user ac = Some (Inr ac)"
    using assms(1,5) by (auto simp: handle_connect_def conn_defs)
  obtain k where k: "redisBufferWrite A lc (a_c ac) = Some (REDIS_ERR, None, k)" "c_err (k_ctx k) = 0"
    using BufferWrite_again [OF assms(1-4)] by blast
  obtain cb l where "redisShiftCallback (a_replies ac) = Some (REDIS_OK, cb, l)"
    using redisShiftCallback_first [OF assms(6)] by blast
  with hc k show ?thesis
    by (simp add: redisAsyncHandleWrite_def asyncDisconnect_def redisAsyncCopyError_def redis_err_defs)
qed

theorem async_write_again_asserts_witness:
  "redisAsyncHandleWrite roomy demo_libc (\<lambda>fn r pd ac. Some ac)
    ((demo_async [] (one_callback 5 7))\<lparr>a_c := (demo_conn [] [SendError EINTR])
      \<lparr>k_ctx := (k_ctx (demo_conn [] []))\<lparr>c_flags := REDIS_CONNECTED, c_obuf := Ptr (sds_of ''x'')\<rparr>\<rparr>\<rparr>) = None"
proof -
  let ?ac = "(demo_async [] (one_callback 5 7))\<lparr>a_c := (demo_conn [] [SendError EINTR])
      \<lparr>k_ctx := (k_ctx (demo_conn [] []))\<lparr>c_flags := REDIS_CONNECTED, c_obuf := Ptr (sds_of ''x'')\<rparr>\<rparr>\<rparr>"
  have l: "listening roomy Map.empty (a_c ?ac) (- 1) [] [] ''x''"
    using demo_async_ready [of "[]" empty_list] by (auto simp: conn_defs demo_async_def demo_conn_def sds_of)
  show ?thesis
    by (rule async_write_again_asserts [OF l, where p = "(5, 1, 7)" and ps = "[]" and e = EINTR and outs = "[]"])
      (simp_all add: one_callback demo_conn_def flag_def flag_defs)
qed

end
