(* ===== verification/Net_Correct.thy ===== *)
theory Net_Correct
  imports Context "HOL-Library.Multiset"
begin

unbundle bit_operations_syntax

text \<open>
  The socket layer is correct: who owns the descriptors, which failures are reported, and how a
  connection comes about. Nothing is assumed about the answers of the operating system; what is
  proved holds for every script of answers on which the functions return.
\<close>

lemma bind_guard [simp]: "((if b then None else Some ()) \<bind> g) = (if b then None else g ())"
  by simp

section \<open>What the operations keep\<close>

text \<open>The descriptors that are open, apart from those in \<^theory_text>\<open>M\<close>, are the one of the context.\<close>

definition owned :: "int multiset \<Rightarrow> conn \<Rightarrow> bool" where
  "owned M k \<longleftrightarrow> mset (n_open (k_net k)) =
     (if c_fd (k_ctx k) = REDIS_INVALID_FD then M else add_mset (c_fd (k_ctx k)) M)"

text \<open>A context that can be freed: none of its strings was freed before.\<close>

definition linked :: "redisContext \<Rightarrow> bool" where
  "linked c \<longleftrightarrow> c_host c \<noteq> Dangling \<and> c_source_addr c \<noteq> Dangling \<and> c_path c \<noteq> Dangling \<and>
     c_timeout c \<noteq> Dangling \<and> c_saddr c \<noteq> Dangling"

lemma linked_simps [simp]:
  "linked (c\<lparr>c_err := e\<rparr>) = linked c" "linked (c\<lparr>c_errstr := s\<rparr>) = linked c" "linked (c\<lparr>c_fd := i\<rparr>) = linked c"
  "linked (c\<lparr>c_flags := f\<rparr>) = linked c" "linked (c\<lparr>c_obuf := ob\<rparr>) = linked c"
  "linked (c\<lparr>c_reader := r\<rparr>) = linked c" "linked (c\<lparr>c_connection_type := i\<rparr>) = linked c"
  "linked (c\<lparr>c_port := i\<rparr>) = linked c" "linked (c\<lparr>c_addrlen := n\<rparr>) = linked c"
  "linked c \<Longrightarrow> linked (c\<lparr>c_saddr := Ptr a\<rparr>)"
  by (simp_all add: linked_def)

text \<open>Everything but the errors, the descriptor and the state of the operating system is kept.\<close>

definition keeps :: "conn \<Rightarrow> conn \<Rightarrow> bool" where
  "keeps k k' \<longleftrightarrow> (\<forall>M. owned M k \<longrightarrow> owned M k') \<and> n_infos (k_net k') = n_infos (k_net k) \<and>
     k_heap k' = k_heap k \<and> c_obuf (k_ctx k') = c_obuf (k_ctx k) \<and> c_reader (k_ctx k') = c_reader (k_ctx k) \<and>
     n_in (k_net k') = n_in (k_net k) \<and> n_out (k_net k') = n_out (k_net k) \<and>
     n_sent (k_net k') = n_sent (k_net k) \<and> c_flags (k_ctx k') OR REDIS_CONNECTED = c_flags (k_ctx k) OR REDIS_CONNECTED \<and>
     (linked (k_ctx k) \<longrightarrow> linked (k_ctx k'))"

text \<open>A failure sets an error; a success does not, and keeps the descriptor.\<close>

definition outcome :: "conn \<Rightarrow> int \<Rightarrow> conn \<Rightarrow> bool" where
  "outcome k rc k' \<longleftrightarrow> keeps k k' \<and>
     (if rc = REDIS_OK then c_err (k_ctx k') = c_err (k_ctx k) \<and> c_fd (k_ctx k') = c_fd (k_ctx k)
      else rc = REDIS_ERR \<and> c_err (k_ctx k') \<noteq> 0)"

lemma keeps_refl [simp]: "keeps k k"
  by (simp add: keeps_def)

lemma keeps_trans: "keeps k k1 \<Longrightarrow> keeps k1 k2 \<Longrightarrow> keeps k k2"
  by (simp add: keeps_def)

lemma outcome_keeps: "outcome k rc k' \<Longrightarrow> keeps k k'"
  by (simp add: outcome_def)

lemma outcome_trans: "outcome k REDIS_OK k1 \<Longrightarrow> outcome k1 rc k2 \<Longrightarrow> outcome k rc k2"
  by (auto simp: outcome_def intro: keeps_trans)

lemma outcome_cases:
  assumes "outcome k rc k'"
  obtains "rc = REDIS_OK" "keeps k k'" "c_err (k_ctx k') = c_err (k_ctx k)" "c_fd (k_ctx k') = c_fd (k_ctx k)"
  | "rc = REDIS_ERR" "keeps k k'" "c_err (k_ctx k') \<noteq> 0"
  using assms by (auto simp: outcome_def split: if_splits)

text \<open>\<^theory_text>\<open>yields k m\<close>: whenever \<^theory_text>\<open>m\<close> returns, its result is an outcome of \<^theory_text>\<open>k\<close>.\<close>

definition yields :: "conn \<Rightarrow> (int \<times> conn) option \<Rightarrow> bool" where
  "yields k m \<longleftrightarrow> (\<forall>rc k'. m = Some (rc, k') \<longrightarrow> outcome k rc k')"

named_theorems yields \<open>the outcomes of the operations on sockets\<close>

lemma yieldsD: "yields k m \<Longrightarrow> m = Some (rc, k') \<Longrightarrow> outcome k rc k'"
  by (simp add: yields_def)

lemma yields_None [yields]: "yields k None"
  by (simp add: yields_def)

lemma yields_ok [yields]: "yields k (Some (REDIS_OK, k))"
  by (simp add: yields_def outcome_def)

lemma yields_bind:
  assumes "yields k m" "\<And>k1. yields k1 (g (REDIS_OK, k1))"
    "\<And>k1. outcome k REDIS_ERR k1 \<Longrightarrow> yields k (g (REDIS_ERR, k1))"
  shows "yields k (m \<bind> g)"
proof (cases m)
  case (Some x)
  obtain rc k1 where x: "x = (rc, k1)" by (cases x)
  with Some assms(1) have "outcome k rc k1" by (simp add: yields_def)
  then show ?thesis
  proof (cases rule: outcome_cases)
    case 1
    with \<open>outcome k rc k1\<close> have o: "outcome k REDIS_OK k1" by simp
    from assms(2) [of k1] have "yields k (g (REDIS_OK, k1))"
      by (auto simp: yields_def intro: outcome_trans [OF o])
    with Some x 1 show ?thesis by simp
  next
    case 2
    with \<open>outcome k rc k1\<close> assms(3) [of k1] Some x show ?thesis by simp
  qed
qed (simp add: yields_None)

lemma yields_err [yields]: "outcome k REDIS_ERR k1 \<Longrightarrow> yields k (Some (REDIS_ERR, k1))"
  by (simp add: yields_def)

lemma os_call_keeps: "os_call s n = Some (a, n') \<Longrightarrow> n_open n' = n_open n \<and> n_infos n' = n_infos n \<and>
    n_in n' = n_in n \<and> n_out n' = n_out n \<and> n_sent n' = n_sent n"
  by (auto simp: os_call_def Let_def split: list.splits answer.splits)

lemma os_int_keeps:
  assumes "os_int s n = Some (r, n')"
  shows "n_open n' = n_open n \<and> n_infos n' = n_infos n \<and> n_in n' = n_in n \<and> n_out n' = n_out n \<and>
    n_sent n' = n_sent n \<and> - 1 \<le> r"
proof -
  from assms obtain a n1 where "os_call s n = Some (a, n1)"
    "(case a of Result r \<Rightarrow> Some (int r, n1) | answer.Failure e \<Rightarrow> if e = 0 then None else Some (- 1, n1)
        | _ \<Rightarrow> None) = Some (r, n')"
    by (auto simp: os_int_def bind_eq_Some_conv)
  with os_call_keeps [of s n a n1] show ?thesis by (cases a) (auto split: if_splits)
qed

lemma call_ok:
  assumes "call k f = Some (r, k')"
  shows "outcome k REDIS_OK k'" "- 1 \<le> r" "c_saddr (k_ctx k') = c_saddr (k_ctx k)"
proof -
  from assms obtain n where n: "os_int (f (c_fd (k_ctx k))) (k_net k) = Some (r, n)" "k' = k\<lparr>k_net := n\<rparr>"
    by (auto simp: call_def bind_eq_Some_conv)
  with os_int_keeps [OF n(1)] show "outcome k REDIS_OK k'" "- 1 \<le> r" "c_saddr (k_ctx k') = c_saddr (k_ctx k)"
    by (auto simp: outcome_def keeps_def owned_def)
qed

lemma yields_call:
  assumes "\<And>r k1. - 1 \<le> r \<Longrightarrow> yields k1 (g (r, k1))"
  shows "yields k (call k f \<bind> g)"
proof (cases "call k f")
  case (Some x)
  obtain r k1 where x: "x = (r, k1)" by (cases x)
  with Some call_ok [of k f r k1] assms [of r k1] show ?thesis
    by (auto simp: yields_def intro: outcome_trans)
qed (simp add: yields_None)

lemma close_keeps: "keeps k (redisNetClose k)" "c_err (k_ctx (redisNetClose k)) = c_err (k_ctx k)"
  "c_fd (k_ctx (redisNetClose k)) = REDIS_INVALID_FD"
  by (auto simp: redisNetClose_def keeps_def owned_def os_close_def)

lemma set_error_ok:
  assumes "type \<noteq> 0"
  obtains k' where "set_error lc k type (Some s) = Some k'" "outcome k REDIS_ERR k'"
    "c_fd (k_ctx k') = c_fd (k_ctx k)" "c_err (k_ctx k') = type"
  using assms by (simp add: set_error_def redisSetError_def outcome_def keeps_def owned_def)

lemma outcome_close: "outcome k REDIS_ERR k' \<Longrightarrow> outcome k REDIS_ERR (redisNetClose k')"
  using close_keeps [of k'] by (auto simp: outcome_def intro: keeps_trans)

lemma yields_io_error [yields]: "yields k (io_error lc k p)" "yields k (io_error_close lc k p)"
proof -
  obtain k' where "redisSetErrorFromErrno lc k REDIS_ERR_IO p = Some k'" "outcome k REDIS_ERR k'"
    by (rule set_error_ok [of REDIS_ERR_IO lc k]) (simp_all add: redisSetErrorFromErrno_def Let_def redis_err_defs)
  then show "yields k (io_error lc k p)" "yields k (io_error_close lc k p)"
    by (simp_all add: io_error_def io_error_close_def yields_err outcome_close)
qed

lemma yields_errno [simp]: "yields (k\<lparr>k_net := (k_net k)\<lparr>n_errno := e\<rparr>\<rparr>) m = yields k m"
  by (simp add: yields_def outcome_def keeps_def owned_def)

lemma yields_timed_out [yields]: "yields k (io_error_close lc (k\<lparr>k_net := (k_net k)\<lparr>n_errno := e\<rparr>\<rparr>) p)"
  using yields_io_error(2) [of "k\<lparr>k_net := (k_net k)\<lparr>n_errno := e\<rparr>\<rparr>"] by simp

lemma yields_SetBlocking [yields]: "yields k (redisSetBlocking lc k b)"
  unfolding redisSetBlocking_def
  by (auto intro!: yields_call yields split: prod.splits)

lemma yields_SetTcpNoDelay [yields]: "yields k (redisSetTcpNoDelay lc k)"
  unfolding redisSetTcpNoDelay_def by (auto intro!: yields_call yields)

lemma yields_SetReuseAddr [yields]: "yields k (redisSetReuseAddr lc k)"
  unfolding redisSetReuseAddr_def by (auto intro!: yields_call yields)

lemma yields_SetTimeout [yields]: "yields k (redisContextSetTimeout lc k tv)"
  unfolding redisContextSetTimeout_def by (auto intro!: yields_call yields)

text \<open>A call that fails sets \<^verbatim>\<open>errno\<close>.\<close>

lemma os_int_errno: "os_int s n = Some (- 1, n') \<Longrightarrow> n_errno n' \<noteq> 0"
  by (auto simp: os_int_def os_call_def bind_eq_Some_conv Let_def split: list.splits answer.splits if_splits)

lemma os_connect_ok:
  assumes "os_connect k a = Some (r, k')"
  shows "outcome k REDIS_OK k'" "r = 0 \<or> r = - 1 \<and> n_errno (k_net k') \<noteq> 0"
proof -
  from assms have r: "call k (\<lambda>fd. Connect fd a) = Some (r, k')" "r \<le> 0"
    by (auto simp: os_connect_def bind_eq_Some_conv split: if_splits)
  show "outcome k REDIS_OK k'" using call_ok(1) [OF r(1)] .
  from r(1) obtain n where n: "os_int (Connect (c_fd (k_ctx k)) a) (k_net k) = Some (r, n)" "k' = k\<lparr>k_net := n\<rparr>"
    by (auto simp: call_def bind_eq_Some_conv)
  have "r = 0 \<or> r = - 1" using call_ok(2) [OF r(1)] r(2) by linarith
  with n os_int_errno [of _ "k_net k" n] show "r = 0 \<or> r = - 1 \<and> n_errno (k_net k') \<noteq> 0" by auto
qed

lemma yields_connect:
  assumes "\<And>k1. yields k1 (g (0, k1))" "\<And>k1. n_errno (k_net k1) \<noteq> 0 \<Longrightarrow> yields k1 (g (- 1, k1))"
  shows "yields k (os_connect k a \<bind> g)"
proof (cases "os_connect k a")
  case (Some x)
  obtain r k1 where x: "x = (r, k1)" by (cases x)
  with Some os_connect_ok [of k a r k1] assms [of k1] show ?thesis
    by (auto simp: yields_def intro: outcome_trans)
qed (simp add: yields_None)

text \<open>\<^verbatim>\<open>redisCheckSocketError\<close> after a failed call always fails.\<close>

lemma CheckSocketError_fails:
  assumes "n_errno (k_net k) \<noteq> 0" "redisCheckSocketError lc k = Some (rc, k')"
  shows "outcome k REDIS_ERR k'"
proof -
  have err: "io_error lc j p = Some (x, j') \<Longrightarrow> outcome j REDIS_ERR j'" for j p x j'
    using yieldsD [OF yields_io_error(1), of lc j p x j']
    by (auto simp: io_error_def bind_eq_Some_conv outcome_def redis_err_defs)
  from assms(2) obtain r k1 where c: "call k Get_error = Some (r, k1)"
    "(if r = - 1 then io_error lc k1 (Some ''getsockopt(SO_ERROR)'')
      else if (if r = 0 then n_errno (k_net k) else nat r) \<noteq> 0
      then io_error lc (k1\<lparr>k_net := (k_net k1)\<lparr>n_errno := if r = 0 then n_errno (k_net k) else nat r\<rparr>\<rparr>) None
      else Some (REDIS_OK, k1)) = Some (rc, k')"
    unfolding redisCheckSocketError_def Let_def by (auto simp: bind_eq_Some_conv)
  with assms(1) call_ok(2) [OF c(1)] have "outcome k1 REDIS_ERR k'"
    by (auto dest!: err split: if_splits simp: outcome_def keeps_def owned_def)
  then show ?thesis using outcome_trans [OF call_ok(1) [OF c(1)]] by simp
qed

lemma yields_WaitReady [yields]: "yields k (redisContextWaitReady lc k msec)"
proof -
  have fail: "yields k1 (redisCheckSocketError lc k1 \<bind> (\<lambda>(_, k). Some (REDIS_ERR, k)))"
    if "n_errno (k_net k1) \<noteq> 0" for k1
    using CheckSocketError_fails [OF that] by (auto simp: yields_def bind_eq_Some_conv)
  have completed: "yields k1 (redisCheckConnectDone k1 \<bind> (\<lambda>(rc, completed, k).
      if rc \<noteq> REDIS_OK \<or> completed = Some 0
      then redisCheckSocketError lc k \<bind> (\<lambda>(_, k). Some (REDIS_ERR, k)) else Some (REDIS_OK, k)))" for k1
    unfolding redisCheckConnectDone_def Let_def
    by (auto intro!: yields_connect yields fail simp: bind_assoc)
  show ?thesis unfolding redisContextWaitReady_def
    using completed by (auto intro!: yields_call yields)
qed

section \<open>The loop over the addresses\<close>

text \<open>
  What a round leaves: no descriptor before another round; after a failure an error, but for a
  context with \<^verbatim>\<open>REDIS_REUSEADDR\<close>; after a success the descriptor and the flag.
\<close>

definition attempted :: "bool \<Rightarrow> conn \<Rightarrow> attempt \<Rightarrow> conn \<Rightarrow> bool" where
  "attempted reuseaddr k a k' \<longleftrightarrow> keeps k k' \<and> (case a of
     Next_address \<Rightarrow> c_fd (k_ctx k') = REDIS_INVALID_FD \<and> c_err (k_ctx k') = c_err (k_ctx k)
   | Same_address \<Rightarrow> c_fd (k_ctx k') = REDIS_INVALID_FD \<and> c_err (k_ctx k') = c_err (k_ctx k)
   | Give_up \<Rightarrow> c_err (k_ctx k') \<noteq> 0 \<or> reuseaddr
   | Connected \<Rightarrow> c_fd (k_ctx k') = c_fd (k_ctx k) \<and> c_err (k_ctx k') = c_err (k_ctx k) \<and>
       flag (k_ctx k') REDIS_CONNECTED)"

definition tries :: "bool \<Rightarrow> conn \<Rightarrow> (attempt \<times> conn) option \<Rightarrow> bool" where
  "tries reuseaddr k m \<longleftrightarrow> (\<forall>a k'. m = Some (a, k') \<longrightarrow> attempted reuseaddr k a k')"

lemma attempted_trans: "outcome k REDIS_OK k1 \<Longrightarrow> attempted r k1 a k2 \<Longrightarrow> attempted r k a k2"
  by (cases a) (auto simp: attempted_def outcome_def intro: keeps_trans)

lemma tries_None [intro!, simp]: "tries r k None"
  by (simp add: tries_def)

lemma tries_Some [simp]: "tries r k (Some (a, k')) = attempted r k a k'"
  by (simp add: tries_def)

lemma attempted_Give_up: "outcome k REDIS_ERR k1 \<Longrightarrow> attempted r k Give_up k1"
  by (simp add: attempted_def outcome_def)

lemma tries_outcome:
  assumes "m = Some (x, k1) \<Longrightarrow> outcome k REDIS_OK k1" "\<And>x k1. m = Some (x, k1) \<Longrightarrow> tries r k1 (g (x, k1))"
    "\<And>x k1. m = Some (x, k1) \<Longrightarrow> outcome k REDIS_OK k1"
  shows "tries r k (m \<bind> g)"
proof (cases m)
  case (Some y)
  then obtain x k1 where "m = Some (x, k1)" by (cases y) auto
  with assms(2,3) [of x k1] show ?thesis by (auto simp: tries_def intro: attempted_trans)
qed simp

lemma tries_bind:
  assumes "yields k m" "\<And>k1. c_fd (k_ctx k1) = c_fd (k_ctx k) \<Longrightarrow> tries r k1 (g (REDIS_OK, k1))"
    "\<And>k1. outcome k REDIS_ERR k1 \<Longrightarrow> tries r k (g (REDIS_ERR, k1))"
  shows "tries r k (m \<bind> g)"
proof (cases m)
  case (Some x)
  obtain rc k1 where x: "x = (rc, k1)" by (cases x)
  with Some assms(1) have o: "outcome k rc k1" by (simp add: yields_def)
  then show ?thesis
  proof (cases rule: outcome_cases)
    case 1
    with assms(2) [of k1] have "tries r k1 (g (REDIS_OK, k1))" by simp
    with o 1(1) have "tries r k (g (REDIS_OK, k1))" by (auto simp: tries_def intro: attempted_trans)
    with Some x 1 show ?thesis by simp
  next
    case 2
    with o assms(3) [of k1] Some x show ?thesis by simp
  qed
qed simp

lemma tries_connected: "tries r k (connected lc k blocking)"
proof -
  have fl: "attempted r k1 Connected (k1\<lparr>k_ctx := (k_ctx k1)\<lparr>c_flags := c_flags (k_ctx k1) OR REDIS_CONNECTED\<rparr>\<rparr>)"
    for k1
    by (simp add: attempted_def keeps_def owned_def flag_def or.assoc REDIS_CONNECTED_def)
  show ?thesis unfolding connected_def
    by (auto intro!: tries_bind attempted_Give_up yields simp: fl)
qed

lemma bind_any_outcome: "bind_any k bs = Some (b, k') \<Longrightarrow> outcome k REDIS_OK k'"
proof (induction bs arbitrary: k)
  case Nil
  then show ?case by (simp add: outcome_def)
next
  case (Cons x bs)
  from Cons.prems obtain r k1 where c: "call k (\<lambda>fd. Bind fd (ai_addr x)) = Some (r, k1)"
    "(if r \<noteq> - 1 then Some (True, k1) else bind_any k1 bs) = Some (b, k')"
    by (auto simp: bind_eq_Some_conv)
  have "outcome k1 REDIS_OK k'"
    using c(2) Cons.IH [of k1] by (cases "r = - 1") (auto simp: outcome_def)
  then show ?case by (rule outcome_trans [OF call_ok(1) [OF c(1)]])
qed

lemma getaddrinfo_keeps:
  assumes "os_getaddrinfo h p f (k_net k) = Some (r, n')"
  shows "keeps k (k\<lparr>k_net := n'\<lparr>n_infos := n_infos (k_net k)\<rparr>\<rparr>)"
    "n_infos n' = (case r of Inl _ \<Rightarrow> n_infos (k_net k) | Inr _ \<Rightarrow> Suc (n_infos (k_net k)))"
proof -
  from assms obtain a n1 where a: "os_call (Get_addresses h p f) (k_net k) = Some (a, n1)"
    "(case a of Addresses as \<Rightarrow> if as = [] then None else Some (Inr as, n1\<lparr>n_infos := Suc (n_infos n1)\<rparr>)
        | No_addresses rv \<Rightarrow> Some (Inl rv, n1) | _ \<Rightarrow> None) = Some (r, n')"
    by (auto simp: os_getaddrinfo_def bind_eq_Some_conv)
  with os_call_keeps [OF a(1)]
  show "keeps k (k\<lparr>k_net := n'\<lparr>n_infos := n_infos (k_net k)\<rparr>\<rparr>)"
    "n_infos n' = (case r of Inl _ \<Rightarrow> n_infos (k_net k) | Inr _ \<Rightarrow> Suc (n_infos (k_net k)))"
    by (auto simp: keeps_def owned_def split: answer.splits if_splits)
qed

text \<open>An address list is there until it is freed, which undoes the only change that counts.\<close>

lemma addresses_freed:
  assumes "os_getaddrinfo h p f (k_net k) = Some (Inr as, n')" "keeps (k\<lparr>k_net := n'\<rparr>) k2"
  shows "\<exists>n2. os_freeaddrinfo (k_net k2) = Some n2 \<and> keeps k (k2\<lparr>k_net := n2\<rparr>)"
proof -
  have "n_infos (k_net k2) = Suc (n_infos (k_net k))"
    using getaddrinfo_keeps(2) [OF assms(1)] assms(2) by (simp add: keeps_def)
  then show ?thesis using getaddrinfo_keeps(1) [OF assms(1)] assms(2)
    by (auto simp: os_freeaddrinfo_def keeps_def owned_def)
qed

lemma bind_source_ok:
  assumes "bind_source lc k family reuseaddr = Some (ok, k')"
  shows "if ok then outcome k REDIS_OK k' else keeps k k' \<and> (c_err (k_ctx k') \<noteq> 0 \<or> reuseaddr)"
proof (cases "c_source_addr (k_ctx k)")
  case Null
  with assms show ?thesis by (auto simp: bind_source_def outcome_def)
next
  case Dangling
  with assms show ?thesis by (simp add: bind_source_def)
next
  case (Ptr src)
  then obtain r n where g: "os_getaddrinfo (Ptr src) None family (k_net k) = Some (r, n)"
    using assms by (auto simp: bind_source_def bind_eq_Some_conv)
  let ?k = "k\<lparr>k_net := n\<rparr>"
  show ?thesis
  proof (cases r)
    case (Inl rv)
    then have k0: "keeps k ?k" using getaddrinfo_keeps [OF g] by (simp add: keeps_def owned_def)
    obtain k2 where "set_error lc ?k REDIS_ERR_OTHER (Some (take 127 (''Can'' @ CHR 0x27 # ''t get addr: '' @ gai_strerror lc rv))) = Some k2"
      "outcome ?k REDIS_ERR k2"
      by (rule set_error_ok [of REDIS_ERR_OTHER]) (simp add: redis_err_defs)
    with assms Ptr g Inl k0 show ?thesis
      by (auto simp: bind_source_def outcome_def intro: keeps_trans)
  next
    case (Inr bs)
    with assms Ptr g obtain m k1 where m:
      "(if reuseaddr then call ?k (\<lambda>fd. Set_option fd SO_REUSEADDR (Int_value 1)) else Some (0, ?k)) = Some (m, k1)"
      and rest: "(if m < 0 then do { n \<leftarrow> os_freeaddrinfo (k_net k1); Some (False, k1\<lparr>k_net := n\<rparr>) }
        else do {
          (bound, k) \<leftarrow> bind_any k1 bs;
          n \<leftarrow> os_freeaddrinfo (k_net k);
          if \<not> bound then do {
            k \<leftarrow> set_error lc (k\<lparr>k_net := n\<rparr>) REDIS_ERR_OTHER
              (Some (take 127 (''Can'' @ CHR 0x27 # ''t bind socket: '' @ strerror lc (n_errno (k_net (k\<lparr>k_net := n\<rparr>))))));
            Some (False, k)
          }
          else Some (True, k\<lparr>k_net := n\<rparr>)
        }) = Some (ok, k')"
      unfolding bind_source_def Let_def by (auto simp: bind_eq_Some_conv)
    have o1: "outcome ?k REDIS_OK k1" and r: "m < 0 \<Longrightarrow> reuseaddr"
      using m call_ok(1) [of ?k _ m k1] by (auto simp: outcome_def split: if_splits)
    show ?thesis
    proof (cases "m < 0")
      case True
      from addresses_freed [OF g [unfolded Inr] outcome_keeps [OF o1]] rest True r show ?thesis by auto
    next
      case False
      with rest obtain bound k2 where b: "bind_any k1 bs = Some (bound, k2)"
        and rest': "do { n \<leftarrow> os_freeaddrinfo (k_net k2);
          if \<not> bound then do {
            k \<leftarrow> set_error lc (k2\<lparr>k_net := n\<rparr>) REDIS_ERR_OTHER
              (Some (take 127 (''Can'' @ CHR 0x27 # ''t bind socket: '' @ strerror lc (n_errno (k_net (k2\<lparr>k_net := n\<rparr>))))));
            Some (False, k)
          }
          else Some (True, k2\<lparr>k_net := n\<rparr>) } = Some (ok, k')"
        by (auto simp: bind_eq_Some_conv)
      have o2: "outcome ?k REDIS_OK k2" using outcome_trans [OF o1 bind_any_outcome [OF b]] .
      obtain n2 where n2: "os_freeaddrinfo (k_net k2) = Some n2" "keeps k (k2\<lparr>k_net := n2\<rparr>)"
        using addresses_freed [OF g [unfolded Inr] outcome_keeps [OF o2]] by blast
      show ?thesis
      proof (cases bound)
        case True
        with rest' n2 o2 show ?thesis by (auto simp: outcome_def)
      next
        case False
        obtain k3 where k3: "set_error lc (k2\<lparr>k_net := n2\<rparr>) REDIS_ERR_OTHER
            (Some (take 127 (''Can'' @ CHR 0x27 # ''t bind socket: '' @ strerror lc (n_errno n2)))) = Some k3"
          "outcome (k2\<lparr>k_net := n2\<rparr>) REDIS_ERR k3"
          by (rule set_error_ok [of REDIS_ERR_OTHER]) (simp add: redis_err_defs)
        with rest' n2 False show ?thesis by (auto simp: outcome_def intro: keeps_trans)
      qed
    qed
  qed
qed

lemma save_addr_ok: "save_addr A k addr = Some k' \<Longrightarrow> outcome k REDIS_OK k'"
  by (auto simp: save_addr_def outcome_def keeps_def owned_def bind_eq_Some_conv split: if_splits)

lemma socket_ok:
  assumes "os_socket f (k_net k) = Some (s, n)" "c_fd (k_ctx k) = REDIS_INVALID_FD"
  shows "if s = REDIS_INVALID_FD then keeps k (k\<lparr>k_net := n\<rparr>)
    else keeps k (k\<lparr>k_net := n, k_ctx := (k_ctx k)\<lparr>c_fd := s\<rparr>\<rparr>)"
proof -
  from assms(1) obtain n1 where "os_int (Socket f) (k_net k) = Some (s, n1)"
    "n = (if s = - 1 then n1 else n1\<lparr>n_open := s # n_open n1\<rparr>)"
    by (auto simp: os_socket_def bind_eq_Some_conv)
  with os_int_keeps [of "Socket f" "k_net k" s n1] assms(2) show ?thesis
    by (auto simp: keeps_def owned_def REDIS_INVALID_FD_def)
qed

lemma tries_bind_source:
  assumes "\<And>k1. c_fd (k_ctx k1) = c_fd (k_ctx k) \<Longrightarrow> tries r k1 (g (True, k1))"
    "\<And>k1. attempted r k Give_up k1 \<Longrightarrow> tries r k (g (False, k1))"
  shows "tries r k (bind_source lc k f r \<bind> g)"
proof (cases "bind_source lc k f r")
  case (Some x)
  obtain ok k1 where x: "x = (ok, k1)" by (cases x)
  note b = bind_source_ok [OF Some [unfolded x]]
  show ?thesis
  proof (cases ok)
    case True
    with b assms(1) [of k1] Some x show ?thesis
      by (auto simp: tries_def outcome_def [of _ REDIS_OK] intro!: attempted_trans [of k k1] split: if_splits)
  next
    case False
    with b assms(2) [of k1] Some x show ?thesis by (auto simp: attempted_def)
  qed
qed simp

lemma tries_save_addr:
  assumes "\<And>k1. c_fd (k_ctx k1) = c_fd (k_ctx k) \<Longrightarrow> tries r k1 (g k1)"
  shows "tries r k (save_addr A k a \<bind> g)"
proof (cases "save_addr A k a")
  case (Some k1)
  have o: "outcome k REDIS_OK k1" using save_addr_ok [OF Some] .
  with assms [of k1] Some show ?thesis
    by (auto simp: tries_def outcome_def [of _ REDIS_OK] intro!: attempted_trans [of k k1])
qed simp

lemma tries_connect:
  assumes "\<And>k1 x. c_fd (k_ctx k1) = c_fd (k_ctx k) \<Longrightarrow> tries r k1 (g (x, k1))"
  shows "tries r k (os_connect k a \<bind> g)"
proof (cases "os_connect k a")
  case (Some x)
  obtain v k1 where x: "x = (v, k1)" by (cases x)
  have o: "outcome k REDIS_OK k1" using os_connect_ok(1) [of k a v k1] Some x by simp
  with assms [of k1 v] Some x show ?thesis
    by (auto simp: tries_def outcome_def [of _ REDIS_OK] intro!: attempted_trans [of k k1])
qed simp

lemma attempted_close: "a = Next_address \<or> a = Same_address \<Longrightarrow> attempted r k a (redisNetClose k)"
  by (auto simp: attempted_def close_keeps)

lemma attempted_reuse: "r \<Longrightarrow> attempted r k Give_up k"
  by (simp add: attempted_def)

text \<open>A round of the loop, once there is a socket.\<close>

lemma try_address_ok:
  assumes "try_address A lc f b r msec k p n = Some (a, k')" "c_fd (k_ctx k) = REDIS_INVALID_FD"
  shows "keeps k k' \<and> (case a of
      Next_address \<Rightarrow> c_fd (k_ctx k') = REDIS_INVALID_FD \<and> c_err (k_ctx k') = c_err (k_ctx k)
    | Same_address \<Rightarrow> c_fd (k_ctx k') = REDIS_INVALID_FD \<and> c_err (k_ctx k') = c_err (k_ctx k)
    | Give_up \<Rightarrow> c_err (k_ctx k') \<noteq> 0 \<or> r
    | Connected \<Rightarrow> c_fd (k_ctx k') \<noteq> REDIS_INVALID_FD \<and> c_err (k_ctx k') = c_err (k_ctx k) \<and>
        flag (k_ctx k') REDIS_CONNECTED)"
proof -
  obtain s n1 where s: "os_socket (ai_family p) (k_net k) = Some (s, n1)"
    using assms(1) by (auto simp: try_address_def bind_eq_Some_conv)
  note ks = socket_ok [OF s assms(2)]
  show ?thesis
  proof (cases "s = REDIS_INVALID_FD")
    case True
    with assms s ks show ?thesis by (auto simp: try_address_def)
  next
    case False
    let ?k = "k\<lparr>k_net := n1, k_ctx := (k_ctx k)\<lparr>c_fd := s\<rparr>\<rparr>"
    define body where "body = do {
       (rc, k) \<leftarrow> redisSetBlocking lc ?k False;
       if rc \<noteq> REDIS_OK then Some (Give_up, k)
       else do {
         (ok, k) \<leftarrow> bind_source lc k f r;
         if \<not> ok then Some (Give_up, k)
         else do {
           k \<leftarrow> save_addr A k (ai_addr p);
           (v, k) \<leftarrow> os_connect k (Ptr (ai_addr p));
           let e = n_errno (k_net k);
           if v = - 1 then
             if e = EHOSTUNREACH then Some (Next_address, redisNetClose k)
             else if e = EINPROGRESS \<and> \<not> b then connected lc k b
             else if e = EADDRNOTAVAIL \<and> r then
               if Suc n \<ge> REDIS_CONNECT_RETRIES then Some (Give_up, k)
               else Some (Same_address, redisNetClose k)
             else do {
               (rc, k) \<leftarrow> redisContextWaitReady lc k msec;
               if rc \<noteq> REDIS_OK then Some (Give_up, k) else connected lc k b
             }
           else connected lc k b
         }
       }
     }"
    have "tries r ?k body"
      unfolding body_def Let_def
      by (auto intro!: tries_bind tries_bind_source tries_save_addr tries_connect tries_connected
          attempted_Give_up attempted_close attempted_reuse yields)
    moreover have "body = Some (a, k')"
      using assms(1) s False by (simp add: try_address_def body_def)
    ultimately have "attempted r ?k a k'" by simp
    with ks False show ?thesis
      by (cases a) (auto simp: attempted_def intro: keeps_trans)
  qed
qed

lemma connect_loop_ok:
  assumes "connect_loop A lc f b r msec k ps n = Some (rc, k')" "c_fd (k_ctx k) = REDIS_INVALID_FD"
  shows "keeps k k' \<and>
    (if rc = REDIS_OK then c_fd (k_ctx k') \<noteq> REDIS_INVALID_FD \<and> c_err (k_ctx k') = c_err (k_ctx k) \<and>
        flag (k_ctx k') REDIS_CONNECTED
     else rc = REDIS_ERR \<and> (c_err (k_ctx k') \<noteq> 0 \<or> r))"
  using assms
proof (induction A lc f b r msec k ps n rule: connect_loop.induct)
  case (1 A lc f b r msec k n)
  obtain k2 where "set_error lc k REDIS_ERR_OTHER
      (Some (take 127 (''Can'' @ CHR 0x27 # ''t create socket: '' @ strerror lc (n_errno (k_net k))))) = Some k2"
    "outcome k REDIS_ERR k2"
    by (rule set_error_ok [of REDIS_ERR_OTHER]) (simp add: redis_err_defs)
  with 1 show ?case by (auto simp: outcome_def)
next
  case (2 A lc f b r msec k p ps n)
  from 2(3) obtain a k1 where t: "try_address A lc f b r msec k p n = Some (a, k1)"
    by (auto split: option.splits)
  note ok = try_address_ok [OF t 2(4)]
  show ?case
  proof (cases a)
    case Next_address
    with ok t 2(1) [OF t refl Next_address] 2(3) show ?thesis
      by (auto intro: keeps_trans)
  next
    case Same_address
    with ok t 2(2) [OF t refl Same_address] 2(3) show ?thesis
      by (auto intro: keeps_trans split: if_splits)
  next
    case Give_up
    with ok t 2(3) show ?thesis by auto
  next
    case Connected
    with ok t 2(3) show ?thesis by auto
  qed
qed

unbundle bit_operations_syntax

section \<open>Connecting\<close>

lemma save_ok:
  "save_host A c addr = Some c' \<Longrightarrow> \<exists>h. c' = c\<lparr>c_host := h\<rparr>"
  "save_timeout A c tv = Some c' \<Longrightarrow> \<exists>t. c' = c\<lparr>c_timeout := t\<rparr>"
  "save_source A c src = Some c' \<Longrightarrow> \<exists>s. c' = c\<lparr>c_source_addr := s\<rparr>"
  "save_host A c addr = Some c' \<Longrightarrow> linked c \<Longrightarrow> linked c'"
  "save_timeout A c tv = Some c' \<Longrightarrow> linked c \<Longrightarrow> linked c'"
  "save_source A c src = Some c' \<Longrightarrow> linked c \<Longrightarrow> linked c'"
proof -
  show "save_host A c addr = Some c' \<Longrightarrow> linked c \<Longrightarrow> linked c'"
    by (cases addr) (auto simp: save_host_def strdup_def linked_def bind_eq_Some_conv split: if_splits)
  show "save_timeout A c tv = Some c' \<Longrightarrow> linked c \<Longrightarrow> linked c'"
    by (cases tv) (auto simp: save_timeout_def linked_def bind_eq_Some_conv split: if_splits)
  show "save_source A c src = Some c' \<Longrightarrow> linked c \<Longrightarrow> linked c'"
    by (cases src) (auto simp: save_source_def strdup_def linked_def bind_eq_Some_conv split: if_splits)
  show "save_host A c addr = Some c' \<Longrightarrow> \<exists>h. c' = c\<lparr>c_host := h\<rparr>"
    by (cases addr) (auto simp: save_host_def bind_eq_Some_conv split: if_splits intro: exI [of _ "c_host c"])
  show "save_timeout A c tv = Some c' \<Longrightarrow> \<exists>t. c' = c\<lparr>c_timeout := t\<rparr>"
    by (cases tv) (auto simp: save_timeout_def bind_eq_Some_conv split: if_splits intro: exI [of _ "c_timeout c"])
  show "save_source A c src = Some c' \<Longrightarrow> \<exists>s. c' = c\<lparr>c_source_addr := s\<rparr>"
    by (cases src) (auto simp: save_source_def bind_eq_Some_conv split: if_splits intro: exI [of _ "c_source_addr c"])
qed

text \<open>The arguments of a TCP connection are kept in the context before anything is done.\<close>

definition saved_args :: "redisContext \<Rightarrow> redisContext \<Rightarrow> bool" where
  "saved_args c c' \<longleftrightarrow> (linked c \<longrightarrow> linked c') \<and> (\<exists>h t s port. c' = c\<lparr>c_connection_type := REDIS_CONN_TCP, c_port := port, c_host := h,
     c_timeout := t, c_source_addr := s\<rparr>)"

lemma saved_args_source:
  assumes "saved_args c c'" "save_source A c' src = Some c''"
  shows "saved_args c c''"
proof -
  obtain s where "c'' = c'\<lparr>c_source_addr := s\<rparr>" using save_ok(3) [OF assms(2)] by blast
  with assms(1) save_ok(6) [OF assms(2)] show ?thesis unfolding saved_args_def by (clarsimp, blast)
qed

lemma saved_args_keeps:
  "saved_args (k_ctx k) c \<Longrightarrow> keeps k (k\<lparr>k_ctx := c\<rparr>) \<and> c_err c = c_err (k_ctx k) \<and> c_fd c = c_fd (k_ctx k) \<and>
    c_flags c = c_flags (k_ctx k)"
  by (auto simp: saved_args_def keeps_def owned_def)

lemma resolve_ok:
  assumes "resolve k addr port = Some (r, f, k')"
  shows "(case r of Inl _ \<Rightarrow> outcome k REDIS_OK k'
    | Inr as \<Rightarrow> \<exists>h g k0 n. outcome k REDIS_OK k0 \<and> os_getaddrinfo h (Some port) g (k_net k0) = Some (Inr as, n) \<and>
        k' = k0\<lparr>k_net := n\<rparr>)"
proof -
  let ?h = "c_host (k_ctx k)"
  from assms obtain r1 n1 where g: "os_getaddrinfo ?h (Some port) AF_INET (k_net k) = Some (r1, n1)"
    by (auto simp: resolve_def bind_eq_Some_conv split: if_splits)
  show ?thesis
  proof (cases r1)
    case (Inr as)
    with assms g have "r = Inr as" "k' = k\<lparr>k_net := n1\<rparr>" by (auto simp: resolve_def split: if_splits)
    with g Inr show ?thesis
      by (auto intro!: exI [of _ ?h] exI [of _ AF_INET] exI [of _ k] simp: outcome_def)
  next
    case (Inl rv)
    let ?k = "k\<lparr>k_net := n1\<rparr>"
    have k0: "outcome k REDIS_OK ?k"
      using getaddrinfo_keeps [OF g] Inl by (simp add: outcome_def keeps_def owned_def)
    obtain n2 where g2: "os_getaddrinfo (arg_ptr ?h addr) (Some port) AF_INET6 n1 = Some (r, n2)"
      "k' = ?k\<lparr>k_net := n2\<rparr>"
      using assms g Inl by (auto simp: resolve_def bind_eq_Some_conv split: if_splits)
    show ?thesis
    proof (cases r)
      case (Inr as)
      with g2 k0 show ?thesis
        by (auto intro!: exI [of _ "arg_ptr ?h addr"] exI [of _ AF_INET6] exI [of _ ?k] exI [of _ n2])
    next
      case Inl': (Inl rv')
      have "outcome ?k REDIS_OK (?k\<lparr>k_net := n2\<rparr>)"
        using getaddrinfo_keeps [of _ _ _ ?k r n2] g2(1) Inl' by (simp add: outcome_def keeps_def owned_def)
      from outcome_trans [OF k0 this] Inl' g2(2) show ?thesis by simp
    qed
  qed
qed

lemma ConnectBindTcp_ok:
  assumes "redisContextConnectBindTcp A lc k addr port timeout src = Some (rc, k')"
    "c_fd (k_ctx k) = REDIS_INVALID_FD"
  shows "keeps k k' \<and>
    (if rc = REDIS_OK then c_fd (k_ctx k') \<noteq> REDIS_INVALID_FD \<and> c_err (k_ctx k') = c_err (k_ctx k) \<and>
        flag (k_ctx k') REDIS_CONNECTED
     else rc = REDIS_ERR \<and> (c_err (k_ctx k') \<noteq> 0 \<or> flag (k_ctx k) REDIS_REUSEADDR))"
proof -
  define c0 where "c0 = (k_ctx k)\<lparr>c_connection_type := REDIS_CONN_TCP, c_port := port\<rparr>"
  obtain c1 c2 where c: "save_host A c0 addr = Some c1" "save_timeout A c1 timeout = Some c2"
    using assms(1) by (auto simp: redisContextConnectBindTcp_def Let_def c0_def bind_eq_Some_conv)
  obtain rt msec where t: "redisContextTimeoutMsec c2 = Some (rt, msec)"
    using assms(1) c by (auto simp: redisContextConnectBindTcp_def Let_def c0_def bind_eq_Some_conv)
  have s2: "saved_args (k_ctx k) c2"
  proof -
    obtain h t where "c1 = c0\<lparr>c_host := h\<rparr>" "c2 = c1\<lparr>c_timeout := t\<rparr>" using save_ok(1,2) c by metis
    then have "c2 = (k_ctx k)\<lparr>c_connection_type := REDIS_CONN_TCP, c_port := port, c_host := h, c_timeout := t,
        c_source_addr := c_source_addr (k_ctx k)\<rparr>" by (simp add: c0_def)
    moreover have "linked (k_ctx k) \<longrightarrow> linked c2" using save_ok(4,5) c by (auto simp: c0_def)
    ultimately show ?thesis unfolding saved_args_def by blast
  qed
  show ?thesis
  proof (cases "rt = REDIS_OK")
    case False
    obtain k3 where "set_error lc (k\<lparr>k_ctx := c2\<rparr>) REDIS_ERR_IO (Some ''Invalid timeout specified'') = Some k3"
      "outcome (k\<lparr>k_ctx := c2\<rparr>) REDIS_ERR k3"
      by (rule set_error_ok [of REDIS_ERR_IO]) (simp add: redis_err_defs)
    with assms(1) c t False saved_args_keeps [OF s2] show ?thesis
      by (auto simp: redisContextConnectBindTcp_def Let_def c0_def outcome_def intro: keeps_trans)
  next
    case True
    obtain c3 where c3: "save_source A c2 src = Some c3"
      using assms(1) c t True by (auto simp: redisContextConnectBindTcp_def Let_def c0_def bind_eq_Some_conv)
    have s3: "saved_args (k_ctx k) c3"
      by (rule saved_args_source [OF s2 c3])
    let ?k = "k\<lparr>k_ctx := c3\<rparr>"
    note kept = saved_args_keeps [OF s3]
    obtain r f k1 where r: "resolve ?k addr (take 5 (sdec port)) = Some (r, f, k1)"
      using assms(1) c t True c3
      by (auto simp: redisContextConnectBindTcp_def Let_def c0_def bind_eq_Some_conv)
    show ?thesis
    proof (cases r)
      case (Inl rv)
      obtain k3 where "set_error lc k1 REDIS_ERR_OTHER (Some (gai_strerror lc rv)) = Some k3" "outcome k1 REDIS_ERR k3"
        by (rule set_error_ok [of REDIS_ERR_OTHER]) (simp add: redis_err_defs)
      moreover have "outcome ?k REDIS_OK k1" using resolve_ok [OF r] Inl by simp
      ultimately show ?thesis using assms(1) c t True c3 r Inl kept
        by (auto simp: redisContextConnectBindTcp_def Let_def c0_def outcome_def intro: keeps_trans)
    next
      case (Inr as)
      from resolve_ok [OF r] Inr obtain h g k0 n where k0: "outcome ?k REDIS_OK k0"
        "os_getaddrinfo h (Some (take 5 (sdec port))) g (k_net k0) = Some (Inr as, n)" "k1 = k0\<lparr>k_net := n\<rparr>" by auto
      have fd: "c_fd (k_ctx k1) = REDIS_INVALID_FD" "c_err (k_ctx k1) = c_err (k_ctx k)"
        using k0 kept assms(2) by (simp_all add: outcome_def)
      obtain k2 where l: "connect_loop A lc f (flag (k_ctx k) REDIS_BLOCK) (flag (k_ctx k) REDIS_REUSEADDR) msec k1 as 0 =
          Some (rc, k2)" "\<And>n2. os_freeaddrinfo (k_net k2) = Some n2 \<Longrightarrow> k' = k2\<lparr>k_net := n2\<rparr>"
        using assms(1) c t True c3 r Inr
        by (auto simp: redisContextConnectBindTcp_def Let_def c0_def bind_eq_Some_conv)
      note cl = connect_loop_ok [OF l(1) fd(1)]
      obtain n2 where n2: "os_freeaddrinfo (k_net k2) = Some n2" "keeps k0 (k2\<lparr>k_net := n2\<rparr>)"
        using addresses_freed [OF k0(2), of k2] cl k0(3) by auto
      have "keeps k k'"
        using l(2) [OF n2(1)] n2(2) kept k0(1) by (auto simp: outcome_def intro: keeps_trans)
      with l(2) [OF n2(1)] cl fd(2) show ?thesis by (auto simp: flag_def split: if_splits)
    qed
  qed
qed

unbundle bit_operations_syntax

section \<open>How a connection comes about\<close>

text \<open>The state after some calls, with the answers that are left; \<^theory_text>\<open>cs\<close> are the calls, the last first.\<close>

definition answered :: "conn \<Rightarrow> answer list \<Rightarrow> syscall list \<Rightarrow> conn" where
  "answered k rest cs = k\<lparr>k_net := (k_net k)\<lparr>n_sys := rest, n_calls := cs @ n_calls (k_net k)\<rparr>\<rparr>"

lemma answered_simps [simp]:
  "k_ctx (answered k rest cs) = k_ctx k" "n_sys (k_net (answered k rest cs)) = rest"
  "n_calls (k_net (answered k rest cs)) = cs @ n_calls (k_net k)"
  "n_open (k_net (answered k rest cs)) = n_open (k_net k)"
  "n_infos (k_net (answered k rest cs)) = n_infos (k_net k)"
  "answered (answered k rest cs) rest' cs' = answered k rest' (cs' @ cs)"
  by (simp_all add: answered_def)

lemma call_Result:
  "n_sys (k_net k) = Result r # rest \<Longrightarrow>
   call k f = Some (int r, answered k rest [f (c_fd (k_ctx k))])"
  by (simp add: call_def os_int_def os_call_def answered_def)

lemma call_Failure:
  "n_sys (k_net k) = answer.Failure e # rest \<Longrightarrow> e \<noteq> 0 \<Longrightarrow>
   call k f = Some (- 1, (answered k rest [f (c_fd (k_ctx k))])\<lparr>k_net :=
     (k_net (answered k rest [f (c_fd (k_ctx k))]))\<lparr>n_errno := e\<rparr>\<rparr>)"
  by (simp add: call_def os_int_def os_call_def answered_def)

definition nonblocking_flags :: "bool \<Rightarrow> nat \<Rightarrow> int" where
  "nonblocking_flags b fl = (if b then int fl AND NOT O_NONBLOCK else int fl OR O_NONBLOCK)"

lemma SetBlocking_Result:
  assumes "n_sys (k_net k) = Result fl # Result r # rest"
  shows "redisSetBlocking lc k b = Some (REDIS_OK, answered k rest
    [Set_flags (c_fd (k_ctx k)) (nonblocking_flags b fl), Get_flags (c_fd (k_ctx k))])"
  using assms
  by (simp add: redisSetBlocking_def call_Result nonblocking_flags_def Let_def)

text \<open>The last calls of a connection that succeeds, over the socket \<^theory_text>\<open>s\<close>.\<close>

definition last_calls :: "bool \<Rightarrow> int \<Rightarrow> nat \<Rightarrow> syscall list" where
  "last_calls blocking s fl = Set_option s TCP_NODELAY (Int_value 1) #
     (if blocking then [Set_flags s (nonblocking_flags True fl), Get_flags s] else [])"

definition first_calls :: "int \<Rightarrow> nat \<Rightarrow> addrinfo \<Rightarrow> syscall list" where
  "first_calls s fl p = [Connect s (Ptr (ai_addr p)), Set_flags s (nonblocking_flags False fl), Get_flags s,
     Socket (ai_family p)]"

lemma connected_Result:
  assumes "n_sys (k_net k) = (if b then [Result fl, Result 0] else []) @ Result 0 # rest"
  shows "connected lc k b = Some (Connected,
    (answered k rest (last_calls b (c_fd (k_ctx k)) fl))
      \<lparr>k_ctx := (k_ctx k)\<lparr>c_flags := c_flags (k_ctx k) OR REDIS_CONNECTED\<rparr>\<rparr>)"
  using assms
  by (cases b) (simp_all add: connected_def SetBlocking_Result redisSetTcpNoDelay_def call_Result last_calls_def)

text \<open>The context of a round, with its socket and the address that is tried.\<close>

definition trying :: "conn \<Rightarrow> int \<Rightarrow> addrinfo \<Rightarrow> conn" where
  "trying k s p = k\<lparr>k_ctx := (k_ctx k)\<lparr>c_fd := s, c_saddr := Ptr (ai_addr p), c_addrlen := length (ai_addr p)\<rparr>,
     k_net := (k_net k)\<lparr>n_open := s # n_open (k_net k)\<rparr>\<rparr>"

text \<open>A socket that can be made and put into non-blocking mode: the round reaches \<^verbatim>\<open>connect\<close>.\<close>

lemma try_address_connects:
  assumes "n_sys (k_net k) = Result s # Result fl # Result r # rest" "c_source_addr (k_ctx k) = Null"
    "c_saddr (k_ctx k) \<noteq> Dangling" "grants A (length (ai_addr p))"
    "os_connect (answered (trying k (int s) p) rest (tl (first_calls (int s) fl p))) (Ptr (ai_addr p)) = Some (v, k1)"
  shows "try_address A lc f b r' msec k p n =
    (let e = n_errno (k_net k1) in
     if v = - 1 then
       if e = EHOSTUNREACH then Some (Next_address, redisNetClose k1)
       else if e = EINPROGRESS \<and> \<not> b then connected lc k1 b
       else if e = EADDRNOTAVAIL \<and> r' then
         if Suc n \<ge> REDIS_CONNECT_RETRIES then Some (Give_up, k1)
         else Some (Same_address, redisNetClose k1)
       else do {
         (rc, k) \<leftarrow> redisContextWaitReady lc k1 msec;
         if rc \<noteq> REDIS_OK then Some (Give_up, k) else connected lc k b
       }
     else connected lc k1 b)"
proof -
  have sock: "os_socket (ai_family p) (k_net k) = Some (int s, (k_net k)\<lparr>n_sys := Result fl # Result r # rest,
      n_calls := Socket (ai_family p) # n_calls (k_net k), n_open := int s # n_open (k_net k)\<rparr>)"
    using assms(1) by (simp add: os_socket_def os_int_def os_call_def)
  let ?k = "k\<lparr>k_net := (k_net k)\<lparr>n_sys := Result fl # Result r # rest,
      n_calls := Socket (ai_family p) # n_calls (k_net k), n_open := int s # n_open (k_net k)\<rparr>,
      k_ctx := (k_ctx k)\<lparr>c_fd := int s\<rparr>\<rparr>"
  have b: "redisSetBlocking lc ?k False = Some (REDIS_OK, answered ?k rest
      [Set_flags (int s) (nonblocking_flags False fl), Get_flags (int s)])"
    using SetBlocking_Result [of ?k fl r rest lc False] by simp
  obtain q where q: "free_ptr (c_saddr (k_ctx k)) = Some q" using assms(3) by (cases "c_saddr (k_ctx k)") auto
  have sv: "save_addr A (answered ?k rest [Set_flags (int s) (nonblocking_flags False fl), Get_flags (int s)]) (ai_addr p) =
      Some (answered (trying k (int s) p) rest (tl (first_calls (int s) fl p)))"
    using q assms(4) by (simp add: save_addr_def trying_def answered_def first_calls_def)
  show ?thesis using assms(2,5)
    by (simp add: try_address_def sock b sv bind_source_def REDIS_INVALID_FD_def)
qed

unbundle bit_operations_syntax

text \<open>A context that waits for another round: no socket, and nothing else has changed.\<close>

definition between :: "conn \<Rightarrow> conn \<Rightarrow> bool" where
  "between k k' \<longleftrightarrow> c_fd (k_ctx k') = REDIS_INVALID_FD \<and> c_source_addr (k_ctx k') = c_source_addr (k_ctx k) \<and>
     c_saddr (k_ctx k') \<noteq> Dangling \<and> n_open (k_net k') = n_open (k_net k) \<and>
     n_infos (k_net k') = n_infos (k_net k) \<and> c_flags (k_ctx k') = c_flags (k_ctx k) \<and>
     c_err (k_ctx k') = c_err (k_ctx k) \<and> c_host (k_ctx k') = c_host (k_ctx k)"

lemma between_trans: "between k k1 \<Longrightarrow> between k1 k2 \<Longrightarrow> between k k2"
  by (simp add: between_def)

lemma between_close:
  "between k (redisNetClose ((answered (trying k (int s) p) rest cs)
     \<lparr>k_net := (k_net (answered (trying k (int s) p) rest cs))\<lparr>n_errno := e\<rparr>\<rparr>))"
  by (simp add: between_def redisNetClose_def os_close_def trying_def REDIS_INVALID_FD_def)

lemma os_connect_fails:
  assumes "n_sys (k_net k) = answer.Failure e # rest" "e \<noteq> 0"
  shows "os_connect k a = Some (- 1, (answered k rest [Connect (c_fd (k_ctx k)) a])
    \<lparr>k_net := (k_net (answered k rest [Connect (c_fd (k_ctx k)) a]))\<lparr>n_errno := e\<rparr>\<rparr>)"
  using assms by (simp add: os_connect_def call_Failure)

lemma trying_simps [simp]: "c_fd (k_ctx (trying k s p)) = s" "n_sys (k_net (trying k s p)) = n_sys (k_net k)"
  "n_calls (k_net (trying k s p)) = n_calls (k_net k)" "n_open (k_net (trying k s p)) = s # n_open (k_net k)"
  by (simp_all add: trying_def)

lemma try_unreachable:
  assumes "n_sys (k_net k) = Result s # Result fl # Result r # answer.Failure EHOSTUNREACH # rest"
    "c_source_addr (k_ctx k) = Null" "c_saddr (k_ctx k) \<noteq> Dangling" "grants A (length (ai_addr p))"
  shows "\<exists>k'. try_address A lc f b reuse msec k p n = Some (Next_address, k') \<and> between k k' \<and>
    n_sys (k_net k') = rest"
proof -
  let ?k = "answered (trying k (int s) p) (answer.Failure EHOSTUNREACH # rest) (tl (first_calls (int s) fl p))"
  note c = os_connect_fails [of ?k EHOSTUNREACH rest "Ptr (ai_addr p)"]
  show ?thesis
    using try_address_connects [OF assms(1,2,3,4) c, of lc f b reuse msec n] between_close
    by (simp add: errno_defs) (simp add: redisNetClose_def os_close_def answered_def)
qed

lemma try_in_use:
  assumes "n_sys (k_net k) = Result s # Result fl # Result r # answer.Failure EADDRNOTAVAIL # rest"
    "c_source_addr (k_ctx k) = Null" "c_saddr (k_ctx k) \<noteq> Dangling" "grants A (length (ai_addr p))"
  shows "\<exists>k'. (if Suc n \<ge> REDIS_CONNECT_RETRIES
      then try_address A lc f b True msec k p n = Some (Give_up, k') \<and> c_err (k_ctx k') = c_err (k_ctx k) \<and>
        c_fd (k_ctx k') = int s \<and> n_infos (k_net k') = n_infos (k_net k)
      else try_address A lc f b True msec k p n = Some (Same_address, k') \<and> between k k') \<and>
    n_sys (k_net k') = rest"
proof -
  let ?k = "answered (trying k (int s) p) (answer.Failure EADDRNOTAVAIL # rest) (tl (first_calls (int s) fl p))"
  note c = os_connect_fails [of ?k EADDRNOTAVAIL rest "Ptr (ai_addr p)"]
  show ?thesis
  proof (cases "Suc n \<ge> REDIS_CONNECT_RETRIES")
    case True
    then show ?thesis using try_address_connects [OF assms(1,2,3,4) c, of lc f b True msec n]
      by (simp add: errno_defs) (simp add: answered_def trying_def)
  next
    case False
    then show ?thesis using try_address_connects [OF assms(1,2,3,4) c, of lc f b True msec n] between_close
      by (simp add: errno_defs) (simp add: redisNetClose_def os_close_def answered_def)
  qed
qed

lemma try_connects:
  assumes "n_sys (k_net k) = Result s # Result fl # Result r # Result 0 #
      (if b then [Result fl', Result 0] else []) @ Result 0 # rest"
    "c_source_addr (k_ctx k) = Null" "c_saddr (k_ctx k) \<noteq> Dangling" "grants A (length (ai_addr p))"
  shows "\<exists>k'. try_address A lc f b reuse msec k p n = Some (Connected, k') \<and>
    c_fd (k_ctx k') = int s \<and> c_saddr (k_ctx k') = Ptr (ai_addr p) \<and> c_err (k_ctx k') = c_err (k_ctx k) \<and>
    c_flags (k_ctx k') = c_flags (k_ctx k) OR REDIS_CONNECTED \<and> c_host (k_ctx k') = c_host (k_ctx k) \<and>
    n_open (k_net k') = int s # n_open (k_net k) \<and> n_infos (k_net k') = n_infos (k_net k) \<and>
    n_sys (k_net k') = rest \<and>
    n_calls (k_net k') = last_calls b (int s) fl' @ first_calls (int s) fl p @ n_calls (k_net k)"
proof -
  let ?rest = "(if b then [Result fl', Result 0] else []) @ Result 0 # rest"
  let ?k = "answered (trying k (int s) p) (Result 0 # ?rest) (tl (first_calls (int s) fl p))"
  have c: "os_connect ?k (Ptr (ai_addr p)) = Some (0, answered (trying k (int s) p) ?rest (first_calls (int s) fl p))"
    by (simp add: os_connect_def call_Result first_calls_def)
  let ?k1 = "answered (trying k (int s) p) ?rest (first_calls (int s) fl p)"
  have d: "connected lc ?k1 b = Some (Connected, (answered ?k1 rest (last_calls b (int s) fl'))
      \<lparr>k_ctx := (k_ctx ?k1)\<lparr>c_flags := c_flags (k_ctx ?k1) OR REDIS_CONNECTED\<rparr>\<rparr>)"
    using connected_Result [of ?k1 b fl' rest lc] by simp
  show ?thesis
    using try_address_connects [OF assms(1,2,3,4) c, of lc f b reuse msec n] d
    by (simp add: trying_def)
qed

unbundle bit_operations_syntax

text \<open>The answers to a round that gets as far as \<^verbatim>\<open>connect\<close>, which fails with the error \<^theory_text>\<open>e\<close>.\<close>

definition refused :: "nat \<Rightarrow> nat \<times> nat \<times> nat \<Rightarrow> answer list" where
  "refused e = (\<lambda>(s, fl, r). [Result s, Result fl, Result r, answer.Failure e])"

text \<open>The answers to a round that connects.\<close>

definition accepted :: "bool \<Rightarrow> nat \<Rightarrow> nat \<Rightarrow> nat \<Rightarrow> answer list" where
  "accepted b s fl fl' = [Result s, Result fl, Result 0, Result 0] @ (if b then [Result fl', Result 0] else []) @
     [Result 0]"

lemma connect_loop_skips:
  assumes "n_sys (k_net k) = concat (map (refused EHOSTUNREACH) rs) @ accepted b s fl fl' @ rest"
    "length rs = length bad" "c_source_addr (k_ctx k) = Null" "c_saddr (k_ctx k) \<noteq> Dangling" "\<And>n. grants A n"
  shows "\<exists>k'. connect_loop A lc f b reuse msec k (bad @ p # qs) n = Some (REDIS_OK, k') \<and>
    c_fd (k_ctx k') = int s \<and> c_saddr (k_ctx k') = Ptr (ai_addr p) \<and> c_err (k_ctx k') = c_err (k_ctx k) \<and>
    c_flags (k_ctx k') = c_flags (k_ctx k) OR REDIS_CONNECTED \<and> c_host (k_ctx k') = c_host (k_ctx k) \<and>
    n_open (k_net k') = int s # n_open (k_net k) \<and> n_infos (k_net k') = n_infos (k_net k) \<and>
    n_sys (k_net k') = rest \<and>
    (\<exists>cs. n_calls (k_net k') = last_calls b (int s) fl' @ first_calls (int s) fl p @ cs)"
  using assms(1-4)
proof (induction bad arbitrary: rs k)
  case Nil
  then have "n_sys (k_net k) = Result s # Result fl # Result 0 # Result 0 #
      (if b then [Result fl', Result 0] else []) @ Result 0 # rest" by (simp add: accepted_def)
  from try_connects [OF this Nil(3,4) assms(5), where p = p and lc = lc and f = f and reuse = reuse and msec = msec and n = n] obtain k' where
    "try_address A lc f b reuse msec k p n = Some (Connected, k')"
    "c_fd (k_ctx k') = int s \<and> c_saddr (k_ctx k') = Ptr (ai_addr p) \<and> c_err (k_ctx k') = c_err (k_ctx k) \<and>
    c_flags (k_ctx k') = c_flags (k_ctx k) OR REDIS_CONNECTED \<and> c_host (k_ctx k') = c_host (k_ctx k) \<and>
    n_open (k_net k') = int s # n_open (k_net k) \<and> n_infos (k_net k') = n_infos (k_net k) \<and>
    n_sys (k_net k') = rest \<and>
    n_calls (k_net k') = last_calls b (int s) fl' @ first_calls (int s) fl p @ n_calls (k_net k)" by blast
  then show ?case by auto
next
  case (Cons x bad)
  then obtain s0 f0 r0 rs' where rs: "rs = (s0, f0, r0) # rs'" "length rs' = length bad"
    by (cases rs) auto
  then have "n_sys (k_net k) = Result s0 # Result f0 # Result r0 # answer.Failure EHOSTUNREACH #
      concat (map (refused EHOSTUNREACH) rs') @ accepted b s fl fl' @ rest"
    using Cons.prems(1) by (simp add: refused_def)
  from try_unreachable [OF this Cons.prems(3,4) assms(5), where p = x and lc = lc and f = f and b = b and reuse = reuse and msec = msec and n = n] obtain k1 where k1:
    "try_address A lc f b reuse msec k x n = Some (Next_address, k1)" "between k k1"
    "n_sys (k_net k1) = concat (map (refused EHOSTUNREACH) rs') @ accepted b s fl fl' @ rest" by auto
  then have "connect_loop A lc f b reuse msec k ((x # bad) @ p # qs) n =
      connect_loop A lc f b reuse msec k1 (bad @ p # qs) n" by simp
  with Cons.IH [OF k1(3) rs(2)] k1(2) Cons.prems(3) show ?case by (simp add: between_def)
qed

lemma connect_loop_in_use:
  assumes "n_sys (k_net k) = concat (map (refused EADDRNOTAVAIL) rs) @ rest"
    "n + length rs = REDIS_CONNECT_RETRIES" "0 < length rs" "c_source_addr (k_ctx k) = Null"
    "c_saddr (k_ctx k) \<noteq> Dangling" "\<And>n. grants A n"
  shows "\<exists>k'. connect_loop A lc f b True msec k (p # qs) n = Some (REDIS_ERR, k') \<and>
    c_err (k_ctx k') = c_err (k_ctx k) \<and> c_fd (k_ctx k') = int (fst (last rs)) \<and>
    n_infos (k_net k') = n_infos (k_net k) \<and> n_sys (k_net k') = rest"
  using assms(1-5)
proof (induction rs arbitrary: k n)
  case (Cons x rs)
  obtain s fl r where x: "x = (s, fl, r)" by (cases x)
  then have "n_sys (k_net k) = Result s # Result fl # Result r # answer.Failure EADDRNOTAVAIL #
      concat (map (refused EADDRNOTAVAIL) rs) @ rest"
    using Cons.prems(1) by (simp add: refused_def)
  note t = try_in_use [OF this Cons.prems(4,5) assms(6), where p = p and lc = lc and f = f and b = b and msec = msec and n = n]
  show ?case
  proof (cases "rs = []")
    case True
    with t Cons.prems(2) x show ?thesis by auto
  next
    case False
    then have n: "\<not> Suc n \<ge> REDIS_CONNECT_RETRIES" using Cons.prems(2) by (cases rs) auto
    with t obtain k1 where k1: "try_address A lc f b True msec k p n = Some (Same_address, k1)" "between k k1"
      "n_sys (k_net k1) = concat (map (refused EADDRNOTAVAIL) rs) @ rest" by auto
    have "connect_loop A lc f b True msec k (p # qs) n = connect_loop A lc f b True msec k1 (p # qs) (Suc n)"
      using k1(1) n by simp
    with Cons.IH [OF k1(3), of "Suc n"] k1(2) Cons.prems(2,4) False show ?thesis by (simp add: between_def)
  qed
qed simp

text \<open>The answers to a round over the socket \<^theory_text>\<open>s\<close> as far as \<^verbatim>\<open>connect\<close>.\<close>

definition opened :: "nat \<times> nat \<times> nat \<Rightarrow> answer list" where
  "opened = (\<lambda>(s, fl, r). [Result s, Result fl, Result r])"

text \<open>
  The ways to reach an address: at once; in progress, which is enough for a context that does not block; and for one that
  does, in progress, ready after waiting, and connected when asked again.
\<close>

definition connect_reached :: "bool \<Rightarrow> answer list \<Rightarrow> bool" where
  "connect_reached b as \<longleftrightarrow> as = [Result 0] \<or> \<not> b \<and> as = [answer.Failure EINPROGRESS] \<or>
     b \<and> (\<exists>i x. as = [answer.Failure EINPROGRESS, Result (Suc i), x] \<and> x \<in> {Result 0, answer.Failure EISCONN})"

text \<open>
  The ways to fail with the error \<^theory_text>\<open>e\<close> at an address: at once, but not with one of the errors that go on; and in
  progress, ready after waiting, and refused when asked again.
\<close>

definition connect_failed :: "bool \<Rightarrow> bool \<Rightarrow> answer list \<Rightarrow> nat \<Rightarrow> bool" where
  "connect_failed b reuse as e \<longleftrightarrow>
     as = [answer.Failure e] \<and> e \<notin> {0, EHOSTUNREACH, EINPROGRESS} \<and> \<not> (e = EADDRNOTAVAIL \<and> reuse) \<or>
     b \<and> (\<exists>i e0 r. as = [answer.Failure EINPROGRESS, Result (Suc i), answer.Failure e0, Result r] \<and>
       e0 \<notin> {0, EISCONN, EALREADY, EINPROGRESS, EWOULDBLOCK} \<and> e = (if r = 0 then e0 else r))"

definition wait_calls :: "int \<Rightarrow> addrinfo \<Rightarrow> int \<Rightarrow> answer list \<Rightarrow> syscall list" where
  "wait_calls s p msec as = (if length as = 3 then [Connect s (Ptr (ai_addr p)), Poll s msec] else [])"

text \<open>The address \<^theory_text>\<open>p\<close> was the last to be tried; the host name and the number of address lists are as before.\<close>

definition tried :: "conn \<Rightarrow> addrinfo \<Rightarrow> conn \<Rightarrow> bool" where
  "tried k p k' \<longleftrightarrow> c_saddr (k_ctx k') = Ptr (ai_addr p) \<and> c_host (k_ctx k') = c_host (k_ctx k) \<and>
     n_infos (k_net k') = n_infos (k_net k)"

lemma os_connect_Result:
  "n_sys (k_net k) = Result 0 # rest \<Longrightarrow> os_connect k a = Some (0, answered k rest [Connect (c_fd (k_ctx k)) a])"
  by (simp add: os_connect_def call_Result)

lemma try_reached:
  assumes n: "n_sys (k_net k) = opened (s, fl, r) @ as @ (if b then [Result fl', Result 0] else []) @ Result 0 # rest"
    and ctx: "c_source_addr (k_ctx k) = Null" "c_saddr (k_ctx k) \<noteq> Dangling" "grants A (length (ai_addr p))"
    and as: "connect_reached b as"
  shows "\<exists>k'. try_address A lc f b reuse msec k p n = Some (Connected, k') \<and> tried k p k' \<and>
    c_fd (k_ctx k') = int s \<and> c_err (k_ctx k') = c_err (k_ctx k) \<and>
    c_flags (k_ctx k') = c_flags (k_ctx k) OR REDIS_CONNECTED \<and>
    n_open (k_net k') = int s # n_open (k_net k) \<and> n_sys (k_net k') = rest \<and>
    n_calls (k_net k') = last_calls b (int s) fl' @ wait_calls (int s) p msec as @ first_calls (int s) fl p @ n_calls (k_net k)"
proof -
  let ?tail = "(if b then [Result fl', Result 0] else []) @ Result 0 # rest"
  let ?a = "Ptr (ai_addr p)"
  let ?k = "answered (trying k (int s) p) (as @ ?tail) (tl (first_calls (int s) fl p))"
  have n': "n_sys (k_net k) = Result s # Result fl # Result r # as @ ?tail" using n by (simp add: opened_def)
  note step = try_address_connects [OF n' ctx, of _ _ lc f b reuse msec n]
  have fin: ?thesis if "try_address A lc f b reuse msec k p n = connected lc k2 b"
    "k_ctx k2 = k_ctx ?k" "n_sys (k_net k2) = ?tail" "n_open (k_net k2) = n_open (k_net ?k)" "n_infos (k_net k2) = n_infos (k_net ?k)"
    "n_calls (k_net k2) = wait_calls (int s) p msec as @ first_calls (int s) fl p @ n_calls (k_net k)" for k2
    using that connected_Result [OF that(3), of lc] by (simp add: tried_def trying_def)
  consider "as = [Result 0]" | "\<not> b" "as = [answer.Failure EINPROGRESS]"
    | i x where "b" "as = [answer.Failure EINPROGRESS, Result (Suc i), x]" "x \<in> {Result 0, answer.Failure EISCONN}"
    using as by (auto simp: connect_reached_def)
  then show ?thesis
  proof cases
    case 1
    have "os_connect ?k ?a = Some (0, answered ?k ?tail [Connect (int s) ?a])"
      by (simp add: os_connect_Result 1)
    from step [OF this] 1 show ?thesis
      by (intro fin [of "answered ?k ?tail [Connect (int s) ?a]"]) (simp_all add: wait_calls_def first_calls_def)
  next
    case 2
    let ?k1 = "answered ?k ?tail [Connect (int s) ?a]"
    let ?k2 = "?k1\<lparr>k_net := (k_net ?k1)\<lparr>n_errno := EINPROGRESS\<rparr>\<rparr>"
    have "os_connect ?k ?a = Some (- 1, ?k2)" using 2 by (simp add: os_connect_fails errno_defs)
    from step [OF this] 2 show ?thesis
      by (intro fin [of ?k2]) (simp_all add: wait_calls_def first_calls_def errno_defs)
  next
    case 3
    let ?k1 = "answered ?k (Result (Suc i) # x # ?tail) [Connect (int s) ?a]"
    let ?k2 = "?k1\<lparr>k_net := (k_net ?k1)\<lparr>n_errno := EINPROGRESS\<rparr>\<rparr>"
    have c: "os_connect ?k ?a = Some (- 1, ?k2)" using 3 by (simp add: os_connect_fails errno_defs)
    let ?k3 = "answered ?k2 (x # ?tail) [Poll (int s) msec]"
    have sa: "c_saddr (k_ctx ?k3) = ?a" by (simp add: trying_def)
    have p: "call ?k2 (\<lambda>fd. Poll fd msec) = Some (int (Suc i), ?k3)"
      by (subst call_Result [where rest = "x # ?tail"]) (simp_all del: of_nat_Suc)
    let ?k4 = "answered ?k3 ?tail [Connect (int s) ?a]"
    obtain k4 where d: "redisCheckConnectDone ?k3 = Some (REDIS_OK, Some 1, k4)" "k_ctx k4 = k_ctx ?k4"
      "n_sys (k_net k4) = ?tail" "n_open (k_net k4) = n_open (k_net ?k4)" "n_infos (k_net k4) = n_infos (k_net ?k4)"
      "n_calls (k_net k4) = n_calls (k_net ?k4)"
    proof (cases "x = Result 0")
      case True
      then have "os_connect ?k3 ?a = Some (0, ?k4)" by (subst os_connect_Result [where rest = ?tail]) simp_all
      then show thesis using sa by (intro that [of ?k4]) (simp_all add: redisCheckConnectDone_def)
    next
      case False
      then have "os_connect ?k3 ?a = Some (- 1, ?k4\<lparr>k_net := (k_net ?k4)\<lparr>n_errno := EISCONN\<rparr>\<rparr>)"
        using 3(3) by (subst os_connect_fails [where rest = ?tail]) (simp_all add: errno_defs)
      then show thesis using sa
        by (intro that [of "?k4\<lparr>k_net := (k_net ?k4)\<lparr>n_errno := EISCONN\<rparr>\<rparr>"]) (simp_all add: redisCheckConnectDone_def)
    qed
    have "redisContextWaitReady lc ?k2 msec = Some (REDIS_OK, k4)"
      using p d(1) by (simp add: redisContextWaitReady_def)
    with step [OF c] 3 have "try_address A lc f b reuse msec k p n = connected lc k4 b" by (simp add: errno_defs)
    then show ?thesis using d(2-) 3(2) by (intro fin [of k4]) (simp_all add: wait_calls_def first_calls_def)
  qed
qed

lemma io_error_sets: "\<exists>k'. io_error lc k None = Some (REDIS_ERR, k') \<and> c_err (k_ctx k') = REDIS_ERR_IO \<and>
    c_errstr (k_ctx k') = take 127 (strerror lc (n_errno (k_net k))) \<and> k_net k' = k_net k \<and>
    c_fd (k_ctx k') = c_fd (k_ctx k) \<and> c_flags (k_ctx k') = c_flags (k_ctx k) \<and> c_saddr (k_ctx k') = c_saddr (k_ctx k) \<and>
    c_host (k_ctx k') = c_host (k_ctx k)"
  by (simp add: io_error_def redisSetErrorFromErrno_def set_error_def redisSetError_def Let_def)

lemma io_error_close_io: "io_error_close lc k m = do { (rc, k) \<leftarrow> io_error lc k m; Some (rc, redisNetClose k) }"
  by (simp add: io_error_def io_error_close_def)

text \<open>The error is that of the address that failed; the socket is closed, or left to the context.\<close>

definition gave_up :: "libc \<Rightarrow> conn \<Rightarrow> int \<Rightarrow> nat \<Rightarrow> conn \<Rightarrow> bool" where
  "gave_up lc k s e k' \<longleftrightarrow> c_err (k_ctx k') = REDIS_ERR_IO \<and> c_errstr (k_ctx k') = take 127 (strerror lc e) \<and>
     c_flags (k_ctx k') = c_flags (k_ctx k) \<and>
     (c_fd (k_ctx k') = REDIS_INVALID_FD \<and> n_open (k_net k') = n_open (k_net k) \<or>
      c_fd (k_ctx k') = s \<and> n_open (k_net k') = s # n_open (k_net k))"

lemma try_failed:
  assumes n: "n_sys (k_net k) = opened (s, fl, r) @ as @ rest"
    and ctx: "c_source_addr (k_ctx k) = Null" "c_saddr (k_ctx k) \<noteq> Dangling" "grants A (length (ai_addr p))"
    and as: "connect_failed b reuse as e"
  shows "\<exists>k'. try_address A lc f b reuse msec k p n = Some (Give_up, k') \<and> tried k p k' \<and> gave_up lc k (int s) e k' \<and>
    n_sys (k_net k') = rest"
proof -
  let ?a = "Ptr (ai_addr p)"
  let ?k = "answered (trying k (int s) p) (as @ rest) (tl (first_calls (int s) fl p))"
  have n': "n_sys (k_net k) = Result s # Result fl # Result r # as @ rest" using n by (simp add: opened_def)
  note step = try_address_connects [OF n' ctx, of _ _ lc f b reuse msec n]
  consider "as = [answer.Failure e]" "e \<notin> {0, EHOSTUNREACH, EINPROGRESS}" "\<not> (e = EADDRNOTAVAIL \<and> reuse)"
    | i e0 r' where "b" "as = [answer.Failure EINPROGRESS, Result (Suc i), answer.Failure e0, Result r']"
       "e0 \<notin> {0, EISCONN, EALREADY, EINPROGRESS, EWOULDBLOCK}" "e = (if r' = 0 then e0 else r')"
    using as by (auto simp: connect_failed_def)
  then show ?thesis
  proof cases
    case 1
    let ?k1 = "answered ?k rest [Connect (int s) ?a]"
    let ?k2 = "?k1\<lparr>k_net := (k_net ?k1)\<lparr>n_errno := e\<rparr>\<rparr>"
    have c: "os_connect ?k ?a = Some (- 1, ?k2)" using 1 by (simp add: os_connect_fails)
    obtain k3 where k3: "io_error lc ?k2 None = Some (REDIS_ERR, k3)" "c_err (k_ctx k3) = REDIS_ERR_IO"
      "c_errstr (k_ctx k3) = take 127 (strerror lc e)" "k_net k3 = k_net ?k2"
      "c_fd (k_ctx k3) = int s" "c_flags (k_ctx k3) = c_flags (k_ctx ?k2)" "c_saddr (k_ctx k3) = c_saddr (k_ctx ?k2)"
      "c_host (k_ctx k3) = c_host (k_ctx ?k2)"
      using io_error_sets [of lc ?k2] by auto
    have "redisContextWaitReady lc ?k2 msec = Some (REDIS_ERR, redisNetClose k3)"
      using 1 k3(1) by (simp add: redisContextWaitReady_def io_error_close_io)
    with step [OF c] 1 have "try_address A lc f b reuse msec k p n = Some (Give_up, redisNetClose k3)"
      by (auto simp: redis_err_defs)
    then show ?thesis using k3(2-)
      by (simp add: tried_def gave_up_def redisNetClose_def os_close_def REDIS_INVALID_FD_def) (simp add: trying_def answered_def)
  next
    case 2
    let ?k1 = "answered ?k (Result (Suc i) # answer.Failure e0 # Result r' # rest) [Connect (int s) ?a]"
    let ?k2 = "?k1\<lparr>k_net := (k_net ?k1)\<lparr>n_errno := EINPROGRESS\<rparr>\<rparr>"
    have c: "os_connect ?k ?a = Some (- 1, ?k2)" using 2 by (simp add: os_connect_fails errno_defs)
    let ?k3 = "answered ?k2 (answer.Failure e0 # Result r' # rest) [Poll (int s) msec]"
    have sa: "c_saddr (k_ctx ?k3) = ?a" by (simp add: trying_def)
    have p: "call ?k2 (\<lambda>fd. Poll fd msec) = Some (int (Suc i), ?k3)"
      by (subst call_Result [where rest = "answer.Failure e0 # Result r' # rest"]) (simp_all del: of_nat_Suc)
    let ?k4 = "answered ?k3 (Result r' # rest) [Connect (int s) ?a]"
    let ?k5 = "?k4\<lparr>k_net := (k_net ?k4)\<lparr>n_errno := e0\<rparr>\<rparr>"
    have "os_connect ?k3 ?a = Some (- 1, ?k5)"
      using 2(3) by (subst os_connect_fails [where rest = "Result r' # rest"]) simp_all
    then have d: "redisCheckConnectDone ?k3 = Some (REDIS_ERR, None, ?k5)"
      using sa 2(3) by (simp add: redisCheckConnectDone_def)
    let ?k6 = "answered ?k5 rest [Get_error (int s)]"
    let ?k7 = "?k6\<lparr>k_net := (k_net ?k6)\<lparr>n_errno := e\<rparr>\<rparr>"
    obtain k8 where k8: "io_error lc ?k7 None = Some (REDIS_ERR, k8)" "c_err (k_ctx k8) = REDIS_ERR_IO"
      "c_errstr (k_ctx k8) = take 127 (strerror lc e)" "k_net k8 = k_net ?k7"
      "c_fd (k_ctx k8) = int s" "c_flags (k_ctx k8) = c_flags (k_ctx ?k7)" "c_saddr (k_ctx k8) = c_saddr (k_ctx ?k7)"
      "c_host (k_ctx k8) = c_host (k_ctx ?k7)"
      using io_error_sets [of lc ?k7] by auto
    have "call ?k5 Get_error = Some (int r', ?k6)"
      by (subst call_Result [where rest = rest]) simp_all
    then have "redisCheckSocketError lc ?k5 = Some (REDIS_ERR, k8)"
      using 2(3,4) k8(1) by (simp add: redisCheckSocketError_def Let_def split: if_splits)
    then have "redisContextWaitReady lc ?k2 msec = Some (REDIS_ERR, k8)"
      using p d by (simp add: redisContextWaitReady_def redis_err_defs)
    with step [OF c] 2 have "try_address A lc f b reuse msec k p n = Some (Give_up, k8)"
      by (simp add: errno_defs redis_err_defs)
    then show ?thesis using k8(2-)
      by (simp add: tried_def gave_up_def) (simp add: trying_def answered_def)
  qed
qed

text \<open>Addresses that cannot be reached are skipped, and their sockets closed.\<close>

lemma connect_loop_goes_on:
  assumes "n_sys (k_net k) = concat (map (refused EHOSTUNREACH) rs) @ rest" "length rs = length bad"
    "c_source_addr (k_ctx k) = Null" "c_saddr (k_ctx k) \<noteq> Dangling" "\<And>n. grants A n"
  shows "\<exists>k'. connect_loop A lc f b reuse msec k (bad @ ps) n = connect_loop A lc f b reuse msec k' ps n \<and>
    n_sys (k_net k') = rest \<and> c_source_addr (k_ctx k') = Null \<and> c_saddr (k_ctx k') \<noteq> Dangling \<and>
    n_open (k_net k') = n_open (k_net k) \<and> n_infos (k_net k') = n_infos (k_net k) \<and>
    c_flags (k_ctx k') = c_flags (k_ctx k) \<and> c_err (k_ctx k') = c_err (k_ctx k) \<and> c_host (k_ctx k') = c_host (k_ctx k)"
  using assms(1-4)
proof (induction bad arbitrary: rs k)
  case Nil
  then show ?case by (intro exI [of _ k]) simp
next
  case (Cons x bad)
  then obtain s0 f0 r0 rs' where rs: "rs = (s0, f0, r0) # rs'" "length rs' = length bad"
    by (cases rs) auto
  then have "n_sys (k_net k) = Result s0 # Result f0 # Result r0 # answer.Failure EHOSTUNREACH #
      concat (map (refused EHOSTUNREACH) rs') @ rest"
    using Cons.prems(1) by (simp add: refused_def)
  from try_unreachable [OF this Cons.prems(3,4) assms(5), where p = x and lc = lc and f = f and b = b and reuse = reuse and msec = msec and n = n] obtain k1 where k1:
    "try_address A lc f b reuse msec k x n = Some (Next_address, k1)" "between k k1"
    "n_sys (k_net k1) = concat (map (refused EHOSTUNREACH) rs') @ rest" by auto
  then have "connect_loop A lc f b reuse msec k ((x # bad) @ ps) n = connect_loop A lc f b reuse msec k1 (bad @ ps) n"
    by simp
  with Cons.IH [OF k1(3) rs(2)] k1(2) Cons.prems(3) show ?case by (simp add: between_def)
qed

text \<open>From the arguments to the loop, for a connection without a timeout and a source address.\<close>

lemma ConnectTcp_loop:
  assumes "n_sys (k_net k) = Addresses as # rest" "as \<noteq> []" "\<And>n. grants A n"
    "c_host (k_ctx k) \<noteq> Dangling" "c_timeout (k_ctx k) \<noteq> Dangling" "c_source_addr (k_ctx k) \<noteq> Dangling"
  shows "\<exists>k1. redisContextConnectTcp A lc k (Given ip) port NullArg = do {
      (rv, k) \<leftarrow> connect_loop A lc AF_INET (flag (k_ctx k) REDIS_BLOCK) (flag (k_ctx k) REDIS_REUSEADDR) (- 1) k1 as 0;
      n \<leftarrow> os_freeaddrinfo (k_net k);
      Some (rv, k\<lparr>k_net := n\<rparr>) } \<and>
    n_sys (k_net k1) = rest \<and> c_source_addr (k_ctx k1) = Null \<and> c_saddr (k_ctx k1) = c_saddr (k_ctx k) \<and>
    c_err (k_ctx k1) = c_err (k_ctx k) \<and> c_flags (k_ctx k1) = c_flags (k_ctx k) \<and>
    n_open (k_net k1) = n_open (k_net k) \<and> n_infos (k_net k1) = Suc (n_infos (k_net k)) \<and>
    c_host (k_ctx k1) = Ptr ip"
proof -
  have f: "p \<noteq> Dangling \<Longrightarrow> free_ptr p \<noteq> None" for p :: "'a ptr" by (cases p) auto
  obtain x y z where free: "free_ptr (c_host (k_ctx k)) = Some x" "free_ptr (c_timeout (k_ctx k)) = Some y"
    "free_ptr (c_source_addr (k_ctx k)) = Some z"
    using f [OF assms(4)] f [OF assms(5)] f [OF assms(6)] by auto
  let ?c = "(k_ctx k)\<lparr>c_connection_type := REDIS_CONN_TCP, c_port := port, c_host := Ptr ip, c_timeout := Null,
    c_source_addr := Null\<rparr>"
  let ?n = "(k_net k)\<lparr>n_sys := rest, n_calls := Get_addresses (Ptr ip) (Some (take 5 (sdec port))) AF_INET #
    n_calls (k_net k), n_infos := Suc (n_infos (k_net k))\<rparr>"
  have "resolve (k\<lparr>k_ctx := ?c\<rparr>) (Given ip) (take 5 (sdec port)) =
      Some (Inr as, AF_INET, k\<lparr>k_ctx := ?c, k_net := ?n\<rparr>)"
    using assms(1,2) by (simp add: resolve_def os_getaddrinfo_def os_call_def)
  then show ?thesis using free assms(3)
    by (intro exI [of _ "k\<lparr>k_ctx := ?c, k_net := ?n\<rparr>"])
      (simp add: redisContextConnectTcp_def redisContextConnectBindTcp_def save_host_def strdup_def save_timeout_def
        save_source_def redisContextTimeoutMsec_def)
qed

end
