(* ===== verification/Net_Properties.thy ===== *)
theory Net_Properties
  imports Net_Correct Context_Properties
begin

unbundle bit_operations_syntax

text \<open>
  The properties of \<^verbatim>\<open>lib/hiredis/net.c\<close>, each with a concrete instance.
\<close>

text \<open>A context that is not connected, and the answers it will get.\<close>

definition demo_open :: "32 word \<Rightarrow> answer list \<Rightarrow> conn" where
  "demo_open fl as =
     \<lparr>k_ctx = (blank_context (Ptr (sds_of [])) (Ptr (demo_reader roomy)))\<lparr>c_flags := fl\<rparr>,
      k_heap = empty_heap,
      k_net = \<lparr>n_in = [], n_out = [], n_sent = [], n_sys = as, n_calls = [], n_open = [0], n_infos = 0,
        n_errno = 0\<rparr>\<rparr>"

lemma demo_open [simp]:
  "c_fd (k_ctx (demo_open fl as)) = REDIS_INVALID_FD" "c_flags (k_ctx (demo_open fl as)) = fl"
  "c_host (k_ctx (demo_open fl as)) = Null" "c_timeout (k_ctx (demo_open fl as)) = Null"
  "c_source_addr (k_ctx (demo_open fl as)) = Null" "c_saddr (k_ctx (demo_open fl as)) = Null"
  "c_err (k_ctx (demo_open fl as)) = 0" "n_sys (k_net (demo_open fl as)) = as"
  "n_open (k_net (demo_open fl as)) = [0]" "n_infos (k_net (demo_open fl as)) = 0"
  by (simp_all add: demo_open_def blank_context_def)

definition demo_addr :: addrinfo where
  "demo_addr = \<lparr>ai_family = AF_INET, ai_addr = ''addr''\<rparr>"

text \<open>C22: whatever the operating system answers, a TCP connection attempt that returns has closed
  every descriptor that it opened except the one of the context, has freed every address list, and
  has either succeeded, with a descriptor, the flag \<^verbatim>\<open>REDIS_CONNECTED\<close> and no new error, or failed
  with an error in the context; only with \<^verbatim>\<open>REDIS_REUSEADDR\<close> may it fail without one.\<close>

theorem connect_outcome:
  assumes "redisContextConnectBindTcp A lc k addr port timeout src = Some (rc, k')"
    "c_fd (k_ctx k) = REDIS_INVALID_FD"
  shows "mset (n_open (k_net k')) =
      (if c_fd (k_ctx k') = REDIS_INVALID_FD then mset (n_open (k_net k))
       else add_mset (c_fd (k_ctx k')) (mset (n_open (k_net k)))) \<and>
    n_infos (k_net k') = n_infos (k_net k) \<and>
    (if rc = REDIS_OK
     then c_fd (k_ctx k') \<noteq> REDIS_INVALID_FD \<and> flag (k_ctx k') REDIS_CONNECTED \<and> c_err (k_ctx k') = c_err (k_ctx k)
     else rc = REDIS_ERR \<and> (c_err (k_ctx k') \<noteq> 0 \<or> flag (k_ctx k) REDIS_REUSEADDR))"
  using ConnectBindTcp_ok [OF assms] assms(2) by (auto simp: keeps_def owned_def)

theorem connect_outcome_witness:
  "\<exists>k'. redisContextConnectBindTcp roomy demo_libc (demo_open 0 [No_addresses 3, No_addresses 4])
      (Given ''h'') 1 NullArg NullArg = Some (REDIS_ERR, k') \<and>
    mset (n_open (k_net k')) = (if c_fd (k_ctx k') = REDIS_INVALID_FD then {#0#} else {#c_fd (k_ctx k'), 0#}) \<and>
    c_err (k_ctx k') \<noteq> 0"
proof -
  let ?k = "demo_open 0 [No_addresses 3, No_addresses 4]"
  have "\<exists>k'. redisContextConnectBindTcp roomy demo_libc ?k (Given ''h'') 1 NullArg NullArg = Some (REDIS_ERR, k')"
    by (simp add: redisContextConnectBindTcp_def save_host_def save_timeout_def save_source_def
        redisContextTimeoutMsec_def resolve_def os_getaddrinfo_def os_call_def strdup_def Let_def
        set_error_def redisSetError_def)
  then obtain k' where k': "redisContextConnectBindTcp roomy demo_libc ?k (Given ''h'') 1 NullArg NullArg =
      Some (REDIS_ERR, k')" by blast
  from connect_outcome [OF this] k' show ?thesis by (simp add: flag_def)
qed

text \<open>C23: a TCP connection without a timeout and a source address, whose sockets can be made and set up, is decided by
  the first address that does not answer \<^verbatim>\<open>EHOSTUNREACH\<close> at once: the ones in front of it are skipped and their sockets
  closed, the ones behind it are never tried. If it is reached (at once; in progress, on a context that does not block;
  or in progress, ready after \<^verbatim>\<open>poll\<close> and connected when asked again, on one that does), the context is connected to it:
  the socket is non-blocking for \<^verbatim>\<open>connect\<close> and, for a blocking context, blocking again after it, and the
  context has the descriptor, the address and the host name for a reconnection. If it is refused, at once (except for
  \<^verbatim>\<open>EADDRNOTAVAIL\<close> with \<^verbatim>\<open>REDIS_REUSEADDR\<close>, which tries it again) or after \<^verbatim>\<open>poll\<close>, the whole attempt fails with
  the error of this address, even if one of the others could be reached. The address list is freed in each case.\<close>

theorem connect_first_decides:
  assumes "n_sys (k_net k) = Addresses (bad @ p # qs) # concat (map (refused EHOSTUNREACH) rs) @ opened (s, fl, r) @ as @
      (if connect_reached (flag (k_ctx k) REDIS_BLOCK) as
       then (if flag (k_ctx k) REDIS_BLOCK then [Result fl', Result 0] else []) @ [Result 0] else []) @ rest"
    "connect_reached (flag (k_ctx k) REDIS_BLOCK) as \<or> connect_failed (flag (k_ctx k) REDIS_BLOCK) (flag (k_ctx k) REDIS_REUSEADDR) as e"
    "length rs = length bad" "\<And>n. grants A n" "c_fd (k_ctx k) = REDIS_INVALID_FD"
    "c_host (k_ctx k) \<noteq> Dangling" "c_timeout (k_ctx k) \<noteq> Dangling" "c_source_addr (k_ctx k) \<noteq> Dangling"
    "c_saddr (k_ctx k) \<noteq> Dangling"
  shows "\<exists>k'. redisContextConnectTcp A lc k (Given ip) port NullArg =
      Some (if connect_reached (flag (k_ctx k) REDIS_BLOCK) as then REDIS_OK else REDIS_ERR, k') \<and>
    n_sys (k_net k') = rest \<and> c_saddr (k_ctx k') = Ptr (ai_addr p) \<and> c_host (k_ctx k') = Ptr ip \<and>
    n_infos (k_net k') = n_infos (k_net k) \<and>
    (if connect_reached (flag (k_ctx k) REDIS_BLOCK) as
     then c_fd (k_ctx k') = int s \<and> n_open (k_net k') = int s # n_open (k_net k) \<and>
       c_flags (k_ctx k') = c_flags (k_ctx k) OR REDIS_CONNECTED \<and> c_err (k_ctx k') = c_err (k_ctx k) \<and>
       (\<exists>cs. n_calls (k_net k') = last_calls (flag (k_ctx k) REDIS_BLOCK) (int s) fl' @
          wait_calls (int s) p (- 1) as @ first_calls (int s) fl p @ cs)
     else gave_up lc k (int s) e k')"
proof -
  let ?b = "flag (k_ctx k) REDIS_BLOCK" and ?re = "flag (k_ctx k) REDIS_REUSEADDR"
  let ?tail = "if connect_reached ?b as then (if ?b then [Result fl', Result 0] else []) @ [Result 0] else []"
  obtain k1 where k1: "redisContextConnectTcp A lc k (Given ip) port NullArg = do {
      (rv, k) \<leftarrow> connect_loop A lc AF_INET ?b ?re (- 1) k1 (bad @ p # qs) 0;
      n \<leftarrow> os_freeaddrinfo (k_net k);
      Some (rv, k\<lparr>k_net := n\<rparr>) }"
    "n_sys (k_net k1) = concat (map (refused EHOSTUNREACH) rs) @ opened (s, fl, r) @ as @ ?tail @ rest"
    "c_source_addr (k_ctx k1) = Null" "c_saddr (k_ctx k1) = c_saddr (k_ctx k)" "c_err (k_ctx k1) = c_err (k_ctx k)"
    "c_flags (k_ctx k1) = c_flags (k_ctx k)" "n_open (k_net k1) = n_open (k_net k)"
    "n_infos (k_net k1) = Suc (n_infos (k_net k))" "c_host (k_ctx k1) = Ptr ip"
    using ConnectTcp_loop [OF assms(1) _ assms(4,6,7,8), of lc ip port] by auto
  have "c_saddr (k_ctx k1) \<noteq> Dangling" using k1(4) assms(9) by simp
  from connect_loop_goes_on [OF k1(2) assms(3) k1(3) this assms(4), of lc AF_INET ?b ?re "- 1" "p # qs" 0]
  obtain k2 where k2: "connect_loop A lc AF_INET ?b ?re (- 1) k1 (bad @ p # qs) 0 = connect_loop A lc AF_INET ?b ?re (- 1) k2 (p # qs) 0"
    "n_sys (k_net k2) = opened (s, fl, r) @ as @ ?tail @ rest" "c_source_addr (k_ctx k2) = Null" "c_saddr (k_ctx k2) \<noteq> Dangling"
    "n_open (k_net k2) = n_open (k_net k)" "n_infos (k_net k2) = Suc (n_infos (k_net k))"
    "c_flags (k_ctx k2) = c_flags (k_ctx k)" "c_err (k_ctx k2) = c_err (k_ctx k)" "c_host (k_ctx k2) = Ptr ip"
    using k1(5-9) by auto
  show ?thesis
  proof (cases "connect_reached ?b as")
    case True
    with k2(2) have "n_sys (k_net k2) = opened (s, fl, r) @ as @ (if ?b then [Result fl', Result 0] else []) @ Result 0 # rest"
      by simp
    from try_reached [OF this k2(3,4) assms(4) True, where p = p and lc = lc and f = AF_INET and reuse = ?re and msec = "- 1" and n = 0] k1(1) k2 True show ?thesis
      by (auto simp: os_freeaddrinfo_def tried_def)
  next
    case False
    then have "connect_failed ?b ?re as e" "n_sys (k_net k2) = opened (s, fl, r) @ as @ rest" using assms(2) k2(2) by auto
    from try_failed [OF this(2) k2(3,4) assms(4) this(1), where p = p and lc = lc and f = AF_INET and msec = "- 1" and n = 0] k1(1) k2 False show ?thesis
      by (auto simp: os_freeaddrinfo_def tried_def gave_up_def)
  qed
qed

text \<open>A blocking connection to the second of two addresses, which takes a while; and one to the first of two, which is
  refused (\<^verbatim>\<open>ECONNREFUSED\<close>, 111).\<close>

theorem connect_first_decides_witness:
  "(\<exists>k'. redisContextConnectTcp roomy demo_libc (demo_open REDIS_BLOCK (Addresses [demo_addr, demo_addr] #
      refused EHOSTUNREACH (4, 2, 0) @ opened (4, 2, 0) @ [answer.Failure EINPROGRESS, Result 1, answer.Failure EISCONN] @
      [Result 2050, Result 0, Result 0])) (Given ''h'') 1 NullArg = Some (REDIS_OK, k') \<and>
    c_fd (k_ctx k') = 4 \<and> n_open (k_net k') = [4, 0] \<and> n_infos (k_net k') = 0) \<and>
   (\<exists>k'. redisContextConnectTcp roomy demo_libc (demo_open REDIS_BLOCK (Addresses [demo_addr, demo_addr] #
      opened (4, 2, 0) @ [answer.Failure 111])) (Given ''h'') 1 NullArg = Some (REDIS_ERR, k') \<and>
    c_err (k_ctx k') = REDIS_ERR_IO \<and> n_infos (k_net k') = 0)"
proof
  let ?as = "[answer.Failure EINPROGRESS, Result (Suc 0), answer.Failure EISCONN]"
  have b: "flag (k_ctx (demo_open REDIS_BLOCK as)) REDIS_BLOCK" for as by (simp add: flag_def REDIS_BLOCK_def)
  have r: "connect_reached True ?as" "\<not> connect_reached True [answer.Failure 111]"
    by (auto simp: connect_reached_def errno_defs)
  show "\<exists>k'. redisContextConnectTcp roomy demo_libc (demo_open REDIS_BLOCK (Addresses [demo_addr, demo_addr] #
      refused EHOSTUNREACH (4, 2, 0) @ opened (4, 2, 0) @ [answer.Failure EINPROGRESS, Result 1, answer.Failure EISCONN] @
      [Result 2050, Result 0, Result 0])) (Given ''h'') 1 NullArg = Some (REDIS_OK, k') \<and>
    c_fd (k_ctx k') = 4 \<and> n_open (k_net k') = [4, 0] \<and> n_infos (k_net k') = 0"
    using connect_first_decides [of "demo_open REDIS_BLOCK (Addresses [demo_addr, demo_addr] #
        refused EHOSTUNREACH (4, 2, 0) @ opened (4, 2, 0) @ ?as @ [Result 2050, Result 0, Result 0])" "[demo_addr]" demo_addr "[]"
        "[(4, 2, 0)]" 4 2 0 ?as 2050 "[]" 0 roomy demo_libc "''h''" 1] b r(1)
    by auto
  have f: "connect_failed True x [answer.Failure 111] 111" for x by (simp add: connect_failed_def errno_defs)
  show "\<exists>k'. redisContextConnectTcp roomy demo_libc (demo_open REDIS_BLOCK (Addresses [demo_addr, demo_addr] #
      opened (4, 2, 0) @ [answer.Failure 111])) (Given ''h'') 1 NullArg = Some (REDIS_ERR, k') \<and>
    c_err (k_ctx k') = REDIS_ERR_IO \<and> n_infos (k_net k') = 0"
    using connect_first_decides [of "demo_open REDIS_BLOCK (Addresses [demo_addr, demo_addr] #
        opened (4, 2, 0) @ [answer.Failure 111])" "[]" demo_addr "[demo_addr]" "[]" 4 2 0 "[answer.Failure 111]" 0 "[]" 111
        roomy demo_libc "''h''" 1] b r(2) f
    by (auto simp: gave_up_def)
qed

text \<open>With \<^verbatim>\<open>REDIS_REUSEADDR\<close>, when the last of the ten attempts is answered with
  \<^verbatim>\<open>EADDRNOTAVAIL\<close> as well, the connection fails but the context shows no error and keeps the
  descriptor of a socket that is not connected: the caller takes it for a connection.\<close>

lemma connect_retries_silent:
  assumes "n_sys (k_net k) = Addresses (p # qs) # concat (map (refused EADDRNOTAVAIL) rs) @ rest"
    "length rs = REDIS_CONNECT_RETRIES" "flag (k_ctx k) REDIS_REUSEADDR" "\<And>n. grants A n"
    "c_fd (k_ctx k) = REDIS_INVALID_FD" "c_host (k_ctx k) \<noteq> Dangling" "c_timeout (k_ctx k) \<noteq> Dangling"
    "c_source_addr (k_ctx k) \<noteq> Dangling" "c_saddr (k_ctx k) \<noteq> Dangling"
  shows "\<exists>k'. redisContextConnectTcp A lc k (Given ip) port NullArg = Some (REDIS_ERR, k') \<and>
    c_err (k_ctx k') = c_err (k_ctx k) \<and> c_fd (k_ctx k') = int (fst (last rs))"
proof -
  obtain k1 where k1: "redisContextConnectTcp A lc k (Given ip) port NullArg = do {
      (rv, k) \<leftarrow> connect_loop A lc AF_INET (flag (k_ctx k) REDIS_BLOCK) (flag (k_ctx k) REDIS_REUSEADDR) (- 1) k1
        (p # qs) 0;
      n \<leftarrow> os_freeaddrinfo (k_net k);
      Some (rv, k\<lparr>k_net := n\<rparr>) }"
    "n_sys (k_net k1) = concat (map (refused EADDRNOTAVAIL) rs) @ rest"
    "c_source_addr (k_ctx k1) = Null" "c_saddr (k_ctx k1) = c_saddr (k_ctx k)" "c_err (k_ctx k1) = c_err (k_ctx k)"
    "n_infos (k_net k1) = Suc (n_infos (k_net k))"
    using ConnectTcp_loop [OF assms(1) _ assms(4,6,7,8), of lc ip port] by auto
  have s: "c_saddr (k_ctx k1) \<noteq> Dangling" using k1(4) assms(9) by simp
  have l: "0 + length rs = REDIS_CONNECT_RETRIES" "0 < length rs"
    using assms(2) by (simp_all add: REDIS_CONNECT_RETRIES_def)
  from connect_loop_in_use [OF k1(2) l k1(3) s assms(4), of lc AF_INET "flag (k_ctx k) REDIS_BLOCK" "- 1" p qs]
  obtain k2 where "connect_loop A lc AF_INET (flag (k_ctx k) REDIS_BLOCK) True (- 1) k1 (p # qs) 0 = Some (REDIS_ERR, k2)"
    "c_err (k_ctx k2) = c_err (k_ctx k1)" "c_fd (k_ctx k2) = int (fst (last rs))" "n_infos (k_net k2) = n_infos (k_net k1)"
    by blast
  with k1 assms(3) show ?thesis by (simp add: os_freeaddrinfo_def)
qed

theorem connect_retries_silent_witness:
  "\<exists>k'. redisContextConnectTcp roomy demo_libc (demo_open REDIS_REUSEADDR (Addresses [demo_addr] #
      concat (map (refused EADDRNOTAVAIL) (replicate REDIS_CONNECT_RETRIES (4, 2, 0))))) (Given ''h'') 1 NullArg =
      Some (REDIS_ERR, k') \<and>
    c_err (k_ctx k') = 0 \<and> c_fd (k_ctx k') = 4"
  using connect_retries_silent [of "demo_open REDIS_REUSEADDR (Addresses [demo_addr] #
      concat (map (refused EADDRNOTAVAIL) (replicate REDIS_CONNECT_RETRIES (4, 2, 0))))" demo_addr "[]"
      "replicate REDIS_CONNECT_RETRIES (4, 2, 0)" "[]" roomy demo_libc "''h''" 1]
  by (simp add: flag_def REDIS_REUSEADDR_def REDIS_CONNECT_RETRIES_def)

text \<open>C31: a timeout of non-negative seconds and microseconds becomes the number of milliseconds
  that is just not shorter, at most \<^verbatim>\<open>INT_MAX\<close>; more than 1000000 microseconds, or seconds whose
  milliseconds do not fit into a \<^verbatim>\<open>long\<close>, are an error.\<close>

theorem timeout_rounds_up:
  assumes "c_timeout c = Ptr tv" "0 \<le> tv_sec tv" "0 \<le> tv_usec tv"
  shows "redisContextTimeoutMsec c =
    Some (if tv_usec tv > 1000000 \<or> tv_sec tv > (2 ^ 63 - 1000) div 1000 then (REDIS_ERR, - 1)
      else (REDIS_OK, min (2 ^ 31 - 1) ((tv_sec tv * 1000000 + tv_usec tv + 999) div 1000)))"
proof -
  have m: "MAX_MSEC = (2 ^ 63 - 1000) div 1000" by (simp add: MAX_MSEC_def signed_divide_int_def)
  have d: "(tv_usec tv + 999) sdiv 1000 = (tv_usec tv + 999) div 1000"
    using assms(3) by (simp add: signed_divide_int_def)
  have sum: "(tv_sec tv * 1000000 + tv_usec tv + 999) div 1000 = tv_sec tv * 1000 + (tv_usec tv + 999) div 1000"
    using div_mult_self2 [of 1000 "tv_usec tv + 999" "tv_sec tv * 1000"] by (simp add: algebra_simps)
  show ?thesis
  proof (cases "tv_usec tv > 1000000 \<or> tv_sec tv > MAX_MSEC")
    case True
    with assms(1) m show ?thesis by (simp add: redisContextTimeoutMsec_def)
  next
    case False
    have "(tv_usec tv + 999) div 1000 < 1001"
      using False zdiv_mono1 [of "tv_usec tv + 999" 1000999 1000] by simp
    moreover have "0 \<le> (tv_usec tv + 999) div 1000" using assms(3) by simp
    moreover note False m assms(2)
    ultimately
    have "tv_sec tv * 1000 + (tv_usec tv + 999) div 1000 < 2 ^ 63"
      "0 \<le> tv_sec tv * 1000 + (tv_usec tv + 999) div 1000" by simp_all
    with assms(1,2) False m show ?thesis by (auto simp: redisContextTimeoutMsec_def d sum Let_def)
  qed
qed

theorem timeout_rounds_up_witness:
  "redisContextTimeoutMsec ((k_ctx (demo_open 0 []))\<lparr>c_timeout := Ptr \<lparr>tv_sec = 1, tv_usec = 1\<rparr>\<rparr>) =
    Some (REDIS_OK, 1001)"
  using timeout_rounds_up [of "(k_ctx (demo_open 0 []))\<lparr>c_timeout := Ptr \<lparr>tv_sec = 1, tv_usec = 1\<rparr>\<rparr>" "\<lparr>tv_sec = 1, tv_usec = 1\<rparr>"]
  by simp

end
