(* ===== verification/Dict_Properties.thy ===== *)
theory Dict_Properties
  imports Dict
begin

text \<open>
  The properties of the hash table of \<^verbatim>\<open>lib/hiredis/dict.c\<close>, each with a concrete instance:
  an empty table for numbers, hashed to themselves.
\<close>

definition demo_type :: "(nat, nat) dictType" where
  "demo_type = \<lparr>hashFunction = (\<lambda>k. Some (of_nat k)), keyDup = None, valDup = None, keyCompare = None,
     keyDestructor = False, valDestructor = True\<rparr>"

definition demo_dict :: "(nat, nat) dict" where
  "demo_dict = \<lparr>ht_table = Null, ht_type = demo_type, ht_size = 0, ht_sizemask = 0, ht_used = 0\<rparr>"

lemma demo_ok: "dict_ok (\<lambda>_. True) id of_nat demo_dict"
  by (simp add: dict_ok_def demo_dict_def demo_type_def dictType_ok_def)

lemma demo_simps: "dict_map id demo_dict = Map.empty" "ht_used demo_dict = 0" "ht_size demo_dict = 0"
  by (simp_all add: demo_dict_def dict_map_def tab_def assoc_def)

section \<open>The table as a finite map\<close>

text \<open>C37: \<^verbatim>\<open>dictAdd\<close> on a well-formed table never faults: it adds a binding for a new key and
  returns \<^verbatim>\<open>DICT_OK\<close>, or returns \<^verbatim>\<open>DICT_ERR\<close> for a key that is there and changes no binding;
  the table stays well-formed although it may have been rehashed.\<close>

theorem dict_add_binds:
  assumes "dict_ok kok c h ht" "kok k" "ht_used ht < 2 ^ 31" "\<And>n. grants A n"
  shows "\<exists>r ht'. dictAdd A ht k v = Some (r, ht') \<and> dict_ok kok c h ht' \<and>
    (if dict_map c ht (c k) = None
     then r = DICT_OK \<and> dict_map c ht' = (dict_map c ht)(c k \<mapsto> v) \<and> ht_used ht' = Suc (ht_used ht)
     else r = DICT_ERR \<and> dict_map c ht' = dict_map c ht \<and> ht_used ht' = ht_used ht)"
  by (cases rule: dictAdd_spec [OF assms, of v, case_names added present]) auto

theorem dict_add_binds_witness:
  "\<exists>r ht'. dictAdd roomy demo_dict 5 7 = Some (r, ht') \<and> dict_ok (\<lambda>_. True) id of_nat ht' \<and>
    r = DICT_OK \<and> dict_map id ht' = [5 \<mapsto> 7] \<and> ht_used ht' = 1"
  using dict_add_binds [OF demo_ok, where A = roomy and k = 5 and v = 7] by (simp add: demo_simps)

text \<open>After \<^verbatim>\<open>dictReplace\<close> of a key, \<^verbatim>\<open>dictFind\<close> returns the new value for every key with
  the same content, and what it returned before for every other key.\<close>

lemma dict_find_after_replace:
  assumes "dict_ok kok c h ht" "kok k" "kok k'" "ht_used ht < 2 ^ 31" "\<And>n. grants A n"
  shows "\<exists>r ht' ev. dictReplace A ht k v = Some (r, ht', ev) \<and> dict_ok kok c h ht' \<and>
    dict_look ht' k' = (if c k' = c k then Some (Some v) else dict_look ht k')"
proof -
  obtain ht' ev where r: "dictReplace A ht k v = Some (if dict_map c ht (c k) = None then 1 else 0, ht', ev)"
    "dict_ok kok c h ht'" "dict_map c ht' = (dict_map c ht)(c k \<mapsto> v)"
    using dictReplace_spec [OF assms(1,2,4,5), of v] by blast
  then show ?thesis
    using dict_is_map.look [OF r(2) assms(3)] dict_is_map.look [OF assms(1,3)] by auto
qed

theorem dict_find_after_replace_witness:
  "\<exists>r ht' ev. dictReplace roomy demo_dict 5 7 = Some (r, ht', ev) \<and> dict_ok (\<lambda>_. True) id of_nat ht' \<and>
    dict_look ht' 5 = Some (Some 7)"
  using dict_find_after_replace [OF demo_ok, where A = roomy and k = 5 and k' = 5 and v = 7] by (simp add: demo_simps)

text \<open>\<^verbatim>\<open>dictDelete\<close> removes exactly the binding of its key and frees its value, once, with
  the destructor of the table, or returns \<^verbatim>\<open>DICT_ERR\<close> and changes nothing.\<close>

lemma dict_delete_unbinds:
  assumes "dict_ok kok c h ht" "kok k"
  shows "\<exists>r ht' ev. dictDelete ht k = Some (r, ht', ev) \<and> dict_ok kok c h ht' \<and>
    dict_map c ht' = (dict_map c ht)(c k := None) \<and>
    (case dict_map c ht (c k) of
       None \<Rightarrow> r = DICT_ERR \<and> ht' = ht \<and> ev = []
     | Some w \<Rightarrow> r = DICT_OK \<and> ht_used ht' + 1 = ht_used ht \<and>
         (valDestructor (ht_type ht) \<longrightarrow> ValFreed w \<in> set ev))"
  by (cases rule: dictDelete_spec [OF assms, case_names deleted absent]) (auto simp: assms(1) fun_upd_idem)

theorem dict_delete_unbinds_witness:
  "\<exists>r ht' ev. dictDelete demo_dict 5 = Some (r, ht', ev) \<and> dict_ok (\<lambda>_. True) id of_nat ht' \<and>
    dict_map id ht' = Map.empty(5 := None) \<and> r = DICT_ERR \<and> ht' = demo_dict \<and> ev = []"
  using dict_delete_unbinds [OF demo_ok, of 5] by (auto simp: demo_simps)

section \<open>Growth, iteration and release\<close>

text \<open>C38: \<^verbatim>\<open>dictExpand\<close> to a larger power of two rehashes every entry into its new bucket: no
  binding is lost, added or changed, and the same entries are in the table.\<close>

theorem dict_expand_rehashes:
  assumes "dict_ok kok c h ht" "2 \<le> m" "m \<le> 31" "ht_used ht \<le> 2 ^ m" "grants A (2 ^ m * 8)"
  shows "\<exists>ht'. dictExpand A ht (2 ^ m) = Some (DICT_OK, ht') \<and> dict_ok kok c h ht' \<and>
    ht_size ht' = 2 ^ m \<and> ht_used ht' = ht_used ht \<and> dict_map c ht' = dict_map c ht \<and>
    mset (concat (tab ht')) = mset (concat (tab ht))"
  using dictExpand_spec [OF assms] by metis

theorem dict_expand_rehashes_witness:
  "\<exists>ht'. dictExpand roomy demo_dict (2 ^ 2) = Some (DICT_OK, ht') \<and> dict_ok (\<lambda>_. True) id of_nat ht' \<and>
    ht_size ht' = 2 ^ 2 \<and> ht_used ht' = ht_used demo_dict \<and> dict_map id ht' = dict_map id demo_dict \<and>
    mset (concat (tab ht')) = mset (concat (tab demo_dict))"
  by (rule dict_expand_rehashes [OF demo_ok]) (simp_all add: demo_simps)

text \<open>C39: an iteration over a well-formed table ends and visits every entry exactly once, in the
  order of the buckets.\<close>

theorem dict_iteration_complete:
  assumes "dict_ok kok c h ht" "ht_size ht < 2 ^ 31" "length (concat (tab ht)) < fuel"
    "dictGetIterator A = Some iter"
  shows "dict_iterate ht fuel iter = Some (concat (tab ht))"
proof -
  have i: "it_index iter = - 1" "it_entry iter = None" using assms(4) by (auto simp: dictGetIterator_def split: if_splits)
  then have "it_rest ht iter = concat (tab ht)" by (simp add: it_rest_def)
  with dict_iterate_spec [OF assms(1,2), of iter fuel] i assms(3) show ?thesis by simp
qed

theorem dict_iteration_complete_witness:
  "dict_iterate demo_dict 1 \<lparr>it_index = - 1, it_entry = None, it_nextEntry = []\<rparr> = Some (concat (tab demo_dict))"
  by (rule dict_iteration_complete [OF demo_ok, where A = roomy])
    (simp_all add: demo_simps dictGetIterator_def, simp add: demo_dict_def tab_def)

text \<open>\<^verbatim>\<open>dictRelease\<close> of a well-formed table runs the destructors on every entry exactly once,
  and frees the table without a double free.\<close>

lemma dict_release_frees_all:
  assumes "dict_ok kok c h ht"
  shows "dictRelease (Ptr ht) = Some (Dangling,
    concat (map (\<lambda>e. dictFreeEntryKey ht e @ dictFreeEntryVal ht e) (concat (tab ht))))"
  using dictClear_spec [OF assms] by (simp add: dictRelease_def)

theorem dict_release_frees_all_witness:
  "dictRelease (Ptr demo_dict) = Some (Dangling, [])"
  using dict_release_frees_all [OF demo_ok] by (simp add: demo_dict_def tab_def)

text \<open>\<^verbatim>\<open>dictGenHashFunction\<close> is the polynomial hash with factor 33 and start 5381, modulo
  \<open>2 ^ 32\<close>, of the first bytes of its block.\<close>

lemma dict_hash_polynomial:
  assumes "n \<le> length b"
  shows "\<exists>w. dictGenHashFunction b (int n) = Some w \<and>
    unat w = foldl (\<lambda>a x. (33 * a + byte x) mod 2 ^ 32) 5381 (take n b)"
  using dictGenHashFunction_spec [OF assms] by (simp add: hash_loop_33)

lemma dict_hash_polynomial_witness:
  "\<exists>w. dictGenHashFunction ''ab'' (int 1) = Some w \<and>
    unat w = foldl (\<lambda>a x. (33 * a + byte x) mod 2 ^ 32) 5381 (take 1 ''ab'')"
  by (rule dict_hash_polynomial) simp

end
