(* ===== verification/Format_Properties.thy ===== *)
theory Format_Properties
  imports Format Reader_Properties
begin

text \<open>
  The properties of the commands that \<^verbatim>\<open>lib/hiredis/hiredis.c\<close> formats, each with a concrete
  instance.
\<close>

text \<open>C12: \<^verbatim>\<open>redisFormatCommandArgv\<close> writes exactly the protocol's encoding of the arguments, as an
  array of bulk strings with a NUL after it, into a block of exactly that size, and returns its
  length; without memory it returns -1 and stores nothing. The arguments may hold any bytes.\<close>

theorem format_argv_encodes:
  assumes "vector argv argvlen args" "length (command args) < 2 ^ 31 - 1"
  shows "redisFormatCommandArgv A True (int (length args)) argv argvlen =
    Some (if grants A (length (command args) + 1)
      then (int (length (command args)), Ptr (encode (RArr (map RBulk args)) @ [NUL])) else (- 1, Null))"
  using redisFormatCommandArgv_spec [OF assms] by (simp only: command_encode)

theorem format_argv_encodes_witness:
  "redisFormatCommandArgv roomy True (int (length [''GET'', ''k''])) [''GET'', ''k''] (Some (map length [''GET'', ''k''])) =
    Some (int (length (command [''GET'', ''k''])), Ptr (encode (RArr (map RBulk [''GET'', ''k''])) @ [NUL]))"
  using format_argv_encodes [OF vector_lengths, of "[''GET'', ''k'']" roomy]
  by (simp add: command_def bulk_def dec.simps)

text \<open>C13: with memory, \<^verbatim>\<open>redisFormatSdsCommandArgv\<close> builds the same bytes in an SDS string, and its
  assertion on the length holds.\<close>

theorem format_sds_encodes:
  assumes "vector argv argvlen args" "length (command args) < 2 ^ 31" "\<And>k. grants A k"
  shows "\<exists>s. redisFormatSdsCommandArgv A True (int (length args)) argv argvlen =
    Some (int (length (command args)), Ptr s) \<and> sds_ok s \<and> sds_str s = encode (RArr (map RBulk args))"
  using redisFormatSdsCommandArgv_spec [OF assms] by (simp only: command_encode)

theorem format_sds_encodes_witness:
  "\<exists>s. redisFormatSdsCommandArgv roomy True (int (length [''GET'', ''k''])) (map (\<lambda>a. a @ [NUL]) [''GET'', ''k'']) None =
    Some (int (length (command [''GET'', ''k''])), Ptr s) \<and> sds_ok s \<and> sds_str s = encode (RArr (map RBulk [''GET'', ''k'']))"
  by (rule format_sds_encodes [OF vector_strings]) (simp_all add: command_def bulk_def dec.simps)

text \<open>C14: \<^verbatim>\<open>redisvFormatCommand\<close> builds the command whose arguments are the words of the format,
  after the conversions are replaced by their arguments: spaces in the arguments do not split
  them, and an empty argument is an empty word.\<close>

theorem format_words_encode:
  assumes "pieces pf fmt ap = Some ps" "length (command (format_words None ps)) < 2 ^ 31 - 1" "\<And>k. grants A k"
  shows "redisvFormatCommand A pf True fmt ap =
    Some (int (length (command (format_words None ps))),
      Ptr (encode (RArr (map RBulk (format_words None ps))) @ [NUL]))"
  using redisvFormatCommand_spec [OF assms] by (simp only: command_encode)

theorem format_words_encode_witness:
  "redisvFormatCommand roomy (\<lambda>_ _. []) True (''SET %s %b'' @ [NUL]) [VaStr (''a b'' @ [NUL]), VaStr ''xyz'', VaNum 0] =
    Some (int (length (command [''SET'', ''a b'', []])), Ptr (encode (RArr (map RBulk [''SET'', ''a b'', []])) @ [NUL]))"
proof -
  let ?ap = "[VaStr (''a b'' @ [NUL]), VaStr ''xyz'', VaNum 0]"
  have "pieces (\<lambda>_ _. []) (''SET %s %b'' @ [NUL]) ?ap =
      Some [Some ''S'', Some ''E'', Some ''T'', None, Some ''a b'', None, Some []]"
    by simp
  from format_words_encode [OF this, of roomy] show ?thesis
    by (simp add: command_def bulk_def dec.simps)
qed

text \<open>C11: a formatted command read back by the reader is the array of its arguments.\<close>

theorem format_read_back:
  assumes "vector argv argvlen args" "length (command args) < 2 ^ 31 - 1" "\<And>k. grants A k"
    "fresh_reader A r" "on_heap F h 0 (Building [])"
  shows "\<exists>n cmd r1 r2 h' a. redisFormatCommandArgv A True (int (length args)) argv argvlen = Some (int n, Ptr cmd) \<and>
    redisReaderFeed A r h (Ptr cmd) n = Some (REDIS_OK, r1, h) \<and>
    redisReaderGetReply r1 h = Some (REDIS_OK, r2, h', a) \<and> denotes (cells h') a (RArr (map RBulk args))"
proof -
  let ?v = "RArr (map RBulk args)" and ?n = "length (command args)"
  have cmd: "redisFormatCommandArgv A True (int (length args)) argv argvlen = Some (int ?n, Ptr (command args @ [NUL]))"
    using redisFormatCommandArgv_spec [OF assms(1,2), of A] assms(3) by simp
  have "length args \<le> length (concat (map bulk args))" by (rule length_le_bulks)
  moreover have "\<forall>a \<in> set args. length a < length (command args)"
    using length_bulk_le [of _ args] length_bulk length_command_bulks [of args]
    by (metis add_lessD1 le_less_trans less_le_trans le_add2 order_less_imp_le)
  ultimately have ok: "resp_ok 0 ?v"
    using assms(2) length_command_bulks [of args] by (auto simp: INT_MAX_def)
  obtain r1 where r1: "redisReaderFeed A r h (Ptr (command args @ [NUL])) ?n = Some (REDIS_OK, r1, h)"
    "r_fn r1 = Some (defaultFunctions A)" "resting (on_heap F) r1 h (- 1) []" "pending r1 = take ?n (command args @ [NUL])"
    using fresh_feed [OF assms(4,5), of ?n "command args @ [NUL]" A] assms(2,3) by auto
  have "parse (- 1) (pending r1) (erase []) = Parsed ?v []"
    using parse_whole [OF ok] r1(4) by (simp add: erase_def command_encode)
  from deliver_reply [OF r1(2) assms(3) r1(3) this] obtain r2 h' a where
    g: "redisReaderGetReply r1 h = Some (REDIS_OK, r2, h', a)" "on_heap F h' a (Complete ?v)" by blast
  with cmd r1(1) complete_denotes(2) [OF g(2)] show ?thesis by blast
qed

theorem format_read_back_witness:
  "\<exists>n cmd r1 r2 h' a. redisFormatCommandArgv roomy True (int (length [''GET'', ''k''])) [''GET'', ''k'']
      (Some (map length [''GET'', ''k''])) = Some (int n, Ptr cmd) \<and>
    redisReaderFeed roomy (demo_reader roomy) empty_heap (Ptr cmd) n = Some (REDIS_OK, r1, empty_heap) \<and>
    redisReaderGetReply r1 empty_heap = Some (REDIS_OK, r2, h', a) \<and>
    denotes (cells h') a (RArr (map RBulk [''GET'', ''k'']))"
  by (rule format_read_back [OF vector_lengths _ _ demo_reader empty_on_heap])
    (simp_all add: command_def bulk_def dec.simps)

end
