(* ===== verification/Ssl.thy ===== *)
theory Ssl
  imports Async
begin

text \<open>
  The build with \<^verbatim>\<open>HIREDIS_SSL\<close>: \<^verbatim>\<open>sslio.c\<close>, the functions of \<^verbatim>\<open>hiredis.c\<close> that move bytes through it, and
  the handlers \<^verbatim>\<open>asyncSslRead\<close> and \<^verbatim>\<open>asyncSslWrite\<close> of \<^verbatim>\<open>async.c\<close>. OpenSSL is not part of the repository: its
  functions are a parameter, on a state of the library of any type. Setting up its locks, its log
  and the options of its context, whose results the code ignores, is left out.
\<close>

section \<open>OpenSSL\<close>

text \<open>
  The calls that set a connection up, with their results (0 for failure, and a null pointer), reading and
  writing, the reason for a result that is not positive, and \<^verbatim>\<open>errno\<close> after a call.
\<close>

datatype ssl_call = CTX_new | Load_verify_locations bytes | Use_certificate_chain bytes | Use_private_key bytes |
  SSL_new | Set_host_name bytes | Set_fd int | SSL_connect | CTX_free | SSL_free

record 'o openssl =
  o_call :: "ssl_call \<Rightarrow> 'o \<Rightarrow> int \<times> 'o"
  o_read :: "int \<Rightarrow> 'o \<Rightarrow> int \<times> bytes \<times> 'o"
  o_write :: "bytes \<Rightarrow> int \<Rightarrow> 'o \<Rightarrow> int \<times> 'o"
  o_get_error :: "int \<Rightarrow> 'o \<Rightarrow> int"
  o_errno :: "'o \<Rightarrow> nat"
  o_WANT_READ :: int
  o_WANT_WRITE :: int

text \<open>\<^verbatim>\<open>redisSsl\<close>: whether its two pointers are set, and its fields.\<close>

record redisSsl =
  ssl_ssl :: bool
  ssl_ctx :: bool
  lastLen :: nat
  wantRead :: bool
  pendingWrite :: bool

text \<open>A context with its \<^verbatim>\<open>ssl\<close> (\<^theory_text>\<open>None\<close> for a null pointer) and the state of the library.\<close>

record 'o ssl_conn =
  x_conn :: conn
  x_ssl :: "redisSsl option"
  x_lib :: 'o

abbreviation x_flag :: "'o ssl_conn \<Rightarrow> 32 word \<Rightarrow> bool" where "x_flag x f \<equiv> flag (k_ctx (x_conn x)) f"

text \<open>After a call of the library: its state, and \<^verbatim>\<open>errno\<close>.\<close>

definition ssl_after :: "'o openssl \<Rightarrow> 'o \<Rightarrow> 'o ssl_conn \<Rightarrow> 'o ssl_conn" where
  "ssl_after L lib x = x\<lparr>x_lib := lib,
     x_conn := (x_conn x)\<lparr>k_net := (k_net (x_conn x))\<lparr>n_errno := o_errno L lib\<rparr>\<rparr>\<rparr>"

definition ssl_error :: "libc \<Rightarrow> 'o ssl_conn \<Rightarrow> int \<Rightarrow> bytes option \<Rightarrow> 'o ssl_conn option" where
  "ssl_error lc x type msg = do { k \<leftarrow> set_error lc (x_conn x) type msg; Some (x\<lparr>x_conn := k\<rparr>) }"

definition ssl_step :: "'o openssl \<Rightarrow> ssl_call \<Rightarrow> 'o ssl_conn \<Rightarrow> int \<times> 'o ssl_conn" where
  "ssl_step L c x = (let (r, lib) = o_call L c (x_lib x) in (r, ssl_after L lib x))"

section \<open>Creating and freeing\<close>

definition sslFree :: "'o openssl \<Rightarrow> redisSsl \<Rightarrow> 'o \<Rightarrow> 'o" where
  "sslFree L s lib =
     (let lib = (if ssl_ctx s then snd (o_call L CTX_free lib) else lib)
      in if ssl_ssl s then snd (o_call L SSL_free lib) else lib)"

text \<open>One of the checked calls: on failure its message.\<close>

definition ssl_must :: "libc \<Rightarrow> 'o openssl \<Rightarrow> ssl_call \<Rightarrow> bytes \<Rightarrow> 'o ssl_conn \<Rightarrow> (bool \<times> 'o ssl_conn) option" where
  "ssl_must lc L c msg x = (let (r, x) = ssl_step L c x
     in if r = 0 then do { x \<leftarrow> ssl_error lc x REDIS_ERR (Some msg); Some (False, x) } else Some (True, x))"

text \<open>The calls of a list, each with its message, until one fails.\<close>

fun ssl_musts :: "libc \<Rightarrow> 'o openssl \<Rightarrow> (ssl_call \<times> bytes) list \<Rightarrow> 'o ssl_conn \<Rightarrow> (bool \<times> 'o ssl_conn) option" where
  "ssl_musts lc L [] x = Some (True, x)"
| "ssl_musts lc L ((c, msg) # cs) x = do {
     (ok, x) \<leftarrow> ssl_must lc L c msg x;
     if ok then ssl_musts lc L cs x else Some (False, x)
   }"

text \<open>The end of \<^verbatim>\<open>redisSslCreate\<close>: the handshake.\<close>

definition ssl_connect :: "libc \<Rightarrow> 'o openssl \<Rightarrow> 'o ssl_conn \<Rightarrow> (int \<times> 'o ssl_conn) option" where
  "ssl_connect lc L x = do {
     let (_, x) = ssl_step L (Set_fd (c_fd (k_ctx (x_conn x)))) x;
     let c = k_ctx (x_conn x);
     let x = x\<lparr>x_conn := (x_conn x)\<lparr>k_ctx := c\<lparr>c_flags := or (c_flags c) REDIS_SSL\<rparr>\<rparr>\<rparr>;
     let (rv, x) = ssl_step L SSL_connect x;
     if rv = 1 then Some (REDIS_OK, x)
     else let rv = o_get_error L rv (x_lib x)
     in if \<not> x_flag x REDIS_BLOCK \<and> (rv = o_WANT_READ L \<or> rv = o_WANT_WRITE L) then Some (REDIS_OK, x)
     else do {
       x \<leftarrow> (if c_err (k_ctx (x_conn x)) = 0
            then ssl_error lc x REDIS_ERR_IO (Some ''SSL_connect() failed'') else Some x);
       Some (REDIS_ERR, x)
     }
   }"

text \<open>
  \<^verbatim>\<open>redisSslCreate\<close>. \<^verbatim>\<open>calloc\<close> may return null, which is then used. The result of \<^verbatim>\<open>SSL_CTX_new\<close> is not checked
  by the code; a null one is undefined.
\<close>

definition sslCreate :: "allocator \<Rightarrow> libc \<Rightarrow> 'o openssl \<Rightarrow> 'o ssl_conn \<Rightarrow> bytes option \<Rightarrow> bytes option \<Rightarrow> bytes option \<Rightarrow>
    bytes option \<Rightarrow> (int \<times> 'o ssl_conn) option" where
  "sslCreate A lc L x capath certpath keypath servername =
     (if x_ssl x \<noteq> None \<or> \<not> grants A 32 then None
      else let (r, x) = ssl_step L CTX_new x;
               s = \<lparr>ssl_ssl = False, ssl_ctx = True, lastLen = 0, wantRead = False, pendingWrite = False\<rparr>;
               x = x\<lparr>x_ssl := Some s\<rparr>
      in if r = 0 then None
      else if certpath \<noteq> None \<and> keypath = None \<or> keypath \<noteq> None \<and> certpath = None
      then do {
        x \<leftarrow> ssl_error lc x REDIS_ERR (Some ''certpath and keypath must be specified together'');
        Some (REDIS_ERR, x)
      }
      else do {
        (ok, x) \<leftarrow> ssl_musts lc L
          ((case capath of None \<Rightarrow> [] | Some p \<Rightarrow> [(Load_verify_locations p, ''Invalid CA certificate'')]) @
           (case (certpath, keypath) of
              (Some c, Some k) \<Rightarrow> [(Use_certificate_chain c, ''Invalid client certificate''),
                                  (Use_private_key k, ''Invalid client key'')]
            | _ \<Rightarrow> []) @
           [(SSL_new, ''Couldn't create new SSL instance'')]) x;
        if \<not> ok then Some (REDIS_ERR, x)
        else do {
          let x = x\<lparr>x_ssl := Some (s\<lparr>ssl_ssl := True\<rparr>)\<rparr>;
          (ok, x) \<leftarrow> ssl_musts lc L
            (case servername of None \<Rightarrow> [] | Some n \<Rightarrow> [(Set_host_name n, ''Couldn't set server name indication'')]) x;
          if \<not> ok then Some (REDIS_ERR, x)
          else ssl_connect lc L x
        }
      })"

section \<open>Reading and writing\<close>

definition maybeCheckWant :: "'o openssl \<Rightarrow> redisSsl \<Rightarrow> int \<Rightarrow> bool \<times> redisSsl" where
  "maybeCheckWant L s rv =
     (if rv = o_WANT_READ L then (True, s\<lparr>wantRead := True\<rparr>)
      else if rv = o_WANT_WRITE L then (True, s\<lparr>pendingWrite := True\<rparr>)
      else (False, s))"

definition sslRead :: "libc \<Rightarrow> 'o openssl \<Rightarrow> 'o ssl_conn \<Rightarrow> nat \<Rightarrow> (int \<times> bytes \<times> 'o ssl_conn) option" where
  "sslRead lc L x bufcap = do {
     s \<leftarrow> x_ssl x;
     let (nread, bs, lib) = o_read L (to_int (int bufcap)) (x_lib x);
     let x = ssl_after L lib x;
     if nread > 0 then Some (nread, bs, x)
     else if nread = 0 then do {
       x \<leftarrow> ssl_error lc x REDIS_ERR_EOF (Some ''Server closed the connection'');
       Some (- 1, [], x)
     }
     else let err = o_get_error L nread (x_lib x); errno = n_errno (k_net (x_conn x))
     in if x_flag x REDIS_BLOCK
     then if errno = EINTR then Some (0, [], x)
       else do {
         x \<leftarrow> ssl_error lc x REDIS_ERR_IO (if errno = EWOULDBLOCK then Some ''Timed out'' else None);
         Some (- 1, [], x)
       }
     else let (want, s) = maybeCheckWant L s err; x = x\<lparr>x_ssl := Some s\<rparr>
     in if want then Some (0, [], x)
     else do {
       x \<leftarrow> ssl_error lc x REDIS_ERR_IO None;
       Some (- 1, [], x)
     }
   }"

text \<open>What \<^verbatim>\<open>SSL_write\<close> is given: the front of the output buffer, of the length of the last attempt if that is to
  be repeated.\<close>

definition ssl_offer :: "redisSsl \<Rightarrow> sds \<Rightarrow> (nat \<times> bytes) option" where
  "ssl_offer s ob = do {
     let len = (if lastLen s \<noteq> 0 then lastLen s else sdslen ob);
     bs \<leftarrow> mem_read (buf ob) 0 (nat (to_int (int len)));
     Some (len, bs)
   }"

definition sslWrite :: "libc \<Rightarrow> 'o openssl \<Rightarrow> 'o ssl_conn \<Rightarrow> (int \<times> 'o ssl_conn) option" where
  "sslWrite lc L x = do {
     s \<leftarrow> x_ssl x;
     ob \<leftarrow> deref (c_obuf (k_ctx (x_conn x)));
     (len, bs) \<leftarrow> ssl_offer s ob;
     let (rv, lib) = o_write L bs (to_int (int len)) (x_lib x);
     let x = ssl_after L lib x;
     if rv > 0 then Some (rv, x\<lparr>x_ssl := Some (s\<lparr>lastLen := 0\<rparr>)\<rparr>)
     else if rv < 0 then
       let s = s\<lparr>lastLen := len\<rparr>;
           err = o_get_error L rv (x_lib x);
           (want, s') = (if x_flag x REDIS_BLOCK then (False, s) else maybeCheckWant L s err);
           x = x\<lparr>x_ssl := Some s'\<rparr>
       in if want then Some (0, x)
          else do { x \<leftarrow> ssl_error lc x REDIS_ERR_IO None; Some (- 1, x) }
     else Some (rv, x)
   }"

section \<open>Moving bytes (hiredis.c)\<close>

definition sslBufferRead :: "allocator \<Rightarrow> libc \<Rightarrow> 'o openssl \<Rightarrow> 'o ssl_conn \<Rightarrow> (int \<times> 'o ssl_conn) option" where
  "sslBufferRead A lc L x =
     (if c_err (k_ctx (x_conn x)) \<noteq> 0 then Some (REDIS_ERR, x)
      else do {
        (nread, bs, x) \<leftarrow> (if x_flag x REDIS_SSL then sslRead lc L x (1024 * 16)
           else do { (n, bs, k) \<leftarrow> redisNetRead lc (x_conn x) (1024 * 16); Some (n, bs, x\<lparr>x_conn := k\<rparr>) });
        if nread > 0 then do {
          let k = x_conn x;
          r \<leftarrow> deref (c_reader (k_ctx k));
          (rc, r, h) \<leftarrow> redisReaderFeed A r (k_heap k) (Ptr bs) (nat nread);
          let x = x\<lparr>x_conn := k\<lparr>k_ctx := (k_ctx k)\<lparr>c_reader := Ptr r\<rparr>, k_heap := h\<rparr>\<rparr>;
          if rc \<noteq> REDIS_OK then do {
            x \<leftarrow> ssl_error lc x (r_err r) (Some (r_errstr r));
            Some (REDIS_ERR, x)
          }
          else Some (REDIS_OK, x)
        }
        else if nread < 0 then Some (REDIS_ERR, x)
        else Some (REDIS_OK, x)
      })"

definition sslBufferWrite :: "allocator \<Rightarrow> libc \<Rightarrow> 'o openssl \<Rightarrow> 'o ssl_conn \<Rightarrow> (int \<times> bool option \<times> 'o ssl_conn) option" where
  "sslBufferWrite A lc L x =
     (if c_err (k_ctx (x_conn x)) \<noteq> 0 then Some (REDIS_ERR, None, x)
      else do {
        s \<leftarrow> deref (c_obuf (k_ctx (x_conn x)));
        (nwritten, x) \<leftarrow> (if sdslen s > 0
           then if x_flag x REDIS_SSL then sslWrite lc L x
             else do { (n, k) \<leftarrow> redisNetWrite lc (x_conn x); Some (n, x\<lparr>x_conn := k\<rparr>) }
           else Some (0, x));
        if nwritten < 0 then Some (REDIS_ERR, None, x)
        else do {
          let k = x_conn x;
          ob \<leftarrow> (if nwritten > 0 then
                   if nwritten = to_int (int (sdslen s))
                   then do { _ \<leftarrow> sdsfree (c_obuf (k_ctx k)); sdsempty A }
                   else do { s \<leftarrow> sdsrange s nwritten (- 1); Some (Ptr s) }
                 else Some (c_obuf (k_ctx k)));
          s \<leftarrow> deref ob;
          Some (REDIS_OK, Some (sdslen s = 0), x\<lparr>x_conn := k\<lparr>k_ctx := (k_ctx k)\<lparr>c_obuf := ob\<rparr>\<rparr>\<rparr>)
        }
      })"

text \<open>The loop of \<^verbatim>\<open>redisGetReply\<close> that empties the output buffer.\<close>

partial_function (option) ssl_write_until_done ::
  "allocator \<Rightarrow> libc \<Rightarrow> 'o openssl \<Rightarrow> 'o ssl_conn \<Rightarrow> (int \<times> 'o ssl_conn) option" where
  "ssl_write_until_done A lc L x = do {
     (rc, wdone, x) \<leftarrow> sslBufferWrite A lc L x;
     if rc = REDIS_ERR then Some (REDIS_ERR, x)
     else if wdone = Some True then Some (REDIS_OK, x)
     else ssl_write_until_done A lc L x
   }"

section \<open>Events (async.c)\<close>

text \<open>
  An asynchronous context with its \<^verbatim>\<open>ssl\<close>. When the context is freed, by an error or by a callback, its
  \<^verbatim>\<open>ssl\<close> is freed with it.
\<close>

record 'o ssl_async =
  y_ac :: redisAsyncContext
  y_ssl :: redisSsl
  y_lib :: 'o

datatype 'o ssl_life = Ssl_live "'o ssl_async" | Ssl_gone life 'o

definition ssl_outcome :: "'o openssl \<Rightarrow> redisSsl \<Rightarrow> 'o \<Rightarrow> life \<Rightarrow> 'o ssl_life" where
  "ssl_outcome L s lib l = (case l of
     Live ac \<Rightarrow> Ssl_live \<lparr>y_ac = ac, y_ssl = s, y_lib = lib\<rparr>
   | Gone h n log \<Rightarrow> Ssl_gone l (sslFree L s lib))"

text \<open>A function on the context of an asynchronous one.\<close>

definition on_async :: "('o ssl_conn \<Rightarrow> ('a \<times> 'o ssl_conn) option) \<Rightarrow> 'o ssl_async \<Rightarrow> ('a \<times> 'o ssl_async) option" where
  "on_async f y = do {
     (r, x) \<leftarrow> f \<lparr>x_conn = a_c (y_ac y), x_ssl = Some (y_ssl y), x_lib = y_lib y\<rparr>;
     s \<leftarrow> x_ssl x;
     Some (r, \<lparr>y_ac = (y_ac y)\<lparr>a_c := x_conn x\<rparr>, y_ssl = s, y_lib = x_lib x\<rparr>)
   }"

definition ssl_disconnect :: "allocator \<Rightarrow> user \<Rightarrow> 'o openssl \<Rightarrow> 'o ssl_async \<Rightarrow> 'o ssl_life option" where
  "ssl_disconnect A user L y = do {
     l \<leftarrow> asyncDisconnect A user (y_ac y);
     Some (ssl_outcome L (y_ssl y) (y_lib y) l)
   }"

abbreviation y_event :: "(redisAsyncContext \<Rightarrow> redisAsyncContext) \<Rightarrow> 'o ssl_async \<Rightarrow> 'o ssl_async" where
  "y_event f y \<equiv> y\<lparr>y_ac := f (y_ac y)\<rparr>"

definition asyncSslRead :: "allocator \<Rightarrow> libc \<Rightarrow> user \<Rightarrow> 'o openssl \<Rightarrow> 'o ssl_async \<Rightarrow> 'o ssl_life option" where
  "asyncSslRead A lc user L y = do {
     let y = y\<lparr>y_ssl := (y_ssl y)\<lparr>wantRead := False\<rparr>\<rparr>;
     (failed, y) \<leftarrow> (if pendingWrite (y_ssl y) then do {
         let y = y\<lparr>y_ssl := (y_ssl y)\<lparr>pendingWrite := False\<rparr>\<rparr>;
         ((rv, wdone), y) \<leftarrow> on_async (\<lambda>x. do { (rv, d, x) \<leftarrow> sslBufferWrite A lc L x; Some ((rv, d), x) }) y;
         Some (rv = REDIS_ERR, if rv \<noteq> REDIS_ERR \<and> wdone = Some False then y_event EL_ADD_WRITE y else y)
       }
       else Some (False, y));
     if failed then ssl_disconnect A user L y
     else do {
       (rv, y) \<leftarrow> on_async (sslBufferRead A lc L) y;
       if rv = REDIS_ERR then ssl_disconnect A user L y
       else do {
         l \<leftarrow> redisProcessCallbacks A lc user (EL_ADD_READ (y_ac y));
         Some (ssl_outcome L (y_ssl y) (y_lib y) l)
       }
     }
   }"

definition asyncSslWrite :: "allocator \<Rightarrow> libc \<Rightarrow> user \<Rightarrow> 'o openssl \<Rightarrow> 'o ssl_async \<Rightarrow> 'o ssl_life option" where
  "asyncSslWrite A lc user L y = do {
     let y = y\<lparr>y_ssl := (y_ssl y)\<lparr>pendingWrite := False\<rparr>\<rparr>;
     ((rv, wdone), y) \<leftarrow> on_async (\<lambda>x. do { (rv, d, x) \<leftarrow> sslBufferWrite A lc L x; Some ((rv, d), x) }) y;
     if rv = REDIS_ERR then ssl_disconnect A user L y
     else do {
       let y = (if wdone \<noteq> Some True
         then if wantRead (y_ssl y)
           then y_event EL_DEL_WRITE (y\<lparr>y_ssl := (y_ssl y)\<lparr>pendingWrite := True\<rparr>\<rparr>)
           else y_event EL_ADD_WRITE y
         else y_event EL_DEL_WRITE y);
       Some (Ssl_live (y_event EL_ADD_READ y))
     }
   }"

text \<open>
  The handlers of the event library: a context that is not connected yet is connected first; \<^theory_text>\<open>Inr\<close> is a context
  with which they go on.
\<close>

definition connect_first :: "allocator \<Rightarrow> libc \<Rightarrow> user \<Rightarrow> redisAsyncContext \<Rightarrow> (life + redisAsyncContext) option" where
  "connect_first A lc user ac =
     (if \<not> has ac REDIS_CONNECTED then do {
        (rc, l) \<leftarrow> redisAsyncHandleConnect A lc user ac;
        Some (case l of
            Live ac \<Rightarrow> if rc \<noteq> REDIS_OK \<or> \<not> has ac REDIS_CONNECTED then Inl l else Inr ac
          | Gone _ _ _ \<Rightarrow> Inl l)
      } else Some (Inr ac))"

definition sslHandleRead :: "allocator \<Rightarrow> libc \<Rightarrow> user \<Rightarrow> 'o openssl \<Rightarrow> 'o ssl_async \<Rightarrow> 'o ssl_life option" where
  "sslHandleRead A lc user L y = do {
     r \<leftarrow> connect_first A lc user (y_ac y);
     (case r of
        Inl l \<Rightarrow> Some (ssl_outcome L (y_ssl y) (y_lib y) l)
      | Inr ac \<Rightarrow>
          let y = y\<lparr>y_ac := ac\<rparr>
          in if has ac REDIS_SSL then asyncSslRead A lc user L y
          else do {
            (rv, y) \<leftarrow> on_async (sslBufferRead A lc L) y;
            if rv = REDIS_ERR then ssl_disconnect A user L y
            else do {
              l \<leftarrow> redisProcessCallbacks A lc user (EL_ADD_READ (y_ac y));
              Some (ssl_outcome L (y_ssl y) (y_lib y) l)
            }
          })
   }"

definition sslHandleWrite :: "allocator \<Rightarrow> libc \<Rightarrow> user \<Rightarrow> 'o openssl \<Rightarrow> 'o ssl_async \<Rightarrow> 'o ssl_life option" where
  "sslHandleWrite A lc user L y = do {
     r \<leftarrow> connect_first A lc user (y_ac y);
     (case r of
        Inl l \<Rightarrow> Some (ssl_outcome L (y_ssl y) (y_lib y) l)
      | Inr ac \<Rightarrow>
          let y = y\<lparr>y_ac := ac\<rparr>
          in if has ac REDIS_SSL then asyncSslWrite A lc user L y
          else do {
            ((rv, wdone), y) \<leftarrow> on_async (\<lambda>x. do { (rv, d, x) \<leftarrow> sslBufferWrite A lc L x; Some ((rv, d), x) }) y;
            if rv = REDIS_ERR then ssl_disconnect A user L y
            else Some (Ssl_live (y_event EL_ADD_READ
              (y_event (if wdone \<noteq> Some True then EL_ADD_WRITE else EL_DEL_WRITE) y)))
          })
   }"

end
