(* ===== verification/Ssl_Properties.thy ===== *)
theory Ssl_Properties
  imports Ssl Async_Properties
begin

unbundle bit_operations_syntax

text \<open>
  The properties of the build with \<^verbatim>\<open>HIREDIS_SSL\<close>, each with a concrete instance.
\<close>

section \<open>Writing\<close>

text \<open>A library whose answers are given: what \<^verbatim>\<open>SSL_write\<close> returns, and why.\<close>

definition demo_ssl :: "int \<Rightarrow> int list openssl" where
  "demo_ssl err = \<lparr>o_call = (\<lambda>_ rs. (1, rs)), o_read = (\<lambda>_ rs. (- 1, [], rs)),
     o_write = (\<lambda>_ _ rs. case rs of [] \<Rightarrow> (0, []) | r # rs \<Rightarrow> (r, rs)),
     o_get_error = (\<lambda>_ _. err), o_errno = (\<lambda>_. EWOULDBLOCK), o_WANT_READ = 2, o_WANT_WRITE = 3\<rparr>"

definition idle_ssl :: redisSsl where
  "idle_ssl = \<lparr>ssl_ssl = True, ssl_ctx = True, lastLen = 0, wantRead = False, pendingWrite = False\<rparr>"

definition demo_ssl_conn :: "32 word \<Rightarrow> bytes \<Rightarrow> int list \<Rightarrow> int list ssl_conn" where
  "demo_ssl_conn f out rs = \<lparr>x_conn = (demo_conn [] [])\<lparr>k_ctx := (k_ctx (demo_conn [] []))
      \<lparr>c_flags := f, c_obuf := Ptr (sds_of out)\<rparr>\<rparr>, x_ssl = Some idle_ssl, x_lib = rs\<rparr>"

lemma demo_ssl_conn [simp]:
  "x_ssl (demo_ssl_conn f out rs) = Some idle_ssl" "c_obuf (k_ctx (x_conn (demo_ssl_conn f out rs))) = Ptr (sds_of out)"
  "c_err (k_ctx (x_conn (demo_ssl_conn f out rs))) = 0" "c_flags (k_ctx (x_conn (demo_ssl_conn f out rs))) = f" "x_lib (demo_ssl_conn f out rs) = rs"
  by (simp_all add: demo_ssl_conn_def demo_conn_def blank_context_def)

lemma ssl_after_simps [simp]:
  "k_ctx (x_conn (ssl_after L lib x)) = k_ctx (x_conn x)" "x_ssl (ssl_after L lib x) = x_ssl x"
  "x_lib (ssl_after L lib x) = lib"
  by (simp_all add: ssl_after_def)

text \<open>
  A context with bytes to write: \<^verbatim>\<open>lastLen\<close> is the length of a write to be repeated, or 0. What \<^verbatim>\<open>SSL_write\<close> is
  given is then a prefix of the bytes.
\<close>

definition outgoing :: "'o ssl_conn \<Rightarrow> redisSsl \<Rightarrow> bytes \<Rightarrow> bool" where
  "outgoing x s out \<longleftrightarrow> x_ssl x = Some s \<and> c_err (k_ctx (x_conn x)) = 0 \<and> x_flag x REDIS_SSL \<and>
     (\<exists>ob. c_obuf (k_ctx (x_conn x)) = Ptr ob \<and> sds_ok ob \<and> sds_str ob = out) \<and>
     lastLen s \<le> length out \<and> length out < 2 ^ 31"

definition offered :: "redisSsl \<Rightarrow> bytes \<Rightarrow> bytes" where
  "offered s out = take (if lastLen s \<noteq> 0 then lastLen s else length out) out"

abbreviation with_obuf :: "'o ssl_conn \<Rightarrow> sds \<Rightarrow> 'o ssl_conn" where
  "with_obuf x ob \<equiv> x\<lparr>x_conn := (x_conn x)\<lparr>k_ctx := (k_ctx (x_conn x))\<lparr>c_obuf := Ptr ob\<rparr>\<rparr>\<rparr>"

lemma outgoingE:
  assumes "outgoing x s out"
  obtains ob where "x_ssl x = Some s" "c_err (k_ctx (x_conn x)) = 0" "x_flag x REDIS_SSL"
    "c_obuf (k_ctx (x_conn x)) = Ptr ob" "sds_ok ob" "sds_str ob = out" "sdslen ob = length out"
    "ssl_offer s ob = Some (length (offered s out), offered s out)" "length (offered s out) < 2 ^ 31"
proof -
  obtain ob where ob: "c_obuf (k_ctx (x_conn x)) = Ptr ob" "sds_ok ob" "sds_str ob = out"
    using assms by (auto simp: outgoing_def)
  have len: "sdslen ob = length out" using length_sds_str [OF ob(2)] ob(3) by simp
  have front: "take (length out) (buf ob) = out" using ob(3) len by (simp add: sds_str_def)
  have rd: "mem_read (buf ob) 0 n = Some (take n out)" if "n \<le> length out" for n
  proof -
    have "take n (buf ob) = take n out" using arg_cong [OF front, of "take n"] that by (simp add: min_absorb1)
    with that len sds_okD [OF ob(2)] show ?thesis by (simp add: mem_read_def)
  qed
  show thesis
    using assms ob len rd by (intro that) (auto simp: outgoing_def offered_def ssl_offer_def to_int_nat Let_def)
qed

lemma outgoing_wrote:
  assumes "outgoing x s out" "sds_ok ob" "sds_str ob = out'" "lastLen s' \<le> length out'" "length out' < 2 ^ 31"
  shows "outgoing (with_obuf ((ssl_after L lib x)\<lparr>x_ssl := Some s'\<rparr>) ob) s' out'"
  using assms by (auto simp: outgoing_def flag_def)

text \<open>A write that the library has not taken, and one that it has.\<close>

lemma write_wants:
  assumes out: "outgoing x s out" "out \<noteq> []"
    and w: "o_write L (offered s out) (int (length (offered s out))) (x_lib x) = (rv, lib)" "rv < 0"
    and nb: "\<not> x_flag x REDIS_BLOCK"
    and c: "maybeCheckWant L (s\<lparr>lastLen := length (offered s out)\<rparr>) (o_get_error L rv lib) = (True, s')"
  shows "sslBufferWrite A lc L x = Some (REDIS_OK, Some False, (ssl_after L lib x)\<lparr>x_ssl := Some s'\<rparr>)"
proof -
  obtain ob where ob: "x_ssl x = Some s" "c_err (k_ctx (x_conn x)) = 0" "x_flag x REDIS_SSL"
    "c_obuf (k_ctx (x_conn x)) = Ptr ob" "sds_ok ob" "sds_str ob = out" "sdslen ob = length out"
    "ssl_offer s ob = Some (length (offered s out), offered s out)" "length (offered s out) < 2 ^ 31"
    by (rule outgoingE [OF out(1)])
  have "sslWrite lc L x = Some (0, (ssl_after L lib x)\<lparr>x_ssl := Some s'\<rparr>)"
    using ob w nb c by (simp add: sslWrite_def Let_def to_int_nat)
  with ob out(2) show ?thesis by (simp add: sslBufferWrite_def Let_def ssl_after_def)
qed

lemma write_takes:
  assumes out: "outgoing x s out" "out \<noteq> []" and A: "\<And>n. grants A n"
    and w: "o_write L (offered s out) (int (length (offered s out))) (x_lib x) = (int m, lib)"
      "0 < m" "m \<le> length out"
  shows "\<exists>x'. sslBufferWrite A lc L x = Some (REDIS_OK, Some (m = length out), x') \<and>
    outgoing x' (s\<lparr>lastLen := 0\<rparr>) (drop m out) \<and> x_lib x' = lib \<and> c_flags (k_ctx (x_conn x')) = c_flags (k_ctx (x_conn x))"
proof -
  obtain ob where ob: "x_ssl x = Some s" "c_err (k_ctx (x_conn x)) = 0" "x_flag x REDIS_SSL"
    "c_obuf (k_ctx (x_conn x)) = Ptr ob" "sds_ok ob" "sds_str ob = out" "sdslen ob = length out"
    "ssl_offer s ob = Some (length (offered s out), offered s out)" "length (offered s out) < 2 ^ 31"
    by (rule outgoingE [OF out(1)])
  let ?x = "(ssl_after L lib x)\<lparr>x_ssl := Some (s\<lparr>lastLen := 0\<rparr>)\<rparr>"
  have int: "to_int (int (length out)) = int (length out)" "length out < 2 ^ 31"
    using out(1) by (auto simp: outgoing_def to_int_nat)
  have "sslWrite lc L x = Some (int m, ?x)"
    using ob w by (simp add: sslWrite_def Let_def to_int_nat)
  then have bw: "sslBufferWrite A lc L x = do {
      ob \<leftarrow> (if m = length out then sdsempty A else do { s \<leftarrow> sdsrange ob (int m) (- 1); Some (Ptr s) });
      s \<leftarrow> deref ob;
      Some (REDIS_OK, Some (sdslen s = 0), ?x\<lparr>x_conn := (x_conn ?x)\<lparr>k_ctx := (k_ctx (x_conn ?x))\<lparr>c_obuf := ob\<rparr>\<rparr>\<rparr>) }"
    using ob out(2) int w(2) by (simp add: sslBufferWrite_def Let_def sdsfree_def)
  have "\<exists>ob'. (if m = length out then sdsempty A else do { s \<leftarrow> sdsrange ob (int m) (- 1); Some (Ptr s) }) = Some (Ptr ob') \<and>
    sds_ok ob' \<and> sds_str ob' = drop m out"
  proof (cases "m = length out")
    case True
    then show ?thesis using sdsempty_granted [OF A] by (metis drop_all order_refl)
  next
    case False
    then show ?thesis
      using sdsrange_spec [OF ob(5), of "int m" "- 1"] ob(6,7) int w(2,3) by (auto simp: slice_drop)
  qed
  then obtain ob' where ob': "(if m = length out then sdsempty A else do { s \<leftarrow> sdsrange ob (int m) (- 1); Some (Ptr s) }) = Some (Ptr ob')"
    "sds_ok ob'" "sds_str ob' = drop m out" by blast
  have "sdslen ob' = length out - m" using length_sds_str [OF ob'(2)] ob'(3) by simp
  with w(3) have empty: "sdslen ob' = 0 \<longleftrightarrow> m = length out" by auto
  show ?thesis
    using bw ob' empty outgoing_wrote [OF out(1) ob'(2,3), of "s\<lparr>lastLen := 0\<rparr>" L lib] int(2)
    by (intro exI [of _ "with_obuf ?x ob'"]) simp
qed

lemma offered_again:
  assumes "lastLen s' = length (offered s out)" "out \<noteq> []" "lastLen s \<le> length out"
  shows "offered s' (out @ extra) = offered s out"
  using assms by (auto simp: offered_def)

lemma maybeCheckWant_lastLen: "maybeCheckWant L s e = (w, s') \<Longrightarrow> lastLen s' = lastLen s"
  by (auto simp: maybeCheckWant_def split: if_splits)

lemma maybeCheckWant_wants: "e = o_WANT_READ L \<or> e = o_WANT_WRITE L \<Longrightarrow> \<exists>s'. maybeCheckWant L s e = (True, s')"
  by (auto simp: maybeCheckWant_def)

text \<open>C24: a write that the library has not taken is repeated as the library demands, with the same bytes, whatever is
  appended to the output buffer before: \<^verbatim>\<open>redisBufferWrite\<close> succeeds and keeps the buffer, after
  \<^verbatim>\<open>sdscatlen\<close> has added to it the next \<^verbatim>\<open>SSL_write\<close> is given the chunk of the first one, and when it takes it
  exactly these bytes leave the buffer.\<close>

theorem ssl_write_repeated:
  assumes "outgoing x s out" "out \<noteq> []" "\<not> x_flag x REDIS_BLOCK" "\<And>n. grants A n"
    "o_write L (offered s out) (int (length (offered s out))) (x_lib x) = (rv, lib)" "rv < 0"
    "o_get_error L rv lib \<in> {o_WANT_READ L, o_WANT_WRITE L}"
    "c_obuf (k_ctx (x_conn x)) = Ptr ob" "sdscatlen A ob extra (length extra) = Some (Moved ob')"
    "length out + length extra < 2 ^ 31"
    "o_write L (offered s out) (int (length (offered s out))) lib = (int (length (offered s out)), lib2)"
  shows "\<exists>x1 x2. sslBufferWrite A lc L x = Some (REDIS_OK, Some False, x1) \<and>
    c_obuf (k_ctx (x_conn x1)) = Ptr ob \<and> x_lib x1 = lib \<and>
    sslBufferWrite A lc L (with_obuf x1 ob') =
      Some (REDIS_OK, Some (length (offered s out) = length out + length extra), x2) \<and>
    (\<exists>s2. outgoing x2 s2 (drop (length (offered s out)) (out @ extra)) \<and> lastLen s2 = 0) \<and> x_lib x2 = lib2"
proof -
  let ?n = "length (offered s out)"
  have last: "lastLen s \<le> length out" using assms(1) by (simp add: outgoing_def)
  have n: "0 < ?n" "?n \<le> length out" using assms(2) last by (auto simp: offered_def)
  obtain s1 where s1: "maybeCheckWant L (s\<lparr>lastLen := ?n\<rparr>) (o_get_error L rv lib) = (True, s1)"
    using maybeCheckWant_wants assms(7) by blast
  let ?x1 = "(ssl_after L lib x)\<lparr>x_ssl := Some s1\<rparr>"
  have w: "sslBufferWrite A lc L x = Some (REDIS_OK, Some False, ?x1)"
    by (rule write_wants [OF assms(1,2,5,6,3) s1])
  have ob: "sds_ok ob" "sds_str ob = out" using assms(1,8) by (auto simp: outgoing_def)
  have len: "sdslen ob = length out" using length_sds_str [OF ob(1)] ob(2) by simp
  have ob': "sds_ok ob'" "sds_str ob' = out @ extra"
    using sds_cat_appends [OF ob(1), of "length extra" extra A] assms(9,10) ob(2) len by auto
  have out1: "outgoing (with_obuf ?x1 ob') s1 (out @ extra)"
    using outgoing_wrote [OF assms(1) ob', of s1 L lib] maybeCheckWant_lastLen [OF s1] n assms(10) by simp
  have again: "offered s1 (out @ extra) = offered s out"
    using offered_again [of s1 s out extra] maybeCheckWant_lastLen [OF s1] assms(2) last by simp
  from write_takes [OF out1 _ assms(4), of L ?n lib2 lc] assms(2,11) n again obtain x2
    where "sslBufferWrite A lc L (with_obuf ?x1 ob') = Some (REDIS_OK, Some (?n = length (out @ extra)), x2)"
      "outgoing x2 (s1\<lparr>lastLen := 0\<rparr>) (drop ?n (out @ extra))" "x_lib x2 = lib2"
    by auto
  with w assms(8) show ?thesis by (intro exI [of _ ?x1] exI [of _ x2]) auto
qed

lemma demo_outgoing:
  assumes "f AND REDIS_SSL \<noteq> 0" "length out < 256"
  shows "outgoing (demo_ssl_conn f out rs) idle_ssl out" "offered idle_ssl out = out"
  using assms by (auto simp: outgoing_def flag_def sds_of offered_def idle_ssl_def)

theorem ssl_write_repeated_witness:
  "\<exists>x1 ob' x2. sslBufferWrite roomy demo_libc (demo_ssl 3) (demo_ssl_conn REDIS_SSL ''ab'' [- 1, 2]) =
      Some (REDIS_OK, Some False, x1) \<and>
    sdscatlen roomy (sds_of ''ab'') ''cd'' 2 = Some (Moved ob') \<and>
    sslBufferWrite roomy demo_libc (demo_ssl 3) (with_obuf x1 ob') = Some (REDIS_OK, Some False, x2) \<and>
    (\<exists>s2. outgoing x2 s2 ''cd'')"
proof -
  obtain ob' where ob': "sdscatlen roomy (sds_of ''ab'') ''cd'' 2 = Some (Moved ob')"
    using sdscatlen_granted [of "sds_of ''ab''" 2 "''cd''" roomy] by (auto simp: sds_of)
  have "\<not> x_flag (demo_ssl_conn REDIS_SSL ''ab'' [- 1, 2]) REDIS_BLOCK" by (simp add: flag_def flag_defs)
  from ssl_write_repeated [OF demo_outgoing(1) _ this, where A = roomy and L = "demo_ssl 3" and rv = "- 1" and lib = "[2]"
      and ob = "sds_of ''ab''" and extra = "''cd''" and ob' = ob' and ?lib2.0 = "[]" and lc = demo_libc]
    demo_outgoing(2) [of REDIS_SSL "''ab''"] ob' ob' [unfolded numeral_2_eq_2]
  show ?thesis by (auto simp: demo_ssl_def REDIS_SSL_def)
qed

section \<open>A connection that was closed\<close>

lemma write_closed:
  assumes "outgoing x s out" "out \<noteq> []" "\<And>bs n lib. fst (o_write L bs n lib) = 0"
  shows "\<exists>lib. sslBufferWrite A lc L x = Some (REDIS_OK, Some False, ssl_after L lib x)"
proof -
  obtain ob where ob: "x_ssl x = Some s" "c_err (k_ctx (x_conn x)) = 0" "x_flag x REDIS_SSL"
    "c_obuf (k_ctx (x_conn x)) = Ptr ob" "sds_ok ob" "sds_str ob = out" "sdslen ob = length out"
    "ssl_offer s ob = Some (length (offered s out), offered s out)" "length (offered s out) < 2 ^ 31"
    by (rule outgoingE [OF assms(1)])
  obtain lib where w: "o_write L (offered s out) (int (length (offered s out))) (x_lib x) = (0, lib)"
    using assms(3) [of "offered s out" "int (length (offered s out))" "x_lib x"] by (metis prod.collapse)
  have "sslWrite lc L x = Some (0, ssl_after L lib x)"
    using ob w by (simp add: sslWrite_def Let_def to_int_nat)
  with ob assms(2) show ?thesis by (intro exI [of _ lib]) (simp add: sslBufferWrite_def Let_def ssl_after_def)
qed

lemmas ssl_write_until_done_induct =
  ssl_write_until_done.raw_induct [where xa = "(((A, lc), L), x)", unfolded prod.case] for A lc L x

lemma write_until_closed:
  "ssl_write_until_done A lc L x = Some r \<Longrightarrow>
    (\<forall>bs n lib. fst (o_write L bs n lib) = 0) \<longrightarrow> outgoing x s out \<longrightarrow> out = []"
proof (induction rule: ssl_write_until_done_induct [rotated, consumes 1, case_names step])
  case (step f A lc L x r)
  show ?case
  proof (intro impI, rule ccontr)
    assume z: "\<forall>bs n lib. fst (o_write L bs n lib) = 0" and o: "outgoing x s out" "out \<noteq> []"
    obtain lib where w: "sslBufferWrite A lc L x = Some (REDIS_OK, Some False, ssl_after L lib x)"
      using write_closed [OF o] z by blast
    with step(2) have "f A lc L (ssl_after L lib x) = Some r" by (simp add: redis_err_defs)
    moreover have "outgoing (ssl_after L lib x) s out" using o(1) by (auto simp: outgoing_def flag_def)
    ultimately show False using step(1) z o(2) by blast
  qed
qed

text \<open>C33: when the peer has closed the connection and \<^verbatim>\<open>SSL_write\<close> returns 0, the loop of \<^verbatim>\<open>redisGetReply\<close> that
  empties the output buffer does not end: the result is neither an error nor progress, for \<^verbatim>\<open>redisSslWrite\<close> reports
  a 0 as if there were nothing wrong, where \<^verbatim>\<open>redisSslRead\<close> reports that the server closed the connection.\<close>

theorem ssl_closed_write_spins:
  assumes "outgoing x s out" "out \<noteq> []" "\<And>bs n lib. fst (o_write L bs n lib) = 0"
  shows "ssl_write_until_done A lc L x = None"
  using write_until_closed [of A lc L x _ s out] assms by (cases "ssl_write_until_done A lc L x") auto

theorem ssl_closed_write_spins_witness:
  "ssl_write_until_done roomy demo_libc ((demo_ssl 3)\<lparr>o_write := \<lambda>_ _ lib. (0, lib)\<rparr>)
     (demo_ssl_conn (REDIS_BLOCK OR REDIS_SSL) ''ab'' []) = None"
  by (rule ssl_closed_write_spins [OF demo_outgoing(1)]) (simp_all add: REDIS_SSL_def REDIS_BLOCK_def)

section \<open>Creating a connection\<close>

definition set_up :: "'o ssl_conn \<Rightarrow> (bool \<times> 'o ssl_conn) option \<Rightarrow> bool" where
  "set_up x r \<longleftrightarrow> (\<exists>ok x'. r = Some (ok, x') \<and> x_ssl x' = x_ssl x \<and> (c_err (k_ctx (x_conn x')) = 0 \<longleftrightarrow> ok))"

lemma ssl_step_keeps:
  "ssl_step L c x = (r, x') \<Longrightarrow> x_ssl x' = x_ssl x" "ssl_step L c x = (r, x') \<Longrightarrow> k_ctx (x_conn x') = k_ctx (x_conn x)"
  by (auto simp: ssl_step_def split: prod.splits)

lemma ssl_error_sets:
  assumes "type \<noteq> 0"
  obtains x' where "ssl_error lc x type (Some m) = Some x'" "x_ssl x' = x_ssl x" "c_err (k_ctx (x_conn x')) = type"
  using assms by (simp add: ssl_error_def set_error_def redisSetError_def)

lemma ssl_must_sets:
  assumes "c_err (k_ctx (x_conn x)) = 0"
  shows "set_up x (ssl_must lc L c m x)"
proof -
  obtain r x1 where s: "ssl_step L c x = (r, x1)" by fastforce
  obtain x2 where "ssl_error lc x1 REDIS_ERR (Some m) = Some x2" "x_ssl x2 = x_ssl x1" "c_err (k_ctx (x_conn x2)) = REDIS_ERR"
    by (rule ssl_error_sets [of REDIS_ERR lc x1 m]) (auto simp: redis_err_defs)
  with s assms ssl_step_keeps [OF s] show ?thesis by (simp add: ssl_must_def set_up_def redis_err_defs)
qed

lemma ssl_musts_set: "c_err (k_ctx (x_conn x)) = 0 \<Longrightarrow> set_up x (ssl_musts lc L cs x)"
proof (induction cs arbitrary: x rule: list.induct)
  case (Cons a cs)
  obtain c m where a: "a = (c, m)" by (cases a)
  obtain ok x1 where x1: "ssl_must lc L c m x = Some (ok, x1)" "x_ssl x1 = x_ssl x" "c_err (k_ctx (x_conn x1)) = 0 \<longleftrightarrow> ok"
    using ssl_must_sets [OF Cons.prems, of lc L c m] by (auto simp: set_up_def)
  with Cons.IH [of x1] a show ?case by (cases ok) (auto simp: set_up_def)
qed (auto simp: set_up_def)

lemma ssl_connect_outcome:
  assumes "x_ssl x = Some s" "ssl_ssl s" "ssl_ctx s" "c_err (k_ctx (x_conn x)) = 0"
  shows "\<exists>rc x'. ssl_connect lc L x = Some (rc, x') \<and> x_ssl x' = Some s \<and>
    (if c_err (k_ctx (x_conn x')) = 0 then rc = REDIS_OK \<and> x_flag x' REDIS_SSL else rc = REDIS_ERR)"
proof -
  obtain u x1 where x1: "ssl_step L (Set_fd (c_fd (k_ctx (x_conn x)))) x = (u, x1)" by fastforce
  let ?c = "k_ctx (x_conn x1)"
  let ?x2 = "x1\<lparr>x_conn := (x_conn x1)\<lparr>k_ctx := ?c\<lparr>c_flags := or (c_flags ?c) REDIS_SSL\<rparr>\<rparr>\<rparr>"
  obtain rv x3 where x3: "ssl_step L SSL_connect ?x2 = (rv, x3)" by fastforce
  have or_and_absorb: "(f OR m) AND m = m" for f m :: "32 word" by (auto simp: bit_eq_iff bit_simps)
  have REDIS_SSL_nonzero: "REDIS_SSL \<noteq> 0" by (simp add: REDIS_SSL_def)
  have k: "c_err (k_ctx (x_conn x3)) = 0" "x_ssl x3 = Some s" "x_flag x3 REDIS_SSL"
    using ssl_step_keeps [OF x1] ssl_step_keeps [OF x3] assms
    by (auto simp: flag_def or_and_absorb REDIS_SSL_nonzero)
  obtain x4 where x4: "ssl_error lc x3 REDIS_ERR_IO (Some ''SSL_connect() failed'') = Some x4" "x_ssl x4 = x_ssl x3"
    "c_err (k_ctx (x_conn x4)) = REDIS_ERR_IO"
    by (rule ssl_error_sets [of REDIS_ERR_IO lc x3]) (auto simp: redis_err_defs)
  show ?thesis
    using x1 x3 x4 k by (simp add: ssl_connect_def Let_def redis_err_defs)
qed

text \<open>\<^verbatim>\<open>redisSslCreate\<close> returns with \<^verbatim>\<open>c->ssl\<close> set: \<^verbatim>\<open>REDIS_OK\<close> without an error, with the OpenSSL
  instance in place and \<^verbatim>\<open>REDIS_SSL\<close> set, or \<^verbatim>\<open>REDIS_ERR\<close> with the error in the context, whichever of the calls of the
  library fail.\<close>

lemma ssl_create_outcome:
  assumes "x_ssl x = None" "grants A 32" "c_err (k_ctx (x_conn x)) = 0" "fst (o_call L CTX_new (x_lib x)) \<noteq> 0"
  shows "\<exists>rc x' s. sslCreate A lc L x capath certpath keypath servername = Some (rc, x') \<and> x_ssl x' = Some s \<and> ssl_ctx s \<and>
    (if c_err (k_ctx (x_conn x')) = 0 then rc = REDIS_OK \<and> ssl_ssl s \<and> x_flag x' REDIS_SSL else rc = REDIS_ERR)"
proof -
  let ?s = "\<lparr>ssl_ssl = False, ssl_ctx = True, lastLen = 0, wantRead = False, pendingWrite = False\<rparr>"
  obtain r x0 where r: "ssl_step L CTX_new x = (r, x0)" by fastforce
  then have "r \<noteq> 0" using assms(4) by (auto simp: ssl_step_def split: prod.splits)
  have x0: "c_err (k_ctx (x_conn x0)) = 0" using ssl_step_keeps [OF r] assms(3) by simp
  let ?x = "x0\<lparr>x_ssl := Some ?s\<rparr>"
  let ?cs = "(case capath of None \<Rightarrow> [] | Some p \<Rightarrow> [(Load_verify_locations p, ''Invalid CA certificate'')]) @
     (case (certpath, keypath) of
        (Some c, Some k) \<Rightarrow> [(Use_certificate_chain c, ''Invalid client certificate''), (Use_private_key k, ''Invalid client key'')]
      | _ \<Rightarrow> []) @ [(SSL_new, ''Couldn't create new SSL instance'')]"
  let ?ds = "case servername of None \<Rightarrow> [] | Some n \<Rightarrow> [(Set_host_name n, ''Couldn't set server name indication'')]"
  obtain ok1 x1 where x1: "ssl_musts lc L ?cs ?x = Some (ok1, x1)" "x_ssl x1 = Some ?s" "c_err (k_ctx (x_conn x1)) = 0 \<longleftrightarrow> ok1"
    using ssl_musts_set [of ?x lc L ?cs] x0 by (auto simp: set_up_def)
  let ?t = "?s\<lparr>ssl_ssl := True\<rparr>" and ?x1 = "x1\<lparr>x_ssl := Some (?s\<lparr>ssl_ssl := True\<rparr>)\<rparr>"
  let ?bad = "certpath \<noteq> None \<and> keypath = None \<or> keypath \<noteq> None \<and> certpath = None"
  obtain xb where xb: "ssl_error lc ?x REDIS_ERR (Some ''certpath and keypath must be specified together'') = Some xb"
    "x_ssl xb = Some ?s" "c_err (k_ctx (x_conn xb)) = REDIS_ERR"
    by (rule ssl_error_sets [of REDIS_ERR lc ?x]) (auto simp: redis_err_defs)
  have start: "sslCreate A lc L x capath certpath keypath servername =
    (if ?bad then Some (REDIS_ERR, xb) else if \<not> ok1 then Some (REDIS_ERR, x1) else do {
       (ok, x) \<leftarrow> ssl_musts lc L ?ds ?x1;
       if \<not> ok then Some (REDIS_ERR, x) else ssl_connect lc L x })"
    using assms(1,2) r \<open>r \<noteq> 0\<close> xb(1) x1(1,2) by (auto simp add: sslCreate_def Let_def)
  show ?thesis
  proof (cases "?bad \<or> \<not> ok1")
    case True
    then show ?thesis using start xb x1 by (auto simp: redis_err_defs)
  next
    case False
    then have "c_err (k_ctx (x_conn ?x1)) = 0" using x1(3) by simp
    then obtain ok2 x2 where x2: "ssl_musts lc L ?ds ?x1 = Some (ok2, x2)" "x_ssl x2 = Some ?t" "c_err (k_ctx (x_conn x2)) = 0 \<longleftrightarrow> ok2"
      using ssl_musts_set [of ?x1 lc L ?ds] by (auto simp: set_up_def)
    show ?thesis
    proof (cases ok2)
      case True
      then obtain rc x' where c: "ssl_connect lc L x2 = Some (rc, x')" "x_ssl x' = Some ?t"
        "if c_err (k_ctx (x_conn x')) = 0 then rc = REDIS_OK \<and> x_flag x' REDIS_SSL else rc = REDIS_ERR"
        using ssl_connect_outcome [OF x2(2), of lc L] x2(3) by auto
      have "sslCreate A lc L x capath certpath keypath servername = Some (rc, x')"
        using start False x2(1) \<open>ok2\<close> c(1) by auto
      with c(2,3) show ?thesis by (intro exI [of _ rc] exI [of _ x'] exI [of _ ?t]) simp
    qed (use False start x2 in auto)
  qed
qed

theorem ssl_create_outcome_witness:
  "\<exists>rc x' s. sslCreate roomy demo_libc (demo_ssl 3) ((demo_ssl_conn REDIS_BLOCK [] [])\<lparr>x_ssl := None\<rparr>)
      None (Some ''cert'') (Some ''key'') (Some ''host'') = Some (rc, x') \<and> x_ssl x' = Some s \<and> ssl_ctx s \<and>
    (if c_err (k_ctx (x_conn x')) = 0 then rc = REDIS_OK \<and> ssl_ssl s \<and> x_flag x' REDIS_SSL else rc = REDIS_ERR)"
  by (rule ssl_create_outcome) (simp_all add: demo_ssl_def)

section \<open>Events\<close>

text \<open>The connection of an asynchronous context.\<close>

abbreviation async_ssl_conn :: "'o ssl_async \<Rightarrow> 'o ssl_conn" where
  "async_ssl_conn y \<equiv> \<lparr>x_conn = a_c (y_ac y), x_ssl = Some (y_ssl y), x_lib = y_lib y\<rparr>"

lemma outgoing_pending: "outgoing x s out \<Longrightarrow> outgoing (x\<lparr>x_ssl := Some (s\<lparr>pendingWrite := b\<rparr>)\<rparr>) (s\<lparr>pendingWrite := b\<rparr>) out"
  by (auto simp: outgoing_def flag_def)

lemma offered_pending [simp]: "offered (s\<lparr>pendingWrite := b\<rparr>) out = offered s out"
  by (simp add: offered_def)

lemma maybeCheckWant_read: "maybeCheckWant L s e = (w, s') \<Longrightarrow> wantRead s \<Longrightarrow> wantRead s'"
  by (auto simp: maybeCheckWant_def split: if_splits)

lemma EL_log:
  "a_delWrite ac \<Longrightarrow> a_log (EL_DEL_WRITE ac) = a_log ac @ [Del_write]"
  "a_c (EL_DEL_WRITE ac) = a_c ac" "a_c (EL_ADD_READ ac) = a_c ac"
  "\<exists>es. a_log (EL_ADD_READ ac) = a_log ac @ es \<and> Add_write \<notin> set es"
  by (auto simp: EL_DEL_WRITE_def EL_ADD_READ_def notify_def refreshTimeout_def Let_def split: ptr.splits)

text \<open>A read that wants more data leaves \<^verbatim>\<open>wantRead\<close> set behind it.\<close>

lemma sslRead_wants:
  assumes "x_ssl x = Some s" "o_read L (to_int (int n)) (x_lib x) = (r, bs, lib)" "r < 0" "\<not> x_flag x REDIS_BLOCK"
    "o_get_error L r lib = o_WANT_READ L"
  shows "sslRead lc L x n = Some (0, [], (ssl_after L lib x)\<lparr>x_ssl := Some (s\<lparr>wantRead := True\<rparr>)\<rparr>)"
  using assms by (simp add: sslRead_def maybeCheckWant_def Let_def)

text \<open>C34: a write handler that finds \<^verbatim>\<open>wantRead\<close> left set by an earlier read stops waiting for the socket to become
  writable, even when the library has just asked for exactly that: with bytes still to be sent
  and \<^verbatim>\<open>SSL_ERROR_WANT_WRITE\<close>, \<^verbatim>\<open>redisAsyncHandleWrite\<close> unregisters from write events and does not register again. Only data from
  the server can wake the connection up.\<close>

theorem ssl_want_write_stalls:
  assumes "outgoing (async_ssl_conn y) (y_ssl y) out" "out \<noteq> []" "\<not> has (y_ac y) REDIS_BLOCK" "wantRead (y_ssl y)"
    "o_write L (offered (y_ssl y) out) (int (length (offered (y_ssl y) out))) (y_lib y) = (rv, lib)" "rv < 0"
    "o_get_error L rv lib = o_WANT_WRITE L" "a_delWrite (y_ac y)" "has (y_ac y) REDIS_CONNECTED"
  shows "\<exists>y' es. sslHandleWrite A lc user L y = Some (Ssl_live y') \<and> c_obuf (k_ctx (a_c (y_ac y'))) = c_obuf (k_ctx (a_c (y_ac y))) \<and>
    a_log (y_ac y') = a_log (y_ac y) @ Del_write # es \<and> Add_write \<notin> set es"
proof -
  let ?s = "(y_ssl y)\<lparr>pendingWrite := False\<rparr>" and ?n = "length (offered (y_ssl y) out)"
  let ?x = "(async_ssl_conn y)\<lparr>x_ssl := Some ?s\<rparr>"
  obtain s1 where s1: "maybeCheckWant L (?s\<lparr>lastLen := ?n\<rparr>) (o_WANT_WRITE L) = (True, s1)" "wantRead s1"
    using maybeCheckWant_wants [of "o_WANT_WRITE L" L "?s\<lparr>lastLen := ?n\<rparr>"] maybeCheckWant_read assms(4)
    by fastforce
  have "sslBufferWrite A lc L ?x = Some (REDIS_OK, Some False, (ssl_after L lib ?x)\<lparr>x_ssl := Some s1\<rparr>)"
    by (rule write_wants [OF outgoing_pending [OF assms(1)] assms(2) _ assms(6)]) (use assms(3,5,7) s1(1) in simp_all)
  then have "asyncSslWrite A lc user L y = Some (Ssl_live (y_event EL_ADD_READ (y_event EL_DEL_WRITE
      \<lparr>y_ac = (y_ac y)\<lparr>a_c := x_conn (ssl_after L lib ?x)\<rparr>, y_ssl = s1\<lparr>pendingWrite := True\<rparr>, y_lib = lib\<rparr>)))"
    using s1(2) by (simp add: asyncSslWrite_def on_async_def redis_err_defs)
  then have "sslHandleWrite A lc user L y = Some (Ssl_live (y_event EL_ADD_READ (y_event EL_DEL_WRITE
      \<lparr>y_ac = (y_ac y)\<lparr>a_c := x_conn (ssl_after L lib ?x)\<rparr>, y_ssl = s1\<lparr>pendingWrite := True\<rparr>, y_lib = lib\<rparr>)))"
    using assms(1,9) by (simp add: sslHandleWrite_def connect_first_def outgoing_def)
  with assms(8) EL_log show ?thesis
    using EL_log(4) [of "EL_DEL_WRITE ((y_ac y)\<lparr>a_c := x_conn (ssl_after L lib ?x)\<rparr>)"] by auto
qed

theorem ssl_want_write_stalls_witness:
  "\<exists>y' es. sslHandleWrite roomy demo_libc (\<lambda>_ _ _ _. None) (demo_ssl 3)
      \<lparr>y_ac = (demo_async [] (one_callback 5 7))\<lparr>a_c := x_conn (demo_ssl_conn (REDIS_CONNECTED OR REDIS_SSL) ''ab'' [])\<rparr>,
       y_ssl = idle_ssl\<lparr>wantRead := True\<rparr>, y_lib = [- 1]\<rparr> = Some (Ssl_live y') \<and> a_log (y_ac y') = Del_write # es \<and> Add_write \<notin> set es"
proof -
  let ?y = "\<lparr>y_ac = (demo_async [] (one_callback 5 7))\<lparr>a_c := x_conn (demo_ssl_conn (REDIS_CONNECTED OR REDIS_SSL) ''ab'' [])\<rparr>,
       y_ssl = idle_ssl\<lparr>wantRead := True\<rparr>, y_lib = [- 1]\<rparr>"
  have "outgoing (async_ssl_conn ?y) (y_ssl ?y) ''ab''" "offered (y_ssl ?y) ''ab'' = ''ab''"
    by (auto simp: outgoing_def offered_def idle_ssl_def sds_of flag_def flag_defs REDIS_SSL_def)
  from ssl_want_write_stalls [OF this(1), of "demo_ssl 3" "- 1" "[]" roomy demo_libc "\<lambda>_ _ _ _. None"] this(2)
  show ?thesis by (auto simp: demo_ssl_def demo_async_def flag_def flag_defs REDIS_SSL_def)
qed

end
