(* ===== verification/Wrapper.thy ===== *)
theory Wrapper
  imports Context
begin

text \<open>
  The layer of C++ over the connection: \<^verbatim>\<open>CCommand\<close> (\<^verbatim>\<open>MCRedis/Command.h\<close>), \<^verbatim>\<open>CReply\<close>
  (\<^verbatim>\<open>MCRedis/Reply.h\<close>, \<^verbatim>\<open>src/Reply.cpp\<close>) and \<^verbatim>\<open>CConnection\<close> (\<^verbatim>\<open>MCRedis/Connection.h\<close>,
  \<^verbatim>\<open>src/Connection.cpp\<close>). A \<^verbatim>\<open>unique_ptr\<close> owns its object, so it is the object itself, or
  \<^theory_text>\<open>None\<close>. An exception that leaves a function declared \<^verbatim>\<open>noexcept\<close> ends the program, which is
  \<^theory_text>\<open>None\<close>, as undefined behaviour is. The containers of the C++ library get the memory they ask for.
\<close>

section \<open>The world\<close>

text \<open>
  What all connections share: the scripts of the operating system, one for every context that is made;
  the final states of those that were freed, the last one first; the number of live objects of type
  \<^verbatim>\<open>CConnection\<close>; and the values that \<^verbatim>\<open>std::rand\<close> returns.
\<close>

record world =
  w_nets :: "net list"
  w_closed :: "net list"
  w_objects :: nat
  w_rand :: "nat list"

section \<open>Commands (Command.h)\<close>

text \<open>
  An argument of the constructor: a \<^verbatim>\<open>std::string\<close>, a number of an integer type, one of a floating
  type with the text that \<^verbatim>\<open>std::to_string\<close> makes of it, an enumerator, or a C string.
\<close>

datatype cpp_arg = Str bytes | Arithmetic int | Floating bytes | Enum int | CStr "bytes ptr"

text \<open>The pointers to the characters, their sizes, and the strings that own the characters.\<close>

record CCommand =
  lstCommand :: "bytes ptr list"
  lstCommandSize :: "nat list"
  lstCommandBuffer :: "bytes list"

definition c_str :: "bytes \<Rightarrow> bytes ptr" where
  "c_str s = Ptr (s @ [NUL])"

text \<open>\<^verbatim>\<open>std::string(p)\<close>: the characters before the first NUL.\<close>

definition std_string :: "bytes ptr \<Rightarrow> bytes option" where
  "std_string p = do { s \<leftarrow> deref p; n \<leftarrow> c_strlen s; Some (take n s) }"

definition expandArgumentStr :: "nat \<Rightarrow> bytes \<Rightarrow> CCommand \<Rightarrow> CCommand" where
  "expandArgumentStr i str c =
     c\<lparr>lstCommandBuffer := (lstCommandBuffer c)[i := str],
       lstCommand := (lstCommand c)[i := c_str str],
       lstCommandSize := (lstCommandSize c)[i := length str]\<rparr>"

text \<open>The text of an argument, by the overload of \<^verbatim>\<open>_expandArgument\<close> that takes it.\<close>

fun argument_text :: "cpp_arg \<Rightarrow> bytes option" where
  "argument_text (Str s) = Some s"
| "argument_text (Arithmetic i) = Some (sdec i)"
| "argument_text (Floating s) = Some s"
| "argument_text (Enum e) = Some (dec (unat (word_of_int e :: 32 word)))"
| "argument_text (CStr p) = std_string p"

fun expandArgument :: "nat \<Rightarrow> cpp_arg list \<Rightarrow> CCommand \<Rightarrow> CCommand option" where
  "expandArgument i [] c = Some c"
| "expandArgument i (arg # args) c = do {
     str \<leftarrow> argument_text arg;
     expandArgument (i + 1) args (expandArgumentStr i str c)
   }"

definition make_CCommand :: "cpp_arg list \<Rightarrow> CCommand option" where
  "make_CCommand args = expandArgument 0 args
     \<lparr>lstCommand = replicate (length args) Null, lstCommandSize = replicate (length args) 0,
      lstCommandBuffer = replicate (length args) []\<rparr>"

text \<open>
  The move constructor: the new command, and what is left of the old one. Its sizes and strings are
  gone, its pointers are not: they point to characters that belong to the new command.
\<close>

definition move_CCommand :: "CCommand \<Rightarrow> CCommand \<times> CCommand" where
  "move_CCommand rhs =
     (\<lparr>lstCommand = map c_str (lstCommandBuffer rhs), lstCommandSize = lstCommandSize rhs,
       lstCommandBuffer = lstCommandBuffer rhs\<rparr>,
      \<lparr>lstCommand = map (\<lambda>_. Dangling) (lstCommand rhs), lstCommandSize = [], lstCommandBuffer = []\<rparr>)"

definition getCommand :: "CCommand \<Rightarrow> (bytes ptr \<times> nat) option" where
  "getCommand c =
     (if lstCommand c = [] then Some (Null, 0)
      else do { p \<leftarrow> nth_opt (lstCommand c) 0; n \<leftarrow> nth_opt (lstCommandSize c) 0; Some (p, n) })"

definition getKey :: "CCommand \<Rightarrow> (bytes ptr \<times> nat) option" where
  "getKey c =
     (if length (lstCommand c) < 2 then Some (Null, 0)
      else do { p \<leftarrow> nth_opt (lstCommand c) 1; n \<leftarrow> nth_opt (lstCommandSize c) 1; Some (p, n) })"

section \<open>Replies (Reply.h, Reply.cpp)\<close>

definition EType_STRING :: int where "EType_STRING = 1"
definition EType_ARRAY :: int where "EType_ARRAY = 2"
definition EType_INTEGER :: int where "EType_INTEGER = 3"
definition EType_NIL :: int where "EType_NIL = 4"
definition EType_STATUS :: int where "EType_STATUS = 5"
definition EType_ERROR :: int where "EType_ERROR = 6"
definition EType_ERROR_CLIENT :: int where "EType_ERROR_CLIENT = 7"

lemmas EType_defs = EType_STRING_def EType_ARRAY_def EType_INTEGER_def EType_NIL_def EType_STATUS_def
  EType_ERROR_def EType_ERROR_CLIENT_def

text \<open>The type, the string, the integer and the replies, each with the method that returns it.\<close>

datatype CReply = CReply (getType: int) (getStr: bytes) (getInteger: int) (getReplies: "CReply list")

definition no_reply :: CReply where "no_reply = CReply EType_ERROR [] 0 []"

definition client_error :: "int \<Rightarrow> bytes \<Rightarrow> CReply" where
  "client_error errorNo strError = CReply EType_ERROR_CLIENT strError errorNo []"

text \<open>\<^verbatim>\<open>std::string(p, n)\<close>, which throws for a null pointer and a positive length.\<close>

definition std_string_n :: "bytes ptr \<Rightarrow> nat \<Rightarrow> bytes option" where
  "std_string_n p n = (case p of
     Null \<Rightarrow> if n = 0 then Some [] else None
   | Dangling \<Rightarrow> None
   | Ptr s \<Rightarrow> mem_read s 0 n)"

text \<open>A partial function on every element of a list.\<close>

primrec map_opt :: "('a \<Rightarrow> 'b option) \<Rightarrow> 'a list \<Rightarrow> 'b list option" where
  "map_opt f [] = Some []"
| "map_opt f (x # xs) = do { y \<leftarrow> f x; ys \<leftarrow> map_opt f xs; Some (y # ys) }"

lemma map_opt_mono [partial_function_mono]:
  assumes "\<And>x. mono_option (\<lambda>f. F f x)"
  shows "mono_option (\<lambda>f. map_opt (F f) xs)"
proof (induction xs)
  case (Cons x xs)
  then show ?case unfolding map_opt.simps by (intro bind_mono assms option.const_mono)
qed (simp add: option.const_mono)

partial_function (option) make_CReply :: "heap \<Rightarrow> addr \<Rightarrow> CReply option" where
  "make_CReply h rawReply =
     (if rawReply = 0 then Some no_reply
      else do {
        r \<leftarrow> cell h rawReply;
        if rep_type r = REDIS_REPLY_STRING \<or> rep_type r = REDIS_REPLY_STATUS \<or> rep_type r = REDIS_REPLY_ERROR
        then do {
          s \<leftarrow> std_string_n (rep_str r) (rep_len r);
          Some (CReply (rep_type r) s 0 [])
        }
        else if rep_type r = REDIS_REPLY_INTEGER then Some (CReply (rep_type r) [] (rep_integer r) [])
        else if rep_type r = REDIS_REPLY_ARRAY then
          if rep_elements r = 0 then Some (CReply (rep_type r) [] 0 [])
          else do {
            es \<leftarrow> deref (rep_element r);
            if rep_elements r \<le> length es then do {
              rs \<leftarrow> map_opt (\<lambda>a. make_CReply h a) (take (rep_elements r) es);
              Some (CReply (rep_type r) [] 0 rs)
            }
            else None
          }
        else Some (CReply (rep_type r) [] 0 [])
      })"

section \<open>Connections (Connection.h, Connection.cpp)\<close>

text \<open>The class \<^verbatim>\<open>CImpl\<close>; its constructor leaves the port and the timeout unset.\<close>

record CImpl =
  contextPtr :: "conn option"
  host_name :: bytes
  host_port :: "16 word option"
  timeoutSec :: "32 word option"

record CConnection =
  impl :: CImpl
  slotRange :: "32 word \<times> 32 word"

text \<open>The constructor and the destructor, with \<^verbatim>\<open>new\<close> and \<^verbatim>\<open>delete\<close>.\<close>

definition blank_CConnection :: CConnection where
  "blank_CConnection =
     \<lparr>impl = \<lparr>contextPtr = None, host_name = [], host_port = None, timeoutSec = None\<rparr>, slotRange = (0, - 1)\<rparr>"

definition new_CConnection :: "world \<Rightarrow> CConnection \<times> world" where
  "new_CConnection w = (blank_CConnection, w\<lparr>w_objects := w_objects w + 1\<rparr>)"

definition reset_context :: "conn option \<Rightarrow> world \<Rightarrow> world option" where
  "reset_context p w = (case p of
     None \<Rightarrow> Some w
   | Some k \<Rightarrow> do {
       (h, n) \<leftarrow> redisFree (Ptr (k_ctx k)) (k_heap k) (k_net k);
       Some (w\<lparr>w_closed := n # w_closed w\<rparr>)
     })"

definition delete_CConnection :: "CConnection \<Rightarrow> world \<Rightarrow> world option" where
  "delete_CConnection c w = do {
     w \<leftarrow> reset_context (contextPtr (impl c)) w;
     Some (w\<lparr>w_objects := w_objects w - 1\<rparr>)
   }"

definition reconnect :: "allocator \<Rightarrow> libc \<Rightarrow> CImpl \<Rightarrow> world \<Rightarrow> (bool \<times> CImpl \<times> world) option" where
  "reconnect A lc i w = do {
     sec \<leftarrow> timeoutSec i;
     port \<leftarrow> host_port i;
     host \<leftarrow> std_string (c_str (host_name i));
     let tv = \<lparr>tv_sec = uint sec, tv_usec = 0\<rparr>;
     (n, nets) \<leftarrow> (case w_nets w of [] \<Rightarrow> None | n # nets \<Rightarrow> Some (n, nets));
     let w = w\<lparr>w_nets := nets\<rparr>;
     p \<leftarrow> redisConnectWithTimeout A lc empty_heap n host (uint port) tv;
     w \<leftarrow> reset_context (contextPtr i) w;
     k \<leftarrow> deref p;
     if c_err (k_ctx k) \<noteq> REDIS_OK then do {
       w \<leftarrow> reset_context (Some k) w;
       Some (False, i\<lparr>contextPtr := None\<rparr>, w)
     }
     else if sec \<noteq> 0 then do {
       (_, k) \<leftarrow> redisSetTimeout lc k tv;
       Some (True, i\<lparr>contextPtr := Some k\<rparr>, w)
     }
     else Some (True, i\<lparr>contextPtr := Some k\<rparr>, w)
   }"

definition connect :: "allocator \<Rightarrow> libc \<Rightarrow> CConnection \<Rightarrow> bytes ptr \<Rightarrow> 16 word \<Rightarrow> 32 word \<Rightarrow> world \<Rightarrow>
    (bool \<times> CConnection \<times> world) option" where
  "connect A lc c host port sec w = do {
     host \<leftarrow> std_string host;
     (ok, i, w) \<leftarrow> reconnect A lc ((impl c)\<lparr>host_name := host, host_port := Some port, timeoutSec := Some sec\<rparr>) w;
     Some (ok, c\<lparr>impl := i\<rparr>, w)
   }"

text \<open>Operations on the context of a connection; without one they are undefined.\<close>

definition on_context :: "(conn \<Rightarrow> ('a \<times> conn) option) \<Rightarrow> CConnection \<Rightarrow> ('a \<times> CConnection) option" where
  "on_context f c = do {
     k \<leftarrow> contextPtr (impl c);
     (x, k) \<leftarrow> f k;
     Some (x, c\<lparr>impl := (impl c)\<lparr>contextPtr := Some k\<rparr>\<rparr>)
   }"

text \<open>The argument of \<^verbatim>\<open>setTimeout\<close> is not used: the code reads the member.\<close>

definition setTimeout :: "libc \<Rightarrow> CConnection \<Rightarrow> 32 word \<Rightarrow> (bool \<times> CConnection) option" where
  "setTimeout lc c sec = do {
     own \<leftarrow> timeoutSec (impl c);
     (rc, c) \<leftarrow> on_context (\<lambda>k. redisSetTimeout lc k \<lparr>tv_sec = uint own, tv_usec = 0\<rparr>) c;
     Some (rc \<noteq> REDIS_ERR, c)
   }"

definition setSlotRange :: "CConnection \<Rightarrow> 32 word \<Rightarrow> 32 word \<Rightarrow> CConnection" where
  "setSlotRange c b e = c\<lparr>slotRange := (b, e)\<rparr>"

text \<open>The arguments as C sees them: \<^verbatim>\<open>data()\<close> of an empty vector of sizes is null.\<close>

definition command_sizes :: "CCommand \<Rightarrow> nat list option" where
  "command_sizes cmd = (if lstCommandSize cmd = [] then None else Some (lstCommandSize cmd))"

definition take_reply :: "addr \<Rightarrow> conn \<Rightarrow> (CReply \<times> conn) option" where
  "take_reply rawReply k = do {
     rpy \<leftarrow> make_CReply (k_heap k) rawReply;
     h \<leftarrow> freeReplyObject rawReply (k_heap k);
     Some (rpy, k\<lparr>k_heap := h\<rparr>)
   }"

definition context_error :: "conn \<Rightarrow> CReply" where
  "context_error k = client_error (c_err (k_ctx k)) (c_errstr (k_ctx k))"

definition sendCommand :: "allocator \<Rightarrow> libc \<Rightarrow> CConnection \<Rightarrow> CCommand \<Rightarrow> (CReply \<times> CConnection) option" where
  "sendCommand A lc c cmd = on_context (\<lambda>k. do {
     argv \<leftarrow> map_opt deref (lstCommand cmd);
     (rawReply, k) \<leftarrow> redisCommandArgv A lc k (to_int (int (length (lstCommand cmd)))) argv (command_sizes cmd);
     if rawReply = 0 then Some (context_error k, k) else take_reply rawReply k
   }) c"

definition append_command :: "allocator \<Rightarrow> libc \<Rightarrow> CConnection \<Rightarrow> CCommand \<Rightarrow> (bool \<times> CConnection) option" where
  "append_command A lc c cmd = on_context (\<lambda>k. do {
     argv \<leftarrow> map_opt deref (lstCommand cmd);
     (rc, k) \<leftarrow> redisAppendCommandArgv A lc k (to_int (int (length (lstCommand cmd)))) argv (command_sizes cmd);
     Some (rc \<noteq> REDIS_ERR, k)
   }) c"

definition getReply :: "allocator \<Rightarrow> libc \<Rightarrow> CConnection \<Rightarrow> (CReply \<times> CConnection) option" where
  "getReply A lc c = on_context (\<lambda>k. do {
     (rc, rawReply, k) \<leftarrow> redisGetReply A lc k;
     if rc = REDIS_ERR then Some (context_error k, k) else take_reply rawReply k
   }) c"

definition errorNo :: "CConnection \<Rightarrow> int option" where
  "errorNo c = map_option (\<lambda>k. c_err (k_ctx k)) (contextPtr (impl c))"

definition errorStr :: "CConnection \<Rightarrow> bytes option" where
  "errorStr c = map_option (\<lambda>k. c_errstr (k_ctx k)) (contextPtr (impl c))"

definition isValid :: "CConnection \<Rightarrow> bool" where
  "isValid c \<longleftrightarrow> contextPtr (impl c) \<noteq> None"

end
