(* ===== verification/Hash_Slot.thy ===== *)
theory Hash_Slot
  imports Format
begin

unbundle bit_operations_syntax

text \<open>
  The slot of a key in a cluster: \<^verbatim>\<open>CClusterSupport::getSlot\<close> of \<^verbatim>\<open>src/MiddleWare.cpp\<close>. The checksum by
  table is that of the polynomial \<open>x^16 + x^12 + x^5 + 1\<close> taken bit by bit, and the part of the key that is
  hashed is its tag in braces, if it has one.
\<close>

section \<open>The code\<close>

definition crctable :: "16 word list" where
  "crctable =
   [0x0000, 0x1021, 0x2042, 0x3063, 0x4084, 0x50a5, 0x60c6, 0x70e7,
    0x8108, 0x9129, 0xa14a, 0xb16b, 0xc18c, 0xd1ad, 0xe1ce, 0xf1ef,
    0x1231, 0x0210, 0x3273, 0x2252, 0x52b5, 0x4294, 0x72f7, 0x62d6,
    0x9339, 0x8318, 0xb37b, 0xa35a, 0xd3bd, 0xc39c, 0xf3ff, 0xe3de,
    0x2462, 0x3443, 0x0420, 0x1401, 0x64e6, 0x74c7, 0x44a4, 0x5485,
    0xa56a, 0xb54b, 0x8528, 0x9509, 0xe5ee, 0xf5cf, 0xc5ac, 0xd58d,
    0x3653, 0x2672, 0x1611, 0x0630, 0x76d7, 0x66f6, 0x5695, 0x46b4,
    0xb75b, 0xa77a, 0x9719, 0x8738, 0xf7df, 0xe7fe, 0xd79d, 0xc7bc,
    0x48c4, 0x58e5, 0x6886, 0x78a7, 0x0840, 0x1861, 0x2802, 0x3823,
    0xc9cc, 0xd9ed, 0xe98e, 0xf9af, 0x8948, 0x9969, 0xa90a, 0xb92b,
    0x5af5, 0x4ad4, 0x7ab7, 0x6a96, 0x1a71, 0x0a50, 0x3a33, 0x2a12,
    0xdbfd, 0xcbdc, 0xfbbf, 0xeb9e, 0x9b79, 0x8b58, 0xbb3b, 0xab1a,
    0x6ca6, 0x7c87, 0x4ce4, 0x5cc5, 0x2c22, 0x3c03, 0x0c60, 0x1c41,
    0xedae, 0xfd8f, 0xcdec, 0xddcd, 0xad2a, 0xbd0b, 0x8d68, 0x9d49,
    0x7e97, 0x6eb6, 0x5ed5, 0x4ef4, 0x3e13, 0x2e32, 0x1e51, 0x0e70,
    0xff9f, 0xefbe, 0xdfdd, 0xcffc, 0xbf1b, 0xaf3a, 0x9f59, 0x8f78,
    0x9188, 0x81a9, 0xb1ca, 0xa1eb, 0xd10c, 0xc12d, 0xf14e, 0xe16f,
    0x1080, 0x00a1, 0x30c2, 0x20e3, 0x5004, 0x4025, 0x7046, 0x6067,
    0x83b9, 0x9398, 0xa3fb, 0xb3da, 0xc33d, 0xd31c, 0xe37f, 0xf35e,
    0x02b1, 0x1290, 0x22f3, 0x32d2, 0x4235, 0x5214, 0x6277, 0x7256,
    0xb5ea, 0xa5cb, 0x95a8, 0x8589, 0xf56e, 0xe54f, 0xd52c, 0xc50d,
    0x34e2, 0x24c3, 0x14a0, 0x0481, 0x7466, 0x6447, 0x5424, 0x4405,
    0xa7db, 0xb7fa, 0x8799, 0x97b8, 0xe75f, 0xf77e, 0xc71d, 0xd73c,
    0x26d3, 0x36f2, 0x0691, 0x16b0, 0x6657, 0x7676, 0x4615, 0x5634,
    0xd94c, 0xc96d, 0xf90e, 0xe92f, 0x99c8, 0x89e9, 0xb98a, 0xa9ab,
    0x5844, 0x4865, 0x7806, 0x6827, 0x18c0, 0x08e1, 0x3882, 0x28a3,
    0xcb7d, 0xdb5c, 0xeb3f, 0xfb1e, 0x8bf9, 0x9bd8, 0xabbb, 0xbb9a,
    0x4a75, 0x5a54, 0x6a37, 0x7a16, 0x0af1, 0x1ad0, 0x2ab3, 0x3a92,
    0xfd2e, 0xed0f, 0xdd6c, 0xcd4d, 0xbdaa, 0xad8b, 0x9de8, 0x8dc9,
    0x7c26, 0x6c07, 0x5c64, 0x4c45, 0x3ca2, 0x2c83, 0x1ce0, 0x0cc1,
    0xef1f, 0xff3e, 0xcf5d, 0xdf7c, 0xaf9b, 0xbfba, 0x8fd9, 0x9ff8,
    0x6e17, 0x7e36, 0x4e55, 0x5e74, 0x2e93, 0x3eb2, 0x0ed1, 0x1ef0]"

text \<open>
  One round of \<^verbatim>\<open>fnCRC16\<close>. The character is promoted with its sign, of which the mask leaves nothing.
\<close>

definition crc_step :: "16 word \<Rightarrow> char \<Rightarrow> 16 word" where
  "crc_step crc c = push_bit 8 crc XOR crctable ! unat ((drop_bit 8 crc XOR of_char c) AND 0x00FF)"

definition fnCRC16 :: "bytes \<Rightarrow> nat \<Rightarrow> 16 word option" where
  "fnCRC16 str len = do {
     b \<leftarrow> mem_read str 0 len;
     Some (foldl crc_step 0 b)
   }"

text \<open>
  The two searches: the first index from \<^theory_text>\<open>i\<close> on where \<^theory_text>\<open>c\<close> is, or \<^theory_text>\<open>keylen\<close>. The index is an \<^verbatim>\<open>int\<close>, whose
  overflow is undefined.
\<close>

function find_char :: "char \<Rightarrow> bytes \<Rightarrow> nat \<Rightarrow> nat \<Rightarrow> nat option" where
  "find_char c key keylen i =
     (if i < keylen then do {
        x \<leftarrow> nth_opt key i;
        if x = c then Some i
        else if i + 1 \<ge> 2 ^ 31 then None
        else find_char c key keylen (i + 1)
      }
      else Some i)"
  by pat_completeness auto

termination
  by (relation "measure (\<lambda>(c, key, keylen, i). keylen - i)") auto

declare find_char.simps [simp del]

definition fnHashSlot :: "bytes \<Rightarrow> nat \<Rightarrow> 32 word option" where
  "fnHashSlot key keylen = do {
     s \<leftarrow> find_char (CHR ''{'') key keylen 0;
     if s = keylen then do { w \<leftarrow> fnCRC16 key keylen; Some (ucast w AND 16383) }
     else if s + 1 \<ge> 2 ^ 31 then None
     else do {
       e \<leftarrow> find_char (CHR ''}'') key keylen (s + 1);
       if e = keylen \<or> e = s + 1 then do { w \<leftarrow> fnCRC16 key keylen; Some (ucast w AND 16383) }
       else do { w \<leftarrow> fnCRC16 (drop (s + 1) key) (e - s - 1); Some (ucast w AND 16383) }
     }
   }"

definition getSlot :: "bytes ptr \<Rightarrow> nat \<Rightarrow> 32 word option" where
  "getSlot key keyLen = (case key of
     Null \<Rightarrow> Some (- 1)
   | Dangling \<Rightarrow> None
   | Ptr k \<Rightarrow> fnHashSlot k keyLen)"

section \<open>The checksum\<close>

text \<open>One bit of the division by the polynomial, and a whole byte.\<close>

definition crc_bit :: "16 word \<Rightarrow> 16 word" where
  "crc_bit r = (if bit r 15 then push_bit 1 r XOR 0x1021 else push_bit 1 r)"

definition crc_byte :: "16 word \<Rightarrow> char \<Rightarrow> 16 word" where
  "crc_byte r c = (crc_bit ^^ 8) (r XOR push_bit 8 (of_char c))"

text \<open>The table grows by doubling: the entries for the bytes \<open>2 * i\<close> and \<open>2 * i + 1\<close> from that of \<^theory_text>\<open>i\<close>.\<close>

definition grow :: "16 word list \<Rightarrow> 16 word list" where
  "grow ts = concat (map (\<lambda>t. [crc_bit t, crc_bit t XOR 0x1021]) ts)"

lemma grow_simps: "grow [] = []" "grow (t # ts) = crc_bit t # (crc_bit t XOR 0x1021) # grow ts"
  by (simp_all add: grow_def)

lemma crctable_grow: "crctable = grow (grow (grow (grow (grow (grow (grow (grow [0])))))))"
  unfolding crctable_def by (simp add: grow_simps crc_bit_def)

lemma crc_bit_xor: "crc_bit (x XOR y) = crc_bit x XOR crc_bit y"
  by (auto simp: crc_bit_def bit_eq_iff bit_simps)

lemma crc_bits_xor: "(crc_bit ^^ n) (x XOR y) = (crc_bit ^^ n) x XOR (crc_bit ^^ n) y"
  by (induction n) (simp_all add: crc_bit_xor)

lemma crc_bits_shift: "(\<And>k. 16 - n \<le> k \<Longrightarrow> k < 16 \<Longrightarrow> \<not> bit x k) \<Longrightarrow> (crc_bit ^^ n) x = push_bit n x"
proof (induction n)
  case (Suc n)
  have "(crc_bit ^^ n) x = push_bit n x" using Suc.prems by (intro Suc.IH) simp
  moreover have "\<not> bit (push_bit n x) 15" using Suc.prems [of "15 - n"] by (auto simp: bit_simps)
  ultimately have "(crc_bit ^^ Suc n) x = push_bit 1 (push_bit n x)"
    using crc_bit_def [of "push_bit n x"] by simp
  then show ?case by (simp only: push_bit_push_bit plus_1_eq_Suc)
qed simp

definition crc_entry :: "16 word \<Rightarrow> 16 word" where
  "crc_entry i = (crc_bit ^^ 8) (push_bit 8 i)"

lemma crc_entry_0: "crc_entry 0 = 0"
  using crc_bits_shift [of 8 0] by (simp add: crc_entry_def)

lemma crc_entry_1: "crc_entry 1 = 0x1021"
  by (simp add: crc_entry_def numeral_eq_Suc) (simp add: crc_bit_def)

lemma crc_entry_double:
  assumes "i < 128"
  shows "crc_entry (of_nat (2 * i)) = crc_bit (crc_entry (of_nat i))"
    "crc_entry (of_nat (Suc (2 * i))) = crc_bit (crc_entry (of_nat i)) XOR 0x1021"
proof -
  have "push_bit 8 (of_nat (2 * i) :: 16 word) = push_bit 1 (push_bit 8 (of_nat i))"
    by (simp add: push_bit_eq_mult)
  moreover have "\<not> bit (push_bit 8 (of_nat i) :: 16 word) 15"
    using assms by (simp add: bit_simps bit_nat_iff) (simp add: bit_iff_odd)
  ultimately have p: "push_bit 8 (of_nat (2 * i) :: 16 word) = crc_bit (push_bit 8 (of_nat i))"
    by (simp add: crc_bit_def)
  show d: "crc_entry (of_nat (2 * i)) = crc_bit (crc_entry (of_nat i))"
    unfolding crc_entry_def p by (simp add: funpow_swap1)
  have "(of_nat (Suc (2 * i)) :: 16 word) = of_nat (2 * i) XOR 1"
    by (simp add: xor_one_eq)
  then have "crc_entry (of_nat (Suc (2 * i))) = crc_entry (of_nat (2 * i)) XOR crc_entry 1"
    by (simp add: crc_entry_def push_bit_xor crc_bits_xor)
  then show "crc_entry (of_nat (Suc (2 * i))) = crc_bit (crc_entry (of_nat i)) XOR 0x1021"
    using d crc_entry_1 by simp
qed

lemma grow_entries: "n \<le> 128 \<Longrightarrow> grow (map (\<lambda>i. crc_entry (of_nat i)) [0..<n]) = map (\<lambda>i. crc_entry (of_nat i)) [0..<2 * n]"
proof (induction n)
  case (Suc n)
  have "grow (xs @ ys) = grow xs @ grow ys" for xs ys by (simp add: grow_def)
  with Suc crc_entry_double [of n] show ?case by (simp add: grow_simps)
qed (simp add: grow_simps)

lemma crctable_entries: "crctable = map (\<lambda>i. crc_entry (of_nat i)) [0..<256]"
proof -
  have "[0] = map (\<lambda>i. crc_entry (of_nat i)) [0..<1]" using crc_entry_0 by simp
  then show ?thesis unfolding crctable_grow by (simp only: grow_entries) simp
qed

text \<open>A round by table is a byte of the division.\<close>

lemma crc_step_byte: "crc_step r c = crc_byte r c"
proof -
  let ?i = "drop_bit 8 r XOR of_char c :: 16 word"
  have m: "w AND 0x00FF = take_bit 8 w" for w :: "16 word"
    by (simp add: take_bit_eq_mask mask_eq_exp_minus_1)
  have c: "(of_char c :: 16 word) = take_bit 8 (of_nat (byte c))"
  proof -
    have "take_bit 8 (of_nat (byte c) :: 16 word) = of_nat (take_bit 8 (byte c))" by (rule take_bit_of_nat)
    also have "\<dots> = of_nat (byte c)" using take_bit_nat_eq_self [of "byte c" 8] by simp
    finally show ?thesis by (simp add: of_nat_of_char)
  qed
  have i: "take_bit 8 ?i = ?i"
    unfolding c by (auto simp: bit_eq_iff bit_simps dest: bit_imp_le_length)
  then have "unat ?i = take_bit 8 (unat ?i)" by (metis unsigned_take_bit_eq)
  then have "unat ?i < 256" using take_bit_nat_less_exp [of 8 "unat ?i"] by simp
  then have t: "crctable ! unat ?i = crc_entry ?i" by (simp add: crctable_entries)
  have "r XOR push_bit 8 (of_char c) = push_bit 8 ?i XOR take_bit 8 r"
    unfolding c by (auto simp: bit_eq_iff bit_simps)
  then have "crc_byte r c = crc_entry ?i XOR (crc_bit ^^ 8) (take_bit 8 r)"
    by (simp add: crc_byte_def crc_entry_def crc_bits_xor)
  moreover have "(crc_bit ^^ 8) (take_bit 8 r) = push_bit 8 (take_bit 8 r)"
    by (rule crc_bits_shift) (simp add: bit_simps)
  moreover have "push_bit 8 (take_bit 8 r) = push_bit 8 r"
    by (auto simp: bit_eq_iff bit_simps)
  ultimately show ?thesis using t i by (simp add: crc_step_def m xor.commute)
qed

lemma fnCRC16_spec: "n \<le> length b \<Longrightarrow> fnCRC16 b n = Some (foldl crc_byte 0 (take n b))"
proof -
  have "crc_step = crc_byte" by (intro ext crc_step_byte)
  then show "n \<le> length b \<Longrightarrow> fnCRC16 b n = Some (foldl crc_byte 0 (take n b))"
    by (simp add: fnCRC16_def mem_simps)
qed

section \<open>The tag of a key\<close>

text \<open>What lies between the first opening brace and the next closing brace, if both are there and
  something lies between them; otherwise the whole key.\<close>

definition tag :: "bytes \<Rightarrow> bytes" where
  "tag key = (case dropWhile (\<lambda>x. x \<noteq> CHR ''{'') key of
     [] \<Rightarrow> key
   | _ # s \<Rightarrow>
       let t = takeWhile (\<lambda>x. x \<noteq> CHR ''}'') s
       in if t = [] \<or> CHR ''}'' \<notin> set s then key else t)"

lemma find_char_spec:
  assumes "n \<le> length key" "n < 2 ^ 31"
  shows "i \<le> n \<Longrightarrow> find_char c key n i = Some (i + length (takeWhile (\<lambda>x. x \<noteq> c) (drop i (take n key))))"
proof (induction "n - i" arbitrary: i)
  case 0
  then show ?case by (subst find_char.simps) simp
next
  case (Suc m)
  then have lt: "i < n" by simp
  have d: "drop i (take n key) = key ! i # drop (i + 1) (take n key)"
    using lt assms(1) by (simp add: Cons_nth_drop_Suc [symmetric])
  have "find_char c key n (i + 1) = Some (i + 1 + length (takeWhile (\<lambda>x. x \<noteq> c) (drop (i + 1) (take n key))))"
    using Suc lt by (intro Suc(1)) simp_all
  with lt d assms show ?case
    by (subst find_char.simps) (simp add: nth_opt_def)
qed

lemma fnHashSlot_spec:
  assumes "n \<le> length key" "n < 2 ^ 31"
  shows "fnHashSlot key n = Some (ucast (foldl crc_byte 0 (tag (take n key))) AND 16383)"
proof -
  let ?k = "take n key"
  define a where "a = takeWhile (\<lambda>x. x \<noteq> CHR ''{'') ?k"
  have s: "find_char (CHR ''{'') key n 0 = Some (length a)" using find_char_spec [OF assms] by (simp add: a_def)
  have len: "length ?k = n" using assms(1) by simp
  show ?thesis
  proof (cases "dropWhile (\<lambda>x. x \<noteq> CHR ''{'') ?k")
    case Nil
    then have "a = ?k" using takeWhile_dropWhile_id [of "\<lambda>x. x \<noteq> CHR ''{''" ?k] by (simp add: a_def)
    then have "length a = n" using len by simp
    moreover have "tag ?k = ?k" by (simp only: tag_def Nil list.case)
    ultimately show ?thesis using s fnCRC16_spec [OF assms(1)] by (simp add: fnHashSlot_def)
  next
    case (Cons x b)
    have k: "?k = a @ x # b" using takeWhile_dropWhile_id [of "\<lambda>x. x \<noteq> CHR ''{''" ?k] Cons by (simp add: a_def)
    then have n: "n = length a + 1 + length b" using len arg_cong [OF k, of length] by simp
    define t where "t = takeWhile (\<lambda>x. x \<noteq> CHR ''}'') b"
    have db: "drop (length a + 1) ?k = b" using k by simp
    have e: "find_char (CHR ''}'') key n (length a + 1) = Some (length a + 1 + length t)"
      using find_char_spec [OF assms, of "length a + 1"] db n by (simp add: t_def)
    have tb: "length t = length b \<longleftrightarrow> CHR ''}'' \<notin> set b"
    proof -
      have "length b = length t + length (dropWhile (\<lambda>x. x \<noteq> CHR ''}'') b)"
        unfolding t_def by (metis length_append takeWhile_dropWhile_id)
      then show ?thesis by (auto simp: dropWhile_eq_Nil_conv)
    qed
    have tag: "tag ?k = (if t = [] \<or> CHR ''}'' \<notin> set b then ?k else t)"
      by (simp add: tag_def Cons t_def Let_def)
    show ?thesis
    proof (cases "t = [] \<or> CHR ''}'' \<notin> set b")
      case True
      then have "length a + 1 + length t = n \<or> length a + 1 + length t = length a + 1" using n tb by auto
      with s e n assms(2) fnCRC16_spec [OF assms(1)] tag True show ?thesis by (simp add: fnHashSlot_def)
    next
      case False
      have lt: "length t \<le> length b" unfolding t_def by (rule length_takeWhile_le)
      have "take (length b) (drop (length a + 1) key) = b" using db n by (simp add: drop_take)
      then have "take (length t) (drop (length a + 1) key) = take (length t) b"
        using lt by (metis min.absorb1 take_take)
      also have "\<dots> = t" unfolding t_def by (metis append_eq_conv_conj takeWhile_dropWhile_id)
      finally have f: "fnCRC16 (drop (length a + 1) key) (length t) = Some (foldl crc_byte 0 t)"
        using fnCRC16_spec [of "length t" "drop (length a + 1) key"] lt n assms(1) by simp
      from False tb have "length a + 1 + length t \<noteq> n" "length t \<noteq> 0" using n by auto
      with s e n assms(2) f tag False show ?thesis by (simp add: fnHashSlot_def)
    qed
  qed
qed

lemma mask_slot: "unat (ucast (w :: 16 word) AND 16383 :: 32 word) = unat w mod 16384"
proof -
  have "ucast w AND 16383 = (take_bit 14 (ucast w) :: 32 word)"
    by (simp add: take_bit_eq_mask mask_eq_exp_minus_1)
  then have "unat (ucast w AND 16383 :: 32 word) = take_bit 14 (unat (ucast w :: 32 word))"
    by (simp only: unsigned_take_bit_eq)
  moreover have "unat (ucast w :: 32 word) = unat w"
    using unsigned_less [of w, where ?'a = nat] by (simp add: unsigned_ucast_eq take_bit_eq_mod)
  ultimately show ?thesis by (simp add: take_bit_eq_mod)
qed

section \<open>The slot\<close>

text \<open>C10: the slot of a key is the remainder by 16384 of the checksum by the bitwise division, of the tag in braces
  of the key; the table of 256 entries, the masks and the two searches compute exactly that, and never read past the key.\<close>

theorem cluster_slot_is_crc:
  assumes "n \<le> length k" "n < 2 ^ 31"
  shows "\<exists>s. getSlot (Ptr k) n = Some s \<and> unat s = unat (foldl crc_byte 0 (tag (take n k))) mod 16384"
  using fnHashSlot_spec [OF assms] by (simp add: getSlot_def mask_slot)

lemma cluster_slot_is_crc_witness:
  "\<exists>s. getSlot (Ptr ''x{user}y'') 8 = Some s \<and> unat s = unat (foldl crc_byte 0 ''user'') mod 16384"
  using cluster_slot_is_crc [of 8 "''x{user}y''"] by (simp add: tag_def)

text \<open>Without a key there is no slot, which the pool reads as ``any''.\<close>

lemma getSlot_null: "getSlot Null n = Some (- 1)" by (simp add: getSlot_def)

end
