(* ===== verification/Middle_Ware.thy ===== *)
theory Middle_Ware
  imports Wrapper Hash_Slot
begin

text \<open>
  Where connections come from: the classes \<^verbatim>\<open>CDefaultMiddleWare\<close>, \<^verbatim>\<open>CSentinelSupport\<close> and
  \<^verbatim>\<open>CClusterSupport\<close> of \<^verbatim>\<open>MCRedis/MiddleWare.h\<close> and \<^verbatim>\<open>src/MiddleWare.cpp\<close>. They ask a Redis server,
  a Sentinel or a node of a cluster which server to connect to.
\<close>

section \<open>The C++ library\<close>

text \<open>
  The exceptions that the library throws. In a function that is \<^verbatim>\<open>noexcept\<close> an exception ends the
  program.
\<close>

datatype cpp_exception = Out_of_range | Invalid_argument

type_synonym 'a throws = "cpp_exception + 'a"

fun noexcept :: "'a throws \<Rightarrow> 'a option" where
  "noexcept (Inl e) = None"
| "noexcept (Inr x) = Some x"

text \<open>\<^verbatim>\<open>vector::at\<close>.\<close>

definition at :: "'a list \<Rightarrow> nat \<Rightarrow> 'a throws" where
  "at xs i = (if i < length xs then Inr (xs ! i) else Inl Out_of_range)"

text \<open>
  A numeral that a string starts with, behind white space and a sign: whether it is negative, and its
  absolute value.
\<close>

definition numeral_prefix :: "bytes \<Rightarrow> (bool \<times> nat) option" where
  "numeral_prefix s =
     (let s = dropWhile c_isspace (takeWhile (\<lambda>c. c \<noteq> NUL) s);
          neg = (s \<noteq> [] \<and> hd s = CHR ''-'');
          body = (if s \<noteq> [] \<and> (hd s = CHR ''-'' \<or> hd s = CHR ''+'') then tl s else s);
          digits = takeWhile is_digit body
      in if digits = [] then None else Some (neg, dec_val 0 digits))"

definition std_stol :: "bytes \<Rightarrow> int throws" where
  "std_stol s = (case numeral_prefix s of
     None \<Rightarrow> Inl Invalid_argument
   | Some (neg, n) \<Rightarrow>
       let v = (if neg then - int n else int n)
       in if - (2 ^ 63) \<le> v \<and> v < 2 ^ 63 then Inr v else Inl Out_of_range)"

text \<open>\<^verbatim>\<open>std::stoul\<close> and \<^verbatim>\<open>std::stoull\<close>: a negative numeral wraps around.\<close>

definition std_stoul :: "bytes \<Rightarrow> 64 word throws" where
  "std_stoul s = (case numeral_prefix s of
     None \<Rightarrow> Inl Invalid_argument
   | Some (neg, n) \<Rightarrow>
       if n < 2 ^ 64 then Inr (if neg then - of_nat n else of_nat n) else Inl Out_of_range)"

text \<open>\<^verbatim>\<open>std::rand\<close>.\<close>

definition std_rand :: "world \<Rightarrow> (nat \<times> world) option" where
  "std_rand w = (case w_rand w of [] \<Rightarrow> None | r # rs \<Rightarrow> Some (r, w\<lparr>w_rand := rs\<rparr>))"

text \<open>
  The callback of a user, which is given a new connection: an empty \<^verbatim>\<open>std::function\<close> or a function.
\<close>

type_synonym callback_t = "(CConnection \<Rightarrow> world \<Rightarrow> (CConnection \<times> world) option) option"

definition call_back :: "callback_t \<Rightarrow> CConnection \<Rightarrow> world \<Rightarrow> (CConnection \<times> world) option" where
  "call_back f c w = (case f of None \<Rightarrow> Some (c, w) | Some f \<Rightarrow> f c w)"

text \<open>
  A new connection to an address, which is deleted if it cannot be connected; and \<^verbatim>\<open>create\<close>, which
  makes \<^theory_text>\<open>num\<close> connections and keeps those that came about.
\<close>

definition new_connected :: "allocator \<Rightarrow> libc \<Rightarrow> bytes \<Rightarrow> 16 word \<Rightarrow> 32 word \<Rightarrow> world \<Rightarrow>
    (CConnection option \<times> world) option" where
  "new_connected A lc host port sec w = do {
     let (p, w) = new_CConnection w;
     (ok, p, w) \<leftarrow> connect A lc p (c_str host) port sec w;
     if ok then Some (Some p, w)
     else do { w \<leftarrow> delete_CConnection p w; Some (None, w) }
   }"

primrec create_each :: "(world \<Rightarrow> (CConnection option \<times> world) option) \<Rightarrow> nat \<Rightarrow> world \<Rightarrow>
    (CConnection list \<times> world) option" where
  "create_each get 0 w = Some ([], w)"
| "create_each get (Suc num) w = do {
     (p, w) \<leftarrow> get w;
     (ps, w) \<leftarrow> create_each get num w;
     Some (case p of None \<Rightarrow> ps | Some p \<Rightarrow> p # ps, w)
   }"

section \<open>A single server\<close>

record CDefaultMiddleWare =
  d_hostName :: bytes
  d_port :: "16 word"
  d_timeoutSec :: "32 word"
  d_callback :: callback_t

definition default_getConnection :: "allocator \<Rightarrow> libc \<Rightarrow> CDefaultMiddleWare \<Rightarrow> 32 word \<Rightarrow> world \<Rightarrow>
    (CConnection option \<times> world) option" where
  "default_getConnection A lc m slot w = do {
     (p, w) \<leftarrow> new_connected A lc (d_hostName m) (d_port m) (d_timeoutSec m) w;
     (case p of
        None \<Rightarrow> Some (None, w)
      | Some p \<Rightarrow> do { (p, w) \<leftarrow> call_back (d_callback m) p w; Some (Some p, w) })
   }"

definition default_create :: "allocator \<Rightarrow> libc \<Rightarrow> CDefaultMiddleWare \<Rightarrow> nat \<Rightarrow> world \<Rightarrow>
    (CConnection list \<times> world) option" where
  "default_create A lc m num w = create_each (default_getConnection A lc m 0) num w"

definition default_getSlot :: "bytes ptr \<Rightarrow> nat \<Rightarrow> 32 word option" where
  "default_getSlot key keyLen = Some (- 1)"

section \<open>Sentinel\<close>

datatype ERole = MASTER | SLAVE

record CSentinelSupport =
  lstSentinel :: "(bytes \<times> 16 word) list"
  masterName :: bytes
  s_role :: ERole
  s_timeoutSec :: "32 word"
  s_callback :: callback_t

text \<open>A command of literals and one string of the object, on a connection.\<close>

definition ask :: "allocator \<Rightarrow> libc \<Rightarrow> CConnection \<Rightarrow> cpp_arg list \<Rightarrow> (CReply \<times> CConnection) option" where
  "ask A lc c args = do { cmd \<leftarrow> make_CCommand args; sendCommand A lc c cmd }"

definition literal :: "bytes \<Rightarrow> cpp_arg" where
  "literal s = CStr (c_str s)"

text \<open>
  The first constructor. Its loop over the replies, which throws when one has fewer than six parts or
  no port; the object that is under construction is then destroyed, and with it the connection.
\<close>

fun sentinel_entries :: "CReply list \<Rightarrow> (bytes \<times> 16 word) list throws" where
  "sentinel_entries [] = Inr []"
| "sentinel_entries (r # rs) = (case at (getReplies r) 3 of
     Inl e \<Rightarrow> Inl e
   | Inr host \<Rightarrow> (case at (getReplies r) 5 of
       Inl e \<Rightarrow> Inl e
     | Inr port \<Rightarrow> (case std_stol (getStr port) of
         Inl e \<Rightarrow> Inl e
       | Inr n \<Rightarrow> (case sentinel_entries rs of
           Inl e \<Rightarrow> Inl e
         | Inr es \<Rightarrow> Inr ((getStr host, word_of_int n) # es)))))"

definition sentinel_at :: "allocator \<Rightarrow> libc \<Rightarrow> bytes \<Rightarrow> 16 word \<Rightarrow> bytes \<Rightarrow> ERole \<Rightarrow> callback_t \<Rightarrow> 32 word \<Rightarrow> world \<Rightarrow>
    (CSentinelSupport throws \<times> world) option" where
  "sentinel_at A lc hostName port name role cb sec w = do {
     let m = \<lparr>lstSentinel = [], masterName = name, s_role = role, s_timeoutSec = sec, s_callback = cb\<rparr>;
     let (p, w) = new_CConnection w;
     (ok, p, w) \<leftarrow> connect A lc p (c_str hostName) port sec w;
     if \<not> ok then do { w \<leftarrow> delete_CConnection p w; Some (Inr m, w) }
     else do {
       (rpy, p) \<leftarrow> ask A lc p [literal ''SENTINEL'', literal ''sentinels'', Str name];
       w \<leftarrow> delete_CConnection p w;
       Some (case sentinel_entries (getReplies rpy) of
         Inl e \<Rightarrow> Inl e
       | Inr es \<Rightarrow> Inr (m\<lparr>lstSentinel := es @ [(hostName, port)]\<rparr>), w)
     }
   }"

text \<open>The second constructor tries every given host; one that does not answer as a Sentinel clears the list.\<close>

fun check_hosts :: "allocator \<Rightarrow> libc \<Rightarrow> (CConnection \<Rightarrow> (CReply \<times> CConnection) option) \<Rightarrow> int \<Rightarrow> 32 word \<Rightarrow>
    (bytes \<times> 16 word) list \<Rightarrow> (bytes \<times> 16 word) list \<Rightarrow> world \<Rightarrow> ((bytes \<times> 16 word) list \<times> world) option" where
  "check_hosts A lc question expected sec known [] w = Some (known, w)"
| "check_hosts A lc question expected sec known ((host, port) # hosts) w = do {
     let known = known @ [(host, port)];
     let (p, w) = new_CConnection w;
     (ok, p, w) \<leftarrow> connect A lc p (c_str host) port sec w;
     if \<not> ok then do {
       w \<leftarrow> delete_CConnection p w;
       check_hosts A lc question expected sec known hosts w
     }
     else do {
       (rpy, p) \<leftarrow> question p;
       w \<leftarrow> delete_CConnection p w;
       if getType rpy \<noteq> expected then Some ([], w)
       else check_hosts A lc question expected sec known hosts w
     }
   }"

definition sentinel_of :: "allocator \<Rightarrow> libc \<Rightarrow> (bytes \<times> 16 word) list \<Rightarrow> bytes \<Rightarrow> ERole \<Rightarrow> callback_t \<Rightarrow> 32 word \<Rightarrow> world \<Rightarrow>
    (CSentinelSupport \<times> world) option" where
  "sentinel_of A lc hosts name role cb sec w = do {
     (known, w) \<leftarrow> check_hosts A lc
       (\<lambda>p. ask A lc p [literal ''SENTINEL'', literal ''sentinels'', Str name]) EType_ARRAY sec [] hosts w;
     Some (\<lparr>lstSentinel = known, masterName = name, s_role = role, s_timeoutSec = sec, s_callback = cb\<rparr>, w)
   }"

text \<open>The first host of a list that can be connected; the others are deleted.\<close>

fun first_connected :: "allocator \<Rightarrow> libc \<Rightarrow> 32 word \<Rightarrow> (bytes \<times> 16 word) list \<Rightarrow> world \<Rightarrow>
    (CConnection option \<times> world) option" where
  "first_connected A lc sec [] w = Some (None, w)"
| "first_connected A lc sec ((host, port) # hosts) w = do {
     (p, w) \<leftarrow> new_connected A lc host port sec w;
     (case p of
        None \<Rightarrow> first_connected A lc sec hosts w
      | Some p \<Rightarrow> Some (Some p, w))
   }"

text \<open>The slaves of a reply that are in use, with the positions that the code reads.\<close>

fun slave_entries :: "CReply list \<Rightarrow> (bytes \<times> 16 word) list throws" where
  "slave_entries [] = Inr []"
| "slave_entries (r # rs) = (case at (getReplies r) 3 of
     Inl e \<Rightarrow> Inl e
   | Inr ip \<Rightarrow> (case at (getReplies r) 5 of
       Inl e \<Rightarrow> Inl e
     | Inr port \<Rightarrow> (case std_stoul (getStr port) of
         Inl e \<Rightarrow> Inl e
       | Inr n \<Rightarrow> (case at (getReplies r) 9 of
           Inl e \<Rightarrow> Inl e
         | Inr flags \<Rightarrow>
             if getStr flags \<noteq> ''slave'' then slave_entries rs
             else (case at (getReplies r) 23 of
               Inl e \<Rightarrow> Inl e
             | Inr reported \<Rightarrow>
                 if getStr reported \<noteq> ''slave'' then slave_entries rs
                 else (case slave_entries rs of
                   Inl e \<Rightarrow> Inl e
                 | Inr es \<Rightarrow> Inr ((getStr ip, ucast n) # es)))))))"

text \<open>The connection that a Sentinel names. The one to the master is made with the default timeout 0.\<close>

definition sentinel_target :: "allocator \<Rightarrow> libc \<Rightarrow> CSentinelSupport \<Rightarrow> CConnection \<Rightarrow> world \<Rightarrow>
    (CConnection option \<times> CConnection \<times> world) option" where
  "sentinel_target A lc m sentinel w = (case s_role m of
     MASTER \<Rightarrow> do {
       (rpy, sentinel) \<leftarrow> ask A lc sentinel [literal ''SENTINEL'', literal ''get-master-addr-by-name'', Str (masterName m)];
       if getType rpy \<noteq> EType_ARRAY \<or> length (getReplies rpy) < 2 then Some (None, sentinel, w)
       else do {
         ip \<leftarrow> noexcept (at (getReplies rpy) 0);
         port \<leftarrow> noexcept (at (getReplies rpy) 1);
         n \<leftarrow> noexcept (std_stoul (getStr port));
         (p, w) \<leftarrow> new_connected A lc (getStr ip) (ucast n) 0 w;
         Some (p, sentinel, w)
       }
     }
   | SLAVE \<Rightarrow> do {
       (rpy, sentinel) \<leftarrow> ask A lc sentinel [literal ''SENTINEL'', literal ''slaves'', Str (masterName m)];
       if getType rpy \<noteq> EType_ARRAY then Some (None, sentinel, w)
       else do {
         slaves \<leftarrow> noexcept (slave_entries (getReplies rpy));
         if slaves = [] then Some (None, sentinel, w)
         else do {
           (r, w) \<leftarrow> std_rand w;
           (ip, port) \<leftarrow> noexcept (at slaves (r mod length slaves));
           (p, w) \<leftarrow> new_connected A lc ip port (s_timeoutSec m) w;
           Some (p, sentinel, w)
         }
       }
     })"

definition sentinel_getConnection :: "allocator \<Rightarrow> libc \<Rightarrow> CSentinelSupport \<Rightarrow> 32 word \<Rightarrow> world \<Rightarrow>
    (CConnection option \<times> world) option" where
  "sentinel_getConnection A lc m slot w = do {
     (s, w) \<leftarrow> first_connected A lc (s_timeoutSec m) (lstSentinel m) w;
     (case s of
        None \<Rightarrow> Some (None, w)
      | Some s \<Rightarrow> do {
          (p, s, w) \<leftarrow> sentinel_target A lc m s w;
          (p, w) \<leftarrow> (case p of
             None \<Rightarrow> Some (None, w)
           | Some p \<Rightarrow> do { (p, w) \<leftarrow> call_back (s_callback m) p w; Some (Some p, w) });
          w \<leftarrow> delete_CConnection s w;
          Some (p, w)
        })
   }"

definition sentinel_create :: "allocator \<Rightarrow> libc \<Rightarrow> CSentinelSupport \<Rightarrow> nat \<Rightarrow> world \<Rightarrow>
    (CConnection list \<times> world) option" where
  "sentinel_create A lc m num w = create_each (sentinel_getConnection A lc m 0) num w"


section \<open>A cluster\<close>

record CClusterSupport =
  lstHost :: "(bytes \<times> 16 word) list"
  c_timeoutSec :: "32 word"

definition cluster_at :: "bytes \<Rightarrow> 16 word \<Rightarrow> 32 word \<Rightarrow> CClusterSupport" where
  "cluster_at hostName port sec = \<lparr>lstHost = [(hostName, port)], c_timeoutSec = sec\<rparr>"

definition cluster_of :: "allocator \<Rightarrow> libc \<Rightarrow> (bytes \<times> 16 word) list \<Rightarrow> 32 word \<Rightarrow> world \<Rightarrow>
    (CClusterSupport \<times> world) option" where
  "cluster_of A lc hosts sec w = do {
     (known, w) \<leftarrow> check_hosts A lc (\<lambda>p. ask A lc p [literal ''CLUSTER'', literal ''info'']) EType_STRING sec [] hosts w;
     Some (\<lparr>lstHost = known, c_timeoutSec = sec\<rparr>, w)
   }"

text \<open>The lines that \<^verbatim>\<open>std::getline\<close> reads: the characters behind the last line feed only if there are any.\<close>

fun text_lines :: "bytes \<Rightarrow> bytes list" where
  "text_lines [] = []"
| "text_lines (c # s) =
     (if c = LF then [] # text_lines s
      else case text_lines s of [] \<Rightarrow> [[c]] | l # ls \<Rightarrow> (c # l) # ls)"

text \<open>
  \<^verbatim>\<open>fnToStatusMap\<close>: the name before the first colon of a line; behind it the value, of which the last
  character is dropped, for it is the carriage return; nothing is when the colon ends the line, where the
  length wraps around. The first binding of a name counts.
\<close>

definition status_line :: "bytes \<Rightarrow> (bytes \<times> bytes) option" where
  "status_line line =
     (if line = [] \<or> hd line = CHR ''#'' \<or> hd line = CR then None
      else let pos = length (takeWhile (\<lambda>c. c \<noteq> CHR '':'') line)
        in if pos = length line then None
           else Some (take pos line,
             if length line < pos + 2 then drop (pos + 1) line
             else take (length line - (pos + 2)) (drop (pos + 1) line)))"

fun fnToStatusMap :: "bytes list \<Rightarrow> (bytes \<rightharpoonup> bytes) \<Rightarrow> (bytes \<rightharpoonup> bytes)" where
  "fnToStatusMap [] m = m"
| "fnToStatusMap (line # ls) m = (case status_line line of
     None \<Rightarrow> fnToStatusMap ls m
   | Some (k, v) \<Rightarrow> fnToStatusMap ls (if m k = None then m(k \<mapsto> v) else m))"

text \<open>The first host that can be connected. The objects for those before it are never deleted.\<close>

fun first_node :: "allocator \<Rightarrow> libc \<Rightarrow> 32 word \<Rightarrow> (bytes \<times> 16 word) list \<Rightarrow> world \<Rightarrow>
    (CConnection option \<times> world) option" where
  "first_node A lc sec [] w = Some (None, w)"
| "first_node A lc sec ((host, port) # hosts) w = do {
     let (p, w) = new_CConnection w;
     (ok, p, w) \<leftarrow> connect A lc p (c_str host) port sec w;
     if ok then Some (Some p, w) else first_node A lc sec hosts w
   }"

type_synonym node = "32 word \<times> 32 word \<times> bytes \<times> 16 word"

fun node_entries :: "CReply list \<Rightarrow> node list throws" where
  "node_entries [] = Inr []"
| "node_entries (r # rs) = (case at (getReplies r) 0 of
     Inl e \<Rightarrow> Inl e
   | Inr b \<Rightarrow> (case at (getReplies r) 1 of
       Inl e \<Rightarrow> Inl e
     | Inr e \<Rightarrow> (case at (getReplies r) 2 of
         Inl x \<Rightarrow> Inl x
       | Inr m \<Rightarrow> (case at (getReplies m) 0 of
           Inl x \<Rightarrow> Inl x
         | Inr ip \<Rightarrow> (case at (getReplies m) 1 of
             Inl x \<Rightarrow> Inl x
           | Inr port \<Rightarrow> (case node_entries rs of
               Inl x \<Rightarrow> Inl x
             | Inr ns \<Rightarrow> Inr ((word_of_int (getInteger b), word_of_int (getInteger e), getStr ip,
                 word_of_int (getInteger port)) # ns)))))))"

text \<open>The room that is reserved: more than a vector of nodes of 48 bytes can ever have throws.\<close>

definition reserve_nodes :: "bytes option \<Rightarrow> unit option" where
  "reserve_nodes v = (case v of
     None \<Rightarrow> Some ()
   | Some v \<Rightarrow> do { n \<leftarrow> noexcept (std_stoul v); if unat n \<le> (2 ^ 63 - 1) div 48 then Some () else None })"

definition nodes_of :: "allocator \<Rightarrow> libc \<Rightarrow> CConnection \<Rightarrow> (node list \<times> CConnection) option" where
  "nodes_of A lc conn = do {
     (rpy, conn) \<leftarrow> ask A lc conn [literal ''CLUSTER'', literal ''info''];
     if getType rpy \<noteq> EType_STRING then Some ([], conn)
     else do {
       let infoStatus = fnToStatusMap (text_lines (getStr rpy)) Map.empty;
       if infoStatus ''cluster_state'' \<noteq> Some ''ok'' then Some ([], conn)
       else do {
         _ \<leftarrow> reserve_nodes (infoStatus ''cluster_known_nodes'');
         (rpy, conn) \<leftarrow> ask A lc conn [literal ''CLUSTER'', literal ''slots''];
         lstNode \<leftarrow> noexcept (node_entries (getReplies rpy));
         Some (lstNode, conn)
       }
     }
   }"

definition getNodes :: "allocator \<Rightarrow> libc \<Rightarrow> CClusterSupport \<Rightarrow> world \<Rightarrow> (node list \<times> world) option" where
  "getNodes A lc m w = do {
     (p, w) \<leftarrow> first_node A lc (c_timeoutSec m) (lstHost m) w;
     (case p of
        None \<Rightarrow> Some ([], w)
      | Some conn \<Rightarrow> do {
          (lstNode, conn) \<leftarrow> nodes_of A lc conn;
          w \<leftarrow> delete_CConnection conn w;
          Some (lstNode, w)
        })
   }"

text \<open>\<^verbatim>\<open>create\<close>: \<^theory_text>\<open>num\<close> connections to each node; the object of one that fails is not deleted.\<close>

primrec connect_node :: "allocator \<Rightarrow> libc \<Rightarrow> 32 word \<Rightarrow> node \<Rightarrow> nat \<Rightarrow> world \<Rightarrow> (CConnection list \<times> world) option" where
  "connect_node A lc sec node 0 w = Some ([], w)"
| "connect_node A lc sec node (Suc num) w = (case node of (b, e, ip, port) \<Rightarrow> do {
     let (p, w) = new_CConnection w;
     (ok, p, w) \<leftarrow> connect A lc p (c_str ip) port sec w;
     (ps, w) \<leftarrow> connect_node A lc sec node num w;
     Some (if ok then setSlotRange p b e # ps else ps, w)
   })"

fun connect_nodes :: "allocator \<Rightarrow> libc \<Rightarrow> 32 word \<Rightarrow> node list \<Rightarrow> nat \<Rightarrow> world \<Rightarrow> (CConnection list \<times> world) option" where
  "connect_nodes A lc sec [] num w = Some ([], w)"
| "connect_nodes A lc sec (node # nodes) num w = do {
     (ps, w) \<leftarrow> connect_node A lc sec node num w;
     (qs, w) \<leftarrow> connect_nodes A lc sec nodes num w;
     Some (ps @ qs, w)
   }"

definition cluster_create :: "allocator \<Rightarrow> libc \<Rightarrow> CClusterSupport \<Rightarrow> nat \<Rightarrow> world \<Rightarrow>
    (CConnection list \<times> world) option" where
  "cluster_create A lc m num w = do {
     (lstNode, w) \<leftarrow> getNodes A lc m w;
     connect_nodes A lc (c_timeoutSec m) lstNode num w
   }"

fun node_for :: "32 word \<Rightarrow> node list \<Rightarrow> node option" where
  "node_for slot [] = None"
| "node_for slot ((b, e, ip, port) # nodes) =
     (if b \<le> slot \<and> slot \<le> e then Some (b, e, ip, port) else node_for slot nodes)"

definition cluster_getConnection :: "allocator \<Rightarrow> libc \<Rightarrow> CClusterSupport \<Rightarrow> 32 word \<Rightarrow> world \<Rightarrow>
    (CConnection option \<times> world) option" where
  "cluster_getConnection A lc m slot w = do {
     (lstNode, w) \<leftarrow> getNodes A lc m w;
     (case node_for slot lstNode of
        None \<Rightarrow> Some (None, w)
      | Some (b, e, ip, port) \<Rightarrow> do {
          (p, w) \<leftarrow> new_connected A lc ip port (c_timeoutSec m) w;
          Some (map_option (\<lambda>p. setSlotRange p b e) p, w)
        })
   }"

text \<open>\<^verbatim>\<open>freeConnection\<close> of each of the classes.\<close>

definition freeConnection :: "CConnection option \<Rightarrow> world \<Rightarrow> world option" where
  "freeConnection p w = (case p of None \<Rightarrow> Some w | Some c \<Rightarrow> delete_CConnection c w)"

end
