(* ===== verification/Wrapper_Correct.thy ===== *)
theory Wrapper_Correct
  imports Wrapper Context_Correct Net_Correct
begin

text \<open>
  The C++ layer is correct: a command holds the texts of its arguments, a reply is the tree that the
  object of hiredis stands for and leaves nothing on the heap, and a connection has a context
  exactly as long as it is connected.
\<close>

section \<open>Commands\<close>

text \<open>The command with the given texts, which every constructor makes.\<close>

definition command_for :: "bytes list \<Rightarrow> CCommand" where
  "command_for ts = \<lparr>lstCommand = map c_str ts, lstCommandSize = map length ts, lstCommandBuffer = ts\<rparr>"

lemma expandArgument_spec:
  "expandArgument (length ts) args
     \<lparr>lstCommand = map c_str ts @ replicate (length args) Null,
      lstCommandSize = map length ts @ replicate (length args) 0,
      lstCommandBuffer = ts @ replicate (length args) []\<rparr> =
   map_option (\<lambda>us. command_for (ts @ us)) (map_opt argument_text args)"
proof (induction args arbitrary: ts)
  case (Cons arg args)
  show ?case
  proof (cases "argument_text arg")
    case (Some t)
    have "expandArgumentStr (length ts) t
        \<lparr>lstCommand = map c_str ts @ replicate (length (arg # args)) Null,
         lstCommandSize = map length ts @ replicate (length (arg # args)) 0,
         lstCommandBuffer = ts @ replicate (length (arg # args)) []\<rparr> =
      \<lparr>lstCommand = map c_str (ts @ [t]) @ replicate (length args) Null,
       lstCommandSize = map length (ts @ [t]) @ replicate (length args) 0,
       lstCommandBuffer = (ts @ [t]) @ replicate (length args) []\<rparr>"
      by (simp add: expandArgumentStr_def list_update_append)
    with Some Cons.IH [of "ts @ [t]"] show ?thesis
      by (cases "map_opt argument_text args") simp_all
  qed simp
qed (simp add: command_for_def)

lemma make_CCommand_spec: "make_CCommand args = map_option command_for (map_opt argument_text args)"
  using expandArgument_spec [of "[]" args] by (simp add: make_CCommand_def)

lemma command_for_simps [simp]:
  "length (lstCommand (command_for ts)) = length ts" "command_sizes (command_for []) = None"
  "command_sizes (command_for (t # ts)) = Some (map length (t # ts))"
  "fst (move_CCommand (command_for ts)) = command_for ts"
  by (simp_all add: command_for_def command_sizes_def move_CCommand_def)

lemma getKey_command: "getKey (command_for ts) =
    (case ts of _ # k # _ \<Rightarrow> Some (c_str k, length k) | _ \<Rightarrow> Some (Null, 0))"
  by (auto simp: getKey_def command_for_def nth_opt_def split: list.splits)

lemma command_argv: "map_opt deref (lstCommand (command_for ts)) = Some (map (\<lambda>t. t @ [NUL]) ts)"
proof -
  have "map_opt deref (map c_str ts) = Some (map (\<lambda>t. t @ [NUL]) ts)"
    by (induction ts) (simp_all add: c_str_def)
  then show ?thesis by (simp add: command_for_def)
qed

lemma command_vector: "ts \<noteq> [] \<Longrightarrow> vector (map (\<lambda>t. t @ [NUL]) ts) (command_sizes (command_for ts)) ts"
proof -
  assume "ts \<noteq> []"
  then have "command_sizes (command_for ts) = Some (map length ts)" by (simp add: command_sizes_def command_for_def)
  then show ?thesis by (simp add: vector_def arg_len_def nth_opt_def mem_read_def)
qed

text \<open>Of a command that was moved, whoever asks for its key reads past the end of its sizes.\<close>

lemma getKey_moved: "2 \<le> length (lstCommand c) \<Longrightarrow> getKey (snd (move_CCommand c)) = None"
  by (auto simp: getKey_def move_CCommand_def nth_opt_def)

lemma sizes_length: "length ts \<le> length (command ts)"
proof -
  have "length ts \<le> length (concat (map bulk ts))" by (induction ts) (auto simp: bulk_def)
  then show ?thesis by (simp add: command_def)
qed

section \<open>Replies\<close>

fun creply_of :: "resp \<Rightarrow> CReply" where
  "creply_of (RStatus s) = CReply EType_STATUS s 0 []"
| "creply_of (RError s) = CReply EType_ERROR s 0 []"
| "creply_of (RInt i) = CReply EType_INTEGER [] i []"
| "creply_of (RBulk s) = CReply EType_STRING s 0 []"
| "creply_of RNil = CReply EType_NIL [] 0 []"
| "creply_of (RArr vs) = CReply EType_ARRAY [] 0 (map creply_of vs)"

lemmas reply_types = REDIS_REPLY_STRING_def REDIS_REPLY_ARRAY_def REDIS_REPLY_INTEGER_def
  REDIS_REPLY_NIL_def REDIS_REPLY_STATUS_def REDIS_REPLY_ERROR_def

text \<open>The assertions on the numbers of the two enumerations.\<close>

lemma EType_matches:
  "REDIS_REPLY_STRING = EType_STRING" "REDIS_REPLY_STATUS = EType_STATUS" "REDIS_REPLY_ERROR = EType_ERROR"
  "REDIS_REPLY_INTEGER = EType_INTEGER" "REDIS_REPLY_ARRAY = EType_ARRAY" "REDIS_REPLY_NIL = EType_NIL"
  by (simp_all add: reply_types EType_defs)

lemma map_opt_all2: "list_all2 (\<lambda>a v. f a = Some (g v)) as vs \<Longrightarrow> map_opt f as = Some (map g vs)"
  by (induction rule: list_all2_induct) simp_all

lemma make_CReply_denotes:
  assumes "cells h 0 = None"
  shows "denotes (cells h) a v \<Longrightarrow> make_CReply h a = Some (creply_of v)"
proof (induction v arbitrary: a)
  case (RArr vs)
  then obtain c where c: "cells h a = Some c" "rep_type c = REDIS_REPLY_ARRAY"
    "rep_elements c = length vs" "case rep_element c of Ptr es \<Rightarrow> list_all2 (denotes (cells h)) es vs | _ \<Rightarrow> vs = []"
    by (auto split: option.splits)
  have a: "a \<noteq> 0" using assms c(1) by (cases "a = 0") auto
  show ?case
  proof (cases "vs = []")
    case True
    with a c show ?thesis by (subst make_CReply.simps) (simp add: cell_def reply_types EType_defs)
  next
    case False
    with c(4) obtain es where es: "rep_element c = Ptr es" "list_all2 (denotes (cells h)) es vs"
      by (cases "rep_element c") auto
    then have "list_all2 (\<lambda>a v. make_CReply h a = Some (creply_of v)) es vs"
      using RArr.IH by (auto elim!: list.rel_mono_strong)
    then have "map_opt (make_CReply h) es = Some (map creply_of vs)" by (rule map_opt_all2)
    with a c es False list_all2_lengthD [OF es(2)] show ?thesis
      by (subst make_CReply.simps) (simp add: cell_def reply_types EType_defs)
  qed
qed (use assms in \<open>subst make_CReply.simps; auto simp: cell_def reply_types EType_defs std_string_n_def mem_read_def
    split: option.splits ptr.splits\<close>)+


section \<open>What commands leave alone\<close>

text \<open>The strings and the descriptor of a context, and the open descriptors and address lists of its world.\<close>

definition links :: "conn \<Rightarrow> bytes ptr \<times> bytes ptr \<times> bytes ptr \<times> timeval ptr \<times> bytes ptr \<times> int \<times> int list \<times> nat" where
  "links k = (c_host (k_ctx k), c_source_addr (k_ctx k), c_path (k_ctx k), c_timeout (k_ctx k), c_saddr (k_ctx k),
     c_fd (k_ctx k), n_open (k_net k), n_infos (k_net k))"

named_theorems links \<open>calls that leave the links of a context alone\<close>

lemma links_simps [simp]:
  "links (k\<lparr>k_heap := h\<rparr>) = links k" "links (k\<lparr>k_ctx := (k_ctx k)\<lparr>c_reader := r\<rparr>\<rparr>) = links k"
  "links (k\<lparr>k_ctx := (k_ctx k)\<lparr>c_obuf := ob\<rparr>\<rparr>) = links k"
  "links (k\<lparr>k_ctx := (k_ctx k)\<lparr>c_reader := r\<rparr>, k_heap := h\<rparr>) = links k"
  by (simp_all add: links_def)

lemma set_error_links [links]: "set_error lc k type s = Some k' \<Longrightarrow> links k' = links k"
  by (auto simp: set_error_def redisSetError_def links_def split: option.splits if_splits)

lemma net_links [links]:
  "os_recv n (k_net k) = Some (x, n') \<Longrightarrow> links (k\<lparr>k_net := n'\<rparr>) = links k"
  "os_send b (k_net k) = Some (y, n') \<Longrightarrow> links (k\<lparr>k_net := n'\<rparr>) = links k"
  by (auto simp: os_recv_def os_send_def links_def Let_def split: list.splits recv_outcome.splits send_outcome.splits)

lemma NetRead_links [links]: "redisNetRead lc k n = Some (r, bs, k') \<Longrightarrow> links k' = links k"
proof -
  assume r: "redisNetRead lc k n = Some (r, bs, k')"
  then obtain x n' where x: "os_recv n (k_net k) = Some (x, n')"
    by (auto simp: redisNetRead_def bind_eq_Some_conv)
  with r show ?thesis
    by (cases x) (auto simp: redisNetRead_def Let_def bind_eq_Some_conv net_links(1) [OF x] split: if_splits dest!: set_error_links)
qed

lemma NetWrite_links [links]: "redisNetWrite lc k = Some (r, k') \<Longrightarrow> links k' = links k"
proof -
  assume r: "redisNetWrite lc k = Some (r, k')"
  then obtain b x n' where x: "os_send b (k_net k) = Some (x, n')"
    "(case x of SendError e \<Rightarrow> if (e = EWOULDBLOCK \<and> \<not> flag (k_ctx (k\<lparr>k_net := n'\<rparr>)) REDIS_BLOCK) \<or> e = EINTR then Some (- 1, k\<lparr>k_net := n'\<rparr>)
      else do { k \<leftarrow> set_error lc (k\<lparr>k_net := n'\<rparr>) REDIS_ERR_IO None; Some (- 1, k) }
      | Accepted m \<Rightarrow> Some (int m, k\<lparr>k_net := n'\<rparr>)) = Some (r, k')"
    by (auto simp: redisNetWrite_def Let_def bind_eq_Some_conv)
  then show ?thesis
    by (cases x) (auto simp: bind_eq_Some_conv net_links(2) [OF x(1)] split: if_splits dest!: set_error_links)
qed

lemma BufferRead_links [links]: "redisBufferRead A lc k = Some (rc, k') \<Longrightarrow> links k' = links k"
  by (auto simp: redisBufferRead_def redisSslRead_def Let_def bind_eq_Some_conv split: if_splits dest!: links)

lemma BufferWrite_links [links]: "redisBufferWrite A lc k = Some (rc, d, k') \<Longrightarrow> links k' = links k"
  by (auto simp: redisBufferWrite_def redisSslWrite_def Let_def bind_eq_Some_conv split: if_splits dest!: links)

lemma GetReplyFromReader_links [links]: "redisGetReplyFromReader lc k = Some (rc, a, k') \<Longrightarrow> links k' = links k"
  by (auto simp: redisGetReplyFromReader_def Let_def bind_eq_Some_conv split: if_splits dest!: links)

lemma write_links: "write_until_done A lc k = Some x \<Longrightarrow> links (snd x) = links k"
proof (induction rule: write_until_done.raw_induct [rotated, consumes 1, case_names step])
  case (step f A lc k x)
  then obtain rc d k1 where b: "redisBufferWrite A lc k = Some (rc, d, k1)"
    "(if rc = REDIS_ERR then Some (REDIS_ERR, k1) else if d = Some True then Some (REDIS_OK, k1) else f A lc k1) = Some x"
    by (auto simp: bind_eq_Some_conv)
  with step(1) [of A lc k1 x] BufferWrite_links [OF b(1)] show ?case by (auto split: if_splits)
qed

lemma read_links: "read_until_reply A lc k = Some x \<Longrightarrow> links (snd (snd x)) = links k"
proof (induction rule: read_until_reply.raw_induct [rotated, consumes 1, case_names step])
  case (step f A lc k x)
  then obtain rc k1 where b: "redisBufferRead A lc k = Some (rc, k1)"
    "(if rc = REDIS_ERR then Some (REDIS_ERR, 0, k1) else do {
       (rc, aux, k) \<leftarrow> redisGetReplyFromReader lc k1;
       if rc = REDIS_ERR then Some (REDIS_ERR, 0, k)
       else if aux \<noteq> 0 then Some (REDIS_OK, aux, k) else f A lc k }) = Some x"
    by (auto simp: bind_eq_Some_conv)
  show ?case
  proof (cases "rc = REDIS_ERR")
    case True
    with b BufferRead_links [OF b(1)] show ?thesis by auto
  next
    case False
    with b(2) obtain rc2 a k2 where g: "redisGetReplyFromReader lc k1 = Some (rc2, a, k2)"
      "(if rc2 = REDIS_ERR then Some (REDIS_ERR, 0, k2) else if a \<noteq> 0 then Some (REDIS_OK, a, k2) else f A lc k2) = Some x"
      by (auto simp: bind_eq_Some_conv)
    with step(1) [of A lc k2 x] BufferRead_links [OF b(1)] GetReplyFromReader_links [OF g(1)]
    show ?thesis by (auto split: if_splits)
  qed
qed

lemma loop_links [links]:
  "write_until_done A lc k = Some (rc, k') \<Longrightarrow> links k' = links k"
  "read_until_reply A lc k = Some (rc, a, k') \<Longrightarrow> links k' = links k"
  using write_links [of A lc k "(rc, k')"] read_links [of A lc k "(rc, a, k')"] by simp_all

lemma GetReply_links [links]: "redisGetReply A lc k = Some (rc, a, k') \<Longrightarrow> links k' = links k"
  by (auto simp: redisGetReply_def bind_eq_Some_conv split: if_splits dest!: links)

lemma appendCommand_links [links]: "appendCommand A lc k cmd n = Some (rc, k') \<Longrightarrow> links k' = links k"
proof -
  assume r: "appendCommand A lc k cmd n = Some (rc, k')"
  then obtain s x where x: "c_obuf (k_ctx k) = Ptr s" "sdscatlen A s cmd n = Some x"
    by (auto simp: appendCommand_def bind_eq_Some_conv)
  with r show ?thesis
    by (cases x) (auto simp: appendCommand_def bind_eq_Some_conv dest!: set_error_links)
qed

lemma AppendCommandArgv_links [links]:
  "redisAppendCommandArgv A lc k argc argv argvlen = Some (rc, k') \<Longrightarrow> links k' = links k"
  by (auto simp: redisAppendCommandArgv_def bind_eq_Some_conv split: if_splits dest!: links)

lemma CommandArgv_links [links]:
  "redisCommandArgv A lc k argc argv argvlen = Some (a, k') \<Longrightarrow> links k' = links k"
  by (auto simp: redisCommandArgv_def redisBlockForReply_def bind_eq_Some_conv split: if_splits dest!: links)

lemma linked_links: "links k' = links k \<Longrightarrow> linked (k_ctx k') = linked (k_ctx k)"
  by (simp add: links_def linked_def)

lemma owned_links: "links k' = links k \<Longrightarrow> owned M k' = owned M k"
  by (simp add: links_def owned_def)

lemma take_reply_links [links]: "take_reply a k = Some (r, k') \<Longrightarrow> links k' = links k"
  by (auto simp: take_reply_def bind_eq_Some_conv)

section \<open>A connection that is served\<close>

text \<open>
  \<^theory_text>\<open>serves A c q st out\<close>: the connection has a context between two replies; \<^theory_text>\<open>q\<close> has been read and not yet
  used, \<^theory_text>\<open>st\<close> is what the server will send, \<^theory_text>\<open>out\<close> waits to be sent.
\<close>

definition serves :: "allocator \<Rightarrow> CConnection \<Rightarrow> bytes \<Rightarrow> bytes \<Rightarrow> bytes \<Rightarrow> bool" where
  "serves A c q st out \<longleftrightarrow> (\<exists>k. contextPtr (impl c) = Some k \<and> ready A Map.empty k (- 1) [] q out \<and>
     flag (k_ctx k) REDIS_BLOCK \<and> incoming (n_in (k_net k)) = Some st \<and> linked (k_ctx k))"

text \<open>What was sent over a connection, and what the kernel will do with its writes.\<close>

definition sent :: "CConnection \<Rightarrow> bytes" where
  "sent c = (case contextPtr (impl c) of Some k \<Rightarrow> n_sent (k_net k) | None \<Rightarrow> [])"

definition sends :: "CConnection \<Rightarrow> send_outcome list" where
  "sends c = (case contextPtr (impl c) of Some k \<Rightarrow> n_out (k_net k) | None \<Rightarrow> [])"

text \<open>A kernel that takes the next \<^theory_text>\<open>n\<close> writes of at most \<^theory_text>\<open>B\<close> bytes whole.\<close>

definition willing :: "nat \<Rightarrow> nat \<Rightarrow> send_outcome list \<Rightarrow> bool" where
  "willing B n xs \<longleftrightarrow> (\<exists>ms ys. xs = map Accepted ms @ ys \<and> length ms = n \<and> (\<forall>m\<in>set ms. B \<le> m))"

lemma willing_Suc: "willing B (Suc n) xs \<Longrightarrow> willing B n xs"
proof -
  assume "willing B (Suc n) xs"
  then obtain ms ys where "xs = map Accepted ms @ ys" "length ms = Suc n" "\<forall>m\<in>set ms. B \<le> m"
    by (auto simp: willing_def)
  then have "xs = map Accepted (take n ms) @ map Accepted (drop n ms) @ ys" "length (take n ms) = n"
    "\<forall>m\<in>set (take n ms). B \<le> m"
    by (auto simp flip: map_append dest: in_set_takeD)
  then show ?thesis unfolding willing_def by blast
qed

lemma willing_accepts:
  assumes "willing B (Suc n) xs" "l \<le> B"
  shows "accepts xs l" "willing B n (unsent xs l)"
proof -
  obtain m ms ys where x: "xs = Accepted m # map Accepted ms @ ys" "length ms = n" "\<forall>m\<in>set ms. B \<le> m" "B \<le> m"
    using assms(1) by (auto simp: willing_def length_Suc_conv)
  show "accepts xs l" using x(1,4) assms(2) by simp
  show "willing B n (unsent xs l)"
  proof (cases "l = 0")
    case True
    then show ?thesis using willing_Suc [OF assms(1)] by simp
  next
    case False
    then have "unsent xs l = map Accepted ms @ ys" using x(1,4) assms(2) by simp
    with x(2,3) show ?thesis unfolding willing_def by blast
  qed
qed

lemma servesE:
  assumes "serves A c q st out"
  obtains k where "contextPtr (impl c) = Some k" "ready A Map.empty k (- 1) [] q out" "flag (k_ctx k) REDIS_BLOCK"
    "incoming (n_in (k_net k)) = Some st" "sent c = n_sent (k_net k)" "sends c = n_out (k_net k)" "linked (k_ctx k)"
  using assms by (auto simp: serves_def sent_def sends_def)

lemma serves_valid: "serves A c q st out \<Longrightarrow> isValid c" "serves A c q st out \<Longrightarrow> errorNo c = Some 0"
  by (auto simp: serves_def isValid_def errorNo_def conn_defs)

lemma serves_slots [simp]: "serves A (c\<lparr>slotRange := r\<rparr>) q st out = serves A c q st out"
  "sent (c\<lparr>slotRange := r\<rparr>) = sent c" "sends (c\<lparr>slotRange := r\<rparr>) = sends c"
  by (simp_all add: serves_def sent_def sends_def)

text \<open>Taking a reply off the heap: the C++ reply is the tree, and the heap is empty again.\<close>

lemma take_reply_spec:
  assumes "on_heap Map.empty (k_heap k) a (Complete v)" "ready A (cells (k_heap k)) k (- 1) [] q out"
  shows "\<exists>k'. take_reply a k = Some (creply_of v, k') \<and> ready A Map.empty k' (- 1) [] q out \<and>
    k_net k' = k_net k \<and> c_flags (k_ctx k') = c_flags (k_ctx k)"
proof -
  note d = complete_denotes [OF assms(1)]
  have "cells (k_heap k) 0 = None" using d(1,3) by simp
  then have "make_CReply (k_heap k) a = Some (creply_of v)" using make_CReply_denotes d(2) by blast
  moreover obtain h where h: "freeReplyObject a (k_heap k) = Some h" "on_heap Map.empty h 0 (Building [])"
    using d(4) by blast
  moreover have "ready A Map.empty (k\<lparr>k_heap := h\<rparr>) (- 1) [] q out"
  proof -
    have "listening A (cells (k_heap k)) k (- 1) [] q out" using assms(2) by (simp add: ready_def)
    from listening_frame [OF this h(2)] assms(2) show ?thesis by (simp add: ready_def)
  qed
  ultimately show ?thesis by (simp add: take_reply_def)
qed

lemma sendCommand_spec:
  assumes c: "serves A c q st out" and ts: "ts \<noteq> []" and A: "\<And>n. grants A n"
    and len: "length (out @ command ts) \<le> B" "B < 0x7ffff000" and w: "willing B (Suc n) (sends c)"
    and st: "q @ st = encode v @ rest" "resp_ok 0 v" "length (q @ st) + 1024 < 2 ^ 31"
  shows "\<exists>c' q' st' out'. sendCommand A lc c (command_for ts) = Some (creply_of v, c') \<and>
    serves A c' q' st' out' \<and> rest = q' @ st' \<and> sent c' @ out' = sent c @ out @ command ts \<and>
    length out' \<le> length (out @ command ts) \<and> (q = [] \<longrightarrow> out' = []) \<and>
    willing B n (sends c') \<and> slotRange c' = slotRange c"
proof -
  obtain k where k: "contextPtr (impl c) = Some k" "ready A Map.empty k (- 1) [] q out" "flag (k_ctx k) REDIS_BLOCK"
    "incoming (n_in (k_net k)) = Some st" "sent c = n_sent (k_net k)" "sends c = n_out (k_net k)" "linked (k_ctx k)"
    using c by (rule servesE)
  have l: "length (out @ command ts) < 0x7ffff000" "accepts (n_out (k_net k)) (length (out @ command ts))"
    using len willing_accepts(1) [OF w len(1)] k(6) by simp_all
  obtain a k1 out1 q1 st1 where r: "redisCommandArgv A lc k (int (length ts)) (map (\<lambda>t. t @ [NUL]) ts)
      (command_sizes (command_for ts)) = Some (a, k1)" "on_heap Map.empty (k_heap k1) a (Complete v)"
    "ready A (cells (k_heap k1)) k1 (- 1) [] q1 out1" "incoming (n_in (k_net k1)) = Some st1" "rest = q1 @ st1"
    "c_flags (k_ctx k1) = c_flags (k_ctx k)" "n_sent (k_net k1) @ out1 = n_sent (k_net k) @ out @ command ts"
    "length out1 \<le> length (out @ command ts)"
    "n_out (k_net k1) = unsent (n_out (k_net k)) (length (out @ command ts) - length out1)" "q = [] \<longrightarrow> out1 = []"
    using redisCommandArgv_spec [OF k(2,3) A command_vector [OF ts] l k(4) st, of lc] by blast
  obtain k2 where t: "take_reply a k1 = Some (creply_of v, k2)" "ready A Map.empty k2 (- 1) [] q1 out1"
    "k_net k2 = k_net k1" "c_flags (k_ctx k2) = c_flags (k_ctx k1)"
    using take_reply_spec [OF r(2,3)] by blast
  let ?c = "c\<lparr>impl := (impl c)\<lparr>contextPtr := Some k2\<rparr>\<rparr>"
  have "length ts < 2 ^ 31" using sizes_length [of ts] len by simp
  then have "sendCommand A lc c (command_for ts) = Some (creply_of v, ?c)"
    using r(1) t(1) k(1) complete_denotes(1) [OF r(2)]
    by (simp add: sendCommand_def on_context_def command_argv to_int_nat)
  moreover have "linked (k_ctx k2)"
    using linked_links [OF take_reply_links [OF t(1)]] linked_links [OF CommandArgv_links [OF r(1)]] k(7) by simp
  then have "serves A ?c q1 st1 out1" using t r k(3) by (simp add: serves_def flag_def)
  moreover have "length (out @ command ts) - length out1 \<le> B" using len by simp
  then have "willing B n (sends ?c)" using willing_accepts(2) [OF w] r(9) t(3) k(6) by (simp add: sends_def)
  moreover have "sent ?c @ out1 = sent c @ out @ command ts" using r(7) t(3) k(5) by (simp add: sent_def)
  ultimately show ?thesis using r(5,8,10) by (intro exI [of _ ?c] exI [of _ q1] exI [of _ st1] exI [of _ out1]) simp
qed

text \<open>What the connection will receive: each of the replies by itself, and no more than a read can take.\<close>

definition recvs :: "CConnection \<Rightarrow> recv_outcome list" where
  "recvs c = (case contextPtr (impl c) of Some k \<Rightarrow> n_in (k_net k) | None \<Rightarrow> [])"

definition one_by_one :: "resp list \<Rightarrow> recv_outcome list \<Rightarrow> bool" where
  "one_by_one vs ins \<longleftrightarrow> (\<exists>later. ins = map (\<lambda>v. Received (encode v)) vs @ later) \<and> (\<forall>v\<in>set vs. length (encode v) \<le> 1024 * 16)"

lemma one_by_one_simps [simp]: "one_by_one [] ins"
  "one_by_one (v # vs) ins \<longleftrightarrow> length (encode v) \<le> 1024 * 16 \<and> (\<exists>ins'. ins = Received (encode v) # ins' \<and> one_by_one vs ins')"
  by (auto simp: one_by_one_def)

text \<open>Then a reply is read to its end and no further.\<close>

lemma sendCommand_one:
  assumes c: "serves A c [] st out" and ts: "ts \<noteq> []" and A: "\<And>n. grants A n"
    and len: "length (out @ command ts) \<le> B" "B < 0x7ffff000" and w: "willing B (Suc n) (sends c)"
    and r: "sendCommand A lc c (command_for ts) = Some (reply, c')" "serves A c' q' st' out'"
    and st: "st = encode v @ rest" "resp_ok 0 v" "rest = q' @ st'" "one_by_one (v # vs) (recvs c)"
  shows "q' = [] \<and> one_by_one vs (recvs c')"
proof -
  obtain k where k: "contextPtr (impl c) = Some k" "ready A Map.empty k (- 1) [] [] out" "flag (k_ctx k) REDIS_BLOCK"
    "incoming (n_in (k_net k)) = Some st" "sends c = n_out (k_net k)"
    using c by (rule servesE)
  obtain ins where ins: "n_in (k_net k) = Received (encode v) # ins" "length (encode v) \<le> 1024 * 16" "one_by_one vs ins"
    using st(4) k(1) by (auto simp: recvs_def)
  have l: "length (out @ command ts) < 0x7ffff000" "accepts (n_out (k_net k)) (length (out @ command ts))"
    using len willing_accepts(1) [OF w len(1)] k(5) by simp_all
  from redisCommandArgv_one [OF k(2,3) A command_vector [OF ts] l ins(1,2) st(2), of lc] obtain a k1 where k1:
    "redisCommandArgv A lc k (int (length ts)) (map (\<lambda>t. t @ [NUL]) ts) (command_sizes (command_for ts)) = Some (a, k1)"
    "n_in (k_net k1) = ins" by blast
  have "length ts < 2 ^ 31" using sizes_length [of ts] len by simp
  with r(1) k(1) k1(1) obtain k2 where k2: "(if a = 0 then Some (context_error k1, k1) else take_reply a k1) = Some (reply, k2)"
    "contextPtr (impl c') = Some k2"
    by (auto simp: sendCommand_def on_context_def command_argv to_int_nat bind_eq_Some_conv)
  have "k_net k2 = k_net k1" using k2(1) by (auto simp: take_reply_def bind_eq_Some_conv split: if_splits)
  with k1(2) k2(2) have "recvs c' = ins" by (simp add: recvs_def)
  moreover have "incoming (recvs c') = Some st'" using r(2) by (auto simp: serves_def recvs_def)
  moreover have "incoming ins = Some rest" using k(4) ins(1) st(1) by (auto split: if_splits)
  ultimately show ?thesis using ins(3) st(3) by simp
qed

lemma append_command_spec:
  assumes c: "serves A c q st out" and ts: "ts \<noteq> []" and A: "\<And>n. grants A n"
    and len: "length (out @ command ts) < 2 ^ 31"
  shows "\<exists>c'. append_command A lc c (command_for ts) = Some (True, c') \<and>
    serves A c' q st (out @ command ts) \<and> sent c' = sent c \<and> sends c' = sends c \<and> slotRange c' = slotRange c"
proof -
  obtain k where k: "contextPtr (impl c) = Some k" "ready A Map.empty k (- 1) [] q out" "flag (k_ctx k) REDIS_BLOCK"
    "incoming (n_in (k_net k)) = Some st" "sent c = n_sent (k_net k)" "sends c = n_out (k_net k)" "linked (k_ctx k)"
    using c by (rule servesE)
  obtain s where s: "redisAppendCommandArgv A lc k (int (length ts)) (map (\<lambda>t. t @ [NUL]) ts)
      (command_sizes (command_for ts)) = Some (REDIS_OK, k\<lparr>k_ctx := (k_ctx k)\<lparr>c_obuf := Ptr s\<rparr>\<rparr>)"
    "sds_ok s" "sds_str s = out @ command ts"
    using redisAppendCommandArgv_spec [OF k(2) A command_vector [OF ts], of lc] len by auto
  let ?k = "k\<lparr>k_ctx := (k_ctx k)\<lparr>c_obuf := Ptr s\<rparr>\<rparr>"
  let ?c = "c\<lparr>impl := (impl c)\<lparr>contextPtr := Some ?k\<rparr>\<rparr>"
  have "length ts < 2 ^ 31" using sizes_length [of ts] len by simp
  then have "append_command A lc c (command_for ts) = Some (True, ?c)"
    using s(1) k(1) by (simp add: append_command_def on_context_def command_argv to_int_nat redis_err_defs)
  moreover have "serves A ?c q st (out @ command ts)"
    using ready_obuf [OF k(2) s(2)] s(3) k(3,4,7) by (simp add: serves_def flag_def)
  ultimately show ?thesis using k by (intro exI [of _ ?c]) (simp add: sent_def sends_def)
qed

lemma getReply_spec:
  assumes c: "serves A c q st out" and A: "\<And>n. grants A n"
    and len: "length out \<le> B" "B < 0x7ffff000" and w: "willing B (Suc n) (sends c)"
    and st: "q @ st = encode v @ rest" "resp_ok 0 v" "length (q @ st) + 1024 < 2 ^ 31"
  shows "\<exists>c' q' st' out'. getReply A lc c = Some (creply_of v, c') \<and>
    serves A c' q' st' out' \<and> rest = q' @ st' \<and> sent c' @ out' = sent c @ out \<and>
    length out' \<le> length out \<and> (q = [] \<longrightarrow> out' = []) \<and>
    willing B n (sends c') \<and> slotRange c' = slotRange c"
proof -
  obtain k where k: "contextPtr (impl c) = Some k" "ready A Map.empty k (- 1) [] q out" "flag (k_ctx k) REDIS_BLOCK"
    "incoming (n_in (k_net k)) = Some st" "sent c = n_sent (k_net k)" "sends c = n_out (k_net k)" "linked (k_ctx k)"
    using c by (rule servesE)
  have l: "length out < 0x7ffff000" "accepts (n_out (k_net k)) (length out)" "length q + length st + 1024 < 2 ^ 31"
    using len willing_accepts(1) [OF w len(1)] k(6) st(3) by simp_all
  have p: "parse (- 1) (q @ st) [] = Parsed v rest"
    using parse_encode [of "[]" v rest] st by (simp add: continue_def)
  have e: "parse (- 1) [] [] \<noteq> Parsed x y" for x y by (subst parse.simps) (simp add: item_def)
  obtain a k1 out1 q1 st1 where r: "redisGetReply A lc k = Some (REDIS_OK, a, k1)"
    "on_heap Map.empty (k_heap k1) a (Complete v)"
    "ready A (cells (k_heap k1)) k1 (- 1) [] q1 out1" "incoming (n_in (k_net k1)) = Some st1" "rest = q1 @ st1"
    "c_flags (k_ctx k1) = c_flags (k_ctx k)" "n_sent (k_net k1) @ out1 = n_sent (k_net k) @ out"
    "length out1 \<le> length out"
    "n_out (k_net k1) = unsent (n_out (k_net k)) (length out - length out1)"
    "(\<forall>w y. parse (- 1) q [] \<noteq> Parsed w y) \<longrightarrow> out1 = []"
    using redisGetReply_spec [OF k(2,3) A l(1,2) k(4) p l(3), of lc] by blast
  obtain k2 where t: "take_reply a k1 = Some (creply_of v, k2)" "ready A Map.empty k2 (- 1) [] q1 out1"
    "k_net k2 = k_net k1" "c_flags (k_ctx k2) = c_flags (k_ctx k1)"
    using take_reply_spec [OF r(2,3)] by blast
  let ?c = "c\<lparr>impl := (impl c)\<lparr>contextPtr := Some k2\<rparr>\<rparr>"
  have "getReply A lc c = Some (creply_of v, ?c)"
    using r(1) t(1) k(1) by (simp add: getReply_def on_context_def redis_err_defs)
  moreover have "linked (k_ctx k2)"
    using linked_links [OF take_reply_links [OF t(1)]] linked_links [OF GetReply_links [OF r(1)]] k(7) by simp
  then have "serves A ?c q1 st1 out1" using t r k(3) by (simp add: serves_def flag_def)
  moreover have "length out - length out1 \<le> B" using len by simp
  then have "willing B n (sends ?c)" using willing_accepts(2) [OF w] r(9) t(3) k(6) by (simp add: sends_def)
  moreover have "sent ?c @ out1 = sent c @ out" using r(7) t(3) k(5) by (simp add: sent_def)
  moreover have "q = [] \<longrightarrow> out1 = []" using r(10) e by blast
  ultimately show ?thesis using r(5,8) by (intro exI [of _ ?c] exI [of _ q1] exI [of _ st1] exI [of _ out1]) simp
qed

text \<open>\<^theory_text>\<open>owns M c\<close>: the descriptors that are open in the world of the connection are \<^theory_text>\<open>M\<close> and its own.\<close>

definition owns :: "int multiset \<Rightarrow> CConnection \<Rightarrow> bool" where
  "owns M c \<longleftrightarrow> (\<exists>k. contextPtr (impl c) = Some k \<and> owned M k)"

lemma on_context_owns:
  assumes "on_context f c = Some (x, c')" "owns M c" "\<And>k k'. f k = Some (x, k') \<Longrightarrow> links k' = links k"
  shows "owns M c'"
proof -
  obtain k k' where k: "contextPtr (impl c) = Some k" "owned M k" "f k = Some (x, k')"
    "c' = c\<lparr>impl := (impl c)\<lparr>contextPtr := Some k'\<rparr>\<rparr>"
    using assms(1,2) by (auto simp: owns_def on_context_def bind_eq_Some_conv)
  have "owned M k'" using owned_links [OF assms(3) [OF k(3)]] k(2) by simp
  with k(4) show ?thesis by (simp add: owns_def)
qed

lemma sendCommand_owns: "sendCommand A lc c cmd = Some (r, c') \<Longrightarrow> owns M c \<Longrightarrow> owns M c'"
  unfolding sendCommand_def
proof (erule on_context_owns, assumption)
  fix k k'
  assume "do { argv \<leftarrow> map_opt deref (lstCommand cmd);
      (rawReply, k) \<leftarrow> redisCommandArgv A lc k (to_int (int (length (lstCommand cmd)))) argv (command_sizes cmd);
      if rawReply = 0 then Some (context_error k, k) else take_reply rawReply k } = Some (r, k')"
  then obtain argv a k1 where
    "redisCommandArgv A lc k (to_int (int (length (lstCommand cmd)))) argv (command_sizes cmd) = Some (a, k1)"
    "(if a = 0 then Some (context_error k1, k1) else take_reply a k1) = Some (r, k')"
    by (auto simp: bind_eq_Some_conv)
  then show "links k' = links k"
    using CommandArgv_links [of A lc k _ _ _ a k1] take_reply_links [of a k1 r k'] by (auto split: if_splits)
qed

lemma append_command_owns: "append_command A lc c cmd = Some (ok, c') \<Longrightarrow> owns M c \<Longrightarrow> owns M c'"
  unfolding append_command_def
  by (erule on_context_owns, assumption) (auto simp: bind_eq_Some_conv dest: AppendCommandArgv_links)

lemma getReply_owns: "getReply A lc c = Some (r, c') \<Longrightarrow> owns M c \<Longrightarrow> owns M c'"
  unfolding getReply_def
proof (erule on_context_owns, assumption)
  fix k k'
  assume "do { (rc, rawReply, k) \<leftarrow> redisGetReply A lc k;
      if rc = REDIS_ERR then Some (context_error k, k) else take_reply rawReply k } = Some (r, k')"
  then obtain rc a k1 where "redisGetReply A lc k = Some (rc, a, k1)"
    "(if rc = REDIS_ERR then Some (context_error k1, k1) else take_reply a k1) = Some (r, k')"
    by (auto simp: bind_eq_Some_conv)
  then show "links k' = links k"
    using GetReply_links [of A lc k rc a k1] take_reply_links [of a k1 r k'] by (auto split: if_splits)
qed

text \<open>A connection that serves can be deleted: its context is freed and its descriptor closed.\<close>

lemma serves_delete:
  assumes "serves A c q st out" "owns M c"
  shows "\<exists>n. delete_CConnection c w = Some (w\<lparr>w_closed := n # w_closed w, w_objects := w_objects w - 1\<rparr>) \<and>
    n_sent n = sent c \<and> mset (n_open n) = M"
proof -
  obtain k where k: "contextPtr (impl c) = Some k" "ready A Map.empty k (- 1) [] q out" "linked (k_ctx k)"
    "sent c = n_sent (k_net k)" "owned M k"
    using assms by (auto simp: serves_def owns_def sent_def)
  have "disposable A Map.empty k" using k(2,3) by (auto simp: ready_def listening_def disposable_def linked_def)
  from redisFree_ok [OF this] obtain h where "redisFree (Ptr (k_ctx k)) (k_heap k) (k_net k) = Some (h, k_net (redisNetClose k))"
    by blast
  moreover have "n_sent (k_net (redisNetClose k)) = n_sent (k_net k)" "owned M (redisNetClose k)"
    using close_keeps(1) [of k] k(5) by (simp_all add: keeps_def)
  moreover from this have "mset (n_open (k_net (redisNetClose k))) = M" using close_keeps(3) [of k] by (simp add: owned_def)
  ultimately show ?thesis using k(1,4)
    by (intro exI [of _ "k_net (redisNetClose k)"]) (simp add: delete_CConnection_def reset_context_def)
qed

section \<open>Connecting\<close>

text \<open>
  A context that has just been made from the script \<^theory_text>\<open>n\<close>: nothing was read or sent, the descriptors that
  are open are those of before and its own.
\<close>

definition made_from :: "allocator \<Rightarrow> net \<Rightarrow> conn \<Rightarrow> bool" where
  "made_from A n k \<longleftrightarrow> k_heap k = empty_heap \<and> owned (mset (n_open n)) k \<and> n_infos (k_net k) = n_infos n \<and>
     n_in (k_net k) = n_in n \<and> n_out (k_net k) = n_out n \<and> n_sent (k_net k) = n_sent n \<and>
     c_flags (k_ctx k) OR REDIS_CONNECTED = REDIS_BLOCK OR REDIS_CONNECTED \<and> linked (k_ctx k) \<and>
     (\<exists>s. c_obuf (k_ctx k) = Ptr s \<and> sds_ok s \<and> sds_str s = []) \<and>
     (\<exists>r. c_reader (k_ctx k) = Ptr r \<and> fresh_reader A r)"

lemma made_from_keeps: "made_from A n k \<Longrightarrow> keeps k k' \<Longrightarrow> made_from A n k'"
  by (simp add: made_from_def keeps_def)

lemma ContextInit_made:
  assumes "redisContextInit A empty_heap n = Some (Ptr c, h, n')"
  shows "made_from A n \<lparr>k_ctx = c\<lparr>c_flags := REDIS_BLOCK\<rparr>, k_heap = h, k_net = n'\<rparr>" "c_err c = 0" "c_flags c = 0"
    "c_fd c = REDIS_INVALID_FD"
proof -
  obtain ob r where o: "sdsempty A = Some ob" "redisReaderCreate A = Some r" "ob \<noteq> Null" "r \<noteq> Null"
    "c = blank_context ob r" "h = empty_heap" "n' = n"
    using assms by (auto simp: redisContextInit_def Let_def bind_eq_Some_conv split: if_splits)
  obtain s where s: "ob = Ptr s" "sds_ok s" "sds_str s = []" using sdsempty_spec [of A] o(1,3) by auto
  obtain r' where r: "r = Ptr r'" "fresh_reader A r'"
    by (rule create_reader [of A]) (use o(2,4) in auto)
  show "made_from A n \<lparr>k_ctx = c\<lparr>c_flags := REDIS_BLOCK\<rparr>, k_heap = h, k_net = n'\<rparr>"
    using o s r by (auto simp: made_from_def blank_context_def owned_def linked_def)
  show "c_err c = 0" "c_flags c = 0" "c_fd c = REDIS_INVALID_FD" using o(5) by (simp_all add: blank_context_def)
qed

lemma ConnectWithTimeout_made:
  assumes "redisConnectWithTimeout A lc empty_heap n host port tv = Some (Ptr k)"
  shows "made_from A n k" "c_err (k_ctx k) = 0 \<Longrightarrow> c_fd (k_ctx k) \<noteq> REDIS_INVALID_FD"
proof -
  let ?opt = "tcp_options 0 (Some tv) None host port"
  have o: "o_timeout ?opt = Some tv" "option_flags (o_options ?opt) = REDIS_BLOCK"
    by (simp_all add: tcp_options_def option_flags_def REDIS_OPT_NOAUTOFREE_def REDIS_OPT_REUSEADDR_def)
  obtain c h n' where i: "redisContextInit A empty_heap n = Some (Ptr c, h, n')"
    using assms by (auto simp: redisConnectWithTimeout_def redisConnectWithOptions_def bind_eq_Some_conv split: if_splits)
  note c = ContextInit_made [OF i]
  let ?k0 = "\<lparr>k_ctx = c\<lparr>c_flags := REDIS_BLOCK\<rparr>, k_heap = h, k_net = n'\<rparr>"
  have m: "redisConnectWithTimeout A lc empty_heap n host port tv = do {
      q \<leftarrow> connect_endpoint A lc ?k0 ?opt;
      if q = Null then Some Null else do {
        k \<leftarrow> deref q;
        if flag (k_ctx k) REDIS_BLOCK \<and> c_fd (k_ctx k) \<noteq> REDIS_INVALID_FD
        then do { (_, k) \<leftarrow> redisContextSetTimeout lc k tv; Some (Ptr k) } else Some (Ptr k) } }"
    using i c(3) o by (simp add: redisConnectWithTimeout_def redisConnectWithOptions_def cong: if_cong)
  obtain rc k1 where k1: "redisContextConnectBindTcp A lc ?k0 (Given host) port (Given tv) NullArg = Some (rc, k1)"
    "connect_endpoint A lc ?k0 ?opt = Some (Ptr k1)"
    using assms unfolding m by (auto simp: connect_endpoint_def tcp_options_def given_def bind_eq_Some_conv)
  have b: "\<not> flag (k_ctx ?k0) REDIS_REUSEADDR" by (simp add: flag_def REDIS_BLOCK_def REDIS_REUSEADDR_def)
  note ok = ConnectBindTcp_ok [OF k1(1)]
  have k1': "keeps ?k0 k1" "c_err (k_ctx k1) = 0 \<Longrightarrow> c_fd (k_ctx k1) \<noteq> REDIS_INVALID_FD"
    using ok c(4) b by (auto split: if_splits)
  consider "k = k1" | rc2 where "redisContextSetTimeout lc k1 tv = Some (rc2, k)"
    using assms k1(2) unfolding m by (auto simp: bind_eq_Some_conv split: if_splits)
  then have "keeps k1 k \<and> (c_err (k_ctx k) = 0 \<longrightarrow> c_err (k_ctx k1) = 0 \<and> c_fd (k_ctx k) = c_fd (k_ctx k1))"
  proof cases
    case (2 rc2)
    from yieldsD [OF yields_SetTimeout this] show ?thesis by (rule outcome_cases) auto
  qed simp
  with k1' made_from_keeps [OF c(1)] show "made_from A n k" "c_err (k_ctx k) = 0 \<Longrightarrow> c_fd (k_ctx k) \<noteq> REDIS_INVALID_FD"
    by (auto intro: made_from_keeps)
qed

text \<open>A context without an error serves what the script says.\<close>

lemma made_from_serves:
  assumes "made_from A n k" "c_err (k_ctx k) = 0" "incoming (n_in n) = Some st"
  shows "serves A (c\<lparr>impl := i\<lparr>contextPtr := Some k\<rparr>\<rparr>) [] st []"
proof -
  obtain s r where s: "c_obuf (k_ctx k) = Ptr s" "sds_ok s" "sds_str s = []"
    and r: "c_reader (k_ctx k) = Ptr r" "fresh_reader A r"
    using assms(1) by (auto simp: made_from_def)
  have h: "on_heap Map.empty (k_heap k) 0 (Building [])"
    using assms(1) by (simp add: made_from_def on_heap_def empty_heap_def)
  have x: "c_flags (k_ctx k) AND f = REDIS_BLOCK AND f" if "REDIS_CONNECTED AND f = 0" for f
  proof -
    have "(c_flags (k_ctx k) OR REDIS_CONNECTED) AND f = (REDIS_BLOCK OR REDIS_CONNECTED) AND f"
      using assms(1) by (simp add: made_from_def)
    then show ?thesis using that by (simp add: bit.conj_disj_distrib2)
  qed
  have f: "flag (k_ctx k) REDIS_BLOCK" "\<not> flag (k_ctx k) REDIS_SSL"
    using x [of REDIS_BLOCK] x [of REDIS_SSL] by (simp_all add: flag_def REDIS_BLOCK_def REDIS_CONNECTED_def REDIS_SSL_def)
  have rest: "resting (on_heap Map.empty) r (k_heap k) (- 1) []" using fresh_resting [OF r(2) h] .
  have "buf_ok r" using resting_buf [OF rest] by simp
  then have "r_pos r = 0" using r(2) by (auto elim: buf_okD simp: fresh_reader_def)
  with rest have "ready A Map.empty k (- 1) [] [] []"
    using assms(2) s r f(2) by (auto simp: ready_def listening_def fresh_reader_def erase_def pending_def)
  then show ?thesis using assms(1,3) f(1) by (simp add: serves_def made_from_def)
qed

text \<open>Freeing a context closes its descriptor.\<close>

lemma reset_made:
  assumes "owned M k" "reset_context (Some k) w = Some w'"
  obtains n where "w' = w\<lparr>w_closed := n # w_closed w\<rparr>" "mset (n_open n) = M" "n_infos n = n_infos (k_net k)"
proof -
  have p: "k_net (redisNetClose \<lparr>k_ctx = k_ctx k, k_heap = h, k_net = k_net k\<rparr>) = k_net (redisNetClose k)" for h
    by (simp add: redisNetClose_def)
  have "w' = w\<lparr>w_closed := k_net (redisNetClose k) # w_closed w\<rparr>"
    using assms(2) p by (auto simp: reset_context_def redisFree_def bind_eq_Some_conv split: if_splits)
  moreover have "mset (n_open (k_net (redisNetClose k))) = M" "n_infos (k_net (redisNetClose k)) = n_infos (k_net k)"
    using assms(1) close_keeps [of k] by (auto simp: keeps_def owned_def)
  ultimately show ?thesis by (rule that)
qed

lemma SetTimeout_keeps: "redisSetTimeout lc k tv = Some (rc, k') \<Longrightarrow> keeps k k'"
  using yieldsD [OF yields_SetTimeout] outcome_keeps by (fastforce simp: redisSetTimeout_def split: if_splits)

text \<open>
  \<^verbatim>\<open>connect\<close>: with the next script of the world, a connection without a context gets one, or stays
  without one and has closed everything that it opened.
\<close>

definition connected_from :: "allocator \<Rightarrow> net \<Rightarrow> CConnection \<Rightarrow> bool" where
  "connected_from A n c \<longleftrightarrow> (\<exists>k. contextPtr (impl c) = Some k \<and> made_from A n k)"

definition closed_from :: "net \<Rightarrow> net \<Rightarrow> bool" where
  "closed_from n n' \<longleftrightarrow> mset (n_open n') = mset (n_open n) \<and> n_infos n' = n_infos n"

lemma connect_cases:
  assumes "connect A lc c host port sec w = Some (ok, c', w')" "contextPtr (impl c) = None"
  obtains n where "w_nets w = n # w_nets w'" "ok" "slotRange c' = slotRange c" "connected_from A n c'"
      "w_closed w' = w_closed w" "w_objects w' = w_objects w" "w_rand w' = w_rand w"
  | n n' where "w_nets w = n # w_nets w'" "\<not> ok" "slotRange c' = slotRange c" "contextPtr (impl c') = None"
      "w_closed w' = n' # w_closed w" "closed_from n n'" "w_objects w' = w_objects w" "w_rand w' = w_rand w"
proof -
  obtain h i where h: "reconnect A lc ((impl c)\<lparr>host_name := h, host_port := Some port, timeoutSec := Some sec\<rparr>) w =
      Some (ok, i, w')" "c' = c\<lparr>impl := i\<rparr>"
    using assms(1) by (auto simp: connect_def bind_eq_Some_conv)
  define tv where "tv = \<lparr>tv_sec = uint sec, tv_usec = 0\<rparr>"
  obtain h' where h': "std_string (c_str h) = Some h'" using h(1) by (auto simp: reconnect_def bind_eq_Some_conv)
  obtain n nets where n: "w_nets w = n # nets"
    using h(1) h' by (cases "w_nets w") (auto simp: reconnect_def bind_eq_Some_conv)
  obtain k where k: "redisConnectWithTimeout A lc empty_heap n h' (uint port) tv = Some (Ptr k)"
    using h(1) h' n assms(2) by (auto simp: reconnect_def bind_eq_Some_conv reset_context_def tv_def Let_def)
  note made = ConnectWithTimeout_made [OF k]
  let ?w = "w\<lparr>w_nets := nets\<rparr>"
  let ?i = "(impl c)\<lparr>host_name := h, host_port := Some port, timeoutSec := Some sec\<rparr>"
  have r: "reconnect A lc ?i w =
      (if c_err (k_ctx k) \<noteq> 0 then do {
         w \<leftarrow> reset_context (Some k) ?w;
         Some (False, ?i\<lparr>contextPtr := None\<rparr>, w) }
       else if sec \<noteq> 0 then do { (_, k) \<leftarrow> redisSetTimeout lc k tv; Some (True, ?i\<lparr>contextPtr := Some k\<rparr>, ?w) }
       else Some (True, ?i\<lparr>contextPtr := Some k\<rparr>, ?w))"
    using h' n k assms(2) by (simp add: reconnect_def reset_context_def tv_def redis_err_defs)
  show ?thesis
  proof (cases "c_err (k_ctx k) = 0")
    case False
    then obtain w1 where w1: "reset_context (Some k) ?w = Some w1" "ok = False" "i = ?i\<lparr>contextPtr := None\<rparr>" "w' = w1"
      using h(1) r by (auto simp: bind_eq_Some_conv)
    have "owned (mset (n_open n)) k" using made(1) by (simp add: made_from_def)
    then show ?thesis
    proof (rule reset_made [OF _ w1(1)])
      fix n' assume "w1 = ?w\<lparr>w_closed := n' # w_closed ?w\<rparr>" "mset (n_open n') = mset (n_open n)"
        "n_infos n' = n_infos (k_net k)"
      with w1 n h(2) made(1) show ?thesis
        by (intro that(2) [of n n']) (simp_all add: closed_from_def made_from_def)
    qed
  next
    case True
    obtain k' where k': "keeps k k'" "ok" "i = ?i\<lparr>contextPtr := Some k'\<rparr>" "w' = ?w"
    proof (cases "sec = 0")
      case True
      with \<open>c_err (k_ctx k) = 0\<close> h(1) r show ?thesis by (intro that [of k]) simp_all
    next
      case False
      with True h(1) r obtain rc k' where "redisSetTimeout lc k tv = Some (rc, k')" "ok" "i = ?i\<lparr>contextPtr := Some k'\<rparr>" "w' = ?w"
        by (auto simp: bind_eq_Some_conv)
      then show ?thesis by (intro that [of k']) (auto dest: SetTimeout_keeps)
    qed
    with n h(2) made_from_keeps [OF made(1)] show ?thesis
      by (intro that(1) [of n]) (auto simp: connected_from_def)
  qed
qed

lemma connected_serves:
  assumes "connected_from A n c" "errorNo c = Some 0" "incoming (n_in n) = Some st"
  shows "serves A c [] st []" "sent c = n_sent n" "sends c = n_out n"
proof -
  obtain k where k: "contextPtr (impl c) = Some k" "made_from A n k" using assms(1) by (auto simp: connected_from_def)
  then have "c_err (k_ctx k) = 0" using assms(2) by (simp add: errorNo_def)
  from made_from_serves [OF k(2) this assms(3), where c = c and i = "impl c"] k(1) show "serves A c [] st []"
    by (simp add: serves_def)
  show "sent c = n_sent n" "sends c = n_out n" using k by (simp_all add: sent_def sends_def made_from_def)
qed

unbundle bit_operations_syntax

section \<open>A connection that comes about\<close>

text \<open>From the arguments to the loop, with a timeout.\<close>

lemma ConnectBindTcp_loop:
  assumes "n_sys (k_net k) = Addresses as # rest" "as \<noteq> []" "\<And>n. grants A n"
    "c_host (k_ctx k) = Null" "c_timeout (k_ctx k) = Null" "c_source_addr (k_ctx k) = Null"
    "0 \<le> tv_sec tv" "tv_sec tv < 2 ^ 32" "tv_usec tv = 0"
  shows "\<exists>k1 msec. redisContextConnectBindTcp A lc k (Given ip) port (Given tv) NullArg = do {
      (rv, k) \<leftarrow> connect_loop A lc AF_INET (flag (k_ctx k) REDIS_BLOCK) (flag (k_ctx k) REDIS_REUSEADDR) msec k1 as 0;
      n \<leftarrow> os_freeaddrinfo (k_net k);
      Some (rv, k\<lparr>k_net := n\<rparr>) } \<and>
    n_sys (k_net k1) = rest \<and> c_source_addr (k_ctx k1) = Null \<and> c_saddr (k_ctx k1) = c_saddr (k_ctx k) \<and>
    c_err (k_ctx k1) = c_err (k_ctx k) \<and> c_flags (k_ctx k1) = c_flags (k_ctx k) \<and>
    n_infos (k_net k1) = Suc (n_infos (k_net k))"
proof -
  let ?c = "(k_ctx k)\<lparr>c_connection_type := REDIS_CONN_TCP, c_port := port, c_host := Ptr ip, c_timeout := Ptr tv,
    c_source_addr := Null\<rparr>"
  let ?n = "(k_net k)\<lparr>n_sys := rest, n_calls := Get_addresses (Ptr ip) (Some (take 5 (sdec port))) AF_INET #
    n_calls (k_net k), n_infos := Suc (n_infos (k_net k))\<rparr>"
  have "(999 :: int) sdiv 1000 = 0" by (simp add: signed_divide_int_def)
  then have "\<exists>msec. redisContextTimeoutMsec ((k_ctx k)\<lparr>c_connection_type := REDIS_CONN_TCP, c_port := port,
      c_host := Ptr ip, c_timeout := Ptr tv\<rparr>) = Some (REDIS_OK, msec)"
    using assms(7,8,9) by (simp add: redisContextTimeoutMsec_def MAX_MSEC_def signed_divide_int_def Let_def)
  then obtain msec where m: "redisContextTimeoutMsec ((k_ctx k)\<lparr>c_connection_type := REDIS_CONN_TCP, c_port := port,
      c_host := Ptr ip, c_timeout := Ptr tv\<rparr>) = Some (REDIS_OK, msec)" by blast
  have "resolve (k\<lparr>k_ctx := ?c\<rparr>) (Given ip) (take 5 (sdec port)) =
      Some (Inr as, AF_INET, k\<lparr>k_ctx := ?c, k_net := ?n\<rparr>)"
    using assms(1,2) by (simp add: resolve_def os_getaddrinfo_def os_call_def)
  with m assms(3-6) show ?thesis
    by (intro exI [of _ "k\<lparr>k_ctx := ?c, k_net := ?n\<rparr>"] exI [of _ msec])
      (simp add: redisContextConnectBindTcp_def save_host_def strdup_def save_timeout_def save_source_def)
qed

lemma SetTimeout_Result:
  "n_sys (k_net k) = Result 0 # Result 0 # rest \<Longrightarrow>
   \<exists>cs. redisContextSetTimeout lc k tv = Some (REDIS_OK, answered k rest cs)"
  by (auto simp: redisContextSetTimeout_def call_Result)

text \<open>
  The answers by which a connection comes about: the address lists of the host, of which the first ones
  cannot be reached, and then a socket, whose options can be set.
\<close>

definition answers_to_connect :: "bool \<Rightarrow> answer list \<Rightarrow> bool" where
  "answers_to_connect timeout as \<longleftrightarrow> (\<exists>bad p qs rs s fl fl' rest. length rs = length bad \<and>
     as = Addresses (bad @ p # qs) # concat (map (refused EHOSTUNREACH) rs) @ accepted True s fl fl' @
       Result 0 # Result 0 # (if timeout then [Result 0, Result 0] else []) @ rest)"

lemma ConnectWithTimeout_succeeds:
  assumes "answers_to_connect t (n_sys n)" "\<And>n. grants A n" "0 \<le> tv_sec tv" "tv_sec tv < 2 ^ 32" "tv_usec tv = 0"
  shows "\<exists>k. redisConnectWithTimeout A lc empty_heap n host port tv = Some (Ptr k) \<and> c_err (k_ctx k) = 0 \<and>
    flag (k_ctx k) REDIS_BLOCK \<and> (t \<longrightarrow> (\<exists>rest. n_sys (k_net k) = Result 0 # Result 0 # rest))"
proof -
  obtain bad p qs rs s fl fl' rest where as: "length rs = length bad"
    "n_sys n = Addresses (bad @ p # qs) # concat (map (refused EHOSTUNREACH) rs) @ accepted True s fl fl' @
       Result 0 # Result 0 # (if t then [Result 0, Result 0] else []) @ rest"
    using assms(1) by (auto simp: answers_to_connect_def)
  let ?rest = "Result 0 # Result 0 # (if t then [Result 0, Result 0] else []) @ rest"
  let ?opt = "tcp_options 0 (Some tv) None host port"
  have o: "o_timeout ?opt = Some tv" "option_flags (o_options ?opt) = REDIS_BLOCK"
    by (simp_all add: tcp_options_def option_flags_def REDIS_OPT_NOAUTOFREE_def REDIS_OPT_REUSEADDR_def)
  obtain ob where ob: "sdsempty A = Some (Ptr ob)" using sdsempty_granted [OF assms(2)] by blast
  obtain r where r: "redisReaderCreate A = Some (Ptr r)"
    by (rule create_reader [of A]) (use assms(2) in \<open>auto simp: may_fail_def\<close>)
  define c where "c = (blank_context (Ptr ob) (Ptr r))\<lparr>c_flags := REDIS_BLOCK\<rparr>"
  let ?k0 = "\<lparr>k_ctx = c, k_heap = empty_heap, k_net = n\<rparr>"
  have i: "redisContextInit A empty_heap n = Some (Ptr (blank_context (Ptr ob) (Ptr r)), empty_heap, n)"
    using ob r assms(2) by (simp add: redisContextInit_def)
  have b: "flag c REDIS_BLOCK" by (simp add: c_def flag_def REDIS_BLOCK_def)
  have c: "c_host c = Null" "c_timeout c = Null" "c_source_addr c = Null" "c_saddr c = Null" "c_err c = 0"
    by (simp_all add: c_def blank_context_def)
  have "n_sys (k_net ?k0) = Addresses (bad @ p # qs) #
      (concat (map (refused EHOSTUNREACH) rs) @ accepted True s fl fl' @ ?rest)"
    using as(2) by simp
  from ConnectBindTcp_loop [OF this _ assms(2) _ _ _ assms(3-5), of lc host port] c obtain k1 msec where k1:
    "redisContextConnectBindTcp A lc ?k0 (Given host) port (Given tv) NullArg = do {
      (rv, k) \<leftarrow> connect_loop A lc AF_INET (flag c REDIS_BLOCK) (flag c REDIS_REUSEADDR) msec k1 (bad @ p # qs) 0;
      n \<leftarrow> os_freeaddrinfo (k_net k);
      Some (rv, k\<lparr>k_net := n\<rparr>) }"
    "n_sys (k_net k1) = concat (map (refused EHOSTUNREACH) rs) @ accepted True s fl fl' @ ?rest"
    "c_source_addr (k_ctx k1) = Null" "c_saddr (k_ctx k1) = Null" "c_err (k_ctx k1) = 0"
    "c_flags (k_ctx k1) = c_flags c" "n_infos (k_net k1) = Suc (n_infos n)"
    by auto
  have "c_saddr (k_ctx k1) \<noteq> Dangling" using k1(4) by simp
  from connect_loop_skips [OF k1(2) as(1) k1(3) this assms(2), of lc AF_INET "flag c REDIS_REUSEADDR" msec p qs 0]
  obtain k2 where k2: "connect_loop A lc AF_INET True (flag c REDIS_REUSEADDR) msec k1 (bad @ p # qs) 0 = Some (REDIS_OK, k2)"
    "c_fd (k_ctx k2) = int s" "c_err (k_ctx k2) = 0" "c_flags (k_ctx k2) = c_flags c OR REDIS_CONNECTED"
    "n_infos (k_net k2) = Suc (n_infos n)" "n_sys (k_net k2) = ?rest"
    using k1(5,6,7) by auto
  obtain n3 where n3: "os_freeaddrinfo (k_net k2) = Some n3" "n_sys n3 = ?rest"
    using k2(5,6) by (simp add: os_freeaddrinfo_def)
  let ?k3 = "k2\<lparr>k_net := n3\<rparr>"
  have e: "connect_endpoint A lc ?k0 ?opt = Some (Ptr ?k3)"
    using k1(1) k2(1) n3(1) b by (simp add: connect_endpoint_def tcp_options_def given_def)
  have f: "flag (k_ctx ?k3) REDIS_BLOCK" "c_fd (k_ctx ?k3) \<noteq> REDIS_INVALID_FD"
    using k2(2,4) b by (simp_all add: flag_def REDIS_INVALID_FD_def c_def REDIS_BLOCK_def REDIS_CONNECTED_def)
  have "n_sys (k_net ?k3) = Result 0 # Result 0 # (if t then [Result 0, Result 0] else []) @ rest" using n3(2) by simp
  from SetTimeout_Result [OF this, of lc tv] obtain cs where
    "redisContextSetTimeout lc ?k3 tv = Some (REDIS_OK, answered ?k3 ((if t then [Result 0, Result 0] else []) @ rest) cs)"
    by blast
  with i o e f have "redisConnectWithTimeout A lc empty_heap n host port tv =
      Some (Ptr (answered ?k3 ((if t then [Result 0, Result 0] else []) @ rest) cs))"
    by (simp add: redisConnectWithTimeout_def redisConnectWithOptions_def c_def blank_context_def)
  with f k2(3) show ?thesis by (intro exI [of _ "answered ?k3 ((if t then [Result 0, Result 0] else []) @ rest) cs"]) simp
qed

text \<open>Then \<^verbatim>\<open>connect\<close> returns true, and the connection serves what the script of its world says.\<close>

lemma std_string_c_str: "std_string (c_str s) = Some (takeWhile (\<lambda>x. x \<noteq> NUL) s)"
proof -
  have "c_strlen (s @ [NUL]) = Some (length (takeWhile (\<lambda>x. x \<noteq> NUL) s))" by (induction s) auto
  moreover have "length (takeWhile (\<lambda>x. x \<noteq> NUL) s) \<le> length s" by (rule length_takeWhile_le)
  ultimately show ?thesis by (simp add: std_string_def c_str_def takeWhile_eq_take [symmetric])
qed

lemma connect_succeeds:
  assumes "w_nets w = n # nets" "answers_to_connect (sec \<noteq> 0) (n_sys n)" "\<And>n. grants A n"
    "contextPtr (impl c) = None" "incoming (n_in n) = Some st"
  shows "\<exists>c'. connect A lc c (c_str host) port sec w = Some (True, c', w\<lparr>w_nets := nets\<rparr>) \<and>
    serves A c' [] st [] \<and> owns (mset (n_open n)) c' \<and> sent c' = n_sent n \<and> sends c' = n_out n \<and>
    slotRange c' = slotRange c \<and> host_name (impl c') = takeWhile (\<lambda>x. x \<noteq> NUL) host \<and>
    host_port (impl c') = Some port"
proof -
  define h where "h = takeWhile (\<lambda>x. x \<noteq> NUL) host"
  have h: "std_string (c_str host) = Some h" "std_string (c_str h) = Some h"
    by (simp_all add: h_def std_string_c_str)
  define tv where "tv = \<lparr>tv_sec = uint sec, tv_usec = 0\<rparr>"
  have tv: "0 \<le> tv_sec tv" "tv_sec tv < 2 ^ 32" "tv_usec tv = 0"
    using unsigned_less [of sec, where ?'a = int] by (simp_all add: tv_def)
  obtain k where k: "redisConnectWithTimeout A lc empty_heap n h (uint port) tv = Some (Ptr k)" "c_err (k_ctx k) = 0"
    "flag (k_ctx k) REDIS_BLOCK" "sec \<noteq> 0 \<longrightarrow> (\<exists>rest. n_sys (k_net k) = Result 0 # Result 0 # rest)"
    using ConnectWithTimeout_succeeds [OF assms(2,3) tv, of lc h "uint port"] by blast
  obtain k' where k': "sec \<noteq> 0 \<Longrightarrow> redisSetTimeout lc k tv = Some (REDIS_OK, k')" "sec = 0 \<Longrightarrow> k' = k"
    "c_err (k_ctx k') = 0"
  proof (cases "sec = 0")
    case False
    with k(4) obtain rest where "n_sys (k_net k) = Result 0 # Result 0 # rest" by blast
    from SetTimeout_Result [OF this, of lc tv] obtain cs where
      "redisContextSetTimeout lc k tv = Some (REDIS_OK, answered k rest cs)" by blast
    with k(2,3) False show ?thesis by (intro that [of "answered k rest cs"]) (simp_all add: redisSetTimeout_def)
  qed (use that k(2) in simp)
  let ?i = "(impl c)\<lparr>host_name := h, host_port := Some port, timeoutSec := Some sec, contextPtr := Some k'\<rparr>"
  let ?c = "c\<lparr>impl := ?i\<rparr>"
  have r: "connect A lc c (c_str host) port sec w = Some (True, ?c, w\<lparr>w_nets := nets\<rparr>)"
    using h k(1,2) k'(1,2) assms(1,4)
    by (cases "sec = 0") (simp_all add: connect_def reconnect_def reset_context_def tv_def redis_err_defs)
  have e: "errorNo ?c = Some 0" using k'(3) by (simp add: errorNo_def)
  have m: "connected_from A n ?c"
    using r assms(4) by (rule connect_cases) (use assms(1) in simp_all)
  have "owns (mset (n_open n)) ?c" using m by (auto simp: connected_from_def owns_def made_from_def)
  with connected_serves [OF m e assms(5)] r show ?thesis by (intro exI [of _ ?c]) (simp add: h_def)
qed

end
