(* ===== verification/Middle_Ware_Correct.thy ===== *)
theory Middle_Ware_Correct
  imports Middle_Ware Wrapper_Correct
begin

text \<open>
  The middlewares are correct: asked for a connection they ask the server that they know, and connect
  to the one that it names.
\<close>

section \<open>Questions\<close>

lemma literal_text: "NUL \<notin> set s \<Longrightarrow> argument_text (literal s) = Some s"
proof -
  assume "NUL \<notin> set s"
  then have "takeWhile (\<lambda>x. x \<noteq> NUL) s = s" by (auto simp: takeWhile_eq_all_conv)
  then show ?thesis using std_string_c_str [of s] by (simp add: literal_def)
qed

lemma ask_command: "map_opt argument_text args = Some ts \<Longrightarrow> ask A lc c args = sendCommand A lc c (command_for ts)"
  by (simp add: ask_def make_CCommand_spec)

lemma cluster_questions:
  "map_opt argument_text [literal ''CLUSTER'', literal ''info''] = Some [''CLUSTER'', ''info'']"
  "map_opt argument_text [literal ''CLUSTER'', literal ''slots''] = Some [''CLUSTER'', ''slots'']"
  by (simp_all add: literal_text)

lemma question_lengths:
  "length (command [''CLUSTER'', ''info'']) = 27" "length (command [''CLUSTER'', ''slots'']) = 28"
  by (simp_all add: command_def bulk_def dec.simps)

section \<open>A cluster\<close>

text \<open>The reply that describes a node, and the information by which a cluster is in order.\<close>

definition node_reply :: "node \<Rightarrow> resp \<Rightarrow> bool" where
  "node_reply = (\<lambda>(b, e, ip, port) v. \<exists>more others.
     v = RArr (RInt (uint b) # RInt (uint e) # RArr (RBulk ip # RInt (uint port) # more) # others))"

lemma node_entries_spec: "list_all2 node_reply ns vs \<Longrightarrow> node_entries (map creply_of vs) = Inr ns"
  by (induction rule: list_all2_induct) (auto simp: node_reply_def at_def)

definition in_order :: "bytes \<Rightarrow> bool" where
  "in_order info \<longleftrightarrow> (let m = fnToStatusMap (text_lines info) Map.empty
     in m ''cluster_state'' = Some ''ok'' \<and> reserve_nodes (m ''cluster_known_nodes'') = Some ())"

lemma node_for_Some: "node_for slot ns = Some (b, e, ip, port) \<Longrightarrow> b \<le> slot \<and> slot \<le> e \<and> (b, e, ip, port) \<in> set ns"
  by (induction slot ns rule: node_for.induct) (auto split: if_splits)

lemma nodes_of_spec:
  assumes c: "serves A c [] st []" "owns M c" and A: "\<And>n. grants A n" and w: "willing 64 2 (sends c)"
    and st: "st = encode (RBulk info) @ encode (RArr vs)" "in_order info" "list_all2 node_reply ns vs"
      "resp_ok 0 (RBulk info)" "resp_ok 0 (RArr vs)" "length st + 1024 < 2 ^ 31"
  shows "\<exists>c' q' st' out'. nodes_of A lc c = Some (ns, c') \<and> serves A c' q' st' out' \<and> owns M c'"
proof -
  let ?i = "[''CLUSTER'', ''info'']" and ?s = "[''CLUSTER'', ''slots'']"
  have "willing 64 (Suc (Suc 0)) (sends c)" using w by (simp add: numeral_2_eq_2)
  note w = this
  have "length ([] @ command ?i) \<le> 64" "[] @ st = encode (RBulk info) @ encode (RArr vs)" "length ([] @ st) + 1024 < 2 ^ 31"
    using st(1,6) question_lengths(1) by simp_all
  from sendCommand_spec [OF c(1) _ A this(1) _ w this(2) st(4) this(3), of lc] obtain c1 q1 st1 where c1:
    "sendCommand A lc c (command_for ?i) = Some (creply_of (RBulk info), c1)" "serves A c1 q1 st1 []"
    "encode (RArr vs) = q1 @ st1" "willing 64 (Suc 0) (sends c1)"
    by auto
  have "st = encode (RBulk info) @ q1 @ st1" by (simp only: st(1) c1(3))
  then have "length (q1 @ st1) \<le> length st" by simp
  then have "length ([] @ command ?s) \<le> 64" "q1 @ st1 = encode (RArr vs) @ []" "length (q1 @ st1) + 1024 < 2 ^ 31"
    using st(6) c1(3) question_lengths(2) by simp_all
  from sendCommand_spec [OF c1(2) _ A this(1) _ c1(4) this(2) st(5) this(3), of lc] obtain c2 q2 st2 out2 where c2:
    "sendCommand A lc c1 (command_for ?s) = Some (creply_of (RArr vs), c2)" "serves A c2 q2 st2 out2"
    by auto
  have "owns M c2" using sendCommand_owns c1(1) c2(1) c(2) by blast
  moreover have "nodes_of A lc c = Some (ns, c2)"
    using c1(1) c2(1) st(2) node_entries_spec [OF st(3)]
    by (simp add: nodes_of_def ask_command [OF cluster_questions(1)] ask_command [OF cluster_questions(2)] in_order_def Let_def)
  ultimately show ?thesis using c2(2) by blast
qed

lemma new_connected_succeeds:
  assumes "w_nets w = n # nets" "answers_to_connect (sec \<noteq> 0) (n_sys n)" "\<And>n. grants A n" "incoming (n_in n) = Some st"
  shows "\<exists>c. new_connected A lc host port sec w = Some (Some c, w\<lparr>w_nets := nets, w_objects := w_objects w + 1\<rparr>) \<and>
    serves A c [] st [] \<and> owns (mset (n_open n)) c \<and> sent c = n_sent n \<and> sends c = n_out n \<and>
    slotRange c = (0, - 1) \<and> host_name (impl c) = takeWhile (\<lambda>x. x \<noteq> NUL) host \<and> host_port (impl c) = Some port"
proof -
  let ?w = "w\<lparr>w_objects := w_objects w + 1\<rparr>"
  have "w_nets ?w = n # nets" "contextPtr (impl blank_CConnection) = None"
    using assms(1) by (simp_all add: blank_CConnection_def)
  from connect_succeeds [OF this(1) assms(2,3) this(2) assms(4), of lc host port] obtain c where
    "connect A lc blank_CConnection (c_str host) port sec ?w = Some (True, c, ?w\<lparr>w_nets := nets\<rparr>)"
    "serves A c [] st []" "owns (mset (n_open n)) c" "sent c = n_sent n" "sends c = n_out n"
    "slotRange c = slotRange blank_CConnection" "host_name (impl c) = takeWhile (\<lambda>x. x \<noteq> NUL) host"
    "host_port (impl c) = Some port"
    by blast
  then show ?thesis by (simp add: new_connected_def new_CConnection_def blank_CConnection_def)
qed

lemma getNodes_spec:
  assumes w: "w_nets w = n # nets" "answers_to_connect (c_timeoutSec m \<noteq> 0) (n_sys n)" "incoming (n_in n) = Some st"
      "willing 64 2 (n_out n)"
    and m: "lstHost m = (host, port) # hosts" and A: "\<And>n. grants A n"
    and st: "st = encode (RBulk info) @ encode (RArr vs)" "in_order info" "list_all2 node_reply ns vs"
      "resp_ok 0 (RBulk info)" "resp_ok 0 (RArr vs)" "length st + 1024 < 2 ^ 31"
  shows "\<exists>n'. getNodes A lc m w = Some (ns, w\<lparr>w_nets := nets, w_closed := n' # w_closed w\<rparr>) \<and>
    mset (n_open n') = mset (n_open n)"
proof -
  let ?w = "w\<lparr>w_objects := w_objects w + 1\<rparr>"
  have "w_nets ?w = n # nets" "contextPtr (impl blank_CConnection) = None"
    using w(1) by (simp_all add: blank_CConnection_def)
  from connect_succeeds [OF this(1) w(2) A this(2) w(3), of lc host port] obtain c where c:
    "connect A lc blank_CConnection (c_str host) port (c_timeoutSec m) ?w = Some (True, c, ?w\<lparr>w_nets := nets\<rparr>)"
    "serves A c [] st []" "owns (mset (n_open n)) c" "sends c = n_out n"
    by blast
  have "willing 64 2 (sends c)" using w(4) c(4) by simp
  from nodes_of_spec [OF c(2,3) A this st, of lc] obtain c' q' st' out' where c':
    "nodes_of A lc c = Some (ns, c')" "serves A c' q' st' out'" "owns (mset (n_open n)) c'" by blast
  from serves_delete [OF c'(2,3), of "?w\<lparr>w_nets := nets\<rparr>"] obtain n' where
    "delete_CConnection c' (?w\<lparr>w_nets := nets\<rparr>) = Some (w\<lparr>w_nets := nets, w_closed := n' # w_closed w\<rparr>)"
    "mset (n_open n') = mset (n_open n)" by auto
  with c(1) c'(1) m show ?thesis by (auto simp: getNodes_def new_CConnection_def)
qed

text \<open>What is lost on the way to a node: the objects of the hosts that could not be connected.\<close>

lemma first_node_leaks:
  "first_node A lc sec hosts w = Some (p, w') \<Longrightarrow>
   \<exists>used. w_nets w = used @ w_nets w' \<and> w_objects w' = w_objects w + length used \<and>
     (p \<noteq> None \<longrightarrow> used \<noteq> []) \<and> (\<exists>closed. w_closed w' = closed @ w_closed w \<and>
       length used = length closed + (if p = None then 0 else 1))"
proof (induction hosts arbitrary: w)
  case (Cons x hosts)
  obtain host port where x: "x = (host, port)" by (cases x)
  let ?w = "w\<lparr>w_objects := w_objects w + 1\<rparr>"
  obtain ok c w1 where c: "connect A lc blank_CConnection (c_str host) port sec ?w = Some (ok, c, w1)"
    "(if ok then Some (Some c, w1) else first_node A lc sec hosts w1) = Some (p, w')"
    using Cons.prems x by (auto simp: new_CConnection_def bind_eq_Some_conv)
  have b: "contextPtr (impl blank_CConnection) = None" by (simp add: blank_CConnection_def)
  from c(1) b show ?case
  proof (cases rule: connect_cases)
    case (1 n)
    with c(2) show ?thesis by (intro exI [of _ "[n]"]) auto
  next
    case (2 n n')
    with c(2) have f: "first_node A lc sec hosts w1 = Some (p, w')" by simp
    from Cons.IH [OF this] obtain used closed where "w_nets w1 = used @ w_nets w'" "w_objects w' = w_objects w1 + length used"
      "p \<noteq> None \<longrightarrow> used \<noteq> []" "w_closed w' = closed @ w_closed w1"
      "length used = length closed + (if p = None then 0 else 1)" by blast
    with 2 show ?thesis
      by (intro exI [of _ "n # used"]) (auto intro!: exI [of _ "closed @ [n']"])
  qed
qed simp

text \<open>The connection to the node that has a slot.\<close>

lemma cluster_getConnection_spec:
  assumes w: "w_nets w = n # n2 # nets" "answers_to_connect (c_timeoutSec m \<noteq> 0) (n_sys n)" "incoming (n_in n) = Some st"
      "willing 64 2 (n_out n)" "answers_to_connect (c_timeoutSec m \<noteq> 0) (n_sys n2)" "incoming (n_in n2) = Some st2"
    and m: "lstHost m = (host, port) # hosts" and A: "\<And>n. grants A n"
    and st: "st = encode (RBulk info) @ encode (RArr vs)" "in_order info" "list_all2 node_reply ns vs"
      "resp_ok 0 (RBulk info)" "resp_ok 0 (RArr vs)" "length st + 1024 < 2 ^ 31"
    and node: "node_for slot ns = Some (b, e, ip, port2)"
  shows "\<exists>c n'. cluster_getConnection A lc m slot w = Some (Some c,
      w\<lparr>w_nets := nets, w_closed := n' # w_closed w, w_objects := w_objects w + 1\<rparr>) \<and>
    mset (n_open n') = mset (n_open n) \<and> serves A c [] st2 [] \<and> owns (mset (n_open n2)) c \<and> sent c = n_sent n2 \<and>
    sends c = n_out n2 \<and> slotRange c = (b, e) \<and> host_name (impl c) = takeWhile (\<lambda>x. x \<noteq> NUL) ip \<and>
    host_port (impl c) = Some port2"
proof -
  from getNodes_spec [OF w(1-4) m A st, of lc] obtain n' where g:
    "getNodes A lc m w = Some (ns, w\<lparr>w_nets := n2 # nets, w_closed := n' # w_closed w\<rparr>)" "mset (n_open n') = mset (n_open n)"
    by blast
  let ?w = "w\<lparr>w_nets := n2 # nets, w_closed := n' # w_closed w\<rparr>"
  have "w_nets ?w = n2 # nets" by simp
  from new_connected_succeeds [OF this w(5) A w(6), of lc ip port2] obtain c where c:
    "new_connected A lc ip port2 (c_timeoutSec m) ?w = Some (Some c, ?w\<lparr>w_nets := nets, w_objects := w_objects ?w + 1\<rparr>)"
    "serves A c [] st2 []" "owns (mset (n_open n2)) c" "sent c = n_sent n2" "sends c = n_out n2"
    "host_name (impl c) = takeWhile (\<lambda>x. x \<noteq> NUL) ip" "host_port (impl c) = Some port2" by blast
  have "cluster_getConnection A lc m slot w = Some (Some (setSlotRange c b e),
      w\<lparr>w_nets := nets, w_closed := n' # w_closed w, w_objects := w_objects w + 1\<rparr>)"
    using g(1) c(1) node by (simp add: cluster_getConnection_def)
  with g(2) c(2-7) show ?thesis
    by (intro exI [of _ "setSlotRange c b e"] exI [of _ n']) (simp add: setSlotRange_def owns_def)
qed

section \<open>A Sentinel\<close>

lemma stoul_dec: "n < 2 ^ 64 \<Longrightarrow> std_stoul (dec n) = Inr (of_nat n)"
proof -
  assume n: "n < 2 ^ 64"
  obtain d ds where d: "dec n = d # ds" by (cases "dec n") (auto dest: dec_nonempty [THEN notE])
  have all: "\<forall>c\<in>set (dec n). is_digit c" by (rule dec_digits)
  have nul: "\<forall>c\<in>set (dec n). c \<noteq> NUL" using all by (auto simp: is_digit_def)
  have hd: "\<not> c_isspace d" "d \<noteq> CHR ''-''" "d \<noteq> CHR ''+''"
    using all d by (auto simp: is_digit_def c_isspace_def)
  have "takeWhile (\<lambda>c. c \<noteq> NUL) (dec n) = dec n" "takeWhile is_digit (dec n) = dec n"
    using all nul by (auto simp: takeWhile_eq_all_conv)
  then have "numeral_prefix (dec n) = Some (False, n)"
    using hd d dec_val_dec [of n] by (simp add: numeral_prefix_def)
  with n show ?thesis by (simp add: std_stoul_def)
qed

lemma sentinel_question:
  "map_opt argument_text [literal ''SENTINEL'', literal ''get-master-addr-by-name'', Str name] =
     Some [''SENTINEL'', ''get-master-addr-by-name'', name]"
  by (simp add: literal_text)

text \<open>The connection to the master of the name, by the first Sentinel that can be reached.\<close>

lemma sentinel_getConnection_spec:
  assumes w: "w_nets w = n # n2 # nets" "answers_to_connect (s_timeoutSec m \<noteq> 0) (n_sys n)"
      "incoming (n_in n) = Some (encode (RArr [RBulk ip, RBulk (dec port2)]))"
      "willing B (Suc i) (n_out n)" "answers_to_connect False (n_sys n2)" "incoming (n_in n2) = Some st2"
    and m: "lstSentinel m = (host, port) # hosts" "s_role m = MASTER" "s_callback m = None" and A: "\<And>n. grants A n"
    and B: "length (command [''SENTINEL'', ''get-master-addr-by-name'', masterName m]) \<le> B" "B < 0x7ffff000"
    and ip: "length ip + 2048 < 2 ^ 31" "port2 < 2 ^ 16"
  shows "\<exists>c n'. sentinel_getConnection A lc m slot w = Some (Some c,
      w\<lparr>w_nets := nets, w_closed := n' # w_closed w, w_objects := w_objects w + 1\<rparr>) \<and>
    mset (n_open n') = mset (n_open n) \<and>
    n_sent n' = n_sent n @ command [''SENTINEL'', ''get-master-addr-by-name'', masterName m] \<and>
    serves A c [] st2 [] \<and> owns (mset (n_open n2)) c \<and> sent c = n_sent n2 \<and>
    sends c = n_out n2 \<and> host_name (impl c) = takeWhile (\<lambda>x. x \<noteq> NUL) ip \<and> host_port (impl c) = Some (of_nat port2)"
proof -
  let ?v = "RArr [RBulk ip, RBulk (dec port2)]" and ?ts = "[''SENTINEL'', ''get-master-addr-by-name'', masterName m]"
  let ?w1 = "w\<lparr>w_nets := n2 # nets, w_objects := w_objects w + 1\<rparr>"
  from new_connected_succeeds [OF w(1,2) A w(3), of lc host port] obtain s where s:
    "new_connected A lc host port (s_timeoutSec m) w = Some (Some s, ?w1)" "serves A s [] (encode ?v) []"
    "owns (mset (n_open n)) s" "sent s = n_sent n" "sends s = n_out n" by blast
  have len: "length (dec port2) \<le> 5" using length_dec_le [of port2 5] ip(2) by simp
  have "length (dec (length ip)) \<le> 10" using length_dec_le [of "length ip" 10] ip(1) by simp
  moreover have "length (dec (Suc (Suc 0))) = 1" by (simp add: dec.simps)
  moreover have "length (dec (length (dec port2))) \<le> 1" using length_dec_le [of "length (dec port2)" 1] len by simp
  ultimately have v: "resp_ok 0 ?v" "length (encode ?v) + 1024 < 2 ^ 31" using ip(1) len by (simp_all add: INT_MAX_def)
  have p: "take_bit 64 port2 = port2" using ip(2) by (simp add: take_bit_nat_eq_self_iff)
  have "willing B (Suc i) (sends s)" using w(4) s(5) by simp
  from sendCommand_spec [OF s(2) _ A _ B(2) this, of ?ts ?v "[]" lc] B(1) v obtain s' q' st' out' where s':
    "sendCommand A lc s (command_for ?ts) = Some (creply_of ?v, s')" "serves A s' q' st' out'"
    "sent s' @ out' = sent s @ command ?ts" "out' = []" by auto
  have "w_nets ?w1 = n2 # nets" by simp
  from new_connected_succeeds [OF this _ A w(6), of 0 lc ip "of_nat port2"] w(5) obtain c where c:
    "new_connected A lc ip (of_nat port2) 0 ?w1 = Some (Some c, ?w1\<lparr>w_nets := nets, w_objects := w_objects ?w1 + 1\<rparr>)"
    "serves A c [] st2 []" "owns (mset (n_open n2)) c" "sent c = n_sent n2" "sends c = n_out n2"
    "host_name (impl c) = takeWhile (\<lambda>x. x \<noteq> NUL) ip" "host_port (impl c) = Some (of_nat port2)" by auto
  let ?w2 = "?w1\<lparr>w_nets := nets, w_objects := w_objects ?w1 + 1\<rparr>"
  from serves_delete [OF s'(2) sendCommand_owns [OF s'(1) s(3)], of ?w2] obtain n' where d:
    "delete_CConnection s' ?w2 = Some (w\<lparr>w_nets := nets, w_closed := n' # w_closed w, w_objects := w_objects w + 1\<rparr>)"
    "n_sent n' = sent s'" "mset (n_open n') = mset (n_open n)" by auto
  have "sentinel_target A lc m s ?w1 = Some (Some c, s', ?w2)"
    using s'(1) c(1) m(2) ip(2) ask_command [OF sentinel_question, of A lc s "masterName m"]
    by (simp add: sentinel_target_def at_def stoul_dec unsigned_of_nat p)
  with s(1) m d(1) have "sentinel_getConnection A lc m slot w = Some (Some c,
      w\<lparr>w_nets := nets, w_closed := n' # w_closed w, w_objects := w_objects w + 1\<rparr>)"
    by (simp add: sentinel_getConnection_def call_back_def)
  with c(2-7) d(2,3) s'(3,4) s(4) show ?thesis by auto
qed

end
