(* ===== verification/Wrapper_Properties.thy ===== *)
theory Wrapper_Properties
  imports Middle_Ware_Correct Net_Properties
begin

text \<open>
  The properties of the connections of the C++ layer and of the middlewares that make them, each with a
  concrete instance.
\<close>

text \<open>A kernel that connects at once, and a world with it.\<close>

definition demo_script :: "recv_outcome list \<Rightarrow> send_outcome list \<Rightarrow> net" where
  "demo_script ins outs =
     \<lparr>n_in = ins, n_out = outs, n_sent = [],
      n_sys = Addresses [demo_addr] # accepted True 4 2 2050 @ [Result 0, Result 0, Result 0, Result 0],
      n_calls = [], n_open = [0], n_infos = 0, n_errno = 0\<rparr>"

definition demo_world :: "net list \<Rightarrow> world" where
  "demo_world ns = \<lparr>w_nets = ns, w_closed = [], w_objects = 0, w_rand = []\<rparr>"

lemma demo_script [simp]:
  "n_in (demo_script ins outs) = ins" "n_out (demo_script ins outs) = outs" "n_sent (demo_script ins outs) = []"
  "n_open (demo_script ins outs) = [0]" "n_infos (demo_script ins outs) = 0"
  "answers_to_connect t (n_sys (demo_script ins outs))"
proof -
  have "n_sys (demo_script ins outs) = Addresses ([] @ demo_addr # []) # concat (map (refused EHOSTUNREACH) []) @
      accepted True 4 2 2050 @ Result 0 # Result 0 # (if t then [Result 0, Result 0] else []) @
      (if t then [] else [Result 0, Result 0])"
    by (simp add: demo_script_def)
  then show "answers_to_connect t (n_sys (demo_script ins outs))" unfolding answers_to_connect_def by (metis list.size(3))
qed (simp_all add: demo_script_def)

lemma demo_world [simp]: "w_nets (demo_world ns) = ns" "w_closed (demo_world ns) = []" "w_objects (demo_world ns) = 0"
  by (simp_all add: demo_world_def)

lemma demo_willing: "\<forall>m\<in>set ms. B \<le> m \<Longrightarrow> willing B (length ms) (map Accepted ms)"
  unfolding willing_def by auto

section \<open>Connections\<close>

text \<open>Whatever the operating system answers, \<^verbatim>\<open>CConnection::connect\<close> on a connection without a context uses
  one script of the system; when it succeeds the connection owns the one descriptor that it opened, when it
  fails it has closed all that it opened, and in both cases no address list is lost and the slots stay.\<close>

lemma connection_connect_safe:
  assumes "connect A lc c host port sec w = Some (ok, c', w')" "contextPtr (impl c) = None"
  shows "\<exists>n. w_nets w = n # w_nets w' \<and> slotRange c' = slotRange c \<and> w_objects w' = w_objects w \<and>
    (if ok then owns (mset (n_open n)) c' \<and> w_closed w' = w_closed w
     else contextPtr (impl c') = None \<and> (\<exists>n'. w_closed w' = n' # w_closed w \<and>
       mset (n_open n') = mset (n_open n) \<and> n_infos n' = n_infos n))"
  using assms
proof (cases rule: connect_cases)
  case (1 n)
  then show ?thesis by (auto simp: connected_from_def made_from_def owns_def)
next
  case (2 n n')
  then show ?thesis by (auto simp: closed_from_def)
qed

theorem connection_connect_safe_witness:
  "\<exists>ok c' w'. connect roomy demo_libc blank_CConnection (c_str ''h'') 6379 0 (demo_world [demo_script [] []]) = Some (ok, c', w') \<and>
    (if ok then owns {#0#} c' \<and> w_closed w' = [] else contextPtr (impl c') = None)"
proof -
  have b: "contextPtr (impl blank_CConnection) = None" by (simp add: blank_CConnection_def)
  obtain c' where c: "connect roomy demo_libc blank_CConnection (c_str ''h'') 6379 0 (demo_world [demo_script [] []]) =
      Some (True, c', (demo_world [demo_script [] []])\<lparr>w_nets := []\<rparr>)"
    using connect_succeeds [OF _ _ _ b, of "demo_world [demo_script [] []]" "demo_script [] []" "[]" 0 roomy "[]" demo_libc "''h''" 6379]
    by auto
  from connection_connect_safe [OF c b] c show ?thesis by auto
qed

text \<open>C4: from the address to the reply: a new connection whose host can be reached sends exactly the encoding of
  the command, gives the reply that the server sends, as the tree of \<^verbatim>\<open>CReply\<close>s, and closes, when it is
  deleted, the descriptor that it opened and no other.\<close>

theorem wrapper_session:
  assumes "w_nets w = n # nets" "answers_to_connect (sec \<noteq> 0) (n_sys n)" "\<And>n. grants A n"
    "incoming (n_in n) = Some (encode v @ rest)" "resp_ok 0 v" "length (encode v @ rest) + 1024 < 2 ^ 31"
    "ts \<noteq> []" "length (command ts) \<le> B" "B < 0x7ffff000" "willing B (Suc i) (n_out n)"
    "map_opt argument_text args = Some ts"
  shows "\<exists>c cmd c' w1 n'. new_connected A lc host port sec w = Some (Some c, w1) \<and>
    make_CCommand args = Some cmd \<and> sendCommand A lc c cmd = Some (creply_of v, c') \<and>
    delete_CConnection c' w1 = Some (w\<lparr>w_nets := nets, w_closed := n' # w_closed w\<rparr>) \<and>
    n_sent n' = n_sent n @ encode (RArr (map RBulk ts)) \<and> mset (n_open n') = mset (n_open n)"
proof -
  from new_connected_succeeds [OF assms(1-4), of lc host port] obtain c where c:
    "new_connected A lc host port sec w = Some (Some c, w\<lparr>w_nets := nets, w_objects := w_objects w + 1\<rparr>)"
    "serves A c [] (encode v @ rest) []" "owns (mset (n_open n)) c" "sent c = n_sent n" "sends c = n_out n" by blast
  have "willing B (Suc i) (sends c)" using assms(10) c(5) by simp
  from sendCommand_spec [OF c(2) assms(7,3) _ assms(9) this _ assms(5), of rest lc] assms(6,8) obtain c' q' st' out' where c':
    "sendCommand A lc c (command_for ts) = Some (creply_of v, c')" "serves A c' q' st' out'"
    "sent c' @ out' = sent c @ command ts" "out' = []" by auto
  from serves_delete [OF c'(2) sendCommand_owns [OF c'(1) c(3)], of "w\<lparr>w_nets := nets, w_objects := w_objects w + 1\<rparr>"]
  obtain n' where "delete_CConnection c' (w\<lparr>w_nets := nets, w_objects := w_objects w + 1\<rparr>) =
      Some (w\<lparr>w_nets := nets, w_closed := n' # w_closed w\<rparr>)" "n_sent n' = sent c'" "mset (n_open n') = mset (n_open n)" by auto
  with c(1,4) c'(1,3,4) make_CCommand_spec [of args] assms(11) command_encode [of ts] show ?thesis by auto
qed

theorem wrapper_session_witness:
  "\<exists>c cmd c' w1 n'. new_connected roomy demo_libc ''h'' 6379 5
      (demo_world [demo_script [Received (encode (RBulk ''v''))] [Accepted 100]]) = Some (Some c, w1) \<and>
    make_CCommand [literal ''GET'', Str ''k''] = Some cmd \<and>
    sendCommand roomy demo_libc c cmd = Some (CReply EType_STRING ''v'' 0 [], c') \<and>
    (\<exists>w'. delete_CConnection c' w1 = Some w' \<and> w_closed w' = [n']) \<and>
    n_sent n' = encode (RArr (map RBulk [''GET'', ''k''])) \<and> mset (n_open n') = {#0#}"
proof -
  have "map_opt argument_text [literal ''GET'', Str ''k''] = Some [''GET'', ''k'']" by (simp add: literal_text)
  moreover have "willing 100 (Suc 0) (n_out (demo_script [Received (encode (RBulk ''v''))] [Accepted 100]))"
    using demo_willing [of "[100]" 100] by simp
  ultimately show ?thesis
    using wrapper_session [of "demo_world [demo_script [Received (encode (RBulk ''v''))] [Accepted 100]]"
      "demo_script [Received (encode (RBulk ''v''))] [Accepted 100]" "[]" 5 roomy "RBulk ''v''" "[]" "[''GET'', ''k'']" 100 0
      "[literal ''GET'', Str ''k'']" demo_libc "''h''" 6379]
    by (simp add: command_def bulk_def dec.simps del: map_opt.simps) fastforce
qed

section \<open>Replies\<close>

text \<open>What the fields of a \<^verbatim>\<open>CReply\<close> may hold by its type, at every level.\<close>

fun typed_reply :: "CReply \<Rightarrow> bool" where
  "typed_reply (CReply t s i rs) \<longleftrightarrow>
     t \<in> {EType_STRING, EType_STATUS, EType_ERROR, EType_INTEGER, EType_ARRAY, EType_NIL} \<and>
     (s \<noteq> [] \<longrightarrow> t \<in> {EType_STRING, EType_STATUS, EType_ERROR}) \<and> (i \<noteq> 0 \<longrightarrow> t = EType_INTEGER) \<and>
     (rs \<noteq> [] \<longrightarrow> t = EType_ARRAY) \<and> (\<forall>r\<in>set rs. typed_reply r)"

lemma creply_of_typed: "typed_reply (creply_of v)"
  by (induction v) simp_all

lemma creply_of_inj: "creply_of v = creply_of w \<Longrightarrow> v = w"
proof (induction v arbitrary: w)
  case (RArr vs)
  then obtain ws where w: "w = RArr ws" "map creply_of vs = map creply_of ws"
    by (cases w) (auto simp: EType_defs)
  then have "vs = ws" using RArr.IH by (intro list.inj_map_strong [OF _ w(2)]) simp
  with w(1) show ?case by simp
qed (case_tac [!] w, auto simp: EType_defs)

text \<open>C27: a reply on the heap of the context becomes a \<^verbatim>\<open>CReply\<close> without fault, which has at every level a type of
  the enumeration and only the fields of that type; two replies give the same \<^verbatim>\<open>CReply\<close> only if they are the same.\<close>

theorem reply_conversion_typed:
  assumes "cells h 0 = None" "denotes (cells h) a v"
  shows "\<exists>r. make_CReply h a = Some r \<and> typed_reply r \<and> (\<forall>b w. denotes (cells h) b w \<longrightarrow> make_CReply h b = Some r \<longrightarrow> w = v)"
  using make_CReply_denotes [OF assms(1)] assms(2) creply_of_typed creply_of_inj by (metis option.inject)

lemma reply_conversion_typed_witness:
  "\<exists>r. make_CReply \<lparr>cells = [1 \<mapsto> \<lparr>rep_type = REDIS_REPLY_INTEGER, rep_integer = 7, rep_len = 0, rep_str = Null,
      rep_elements = 0, rep_element = Null\<rparr>], next_addr = 2\<rparr> 1 = Some r \<and> typed_reply r"
  using reply_conversion_typed [of "\<lparr>cells = [1 \<mapsto> \<lparr>rep_type = REDIS_REPLY_INTEGER, rep_integer = 7, rep_len = 0, rep_str = Null,
      rep_elements = 0, rep_element = Null\<rparr>], next_addr = 2\<rparr>" 1 "RInt 7"]
  by (simp del: denotes.simps) (simp add: reply_types, blast)

section \<open>Sentinel\<close>

text \<open>C25: asked for a connection to the master, the Sentinel middleware asks the first Sentinel that it knows, by
  exactly that command, connects to the address in its reply, and closes the connection to the Sentinel.\<close>

theorem sentinel_connects_to_master:
  assumes "w_nets w = n # n2 # nets" "answers_to_connect (s_timeoutSec m \<noteq> 0) (n_sys n)"
      "incoming (n_in n) = Some (encode (RArr [RBulk ip, RBulk (dec port2)]))" "willing B (Suc i) (n_out n)"
      "answers_to_connect False (n_sys n2)" "incoming (n_in n2) = Some st2"
    and "lstSentinel m = (host, port) # hosts" "s_role m = MASTER" "s_callback m = None" "\<And>n. grants A n"
    and "length (command [''SENTINEL'', ''get-master-addr-by-name'', masterName m]) \<le> B" "B < 0x7ffff000"
    and "length ip + 2048 < 2 ^ 31" "port2 < 2 ^ 16"
  shows "\<exists>c w' n'. sentinel_getConnection A lc m slot w = Some (Some c, w') \<and> serves A c [] st2 [] \<and>
    host_name (impl c) = takeWhile (\<lambda>x. x \<noteq> NUL) ip \<and> host_port (impl c) = Some (of_nat port2) \<and>
    w_closed w' = n' # w_closed w \<and> mset (n_open n') = mset (n_open n) \<and>
    n_sent n' = n_sent n @ encode (RArr (map RBulk [''SENTINEL'', ''get-master-addr-by-name'', masterName m]))"
  using sentinel_getConnection_spec [OF assms, of lc slot] unfolding command_encode [symmetric] by fastforce

lemma sentinel_connects_to_master_witness:
  "\<exists>c w'. sentinel_getConnection roomy demo_libc
      \<lparr>lstSentinel = [(''s'', 26379)], masterName = ''m'', s_role = MASTER, s_timeoutSec = 1, s_callback = None\<rparr> 0
      (demo_world [demo_script [Received (encode (RArr [RBulk ''n'', RBulk (dec 7001)]))] [Accepted 100], demo_script [] []]) =
        Some (Some c, w') \<and> host_name (impl c) = ''n'' \<and> host_port (impl c) = Some 7001"
  using sentinel_connects_to_master [where
      w = "demo_world [demo_script [Received (encode (RArr [RBulk ''n'', RBulk (dec 7001)]))] [Accepted 100], demo_script [] []]" and
      n = "demo_script [Received (encode (RArr [RBulk ''n'', RBulk (dec 7001)]))] [Accepted 100]" and
      ?n2.0 = "demo_script [] []" and nets = "[]" and B = 100 and i = 0 and ?st2.0 = "[]" and A = roomy and lc = demo_libc and
      m = "\<lparr>lstSentinel = [(''s'', 26379)], masterName = ''m'', s_role = MASTER, s_timeoutSec = 1, s_callback = None\<rparr>" and
      slot = 0 and ip = "''n''" and ?port2.0 = 7001 and host = "''s''" and port = 26379 and hosts = "[]"]
    demo_willing [of "[100]" 100]
  by (simp add: command_def bulk_def dec.simps) blast

end
