(* ===== verification/Pool.thy ===== *)
theory Pool
  imports Middle_Ware
begin

text \<open>
  The pools of connections of \<^verbatim>\<open>MCRedis/ConnectionPool.h\<close>, the one by slots and the deprecated one.
  A pool is a template over the types of its middlewares; here a middleware is the record of the three
  functions that the pool calls. Every operation holds the mutex of the pool, so it is one step.
\<close>

record middleware =
  mw_create :: "nat \<Rightarrow> world \<Rightarrow> (CConnection list \<times> world) option"
  mw_getConnection :: "32 word \<Rightarrow> world \<Rightarrow> (CConnection option \<times> world) option"
  mw_getSlot :: "bytes ptr \<Rightarrow> nat \<Rightarrow> 32 word option"

definition default_mw :: "allocator \<Rightarrow> libc \<Rightarrow> CDefaultMiddleWare \<Rightarrow> middleware" where
  "default_mw A lc m = \<lparr>mw_create = default_create A lc m, mw_getConnection = default_getConnection A lc m,
     mw_getSlot = default_getSlot\<rparr>"

definition sentinel_mw :: "allocator \<Rightarrow> libc \<Rightarrow> CSentinelSupport \<Rightarrow> middleware" where
  "sentinel_mw A lc m = \<lparr>mw_create = sentinel_create A lc m, mw_getConnection = sentinel_getConnection A lc m,
     mw_getSlot = default_getSlot\<rparr>"

definition cluster_mw :: "allocator \<Rightarrow> libc \<Rightarrow> CClusterSupport \<Rightarrow> middleware" where
  "cluster_mw A lc m = \<lparr>mw_create = cluster_create A lc m, mw_getConnection = cluster_getConnection A lc m,
     mw_getSlot = getSlot\<rparr>"

section \<open>Iterating over the middlewares (detail/Helper.h)\<close>

text \<open>The function object is called with one middleware after the other until it returns true.\<close>

fun tuple_iterator :: "('m \<Rightarrow> 's \<Rightarrow> (bool \<times> 's) option) \<Rightarrow> 'm list \<Rightarrow> 's \<Rightarrow> 's option" where
  "tuple_iterator fn [] s = Some s"
| "tuple_iterator fn (m # ms) s = do { (stop, s) \<leftarrow> fn m s; if stop then Some s else tuple_iterator fn ms s }"

definition pre_create :: "nat \<Rightarrow> middleware \<Rightarrow> CConnection list \<times> world \<Rightarrow> (bool \<times> CConnection list \<times> world) option" where
  "pre_create defaultNum m s = do { (cs, w) \<leftarrow> mw_create m defaultNum (snd s); Some (cs \<noteq> [], cs, w) }"

definition get_connection :: "32 word \<Rightarrow> middleware \<Rightarrow> CConnection option \<times> world \<Rightarrow>
    (bool \<times> CConnection option \<times> world) option" where
  "get_connection slotNo m s = do { (c, w) \<leftarrow> mw_getConnection m slotNo (snd s); Some (c \<noteq> None, c, w) }"

text \<open>The number of the slot is not set before the first call.\<close>

definition get_slot :: "bytes ptr \<Rightarrow> nat \<Rightarrow> middleware \<Rightarrow> 32 word option \<Rightarrow> (bool \<times> 32 word option) option" where
  "get_slot key keyLen m s = do { n \<leftarrow> mw_getSlot m key keyLen; Some (n \<noteq> - 1, Some n) }"

section \<open>The pool by slots\<close>

text \<open>
  A \<^verbatim>\<open>conn_ptr_t\<close> that is not null: the connection, and whether a function to delete it was given. The
  map, sorted by its keys, has the connections by the last slot of their range.
\<close>

record conn_ptr =
  cp_conn :: CConnection
  cp_deleter :: bool

type_synonym pool_t = "(32 word \<times> conn_ptr list) list"

record CConnectionPool =
  p_mw :: "middleware list"
  p_pool :: pool_t

text \<open>
  The destructor of a \<^verbatim>\<open>conn_ptr_t\<close>. An empty \<^verbatim>\<open>std::function\<close> throws when it is called, which in a
  destructor ends the program.
\<close>

definition destroy_ptr :: "conn_ptr \<Rightarrow> world \<Rightarrow> world option" where
  "destroy_ptr c w = (if cp_deleter c then delete_CConnection (cp_conn c) w else None)"

fun destroy_list :: "conn_ptr list \<Rightarrow> world \<Rightarrow> world option" where
  "destroy_list [] w = Some w"
| "destroy_list (c # cs) w = do { w \<leftarrow> destroy_ptr c w; destroy_list cs w }"

text \<open>\<^verbatim>\<open>pool_[k].push_front(c)\<close>, \<^verbatim>\<open>lower_bound\<close>, and \<^verbatim>\<open>pop_front\<close> of the list of a key.\<close>

fun pool_push :: "32 word \<Rightarrow> conn_ptr \<Rightarrow> pool_t \<Rightarrow> pool_t" where
  "pool_push k c [] = [(k, [c])]"
| "pool_push k c ((k', cs) # m) =
     (if k = k' then (k', c # cs) # m
      else if k < k' then (k, [c]) # (k', cs) # m
      else (k', cs) # pool_push k c m)"

fun lower_bound :: "32 word \<Rightarrow> pool_t \<Rightarrow> (32 word \<times> conn_ptr list) option" where
  "lower_bound slot [] = None"
| "lower_bound slot ((k, cs) # m) = (if slot \<le> k then Some (k, cs) else lower_bound slot m)"

fun pool_pop :: "32 word \<Rightarrow> pool_t \<Rightarrow> pool_t" where
  "pool_pop k [] = []"
| "pool_pop k ((k', cs) # m) = (if k = k' then (k', tl cs) # m else (k', cs) # pool_pop k m)"

definition pool_getSlot :: "CConnectionPool \<Rightarrow> bytes ptr \<Rightarrow> nat \<Rightarrow> 32 word option" where
  "pool_getSlot p key keyLen = do { s \<leftarrow> tuple_iterator (get_slot key keyLen) (p_mw p) None; s }"

text \<open>\<^verbatim>\<open>_get\<close>: what the \<^verbatim>\<open>CConnectionRAII\<close> holds, \<^theory_text>\<open>None\<close> for null. One made on demand has no deleter.\<close>

definition pool_get :: "CConnectionPool \<Rightarrow> 32 word \<Rightarrow> world \<Rightarrow> (conn_ptr option \<times> CConnectionPool \<times> world) option" where
  "pool_get p slot w = (case lower_bound slot (p_pool p) of
     Some (k, c # cs) \<Rightarrow> Some (Some c, p\<lparr>p_pool := pool_pop k (p_pool p)\<rparr>, w)
   | _ \<Rightarrow> do {
       (c, w) \<leftarrow> tuple_iterator (get_connection slot) (p_mw p) (None, w);
       Some (map_option (\<lambda>c. \<lparr>cp_conn = c, cp_deleter = False\<rparr>) c, p, w)
     })"

definition pool_get_key :: "CConnectionPool \<Rightarrow> bytes ptr \<Rightarrow> nat \<Rightarrow> world \<Rightarrow>
    (conn_ptr option \<times> CConnectionPool \<times> world) option" where
  "pool_get_key p key keyLen w = do { slot \<leftarrow> pool_getSlot p key keyLen; pool_get p slot w }"

definition pool_get_any :: "CConnectionPool \<Rightarrow> world \<Rightarrow> (conn_ptr option \<times> CConnectionPool \<times> world) option" where
  "pool_get_any p w = pool_get_key p Null 0 w"

text \<open>The destructor of a \<^verbatim>\<open>CConnectionRAII\<close>: a connection without an error goes back.\<close>

definition pool_release :: "conn_ptr option \<Rightarrow> CConnectionPool \<Rightarrow> world \<Rightarrow> (CConnectionPool \<times> world) option" where
  "pool_release r p w = (case r of
     None \<Rightarrow> Some (p, w)
   | Some c \<Rightarrow> do {
       e \<leftarrow> errorNo (cp_conn c);
       if e = 0 then Some (p\<lparr>p_pool := pool_push (snd (slotRange (cp_conn c))) c (p_pool p)\<rparr>, w)
       else do { w \<leftarrow> destroy_ptr c w; Some (p, w) }
     })"

definition pool_create :: "CConnectionPool \<Rightarrow> nat \<Rightarrow> world \<Rightarrow> (bool \<times> CConnectionPool \<times> world) option" where
  "pool_create p defaultNum w = do {
     (cs, w) \<leftarrow> tuple_iterator (pre_create defaultNum) (p_mw p) ([], w);
     if cs = [] then Some (False, p, w)
     else Some (True, p\<lparr>p_pool := fold (\<lambda>c. pool_push (snd (slotRange c)) \<lparr>cp_conn = c, cp_deleter = True\<rparr>) cs
       (p_pool p)\<rparr>, w)
   }"

definition pool_clear :: "CConnectionPool \<Rightarrow> world \<Rightarrow> (CConnectionPool \<times> world) option" where
  "pool_clear p w = do {
     w \<leftarrow> destroy_list (concat (map snd (p_pool p))) w;
     Some (p\<lparr>p_pool := map (\<lambda>(k, cs). (k, [])) (p_pool p)\<rparr>, w)
   }"

section \<open>The deprecated pool\<close>

text \<open>Its connections are deleted by their middleware.\<close>

record old_pool =
  o_mw :: "middleware list"
  o_pool :: "conn_ptr list"

fun old_getConnection :: "middleware list \<Rightarrow> world \<Rightarrow> (conn_ptr option \<times> world) option" where
  "old_getConnection [] w = Some (None, w)"
| "old_getConnection (m # ms) w = do {
     (c, w) \<leftarrow> mw_getConnection m 0 w;
     (case c of
        None \<Rightarrow> old_getConnection ms w
      | Some c \<Rightarrow> Some (Some \<lparr>cp_conn = c, cp_deleter = True\<rparr>, w))
   }"

primrec old_create :: "nat \<Rightarrow> old_pool \<Rightarrow> world \<Rightarrow> (bool \<times> old_pool \<times> world) option" where
  "old_create 0 p w = Some (True, p, w)"
| "old_create (Suc n) p w = do {
     (c, w) \<leftarrow> old_getConnection (o_mw p) w;
     (case c of
        None \<Rightarrow> Some (False, p, w)
      | Some c \<Rightarrow> old_create n (p\<lparr>o_pool := c # o_pool p\<rparr>) w)
   }"

definition old_clear :: "old_pool \<Rightarrow> world \<Rightarrow> (old_pool \<times> world) option" where
  "old_clear p w = do { w \<leftarrow> destroy_list (o_pool p) w; Some (p\<lparr>o_pool := []\<rparr>, w) }"

definition old_get :: "old_pool \<Rightarrow> world \<Rightarrow> (conn_ptr option \<times> old_pool \<times> world) option" where
  "old_get p w = (case o_pool p of
     [] \<Rightarrow> do { (c, w) \<leftarrow> old_getConnection (o_mw p) w; Some (c, p, w) }
   | c # cs \<Rightarrow> Some (Some c, p\<lparr>o_pool := cs\<rparr>, w))"

definition old_release :: "conn_ptr option \<Rightarrow> old_pool \<Rightarrow> world \<Rightarrow> (old_pool \<times> world) option" where
  "old_release r p w = (case r of
     None \<Rightarrow> Some (p, w)
   | Some c \<Rightarrow> do {
       e \<leftarrow> errorNo (cp_conn c);
       if e = 0 then Some (p\<lparr>o_pool := c # o_pool p\<rparr>, w)
       else do { w \<leftarrow> destroy_ptr c w; Some (p, w) }
     })"

end
