(* ===== verification/Pool_Correct.thy ===== *)
theory Pool_Correct
  imports Pool Wrapper_Correct "HOL-Library.Multiset"
begin

text \<open>
  The pools are correct as far as they are: a connection is in the pool or held by one user, never both,
  and it is filed under the last slot of its range. What a middleware promises is a locale; it is
  interpreted on the three classes of the code.
\<close>

section \<open>The map of a pool\<close>

definition sorted_keys :: "pool_t \<Rightarrow> bool" where
  "sorted_keys m \<longleftrightarrow> sorted_wrt (<) (map fst m)"

text \<open>The connections of a pool, in the order of its map.\<close>

definition pooled :: "pool_t \<Rightarrow> conn_ptr list" where
  "pooled m = concat (map snd m)"

lemma pooled_simps [simp]: "pooled [] = []" "pooled ((k, cs) # m) = cs @ pooled m"
  by (simp_all add: pooled_def)

lemma push_keys: "set (map fst (pool_push k c m)) = insert k (set (map fst m))"
  by (induction k c m rule: pool_push.induct) auto

lemma push_sorted: "sorted_keys m \<Longrightarrow> sorted_keys (pool_push k c m)"
proof (induction k c m rule: pool_push.induct)
  case (2 k c k' cs m)
  then show ?case
    using push_keys [of k c m] by (auto simp: sorted_keys_def dest: order.strict_trans)
qed (simp add: sorted_keys_def)

lemma push_pooled: "mset (pooled (pool_push k c m)) = add_mset c (mset (pooled m))"
  by (induction k c m rule: pool_push.induct) auto

lemma push_lookup: "sorted_keys m \<Longrightarrow> map_of (pool_push k c m) k' =
    (if k' = k then Some (c # (case map_of m k of None \<Rightarrow> [] | Some cs \<Rightarrow> cs)) else map_of m k')"
proof (induction k c m rule: pool_push.induct)
  case (2 k c k1 cs m)
  then have "k < k1 \<Longrightarrow> map_of m k = None" by (force simp: sorted_keys_def map_of_eq_None_iff)
  with 2 show ?case by (auto simp: sorted_keys_def)
qed simp

lemma pop_keys [simp]: "map fst (pool_pop k m) = map fst m"
  by (induction k m rule: pool_pop.induct) auto

lemma pop_sorted: "sorted_keys m \<Longrightarrow> sorted_keys (pool_pop k m)"
  by (simp add: sorted_keys_def)

lemma pop_pooled:
  assumes "map_of m k = Some (c # cs)"
  shows "mset (pooled m) = add_mset c (mset (pooled (pool_pop k m)))"
  using assms by (induction k m rule: pool_pop.induct) (auto split: if_splits)

lemma pop_lookup: "map_of (pool_pop k m) k' = (if k' = k then map_option tl (map_of m k) else map_of m k')"
  by (induction k m rule: pool_pop.induct) auto

lemma pop_push: "sorted_keys m \<Longrightarrow> map_of m k \<noteq> None \<Longrightarrow> pool_pop k (pool_push k c m) = m"
proof (induction k c m rule: pool_push.induct)
  case (2 k c k1 cs m)
  then have "k < k1 \<Longrightarrow> map_of m k = None" by (force simp: sorted_keys_def map_of_eq_None_iff)
  with 2 show ?case by (cases "k = k1") (auto simp: sorted_keys_def)
qed simp

text \<open>\<^verbatim>\<open>lower_bound\<close> finds the least key that is not below the slot.\<close>

lemma lower_bound_Some:
  assumes "sorted_keys m" "lower_bound slot m = Some (k, cs)"
  shows "map_of m k = Some cs" "slot \<le> k" "\<And>k'. map_of m k' \<noteq> None \<Longrightarrow> slot \<le> k' \<Longrightarrow> k \<le> k'"
proof -
  have "map_of m k = Some cs \<and> slot \<le> k \<and> (\<forall>k' \<in> set (map fst m). slot \<le> k' \<longrightarrow> k \<le> k')"
    using assms
  proof (induction slot m rule: lower_bound.induct)
    case (2 slot k1 cs1 m)
    show ?case
    proof (cases "slot \<le> k1")
      case True
      with 2 show ?thesis by (force simp: sorted_keys_def)
    next
      case False
      with 2 have "map_of m k = Some cs" "slot \<le> k" "\<forall>k' \<in> set (map fst m). slot \<le> k' \<longrightarrow> k \<le> k'"
        by (simp_all add: sorted_keys_def)
      with False 2(2) show ?thesis by (auto simp: sorted_keys_def)
    qed
  qed simp
  then show "map_of m k = Some cs" "slot \<le> k" "\<And>k'. map_of m k' \<noteq> None \<Longrightarrow> slot \<le> k' \<Longrightarrow> k \<le> k'"
    by (auto simp: map_of_eq_None_iff)
qed

lemma lower_bound_None: "lower_bound slot m = None \<longleftrightarrow> (\<forall>k. map_of m k \<noteq> None \<longrightarrow> k < slot)"
proof -
  have "lower_bound slot m = None \<longleftrightarrow> (\<forall>k \<in> set (map fst m). k < slot)"
    by (induction slot m rule: lower_bound.induct) (auto simp: not_le dest: leD)
  then show ?thesis by (auto simp: map_of_eq_None_iff)
qed

lemma lower_bound_least:
  assumes "sorted_keys m" "map_of m k = Some cs" "slot \<le> k" "\<And>k'. map_of m k' \<noteq> None \<Longrightarrow> slot \<le> k' \<Longrightarrow> k \<le> k'"
  shows "lower_bound slot m = Some (k, cs)"
proof (cases "lower_bound slot m")
  case None
  with assms(2,3) have "k < slot" unfolding lower_bound_None by blast
  with assms(3) show ?thesis by simp
next
  case (Some x)
  obtain k1 cs1 where x: "lower_bound slot m = Some (k1, cs1)" using Some by (cases x) auto
  note l = lower_bound_Some [OF assms(1) x]
  have "k \<le> k1" using assms(4) l(1,2) by blast
  moreover have "k1 \<le> k" using l(3) [of k] assms(2,3) by simp
  ultimately have "k1 = k" by simp
  with l(1) assms(2) x show ?thesis by simp
qed

section \<open>What a middleware promises\<close>

text \<open>
  The connections that it gives have a context. The objects that are alive when it returns include those
  that it gives.
\<close>

locale middle_ware =
  fixes give :: "nat \<Rightarrow> world \<Rightarrow> (CConnection list \<times> world) option"
    and get :: "32 word \<Rightarrow> world \<Rightarrow> (CConnection option \<times> world) option"
  assumes get_valid: "get s w = Some (Some c, w') \<Longrightarrow> isValid c"
    and get_objects: "get s w = Some (p, w') \<Longrightarrow> w_objects w + (if p = None then 0 else 1) \<le> w_objects w'"
    and give_valid: "give n w = Some (cs, w') \<Longrightarrow> c \<in> set cs \<Longrightarrow> isValid c"
    and give_objects: "give n w = Some (cs, w') \<Longrightarrow> w_objects w + length cs \<le> w_objects w'"

text \<open>One that loses no object.\<close>

locale tidy_middle_ware = middle_ware +
  assumes get_exact: "get s w = Some (p, w') \<Longrightarrow> w_objects w' = w_objects w + (if p = None then 0 else 1)"
    and give_exact: "give n w = Some (cs, w') \<Longrightarrow> w_objects w' = w_objects w + length cs"

text \<open>Making one connection.\<close>

lemma delete_objects: "delete_CConnection c w = Some w' \<Longrightarrow> w_objects w' = w_objects w - 1"
  by (cases "contextPtr (impl c)") (auto simp: delete_CConnection_def reset_context_def bind_eq_Some_conv)

lemma new_connected_objects:
  assumes "new_connected A lc host port sec w = Some (p, w')"
  shows "w_objects w' = w_objects w + (if p = None then 0 else 1)" "p = Some c \<Longrightarrow> isValid c"
    "p = Some c \<Longrightarrow> slotRange c = (0, - 1)"
proof -
  obtain ok c1 w1 where c: "connect A lc blank_CConnection (c_str host) port sec (w\<lparr>w_objects := w_objects w + 1\<rparr>) =
      Some (ok, c1, w1)"
    using assms by (auto simp: new_connected_def new_CConnection_def bind_eq_Some_conv)
  have b: "contextPtr (impl blank_CConnection) = None" "slotRange blank_CConnection = (0, - 1)"
    by (simp_all add: blank_CConnection_def)
  have "w_objects w1 = w_objects w + 1 \<and> slotRange c1 = (0, - 1) \<and> (ok \<longrightarrow> isValid c1)"
    using c b(1) by (rule connect_cases) (auto simp: b(2) isValid_def connected_from_def)
  with assms c show "w_objects w' = w_objects w + (if p = None then 0 else 1)" "p = Some c \<Longrightarrow> isValid c"
    "p = Some c \<Longrightarrow> slotRange c = (0, - 1)"
    by (auto simp: new_connected_def new_CConnection_def bind_eq_Some_conv delete_objects split: if_splits)
qed

lemma create_each_objects:
  assumes "\<And>w p w'. get w = Some (p, w') \<Longrightarrow> w_objects w' = w_objects w + (if p = None then 0 else 1)"
    "\<And>w c w'. get w = Some (Some c, w') \<Longrightarrow> isValid c"
  shows "create_each get n w = Some (cs, w') \<Longrightarrow> w_objects w' = w_objects w + length cs \<and> (\<forall>c\<in>set cs. isValid c)"
proof (induction n arbitrary: w cs)
  case (Suc n)
  then obtain p w1 ps where g: "get w = Some (p, w1)" "create_each get n w1 = Some (ps, w')"
    "cs = (case p of None \<Rightarrow> ps | Some p \<Rightarrow> p # ps)"
    by (auto simp: bind_eq_Some_conv)
  with Suc.IH [OF g(2)] assms(1) [OF g(1)] assms(2) [of w] show ?case by (cases p) auto
qed simp


text \<open>A callback that keeps the context of the connection and neither makes nor deletes connections.\<close>

definition polite :: "callback_t \<Rightarrow> bool" where
  "polite cb \<longleftrightarrow> (\<forall>f c w c' w'. cb = Some f \<longrightarrow> f c w = Some (c', w') \<longrightarrow> isValid c \<longrightarrow>
     isValid c' \<and> w_objects w' = w_objects w)"

lemma polite_call: "polite cb \<Longrightarrow> call_back cb c w = Some (c', w') \<Longrightarrow> isValid c \<Longrightarrow>
    isValid c' \<and> w_objects w' = w_objects w"
  unfolding polite_def by (cases cb) (auto simp: call_back_def)

text \<open>Both steps together: the connection, if there is one, and the callback on it.\<close>

definition made :: "world \<Rightarrow> CConnection option \<Rightarrow> world \<Rightarrow> bool" where
  "made w p w' \<longleftrightarrow> w_objects w' = w_objects w + (if p = None then 0 else 1) \<and> (\<forall>c. p = Some c \<longrightarrow> isValid c)"

lemma new_connected_made: "new_connected A lc host port sec w = Some (p, w') \<Longrightarrow> made w p w'"
  using new_connected_objects [of A lc host port sec w p w'] by (auto simp: made_def)

lemma made_call:
  assumes "polite cb" "made w p w1"
    "(case p of None \<Rightarrow> Some (None, w1) | Some p \<Rightarrow> do { (p, w) \<leftarrow> call_back cb p w1; Some (Some p, w) }) = Some (p', w')"
  shows "made w p' w'"
  using assms polite_call [OF assms(1)] by (cases p) (auto simp: made_def bind_eq_Some_conv)

lemma make_laws:
  assumes "\<And>s w p w'. get s w = Some (p, w') \<Longrightarrow> made w p w'"
  shows "tidy_middle_ware (\<lambda>n. create_each (get 0) n) get"
proof -
  have g: "get s w = Some (p, w') \<Longrightarrow> w_objects w' = w_objects w + (if p = None then 0 else 1)"
    "get s w = Some (Some c, w') \<Longrightarrow> isValid c" for s w p c w'
    using assms by (fastforce simp: made_def)+
  note c = create_each_objects [of "get 0", OF g]
  show ?thesis by unfold_locales (use g c in \<open>auto dest: sym\<close>)
qed

text \<open>A single server.\<close>

lemma default_made: "polite (d_callback m) \<Longrightarrow> default_getConnection A lc m s w = Some (p, w') \<Longrightarrow> made w p w'"
  unfolding default_getConnection_def
  by (auto simp: bind_eq_Some_conv intro: made_call [OF _ new_connected_made])

locale polite_default =
  fixes A :: allocator and lc :: libc and m :: CDefaultMiddleWare
  assumes polite: "polite (d_callback m)"

sublocale polite_default \<subseteq> tidy_middle_ware "default_create A lc m" "default_getConnection A lc m"
  using make_laws [of "default_getConnection A lc m", OF default_made [OF polite]]
  by (simp add: default_create_def [abs_def])

text \<open>A Sentinel.\<close>

lemma first_connected_made: "first_connected A lc sec hosts w = Some (p, w') \<Longrightarrow> made w p w'"
proof (induction A lc sec hosts w rule: first_connected.induct)
  case (2 A lc sec host port hosts w)
  obtain q w1 where q: "new_connected A lc host port sec w = Some (q, w1)"
    using 2(2) by (cases "new_connected A lc host port sec w") auto
  show ?case
  proof (cases q)
    case None
    with 2(2) q have "first_connected A lc sec hosts w1 = Some (p, w')" by simp
    from 2(1) [OF q refl None this] new_connected_made [OF q] None show ?thesis by (simp add: made_def)
  next
    case (Some c)
    with 2(2) q new_connected_made [OF q] show ?thesis by simp
  qed
qed (simp add: made_def)

lemma made_None: "w_objects w' = w_objects w \<Longrightarrow> made w None w'"
  by (simp add: made_def)

lemma made_from_rand: "std_rand w = Some (r, w1) \<Longrightarrow> made w1 p w' \<Longrightarrow> made w p w'"
  by (auto simp: std_rand_def made_def split: list.splits)

lemma sentinel_target_made:
  assumes "sentinel_target A lc m c w = Some (p, c', w')"
  shows "made w p w'"
proof (cases "s_role m")
  case MASTER
  let ?q = "ask A lc c [literal ''SENTINEL'', literal ''get-master-addr-by-name'', Str (masterName m)]"
  obtain rpy c1 where r: "?q = Some (rpy, c1)"
    using assms MASTER by (cases ?q) (auto simp: sentinel_target_def)
  show ?thesis
  proof (cases "getType rpy \<noteq> EType_ARRAY \<or> length (getReplies rpy) < 2")
    case True
    with assms MASTER r show ?thesis by (simp add: sentinel_target_def made_None)
  next
    case False
    with assms MASTER r obtain host port q where "new_connected A lc host port 0 w = Some (p, w')"
      by (simp add: sentinel_target_def del: de_Morgan_disj) (auto simp: bind_eq_Some_conv)
    then show ?thesis by (rule new_connected_made)
  qed
next
  case SLAVE
  let ?q = "ask A lc c [literal ''SENTINEL'', literal ''slaves'', Str (masterName m)]"
  obtain rpy c1 where r: "?q = Some (rpy, c1)"
    using assms SLAVE by (cases ?q) (auto simp: sentinel_target_def)
  show ?thesis
  proof (cases "getType rpy = EType_ARRAY")
    case False
    with assms SLAVE r show ?thesis by (simp add: sentinel_target_def made_None)
  next
    case True
    obtain slaves where s: "noexcept (slave_entries (getReplies rpy)) = Some slaves"
      using assms SLAVE r True by (cases "noexcept (slave_entries (getReplies rpy))") (auto simp: sentinel_target_def)
    show ?thesis
    proof (cases "slaves = []")
      case True
      with assms SLAVE r s \<open>getType rpy = EType_ARRAY\<close> show ?thesis by (simp add: sentinel_target_def made_None)
    next
      case False
      with assms SLAVE r s True obtain i w1 ip port where "std_rand w = Some (i, w1)"
        "new_connected A lc ip port (s_timeoutSec m) w1 = Some (p, w')"
        by (simp add: sentinel_target_def) (auto simp: bind_eq_Some_conv)
      then show ?thesis using made_from_rand new_connected_made by blast
    qed
  qed
qed

lemma sentinel_made:
  assumes "polite (s_callback m)" "sentinel_getConnection A lc m s w = Some (p, w')"
  shows "made w p w'"
proof -
  obtain q w1 where q: "first_connected A lc (s_timeoutSec m) (lstSentinel m) w = Some (q, w1)"
    using assms(2) by (auto simp: sentinel_getConnection_def bind_eq_Some_conv)
  note m1 = first_connected_made [OF q]
  show ?thesis
  proof (cases q)
    case None
    with assms(2) q m1 show ?thesis by (auto simp: sentinel_getConnection_def)
  next
    case (Some c)
    obtain p1 c1 w2 w3 where t: "sentinel_target A lc m c w1 = Some (p1, c1, w2)"
      "(case p1 of None \<Rightarrow> Some (None, w2) | Some p \<Rightarrow> do { (p, w) \<leftarrow> call_back (s_callback m) p w2; Some (Some p, w) }) =
        Some (p, w3)" "delete_CConnection c1 w3 = Some w'"
      using assms(2) q Some by (auto simp: sentinel_getConnection_def bind_eq_Some_conv)
    have "made w1 p w3" using made_call [OF assms(1) sentinel_target_made [OF t(1)] t(2)] .
    with m1 Some delete_objects [OF t(3)] show ?thesis by (simp add: made_def)
  qed
qed

locale polite_sentinel =
  fixes A :: allocator and lc :: libc and m :: CSentinelSupport
  assumes polite: "polite (s_callback m)"

sublocale polite_sentinel \<subseteq> tidy_middle_ware "sentinel_create A lc m" "sentinel_getConnection A lc m"
  using make_laws [of "sentinel_getConnection A lc m", OF sentinel_made [OF polite]]
  by (simp add: sentinel_create_def [abs_def])

text \<open>Without a callback both are polite.\<close>

interpretation default_server: polite_default A lc "m\<lparr>d_callback := None\<rparr>" for A lc m
  by unfold_locales (simp add: polite_def)

interpretation sentinel: polite_sentinel A lc "m\<lparr>s_callback := None\<rparr>" for A lc m
  by unfold_locales (simp add: polite_def)

text \<open>A cluster, which may lose objects.\<close>

lemma first_node_objects:
  "first_node A lc sec hosts w = Some (p, w') \<Longrightarrow> w_objects w + (if p = None then 0 else 1) \<le> w_objects w'"
proof (induction A lc sec hosts w rule: first_node.induct)
  case (2 A lc sec host port hosts w)
  then obtain ok c w1 where c: "connect A lc blank_CConnection (c_str host) port sec (w\<lparr>w_objects := w_objects w + 1\<rparr>) =
      Some (ok, c, w1)"
    by (auto simp: new_CConnection_def bind_eq_Some_conv)
  have "w_objects w1 = w_objects w + 1"
    using c by (rule connect_cases) (auto simp: blank_CConnection_def)
  with 2 c show ?case by (fastforce simp: new_CConnection_def split: if_splits)
qed simp

lemma getNodes_objects: "getNodes A lc m w = Some (ns, w') \<Longrightarrow> w_objects w \<le> w_objects w'"
  by (auto simp: getNodes_def bind_eq_Some_conv split: option.splits dest!: first_node_objects delete_objects)

lemma connect_node_objects:
  "connect_node A lc sec node num w = Some (cs, w') \<Longrightarrow> w_objects w + length cs \<le> w_objects w' \<and> (\<forall>c\<in>set cs. isValid c)"
proof (induction num arbitrary: w cs)
  case (Suc num)
  obtain b e ip port where node: "node = (b, e, ip, port)" by (cases node)
  with Suc.prems obtain ok c w1 ps where c: "connect A lc blank_CConnection (c_str ip) port sec
      (w\<lparr>w_objects := w_objects w + 1\<rparr>) = Some (ok, c, w1)"
    "connect_node A lc sec node num w1 = Some (ps, w')" "cs = (if ok then setSlotRange c b e # ps else ps)"
    by (auto simp: new_CConnection_def bind_eq_Some_conv)
  have "w_objects w1 = w_objects w + 1 \<and> (ok \<longrightarrow> isValid c)"
    using c(1) by (rule connect_cases) (auto simp: blank_CConnection_def isValid_def connected_from_def)
  with Suc.IH [OF c(2)] c(3) show ?case by (auto simp: isValid_def setSlotRange_def)
qed simp

lemma connect_nodes_objects:
  "connect_nodes A lc sec nodes num w = Some (cs, w') \<Longrightarrow> w_objects w + length cs \<le> w_objects w' \<and> (\<forall>c\<in>set cs. isValid c)"
proof (induction A lc sec nodes num w arbitrary: cs rule: connect_nodes.induct)
  case (2 A lc sec node nodes num w)
  then obtain ps w1 qs where c: "connect_node A lc sec node num w = Some (ps, w1)"
    "connect_nodes A lc sec nodes num w1 = Some (qs, w')" "cs = ps @ qs"
    by (auto simp: bind_eq_Some_conv)
  have "w_objects w1 + length qs \<le> w_objects w' \<and> (\<forall>c\<in>set qs. isValid c)" by (rule 2(1) [OF c(1) refl c(2)])
  with connect_node_objects [OF c(1)] c(3) show ?case by auto
qed simp

interpretation cluster: middle_ware "cluster_create A lc m" "cluster_getConnection A lc m" for A lc m
proof unfold_locales
  fix s w p c w'
  have g: "w_objects w + (if p = None then 0 else 1) \<le> w_objects w' \<and> (p = Some c \<longrightarrow> isValid c)"
    if get: "cluster_getConnection A lc m s w = Some (p, w')" for p c w'
  proof -
    obtain ns w1 where n: "getNodes A lc m w = Some (ns, w1)"
      using get by (auto simp: cluster_getConnection_def bind_eq_Some_conv)
    show ?thesis
    proof (cases "node_for s ns")
      case None
      with get n getNodes_objects [OF n] show ?thesis by (auto simp: cluster_getConnection_def)
    next
      case (Some x)
      obtain b e ip port where x: "x = (b, e, ip, port)" by (cases x)
      with get n Some obtain q where q: "new_connected A lc ip port (c_timeoutSec m) w1 = Some (q, w')"
        "p = map_option (\<lambda>p. setSlotRange p b e) q"
        by (auto simp: cluster_getConnection_def bind_eq_Some_conv)
      from new_connected_made [OF q(1)] getNodes_objects [OF n] q(2) show ?thesis
        by (cases q) (auto simp: made_def isValid_def setSlotRange_def)
    qed
  qed
  then show "cluster_getConnection A lc m s w = Some (Some c, w') \<Longrightarrow> isValid c"
    "cluster_getConnection A lc m s w = Some (p, w') \<Longrightarrow> w_objects w + (if p = None then 0 else 1) \<le> w_objects w'"
    by blast+
next
  fix n w cs w'
  assume "cluster_create A lc m n w = Some (cs, w')"
  then obtain ns w1 where n: "getNodes A lc m w = Some (ns, w1)"
    "connect_nodes A lc (c_timeoutSec m) ns n w1 = Some (cs, w')"
    by (auto simp: cluster_create_def bind_eq_Some_conv)
  from connect_nodes_objects [OF n(2)] getNodes_objects [OF n(1)]
  show "w_objects w + length cs \<le> w_objects w'" "\<And>c. c \<in> set cs \<Longrightarrow> isValid c" by auto
qed


section \<open>The steps of a pool and its users\<close>

text \<open>What a user does with a connection: any sequence of the operations that keep its context.\<close>

inductive uses :: "allocator \<Rightarrow> libc \<Rightarrow> CConnection \<Rightarrow> CConnection \<Rightarrow> bool" for A lc where
  send: "sendCommand A lc c cmd = Some (rpy, c') \<Longrightarrow> uses A lc c c'"
| append: "append_command A lc c cmd = Some (ok, c') \<Longrightarrow> uses A lc c c'"
| reply: "getReply A lc c = Some (rpy, c') \<Longrightarrow> uses A lc c c'"
| timeout: "setTimeout lc c sec = Some (ok, c') \<Longrightarrow> uses A lc c c'"

lemma on_context_keeps: "on_context f c = Some (x, c') \<Longrightarrow> isValid c \<and> isValid c' \<and> slotRange c' = slotRange c"
  by (auto simp: on_context_def isValid_def bind_eq_Some_conv)

lemma uses_keeps: "uses A lc c c' \<Longrightarrow> isValid c' \<and> slotRange c' = slotRange c"
proof (induction rule: uses.induct)
  case (timeout c sec ok c')
  then show ?case by (auto simp: setTimeout_def bind_eq_Some_conv dest!: on_context_keeps)
qed (auto simp: sendCommand_def append_command_def getReply_def dest!: on_context_keeps)

text \<open>The pool, the connections that users hold, and the world.\<close>

type_synonym pool_state = "CConnectionPool \<times> conn_ptr multiset \<times> world"

inductive pool_step :: "allocator \<Rightarrow> libc \<Rightarrow> pool_state \<Rightarrow> pool_state \<Rightarrow> bool" for A lc where
  get_none: "pool_get_key p key n w = Some (None, p', w') \<Longrightarrow> pool_step A lc (p, H, w) (p', H, w')"
| get: "pool_get_key p key n w = Some (Some c, p', w') \<Longrightarrow> pool_step A lc (p, H, w) (p', add_mset c H, w')"
| use: "uses A lc (cp_conn c) c' \<Longrightarrow> pool_step A lc (p, add_mset c H, w) (p, add_mset (c\<lparr>cp_conn := c'\<rparr>) H, w)"
| release: "pool_release (Some c) p w = Some (p', w') \<Longrightarrow> pool_step A lc (p, add_mset c H, w) (p', H, w')"
| create: "pool_create p n w = Some (ok, p', w') \<Longrightarrow> pool_step A lc (p, H, w) (p', H, w')"
| clear: "pool_clear p w = Some (p', w') \<Longrightarrow> pool_step A lc (p, H, w) (p', H, w')"

text \<open>Every connection of the pool has a context and is filed under the end of its range.\<close>

definition filed :: "pool_t \<Rightarrow> bool" where
  "filed m \<longleftrightarrow> sorted_keys m \<and>
     (\<forall>(k, cs) \<in> set m. \<forall>c \<in> set cs. isValid (cp_conn c) \<and> snd (slotRange (cp_conn c)) = k)"

lemma filed_push:
  "filed m \<Longrightarrow> isValid (cp_conn c) \<Longrightarrow> filed (pool_push (snd (slotRange (cp_conn c))) c m)"
proof -
  assume f: "filed m" and v: "isValid (cp_conn c)"
  have "\<forall>(k, cs) \<in> set (pool_push k' c m). \<forall>c \<in> set cs. isValid (cp_conn c) \<and> snd (slotRange (cp_conn c)) = k"
    if "k' = snd (slotRange (cp_conn c))" "\<forall>(k, cs) \<in> set m. \<forall>c \<in> set cs. isValid (cp_conn c) \<and> snd (slotRange (cp_conn c)) = k" for k'
    using that v by (induction k' c m rule: pool_push.induct) (auto split: if_splits)
  with f push_sorted show ?thesis by (simp add: filed_def)
qed

lemma tl_set: "x \<in> set (tl xs) \<Longrightarrow> x \<in> set xs"
  by (cases xs) simp_all

lemma filed_pop: "filed m \<Longrightarrow> filed (pool_pop k m)"
proof -
  assume f: "filed m"
  have "\<forall>(k, cs) \<in> set (pool_pop k m). \<forall>c \<in> set cs. P c k"
    if "\<forall>(k, cs) \<in> set m. \<forall>c \<in> set cs. P c k" for P :: "conn_ptr \<Rightarrow> 32 word \<Rightarrow> bool"
    using that by (induction k m rule: pool_pop.induct) (auto dest!: tl_set)
  from this [of "\<lambda>c k. isValid (cp_conn c) \<and> snd (slotRange (cp_conn c)) = k"] f pop_sorted
  show ?thesis by (simp add: filed_def)
qed

lemma filed_valid: "filed m \<Longrightarrow> c \<in> set (pooled m) \<Longrightarrow> isValid (cp_conn c)"
  by (force simp: filed_def pooled_def)

text \<open>The middlewares that a pool works with, and the loops over them.\<close>

definition lawful :: "middleware \<Rightarrow> bool" where
  "lawful m \<longleftrightarrow> middle_ware (mw_create m) (mw_getConnection m)"

definition tidy :: "middleware \<Rightarrow> bool" where
  "tidy m \<longleftrightarrow> tidy_middle_ware (mw_create m) (mw_getConnection m)"

lemma tidy_lawful: "tidy m \<Longrightarrow> lawful m"
  by (simp add: tidy_def lawful_def tidy_middle_ware_def)

lemma iterator_steps:
  "mw_getConnection m slot w = Some (c, w1) \<Longrightarrow> get_connection slot m (x, w) = Some (c \<noteq> None, c, w1)"
  "mw_create m n w = Some (cs, w1) \<Longrightarrow> pre_create n m (ys, w) = Some (cs \<noteq> [], cs, w1)"
  by (simp_all add: get_connection_def pre_create_def)

lemma iterator_get:
  assumes "\<forall>m\<in>set ms. lawful m" "tuple_iterator (get_connection slot) ms (None, w) = Some (p, w')"
  shows "w_objects w + (if p = None then 0 else 1) \<le> w_objects w'" "p = Some c \<Longrightarrow> isValid c"
    "\<forall>m\<in>set ms. tidy m \<Longrightarrow> w_objects w' = w_objects w + (if p = None then 0 else 1)"
proof -
  have "w_objects w + (if p = None then 0 else 1) \<le> w_objects w' \<and> (p = Some c \<longrightarrow> isValid c) \<and>
      ((\<forall>m\<in>set ms. tidy m) \<longrightarrow> w_objects w' = w_objects w + (if p = None then 0 else 1))"
    using assms
  proof (induction ms arbitrary: w)
    case (Cons m ms)
    obtain q w1 where q: "mw_getConnection m slot w = Some (q, w1)"
      using Cons.prems(2) by (cases "mw_getConnection m slot w") (auto simp: get_connection_def)
    have l: "middle_ware (mw_create m) (mw_getConnection m)" using Cons.prems(1) by (simp add: lawful_def)
    have t: "tidy m \<Longrightarrow> w_objects w1 = w_objects w + (if q = None then 0 else 1)"
      using tidy_middle_ware.get_exact q unfolding tidy_def by blast
    note o = middle_ware.get_objects [OF l q]
    show ?case
    proof (cases q)
      case None
      then have "tuple_iterator (get_connection slot) ms (None, w1) = Some (p, w')"
        using Cons.prems(2) iterator_steps(1) [OF q] by simp
      with Cons.IH [OF _ this] Cons.prems(1) o t None show ?thesis by auto
    next
      case (Some x)
      with Cons.prems q o t middle_ware.get_valid [OF l] show ?thesis by (auto simp: get_connection_def)
    qed
  qed simp
  then show "w_objects w + (if p = None then 0 else 1) \<le> w_objects w'" "p = Some c \<Longrightarrow> isValid c"
    "\<forall>m\<in>set ms. tidy m \<Longrightarrow> w_objects w' = w_objects w + (if p = None then 0 else 1)"
    by blast+
qed

lemma iterator_create:
  assumes "\<forall>m\<in>set ms. lawful m" "tuple_iterator (pre_create n) ms ([], w) = Some (cs, w')"
  shows "w_objects w + length cs \<le> w_objects w'" "\<forall>c\<in>set cs. isValid c"
    "\<forall>m\<in>set ms. tidy m \<Longrightarrow> w_objects w' = w_objects w + length cs"
proof -
  have "w_objects w + length cs \<le> w_objects w' \<and> (\<forall>c\<in>set cs. isValid c) \<and>
      ((\<forall>m\<in>set ms. tidy m) \<longrightarrow> w_objects w' = w_objects w + length cs)"
    using assms
  proof (induction ms arbitrary: w)
    case (Cons m ms)
    obtain q w1 where q: "mw_create m n w = Some (q, w1)"
      using Cons.prems(2) by (cases "mw_create m n w") (auto simp: pre_create_def)
    have l: "middle_ware (mw_create m) (mw_getConnection m)" using Cons.prems(1) by (simp add: lawful_def)
    have t: "tidy m \<Longrightarrow> w_objects w1 = w_objects w + length q"
      using tidy_middle_ware.give_exact q unfolding tidy_def by blast
    note o = middle_ware.give_objects [OF l q]
    show ?case
    proof (cases "q = []")
      case True
      then have "tuple_iterator (pre_create n) ms ([], w1) = Some (cs, w')"
        using Cons.prems(2) iterator_steps(2) [OF q] by simp
      with Cons.IH [OF _ this] Cons.prems(1) o t True show ?thesis by auto
    next
      case False
      with Cons.prems q o t middle_ware.give_valid [OF l] show ?thesis by (auto simp: pre_create_def)
    qed
  qed simp
  then show "w_objects w + length cs \<le> w_objects w'" "\<forall>c\<in>set cs. isValid c"
    "\<forall>m\<in>set ms. tidy m \<Longrightarrow> w_objects w' = w_objects w + length cs"
    by blast+
qed

lemma push_all:
  assumes "filed m" "\<forall>c\<in>set cs. isValid c"
  shows "filed (fold (\<lambda>c. pool_push (snd (slotRange c)) \<lparr>cp_conn = c, cp_deleter = True\<rparr>) cs m) \<and>
    size (mset (pooled (fold (\<lambda>c. pool_push (snd (slotRange c)) \<lparr>cp_conn = c, cp_deleter = True\<rparr>) cs m))) =
    size (mset (pooled m)) + length cs"
  using assms
proof (induction cs arbitrary: m)
  case (Cons c cs)
  let ?c = "\<lparr>cp_conn = c, cp_deleter = True\<rparr>"
  have "filed (pool_push (snd (slotRange c)) ?c m)" using filed_push [of m ?c] Cons.prems by simp
  from Cons.IH [OF this] Cons.prems(2) push_pooled [of "snd (slotRange c)" ?c m] show ?case by simp
qed simp

lemma destroy_list_objects: "destroy_list cs w = Some w' \<Longrightarrow> w_objects w' = w_objects w - length cs"
  by (induction cs arbitrary: w) (auto simp: destroy_ptr_def bind_eq_Some_conv delete_objects split: if_splits)

text \<open>The accounts: the connections of the pool and those held, against the objects that are alive.\<close>

definition accounts :: "nat \<Rightarrow> pool_state \<Rightarrow> bool" where
  "accounts others s \<longleftrightarrow> (case s of (p, H, w) \<Rightarrow>
     filed (p_pool p) \<and> (\<forall>c \<in># H. isValid (cp_conn c)) \<and> (\<forall>m\<in>set (p_mw p). lawful m) \<and>
     others + length (pooled (p_pool p)) + size H \<le> w_objects w \<and>
     ((\<forall>m\<in>set (p_mw p). tidy m) \<longrightarrow> w_objects w \<le> others + length (pooled (p_pool p)) + size H))"


lemma accounts_get:
  assumes "accounts others (p, H, w)" "pool_get_key p key n w = Some (r, p', w')"
  shows "accounts others (p', (case r of None \<Rightarrow> H | Some c \<Rightarrow> add_mset c H), w')"
proof -
  obtain slot where g: "pool_get p slot w = Some (r, p', w')"
    using assms(2) by (auto simp: pool_get_key_def bind_eq_Some_conv)
  have f: "filed (p_pool p)" "sorted_keys (p_pool p)" "\<forall>m\<in>set (p_mw p). lawful m"
    using assms(1) by (auto simp: accounts_def filed_def)
  show ?thesis
  proof (cases "\<exists>k c cs. lower_bound slot (p_pool p) = Some (k, c # cs)")
    case True
    then obtain k c cs where l: "lower_bound slot (p_pool p) = Some (k, c # cs)" by blast
    then have r: "r = Some c" "p' = p\<lparr>p_pool := pool_pop k (p_pool p)\<rparr>" "w' = w"
      using g by (simp_all add: pool_get_def)
    have m: "mset (pooled (p_pool p)) = add_mset c (mset (pooled (pool_pop k (p_pool p))))"
      by (rule pop_pooled [OF lower_bound_Some(1) [OF f(2) l]])
    then have "c \<in> set (pooled (p_pool p))" by (metis set_mset_mset union_single_eq_member)
    then have v: "isValid (cp_conn c)" using filed_valid f(1) by blast
    have "length (pooled (p_pool p)) = Suc (length (pooled (pool_pop k (p_pool p))))"
      using arg_cong [OF m, of size] by simp
    with assms(1) r v filed_pop [OF f(1), of k] show ?thesis by (simp add: accounts_def)
  next
    case False
    then have "pool_get p slot w = do {
        (c, w) \<leftarrow> tuple_iterator (get_connection slot) (p_mw p) (None, w);
        Some (map_option (\<lambda>c. \<lparr>cp_conn = c, cp_deleter = False\<rparr>) c, p, w) }"
      by (auto simp: pool_get_def split: option.splits list.splits)
    with g obtain c where c: "tuple_iterator (get_connection slot) (p_mw p) (None, w) = Some (c, w')"
      "r = map_option (\<lambda>c. \<lparr>cp_conn = c, cp_deleter = False\<rparr>) c" "p' = p"
      by (auto simp: bind_eq_Some_conv)
    note i = iterator_get [OF f(3) c(1)]
    show ?thesis
    proof (cases c)
      case None
      with assms(1) c i(1,3) show ?thesis by (auto simp: accounts_def)
    next
      case (Some x)
      with assms(1) c i show ?thesis by (auto simp: accounts_def)
    qed
  qed
qed

lemma accounts_release:
  assumes "accounts others (p, add_mset c H, w)" "pool_release (Some c) p w = Some (p', w')"
  shows "accounts others (p', H, w')"
proof (cases "errorNo (cp_conn c) = Some 0")
  case True
  with assms(2) have r: "p' = p\<lparr>p_pool := pool_push (snd (slotRange (cp_conn c))) c (p_pool p)\<rparr>" "w' = w"
    by (simp_all add: pool_release_def)
  have "length (pooled (p_pool p')) = Suc (length (pooled (p_pool p)))"
    using arg_cong [OF push_pooled [of "snd (slotRange (cp_conn c))" c "p_pool p"], of size] r by simp
  with assms(1) r filed_push [of "p_pool p" c] show ?thesis by (simp add: accounts_def)
next
  case False
  with assms(2) have r: "p' = p" "delete_CConnection (cp_conn c) w = Some w'"
    by (auto simp: pool_release_def destroy_ptr_def bind_eq_Some_conv split: if_splits)
  with assms(1) delete_objects [OF r(2)] show ?thesis by (auto simp: accounts_def)
qed

lemma accounts_create:
  assumes "accounts others (p, H, w)" "pool_create p n w = Some (ok, p', w')"
  shows "accounts others (p', H, w')"
proof -
  obtain cs where cs: "tuple_iterator (pre_create n) (p_mw p) ([], w) = Some (cs, w')"
    "p' = p\<lparr>p_pool := fold (\<lambda>c. pool_push (snd (slotRange c)) \<lparr>cp_conn = c, cp_deleter = True\<rparr>) cs (p_pool p)\<rparr>"
    using assms(2) by (auto simp: pool_create_def bind_eq_Some_conv split: if_splits)
  have "\<forall>m\<in>set (p_mw p). lawful m" "filed (p_pool p)" using assms(1) by (auto simp: accounts_def)
  note i = iterator_create [OF this(1) cs(1)]
  from push_all [OF \<open>filed (p_pool p)\<close> i(2)] i(1,3) assms(1) cs(2) show ?thesis
    by (auto simp: accounts_def)
qed

lemma accounts_clear:
  assumes "accounts others (p, H, w)" "pool_clear p w = Some (p', w')"
  shows "accounts others (p', H, w')"
proof -
  have d: "destroy_list (pooled (p_pool p)) w = Some w'" "p' = p\<lparr>p_pool := map (\<lambda>(k, cs). (k, [])) (p_pool p)\<rparr>"
    using assms(2) by (auto simp: pool_clear_def pooled_def bind_eq_Some_conv)
  have e: "pooled (p_pool p') = []" "map fst (p_pool p') = map fst (p_pool p)"
    using d(2) by (auto simp: pooled_def)
  have "sorted_keys (p_pool p)" using assms(1) by (simp add: accounts_def filed_def)
  then have "sorted_keys (p_pool p')" by (simp only: sorted_keys_def e(2))
  then have "filed (p_pool p')" using d(2) by (auto simp: filed_def)
  with e(1) show ?thesis using assms(1) d(2) destroy_list_objects [OF d(1)] by (auto simp: accounts_def)
qed

lemma step_accounts: "pool_step A lc s s' \<Longrightarrow> accounts others s \<Longrightarrow> accounts others s'"
proof (induction rule: pool_step.induct)
  case (get_none p key n w p' w' H)
  then show ?case using accounts_get [of others p H w key n None p' w'] by simp
next
  case (get p key n w c p' w' H)
  then show ?case using accounts_get [of others p H w key n "Some c" p' w'] by simp
next
  case (use c c' p H w)
  then show ?case using uses_keeps [OF use(1)] by (auto simp: accounts_def)
next
  case (release c p w p' w' H)
  then show ?case using accounts_release by blast
next
  case (create p n w ok p' w' H)
  then show ?case using accounts_create by blast
next
  case (clear p w p' w' H)
  then show ?case using accounts_clear by blast
qed

section \<open>Giving back and taking again\<close>

lemma fetch_front:
  assumes "pool_getSlot p key n = Some slot" "lower_bound slot (p_pool p) = Some (k, c # cs)"
  shows "pool_get_key p key n w = Some (Some c, p\<lparr>p_pool := pool_pop k (p_pool p)\<rparr>, w)"
  using assms by (simp add: pool_get_key_def pool_get_def)

text \<open>The connections that a node has in a pool.\<close>

definition filed_under :: "pool_t \<Rightarrow> 32 word \<Rightarrow> conn_ptr list" where
  "filed_under m k = (case map_of m k of None \<Rightarrow> [] | Some cs \<Rightarrow> cs)"

lemma push_filed: "sorted_keys m \<Longrightarrow>
    filed_under (pool_push k c m) k' = (if k' = k then c # filed_under m k else filed_under m k')"
  by (simp add: filed_under_def push_lookup)

lemma pop_filed: "filed_under (pool_pop k m) k' = (if k' = k then tl (filed_under m k) else filed_under m k')"
  by (simp add: filed_under_def pop_lookup split: option.split)

lemma release_then_get:
  assumes "sorted_keys (p_pool p)" "errorNo (cp_conn c) = Some 0" "slotRange (cp_conn c) = (b, e)"
    "pool_getSlot p key n = Some slot" "slot \<le> e" "\<And>k. k \<in> fst ` set (p_pool p) \<Longrightarrow> slot \<le> k \<Longrightarrow> e \<le> k"
  shows "\<exists>p1 p2. pool_release (Some c) p w = Some (p1, w) \<and> pool_get_key p1 key n w = Some (Some c, p2, w) \<and>
    p_mw p2 = p_mw p \<and> filed_under (p_pool p2) = filed_under (p_pool p)"
proof -
  let ?p1 = "p\<lparr>p_pool := pool_push e c (p_pool p)\<rparr>"
  have r: "pool_release (Some c) p w = Some (?p1, w)" using assms(2,3) by (simp add: pool_release_def)
  have s: "sorted_keys (pool_push e c (p_pool p))" using push_sorted assms(1) .
  have m: "map_of (pool_push e c (p_pool p)) e = Some (c # filed_under (p_pool p) e)"
    using push_lookup [OF assms(1), of e c e] by (simp add: filed_under_def)
  have "lower_bound slot (p_pool ?p1) = Some (e, c # filed_under (p_pool p) e)"
  proof (rule lower_bound_least)
    fix k'
    assume "map_of (p_pool ?p1) k' \<noteq> None" "slot \<le> k'"
    then show "e \<le> k'" using assms(6) push_keys [of e c "p_pool p"] by (auto simp: map_of_eq_None_iff)
  qed (use s m assms(5) in simp_all)
  moreover have "pool_getSlot ?p1 key n = Some slot" using assms(4) by (simp add: pool_getSlot_def)
  ultimately have g: "pool_get_key ?p1 key n w = Some (Some c, ?p1\<lparr>p_pool := pool_pop e (p_pool ?p1)\<rparr>, w)"
    by (rule fetch_front [rotated])
  have "filed_under (pool_pop e (pool_push e c (p_pool p))) = filed_under (p_pool p)"
    using push_filed [OF assms(1), of e c] by (auto simp: pop_filed)
  with r g show ?thesis by auto
qed

section \<open>The right node\<close>

text \<open>
  The ranges of the connections of a pool do not overlap those of other keys, and one node of the pool
  covers the slot.
\<close>

definition apart :: "pool_t \<Rightarrow> bool" where
  "apart m \<longleftrightarrow> filed m \<and> (\<forall>(k, cs) \<in> set m. \<forall>c \<in> set cs. \<forall>k' \<in> fst ` set m. k' < k \<longrightarrow> k' < fst (slotRange (cp_conn c)))"

definition covers :: "32 word \<times> 32 word \<Rightarrow> 32 word \<Rightarrow> bool" where
  "covers r slot \<longleftrightarrow> fst r \<le> slot \<and> slot \<le> snd r"

lemma sorted_map_of: "sorted_keys m \<Longrightarrow> (k, cs) \<in> set m \<Longrightarrow> map_of m k = Some cs"
  by (simp add: map_of_is_SomeI sorted_keys_def strict_sorted_iff)

lemma covering_node:
  assumes "apart m" "(k, cs) \<in> set m" "c \<in> set cs" "covers (slotRange (cp_conn c)) slot"
  shows "lower_bound slot m = Some (k, cs)"
proof (rule lower_bound_least)
  show s: "sorted_keys m" using assms(1) by (simp add: apart_def filed_def)
  show "map_of m k = Some cs" using sorted_map_of [OF s assms(2)] .
  have k: "snd (slotRange (cp_conn c)) = k" using assms(1-3) by (auto simp: apart_def filed_def)
  then show "slot \<le> k" using assms(4) by (simp add: covers_def)
  fix k'
  assume k': "map_of m k' \<noteq> None" "slot \<le> k'"
  show "k \<le> k'"
  proof (rule ccontr)
    assume "\<not> k \<le> k'"
    moreover have "k' \<in> fst ` set m" using k'(1) by (simp add: map_of_eq_None_iff)
    ultimately have "k' < fst (slotRange (cp_conn c))" using assms(1-3) by (fastforce simp: apart_def)
    with assms(4) k'(2) show False unfolding covers_def by (meson leD order.trans)
  qed
qed

text \<open>Any other slot below the last key gets a connection that does not cover it.\<close>

lemma gap_wrong_node:
  assumes "apart m" "lower_bound slot m = Some (k, c # cs)" "\<And>k cs c. (k, cs) \<in> set m \<Longrightarrow> c \<in> set cs \<Longrightarrow> \<not> covers (slotRange (cp_conn c)) slot"
  shows "\<not> covers (slotRange (cp_conn c)) slot"
proof -
  have "sorted_keys m" using assms(1) by (simp add: apart_def filed_def)
  from lower_bound_Some(1) [OF this assms(2)] have "(k, c # cs) \<in> set m" by (rule map_of_SomeD)
  then show ?thesis using assms(3) [of k "c # cs" c] by simp
qed

text \<open>A pool that is filled for a cluster whose nodes do not overlap has its ranges apart.\<close>

definition apart_nodes :: "node list \<Rightarrow> bool" where
  "apart_nodes ns \<longleftrightarrow> (\<forall>(b, e, x) \<in> set ns. b \<le> e \<and>
     (\<forall>(b', e', x') \<in> set ns. (b, e) \<noteq> (b', e') \<longrightarrow> e < b' \<or> e' < b))"

lemma apart_nodesD:
  assumes "apart_nodes ns" "(b, e, x) \<in> set ns" "(b', e', x') \<in> set ns"
  shows "e' < e \<Longrightarrow> e' < b" "e' = e \<Longrightarrow> b' = b"
proof -
  have "b \<le> e" "b' \<le> e'" "(b, e) \<noteq> (b', e') \<longrightarrow> e < b' \<or> e' < b"
    using assms by (auto simp: apart_nodes_def)
  then show "e' < e \<Longrightarrow> e' < b" "e' = e \<Longrightarrow> b' = b" by auto
qed

lemma connect_node_range: "connect_node A lc sec (b, e, ip, port) num w = Some (cs, w') \<Longrightarrow>
    \<forall>c\<in>set cs. isValid c \<and> slotRange c = (b, e)"
proof (induction num arbitrary: w cs)
  case (Suc num)
  let ?w = "w\<lparr>w_objects := w_objects w + 1\<rparr>"
  obtain ok p w1 ps where c: "connect A lc blank_CConnection (c_str ip) port sec ?w = Some (ok, p, w1)"
    "connect_node A lc sec (b, e, ip, port) num w1 = Some (ps, w')" "cs = (if ok then setSlotRange p b e # ps else ps)"
    using Suc.prems by (auto simp: new_CConnection_def bind_eq_Some_conv)
  have "contextPtr (impl blank_CConnection) = None" by (simp add: blank_CConnection_def)
  with c(1) have "ok \<Longrightarrow> isValid p" by (rule connect_cases) (auto simp: isValid_def connected_from_def)
  with Suc.IH [OF c(2)] c(3) show ?case by (auto simp: setSlotRange_def isValid_def)
qed simp

lemma connect_nodes_ranges: "connect_nodes A lc sec ns num w = Some (cs, w') \<Longrightarrow> c \<in> set cs \<Longrightarrow>
    isValid c \<and> (\<exists>b e x. (b, e, x) \<in> set ns \<and> slotRange c = (b, e))"
proof (induction ns arbitrary: w cs)
  case (Cons node ns)
  obtain b e ip port where n: "node = (b, e, ip, port)" by (cases node)
  obtain ps w1 qs where c: "connect_node A lc sec node num w = Some (ps, w1)"
    "connect_nodes A lc sec ns num w1 = Some (qs, w')" "cs = ps @ qs"
    using Cons.prems(1) by (auto simp: bind_eq_Some_conv)
  show ?case
  proof (cases "c \<in> set ps")
    case True
    with connect_node_range c(1) n show ?thesis by fastforce
  next
    case False
    with Cons.IH [OF c(2)] Cons.prems(2) c(3) show ?thesis by auto
  qed
qed simp

lemma filled_pool:
  fixes cs :: "CConnection list"
  defines "fill \<equiv> fold (\<lambda>c. pool_push (snd (slotRange c)) \<lparr>cp_conn = c, cp_deleter = True\<rparr>) cs"
  assumes "filed m" "\<forall>c\<in>set cs. isValid c"
  shows "filed (fill m)" "set (pooled (fill m)) = (\<lambda>c. \<lparr>cp_conn = c, cp_deleter = True\<rparr>) ` set cs \<union> set (pooled m)"
    "fst ` set (fill m) = (\<lambda>c. snd (slotRange c)) ` set cs \<union> fst ` set m"
proof -
  have "filed (fill m) \<and> set (pooled (fill m)) = (\<lambda>c. \<lparr>cp_conn = c, cp_deleter = True\<rparr>) ` set cs \<union> set (pooled m) \<and>
      fst ` set (fill m) = (\<lambda>c. snd (slotRange c)) ` set cs \<union> fst ` set m"
    unfolding fill_def using assms(2,3)
  proof (induction cs arbitrary: m)
    case (Cons c cs)
    let ?c = "\<lparr>cp_conn = c, cp_deleter = True\<rparr>"
    let ?m = "pool_push (snd (slotRange c)) ?c m"
    have p: "set (pooled ?m) = insert ?c (set (pooled m))"
      using arg_cong [OF push_pooled [of "snd (slotRange c)" ?c m], of set_mset] by simp
    have k: "fst ` set ?m = insert (snd (slotRange c)) (fst ` set m)"
      using push_keys [of "snd (slotRange c)" ?c m] by simp
    have "filed ?m" using filed_push [of m ?c] Cons.prems by simp
    from Cons.IH [OF this] Cons.prems(2) p k show ?case by auto
  qed simp
  then show "filed (fill m)" "set (pooled (fill m)) = (\<lambda>c. \<lparr>cp_conn = c, cp_deleter = True\<rparr>) ` set cs \<union> set (pooled m)"
    "fst ` set (fill m) = (\<lambda>c. snd (slotRange c)) ` set cs \<union> fst ` set m"
    by blast+
qed

lemma cluster_pool_apart:
  assumes "getNodes A lc m w = Some (ns, w1)" "apart_nodes ns"
    "pool_create \<lparr>p_mw = [cluster_mw A lc m], p_pool = []\<rparr> num w = Some (ok, p, w')"
  shows "apart (p_pool p)" "p_mw p = [cluster_mw A lc m]"
    "c \<in> set (pooled (p_pool p)) \<Longrightarrow> \<exists>b e x. (b, e, x) \<in> set ns \<and> slotRange (cp_conn c) = (b, e)"
proof -
  obtain cs where cs: "connect_nodes A lc (c_timeoutSec m) ns num w1 = Some (cs, w')"
    "p = (if cs = [] then \<lparr>p_mw = [cluster_mw A lc m], p_pool = []\<rparr> else \<lparr>p_mw = [cluster_mw A lc m], p_pool =
       fold (\<lambda>c. pool_push (snd (slotRange c)) \<lparr>cp_conn = c, cp_deleter = True\<rparr>) cs []\<rparr>)"
    using assms(1,3) by (auto simp: pool_create_def pre_create_def cluster_mw_def cluster_create_def bind_eq_Some_conv
      split: if_splits)
  then have p: "p_pool p = fold (\<lambda>c. pool_push (snd (slotRange c)) \<lparr>cp_conn = c, cp_deleter = True\<rparr>) cs []"
    "p_mw p = [cluster_mw A lc m]" by auto
  note r = connect_nodes_ranges [OF cs(1)]
  have "filed []" "\<forall>c\<in>set cs. isValid c" using r by (auto simp: filed_def sorted_keys_def)
  note f = filled_pool [OF this]
  have "k' < fst (slotRange (cp_conn c))" if c: "(k, ds) \<in> set (p_pool p)" "c \<in> set ds" and k': "k' \<in> fst ` set (p_pool p)" "k' < k"
    for k k' c ds
  proof -
    have "c \<in> set (pooled (p_pool p))" using c by (force simp: pooled_def)
    then have c1: "cp_conn c \<in> set cs" using f(2) p(1) by auto
    have k: "snd (slotRange (cp_conn c)) = k" using f(1) c p(1) by (auto simp: filed_def)
    obtain c' where c': "c' \<in> set cs" "snd (slotRange c') = k'" using k'(1) f(3) p(1) by auto
    obtain b e x b' e' x' where "(b, e, x) \<in> set ns" "slotRange (cp_conn c) = (b, e)" "(b', e', x') \<in> set ns" "slotRange c' = (b', e')"
      using r [OF c1] r [OF c'(1)] by blast
    with apart_nodesD(1) [OF assms(2) this(1,3)] k k'(2) c'(2) show ?thesis by simp
  qed
  then have "\<forall>(k, cs) \<in> set (p_pool p). \<forall>c \<in> set cs. \<forall>k' \<in> fst ` set (p_pool p). k' < k \<longrightarrow> k' < fst (slotRange (cp_conn c))"
    by blast
  moreover have "filed (p_pool p)" using f(1) p(1) by simp
  ultimately show "apart (p_pool p)" by (simp only: apart_def)
  show "p_mw p = [cluster_mw A lc m]" by (rule p(2))
  show "\<exists>b e x. (b, e, x) \<in> set ns \<and> slotRange (cp_conn c) = (b, e)" if "c \<in> set (pooled (p_pool p))"
  proof -
    have "cp_conn c \<in> set cs" using that f(2) p(1) by auto
    then show ?thesis using r by blast
  qed
qed

section \<open>Connections made on demand\<close>

lemma destroy_list_deleter: "c \<in> set cs \<Longrightarrow> \<not> cp_deleter c \<Longrightarrow> destroy_list cs w = None"
  by (induction cs arbitrary: w) (auto simp: destroy_ptr_def bind_eq_None_conv)

lemma get_on_demand:
  assumes "pool_getSlot p key n = Some slot" "filed_under (p_pool p) k = []" "lower_bound slot (p_pool p) = None \<or>
     lower_bound slot (p_pool p) = Some (k, [])"
  shows "pool_get_key p key n w = do {
     (c, w) \<leftarrow> tuple_iterator (get_connection slot) (p_mw p) (None, w);
     Some (map_option (\<lambda>c. \<lparr>cp_conn = c, cp_deleter = False\<rparr>) c, p, w) }"
  using assms by (auto simp: pool_get_key_def pool_get_def)

lemma release_then_clear:
  assumes "\<not> cp_deleter c" "sorted_keys (p_pool p)" "errorNo (cp_conn c) = Some err"
  shows "if err = 0 then \<exists>p'. pool_release (Some c) p w = Some (p', w) \<and> pool_clear p' w = None
    else pool_release (Some c) p w = None"
proof (cases "err = 0")
  case True
  let ?m = "pool_push (snd (slotRange (cp_conn c))) c (p_pool p)"
  have "c \<in># mset (pooled ?m)" unfolding push_pooled by simp
  then have "destroy_list (pooled ?m) w = None" using destroy_list_deleter assms(1) by simp
  with True assms(3) show ?thesis by (simp add: pool_release_def pool_clear_def pooled_def)
next
  case False
  with assms show ?thesis by (simp add: pool_release_def destroy_ptr_def)
qed

end
