(* ===== verification/Pool_Properties.thy ===== *)
theory Pool_Properties
  imports Pool_Correct Wrapper_Properties
begin

text \<open>
  The properties of the pool of connections, alone and together with the middlewares, each with a concrete
  instance.
\<close>

section \<open>The pool and its middlewares\<close>

lemma polite_default_tidy: "polite (d_callback m) \<Longrightarrow> tidy (default_mw A lc m)"
  using make_laws [of "default_getConnection A lc m", OF default_made]
  by (simp add: tidy_def default_mw_def default_create_def [abs_def])

lemma cluster_lawful: "lawful (cluster_mw A lc m)"
  using cluster.middle_ware_axioms by (simp add: lawful_def cluster_mw_def)

lemma get_middlewares: "pool_get_key p key n w = Some (r, p', w') \<Longrightarrow> p_mw p' = p_mw p"
proof -
  assume "pool_get_key p key n w = Some (r, p', w')"
  then obtain slot where g: "pool_get p slot w = Some (r, p', w')" by (auto simp: pool_get_key_def bind_eq_Some_conv)
  show ?thesis
  proof (cases "\<exists>k c cs. lower_bound slot (p_pool p) = Some (k, c # cs)")
    case True
    with g show ?thesis by (auto simp: pool_get_def)
  next
    case False
    then have "pool_get p slot w = do {
        (c, w) \<leftarrow> tuple_iterator (get_connection slot) (p_mw p) (None, w);
        Some (map_option (\<lambda>c. \<lparr>cp_conn = c, cp_deleter = False\<rparr>) c, p, w) }"
      by (auto simp: pool_get_def split: option.splits list.splits)
    with g show ?thesis by (auto simp: bind_eq_Some_conv)
  qed
qed

lemma step_middlewares: "pool_step A lc s s' \<Longrightarrow> p_mw (fst s') = p_mw (fst s)"
  by (induction rule: pool_step.induct)
    (auto simp: get_middlewares pool_release_def pool_create_def pool_clear_def bind_eq_Some_conv split: if_splits)

lemma steps_accounts: "(pool_step A lc)\<^sup>*\<^sup>* s s' \<Longrightarrow> accounts others s \<Longrightarrow> accounts others s' \<and> p_mw (fst s') = p_mw (fst s)"
  by (induction rule: rtranclp_induct) (auto simp: step_accounts step_middlewares)

text \<open>C5: in every history of a pool, in which users take connections by any key, use them, give them back, or
  create and clear connections, each connection is in the pool or with one user: those in the pool and those that
  are held are never more than the objects that are alive, and exactly as many if no middleware loses one; every one
  has a context, and those in the pool are filed under the end of their range.\<close>

theorem pool_accounts:
  assumes "(pool_step A lc)\<^sup>*\<^sup>* (\<lparr>p_mw = ms, p_pool = []\<rparr>, {#}, w0) (p, H, w)" "\<forall>m\<in>set ms. lawful m"
  shows "filed (p_pool p) \<and> (\<forall>c \<in># H. isValid (cp_conn c)) \<and>
    w_objects w0 + length (pooled (p_pool p)) + size H \<le> w_objects w \<and>
    ((\<forall>m\<in>set ms. tidy m) \<longrightarrow> w_objects w = w_objects w0 + length (pooled (p_pool p)) + size H)"
proof -
  have "accounts (w_objects w0) (\<lparr>p_mw = ms, p_pool = []\<rparr>, {#}, w0)"
    using assms(2) by (simp add: accounts_def filed_def sorted_keys_def)
  from steps_accounts [OF assms(1) this] show ?thesis by (auto simp: accounts_def)
qed

abbreviation demo_default :: CDefaultMiddleWare where
  "demo_default \<equiv> \<lparr>d_hostName = ''h'', d_port = 6379, d_timeoutSec = 5, d_callback = None\<rparr>"

lemma pool_accounts_witness:
  "\<exists>p w. (pool_step roomy demo_libc)\<^sup>*\<^sup>* (\<lparr>p_mw = [default_mw roomy demo_libc demo_default], p_pool = []\<rparr>, {#},
      demo_world [demo_script [] []]) (p, {#}, w) \<and> w_objects w = 0 + length (pooled (p_pool p)) + size {#} \<and> pooled (p_pool p) \<noteq> []"
proof -
  let ?m = "default_mw roomy demo_libc demo_default" and ?w = "demo_world [demo_script [] []]"
  from new_connected_succeeds [of ?w "demo_script [] []" "[]" 5 roomy "[]" demo_libc "''h''" 6379] obtain c where
    "new_connected roomy demo_libc ''h'' 6379 5 ?w = Some (Some c, ?w\<lparr>w_nets := [], w_objects := w_objects ?w + 1\<rparr>)"
    by auto
  then have "pool_create \<lparr>p_mw = [?m], p_pool = []\<rparr> 1 ?w = Some (True, \<lparr>p_mw = [?m], p_pool =
      [(snd (slotRange c), [\<lparr>cp_conn = c, cp_deleter = True\<rparr>])]\<rparr>, ?w\<lparr>w_nets := [], w_objects := w_objects ?w + 1\<rparr>)"
    by (simp add: pool_create_def pre_create_def default_mw_def default_create_def default_getConnection_def call_back_def)
  from r_into_rtranclp [where r = "pool_step roomy demo_libc", OF pool_step.create [OF this, of roomy demo_libc "{#}"]]
  obtain p w where s: "(pool_step roomy demo_libc)\<^sup>*\<^sup>* (\<lparr>p_mw = [?m], p_pool = []\<rparr>, {#}, ?w) (p, {#}, w)" "pooled (p_pool p) \<noteq> []"
    by fastforce
  have t: "tidy ?m" by (rule polite_default_tidy) (simp add: polite_def)
  with pool_accounts [OF s(1)] s tidy_lawful show ?thesis by fastforce
qed

text \<open>C26: what is given back is what the next user gets: a connection without an error that is released is the one
  that a key of its range gets next, without asking a server, and then every node has the connections in the pool
  that it had before.\<close>

theorem pool_get_after_release:
  assumes "sorted_keys (p_pool p)" "errorNo (cp_conn c) = Some 0" "slotRange (cp_conn c) = (b, e)"
    "pool_getSlot p key n = Some slot" "slot \<le> e" "\<And>k. k \<in> fst ` set (p_pool p) \<Longrightarrow> slot \<le> k \<Longrightarrow> e \<le> k"
  shows "\<exists>p1 p2. pool_release (Some c) p w = Some (p1, w) \<and> pool_get_key p1 key n w = Some (Some c, p2, w) \<and>
    filed_under (p_pool p2) = filed_under (p_pool p)"
  using release_then_get [OF assms] by blast

lemma getSlot_word: "n \<le> length k \<Longrightarrow> n < 2 ^ 31 \<Longrightarrow>
    getSlot (Ptr k) n = Some (of_nat (unat (foldl crc_byte 0 (tag (take n k))) mod 16384))"
proof -
  assume "n \<le> length k" "n < 2 ^ 31"
  from fnHashSlot_spec [OF this] obtain s where s: "getSlot (Ptr k) n = Some s"
    "unat s = unat (foldl crc_byte 0 (tag (take n k))) mod 16384"
    by (auto simp: getSlot_def mask_slot)
  have "s = of_nat (unat s)" by simp
  with s show ?thesis by simp
qed

lemma cluster_slot: "p_mw p = [cluster_mw A lc m] \<Longrightarrow> pool_getSlot p key n = getSlot key n"
  by (cases "getSlot key n") (simp_all add: pool_getSlot_def get_slot_def cluster_mw_def)

text \<open>A connection that was connected before, to a node with a range of slots.\<close>

definition demo_link :: "32 word \<Rightarrow> 32 word \<Rightarrow> recv_outcome list \<Rightarrow> send_outcome list \<Rightarrow> CConnection" where
  "demo_link b e ins outs = blank_CConnection\<lparr>impl := (impl blank_CConnection)\<lparr>contextPtr := Some (demo_conn ins outs)\<rparr>,
     slotRange := (b, e)\<rparr>"

lemma demo_link [simp]: "slotRange (demo_link b e ins outs) = (b, e)" "errorNo (demo_link b e ins outs) = Some 0"
  by (simp_all add: demo_link_def errorNo_def demo_conn_def blank_context_def)

lemma pool_get_after_release_witness:
  "\<exists>p1 p2. pool_release (Some \<lparr>cp_conn = demo_link 0 5460 [] [], cp_deleter = True\<rparr>)
      \<lparr>p_mw = [cluster_mw roomy demo_libc (cluster_at ''h'' 7000 1)], p_pool = [(10922, [])]\<rparr> (demo_world []) = Some (p1, demo_world []) \<and>
    pool_get_key p1 (Ptr ''k'') 0 (demo_world []) =
      Some (Some \<lparr>cp_conn = demo_link 0 5460 [] [], cp_deleter = True\<rparr>, p2, demo_world []) \<and>
    filed_under (p_pool p2) = filed_under [(10922, [])]"
proof -
  let ?p = "\<lparr>p_mw = [cluster_mw roomy demo_libc (cluster_at ''h'' 7000 1)], p_pool = [(10922, [])]\<rparr>"
  have s: "pool_getSlot ?p (Ptr ''k'') 0 = Some 0"
    by (simp add: cluster_slot [OF CConnectionPool.select_convs(1)] getSlot_word tag_def)
  show ?thesis using pool_get_after_release [of ?p "\<lparr>cp_conn = demo_link 0 5460 [] [], cp_deleter = True\<rparr>" 0 5460, OF _ _ _ s]
    by (simp add: sorted_keys_def)
qed

text \<open>C7: a pool that was filled for a cluster whose nodes do not overlap gives, for a key whose node has a
  connection in the pool, a connection to that node, without asking a server.\<close>

theorem pool_right_node:
  assumes "getNodes A lc m w = Some (ns, w1)" "apart_nodes ns"
    "pool_create \<lparr>p_mw = [cluster_mw A lc m], p_pool = []\<rparr> num w = Some (ok, p, w')"
    "getSlot key n = Some slot" "c \<in> set (pooled (p_pool p))" "covers (slotRange (cp_conn c)) slot"
  shows "\<exists>c1 p1. pool_get_key p key n w' = Some (Some c1, p1, w') \<and> slotRange (cp_conn c1) = slotRange (cp_conn c) \<and>
    c1 \<in> set (pooled (p_pool p))"
proof -
  note a = cluster_pool_apart [OF assms(1-3)]
  obtain k cs where k: "(k, cs) \<in> set (p_pool p)" "c \<in> set cs" using assms(5) by (auto simp: pooled_def)
  have f: "filed (p_pool p)" using a(1) by (simp add: apart_def)
  obtain c1 cs1 where cs: "cs = c1 # cs1" using k(2) by (cases cs) auto
  have "pool_getSlot p key n = Some slot" using cluster_slot [OF a(2)] assms(4) by simp
  from fetch_front [OF this covering_node [OF a(1) k assms(6), unfolded cs]]
  have g: "pool_get_key p key n w' = Some (Some c1, p\<lparr>p_pool := pool_pop k (p_pool p)\<rparr>, w')" .
  have c1: "c1 \<in> set (pooled (p_pool p))" using k(1) cs unfolding pooled_def by force
  have e: "snd (slotRange (cp_conn c)) = k" "snd (slotRange (cp_conn c1)) = k" using f k cs by (auto simp: filed_def)
  obtain b e x b1 e1 x1 where "(b, e, x) \<in> set ns" "slotRange (cp_conn c) = (b, e)" "(b1, e1, x1) \<in> set ns"
    "slotRange (cp_conn c1) = (b1, e1)" using a(3) [OF assms(5)] a(3) [OF c1] by blast
  with apart_nodesD(2) [OF assms(2) this(1,3)] e g c1 show ?thesis by simp
qed

section \<open>A cluster of one node\<close>

abbreviation demo_info :: bytes where
  "demo_info \<equiv> ''cluster_state:ok'' @ CRLF @ ''cluster_known_nodes:1'' @ CRLF"

abbreviation demo_node :: node where "demo_node \<equiv> (0, 16383, ''n'', 7001)"

abbreviation demo_slots :: "resp list" where
  "demo_slots \<equiv> [RArr [RInt 0, RInt 16383, RArr [RBulk ''n'', RInt 7001]]]"

definition demo_seed :: net where
  "demo_seed = demo_script [Received (encode (RBulk demo_info) @ encode (RArr demo_slots))] [Accepted 64, Accepted 64]"

lemma demo_in_order: "in_order demo_info"
  by (simp add: in_order_def status_line_def reserve_nodes_def std_stoul_def numeral_prefix_def c_isspace_def is_digit_def)

lemma demo_cluster:
  "list_all2 node_reply [demo_node] demo_slots" "resp_ok 0 (RBulk demo_info)" "resp_ok 0 (RArr demo_slots)"
  "length (encode (RBulk demo_info) @ encode (RArr demo_slots)) + 1024 < 2 ^ 31"
  by (simp_all add: node_reply_def INT_MAX_def sdec_def dec.simps)

lemma demo_seed [simp]:
  "answers_to_connect t (n_sys demo_seed)" "willing 64 2 (n_out demo_seed)" "n_open demo_seed = [0]"
  "incoming (n_in demo_seed) = Some (encode (RBulk demo_info) @ encode (RArr demo_slots))"
  using demo_willing [of "[64, 64]" 64] by (simp_all add: demo_seed_def numeral_2_eq_2)

lemma demo_getNodes:
  "\<exists>n'. getNodes roomy demo_libc (cluster_at ''h'' 7000 1) (demo_world (demo_seed # nets)) =
     Some ([demo_node], (demo_world nets)\<lparr>w_closed := [n']\<rparr>)"
proof -
  have m: "lstHost (cluster_at ''h'' 7000 1) = (''h'', 7000) # []" by (simp add: cluster_at_def)
  from getNodes_spec [where w = "demo_world (demo_seed # nets)" and n = demo_seed and A = roomy and lc = demo_libc,
      OF _ _ demo_seed(4,2) m _ refl demo_in_order demo_cluster]
  obtain n' where "getNodes roomy demo_libc (cluster_at ''h'' 7000 1) (demo_world (demo_seed # nets)) =
      Some ([demo_node], (demo_world (demo_seed # nets))\<lparr>w_nets := nets, w_closed := n' # w_closed (demo_world (demo_seed # nets))\<rparr>)"
    by (auto simp del: encode.simps)
  then show ?thesis by (simp add: demo_world_def)
qed

lemma slot_below: "(of_nat (x mod 16384) :: 32 word) \<le> 16383"
proof -
  have "x mod 16384 < 2 ^ 32" by (rule order.strict_trans1 [of _ 16383]) auto
  then have "unat (of_nat (x mod 16384) :: 32 word) = x mod 16384" by (simp add: unsigned_of_nat take_bit_nat_eq_self)
  moreover have "x mod 16384 \<le> 16383" by auto
  ultimately show ?thesis by (simp add: word_le_nat_alt)
qed

lemma demo_create:
  "\<exists>ok c w'. pool_create \<lparr>p_mw = [cluster_mw roomy demo_libc (cluster_at ''h'' 7000 1)], p_pool = []\<rparr> 1
      (demo_world [demo_seed, demo_script [] []]) =
    Some (ok, \<lparr>p_mw = [cluster_mw roomy demo_libc (cluster_at ''h'' 7000 1)],
      p_pool = [(16383, [\<lparr>cp_conn = c, cp_deleter = True\<rparr>])]\<rparr>, w') \<and> slotRange c = (0, 16383)"
proof -
  let ?m = "cluster_at ''h'' 7000 1"
  obtain n' where g: "getNodes roomy demo_libc ?m (demo_world [demo_seed, demo_script [] []]) =
      Some ([demo_node], (demo_world [demo_script [] []])\<lparr>w_closed := [n']\<rparr>)" using demo_getNodes by blast
  let ?w = "(demo_world [demo_script [] []])\<lparr>w_closed := [n'], w_objects := 1\<rparr>"
  have "contextPtr (impl blank_CConnection) = None" by (simp add: blank_CConnection_def)
  from connect_succeeds [of ?w "demo_script [] []" "[]" 1 roomy, OF _ _ _ this, of "[]" demo_libc "''n''" 7001]
  obtain c where "connect roomy demo_libc blank_CConnection (c_str ''n'') 7001 1 ?w = Some (True, c, ?w\<lparr>w_nets := []\<rparr>)" by auto
  then have "cluster_create roomy demo_libc ?m 1 (demo_world [demo_seed, demo_script [] []]) =
      Some ([setSlotRange c 0 16383], ?w\<lparr>w_nets := []\<rparr>)"
    using g by (simp add: cluster_create_def new_CConnection_def cluster_at_def)
  then show ?thesis
    by (simp add: pool_create_def pre_create_def cluster_mw_def setSlotRange_def) (metis CConnection.select_convs(2) CConnection.surjective CConnection.update_convs(2))
qed

lemma pool_right_node_witness:
  "\<exists>p w' c1 p1. pool_create \<lparr>p_mw = [cluster_mw roomy demo_libc (cluster_at ''h'' 7000 1)], p_pool = []\<rparr> 1
      (demo_world [demo_seed, demo_script [] []]) = Some (True, p, w') \<and>
    pool_get_key p (Ptr ''key'') 3 w' = Some (Some c1, p1, w') \<and> slotRange (cp_conn c1) = (0, 16383)"
proof -
  obtain n' where g: "getNodes roomy demo_libc (cluster_at ''h'' 7000 1) (demo_world [demo_seed, demo_script [] []]) =
      Some ([demo_node], (demo_world [demo_script [] []])\<lparr>w_closed := [n']\<rparr>)" using demo_getNodes by blast
  obtain ok c w' where c: "pool_create \<lparr>p_mw = [cluster_mw roomy demo_libc (cluster_at ''h'' 7000 1)], p_pool = []\<rparr> 1
      (demo_world [demo_seed, demo_script [] []]) =
    Some (ok, \<lparr>p_mw = [cluster_mw roomy demo_libc (cluster_at ''h'' 7000 1)],
      p_pool = [(16383, [\<lparr>cp_conn = c, cp_deleter = True\<rparr>])]\<rparr>, w')" "slotRange c = (0, 16383)" using demo_create by blast
  have ok: "ok = True" using c(1) by (auto simp: pool_create_def bind_eq_Some_conv split: if_splits)
  have s: "getSlot (Ptr ''key'') 3 = Some (of_nat (unat (foldl crc_byte 0 (tag (take 3 ''key''))) mod 16384))"
    by (rule getSlot_word) simp_all
  have "apart_nodes [demo_node]" by (simp add: apart_nodes_def)
  from pool_right_node [OF g this c(1) s, of "\<lparr>cp_conn = c, cp_deleter = True\<rparr>"] c slot_below ok show ?thesis
    by (auto simp: covers_def)
qed

text \<open>C6: from the key to the node: the slot of a key is the remainder by 16384 of the checksum of its tag. When no range
  in the pool ends at or behind the slot, or the first that does has no connection left, the pool asks the first host
  of the cluster for its nodes and connects to the one whose range has the slot; the connection to the first host is
  closed and the pool stays as it is. This is not so when that range has a connection but begins behind the slot: its connection, to another
  node, is given then (\<^theory_text>\<open>gap_wrong_node\<close>).\<close>

theorem cluster_key_to_owner:
  assumes p: "p_mw p = [cluster_mw A lc m]" "\<And>k c cs. lower_bound slot (p_pool p) \<noteq> Some (k, c # cs)" "n \<le> length key" "n < 2 ^ 31"
      "slot = of_nat (unat (foldl crc_byte 0 (tag (take n key))) mod 16384)"
    and w: "w_nets w = n1 # n2 # nets" "answers_to_connect (c_timeoutSec m \<noteq> 0) (n_sys n1)" "incoming (n_in n1) = Some st"
      "willing 64 2 (n_out n1)" "answers_to_connect (c_timeoutSec m \<noteq> 0) (n_sys n2)" "incoming (n_in n2) = Some st2"
    and m: "lstHost m = (host, port) # hosts" "\<And>n. grants A n"
    and st: "st = encode (RBulk info) @ encode (RArr vs)" "in_order info" "list_all2 node_reply ns vs"
      "resp_ok 0 (RBulk info)" "resp_ok 0 (RArr vs)" "length st + 1024 < 2 ^ 31"
    and node: "node_for slot ns = Some (b, e, ip, port2)"
  shows "\<exists>c w'. pool_get_key p (Ptr key) n w = Some (Some \<lparr>cp_conn = c, cp_deleter = False\<rparr>, p, w') \<and>
    covers (slotRange c) slot \<and> (slotRange c, ip, port2) \<in> (\<lambda>(b, e, ip, port). ((b, e), ip, port)) ` set ns \<and>
    host_name (impl c) = takeWhile (\<lambda>x. x \<noteq> NUL) ip \<and> host_port (impl c) = Some port2 \<and> serves A c [] st2 [] \<and>
    (\<exists>n'. w_closed w' = n' # w_closed w \<and> mset (n_open n') = mset (n_open n1))"
proof -
  from cluster_getConnection_spec [OF w m st node, of lc] obtain c n' where c:
    "cluster_getConnection A lc m slot w = Some (Some c,
      w\<lparr>w_nets := nets, w_closed := n' # w_closed w, w_objects := w_objects w + 1\<rparr>)" "mset (n_open n') = mset (n_open n1)"
    "serves A c [] st2 []" "slotRange c = (b, e)" "host_name (impl c) = takeWhile (\<lambda>x. x \<noteq> NUL) ip"
    "host_port (impl c) = Some port2" by blast
  have "pool_getSlot p (Ptr key) n = Some slot" using cluster_slot [OF p(1)] getSlot_word [OF p(3,4)] p(5) by simp
  then have "pool_get_key p (Ptr key) n w = Some (Some \<lparr>cp_conn = c, cp_deleter = False\<rparr>, p,
      w\<lparr>w_nets := nets, w_closed := n' # w_closed w, w_objects := w_objects w + 1\<rparr>)"
    using p(1,2) c(1) by (auto simp add: pool_get_key_def pool_get_def get_connection_def cluster_mw_def split: option.splits list.splits)
  with c(2-6) node_for_Some [OF node] show ?thesis by (force simp: covers_def)
qed

lemma cluster_key_to_owner_witness:
  "\<exists>c w'. pool_get_key \<lparr>p_mw = [cluster_mw roomy demo_libc (cluster_at ''h'' 7000 1)], p_pool = [(16383, [])]\<rparr> (Ptr ''key'') 3
      (demo_world [demo_seed, demo_script [] []]) = Some (Some \<lparr>cp_conn = c, cp_deleter = False\<rparr>,
      \<lparr>p_mw = [cluster_mw roomy demo_libc (cluster_at ''h'' 7000 1)], p_pool = [(16383, [])]\<rparr>, w') \<and>
    host_name (impl c) = ''n'' \<and> host_port (impl c) = Some 7001"
proof -
  let ?slot = "of_nat (unat (foldl crc_byte 0 (tag (take 3 ''key''))) mod 16384) :: 32 word"
  have m: "lstHost (cluster_at ''h'' 7000 1) = (''h'', 7000) # []" by (simp add: cluster_at_def)
  have n: "node_for ?slot [demo_node] = Some demo_node" using slot_below by simp
  have w: "w_nets (demo_world [demo_seed, demo_script [] []]) = demo_seed # demo_script [] [] # []" by simp
  have i: "incoming (n_in (demo_script [] [])) = Some []" by simp
  let ?p = "\<lparr>p_mw = [cluster_mw roomy demo_libc (cluster_at ''h'' 7000 1)], p_pool = [(16383, [])]\<rparr>"
  have lb: "lower_bound ?slot (p_pool ?p) \<noteq> Some (k, c # cs)" for k c cs by simp
  from cluster_key_to_owner [where p = "\<lparr>p_mw = [cluster_mw roomy demo_libc (cluster_at ''h'' 7000 1)], p_pool = [(16383, [])]\<rparr>"
      and key = "''key''" and n = 3 and A = roomy and lc = demo_libc,
      OF _ lb _ _ refl w _ demo_seed(4,2) _ i m _ refl demo_in_order demo_cluster n]
  show ?thesis by (auto simp del: encode.simps)
qed

text \<open>C30: a connection that the pool made on demand has no function to delete it: when it is given back with an
  error, and when it is given back without one and the pool is cleared, the program ends.\<close>

theorem pool_on_demand_terminates:
  assumes "sorted_keys (p_pool p)" "pool_getSlot p key n = Some slot" "lower_bound slot (p_pool p) = None"
    "tuple_iterator (get_connection slot) (p_mw p) (None, w) = Some (Some c, w')" "errorNo c' = Some err"
  shows "\<exists>r. pool_get_key p key n w = Some (Some r, p, w') \<and> cp_conn r = c \<and>
    (if err \<noteq> 0 then pool_release (Some (r\<lparr>cp_conn := c'\<rparr>)) p w' = None
     else \<exists>p'. pool_release (Some (r\<lparr>cp_conn := c'\<rparr>)) p w' = Some (p', w') \<and> pool_clear p' w' = None)"
proof -
  have "pool_get_key p key n w = Some (Some \<lparr>cp_conn = c, cp_deleter = False\<rparr>, p, w')"
    using assms(2-4) by (simp add: pool_get_key_def pool_get_def)
  with release_then_clear [of "\<lparr>cp_conn = c', cp_deleter = False\<rparr>" p err w'] assms(1,5) show ?thesis
    by (intro exI [of _ "\<lparr>cp_conn = c, cp_deleter = False\<rparr>"]) simp
qed

lemma pool_on_demand_terminates_witness:
  "\<exists>r p' w'. pool_get_key \<lparr>p_mw = [default_mw roomy demo_libc demo_default], p_pool = []\<rparr> Null 0
      (demo_world [demo_script [] []]) = Some (Some r, \<lparr>p_mw = [default_mw roomy demo_libc demo_default], p_pool = []\<rparr>, w') \<and>
    pool_release (Some (r\<lparr>cp_conn := cp_conn r\<rparr>)) \<lparr>p_mw = [default_mw roomy demo_libc demo_default], p_pool = []\<rparr> w' =
      Some (p', w') \<and> pool_clear p' w' = None"
proof -
  let ?p = "\<lparr>p_mw = [default_mw roomy demo_libc demo_default], p_pool = []\<rparr>" and ?w = "demo_world [demo_script [] []]"
  from new_connected_succeeds [of ?w "demo_script [] []" "[]" 5 roomy "[]" demo_libc "''h''" 6379] obtain c where c:
    "new_connected roomy demo_libc ''h'' 6379 5 ?w = Some (Some c, ?w\<lparr>w_nets := [], w_objects := w_objects ?w + 1\<rparr>)"
    "serves roomy c [] [] []"
    by auto
  have s: "pool_getSlot ?p Null 0 = Some (- 1)" by (simp add: pool_getSlot_def get_slot_def default_mw_def default_getSlot_def)
  have t: "tuple_iterator (get_connection (- 1)) (p_mw ?p) (None, ?w) =
      Some (Some c, ?w\<lparr>w_nets := [], w_objects := w_objects ?w + 1\<rparr>)"
    using c(1) by (simp add: get_connection_def default_mw_def default_getConnection_def call_back_def)
  from pool_on_demand_terminates [OF _ s _ t serves_valid(2) [OF c(2)]] show ?thesis
    by (fastforce simp: sorted_keys_def)
qed

end
