(* ===== verification/Runner.thy ===== *)
theory Runner
  imports Pool
begin

text \<open>
  Running commands on the connections of a pool: \<^verbatim>\<open>runSingleCommand\<close>, \<^verbatim>\<open>mapCommandPerNode\<close>, the
  classes \<^verbatim>\<open>CRunner\<close> and \<^verbatim>\<open>CAsyncRunner\<close> with its \<^verbatim>\<open>CTaskHolder\<close>, of \<^verbatim>\<open>MCRedis/Runner.h\<close>. The
  template argument \<^verbatim>\<open>TRetryCount\<close> is the argument \<^theory_text>\<open>retries\<close>.
\<close>

section \<open>One command\<close>

text \<open>
  The loop of \<^verbatim>\<open>runSingleCommand\<close>: no round ends it. The connection of a round goes back to the pool at
  its end.
\<close>

primrec single_loop :: "allocator \<Rightarrow> libc \<Rightarrow> nat \<Rightarrow> CCommand \<Rightarrow> bytes ptr \<times> nat \<Rightarrow> CReply \<Rightarrow> CConnectionPool \<Rightarrow> world \<Rightarrow>
    (CReply \<times> CConnectionPool \<times> world) option" where
  "single_loop A lc 0 cmd cmdKey rpy p w = Some (rpy, p, w)"
| "single_loop A lc (Suc tryCount) cmd cmdKey rpy p w = do {
     (conn, p, w) \<leftarrow> pool_get_key p (fst cmdKey) (snd cmdKey) w;
     (case conn of
        None \<Rightarrow> single_loop A lc tryCount cmd cmdKey rpy p w
      | Some c \<Rightarrow>
          if \<not> isValid (cp_conn c) then do {
            (p, w) \<leftarrow> pool_release (Some c) p w;
            single_loop A lc tryCount cmd cmdKey rpy p w
          }
          else do {
            (rpy, cc) \<leftarrow> sendCommand A lc (cp_conn c) cmd;
            (p, w) \<leftarrow> pool_release (Some (c\<lparr>cp_conn := cc\<rparr>)) p w;
            single_loop A lc tryCount cmd cmdKey rpy p w
          })
   }"

definition runSingleCommand :: "allocator \<Rightarrow> libc \<Rightarrow> nat \<Rightarrow> CConnectionPool \<Rightarrow> CCommand \<Rightarrow> world \<Rightarrow>
    (CReply \<times> CConnectionPool \<times> world) option" where
  "runSingleCommand A lc retries p cmd w = do {
     cmdKey \<leftarrow> getKey cmd;
     single_loop A lc retries cmd cmdKey no_reply p w
   }"

section \<open>Commands by node\<close>

text \<open>The commands that are sent over one connection, which is held meanwhile.\<close>

type_synonym groups = "(conn_ptr \<times> CCommand list) list"

text \<open>The destructor of the vector of groups.\<close>

fun release_groups :: "groups \<Rightarrow> CConnectionPool \<Rightarrow> world \<Rightarrow> (CConnectionPool \<times> world) option" where
  "release_groups [] p w = Some (p, w)"
| "release_groups ((c, cmds) # gs) p w = do {
     (p, w) \<leftarrow> pool_release (Some c) p w;
     release_groups gs p w
   }"

text \<open>
  What becomes of a command: there is no connection for it, it is left where it is, which happens only
  with \<^theory_text>\<open>retries = 0\<close>, or it is moved into a group. The last argument is the range of the group before.
\<close>

datatype placing = No_connection | Skipped | Placed "32 word \<times> 32 word" groups

text \<open>\<^verbatim>\<open>lstNodeCommand.rbegin()->second.push_back\<close>, undefined without a group.\<close>

definition push_last :: "CCommand \<Rightarrow> groups \<Rightarrow> groups option" where
  "push_last cmd gs = (if gs = [] then None
     else Some (butlast gs @ [(fst (last gs), snd (last gs) @ [cmd])]))"

primrec place_command :: "nat \<Rightarrow> CCommand \<Rightarrow> bytes ptr \<times> nat \<Rightarrow> 32 word \<times> 32 word \<Rightarrow> groups \<Rightarrow> CConnectionPool \<Rightarrow> world \<Rightarrow>
    (placing \<times> CConnectionPool \<times> world) option" where
  "place_command 0 cmd cmdKey prev gs p w = Some (Skipped, p, w)"
| "place_command (Suc tryCount) cmd cmdKey prev gs p w = do {
     (conn, p, w) \<leftarrow> pool_get_key p (fst cmdKey) (snd cmdKey) w;
     (case conn of
        None \<Rightarrow>
          if tryCount = 0 then Some (No_connection, p, w)
          else place_command tryCount cmd cmdKey prev gs p w
      | Some c \<Rightarrow>
          if \<not> isValid (cp_conn c) then do {
            (p, w) \<leftarrow> pool_release (Some c) p w;
            if tryCount = 0 then Some (No_connection, p, w)
            else place_command tryCount cmd cmdKey prev gs p w
          }
          else if slotRange (cp_conn c) \<noteq> prev
          then Some (Placed (slotRange (cp_conn c)) (gs @ [(c, [fst (move_CCommand cmd)])]), p, w)
          else do {
            gs \<leftarrow> push_last (fst (move_CCommand cmd)) gs;
            (p, w) \<leftarrow> pool_release (Some c) p w;
            Some (Placed prev gs, p, w)
          })
   }"

text \<open>
  The loop over the commands: the groups, or \<^theory_text>\<open>None\<close> when a command found no connection, and what the
  moves leave of the commands.
\<close>

fun place_commands :: "nat \<Rightarrow> 32 word \<times> 32 word \<Rightarrow> groups \<Rightarrow> CCommand list \<Rightarrow> CConnectionPool \<Rightarrow> world \<Rightarrow>
    (groups option \<times> CCommand list \<times> CConnectionPool \<times> world) option" where
  "place_commands retries prev gs [] p w = Some (Some gs, [], p, w)"
| "place_commands retries prev gs (cmd # cmds) p w = do {
     cmdKey \<leftarrow> getKey cmd;
     (r, p, w) \<leftarrow> place_command retries cmd cmdKey prev gs p w;
     (case r of
        No_connection \<Rightarrow> do {
          (p, w) \<leftarrow> release_groups gs p w;
          Some (None, cmd # cmds, p, w)
        }
      | Skipped \<Rightarrow> do {
          (res, left, p, w) \<leftarrow> place_commands retries prev gs cmds p w;
          Some (res, cmd # left, p, w)
        }
      | Placed prev gs \<Rightarrow> do {
          (res, left, p, w) \<leftarrow> place_commands retries prev gs cmds p w;
          Some (res, snd (move_CCommand cmd) # left, p, w)
        })
   }"

definition mapCommandPerNode :: "nat \<Rightarrow> CConnectionPool \<Rightarrow> CCommand list \<Rightarrow> world \<Rightarrow>
    (groups option \<times> CCommand list \<times> CConnectionPool \<times> world) option" where
  "mapCommandPerNode retries p cmds w = place_commands retries (0, 0) [] cmds p w"

section \<open>The runner\<close>

text \<open>The callback of the user, which may change the reply; empty or a function.\<close>

type_synonym on_reply = "(CReply \<Rightarrow> world \<Rightarrow> (CReply \<times> world) option) option"

definition reply_back :: "on_reply \<Rightarrow> CReply \<Rightarrow> world \<Rightarrow> (CReply \<times> world) option" where
  "reply_back f r w = (case f of None \<Rightarrow> Some (r, w) | Some f \<Rightarrow> f r w)"

text \<open>Appending the commands of a group: false when one cannot be appended.\<close>

fun append_all :: "allocator \<Rightarrow> libc \<Rightarrow> CCommand list \<Rightarrow> CConnection \<Rightarrow> (bool \<times> CConnection) option" where
  "append_all A lc [] c = Some (True, c)"
| "append_all A lc (cmd # cmds) c = do {
     (ok, c) \<leftarrow> append_command A lc c cmd;
     if ok then append_all A lc cmds c else Some (False, c)
   }"

primrec reply_all :: "allocator \<Rightarrow> libc \<Rightarrow> on_reply \<Rightarrow> nat \<Rightarrow> CConnection \<Rightarrow> world \<Rightarrow>
    (CReply list \<times> CConnection \<times> world) option" where
  "reply_all A lc cb 0 c w = Some ([], c, w)"
| "reply_all A lc cb (Suc n) c w = do {
     (r, c) \<leftarrow> getReply A lc c;
     (r, w) \<leftarrow> reply_back cb r w;
     (rs, c, w) \<leftarrow> reply_all A lc cb n c w;
     Some (r # rs, c, w)
   }"

text \<open>The loop over the groups: whether it came to the end, and the replies so far.\<close>

fun run_groups :: "allocator \<Rightarrow> libc \<Rightarrow> on_reply \<Rightarrow> groups \<Rightarrow> CConnectionPool \<Rightarrow> world \<Rightarrow>
    (bool \<times> CReply list \<times> CConnectionPool \<times> world) option" where
  "run_groups A lc cb [] p w = Some (True, [], p, w)"
| "run_groups A lc cb ((c, cmds) # gs) p w = do {
     (ok, cc) \<leftarrow> append_all A lc cmds (cp_conn c);
     if \<not> ok then do {
       (p, w) \<leftarrow> pool_release (Some (c\<lparr>cp_conn := cc\<rparr>)) p w;
       (p, w) \<leftarrow> release_groups gs p w;
       Some (False, [], p, w)
     }
     else do {
       (rs, cc, w) \<leftarrow> reply_all A lc cb (length cmds) cc w;
       (p, w) \<leftarrow> pool_release (Some (c\<lparr>cp_conn := cc\<rparr>)) p w;
       (ok, rs', p, w) \<leftarrow> run_groups A lc cb gs p w;
       Some (ok, rs @ rs', p, w)
     }
   }"

text \<open>\<^verbatim>\<open>lstRpy.resize(n)\<close>.\<close>

definition resize_replies :: "nat \<Rightarrow> CReply list \<Rightarrow> CReply list" where
  "resize_replies n rs = take n rs @ replicate (n - length rs) no_reply"

text \<open>\<^verbatim>\<open>CRunner::_run\<close>: the replies, and what is left in \<^verbatim>\<open>lstCommand_\<close>.\<close>

definition runner_run :: "allocator \<Rightarrow> libc \<Rightarrow> nat \<Rightarrow> on_reply \<Rightarrow> CCommand list \<Rightarrow> CConnectionPool \<Rightarrow> world \<Rightarrow>
    (CReply list \<times> CCommand list \<times> CConnectionPool \<times> world) option" where
  "runner_run A lc retries cb own p w =
     (case own of
        [cmd] \<Rightarrow> do {
          (rpy, p, w) \<leftarrow> runSingleCommand A lc retries p cmd w;
          (rpy, w) \<leftarrow> reply_back cb rpy w;
          Some ([rpy], own, p, w)
        }
      | _ \<Rightarrow> do {
          (gs, left, p, w) \<leftarrow> mapCommandPerNode retries p own w;
          (case gs of
             Some (g # gs) \<Rightarrow> do {
               (ok, rs, p, w) \<leftarrow> run_groups A lc cb (g # gs) p w;
               if ok then Some (rs, [], p, w)
               else Some (resize_replies (length left) rs, left, p, w)
             }
           | _ \<Rightarrow> Some (replicate (length left) no_reply, left, p, w))
        })"

text \<open>The interface of \<^verbatim>\<open>CRunner\<close>: \<^verbatim>\<open>append\<close>, \<^verbatim>\<open>runCommands\<close> and \<^verbatim>\<open>run\<close>.\<close>

definition runner_append :: "CCommand \<Rightarrow> CCommand list \<Rightarrow> CCommand list" where
  "runner_append cmd own = own @ [fst (move_CCommand cmd)]"

definition runCommands :: "allocator \<Rightarrow> libc \<Rightarrow> nat \<Rightarrow> on_reply \<Rightarrow> CCommand list \<Rightarrow> CConnectionPool \<Rightarrow> world \<Rightarrow>
    (CReply list \<times> CCommand list \<times> CConnectionPool \<times> world) option" where
  "runCommands A lc retries cb own p w = runner_run A lc retries cb own p w"

definition run :: "allocator \<Rightarrow> libc \<Rightarrow> nat \<Rightarrow> CCommand \<Rightarrow> on_reply \<Rightarrow> CCommand list \<Rightarrow> CConnectionPool \<Rightarrow> world \<Rightarrow>
    (CReply \<times> CCommand list \<times> CConnectionPool \<times> world) option" where
  "run A lc retries cmd cb own p w = do {
     (rs, own, p, w) \<leftarrow> runner_run A lc retries cb (runner_append cmd own) p w;
     Some (if rs = [] then no_reply else hd rs, own, p, w)
   }"

section \<open>The asynchronous runner\<close>

text \<open>The body of the task: the last reply.\<close>

fun task_groups :: "allocator \<Rightarrow> libc \<Rightarrow> on_reply \<Rightarrow> CReply \<Rightarrow> groups \<Rightarrow> CConnectionPool \<Rightarrow> world \<Rightarrow>
    (CReply \<times> CConnectionPool \<times> world) option" where
  "task_groups A lc cb rpy [] p w = Some (rpy, p, w)"
| "task_groups A lc cb rpy ((c, cmds) # gs) p w = do {
     (ok, cc) \<leftarrow> append_all A lc cmds (cp_conn c);
     if \<not> ok then do {
       (p, w) \<leftarrow> pool_release (Some (c\<lparr>cp_conn := cc\<rparr>)) p w;
       (p, w) \<leftarrow> release_groups gs p w;
       Some (rpy, p, w)
     }
     else do {
       (rs, cc, w) \<leftarrow> reply_all A lc cb (length cmds) cc w;
       (p, w) \<leftarrow> pool_release (Some (c\<lparr>cp_conn := cc\<rparr>)) p w;
       task_groups A lc cb (last (rpy # rs)) gs p w
     }
   }"

definition task_body :: "allocator \<Rightarrow> libc \<Rightarrow> nat \<Rightarrow> on_reply \<Rightarrow> CCommand list \<Rightarrow> CConnectionPool \<Rightarrow> world \<Rightarrow>
    (CReply \<times> CConnectionPool \<times> world) option" where
  "task_body A lc retries cb cmds p w =
     (case cmds of
        [cmd] \<Rightarrow> do {
          (rpy, p, w) \<leftarrow> runSingleCommand A lc retries p cmd w;
          (rpy, w) \<leftarrow> reply_back cb rpy w;
          Some (rpy, p, w)
        }
      | _ \<Rightarrow> do {
          (gs, left, p, w) \<leftarrow> mapCommandPerNode retries p cmds w;
          (case gs of
             Some (g # gs) \<Rightarrow> task_groups A lc cb no_reply (g # gs) p w
           | _ \<Rightarrow> Some (no_reply, p, w))
        })"

text \<open>
  \<^verbatim>\<open>CTaskHolder\<close>: the futures by their number, the last number, and the numbers that were given back
  and whose futures the handler drops. A future that is taken out is no longer in the map. The type of
  futures is a parameter.
\<close>

record 'f CTaskHolder =
  mapTask :: "64 word \<Rightarrow> 'f option"
  lastId :: "64 word"
  terminate :: bool
  lstReturnedId :: "64 word list"

definition new_CTaskHolder :: "'f CTaskHolder" where
  "new_CTaskHolder = \<lparr>mapTask = Map.empty, lastId = 0, terminate = False, lstReturnedId = []\<rparr>"

definition addTask :: "'f \<Rightarrow> 'f CTaskHolder \<Rightarrow> 64 word \<times> 'f CTaskHolder" where
  "addTask result h =
     (let i = lastId h + 1; h = h\<lparr>lastId := i\<rparr>
      in if mapTask h i = None then (i, h\<lparr>mapTask := (mapTask h)(i \<mapsto> result)\<rparr>) else (0, h))"

definition remove_task :: "64 word \<Rightarrow> 'f CTaskHolder \<Rightarrow> 'f CTaskHolder" where
  "remove_task i h = h\<lparr>mapTask := (mapTask h)(i := None)\<rparr>"

definition holder_getResult :: "64 word \<Rightarrow> 'f CTaskHolder \<Rightarrow> 'f option \<times> 'f CTaskHolder" where
  "holder_getResult i h = (case mapTask h i of
     None \<Rightarrow> (None, h)
   | Some result \<Rightarrow> (Some result, remove_task i h))"

definition returnId :: "64 word \<Rightarrow> 'f CTaskHolder \<Rightarrow> 'f CTaskHolder" where
  "returnId i h = h\<lparr>lstReturnedId := lstReturnedId h @ [i]\<rparr>"

text \<open>A round of the handler, and \<^verbatim>\<open>stop\<close>, after which it has ended.\<close>

definition handler_round :: "'f CTaskHolder \<Rightarrow> 'f CTaskHolder" where
  "handler_round h =
     (if terminate h \<or> lstReturnedId h = [] then h
      else (fold remove_task (lstReturnedId h) h)\<lparr>lstReturnedId := []\<rparr>)"

definition stop_holder :: "'f CTaskHolder \<Rightarrow> 'f CTaskHolder" where
  "stop_holder h = h\<lparr>terminate := True, mapTask := Map.empty\<rparr>"

text \<open>The interface of \<^verbatim>\<open>CAsyncRunner\<close>; a future is what \<^verbatim>\<open>std::async\<close> makes of the commands.\<close>

record CAsyncRunner =
  ar_lstCommand :: "CCommand list"
  ar_resultId :: "64 word"

definition async_append :: "CCommand \<Rightarrow> CAsyncRunner \<Rightarrow> CAsyncRunner" where
  "async_append cmd r = r\<lparr>ar_lstCommand := ar_lstCommand r @ [fst (move_CCommand cmd)]\<rparr>"

definition async_run :: "(CCommand list \<Rightarrow> 'f) \<Rightarrow> CAsyncRunner \<Rightarrow> 'f CTaskHolder \<Rightarrow> CAsyncRunner \<times> 'f CTaskHolder" where
  "async_run std_async r h =
     (let h = (if ar_resultId r \<noteq> 0 then returnId (ar_resultId r) h else h);
          (i, h) = addTask (std_async (ar_lstCommand r)) h
      in (\<lparr>ar_lstCommand = [], ar_resultId = i\<rparr>, h))"

text \<open>\<^verbatim>\<open>getResult\<close>: the future to wait for, or \<^theory_text>\<open>None\<close> for the default reply.\<close>

definition async_getResult :: "CAsyncRunner \<Rightarrow> 'f CTaskHolder \<Rightarrow> 'f option \<times> CAsyncRunner \<times> 'f CTaskHolder" where
  "async_getResult r h =
     (if ar_resultId r = 0 then (None, r, h)
      else let (f, h) = holder_getResult (ar_resultId r) h in (f, r\<lparr>ar_resultId := 0\<rparr>, h))"

definition async_destroy :: "CAsyncRunner \<Rightarrow> 'f CTaskHolder \<Rightarrow> 'f CTaskHolder" where
  "async_destroy r h = (if ar_resultId r \<noteq> 0 then returnId (ar_resultId r) h else h)"

end
