(* ===== verification/Runner_Correct.thy ===== *)
theory Runner_Correct
  imports Runner Pool_Correct Middle_Ware_Correct
begin

text \<open>
  What the runners do: how often a command is sent, which reply belongs to which command, and what is
  left of the commands of a runner.
\<close>

section \<open>One command\<close>

text \<open>A round with a connection of the pool: it comes back to the place where it was.\<close>

definition front :: "pool_t \<Rightarrow> 32 word \<Rightarrow> conn_ptr \<Rightarrow> conn_ptr list \<Rightarrow> bool" where
  "front m k c cs \<longleftrightarrow> sorted_keys m \<and> map_of m k = Some (c # cs) \<and> snd (slotRange (cp_conn c)) = k"

definition replace_front :: "32 word \<Rightarrow> conn_ptr \<Rightarrow> pool_t \<Rightarrow> pool_t" where
  "replace_front k c m = pool_push k c (pool_pop k m)"

lemma lower_bound_keys: "map fst m = map fst m' \<Longrightarrow> sorted_keys m \<Longrightarrow> lower_bound s m = Some (k, cs) \<Longrightarrow>
    map_of m' k = Some cs' \<Longrightarrow> lower_bound s m' = Some (k, cs')"
proof -
  assume k: "map fst m = map fst m'" and s: "sorted_keys m" and l: "lower_bound s m = Some (k, cs)"
    and m: "map_of m' k = Some cs'"
  have n: "map_of m x = None \<longleftrightarrow> map_of m' x = None" for x
    using k unfolding map_of_eq_None_iff by (metis image_set)
  have "sorted_keys m'" using k s by (simp add: sorted_keys_def)
  then show ?thesis using lower_bound_Some(2,3) [OF s l] n m by (intro lower_bound_least) auto
qed

lemma push_existing_keys: "sorted_keys m \<Longrightarrow> map_of m k \<noteq> None \<Longrightarrow> map fst (pool_push k c m) = map fst m"
proof (induction k c m rule: pool_push.induct)
  case (2 k c k1 cs m)
  then have "k < k1 \<Longrightarrow> map_of m k = None" by (force simp: sorted_keys_def map_of_eq_None_iff)
  with 2 show ?case by (cases "k = k1") (auto simp: sorted_keys_def)
qed simp

lemma replace_front_front:
  assumes "front m k c cs" "snd (slotRange (cp_conn c')) = k"
  shows "front (replace_front k c' m) k c' cs" "map fst (replace_front k c' m) = map fst m"
proof -
  have s: "sorted_keys (pool_pop k m)" using assms(1) pop_sorted by (simp add: front_def)
  have m: "map_of (pool_pop k m) k = Some cs" using assms(1) by (simp add: pop_lookup front_def)
  show "map fst (replace_front k c' m) = map fst m"
    using push_existing_keys [OF s] m by (simp add: replace_front_def)
  show "front (replace_front k c' m) k c' cs"
    using push_sorted [OF s] push_lookup [OF s, of k c' k] m assms(2) by (simp add: front_def replace_front_def)
qed

lemma pop_replace: "front m k c cs \<Longrightarrow> pool_pop k (replace_front k c' m) = pool_pop k m"
  unfolding replace_front_def by (rule pop_push) (auto simp: front_def pop_sorted pop_lookup)

lemma replace_replace: "front m k c cs \<Longrightarrow> replace_front k c2 (replace_front k c1 m) = replace_front k c2 m"
  using pop_replace [of m k c cs c1] by (simp add: replace_front_def)

lemma replace_same: "sorted_keys m \<Longrightarrow> map_of m k = Some (c # cs) \<Longrightarrow> replace_front k c m = m"
proof (induction k m rule: pool_pop.induct)
  case (2 k k1 cs1 m)
  then have "k < k1 \<Longrightarrow> map_of m k = None" by (force simp: sorted_keys_def map_of_eq_None_iff)
  with 2 show ?case by (cases "k = k1") (auto simp: sorted_keys_def replace_front_def)
qed simp

lemma get_front:
  assumes "pool_getSlot p key n = Some slot" "lower_bound slot (p_pool p) = Some (k, c # cs)"
  shows "pool_get_key p key n w = Some (Some c, p\<lparr>p_pool := pool_pop k (p_pool p)\<rparr>, w)"
  using assms by (simp add: pool_get_key_def pool_get_def)

lemma release_front:
  assumes "snd (slotRange (cp_conn c)) = k" "errorNo (cp_conn c) = Some 0"
  shows "pool_release (Some c) (p\<lparr>p_pool := pool_pop k m\<rparr>) w = Some (p\<lparr>p_pool := replace_front k c m\<rparr>, w)"
  using assms by (simp add: pool_release_def replace_front_def)

lemma getSlot_pool [simp]: "pool_getSlot (p\<lparr>p_pool := m\<rparr>) key n = pool_getSlot p key n"
  by (simp add: pool_getSlot_def)

text \<open>The loop: one command and one reply in each round.\<close>

lemma single_loop_spec:
  assumes "pool_getSlot p (fst key) (snd key) = Some slot" "lower_bound slot (p_pool p) = Some (k, c # cs)"
    "front (p_pool p) k c cs" "serves A (cp_conn c) q st out" "\<And>n. grants A n" "ts \<noteq> []"
    "q @ st = concat (map encode vs) @ rest" "list_all (resp_ok 0) vs" "length (q @ st) + 1024 < 2 ^ 31"
    "length out + length vs * length (command ts) \<le> B" "B < 0x7ffff000" "willing B (length vs + i) (sends (cp_conn c))"
  shows "\<exists>c' q' st' out'. single_loop A lc (length vs) (command_for ts) key r p w =
      Some (last (r # map creply_of vs), p\<lparr>p_pool := replace_front k (c\<lparr>cp_conn := c'\<rparr>) (p_pool p)\<rparr>, w) \<and>
    serves A c' q' st' out' \<and> rest = q' @ st' \<and>
    sent c' @ out' = sent (cp_conn c) @ out @ concat (replicate (length vs) (command ts)) \<and>
    slotRange c' = slotRange (cp_conn c) \<and> willing B i (sends c') \<and>
    length out' \<le> length out + length vs * length (command ts) \<and>
    (q = [] \<and> one_by_one vs (recvs (cp_conn c)) \<longrightarrow> q' = [] \<and> (vs \<noteq> [] \<longrightarrow> out' = []))"
  using assms(1-4,7-10,12)
proof (induction vs arbitrary: p c q st out r)
  case Nil
  then have "replace_front k c (p_pool p) = p_pool p" by (intro replace_same) (auto simp: front_def)
  with Nil show ?case by (intro exI [of _ "cp_conn c"] exI [of _ q] exI [of _ st] exI [of _ out]) simp
next
  case (Cons v vs)
  have l: "length (out @ command ts) \<le> B" using Cons.prems(8) by simp
  have w: "willing B (Suc (length vs + i)) (sends (cp_conn c))" using Cons.prems(9) by simp
  from sendCommand_spec [OF Cons.prems(4) assms(6,5) l assms(11) w, of v "concat (map encode vs) @ rest" lc] Cons.prems(5-7)
  obtain c1 q1 st1 out1 where c1: "sendCommand A lc (cp_conn c) (command_for ts) = Some (creply_of v, c1)"
    "serves A c1 q1 st1 out1" "concat (map encode vs) @ rest = q1 @ st1"
    "sent c1 @ out1 = sent (cp_conn c) @ out @ command ts" "length out1 \<le> length (out @ command ts)"
    "willing B (length vs + i) (sends c1)" "slotRange c1 = slotRange (cp_conn c)" "q = [] \<longrightarrow> out1 = []"
    by auto
  have one: "q1 = [] \<and> one_by_one vs (recvs c1)" if "q = []" "one_by_one (v # vs) (recvs (cp_conn c))"
    using sendCommand_one [OF _ assms(6,5) l assms(11) w c1(1,2) _ _ c1(3) that(2), of st] Cons.prems(4-6) that(1) by simp
  let ?c = "c\<lparr>cp_conn := c1\<rparr>"
  let ?p = "p\<lparr>p_pool := replace_front k ?c (p_pool p)\<rparr>"
  have s: "snd (slotRange (cp_conn ?c)) = k" using Cons.prems(3) c1(7) by (simp add: front_def)
  note f = replace_front_front [OF Cons.prems(3) s]
  have lb: "lower_bound slot (p_pool ?p) = Some (k, ?c # cs)"
    using lower_bound_keys [OF f(2) [symmetric] _ Cons.prems(2)] f(1) Cons.prems(3) by (simp add: front_def)
  have len: "length (q1 @ st1) + 1024 < 2 ^ 31" using Cons.prems(5,7) unfolding c1(3) [symmetric] by simp
  have B: "length out1 + length vs * length (command ts) \<le> B" using c1(5) Cons.prems(8) by simp
  have e: "errorNo (cp_conn ?c) = Some 0" "isValid (cp_conn c)"
    using serves_valid c1(2) Cons.prems(4) by auto
  have step: "single_loop A lc (length (v # vs)) (command_for ts) key r p w =
      single_loop A lc (length vs) (command_for ts) key (creply_of v) ?p w"
    using get_front [OF Cons.prems(1,2)] e(2) c1(1) release_front [OF s e(1), where p = p and m = "p_pool p" and w = w] by simp
  from Cons.IH [of ?p ?c q1 st1 out1 "creply_of v"] Cons.prems(1,6) lb f(1) c1(2,3,6) len B obtain c2 q2 st2 out2 where
    "single_loop A lc (length vs) (command_for ts) key (creply_of v) ?p w =
      Some (last (creply_of v # map creply_of vs), ?p\<lparr>p_pool := replace_front k (?c\<lparr>cp_conn := c2\<rparr>) (p_pool ?p)\<rparr>, w)"
    "serves A c2 q2 st2 out2" "rest = q2 @ st2"
    "sent c2 @ out2 = sent c1 @ out1 @ concat (replicate (length vs) (command ts))" "slotRange c2 = slotRange c1"
    "willing B i (sends c2)" "length out2 \<le> length out1 + length vs * length (command ts)"
    "q1 = [] \<and> one_by_one vs (recvs c1) \<longrightarrow> q2 = [] \<and> (vs \<noteq> [] \<longrightarrow> out2 = [])"
    by auto
  moreover have "q2 = [] \<and> out2 = []" if "q = []" "one_by_one (v # vs) (recvs (cp_conn c))"
    using one [OF that] calculation(7,8) c1(8) that(1) by (cases "vs = []") auto
  moreover have "sent c1 @ out1 @ x = sent (cp_conn c) @ out @ command ts @ x" for x
    using arg_cong [OF c1(4), of "\<lambda>l. l @ x"] by simp
  moreover have "length out1 + length vs * length (command ts) \<le> length out + length (v # vs) * length (command ts)"
    using c1(5) by simp
  ultimately show ?case using step c1(7) replace_replace [OF Cons.prems(3), of "?c\<lparr>cp_conn := c2\<rparr>" ?c]
    by (intro exI [of _ c2] exI [of _ q2] exI [of _ st2] exI [of _ out2]) simp
qed


section \<open>Commands by node\<close>

abbreviation moved :: "CCommand \<Rightarrow> CCommand" where "moved cmd \<equiv> fst (move_CCommand cmd)"

abbreviation remains :: "CCommand \<Rightarrow> CCommand" where "remains cmd \<equiv> snd (move_CCommand cmd)"

text \<open>The ranges of adjacent groups differ, and the last one is \<^theory_text>\<open>prev\<close>.\<close>

fun alternating :: "32 word \<times> 32 word \<Rightarrow> groups \<Rightarrow> bool" where
  "alternating prev [] = True"
| "alternating prev ((c, cmds) # gs) = (slotRange (cp_conn c) \<noteq> prev \<and> cmds \<noteq> [] \<and> isValid (cp_conn c) \<and>
     alternating (slotRange (cp_conn c)) gs)"

definition last_range :: "32 word \<times> 32 word \<Rightarrow> groups \<Rightarrow> 32 word \<times> 32 word" where
  "last_range prev gs = (if gs = [] then prev else slotRange (cp_conn (fst (last gs))))"

lemma last_range_simps [simp]: "last_range prev [] = prev"
  "last_range prev (gs @ [(c, cmds)]) = slotRange (cp_conn c)"
  by (simp_all add: last_range_def)

lemma alternating_snoc: "alternating prev (gs @ [(c, cmds)]) \<longleftrightarrow>
    alternating prev gs \<and> slotRange (cp_conn c) \<noteq> last_range prev gs \<and> cmds \<noteq> [] \<and> isValid (cp_conn c)"
  by (induction prev gs rule: alternating.induct) (auto simp: last_range_def)

lemma push_last_Some: "push_last cmd gs = Some gs' \<Longrightarrow>
    \<exists>gs0 c cmds. gs = gs0 @ [(c, cmds)] \<and> gs' = gs0 @ [(c, cmds @ [cmd])]"
  by (cases gs rule: rev_cases) (auto simp: push_last_def)

text \<open>A command that is placed is moved behind those that were placed before.\<close>

lemma place_command_Placed:
  assumes "place_command n cmd key prev gs p w = Some (Placed prev' gs', p', w')" "prev = last_range r gs" "alternating r gs"
  shows "concat (map snd gs') = concat (map snd gs) @ [moved cmd] \<and> prev' = last_range r gs' \<and> alternating r gs'"
  using assms
proof (induction n arbitrary: p w)
  case (Suc n)
  obtain conn p1 w1 where g: "pool_get_key p (fst key) (snd key) w = Some (conn, p1, w1)"
    using Suc.prems(1) by (auto simp: bind_eq_Some_conv)
  show ?case
  proof (cases conn)
    case None
    with Suc.prems(1) g have "place_command n cmd key prev gs p1 w1 = Some (Placed prev' gs', p', w')"
      by (simp split: if_splits)
    from Suc.IH [OF this Suc.prems(2,3)] show ?thesis .
  next
    case (Some c)
    show ?thesis
    proof (cases "isValid (cp_conn c)")
      case False
      with Suc.prems(1) g Some obtain p2 w2 where
        "place_command n cmd key prev gs p2 w2 = Some (Placed prev' gs', p', w')"
        by (auto simp: bind_eq_Some_conv split: if_splits)
      from Suc.IH [OF this Suc.prems(2,3)] show ?thesis .
    next
      case True
      show ?thesis
      proof (cases "slotRange (cp_conn c) = prev")
        case False
        with Suc.prems(1) g Some True have "prev' = slotRange (cp_conn c)" "gs' = gs @ [(c, [moved cmd])]" by simp_all
        with Suc.prems(2,3) True False show ?thesis by (simp add: alternating_snoc)
      next
        case same: True
        then have p: "push_last (moved cmd) gs = Some gs'" "prev' = prev"
          using Suc.prems(1) g Some True by (auto simp: bind_eq_Some_conv)
        from push_last_Some [OF p(1)] obtain gs0 c0 cmds0
          where gs: "gs = gs0 @ [(c0, cmds0)]" "gs' = gs0 @ [(c0, cmds0 @ [moved cmd])]" by blast
        from Suc.prems(2,3) p(2) show ?thesis unfolding gs by (simp add: alternating_snoc)
      qed
    qed
  qed
qed simp

lemma place_command_Skipped:
  "place_command n cmd key prev gs p w = Some (Skipped, p', w') \<Longrightarrow> n = 0"
proof (induction n arbitrary: p w)
  case (Suc n)
  obtain conn p1 w1 where g: "pool_get_key p (fst key) (snd key) w = Some (conn, p1, w1)"
    using Suc.prems by (auto simp: bind_eq_Some_conv)
  show ?case
  proof (cases conn)
    case None
    with Suc.prems g have "n \<noteq> 0" "place_command n cmd key prev gs p1 w1 = Some (Skipped, p', w')"
      by (simp_all split: if_splits)
    with Suc.IH show ?thesis by blast
  next
    case (Some c)
    with Suc.prems g have "\<not> isValid (cp_conn c)" by (auto simp: bind_eq_Some_conv split: if_splits)
    with Suc.prems g Some obtain p2 w2 where "n \<noteq> 0" "place_command n cmd key prev gs p2 w2 = Some (Skipped, p', w')"
      by (auto simp: bind_eq_Some_conv split: if_splits)
    with Suc.IH show ?thesis by blast
  qed
qed simp

lemma place_commands_groups:
  assumes "place_commands retries prev gs cmds p w = Some (res, left, p', w')" "retries \<noteq> 0"
    "prev = last_range r gs" "alternating r gs"
  shows "length left = length cmds \<and> (\<forall>gs'. res = Some gs' \<longrightarrow> left = map remains cmds \<and>
    concat (map snd gs') = concat (map snd gs) @ map moved cmds \<and> alternating r gs') \<and>
    (left = cmds \<or> (\<exists>cmd cs. cmds = cmd # cs \<and> hd left = remains cmd))"
  using assms
proof (induction cmds arbitrary: prev gs p w res left)
  case (Cons cmd cmds)
  obtain key where key: "getKey cmd = Some key" using Cons.prems(1) by (auto simp: bind_eq_Some_conv)
  obtain x p1 w1 where x: "place_command retries cmd key prev gs p w = Some (x, p1, w1)"
    using Cons.prems(1) key by (auto simp: bind_eq_Some_conv)
  show ?case
  proof (cases x)
    case No_connection
    with Cons.prems(1) key x show ?thesis by (auto simp: bind_eq_Some_conv)
  next
    case Skipped
    from place_command_Skipped [OF x [unfolded this]] Cons.prems(2) show ?thesis by simp
  next
    case (Placed prev1 gs1)
    from place_command_Placed [OF x [unfolded Placed] Cons.prems(3,4)]
    have p1: "concat (map snd gs1) = concat (map snd gs) @ [moved cmd]" "prev1 = last_range r gs1" "alternating r gs1"
      by auto
    obtain left1 where l: "place_commands retries prev1 gs1 cmds p1 w1 = Some (res, left1, p', w')"
      "left = remains cmd # left1"
      using Cons.prems(1) key x Placed by (auto simp: bind_eq_Some_conv)
    from Cons.IH [OF l(1) Cons.prems(2) p1(2,3)] p1(1) l(2) show ?thesis by auto
  qed
qed simp

lemma mapCommandPerNode_groups:
  assumes "mapCommandPerNode retries p cmds w = Some (res, left, p', w')" "retries \<noteq> 0"
  shows "length left = length cmds" "res = Some gs \<Longrightarrow> concat (map snd gs) = map moved cmds"
    "res = Some gs \<Longrightarrow> alternating (0, 0) gs" "res = Some gs \<Longrightarrow> left = map remains cmds"
    "left = cmds \<or> (\<exists>cmd cs. cmds = cmd # cs \<and> hd left = remains cmd)"
  using place_commands_groups [OF assms(1) [unfolded mapCommandPerNode_def] assms(2), of "(0, 0)"] by auto

text \<open>The number of replies.\<close>

lemma reply_all_length: "reply_all A lc cb n c w = Some (rs, c', w') \<Longrightarrow> length rs = n"
  by (induction n arbitrary: c w rs) (auto simp: bind_eq_Some_conv)

lemma run_groups_length:
  "run_groups A lc cb gs p w = Some (True, rs, p', w') \<Longrightarrow> length rs = length (concat (map snd gs))"
proof (induction gs arbitrary: p w rs)
  case (Cons g gs)
  obtain c cmds where g: "g = (c, cmds)" by (cases g)
  obtain ok cc where a: "append_all A lc cmds (cp_conn c) = Some (ok, cc)"
    using Cons.prems g by (auto simp: bind_eq_Some_conv)
  have ok using Cons.prems g a by (auto simp: bind_eq_Some_conv split: if_splits)
  then obtain rs1 cc1 w1 p2 w2 rs2 where r: "reply_all A lc cb (length cmds) cc w = Some (rs1, cc1, w1)"
    "run_groups A lc cb gs p2 w2 = Some (True, rs2, p', w')" "rs = rs1 @ rs2"
    using Cons.prems g a by (auto simp: bind_eq_Some_conv)
  from reply_all_length [OF r(1)] Cons.IH [OF r(2)] r(3) g show ?case by simp
qed simp

text \<open>A run of other than one command.\<close>

lemma runner_many:
  assumes "runner_run A lc retries cb own p w = Some (rs, left, p', w')" "length own \<noteq> 1"
  obtains res left1 p1 w1 where "mapCommandPerNode retries p own w = Some (res, left1, p1, w1)"
    "\<And>x gs. res \<noteq> Some (x # gs)" "rs = replicate (length left1) no_reply" "left = left1"
  | x gs left1 p1 w1 ok rs1 p2 w2 where "mapCommandPerNode retries p own w = Some (Some (x # gs), left1, p1, w1)"
    "run_groups A lc cb (x # gs) p1 w1 = Some (ok, rs1, p2, w2)"
    "rs = (if ok then rs1 else resize_replies (length left1) rs1)" "left = (if ok then [] else left1)"
proof -
  have r: "runner_run A lc retries cb own p w = do {
      (gs, left, p, w) \<leftarrow> mapCommandPerNode retries p own w;
      (case gs of
         Some (g # gs) \<Rightarrow> do {
           (ok, rs, p, w) \<leftarrow> run_groups A lc cb (g # gs) p w;
           if ok then Some (rs, [], p, w)
           else Some (resize_replies (length left) rs, left, p, w)
         }
       | _ \<Rightarrow> Some (replicate (length left) no_reply, left, p, w)) }"
    using assms(2) by (auto simp: runner_run_def split: list.splits)
  obtain res left1 p1 w1 where m: "mapCommandPerNode retries p own w = Some (res, left1, p1, w1)"
    using assms(1) unfolding r by (auto simp: bind_eq_Some_conv)
  show thesis
  proof (cases "\<exists>x gs. res = Some (x # gs)")
    case False
    have "rs = replicate (length left1) no_reply \<and> left = left1"
    proof (cases res)
      case None
      with assms(1) m show ?thesis unfolding r by auto
    next
      case (Some gs)
      with False have "res = Some []" by (cases gs) auto
      with assms(1) m show ?thesis unfolding r by auto
    qed
    with False m show ?thesis by (intro that(1)) auto
  next
    case True
    then obtain x gs where res: "res = Some (x # gs)" by blast
    then obtain ok rs1 p2 w2 where g: "run_groups A lc cb (x # gs) p1 w1 = Some (ok, rs1, p2, w2)"
      using assms(1) m unfolding r by (cases "run_groups A lc cb (x # gs) p1 w1") auto
    with assms(1) m res have "rs = (if ok then rs1 else resize_replies (length left1) rs1)" "left = (if ok then [] else left1)"
      unfolding r by (auto split: if_splits)
    with m res g show ?thesis by (intro that(2)) auto
  qed
qed

lemma runner_run_length:
  assumes "runner_run A lc retries cb own p w = Some (rs, left, p', w')" "retries \<noteq> 0"
  shows "length rs = length own"
proof (cases "length own = 1")
  case True
  then obtain cmd where "own = [cmd]" by (auto simp: length_Suc_conv)
  with assms(1) show ?thesis by (auto simp: runner_run_def bind_eq_Some_conv)
next
  case False
  with assms(1) show ?thesis
  proof (cases rule: runner_many)
    case (1 res left1 p1 w1)
    from mapCommandPerNode_groups(1) [OF 1(1) assms(2)] 1(3) show ?thesis by simp
  next
    case (2 x gs left1 p1 w1 ok rs1 p2 w2)
    note g = mapCommandPerNode_groups [OF 2(1) assms(2)]
    show ?thesis
    proof (cases ok)
      case True
      have "length rs1 = length (concat (map snd (x # gs)))"
        using run_groups_length 2(2) True by simp
      then show ?thesis using 2(3) True by (simp only: g(2) [OF refl] length_map if_True)
    next
      case False
      with 2(3) g(1) show ?thesis by (simp add: resize_replies_def)
    qed
  qed
qed

text \<open>What a failed run leaves of the commands cannot be run.\<close>

lemma left_commands_undefined:
  assumes "runner_run A lc retries cb (c1 # c2 # cs) p w = Some (rs, left, p', w')" "retries \<noteq> 0"
    "left \<noteq> []" "left \<noteq> c1 # c2 # cs" "2 \<le> length (lstCommand c1)"
  shows "runner_run A lc retries' cb' left q v = None"
proof -
  have "length (c1 # c2 # cs) \<noteq> 1" by simp
  from assms(1) this obtain res p1 w1 where m: "mapCommandPerNode retries p (c1 # c2 # cs) w = Some (res, left, p1, w1)"
    using assms(3) by (cases rule: runner_many) (auto split: if_splits)
  note g = mapCommandPerNode_groups [OF m assms(2)]
  obtain x y xs where l: "left = x # y # xs" using g(1) by (cases left; cases "tl left") auto
  have "x = remains c1" using g(5) assms(4) l by auto
  then have "getKey x = None" using getKey_moved [OF assms(5)] by simp
  with l show ?thesis by (simp add: runner_run_def mapCommandPerNode_def)
qed

section \<open>A pipeline on one node\<close>

text \<open>
  The commands that all belong to the node whose connections are \<^theory_text>\<open>c\<close>, \<^theory_text>\<open>c2\<close> and others: they are
  grouped on the first connection; the second one is taken for each further command, and given back.
\<close>

definition belongs :: "CConnectionPool \<Rightarrow> 32 word \<Rightarrow> bytes list \<Rightarrow> bool" where
  "belongs p k ts \<longleftrightarrow> (\<exists>key slot cs. getKey (command_for ts) = Some key \<and>
     pool_getSlot p (fst key) (snd key) = Some slot \<and> lower_bound slot (p_pool p) = Some (k, cs))"

lemma belongs_key:
  assumes "belongs p k ts" "sorted_keys (p_pool p)"
  obtains key slot where "getKey (command_for ts) = Some key" "pool_getSlot p (fst key) (snd key) = Some slot"
    "\<And>m. map fst m = map fst (p_pool p) \<Longrightarrow> map_of m k = Some cs \<Longrightarrow> lower_bound slot m = Some (k, cs)"
proof -
  obtain key slot cs' where k: "getKey (command_for ts) = Some key" "pool_getSlot p (fst key) (snd key) = Some slot"
    "lower_bound slot (p_pool p) = Some (k, cs')" using assms(1) by (auto simp: belongs_def)
  have "lower_bound slot m = Some (k, cs)" if "map fst m = map fst (p_pool p)" "map_of m k = Some cs" for m
    using lower_bound_keys [OF that(1) [symmetric] assms(2) k(3) that(2)] .
  with k(1,2) show thesis by (rule that)
qed

lemma place_first:
  assumes "belongs p k ts" "front (p_pool p) k c cs" "isValid (cp_conn c)" "slotRange (cp_conn c) \<noteq> prev"
    "getKey (command_for ts) = Some key"
  shows "place_command (Suc n) (command_for ts) key prev gs p w =
    Some (Placed (slotRange (cp_conn c)) (gs @ [(c, [command_for ts])]), p\<lparr>p_pool := pool_pop k (p_pool p)\<rparr>, w)"
proof -
  have f: "sorted_keys (p_pool p)" "map_of (p_pool p) k = Some (c # cs)" using assms(2) by (simp_all add: front_def)
  obtain slot where "pool_getSlot p (fst key) (snd key) = Some slot" "lower_bound slot (p_pool p) = Some (k, c # cs)"
    using belongs_key [OF assms(1) f(1)] assms(5) f(2) by (metis option.inject)
  from get_front [OF this, of w] assms(3,4) show ?thesis by simp
qed

lemma place_next:
  assumes "belongs p k ts" "front (p_pool p) k c2 cs" "isValid (cp_conn c2)" "errorNo (cp_conn c2) = Some 0"
    "slotRange (cp_conn c2) = slotRange (cp_conn c)" "getKey (command_for ts) = Some key"
  shows "place_command (Suc n) (command_for ts) key (slotRange (cp_conn c)) [(c, cmds)] p w =
    Some (Placed (slotRange (cp_conn c)) [(c, cmds @ [command_for ts])], p, w)"
proof -
  have f: "sorted_keys (p_pool p)" "map_of (p_pool p) k = Some (c2 # cs)" "snd (slotRange (cp_conn c2)) = k"
    using assms(2) by (simp_all add: front_def)
  obtain slot where "pool_getSlot p (fst key) (snd key) = Some slot" "lower_bound slot (p_pool p) = Some (k, c2 # cs)"
    using belongs_key [OF assms(1) f(1)] assms(6) f(2) by (metis option.inject)
  note g = get_front [OF this, of w]
  have "pool_release (Some c2) (p\<lparr>p_pool := pool_pop k (p_pool p)\<rparr>) w = Some (p, w)"
    using release_front [OF f(3) assms(4), where p = p and m = "p_pool p" and w = w] replace_same [OF f(1,2)] by simp
  with g assms(3,5) show ?thesis by (simp add: push_last_def)
qed

lemma belongs_pool: "belongs p k ts \<Longrightarrow> sorted_keys (p_pool p) \<Longrightarrow> map fst m = map fst (p_pool p) \<Longrightarrow>
    map_of m k \<noteq> None \<Longrightarrow> belongs (p\<lparr>p_pool := m\<rparr>) k ts"
  unfolding belongs_def using lower_bound_keys [of "p_pool p" m] by fastforce

lemma place_commands_one_node:
  assumes "front (p_pool p) k c2 cs" "isValid (cp_conn c2)" "errorNo (cp_conn c2) = Some 0"
    "slotRange (cp_conn c2) = slotRange (cp_conn c)"
  shows "\<forall>ts\<in>set tss. belongs p k ts \<Longrightarrow>
    place_commands (Suc n) (slotRange (cp_conn c)) [(c, cmds)] (map command_for tss) p w =
    Some (Some [(c, cmds @ map command_for tss)], map (\<lambda>ts. remains (command_for ts)) tss, p, w)"
proof (induction tss arbitrary: cmds)
  case (Cons ts tss)
  then have b: "belongs p k ts" by simp
  then obtain key where key: "getKey (command_for ts) = Some key" by (auto simp: belongs_def)
  have "place_commands (Suc n) (slotRange (cp_conn c)) [(c, cmds @ [command_for ts])] (map command_for tss) p w =
      Some (Some [(c, (cmds @ [command_for ts]) @ map command_for tss)], map (\<lambda>ts. remains (command_for ts)) tss, p, w)"
    using Cons by simp
  with key place_next [OF b assms key, of n cmds w] show ?case by (simp del: place_command.simps)
qed simp

lemma mapCommandPerNode_one_node:
  assumes "sorted_keys (p_pool p)" "map_of (p_pool p) k = Some (c # c2 # cs)" "snd (slotRange (cp_conn c)) = k"
    "isValid (cp_conn c)" "isValid (cp_conn c2)" "errorNo (cp_conn c2) = Some 0"
    "slotRange (cp_conn c2) = slotRange (cp_conn c)" "slotRange (cp_conn c) \<noteq> (0, 0)"
    "\<forall>ts\<in>set tss. belongs p k ts" "tss \<noteq> []" "retries \<noteq> 0"
  shows "mapCommandPerNode retries p (map command_for tss) w =
    Some (Some [(c, map command_for tss)], map (\<lambda>ts. remains (command_for ts)) tss,
      p\<lparr>p_pool := pool_pop k (p_pool p)\<rparr>, w)"
proof -
  let ?p = "p\<lparr>p_pool := pool_pop k (p_pool p)\<rparr>"
  obtain n where n: "retries = Suc n" using assms(11) by (cases retries) auto
  obtain ts tss' where t: "tss = ts # tss'" using assms(10) by (cases tss) auto
  have b: "belongs p k ts" using assms(9) t by simp
  then obtain key where key: "getKey (command_for ts) = Some key" by (auto simp: belongs_def)
  have f: "front (p_pool p) k c (c2 # cs)" "front (p_pool ?p) k c2 cs"
    using assms(1-3,7) by (simp_all add: front_def pop_sorted pop_lookup)
  have "\<forall>ts\<in>set tss'. belongs ?p k ts"
    using assms(1,2,9) t belongs_pool [of p k] by (simp add: pop_lookup)
  from place_commands_one_node [OF f(2) assms(5-7) this, of n "[command_for ts]" w]
    place_first [OF b f(1) assms(4,8) key, of n "[]" w] key
  show ?thesis unfolding mapCommandPerNode_def n t by (simp del: place_command.simps)
qed

lemma append_all_spec:
  assumes "\<And>n. grants A n"
  shows "serves A c q st out \<Longrightarrow> [] \<notin> set tss \<Longrightarrow> length (out @ concat (map command tss)) < 2 ^ 31 \<Longrightarrow>
    \<exists>c'. append_all A lc (map command_for tss) c = Some (True, c') \<and>
      serves A c' q st (out @ concat (map command tss)) \<and> sent c' = sent c \<and> sends c' = sends c \<and> slotRange c' = slotRange c"
proof (induction tss arbitrary: c out)
  case (Cons ts tss)
  have t: "ts \<noteq> []" "length (out @ command ts) < 2 ^ 31" using Cons.prems(2,3) by auto
  from append_command_spec [OF Cons.prems(1) t(1) assms t(2), of lc] obtain c1 where c1:
    "append_command A lc c (command_for ts) = Some (True, c1)" "serves A c1 q st (out @ command ts)"
    "sent c1 = sent c" "sends c1 = sends c" "slotRange c1 = slotRange c" by blast
  from Cons.IH [OF c1(2)] Cons.prems(2,3) obtain c2 where "append_all A lc (map command_for tss) c1 = Some (True, c2)"
    "serves A c2 q st ((out @ command ts) @ concat (map command tss))" "sent c2 = sent c1" "sends c2 = sends c1"
    "slotRange c2 = slotRange c1" by auto
  with c1 show ?case by (intro exI [of _ c2]) simp
qed simp

lemma reply_all_spec:
  assumes "\<And>n. grants A n" "B < 0x7ffff000"
  shows "serves A c q st out \<Longrightarrow> length out \<le> B \<Longrightarrow> willing B (length vs) (sends c) \<Longrightarrow>
    q @ st = concat (map encode vs) @ rest \<Longrightarrow> list_all (resp_ok 0) vs \<Longrightarrow> length (q @ st) + 1024 < 2 ^ 31 \<Longrightarrow>
    \<exists>c' q' st' out'. reply_all A lc None (length vs) c w = Some (map creply_of vs, c', w) \<and>
      serves A c' q' st' out' \<and> rest = q' @ st' \<and> sent c' @ out' = sent c @ out \<and> slotRange c' = slotRange c \<and>
      length out' \<le> length out \<and> (q = [] \<and> vs \<noteq> [] \<longrightarrow> out' = [])"
proof (induction vs arbitrary: c q st out)
  case Nil
  then show ?case by auto
next
  case (Cons v vs)
  have "willing B (Suc (length vs)) (sends c)" "q @ st = encode v @ concat (map encode vs) @ rest" "resp_ok 0 v"
    using Cons.prems(3-5) by simp_all
  from getReply_spec [OF Cons.prems(1) assms(1) Cons.prems(2) assms(2) this Cons.prems(6), of lc]
  obtain c1 q1 st1 out1 where c1: "getReply A lc c = Some (creply_of v, c1)" "serves A c1 q1 st1 out1"
    "concat (map encode vs) @ rest = q1 @ st1" "sent c1 @ out1 = sent c @ out" "length out1 \<le> length out"
    "willing B (length vs) (sends c1)" "slotRange c1 = slotRange c" "q = [] \<longrightarrow> out1 = []" by blast
  have l: "length out1 \<le> B" "list_all (resp_ok 0) vs" "length (q1 @ st1) + 1024 < 2 ^ 31"
    using c1(5) Cons.prems(2,4-6) unfolding c1(3) [symmetric] by simp_all
  from Cons.IH [OF c1(2) l(1) c1(6) c1(3) [symmetric] l(2,3)] obtain c2 q2 st2 out2 where
    "reply_all A lc None (length vs) c1 w = Some (map creply_of vs, c2, w)" "serves A c2 q2 st2 out2" "rest = q2 @ st2"
    "sent c2 @ out2 = sent c1 @ out1" "slotRange c2 = slotRange c1" "length out2 \<le> length out1" by blast
  moreover have "out2 = []" if "q = []" using calculation(6) c1(8) that by simp
  ultimately show ?case using c1(1,4,5,7)
    by (intro exI [of _ c2] exI [of _ q2] exI [of _ st2] exI [of _ out2]) (simp add: reply_back_def)
qed


lemma runner_pipeline:
  assumes pool: "sorted_keys (p_pool p)" "map_of (p_pool p) k = Some (c # c2 # cs)" "snd (slotRange (cp_conn c)) = k"
      "isValid (cp_conn c2)" "errorNo (cp_conn c2) = Some 0" "slotRange (cp_conn c2) = slotRange (cp_conn c)"
      "slotRange (cp_conn c) \<noteq> (0, 0)"
    and cmds: "\<forall>ts\<in>set tss. belongs p k ts" "[] \<notin> set tss" "2 \<le> length tss" "length vs = length tss" "retries \<noteq> 0"
    and c: "serves A (cp_conn c) q st out" "\<And>n. grants A n" "length (out @ concat (map command tss)) \<le> B" "B < 0x7ffff000"
      "willing B (length vs) (sends (cp_conn c))" "q @ st = concat (map encode vs) @ rest" "list_all (resp_ok 0) vs"
      "length (q @ st) + 1024 < 2 ^ 31"
  shows "\<exists>c' q' st' out'. runner_run A lc retries None (map command_for tss) p w =
      Some (map creply_of vs, [], p\<lparr>p_pool := replace_front k (c\<lparr>cp_conn := c'\<rparr>) (p_pool p)\<rparr>, w) \<and>
    serves A c' q' st' out' \<and> rest = q' @ st' \<and>
    sent c' @ out' = sent (cp_conn c) @ out @ concat (map command tss) \<and> slotRange c' = slotRange (cp_conn c) \<and>
    (q = [] \<longrightarrow> out' = [])"
proof -
  let ?p = "p\<lparr>p_pool := pool_pop k (p_pool p)\<rparr>"
  obtain t1 t2 tss' where t: "tss = t1 # t2 # tss'" using cmds(3) by (cases tss; cases "tl tss") auto
  then have "tss \<noteq> []" by simp
  note m = mapCommandPerNode_one_node [OF pool(1-3) serves_valid(1) [OF c(1)] pool(4-7) cmds(1) this cmds(5), of w]
  have "length (out @ concat (map command tss)) < 2 ^ 31" using c(3,4) by simp
  from append_all_spec [OF c(2,1) cmds(2) this, of lc] obtain c1 where c1:
    "append_all A lc (map command_for tss) (cp_conn c) = Some (True, c1)" "serves A c1 q st (out @ concat (map command tss))"
    "sent c1 = sent (cp_conn c)" "sends c1 = sends (cp_conn c)" "slotRange c1 = slotRange (cp_conn c)" by blast
  from reply_all_spec [OF c(2,4) c1(2) c(3) _ c(6-8), of lc w] c(5) c1(4) obtain c2 q2 st2 out2 where c2:
    "reply_all A lc None (length vs) c1 w = Some (map creply_of vs, c2, w)" "serves A c2 q2 st2 out2" "rest = q2 @ st2"
    "sent c2 @ out2 = sent c1 @ out @ concat (map command tss)" "slotRange c2 = slotRange c1"
    "q = [] \<and> vs \<noteq> [] \<longrightarrow> out2 = []" by auto
  have "vs \<noteq> []" using cmds(3,4) by auto
  have "snd (slotRange (cp_conn (c\<lparr>cp_conn := c2\<rparr>))) = k" "errorNo (cp_conn (c\<lparr>cp_conn := c2\<rparr>)) = Some 0"
    using c2(2,5) c1(5) pool(3) serves_valid(2) by auto
  note r = release_front [OF this, where p = p and m = "p_pool p" and w = w]
  have "run_groups A lc None [(c, map command_for tss)] ?p w =
      Some (True, map creply_of vs, p\<lparr>p_pool := replace_front k (c\<lparr>cp_conn := c2\<rparr>) (p_pool p)\<rparr>, w)"
    using c1(1) c2(1) r cmds(4) by simp
  with m t have "runner_run A lc retries None (map command_for tss) p w =
      Some (map creply_of vs, [], p\<lparr>p_pool := replace_front k (c\<lparr>cp_conn := c2\<rparr>) (p_pool p)\<rparr>, w)"
    by (simp add: runner_run_def del: run_groups.simps)
  with c2 c1 \<open>vs \<noteq> []\<close> show ?thesis by (intro exI [of _ c2] exI [of _ q2] exI [of _ st2] exI [of _ out2]) simp
qed

text \<open>A node that holds slot 0 alone: its range is the one that stands for no range.\<close>

lemma place_first_slot:
  assumes "pool_get_key p (fst key) (snd key) w = Some (Some c, p1, w1)" "isValid (cp_conn c)" "slotRange (cp_conn c) = (0, 0)"
  shows "place_command (Suc n) cmd key (0, 0) [] p w = None"
  using assms by (simp add: push_last_def)

end
