(* ===== verification/Task_Holder.thy ===== *)
theory Task_Holder
  imports Runner
begin

text \<open>
  The numbers of the tasks of asynchronous runners: an invariant of all interleavings of their operations.
\<close>

section \<open>The tasks of the asynchronous runners\<close>

text \<open>
  Runners share one task holder; the handler that drops the futures of the returned numbers works beside
  them. Each operation holds the mutex. The state has the runners that are alive, each with the future that
  it started last and did not ask for yet, and the holder.
\<close>

type_synonym ('n, 'f) runners = "('n \<rightharpoonup> CAsyncRunner \<times> 'f option) \<times> 'f CTaskHolder"

inductive task_step :: "(CCommand list \<Rightarrow> 'f) \<Rightarrow> ('n, 'f) runners \<Rightarrow> ('n, 'f) runners \<Rightarrow> bool" for std_async where
  new: "R x = None \<Longrightarrow> task_step std_async (R, h) (R(x \<mapsto> (\<lparr>ar_lstCommand = [], ar_resultId = 0\<rparr>, None)), h)"
| append: "R x = Some (r, f) \<Longrightarrow> task_step std_async (R, h) (R(x \<mapsto> (async_append cmd r, f)), h)"
| run: "R x = Some (r, f) \<Longrightarrow> async_run std_async r h = (r', h') \<Longrightarrow>
    task_step std_async (R, h) (R(x \<mapsto> (r', Some (std_async (ar_lstCommand r)))), h')"
| result: "R x = Some (r, f) \<Longrightarrow> async_getResult r h = (res, r', h') \<Longrightarrow> task_step std_async (R, h) (R(x \<mapsto> (r', None)), h')"
| destroy: "R x = Some (r, f) \<Longrightarrow> task_step std_async (R, h) (R(x := None), async_destroy r h)"
| handler: "task_step std_async (R, h) (R, handler_round h)"

text \<open>The numbers that runners wait for.\<close>

definition awaited :: "('n \<rightharpoonup> CAsyncRunner \<times> 'f option) \<Rightarrow> 64 word set" where
  "awaited R = {ar_resultId r | x r f. R x = Some (r, f) \<and> ar_resultId r \<noteq> 0}"

definition numbered :: "nat \<Rightarrow> ('n, 'f) runners \<Rightarrow> bool" where
  "numbered n s \<longleftrightarrow> (case s of (R, h) \<Rightarrow>
     unat (lastId h) \<le> n \<and> (\<forall>i \<in> dom (mapTask h). i \<noteq> 0 \<and> i \<le> lastId h) \<and>
     dom (mapTask h) = awaited R \<union> set (lstReturnedId h) \<and> awaited R \<inter> set (lstReturnedId h) = {} \<and>
     (\<forall>x r f. R x = Some (r, f) \<longrightarrow> (if ar_resultId r = 0 then f = None else f \<noteq> None \<and> mapTask h (ar_resultId r) = f)) \<and>
     (\<forall>x y r f r' f'. R x = Some (r, f) \<longrightarrow> R y = Some (r', f') \<longrightarrow> ar_resultId r = ar_resultId r' \<longrightarrow>
        ar_resultId r \<noteq> 0 \<longrightarrow> x = y))"

lemma awaited_upd:
  assumes "R x = Some (r, f)" "\<And>y r' f'. R y = Some (r', f') \<Longrightarrow> ar_resultId r = ar_resultId r' \<Longrightarrow> ar_resultId r \<noteq> 0 \<Longrightarrow> x = y"
  shows "awaited (R(x := None)) = awaited R - {ar_resultId r}"
    "awaited (R(x \<mapsto> (r', f'))) = (awaited R - {ar_resultId r}) \<union> (if ar_resultId r' = 0 then {} else {ar_resultId r'})"
proof -
  show n: "awaited (R(x := None)) = awaited R - {ar_resultId r}"
  proof (intro set_eqI iffI)
    fix i
    assume "i \<in> awaited (R(x := None))"
    then obtain y r' f' where y: "y \<noteq> x" "R y = Some (r', f')" "i = ar_resultId r'" "i \<noteq> 0"
      by (auto simp: awaited_def split: if_splits)
    then have "i \<noteq> ar_resultId r" using assms(2) by metis
    with y show "i \<in> awaited R - {ar_resultId r}" by (auto simp: awaited_def)
  next
    fix i
    assume "i \<in> awaited R - {ar_resultId r}"
    then obtain y r' f' where y: "R y = Some (r', f')" "i = ar_resultId r'" "i \<noteq> 0" "i \<noteq> ar_resultId r"
      by (auto simp: awaited_def)
    then have "y \<noteq> x" using assms(1) by auto
    with y have "(R(x := None)) y = Some (r', f')" by simp
    with y show "i \<in> awaited (R(x := None))" unfolding awaited_def by blast
  qed
  have "awaited (R(x \<mapsto> (r', f'))) = awaited (R(x := None)) \<union> (if ar_resultId r' = 0 then {} else {ar_resultId r'})"
    unfolding awaited_def by (auto split: if_splits)
  with n show "awaited (R(x \<mapsto> (r', f'))) = (awaited R - {ar_resultId r}) \<union> (if ar_resultId r' = 0 then {} else {ar_resultId r'})"
    by simp
qed

lemma remove_all: "fold remove_task is h = h\<lparr>mapTask := mapTask h |` (- set is)\<rparr>"
  by (induction "is" arbitrary: h) (auto simp: remove_task_def fun_eq_iff restrict_map_def intro!: CTaskHolder.equality)

lemma handler_round_map: "handler_round h = (if terminate h then h
    else h\<lparr>mapTask := mapTask h |` (- set (lstReturnedId h)), lstReturnedId := []\<rparr>)"
  by (simp add: handler_round_def remove_all) (auto simp: restrict_map_def intro!: CTaskHolder.equality)

lemma numbered_new: "numbered 0 (Map.empty, new_CTaskHolder)"
  by (auto simp: numbered_def awaited_def new_CTaskHolder_def)

lemma numberedD:
  assumes "numbered n (R, h)"
  shows "unat (lastId h) \<le> n" "i \<in> dom (mapTask h) \<Longrightarrow> i \<noteq> 0 \<and> i \<le> lastId h"
    "dom (mapTask h) = awaited R \<union> set (lstReturnedId h)" "awaited R \<inter> set (lstReturnedId h) = {}"
    "R x = Some (r, f) \<Longrightarrow> ar_resultId r = 0 \<Longrightarrow> f = None"
    "R x = Some (r, f) \<Longrightarrow> ar_resultId r \<noteq> 0 \<Longrightarrow> f \<noteq> None \<and> mapTask h (ar_resultId r) = f"
    "R x = Some (r, f) \<Longrightarrow> R y = Some (r', f') \<Longrightarrow> ar_resultId r = ar_resultId r' \<Longrightarrow> ar_resultId r \<noteq> 0 \<Longrightarrow> x = y"
  using assms unfolding numbered_def by (auto split: if_splits)

lemma awaited_zero [simp]: "0 \<notin> awaited R"
  by (auto simp: awaited_def)

lemma awaitedI: "R x = Some (r, f) \<Longrightarrow> ar_resultId r \<noteq> 0 \<Longrightarrow> ar_resultId r \<in> awaited R"
  by (auto simp: awaited_def)

text \<open>A runner is replaced by one with another number and future.\<close>

lemma numbered_upd:
  assumes "numbered n (R, h)" "R x = Some (r, f)"
    "unat (lastId h') \<le> m" "\<forall>i \<in> dom (mapTask h'). i \<noteq> 0 \<and> i \<le> lastId h'"
    "dom (mapTask h') = awaited R - {ar_resultId r} \<union> (if ar_resultId r' = 0 then {} else {ar_resultId r'}) \<union> set (lstReturnedId h')"
    "(awaited R - {ar_resultId r} \<union> (if ar_resultId r' = 0 then {} else {ar_resultId r'})) \<inter> set (lstReturnedId h') = {}"
    "if ar_resultId r' = 0 then f' = None else f' \<noteq> None \<and> mapTask h' (ar_resultId r') = f'"
    "\<And>i. i \<in> awaited R - {ar_resultId r} \<Longrightarrow> mapTask h' i = mapTask h i"
    "ar_resultId r' \<notin> awaited R - {ar_resultId r}"
  shows "numbered m (R(x \<mapsto> (r', f')), h')"
proof -
  note n = numberedD [OF assms(1)]
  have other: "y \<noteq> x \<Longrightarrow> R y = Some (s, g) \<Longrightarrow> ar_resultId s \<noteq> 0 \<Longrightarrow> ar_resultId s \<in> awaited R - {ar_resultId r}" for y s g
    using n(7) [of y s g x r f] assms(2) awaitedI [of R y s g] by auto
  have a: "awaited (R(x \<mapsto> (r', f'))) = awaited R - {ar_resultId r} \<union> (if ar_resultId r' = 0 then {} else {ar_resultId r'})"
    by (rule awaited_upd(2) [where f = f]) (use assms(2) n(7) in auto)
  have f: "if ar_resultId s = 0 then g = None else g \<noteq> None \<and> mapTask h' (ar_resultId s) = g"
    if "(R(x \<mapsto> (r', f'))) y = Some (s, g)" for y s g
  proof (cases "y = x")
    case True
    with that have "s = r'" "g = f'" by simp_all
    with assms(7) show ?thesis by simp
  next
    case False
    with that have y: "R y = Some (s, g)" by simp
    show ?thesis using n(5,6) [OF y] assms(8) [OF other [OF False y]] by auto
  qed
  have u: "y = z" if "(R(x \<mapsto> (r', f'))) y = Some (s, g)" "(R(x \<mapsto> (r', f'))) z = Some (s', g')"
    "ar_resultId s = ar_resultId s'" "ar_resultId s \<noteq> 0" for y z s g s' g'
  proof -
    have "ar_resultId r' \<noteq> ar_resultId t" if "y \<noteq> x" "R y = Some (t, g)" "ar_resultId t \<noteq> 0" for y t g
      using other [OF that] assms(9) by auto
    then show ?thesis using that n(7) [of y s g z s' g'] by (auto split: if_splits) (metis+)
  qed
  show ?thesis unfolding numbered_def prod.case a
    by (intro conjI allI impI) (rule assms(3) assms(4) assms(5) assms(6) f u, assumption?)+
qed

lemma no_wrap: "unat (x :: 64 word) < 2 ^ 64 - 1 \<Longrightarrow> unat (x + 1) = unat x + 1 \<and> x < x + 1 \<and> x + 1 \<noteq> 0"
proof -
  assume "unat x < 2 ^ 64 - 1"
  then have "unat (x + 1) = unat x + 1" by (simp add: unat_word_ariths)
  then show ?thesis by (auto simp: word_less_nat_alt)
qed

lemma step_numbered:
  assumes "task_step std_async s s'" "numbered n s" "n < 2 ^ 64 - 1"
  shows "numbered (Suc n) s'"
  using assms
proof (induction rule: task_step.induct)
  case (new R x h)
  note n = numberedD [OF new(2)]
  have "awaited (R(x \<mapsto> (\<lparr>ar_lstCommand = [], ar_resultId = 0\<rparr>, None))) = awaited R"
  proof (intro set_eqI iffI)
    fix i
    assume "i \<in> awaited R"
    then obtain y r f where y: "R y = Some (r, f)" "i = ar_resultId r" "i \<noteq> 0" by (auto simp: awaited_def)
    then have "y \<noteq> x" using new(1) by auto
    with y have "(R(x \<mapsto> (\<lparr>ar_lstCommand = [], ar_resultId = 0\<rparr>, None))) y = Some (r, f)" by simp
    with y show "i \<in> awaited (R(x \<mapsto> (\<lparr>ar_lstCommand = [], ar_resultId = 0\<rparr>, None)))" unfolding awaited_def by blast
  qed (auto simp: awaited_def split: if_splits)
  with new(2) n(1) show ?case unfolding numbered_def by (auto split: if_splits)
next
  case (append R x r f h cmd)
  note n = numberedD [OF append(2)]
  have [simp]: "ar_resultId (async_append cmd r) = ar_resultId r" by (simp add: async_append_def)
  have "awaited R = awaited R - {ar_resultId r} \<union> (if ar_resultId r = 0 then {} else {ar_resultId r})"
    using awaitedI [of R x r f, OF append(1)] by (auto simp: awaited_def)
  then show ?case using n n(5,6) [OF append(1)]
    by (intro numbered_upd [OF append(2,1)]) auto
next
  case (run R x r f h r' h')
  note n = numberedD [OF run(3)]
  let ?h = "if ar_resultId r \<noteq> 0 then returnId (ar_resultId r) h else h"
  have l: "unat (lastId h) < 2 ^ 64 - 1" using n(1) run(4) by simp
  note w = no_wrap [OF l]
  have fresh: "lastId h + 1 \<notin> dom (mapTask h)" using n(2) w by fastforce
  have h: "lastId ?h = lastId h" "mapTask ?h = mapTask h"
    "set (lstReturnedId ?h) = set (lstReturnedId h) \<union> (if ar_resultId r \<noteq> 0 then {ar_resultId r} else {})"
    by (auto simp: returnId_def)
  have r: "r' = \<lparr>ar_lstCommand = [], ar_resultId = lastId h + 1\<rparr>"
    "h' = ?h\<lparr>lastId := lastId h + 1, mapTask := (mapTask h)(lastId h + 1 \<mapsto> std_async (ar_lstCommand r))\<rparr>"
    using run(2) fresh h(1,2) by (auto simp: async_run_def addTask_def Let_def dom_def split: if_splits)
  have e: "ar_resultId r \<noteq> 0 \<Longrightarrow> ar_resultId r \<in> awaited R" using awaitedI [of R x r f, OF run(1)] .
  have d: "dom (mapTask h') = insert (lastId h + 1) (dom (mapTask h))" by (simp add: r(2))
  show ?case
  proof (rule numbered_upd [OF run(3,1)])
    show "unat (lastId h') \<le> Suc n" using r(2) w n(1) by simp
    show "\<forall>i\<in>dom (mapTask h'). i \<noteq> 0 \<and> i \<le> lastId h'"
      using n(2) w r(2) by (auto intro: order.trans less_imp_le)
    show "dom (mapTask h') = awaited R - {ar_resultId r} \<union> (if ar_resultId r' = 0 then {} else {ar_resultId r'}) \<union>
        set (lstReturnedId h')"
      using d n(3) w r h(3) e by auto
    show "(awaited R - {ar_resultId r} \<union> (if ar_resultId r' = 0 then {} else {ar_resultId r'})) \<inter> set (lstReturnedId h') = {}"
      using n(3,4) fresh w r h(3) e by auto
    show "if ar_resultId r' = 0 then Some (std_async (ar_lstCommand r)) = None
      else Some (std_async (ar_lstCommand r)) \<noteq> None \<and> mapTask h' (ar_resultId r') = Some (std_async (ar_lstCommand r))"
      using w r by simp
    show "mapTask h' i = mapTask h i" if "i \<in> awaited R - {ar_resultId r}" for i
      using that n(3) fresh r by auto
    show "ar_resultId r' \<notin> awaited R - {ar_resultId r}" using n(3) fresh r by auto
  qed
next
  case (result R x r f h res r' h')
  note n = numberedD [OF result(3)]
  show ?case
  proof (cases "ar_resultId r = 0")
    case True
    then have "r' = r" "h' = h" "f = None" using result(2) n(5) [OF result(1)] by (auto simp: async_getResult_def)
    then have "R(x \<mapsto> (r', None)) = R" "h' = h" using result(1) by auto
    with result(3) n(1) show ?thesis by (auto simp: numbered_def)
  next
    case False
    then obtain fut where m: "mapTask h (ar_resultId r) = Some fut" using n(6) [OF result(1)] by auto
    then have r: "r' = r\<lparr>ar_resultId := 0\<rparr>" "h' = remove_task (ar_resultId r) h"
      using result(2) False by (auto simp: async_getResult_def holder_getResult_def)
    have e: "ar_resultId r \<in> awaited R" using awaitedI [of R x r f, OF result(1)] False .
    have h: "mapTask h' = (mapTask h)(ar_resultId r := None)" "lastId h' = lastId h" "lstReturnedId h' = lstReturnedId h"
      "ar_resultId r' = 0"
      using r by (simp_all add: remove_task_def)
    have d: "dom (mapTask h') = dom (mapTask h) - {ar_resultId r}" by (simp add: h(1))
    show ?thesis
    proof (rule numbered_upd [OF result(3,1)])
      show "unat (lastId h') \<le> Suc n" "\<forall>i\<in>dom (mapTask h'). i \<noteq> 0 \<and> i \<le> lastId h'" using n(1,2) d h(2) by simp_all
      show "dom (mapTask h') = awaited R - {ar_resultId r} \<union> (if ar_resultId r' = 0 then {} else {ar_resultId r'}) \<union>
          set (lstReturnedId h')"
        using n(3,4) e unfolding d h(3,4) by auto
    qed (use n(4) h in auto)
  qed
next
  case (destroy R x r f h)
  note n = numberedD [OF destroy(2)]
  have a: "awaited (R(x := None)) = awaited R - {ar_resultId r}"
    by (rule awaited_upd(1) [where f = f]) (use destroy(1) n(7) in auto)
  have e: "ar_resultId r \<noteq> 0 \<Longrightarrow> ar_resultId r \<in> awaited R" using awaitedI [of R x r f, OF destroy(1)] .
  have h: "mapTask (async_destroy r h) = mapTask h" "lastId (async_destroy r h) = lastId h"
    "set (lstReturnedId (async_destroy r h)) = set (lstReturnedId h) \<union> (if ar_resultId r \<noteq> 0 then {ar_resultId r} else {})"
    by (auto simp: async_destroy_def returnId_def)
  have "dom (mapTask h) = awaited (R(x := None)) \<union> set (lstReturnedId (async_destroy r h))"
    "awaited (R(x := None)) \<inter> set (lstReturnedId (async_destroy r h)) = {}"
    using n(3,4) e unfolding a h(3) by auto
  with destroy(2) n(1) h show ?case unfolding numbered_def by (auto split: if_splits)
next
  case (handler R h)
  note n = numberedD [OF handler(1)]
  let ?h = "handler_round h"
  have o: "ar_resultId r \<notin> set (lstReturnedId h)" if "R x = Some (r, f)" "ar_resultId r \<noteq> 0" for x r f
    using n(4) awaitedI [of R x r f, OF that] by blast
  have l: "lastId ?h = lastId h" by (simp add: handler_round_map)
  have d: "dom (mapTask ?h) = awaited R \<union> set (lstReturnedId ?h)" "dom (mapTask ?h) \<subseteq> dom (mapTask h)"
    "awaited R \<inter> set (lstReturnedId ?h) = {}"
    using n(3,4) by (simp_all add: handler_round_map) blast+
  have m: "R x = Some (r, f) \<Longrightarrow> ar_resultId r \<noteq> 0 \<Longrightarrow> mapTask ?h (ar_resultId r) = mapTask h (ar_resultId r)" for x r f
    using o by (simp add: handler_round_map)
  have u: "if ar_resultId r = 0 then f = None else f \<noteq> None \<and> mapTask ?h (ar_resultId r) = f" if "R x = Some (r, f)" for x r f
    using m [OF that] n(5,6) [OF that] by auto
  show ?case unfolding numbered_def prod.case
  proof (intro conjI)
    show "unat (lastId ?h) \<le> Suc n" using n(1) l by simp
    show "\<forall>i\<in>dom (mapTask ?h). i \<noteq> 0 \<and> i \<le> lastId ?h" using n(2) d(2) unfolding l by blast
  qed (use d u n(7) in blast)+
qed

lemma steps_numbered: "(task_step std_async ^^ n) (Map.empty, new_CTaskHolder) s \<Longrightarrow> n < 2 ^ 64 \<Longrightarrow> numbered n s"
proof (induction n arbitrary: s)
  case 0
  then have "s = (Map.empty, new_CTaskHolder)" by auto
  then show ?case by (simp only: numbered_new)
next
  case (Suc n)
  then obtain s1 where s1: "(task_step std_async ^^ n) (Map.empty, new_CTaskHolder) s1" "task_step std_async s1 s" by auto
  from Suc.prems(2) have "n < 2 ^ 64" "n < 2 ^ 64 - 1" by simp_all
  with step_numbered s1(2) Suc.IH [OF s1(1)] show ?case by blast
qed

end
