(* ===== verification/Runner_Properties.thy ===== *)
theory Runner_Properties
  imports Runner_Correct Task_Holder Pool_Properties
begin

text \<open>
  The properties of the runners, each with a concrete instance.
\<close>

section \<open>A pool of connections to one node\<close>

lemma demo_link_serves:
  "incoming ins = Some st \<Longrightarrow> serves roomy (demo_link b e ins outs) [] st []"
  by (auto simp: serves_def demo_link_def demo_ready) (simp_all add: demo_conn_def blank_context_def linked_def)

lemma demo_link_net [simp]: "sends (demo_link b e ins outs) = outs" "sent (demo_link b e ins outs) = []"
  "isValid (demo_link b e ins outs)"
  by (simp_all add: demo_link_def sends_def sent_def isValid_def)

lemma encode_nonempty: "encode v \<noteq> []"
  by (cases v) simp_all

text \<open>A connection whose server sends the replies and whose kernel takes \<^theory_text>\<open>n\<close> writes of a hundred bytes.\<close>

definition demo_server :: "resp list \<Rightarrow> nat \<Rightarrow> CConnection" where
  "demo_server vs n = demo_link 0 (- 1) (map (\<lambda>v. Received (encode v)) vs) (replicate n (Accepted 100))"

lemma demo_server [simp]:
  "serves roomy (demo_server vs n) [] (concat (map encode vs)) []" "sent (demo_server vs n) = []"
  "willing 100 n (sends (demo_server vs n))" "slotRange (demo_server vs n) = (0, - 1)"
  "isValid (demo_server vs n)" "errorNo (demo_server vs n) = Some 0"
proof -
  have "incoming (map (\<lambda>v. Received (encode v)) vs) = Some (concat (map encode vs))"
    by (induction vs) (simp_all add: encode_nonempty)
  then show "serves roomy (demo_server vs n) [] (concat (map encode vs)) []"
    unfolding demo_server_def by (rule demo_link_serves)
  show "willing 100 n (sends (demo_server vs n))" using demo_willing [of "replicate n 100" 100] by (simp add: demo_server_def)
qed (simp_all add: demo_server_def)

lemma demo_server_recvs [simp]: "recvs (demo_server vs n) = map (\<lambda>v. Received (encode v)) vs"
  by (simp add: demo_server_def demo_link_def recvs_def)

definition demo_pool :: "CConnection list \<Rightarrow> CConnectionPool" where
  "demo_pool cs = \<lparr>p_mw = [default_mw roomy demo_libc demo_default],
     p_pool = [(- 1, map (\<lambda>c. \<lparr>cp_conn = c, cp_deleter = True\<rparr>) cs)]\<rparr>"

lemma demo_pool [simp]: "sorted_keys (p_pool (demo_pool cs))" "pool_getSlot (demo_pool cs) key n = Some (- 1)"
  "lower_bound (- 1) (p_pool (demo_pool cs)) = Some (- 1, map (\<lambda>c. \<lparr>cp_conn = c, cp_deleter = True\<rparr>) cs)"
  "map_of (p_pool (demo_pool cs)) (- 1) = Some (map (\<lambda>c. \<lparr>cp_conn = c, cp_deleter = True\<rparr>) cs)"
  by (simp_all add: demo_pool_def sorted_keys_def pool_getSlot_def get_slot_def default_mw_def default_getSlot_def)

lemma demo_belongs: "belongs (demo_pool cs) (- 1) ts"
  by (auto simp: belongs_def getKey_command split: list.splits)

section \<open>Many commands\<close>

text \<open>C8: a runner that has two or more commands, all for one node with at least two connections in the pool and
  another range than slot 0 alone, sends their encodings in the order in which they were appended over the first of its
  connections (all of them when no reply was waiting in the connection; otherwise what is not sent is in the output
  buffer), and returns the replies of the server in the same order, one for each; the runner is then empty and the
  connection is back in its place.\<close>

theorem runner_keeps_order:
  assumes "sorted_keys (p_pool p)" "map_of (p_pool p) k = Some (c # c2 # cs)" "snd (slotRange (cp_conn c)) = k"
      "isValid (cp_conn c2)" "errorNo (cp_conn c2) = Some 0" "slotRange (cp_conn c2) = slotRange (cp_conn c)"
      "slotRange (cp_conn c) \<noteq> (0, 0)"
    and "\<forall>ts\<in>set tss. belongs p k ts" "[] \<notin> set tss" "2 \<le> length tss" "length vs = length tss" "retries \<noteq> 0"
    and "serves A (cp_conn c) q st out" "\<And>n. grants A n" "length (out @ concat (map command tss)) \<le> B" "B < 0x7ffff000"
      "willing B (length vs) (sends (cp_conn c))" "q @ st = concat (map encode vs) @ rest" "list_all (resp_ok 0) vs"
      "length (q @ st) + 1024 < 2 ^ 31"
  shows "\<exists>c' q' st' out'. runCommands A lc retries None (fold runner_append (map command_for tss) []) p w =
      Some (map creply_of vs, [], p\<lparr>p_pool := replace_front k (c\<lparr>cp_conn := c'\<rparr>) (p_pool p)\<rparr>, w) \<and>
    serves A c' q' st' out' \<and> rest = q' @ st' \<and>
    sent c' @ out' = sent (cp_conn c) @ out @ concat (map (\<lambda>ts. encode (RArr (map RBulk ts))) tss) \<and>
    (q = [] \<longrightarrow> out' = [])"
proof -
  have f: "fold runner_append (map command_for tss) xs = xs @ map command_for tss" for xs
    by (induction tss arbitrary: xs) (simp_all add: runner_append_def)
  show ?thesis unfolding runCommands_def f append_Nil command_encode [symmetric]
    using runner_pipeline [OF assms, of lc w] by blast
qed

lemma runner_keeps_order_witness:
  "\<exists>p'. runCommands roomy demo_libc 5 None (fold runner_append (map command_for [[''GET'', ''a''], [''GET'', ''b'']]) [])
      (demo_pool [demo_server [RBulk ''x'', RNil] (Suc (Suc 0)), demo_server [] 0]) (demo_world []) =
    Some ([CReply EType_STRING ''x'' 0 [], CReply EType_NIL [] 0 []], [], p', demo_world [])"
  using runner_keeps_order [where p = "demo_pool [demo_server [RBulk ''x'', RNil] (Suc (Suc 0)), demo_server [] 0]" and k = "- 1" and
      c = "\<lparr>cp_conn = demo_server [RBulk ''x'', RNil] (Suc (Suc 0)), cp_deleter = True\<rparr>" and
      ?c2.0 = "\<lparr>cp_conn = demo_server [] 0, cp_deleter = True\<rparr>" and cs = "[]" and
      tss = "[[''GET'', ''a''], [''GET'', ''b'']]" and vs = "[RBulk ''x'', RNil]" and retries = 5 and A = roomy and q = "[]" and
      st = "concat (map encode [RBulk ''x'', RNil])" and out = "[]" and B = 100 and rest = "[]" and
      lc = demo_libc and w = "demo_world []"] demo_server(1) [of "[RBulk ''x'', RNil]" "Suc (Suc 0)"]
    demo_server(3) [of "Suc (Suc 0)" "[RBulk ''x'', RNil]"]
  by (simp add: demo_belongs command_def bulk_def dec.simps) blast

section \<open>One command\<close>

text \<open>A run of one command, over a connection that answers.\<close>

lemma run_single_spec:
  assumes "sorted_keys (p_pool p)" "map_of (p_pool p) k = Some (c # cs)" "snd (slotRange (cp_conn c)) = k"
    "belongs p k ts" "ts \<noteq> []" "retries \<noteq> 0" "length vs = retries"
    "serves A (cp_conn c) q st out" "\<And>n. grants A n" "q @ st = concat (map encode vs) @ rest" "list_all (resp_ok 0) vs"
    "length (q @ st) + 1024 < 2 ^ 31" "length out + retries * length (command ts) \<le> B" "B < 0x7ffff000"
    "willing B (retries + i) (sends (cp_conn c))"
  shows "\<exists>c' q' st' out'. run A lc retries (command_for ts) None [] p w = Some (creply_of (last vs), [command_for ts],
      p\<lparr>p_pool := replace_front k (c\<lparr>cp_conn := c'\<rparr>) (p_pool p)\<rparr>, w) \<and>
    front (p_pool p) k c cs \<and> serves A c' q' st' out' \<and> rest = q' @ st' \<and>
    sent c' @ out' = sent (cp_conn c) @ out @ concat (replicate retries (command ts)) \<and>
    slotRange c' = slotRange (cp_conn c) \<and> willing B i (sends c') \<and>
    length out' \<le> length out + retries * length (command ts) \<and>
    (q = [] \<and> one_by_one vs (recvs (cp_conn c)) \<longrightarrow> q' = [] \<and> out' = [])"
proof -
  have f: "front (p_pool p) k c cs" using assms(1-3) by (simp add: front_def)
  obtain key slot where key: "getKey (command_for ts) = Some key" "pool_getSlot p (fst key) (snd key) = Some slot"
    "lower_bound slot (p_pool p) = Some (k, c # cs)"
    using belongs_key [OF assms(4,1), of "c # cs"] assms(2) by metis
  have len: "length out + length vs * length (command ts) \<le> B" "willing B (length vs + i) (sends (cp_conn c))"
    using assms(7,13,15) by simp_all
  from single_loop_spec [OF key(2,3) f assms(8,9,5,10,11,12) len(1) assms(14) len(2), of lc no_reply w]
  obtain c' q' st' out' where r: "single_loop A lc (length vs) (command_for ts) key no_reply p w =
      Some (last (no_reply # map creply_of vs), p\<lparr>p_pool := replace_front k (c\<lparr>cp_conn := c'\<rparr>) (p_pool p)\<rparr>, w)"
    "serves A c' q' st' out'" "rest = q' @ st'" "sent c' @ out' = sent (cp_conn c) @ out @ concat (replicate (length vs) (command ts))"
    "slotRange c' = slotRange (cp_conn c)" "willing B i (sends c')" "length out' \<le> length out + length vs * length (command ts)"
    "q = [] \<and> one_by_one vs (recvs (cp_conn c)) \<longrightarrow> q' = [] \<and> (vs \<noteq> [] \<longrightarrow> out' = [])"
    by blast
  have "vs \<noteq> []" "last (no_reply # map creply_of vs) = creply_of (last vs)"
    using assms(6,7) by (cases vs rule: rev_cases; auto)+
  then have "run A lc retries (command_for ts) None [] p w = Some (creply_of (last vs), [command_for ts],
      p\<lparr>p_pool := replace_front k (c\<lparr>cp_conn := c'\<rparr>) (p_pool p)\<rparr>, w)"
    using r(1) key(1) assms(7) by (simp add: run_def runner_append_def runner_run_def runSingleCommand_def reply_back_def)
  then show ?thesis using f r(2-) assms(7) \<open>vs \<noteq> []\<close> by blast
qed

text \<open>C28: a runner with one command sends it as often as it may try, not until it succeeds: with a connection that
  answers, the command goes to the server \<^verbatim>\<open>TRetryCount\<close> times, and the reply to the last of them is returned;
  the command stays in the runner. All the copies are sent when the replies arrive one by one; when some
  arrive ahead of their command, the copies that are not sent yet are in the output buffer of the connection.\<close>

theorem run_single_repeats:
  assumes "sorted_keys (p_pool p)" "map_of (p_pool p) k = Some (c # cs)" "snd (slotRange (cp_conn c)) = k"
    "belongs p k ts" "ts \<noteq> []" "retries \<noteq> 0" "length vs = retries"
    "serves A (cp_conn c) q st out" "\<And>n. grants A n" "q @ st = concat (map encode vs) @ rest" "list_all (resp_ok 0) vs"
    "length (q @ st) + 1024 < 2 ^ 31" "length out + retries * length (command ts) \<le> B" "B < 0x7ffff000"
    "willing B retries (sends (cp_conn c))"
  shows "\<exists>c' q' st' out' p'. run A lc retries (command_for ts) None [] p w = Some (creply_of (last vs), [command_for ts], p', w) \<and>
    map_of (p_pool p') k = Some (c\<lparr>cp_conn := c'\<rparr> # cs) \<and> serves A c' q' st' out' \<and> rest = q' @ st' \<and>
    sent c' @ out' = sent (cp_conn c) @ out @ concat (replicate retries (encode (RArr (map RBulk ts)))) \<and>
    (q = [] \<and> one_by_one vs (recvs (cp_conn c)) \<longrightarrow> out' = [])"
proof -
  have w: "willing B (retries + 0) (sends (cp_conn c))" using assms(15) by simp
  from run_single_spec [OF assms(1-14) w, of lc w] obtain c' q' st' out' where r:
    "run A lc retries (command_for ts) None [] p w = Some (creply_of (last vs), [command_for ts],
      p\<lparr>p_pool := replace_front k (c\<lparr>cp_conn := c'\<rparr>) (p_pool p)\<rparr>, w)"
    "front (p_pool p) k c cs" "serves A c' q' st' out'" "rest = q' @ st'"
    "sent c' @ out' = sent (cp_conn c) @ out @ concat (replicate retries (command ts))" "slotRange c' = slotRange (cp_conn c)"
    "q = [] \<and> one_by_one vs (recvs (cp_conn c)) \<longrightarrow> out' = []" by blast
  have "map_of (p_pool (p\<lparr>p_pool := replace_front k (c\<lparr>cp_conn := c'\<rparr>) (p_pool p)\<rparr>)) k = Some (c\<lparr>cp_conn := c'\<rparr> # cs)"
    using replace_front_front(1) [OF r(2), of "c\<lparr>cp_conn := c'\<rparr>"] assms(3) r(6) by (simp add: front_def)
  with r(1,3,4,7) r(5) [unfolded command_encode] show ?thesis by blast
qed

lemma run_single_repeats_witness:
  "\<exists>c' p'. run roomy demo_libc 3 (command_for [''INCR'', ''n'']) None []
      (demo_pool [demo_server [RInt 1, RInt 2, RInt 3] 3]) (demo_world []) =
    Some (CReply EType_INTEGER [] 3 [], [command_for [''INCR'', ''n'']], p', demo_world []) \<and>
    map_of (p_pool p') (- 1) = Some [\<lparr>cp_conn = c', cp_deleter = True\<rparr>] \<and>
    sent c' = concat (replicate 3 (command [''INCR'', ''n'']))"
  using run_single_repeats [where p = "demo_pool [demo_server [RInt 1, RInt 2, RInt 3] 3]" and k = "- 1" and
      c = "\<lparr>cp_conn = demo_server [RInt 1, RInt 2, RInt 3] 3, cp_deleter = True\<rparr>" and cs = "[]" and
      ts = "[''INCR'', ''n'']" and vs = "[RInt 1, RInt 2, RInt 3]" and retries = 3 and A = roomy and q = "[]" and
      st = "concat (map encode [RInt 1, RInt 2, RInt 3])" and out = "[]" and B = 100 and rest = "[]" and
      lc = demo_libc and w = "demo_world []"] demo_server(1) [of "[RInt 1, RInt 2, RInt 3]" 3]
    demo_server(3) [of 3 "[RInt 1, RInt 2, RInt 3]"]
  by (simp add: demo_belongs command_def bulk_def dec.simps sdec_def del: encode.simps) (simp add: sdec_def dec.simps, blast)

section \<open>The commands that a runner keeps\<close>

text \<open>C29: a runner that ran one command still has it: the next \<^verbatim>\<open>run\<close> sends it once more in front of the new
  command, and returns the reply to the old command, not to the new one. Both are sent when the replies to the first
  run arrive one by one; otherwise what is not sent yet is in the output buffer of the connection.\<close>

theorem run_again_answers_first:
  assumes "sorted_keys (p_pool p)" "map_of (p_pool p) k = Some (c # c2 # cs)" "snd (slotRange (cp_conn c)) = k"
      "isValid (cp_conn c2)" "errorNo (cp_conn c2) = Some 0" "slotRange (cp_conn c2) = slotRange (cp_conn c)"
      "slotRange (cp_conn c) \<noteq> (0, 0)"
    and "belongs p k t1" "belongs p k t2" "t1 \<noteq> []" "t2 \<noteq> []" "retries \<noteq> 0" "length us = retries"
    and "serves A (cp_conn c) q st out" "\<And>n. grants A n" "q @ st = concat (map encode us) @ encode v1 @ encode v2 @ rest"
      "list_all (resp_ok 0) (us @ [v1, v2])" "length (q @ st) + 1024 < 2 ^ 31"
      "length out + (retries + 1) * length (command t1) + length (command t2) \<le> B" "B < 0x7ffff000"
      "willing B (retries + 2) (sends (cp_conn c))"
  shows "\<exists>own p1 p2 c' q' st' out'. run A lc retries (command_for t1) None [] p w = Some (creply_of (last us), own, p1, w) \<and>
    run A lc retries (command_for t2) None own p1 w = Some (creply_of v1, [], p2, w) \<and>
    map_of (p_pool p2) k = Some (c\<lparr>cp_conn := c'\<rparr> # c2 # cs) \<and> serves A c' q' st' out' \<and> rest = q' @ st' \<and>
    sent c' @ out' = sent (cp_conn c) @ out @ concat (replicate (retries + 1) (command t1)) @ command t2 \<and>
    (q = [] \<and> one_by_one us (recvs (cp_conn c)) \<longrightarrow> out' = [])"
proof -
  let ?m = "p_pool p"
  have st: "q @ st = concat (map encode us) @ (encode v1 @ encode v2 @ rest)" "list_all (resp_ok 0) us"
    "length out + retries * length (command t1) \<le> B"
    using assms(16,17,19) by simp_all
  from run_single_spec [OF assms(1-3,8,10,12-15) st(1,2) assms(18) st(3) assms(20,21), of lc w]
  obtain c' q' st' out' where r: "run A lc retries (command_for t1) None [] p w = Some (creply_of (last us), [command_for t1],
      p\<lparr>p_pool := replace_front k (c\<lparr>cp_conn := c'\<rparr>) ?m\<rparr>, w)"
    "serves A c' q' st' out'" "encode v1 @ encode v2 @ rest = q' @ st'"
    "sent c' @ out' = sent (cp_conn c) @ out @ concat (replicate retries (command t1))"
    "slotRange c' = slotRange (cp_conn c)" "willing B 2 (sends c')" "length out' \<le> length out + retries * length (command t1)"
    "q = [] \<and> one_by_one us (recvs (cp_conn c)) \<longrightarrow> q' = []" and f: "front ?m k c (c2 # cs)"
    by blast
  let ?c = "c\<lparr>cp_conn := c'\<rparr>"
  let ?p = "p\<lparr>p_pool := replace_front k ?c ?m\<rparr>"
  have k: "snd (slotRange (cp_conn ?c)) = k" using assms(3) r(5) by simp
  note f1 = replace_front_front [OF f k]
  have p1: "sorted_keys (p_pool ?p)" "map_of (p_pool ?p) k = Some (?c # c2 # cs)"
    "slotRange (cp_conn c2) = slotRange (cp_conn ?c)" "slotRange (cp_conn ?c) \<noteq> (0, 0)"
    using f1(1) assms(6,7) r(5) by (simp_all add: front_def)
  have b: "\<forall>ts\<in>set [t1, t2]. belongs ?p k ts"
    using belongs_pool [OF _ assms(1) f1(2)] p1(2) assms(8,9) by simp
  have s: "serves A (cp_conn ?c) q' st' out'" "length (out' @ concat (map command [t1, t2])) \<le> B"
    "willing B (length [v1, v2]) (sends (cp_conn ?c))" "q' @ st' = concat (map encode [v1, v2]) @ rest"
    "list_all (resp_ok 0) [v1, v2]" "length (q' @ st') + 1024 < 2 ^ 31"
    using r(2,3,6,7) assms(13,16-19) unfolding r(3) [symmetric] by (simp_all add: numeral_2_eq_2)
  have "[] \<notin> set [t1, t2]" "2 \<le> length [t1, t2]" "length [v1, v2] = length [t1, t2]" using assms(10,11) by simp_all
  from runner_pipeline [OF p1(1,2) k assms(4,5) p1(3,4) b this assms(12) s(1) assms(15) s(2) assms(20) s(3-6), of lc w]
  obtain c3 q3 st3 out3 where r2: "runner_run A lc retries None (map command_for [t1, t2]) ?p w =
      Some (map creply_of [v1, v2], [], ?p\<lparr>p_pool := replace_front k (?c\<lparr>cp_conn := c3\<rparr>) (p_pool ?p)\<rparr>, w)"
    "sent c3 @ out3 = sent (cp_conn ?c) @ out' @ concat (map command [t1, t2])" "slotRange c3 = slotRange (cp_conn ?c)"
    "serves A c3 q3 st3 out3" "rest = q3 @ st3" "q' = [] \<longrightarrow> out3 = []" by blast
  let ?p2 = "?p\<lparr>p_pool := replace_front k (?c\<lparr>cp_conn := c3\<rparr>) (p_pool ?p)\<rparr>"
  have run2: "run A lc retries (command_for t2) None [command_for t1] ?p w = Some (creply_of v1, [], ?p2, w)"
    using r2(1) by (simp add: run_def runner_append_def)
  have "snd (slotRange (cp_conn (?c\<lparr>cp_conn := c3\<rparr>))) = k" using r2(3) k by simp
  from replace_front_front(1) [OF f1(1) this] have m: "map_of (p_pool ?p2) k = Some (c\<lparr>cp_conn := c3\<rparr> # c2 # cs)"
    by (simp add: front_def)
  have "concat (replicate (retries + 1) (command t1)) = concat (replicate retries (command t1)) @ command t1"
    by (simp add: replicate_append_same [symmetric])
  then have "sent c3 @ out3 = sent (cp_conn c) @ out @ concat (replicate (retries + 1) (command t1)) @ command t2"
    using r2(2) arg_cong [OF r(4), of "\<lambda>l. l @ command t1 @ command t2"] assms(13) by simp
  moreover have "q = [] \<and> one_by_one us (recvs (cp_conn c)) \<longrightarrow> out3 = []" using r(8) r2(6) by blast
  ultimately show ?thesis using r(1) run2 m r2(4,5) by blast
qed

lemma run_again_answers_first_witness:
  "\<exists>own p1 p2 c'. run roomy demo_libc 1 (command_for [''GET'', ''a'']) None []
      (demo_pool [demo_server [RBulk ''x'', RBulk ''x'', RBulk ''y''] (Suc (Suc (Suc 0))), demo_server [] 0]) (demo_world []) =
        Some (CReply EType_STRING ''x'' 0 [], own, p1, demo_world []) \<and>
    run roomy demo_libc 1 (command_for [''GET'', ''b'']) None own p1 (demo_world []) =
      Some (CReply EType_STRING ''x'' 0 [], [], p2, demo_world []) \<and>
    map_of (p_pool p2) (- 1) = Some [\<lparr>cp_conn = c', cp_deleter = True\<rparr>, \<lparr>cp_conn = demo_server [] 0, cp_deleter = True\<rparr>] \<and>
    sent c' = command [''GET'', ''a''] @ command [''GET'', ''a''] @ command [''GET'', ''b'']"
  using run_again_answers_first [where p = "demo_pool [demo_server [RBulk ''x'', RBulk ''x'', RBulk ''y''] (Suc (Suc (Suc 0))), demo_server [] 0]" and
      k = "- 1" and c = "\<lparr>cp_conn = demo_server [RBulk ''x'', RBulk ''x'', RBulk ''y''] (Suc (Suc (Suc 0))), cp_deleter = True\<rparr>" and
      ?c2.0 = "\<lparr>cp_conn = demo_server [] 0, cp_deleter = True\<rparr>" and cs = "[]" and
      ?t1.0 = "[''GET'', ''a'']" and ?t2.0 = "[''GET'', ''b'']" and us = "[RBulk ''x'']" and ?v1.0 = "RBulk ''x''" and
      ?v2.0 = "RBulk ''y''" and retries = 1 and A = roomy and q = "[]" and
      st = "concat (map encode [RBulk ''x'', RBulk ''x'', RBulk ''y''])" and out = "[]" and B = 100 and rest = "[]" and
      lc = demo_libc and w = "demo_world []"] demo_server(1) [of "[RBulk ''x'', RBulk ''x'', RBulk ''y'']" "Suc (Suc (Suc 0))"]
    demo_server(3) [of "Suc (Suc (Suc 0))" "[RBulk ''x'', RBulk ''x'', RBulk ''y'']"]
  by (simp add: demo_belongs command_def bulk_def dec.simps) blast

text \<open>What a failed run leaves of two or more commands cannot be run: when a command has been moved to a group
  before another one found no connection, the next run reads the key of the moved command past the end of its
  sizes.\<close>

lemma failed_run_ruins_commands:
  assumes "runCommands A lc retries cb (c1 # c2 # cs) p w = Some (rs, left, p', w')" "retries \<noteq> 0"
    "left \<noteq> []" "left \<noteq> c1 # c2 # cs" "2 \<le> length (lstCommand c1)"
  shows "length rs = length (c1 # c2 # cs) \<and> runCommands A lc retries' cb' left q v = None"
  using left_commands_undefined [of A lc retries cb c1 c2 cs p w rs left p' w' retries' cb' q v] runner_run_length assms
  unfolding runCommands_def by blast

text \<open>A pool whose Sentinels are gone, with one connection left.\<close>

definition demo_last :: "CConnection list \<Rightarrow> CConnectionPool" where
  "demo_last cs = (demo_pool cs)\<lparr>p_mw := [sentinel_mw roomy demo_libc
     \<lparr>lstSentinel = [], masterName = ''m'', s_role = MASTER, s_timeoutSec = 1, s_callback = None\<rparr>]\<rparr>"

lemma demo_last_slot: "pool_getSlot (demo_last cs\<lparr>p_pool := m\<rparr>) key n = Some (- 1)" "pool_getSlot (demo_last cs) key n = Some (- 1)"
  by (simp_all add: demo_last_def pool_getSlot_def get_slot_def sentinel_mw_def default_getSlot_def)

lemma demo_last_get:
  "pool_get_key (demo_last [c]) key n w = Some (Some \<lparr>cp_conn = c, cp_deleter = True\<rparr>, demo_last [], w)"
  "pool_get_key (demo_last []) key n w = Some (None, demo_last [], w)"
  by (simp_all add: pool_get_key_def demo_last_slot pool_get_def) (simp_all add: demo_last_def demo_pool_def
      get_connection_def sentinel_mw_def sentinel_getConnection_def)

lemma demo_last_run:
  "runCommands roomy demo_libc 1 None [command_for [''GET'', ''a''], command_for [''GET'', ''b'']]
      (demo_last [demo_server [] 0]) (demo_world []) =
    Some ([no_reply, no_reply], [remains (command_for [''GET'', ''a'']), command_for [''GET'', ''b'']],
      demo_last [demo_server [] 0], demo_world [])"
proof -
  have "pool_release (Some \<lparr>cp_conn = demo_server [] 0, cp_deleter = True\<rparr>) (demo_last []) (demo_world []) =
      Some (demo_last [demo_server [] 0], demo_world [])"
    by (simp add: pool_release_def) (simp add: demo_last_def demo_pool_def)
  then show ?thesis
    by (simp add: runCommands_def runner_run_def mapCommandPerNode_def getKey_command demo_last_get numeral_2_eq_2)
qed

lemma failed_run_ruins_commands_witness:
  "runCommands roomy demo_libc 5 None [remains (command_for [''GET'', ''a'']), command_for [''GET'', ''b'']]
    (demo_pool []) (demo_world []) = None"
proof -
  have "remains (command_for [''GET'', ''a'']) \<noteq> command_for [''GET'', ''a'']"
    by (simp add: move_CCommand_def command_for_def)
  then show ?thesis using failed_run_ruins_commands [OF demo_last_run, of 5 None "demo_pool []" "demo_world []"] by simp
qed

section \<open>Asynchronous runners\<close>

text \<open>C9: however the operations of any number of asynchronous runners and of the handler are interleaved, up to
  \<open>2 ^ 64 - 1\<close> of them, a runner that started a task and did not yet ask for the result gets the future of the last
  task that it started, never one of another runner nor none; and the holder keeps no future but those that some
  runner waits for, and those that the next round of the handler drops.\<close>

theorem async_runner_gets_own:
  assumes "(task_step std_async ^^ n) (Map.empty, new_CTaskHolder) (R, h)" "n < 2 ^ 64"
  shows "(\<forall>x r f. R x = Some (r, Some f) \<longrightarrow> fst (async_getResult r h) = Some f) \<and>
    dom (mapTask h) = {ar_resultId r | x r f. R x = Some (r, Some f)} \<union> set (lstReturnedId h) \<and>
    {ar_resultId r | x r f. R x = Some (r, Some f)} \<inter> set (lstReturnedId h) = {}"
proof -
  note n = numberedD [OF steps_numbered [OF assms]]
  have w: "awaited R = {ar_resultId r | x r f. R x = Some (r, Some f)}"
    unfolding awaited_def using n(5,6) by (intro Collect_cong iffI) (metis not_None_eq, metis option.distinct(1))
  have "fst (async_getResult r h) = Some f" if "R x = Some (r, Some f)" for x r f
    using n(5,6) [OF that] by (auto simp: async_getResult_def holder_getResult_def)
  with n(3,4) show ?thesis unfolding w by blast
qed

lemma async_runner_gets_own_witness:
  "\<exists>R h r. (task_step (map getCommand) ^^ 2) (Map.empty, new_CTaskHolder) (R, h) \<and> R (1 :: nat) = Some (r, Some []) \<and>
    fst (async_getResult r h) = Some []"
proof -
  let ?r = "\<lparr>ar_lstCommand = [], ar_resultId = 0\<rparr>" and ?h = "new_CTaskHolder :: (bytes ptr \<times> nat) option list CTaskHolder"
  let ?R = "Map.empty(1 :: nat \<mapsto> (?r, None))"
  obtain r' h' where r': "async_run (map getCommand) ?r ?h = (r', h')" by (cases "async_run (map getCommand) ?r ?h")
  let ?R' = "?R(1 \<mapsto> (r', Some (map getCommand (ar_lstCommand ?r))))"
  have "task_step (map getCommand) (Map.empty, ?h) (?R, ?h)" by (rule task_step.new) simp
  moreover have "task_step (map getCommand) (?R, ?h) (?R', h')" by (rule task_step.run [OF _ r']) simp
  ultimately have s: "(task_step (map getCommand) ^^ 2) (Map.empty, ?h) (?R', h')"
    by (auto simp: numeral_2_eq_2)
  from async_runner_gets_own [OF this] have "fst (async_getResult r' h') = Some []" by simp
  with s show ?thesis by (intro exI [of _ ?R'] exI [of _ h'] exI [of _ r']) simp
qed

end
