(* ===== verification/Spec2Isabelle.thy ===== *)
theory Spec2Isabelle
  imports Async_Properties Context_Properties Net_Properties Sds_Properties Dict_Properties Reader_Properties Format_Properties
    Ssl_Properties Wrapper_Properties Pool_Properties Runner_Properties
begin

text \<open>
  A verification development for MCRedis: the C client library hiredis 0.14 that the repository
  carries in \<^verbatim>\<open>lib/hiredis\<close>, and the C++ layer over it in \<^verbatim>\<open>MCRedis/\<close> and \<^verbatim>\<open>src/\<close>.

  \<^bold>\<open>The program.\<close> A connection (\<^verbatim>\<open>redisContext\<close>) owns a socket, an output buffer (an SDS string), and
  a reader. A command is formatted in the protocol RESP and appended to the output buffer; the
  buffer is written to the socket; bytes that arrive are fed to the reader, a parser with an
  explicit task stack, which calls functions that build a tree of \<^verbatim>\<open>redisReply\<close> objects. The blocking
  API waits for the reply; the asynchronous API keeps a queue of callbacks and two hash tables of
  subscriptions, and is driven by the events of the socket. Over this lies the C++ layer: a
  \<^verbatim>\<open>CConnection\<close> owns a context and turns reply objects into \<^verbatim>\<open>CReply\<close> values; a middleware knows how to
  make connections to a server, to the master that a Sentinel names, or to the nodes of a cluster; a
  pool keeps connections by the last slot of their node; runners take connections from the pool and
  send commands on them, at once or in tasks.

  \<^bold>\<open>Conventions.\<close> A C function is a HOL function into \<^theory_text>\<open>option\<close>: \<^theory_text>\<open>None\<close> is undefined behaviour (an access
  outside of a block, the use of a null or freed pointer, a signed overflow), a failed assertion,
  an uncaught exception, or a loop that never ends; so a theorem that a function returns
  \<^theory_text>\<open>Some\<close> is a statement about memory safety and termination. Loops are structural recursions,
  or \<^theory_text>\<open>function\<close>s with a measure, or \<^theory_text>\<open>partial_function (option)\<close> where the code does not bound them; no
  model of code has fuel. The one bound is that of \<^theory_text>\<open>dict_iterate\<close>, the loop of a client over an
  iterator, for which any number above that of the entries is enough. Sizes are natural numbers that are reduced modulo \<open>2 ^ 64\<close>, \<^verbatim>\<open>int\<close> values
  are reduced with \<^theory_text>\<open>to_int\<close>, flags and hashes are words. Three things the code relies on are
  parameters: the allocator (which sizes \<^verbatim>\<open>malloc\<close> grants, and what a fresh block holds), the
  operating system (a script of answers to the system calls, with a log of the calls) and the
  texts of \<^verbatim>\<open>strerror\<close>, \<^verbatim>\<open>gai_strerror\<close> and \<^verbatim>\<open>vsnprintf\<close>. Every theorem holds for all of them, under the
  hypotheses that it states.

  \<^bold>\<open>Theories.\<close>
  \<^item> Prelude: pointers, blocks, the allocator, C integers, decimal numerals.
  \<^item> Sds, Sds_Text (\<^verbatim>\<open>sds.h\<close>, \<^verbatim>\<open>sds.c\<close>): strings with a header in five sizes; \<^theory_text>\<open>sds_ok\<close> is the invariant and
    \<^theory_text>\<open>sds_str\<close> the content. Creation, growth, and appending; then numerals, formats, trimming, ranges,
    splitting, joining, quoting and argument parsing.
  \<^item> Dict (\<^verbatim>\<open>dict.c\<close>): the chained hash table with rehashing; \<^theory_text>\<open>dict_ok\<close> is the invariant and \<^theory_text>\<open>dict_map\<close>
    the map it stands for. The contract of a map is the locale \<^theory_text>\<open>finite_map\<close>.
  \<^item> Protocol: RESP as a specification, \<^theory_text>\<open>encode\<close> and the incremental parser \<^theory_text>\<open>parse\<close>.
  \<^item> Reader (\<^verbatim>\<open>read.c\<close>), Reader_Correct: the reader refines \<^theory_text>\<open>parse\<close>, for all functions that build
    replies as the locale \<^theory_text>\<open>reply_builder\<close> asks.
  \<^item> Reply (\<^verbatim>\<open>hiredis.c\<close>), Reply_Correct: the default functions, on a heap of objects, are such a builder;
    \<^theory_text>\<open>denotes\<close> says which reply a tree of objects stands for.
  \<^item> Format (\<^verbatim>\<open>hiredis.c\<close>): commands from an argument vector or a format are encodings.
  \<^item> Net (\<^verbatim>\<open>net.c\<close>), Net_Correct: sockets, options, timeouts and the ways to connect.
  \<^item> Context (\<^verbatim>\<open>hiredis.c\<close>), Context_Correct: connections, moving bytes, commands and replies.
  \<^item> Callbacks, Async (\<^verbatim>\<open>async.h\<close>, \<^verbatim>\<open>async.c\<close>), Async_Correct: the callback lists are queues (locale
    \<^theory_text>\<open>fifo\<close>), replies and messages reach their callbacks, freeing runs every callback once.
  \<^item> Ssl (\<^verbatim>\<open>sslio.c\<close>, \<^verbatim>\<open>async.c\<close>, \<^verbatim>\<open>hiredis.c\<close>): the build with \<^verbatim>\<open>HIREDIS_SSL\<close>, with the functions of OpenSSL as a
    parameter; \<^theory_text>\<open>outgoing\<close> is the state of its output. The theories on the asynchronous and the C++ layer have the
    default build, without it.
  \<^item> Wrapper (\<^verbatim>\<open>Command.h\<close>, \<^verbatim>\<open>Reply.h\<close>, \<^verbatim>\<open>Reply.cpp\<close>, \<^verbatim>\<open>Connection.h\<close>, \<^verbatim>\<open>Connection.cpp\<close>), Wrapper_Correct: commands,
    replies and connections of the C++ layer, over the model of hiredis. The \<^theory_text>\<open>world\<close> has the scripts of
    the operating system for the next connections, the nets of those that are closed, the number of
    connection objects that are alive and the numbers of \<^verbatim>\<open>std::rand\<close>. \<^theory_text>\<open>serves\<close> is the state of a blocking
    connection between calls.
  \<^item> Hash_Slot (\<^verbatim>\<open>MiddleWare.cpp\<close>): the slot of a key.
  \<^item> Middle_Ware (\<^verbatim>\<open>MiddleWare.h\<close>, \<^verbatim>\<open>MiddleWare.cpp\<close>), Middle_Ware_Correct: which server a middleware connects to.
    Exceptions are values of a sum, or \<^theory_text>\<open>None\<close> where \<^verbatim>\<open>noexcept\<close> lets them end the program.
  \<^item> Pool (\<^verbatim>\<open>ConnectionPool.h\<close>, \<^verbatim>\<open>Helper.h\<close>), Pool_Correct: both pools. What a middleware promises is the locale
    \<^theory_text>\<open>middle_ware\<close>, and \<^theory_text>\<open>tidy_middle_ware\<close> if it loses no object; the default and the Sentinel middleware
    are tidy, the cluster middleware is not. \<^theory_text>\<open>pool_step\<close> are the steps of the users of a pool.
  \<^item> Runner (\<^verbatim>\<open>Runner.h\<close>), Runner_Correct, Task_Holder: both runners; which replies they give, and in which
    order; the numbers of tasks under all interleavings (\<^theory_text>\<open>task_step\<close>).
  \<^item> The theories named \<^theory_text>\<open>_Properties\<close> state the properties, each with a concrete instance.

  \<^bold>\<open>What the lemmas show.\<close> The operations on strings and tables keep their invariants and do what
  their abstractions say. The reader gives, for all byte strings and all ways to cut them, the
  result of the parser, without leaks. A command is the encoding of its arguments, and reading it
  back gives the arguments. On a blocking connection a command returns the next reply of the stream
  for all ways in which the kernel cuts the two streams; on an asynchronous one each reply reaches
  the callback whose turn it is. Connecting leaks no descriptor. The slot of a key is the checksum of its
  tag, and the connection that a pool gives for a key of a cluster goes to the node with that slot, as long
  as the node has connections in the pool or has to be asked for. Connections of a pool are never shared
  and never lost by it. A runner returns the replies to its commands in order. Several theorems state defects, which the
  manifest lists as findings.

  \<^bold>\<open>Not modelled.\<close> OpenSSL (not part of the repository), the locks and the log callback that \<^verbatim>\<open>sslio.c\<close> gives it,
  \<^verbatim>\<open>sockcompat.c\<close> (forwards to Winsock), the adapters to event
  libraries, the examples, and the test programs. Functions of the user are parameters. Of the C++ layer:
  the scheduling of \<^verbatim>\<open>std::async\<close> (the future of a task is what a function makes of its commands), the
  branches for the Microsoft compiler, and waiting (\<^verbatim>\<open>yield\<close>, \<^verbatim>\<open>sleep_for\<close>). Operations under the mutex of a
  pool or of the task holder are single steps; a data race outside of it is not modelled.
\<close>

end
